(* ===== verification/Stx_Prelude.thy ===== *)
theory Stx_Prelude
  imports Main "HOL-Library.Word" "HOL-Library.Sublist"
begin

text \<open>
  Shared vocabulary of the development.

  \<^item> Bytes and characters: a C++ \<open>uint8_t\<close> is a \<open>byte\<close> (an \<open>8 word\<close>), a \<open>char\<close> is a HOL
    \<open>char\<close>, a \<open>std::string\<close> is a \<open>string\<close>. \<open>byte_of\<close> and \<open>chr_of\<close> are the
    reinterpretation casts between the two.
  \<^item> Exceptions: \<open>RAISE(kXError, ...)\<close> of \<open>exception.h\<close> is the value \<open>Inl kXError\<close>; a
    computation that may raise has type \<open>'a result\<close> and is sequenced with \<open>bindE\<close>. The
    message text is not part of the model; \<open>OtherError\<close> is an exception whose type name is not one
    of the named kinds. \<open>StdException\<close> stands for an uncaught exception of
    the C++ standard library (\<open>std::invalid_argument\<close>, \<open>std::out_of_range\<close>);
    \<open>UndefinedBehaviour\<close> marks a read or write outside of an allocation.
  \<^item> The conversions of the C++ standard library the sources use: \<open>std::to_string\<close>,
    \<open>std::stoull\<close>, \<open>std::stoi\<close>, \<open>isdigit\<close>, \<open>tolower\<close>, \<open>toupper\<close>.
  \<^item> Generic lemmas on lists, words and digits.
\<close>

unbundle bit_operations_syntax

named_theorems result_simps \<open>equations for sequencing computations that may raise\<close>
named_theorems code_simps \<open>character codes and casts\<close>

section \<open>Bytes and characters\<close>

type_synonym byte = "8 word"
type_synonym u16 = "16 word"
type_synonym u32 = "32 word"
type_synonym u64 = "64 word"

abbreviation code :: "char \<Rightarrow> nat" where
  "code c \<equiv> of_char c"

definition byte_of :: "char \<Rightarrow> byte" where
  "byte_of c = word_of_nat (of_char c)"

definition chr_of :: "byte \<Rightarrow> char" where
  "chr_of b = char_of (unat b)"

abbreviation bytes_of :: "string \<Rightarrow> byte list" where
  "bytes_of s \<equiv> map byte_of s"

abbreviation string_of :: "byte list \<Rightarrow> string" where
  "string_of bs \<equiv> map chr_of bs"

lemma code_less_256 [simp]: "code c < 256"
proof -
  have "of_char c mod 256 = (of_char c :: nat)" by (rule of_char_mod_256)
  then show ?thesis
    by (metis mod_less_divisor zero_less_numeral)
qed

lemma chr_of_byte_of [simp]: "chr_of (byte_of c) = c"
  by (simp add: chr_of_def byte_of_def unat_of_nat of_char_mod_256)

lemma byte_of_chr_of [simp]: "byte_of (chr_of b) = b"
proof -
  have "unat b < 256"
    using unsigned_less [of b, where ?'a = nat] by simp
  then show ?thesis by (simp add: chr_of_def byte_of_def)
qed

lemma byte_of_inject [simp]: "byte_of c = byte_of d \<longleftrightarrow> c = d"
  by (metis chr_of_byte_of)

lemma chr_of_inject [simp]: "chr_of a = chr_of b \<longleftrightarrow> a = b"
  by (metis byte_of_chr_of)

lemma byte_of_comp_chr_of [simp]: "byte_of \<circ> chr_of = id" "chr_of \<circ> byte_of = id"
  by auto

lemma string_of_bytes_of [simp]: "string_of (bytes_of s) = s"
  by (simp add: map_idI)

lemma bytes_of_string_of [simp]: "bytes_of (string_of bs) = bs"
  by (simp add: map_idI)

lemma bytes_of_inject [simp]: "bytes_of s = bytes_of t \<longleftrightarrow> s = t"
  by (metis string_of_bytes_of)

lemma unat_byte_of [code_simps]: "unat (byte_of c) = code c"
  by (simp add: byte_of_def unat_of_nat)

lemma code_chr_of [code_simps]: "code (chr_of b) = unat b"
  by (metis byte_of_chr_of unat_byte_of)

lemma code_inject [simp]: "code c = code d \<longleftrightarrow> c = d"
  by (metis byte_of_def chr_of_byte_of)

section \<open>Exceptions\<close>

datatype stx_error =
    kAssertionError
  | kBufferOverflowError
  | kEncodingError
  | kEOFError
  | kFlagError
  | kIOError
  | kIllegalArgumentError
  | kIllegalStateError
  | kIndexError
  | kMallocError
  | kNotFoundError
  | kNotImplementedError
  | kParseError
  | kRuntimeError
  | kTypeError
  | kFutureError
  | kUsageError
  | OtherError
  | StdException
  | UndefinedBehaviour

type_synonym 'a result = "stx_error + 'a"

definition bindE :: "'a result \<Rightarrow> ('a \<Rightarrow> 'b result) \<Rightarrow> 'b result" where
  "bindE m f = (case m of Inl e \<Rightarrow> Inl e | Inr x \<Rightarrow> f x)"

lemma bindE_simps [simp, result_simps]:
  "bindE (Inl e) f = Inl e"
  "bindE (Inr x) f = f x"
  by (simp_all add: bindE_def)

lemma bindE_eq_Inr [result_simps]:
  "bindE m f = Inr y \<longleftrightarrow> (\<exists>x. m = Inr x \<and> f x = Inr y)"
  by (cases m) auto

lemma bindE_eq_Inl [result_simps]:
  "bindE m f = Inl e \<longleftrightarrow> m = Inl e \<or> (\<exists>x. m = Inr x \<and> f x = Inl e)"
  by (cases m) auto

lemma bindE_assoc: "bindE (bindE m f) g = bindE m (\<lambda>x. bindE (f x) g)"
  by (cases m) auto

lemma bindE_cong [fundef_cong]:
  "m = m' \<Longrightarrow> (\<And>x. m' = Inr x \<Longrightarrow> f x = f' x) \<Longrightarrow> bindE m f = bindE m' f'"
  by (cases m') auto

text \<open>
  A computation that may also fail to return (a loop with no bound, or a call through an interface
  that may loop): \<open>None\<close> is "does not return".
\<close>

type_synonym 'a comp = "'a result option"

definition bindC :: "'a comp \<Rightarrow> ('a \<Rightarrow> 'b comp) \<Rightarrow> 'b comp" where
  "bindC m f = Option.bind m (\<lambda>r. case r of Inl e \<Rightarrow> Some (Inl e) | Inr x \<Rightarrow> f x)"

abbreviation ret :: "'a \<Rightarrow> 'a comp" where
  "ret x \<equiv> Some (Inr x)"

abbreviation raise :: "stx_error \<Rightarrow> 'a comp" where
  "raise e \<equiv> Some (Inl e)"

lemma bindC_simps [simp, result_simps]:
  "bindC None f = None"
  "bindC (raise e) f = raise e"
  "bindC (ret x) f = f x"
  by (simp_all add: bindC_def)

lemma bindC_eq_ret [result_simps]:
  "bindC m f = ret y \<longleftrightarrow> (\<exists>x. m = ret x \<and> f x = ret y)"
proof (cases m)
  case None
  then show ?thesis by simp
next
  case (Some r)
  then show ?thesis by (cases r) auto
qed

lemma bindC_cong [fundef_cong]:
  "m = m' \<Longrightarrow> (\<And>x. m' = ret x \<Longrightarrow> f x = f' x) \<Longrightarrow> bindC m f = bindC m' f'"
  by (auto simp: bindC_def intro!: Option.bind_cong split: sum.splits)

lemma bindC_mono [partial_function_mono]:
  assumes "mono_option B" and "\<And>y. mono_option (\<lambda>f. C y f)"
  shows "mono_option (\<lambda>f. bindC (B f) (\<lambda>y. C y f))"
  unfolding bindC_def
proof (intro bind_mono assms)
  fix r
  show "mono_option (\<lambda>f. case r of Inl e \<Rightarrow> Some (Inl e) | Inr x \<Rightarrow> C x f)"
    by (cases r) (simp_all add: assms option.const_mono)
qed

section \<open>Character classes and case mapping\<close>

definition isdigit :: "char \<Rightarrow> bool" where
  "isdigit c \<longleftrightarrow> 48 \<le> code c \<and> code c \<le> 57"

definition isspace :: "char \<Rightarrow> bool" where
  "isspace c \<longleftrightarrow> code c = 32 \<or> (9 \<le> code c \<and> code c \<le> 13)"

definition tolower :: "char \<Rightarrow> char" where
  "tolower c = (if 65 \<le> code c \<and> code c \<le> 90 then char_of (code c + 32) else c)"

definition toupper :: "char \<Rightarrow> char" where
  "toupper c = (if 97 \<le> code c \<and> code c \<le> 122 then char_of (code c - 32) else c)"

lemma code_tolower:
  "code (tolower c) = (if 65 \<le> code c \<and> code c \<le> 90 then code c + 32 else code c)"
  by (simp add: tolower_def)

lemma code_toupper:
  "code (toupper c) = (if 97 \<le> code c \<and> code c \<le> 122 then code c - 32 else code c)"
  by (auto simp: toupper_def)

lemma tolower_idem [simp]: "tolower (tolower c) = tolower c"
  by (simp flip: code_inject add: code_tolower)

lemma toupper_idem [simp]: "toupper (toupper c) = toupper c"
  by (auto simp flip: code_inject simp: code_toupper)

section \<open>Decimal numbers\<close>

definition digit_char :: "nat \<Rightarrow> char" where
  "digit_char d = char_of (48 + d)"

fun to_string :: "nat \<Rightarrow> string" where
  "to_string n =
     (if n < 10 then [digit_char n] else to_string (n div 10) @ [digit_char (n mod 10)])"

declare to_string.simps [simp del]

definition digit_value :: "char \<Rightarrow> nat" where
  "digit_value c = code c - 48"

definition digits_value :: "string \<Rightarrow> nat" where
  "digits_value ds = foldl (\<lambda>a c. a * 10 + digit_value c) 0 ds"

text \<open>
  The common part of \<open>strtol\<close> and \<open>strtoull\<close> in base 10: skip white space, read an optional
  sign and the longest run of digits. The result is the sign, the digits and the number of
  characters consumed; \<open>None\<close> when there is no digit.
\<close>

definition strto_prefix :: "string \<Rightarrow> (bool \<times> string \<times> nat) option" where
  "strto_prefix s =
     (let ws = takeWhile isspace s;
          r = dropWhile isspace s;
          signed = (case r of [] \<Rightarrow> False | c # _ \<Rightarrow> c = CHR ''-'' \<or> c = CHR ''+'');
          neg = (case r of [] \<Rightarrow> False | c # _ \<Rightarrow> c = CHR ''-'');
          r' = (if signed then tl r else r);
          ds = takeWhile isdigit r'
      in if ds = [] then None
         else Some (neg, ds, length ws + (if signed then 1 else 0) + length ds))"

text \<open>
  \<open>std::stoull(s, &pos)\<close>: raises without a digit and when the value does not fit; a minus sign
  negates in 64-bit arithmetic. On the 64-bit targets of the library \<open>std::stoul\<close> is the same.
\<close>

definition stoull :: "string \<Rightarrow> (u64 \<times> nat) result" where
  "stoull s = (case strto_prefix s of
       None \<Rightarrow> Inl StdException
     | Some (neg, ds, pos) \<Rightarrow>
         (let v = digits_value ds
          in if v < 2 ^ 64
             then Inr (if neg then - word_of_nat v else word_of_nat v, pos)
             else Inl StdException))"

definition stoul :: "string \<Rightarrow> u64 result" where
  "stoul s = bindE (stoull s) (\<lambda>r. Inr (fst r))"

definition stoi :: "string \<Rightarrow> int result" where
  "stoi s = (case strto_prefix s of
       None \<Rightarrow> Inl StdException
     | Some (neg, ds, pos) \<Rightarrow>
         (let v = (if neg then - int (digits_value ds) else int (digits_value ds))
          in if - (2 ^ 31) \<le> v \<and> v < 2 ^ 31 then Inr v else Inl StdException))"

text \<open>For evaluation: the bound is compared as an integer.\<close>

lemma stoull_code [code]:
  "stoull s = (case strto_prefix s of
       None \<Rightarrow> Inl StdException
     | Some (neg, ds, pos) \<Rightarrow>
         (let v = digits_value ds
          in if int v < 18446744073709551616
             then Inr (if neg then - word_of_nat v else word_of_nat v, pos)
             else Inl StdException))"
  by (simp add: stoull_def Let_def split: option.splits)

lemma isdigit_digit_char [simp]: "d < 10 \<Longrightarrow> isdigit (digit_char d)"
  by (simp add: isdigit_def digit_char_def)

lemma digit_value_digit_char [simp]: "d < 10 \<Longrightarrow> digit_value (digit_char d) = d"
  by (simp add: digit_value_def digit_char_def)

lemma digits_value_snoc [simp]:
  "digits_value (ds @ [c]) = digits_value ds * 10 + digit_value c"
  by (simp add: digits_value_def)

lemma to_string_nonempty [simp]: "to_string n \<noteq> []"
  by (subst to_string.simps) simp

lemma to_string_digits: "c \<in> set (to_string n) \<Longrightarrow> isdigit c"
proof (induction n rule: to_string.induct)
  case (1 n)
  then show ?case
    by (cases "n < 10") (auto simp: to_string.simps [of n])
qed

lemma length_to_string_le: "n < 10 ^ Suc k \<Longrightarrow> length (to_string n) \<le> Suc k"
proof (induction k arbitrary: n)
  case (Suc k)
  then have "n div 10 < 10 ^ Suc k" by (simp add: less_mult_imp_div_less)
  with Suc.IH [of "n div 10"] show ?case by (simp add: to_string.simps [of n])
qed (simp add: to_string.simps)

lemma digits_value_to_string [simp]: "digits_value (to_string n) = n"
proof (induction n rule: to_string.induct)
  case (1 n)
  show ?case
  proof (cases "n < 10")
    case True
    then show ?thesis by (simp add: to_string.simps [of n] digits_value_def)
  next
    case False
    with 1 have "digits_value (to_string (n div 10)) = n div 10" by simp
    with False show ?thesis by (simp add: to_string.simps [of n])
  qed
qed

lemma to_string_inject [simp]: "to_string m = to_string n \<longleftrightarrow> m = n"
  by (metis digits_value_to_string)

lemma isdigit_not_space: "isdigit c \<Longrightarrow> \<not> isspace c"
  by (auto simp: isdigit_def isspace_def)

lemma isdigit_not_sign: "isdigit c \<Longrightarrow> c \<noteq> CHR ''-'' \<and> c \<noteq> CHR ''+''"
  by (auto simp: isdigit_def)

lemma takeWhile_isdigit_to_string:
  "(\<forall>c \<in> set (take 1 r). \<not> isdigit c) \<Longrightarrow>
   takeWhile isdigit (to_string n @ r) = to_string n"
proof -
  assume r: "\<forall>c \<in> set (take 1 r). \<not> isdigit c"
  have "takeWhile isdigit (to_string n @ r) = to_string n @ takeWhile isdigit r"
    by (rule takeWhile_append2) (rule to_string_digits)
  moreover from r have "takeWhile isdigit r = []"
    by (cases r) auto
  ultimately show ?thesis by simp
qed

lemma strto_prefix_to_string:
  assumes "\<forall>c \<in> set (take 1 r). \<not> isdigit c"
  shows "strto_prefix (to_string n @ r) = Some (False, to_string n, length (to_string n))"
proof -
  obtain c cs where eq: "to_string n = c # cs"
    using to_string_nonempty [of n] by (cases "to_string n") auto
  then have c: "isdigit c"
    using to_string_digits [of c n] by simp
  have ds: "takeWhile isdigit (c # cs @ r) = c # cs"
    using takeWhile_isdigit_to_string [OF assms, of n] eq by simp
  from c isdigit_not_space isdigit_not_sign have "\<not> isspace c" "c \<noteq> CHR ''-''" "c \<noteq> CHR ''+''"
    by auto
  with ds eq show ?thesis
    by (simp add: strto_prefix_def Let_def)
qed

lemma stoull_to_string [simp]:
  "n < 2 ^ 64 \<Longrightarrow> stoull (to_string n) = Inr (word_of_nat n, length (to_string n))"
  using strto_prefix_to_string [of "[]" n] by (simp add: stoull_def)

lemma stoul_to_string [simp]: "n < 2 ^ 64 \<Longrightarrow> stoul (to_string n) = Inr (word_of_nat n)"
  by (simp add: stoul_def)

lemma stoi_to_string [simp]: "n < 2 ^ 31 \<Longrightarrow> stoi (to_string n) = Inr (int n)"
  using strto_prefix_to_string [of "[]" n] by (simp add: stoi_def)

section \<open>Lists\<close>

lemma takeWhile_append_stop [simp]:
  "(\<forall>x \<in> set xs. P x) \<Longrightarrow> \<not> P y \<Longrightarrow> takeWhile P (xs @ y # ys) = xs"
  by (simp add: takeWhile_append2)

lemma dropWhile_append_stop [simp]:
  "(\<forall>x \<in> set xs. P x) \<Longrightarrow> \<not> P y \<Longrightarrow> dropWhile P (xs @ y # ys) = y # ys"
  by (simp add: dropWhile_append2)

lemma span_append:
  assumes "list_all P xs" "r = [] \<or> \<not> P (hd r)"
  shows "takeWhile P (xs @ r) = xs" "dropWhile P (xs @ r) = r"
  using assms by (induction xs) (cases r; auto)+

lemma span_all:
  assumes "list_all P xs"
  shows "takeWhile P xs = xs" "dropWhile P xs = []"
  using assms by (induction xs) auto

lemma length_dropWhile_less:
  "xs \<noteq> [] \<Longrightarrow> P (hd xs) \<Longrightarrow> length (dropWhile P xs) < length xs"
  by (cases xs) (auto simp: length_dropWhile_le le_imp_less_Suc)

lemma take_takeWhile_length: "take (length (takeWhile P xs)) xs = takeWhile P xs"
  by (metis takeWhile_eq_take)

lemma drop_takeWhile_length: "drop (length (takeWhile P xs)) xs = dropWhile P xs"
  by (metis dropWhile_eq_drop)

lemma unat_add_uminus:
  assumes "0 < (x :: 'a::len word)"
  shows "unat x + unat (- x) = 2 ^ LENGTH('a)"
proof -
  have "0 < uint x" using assms by (simp add: word_less_def)
  moreover have "uint x < 2 ^ LENGTH('a)" by (rule uint_lt2p)
  ultimately have "uint (- x) = 2 ^ LENGTH('a) - uint x"
    by (simp add: uint_word_ariths(4) zmod_zminus1_eq_if)
  then have "int (unat x + unat (- x)) = int (2 ^ LENGTH('a))" by (simp flip: uint_nat)
  then show ?thesis by (simp only: of_nat_eq_iff)
qed

end
