(* ===== verification/Stx_Buffer.thy ===== *)
theory Stx_Buffer
  imports Stx_Prelude
begin

text \<open>
  \<open>Buffer\<close> (\<open>buffer.h\<close>, \<open>buffer.cc\<close>), \<open>BufferUtil\<close> (\<open>bufferutil.cc\<close>) and
  \<open>BufferedOutputStream\<close> (\<open>io/BufferedOutputStream.cc\<close>).

  A buffer is its backing allocation \<open>mem\<close> (whose length is \<open>alloc_\<close>), the logical size and the
  mark. A cell of the allocation that was never written is \<open>None\<close>; a mark a constructor leaves
  uninitialised is \<open>None\<close> too. Allocation never fails in the model (\<open>kMallocError\<close>), and sizes
  are natural numbers: \<open>size_ + size\<close> of two live allocations does not overflow \<open>size_t\<close>.

  The interface \<open>byte_sink\<close> is what the writers of the library rely on; it is provided here by
  \<open>Buffer\<close> and, in other theories, by the output streams and the binary message writer.
\<close>

section \<open>Buffer\<close>

record buffer =
  mem :: "byte option list"
  bsize :: nat
  bmark :: "nat option"

abbreviation balloc :: "buffer \<Rightarrow> nat" where
  "balloc b \<equiv> length (mem b)"

definition buffer_new :: buffer where
  "buffer_new = \<lparr>mem = [], bsize = 0, bmark = Some 0\<rparr>"

definition buffer_of_data :: "byte list \<Rightarrow> buffer" where
  "buffer_of_data bs = \<lparr>mem = map Some bs, bsize = length bs, bmark = Some 0\<rparr>"

definition buffer_of_size :: "nat \<Rightarrow> buffer" where
  "buffer_of_size n = \<lparr>mem = replicate n None, bsize = n, bmark = Some 0\<rparr>"

definition buffer_copy :: "buffer \<Rightarrow> buffer" where
  "buffer_copy c = \<lparr>mem = take (bsize c) (mem c), bsize = bsize c, bmark = None\<rparr>"

definition buffer_assign :: "buffer \<Rightarrow> buffer \<Rightarrow> buffer" where
  "buffer_assign b c = b\<lparr>mem := take (bsize c) (mem c), bsize := bsize c\<rparr>"

definition buffer_move :: "buffer \<Rightarrow> buffer \<times> buffer" where
  "buffer_move m = (m\<lparr>bmark := Some 0\<rparr>, m\<lparr>mem := [], bsize := 0\<rparr>)"

definition buffer_move_assign :: "buffer \<Rightarrow> buffer \<Rightarrow> buffer \<times> buffer" where
  "buffer_move_assign b m = (m, m\<lparr>mem := [], bsize := 0, bmark := Some 0\<rparr>)"

definition reserve :: "nat \<Rightarrow> buffer \<Rightarrow> buffer" where
  "reserve n b = b\<lparr>mem := mem b @ replicate n None\<rparr>"

definition append_bytes :: "byte list \<Rightarrow> buffer \<Rightarrow> buffer" where
  "append_bytes bs b =
     (let n = length bs;
          b' = (if bsize b + n > balloc b then reserve ((bsize b + n) - balloc b) b else b)
      in b'\<lparr>mem := take (bsize b') (mem b') @ map Some bs @ drop (bsize b' + n) (mem b'),
           bsize := bsize b' + n\<rparr>)"

definition truncate_buffer :: "nat \<Rightarrow> buffer \<Rightarrow> buffer result" where
  "truncate_buffer n b = (if n > bsize b then Inl kIndexError else Inr (b\<lparr>bsize := n\<rparr>))"

definition resize :: "nat \<Rightarrow> buffer \<Rightarrow> buffer" where
  "resize n b =
     (let b' = b\<lparr>bsize := n\<rparr>
      in if n > balloc b' then reserve (n - balloc b') b' else b')"

definition clear_buffer :: "buffer \<Rightarrow> buffer" where
  "clear_buffer b = b\<lparr>bsize := 0, bmark := Some 0\<rparr>"

text \<open>The logical contents; \<open>toString\<close> and \<open>data\<close> with \<open>size\<close> read exactly these bytes.\<close>

definition contents :: "buffer \<Rightarrow> byte list" where
  "contents b = map the (take (bsize b) (mem b))"

definition buffer_toString :: "buffer \<Rightarrow> string" where
  "buffer_toString b = string_of (contents b)"

definition charAt :: "buffer \<Rightarrow> nat \<Rightarrow> char result" where
  "charAt b pos = (if pos \<ge> bsize b then Inl kIndexError else Inr (chr_of (the (mem b ! pos))))"

fun find_from :: "nat \<Rightarrow> char \<Rightarrow> byte list \<Rightarrow> nat option" where
  "find_from n chr [] = None"
| "find_from n chr (x # xs) = (if chr_of x = chr then Some n else find_from (Suc n) chr xs)"

definition find_char :: "buffer \<Rightarrow> char \<Rightarrow> nat option" where
  "find_char b chr = find_from 0 chr (contents b)"

definition remaining :: "buffer \<Rightarrow> nat" where
  "remaining b = balloc b - bsize b"

definition buffer_eq_cstr :: "buffer \<Rightarrow> string \<Rightarrow> bool" where
  "buffer_eq_cstr b str = (if length str \<noteq> bsize b then False else contents b = bytes_of str)"

definition setMark :: "nat \<Rightarrow> buffer \<Rightarrow> buffer" where
  "setMark m b = b\<lparr>bmark := Some m\<rparr>"

subsection \<open>Invariants\<close>

text \<open>The class comment: the capacity is always at least the logical size.\<close>

definition buffer_wf :: "buffer \<Rightarrow> bool" where
  "buffer_wf b \<longleftrightarrow> bsize b \<le> balloc b"

text \<open>Every byte below the logical size has been written.\<close>

definition buffer_init :: "buffer \<Rightarrow> bool" where
  "buffer_init b \<longleftrightarrow> buffer_wf b \<and> (\<forall>i < bsize b. mem b ! i \<noteq> None)"

lemma buffer_init_wf [intro]: "buffer_init b \<Longrightarrow> buffer_wf b"
  by (simp add: buffer_init_def)

lemma length_contents [simp]: "buffer_wf b \<Longrightarrow> length (contents b) = bsize b"
  by (simp add: contents_def buffer_wf_def)

lemma contents_new [simp]: "contents buffer_new = []" "buffer_init buffer_new"
  by (simp_all add: contents_def buffer_new_def buffer_init_def buffer_wf_def)

lemma contents_of_data [simp]: "contents (buffer_of_data bs) = bs" "buffer_init (buffer_of_data bs)"
  by (simp_all add: contents_def buffer_of_data_def buffer_init_def buffer_wf_def comp_def)

lemma buffer_of_data_new: "buffer_of_data [] = buffer_new"
  by (simp add: buffer_of_data_def buffer_new_def)

lemma append_bytes_wf [simp]:
  assumes "buffer_wf b"
  shows "buffer_wf (append_bytes bs b)" and "bsize (append_bytes bs b) = bsize b + length bs"
  using assms by (auto simp: append_bytes_def buffer_wf_def reserve_def Let_def)

lemma balloc_append_bytes [simp]:
  "buffer_wf b \<Longrightarrow> balloc (append_bytes bs b) = max (balloc b) (bsize b + length bs)"
  by (auto simp: append_bytes_def buffer_wf_def reserve_def Let_def)

lemma contents_append_bytes [simp]:
  "buffer_wf b \<Longrightarrow> contents (append_bytes bs b) = contents b @ bs"
  by (auto simp: contents_def append_bytes_def buffer_wf_def reserve_def Let_def comp_def)

lemma append_bytes_init [simp]:
  assumes "buffer_init b"
  shows "buffer_init (append_bytes bs b)"
  unfolding buffer_init_def
proof (intro conjI allI impI)
  from assms have wf: "buffer_wf b" by blast
  then show "buffer_wf (append_bytes bs b)" by simp
  fix i assume "i < bsize (append_bytes bs b)"
  with wf have i: "i < bsize b + length bs" by simp
  from wf have "bsize b \<le> balloc b" by (simp add: buffer_wf_def)
  with i assms show "mem (append_bytes bs b) ! i \<noteq> None"
    by (auto simp: append_bytes_def Let_def reserve_def nth_append buffer_init_def)
qed

lemma truncate_buffer_contents:
  "buffer_wf b \<Longrightarrow> n \<le> bsize b \<Longrightarrow>
   \<exists>b'. truncate_buffer n b = Inr b' \<and> buffer_wf b' \<and> contents b' = take n (contents b) \<and>
        balloc b' = balloc b"
  by (simp add: truncate_buffer_def contents_def buffer_wf_def take_map [symmetric] min_def)

lemma resize_wf [simp]: "buffer_wf (resize n b)" "bsize (resize n b) = n"
  by (auto simp: resize_def buffer_wf_def reserve_def Let_def)

lemma contents_resize_shrink:
  "n \<le> bsize b \<Longrightarrow> buffer_wf b \<Longrightarrow> contents (resize n b) = take n (contents b)"
  by (simp add: resize_def contents_def buffer_wf_def Let_def take_map [symmetric] min_def)

lemma clear_buffer_simps [simp]:
  "contents (clear_buffer b) = []" "buffer_init (clear_buffer b)" "balloc (clear_buffer b) = balloc b"
  "bsize (clear_buffer b) = 0"
  by (simp_all add: clear_buffer_def contents_def buffer_init_def buffer_wf_def)

lemma contents_reserve [simp]:
  "buffer_wf b \<Longrightarrow> contents (reserve n b) = contents b"
  "buffer_wf b \<Longrightarrow> buffer_wf (reserve n b)"
  "balloc (reserve n b) = balloc b + n"
  "bsize (reserve n b) = bsize b"
  by (auto simp: reserve_def contents_def buffer_wf_def)

lemma contents_copy [simp]:
  "buffer_wf b \<Longrightarrow> contents (buffer_copy b) = contents b"
  "buffer_wf b \<Longrightarrow> buffer_wf (buffer_copy b)"
  by (auto simp: buffer_copy_def contents_def buffer_wf_def)

lemma find_from_eq:
  "find_from n chr xs =
     (if chr \<in> set (string_of xs) then Some (n + length (takeWhile (\<lambda>x. x \<noteq> chr) (string_of xs)))
      else None)"
  by (induction xs arbitrary: n) auto

lemma find_char_eq:
  "find_char b chr =
     (if chr \<in> set (buffer_toString b)
      then Some (length (takeWhile (\<lambda>x. x \<noteq> chr) (buffer_toString b))) else None)"
  by (simp add: find_char_def find_from_eq buffer_toString_def)

lemma charAt_contents:
  "buffer_wf b \<Longrightarrow> pos < bsize b \<Longrightarrow> charAt b pos = Inr (chr_of (contents b ! pos))"
  by (simp add: charAt_def contents_def buffer_wf_def)

section \<open>BufferUtil\<close>

fun strip_pos :: "byte list \<Rightarrow> byte \<Rightarrow> nat \<Rightarrow> nat" where
  "strip_pos d x 0 = 0"
| "strip_pos d x (Suc cur) = (if d ! cur = x then strip_pos d x cur else Suc cur)"

definition stripTrailingBytes :: "byte \<Rightarrow> buffer \<Rightarrow> buffer result" where
  "stripTrailingBytes x b = truncate_buffer (strip_pos (contents b) x (bsize b)) b"

definition stripTrailingSlashes_buffer :: "buffer \<Rightarrow> buffer result" where
  "stripTrailingSlashes_buffer b = stripTrailingBytes (byte_of (CHR ''/'')) b"

definition hexTable :: string where
  "hexTable = ''0123456789abcdef''"

definition hex_pair :: "byte \<Rightarrow> string" where
  "hex_pair x = [hexTable ! unat (drop_bit 4 (x AND 0xf0)), hexTable ! unat (x AND 0x0f)]"

fun hexPrint_loop :: "bool \<Rightarrow> bool \<Rightarrow> byte list \<Rightarrow> string" where
  "hexPrint_loop sep first [] = []"
| "hexPrint_loop sep first (x # xs) =
     (if sep \<and> \<not> first then '' '' else []) @ hex_pair x @ hexPrint_loop sep False xs"

definition hexPrint :: "buffer \<Rightarrow> bool \<Rightarrow> bool \<Rightarrow> string" where
  "hexPrint b sep reverse =
     hexPrint_loop sep True (if reverse then rev (contents b) else contents b)"

lemma strip_pos_le [simp]: "strip_pos d x n \<le> n"
  by (induction n) auto

lemma take_strip_pos:
  "n \<le> length d \<Longrightarrow> take (strip_pos d x n) d = rev (dropWhile ((=) x) (rev (take n d)))"
  by (induction n) (auto simp: take_Suc_conv_app_nth)

lemma stripTrailingBytes_contents:
  assumes "buffer_wf b"
  shows "\<exists>b'. stripTrailingBytes x b = Inr b' \<and> buffer_wf b' \<and>
           contents b' = rev (dropWhile ((=) x) (rev (contents b)))"
  using truncate_buffer_contents [OF assms, of "strip_pos (contents b) x (bsize b)"]
    take_strip_pos [of "bsize b" "contents b" x] assms
  by (auto simp: stripTrailingBytes_def)

section \<open>Byte sinks\<close>

text \<open>
  The contract every writer of the library offers its clients: a write returns, raises nothing and
  appends exactly the given bytes to what was written before.
\<close>

locale byte_sink =
  fixes put :: "byte list \<Rightarrow> 'o \<Rightarrow> 'o comp"
    and written :: "'o \<Rightarrow> byte list"
    and invar :: "'o \<Rightarrow> bool"
  assumes put_ok: "invar s \<Longrightarrow> \<exists>s'. put bs s = ret s' \<and> invar s' \<and> written s' = written s @ bs"
begin

lemma put_written:
  "invar s \<Longrightarrow> put bs s = ret s' \<Longrightarrow> invar s' \<and> written s' = written s @ bs"
  using put_ok [of s bs] by auto

lemma put_obtain:
  assumes "invar s"
  obtains s' where "put bs s = ret s'" "invar s'" "written s' = written s @ bs"
  using put_ok [OF assms] by blast

lemma put_twice:
  assumes "invar s"
  shows "\<exists>s'. bindC (put as s) (put bs) = ret s' \<and> invar s' \<and> written s' = written s @ as @ bs"
proof -
  obtain s1 where "put as s = ret s1" "invar s1" "written s1 = written s @ as"
    using assms by (rule put_obtain)
  moreover obtain s2 where "put bs s1 = ret s2" "invar s2" "written s2 = written s1 @ bs"
    using \<open>invar s1\<close> by (rule put_obtain)
  ultimately show ?thesis by simp
qed

end

definition buffer_put :: "byte list \<Rightarrow> buffer \<Rightarrow> buffer comp" where
  "buffer_put bs b = ret (append_bytes bs b)"

interpretation buf_sink: byte_sink buffer_put contents buffer_init
  by unfold_locales (simp add: buffer_put_def buffer_init_wf)

section \<open>BufferedOutputStream\<close>

record 'o buffered_os =
  bos_buf :: buffer
  bos_os :: 'o

definition bos_new :: "'o \<Rightarrow> nat \<Rightarrow> 'o buffered_os" where
  "bos_new os buffer_size = \<lparr>bos_buf = reserve buffer_size buffer_new, bos_os = os\<rparr>"

definition bos_flush :: "(byte list \<Rightarrow> 'o \<Rightarrow> 'o comp) \<Rightarrow> 'o buffered_os \<Rightarrow> 'o buffered_os comp" where
  "bos_flush put s =
     (if bsize (bos_buf s) = 0 then ret s
      else bindC (put (contents (bos_buf s)) (bos_os s))
             (\<lambda>os'. ret (s\<lparr>bos_os := os', bos_buf := clear_buffer (bos_buf s)\<rparr>)))"

partial_function (option) bos_chunks ::
  "(byte list \<Rightarrow> 'o \<Rightarrow> 'o comp) \<Rightarrow> nat \<Rightarrow> byte list \<Rightarrow> 'o \<Rightarrow> (byte list \<times> 'o) comp" where
  "bos_chunks put cap rest os =
     (if length rest > cap
      then bindC (put (take cap rest) os) (\<lambda>os'. bos_chunks put cap (drop cap rest) os')
      else ret (rest, os))"

declare bos_chunks.simps [code]

definition bos_write ::
  "(byte list \<Rightarrow> 'o \<Rightarrow> 'o comp) \<Rightarrow> byte list \<Rightarrow> 'o buffered_os \<Rightarrow> 'o buffered_os comp" where
  "bos_write put data s =
     (if length data \<le> remaining (bos_buf s)
      then ret (s\<lparr>bos_buf := append_bytes data (bos_buf s)\<rparr>)
      else
        (let consumed = remaining (bos_buf s);
             s1 = (if consumed > 0
                   then s\<lparr>bos_buf := append_bytes (take consumed data) (bos_buf s)\<rparr> else s)
         in bindC (bos_flush put s1) (\<lambda>s2.
            bindC (bos_chunks put (balloc (bos_buf s2)) (drop consumed data) (bos_os s2))
              (\<lambda>(rest, os').
                 ret (s2\<lparr>bos_os := os',
                         bos_buf := (if rest \<noteq> [] then append_bytes rest (bos_buf s2)
                                     else bos_buf s2)\<rparr>)))))"

definition bos_written :: "('o \<Rightarrow> byte list) \<Rightarrow> 'o buffered_os \<Rightarrow> byte list" where
  "bos_written w s = w (bos_os s) @ contents (bos_buf s)"

definition bos_invar :: "('o \<Rightarrow> bool) \<Rightarrow> nat \<Rightarrow> 'o buffered_os \<Rightarrow> bool" where
  "bos_invar iv cap s \<longleftrightarrow>
     iv (bos_os s) \<and> buffer_init (bos_buf s) \<and> balloc (bos_buf s) = cap \<and> 0 < cap"

context byte_sink
begin

lemma bos_chunks_ok:
  "0 < cap \<Longrightarrow> invar s \<Longrightarrow>
   \<exists>rest s'. bos_chunks put cap data s = ret (rest, s') \<and> invar s' \<and>
     length rest \<le> cap \<and> written s' @ rest = written s @ data"
proof (induction "length data" arbitrary: data s rule: less_induct)
  case less
  show ?case
  proof (cases "length data > cap")
    case False
    then show ?thesis using less.prems by (simp add: bos_chunks.simps)
  next
    case True
    obtain s1 where s1: "put (take cap data) s = ret s1" "invar s1"
      "written s1 = written s @ take cap data"
      using \<open>invar s\<close> by (rule put_obtain)
    have "length (drop cap data) < length data" using True less.prems by simp
    from less.hyps [OF this \<open>0 < cap\<close> s1(2)] obtain rest s' where
      "bos_chunks put cap (drop cap data) s1 = ret (rest, s')" "invar s'" "length rest \<le> cap"
      "written s' @ rest = written s1 @ drop cap data" by blast
    then show ?thesis
      using True s1 by (subst bos_chunks.simps) simp
  qed
qed

lemma bos_flush_ok:
  assumes "bos_invar invar cap s"
  shows "\<exists>s'. bos_flush put s = ret s' \<and> bos_invar invar cap s' \<and>
           bos_written written s' = bos_written written s \<and> bsize (bos_buf s') = 0"
proof (cases "bsize (bos_buf s) = 0")
  case True
  then show ?thesis using assms by (simp add: bos_flush_def)
next
  case False
  obtain o1 where "put (contents (bos_buf s)) (bos_os s) = ret o1" "invar o1"
    "written o1 = written (bos_os s) @ contents (bos_buf s)"
    using assms put_obtain by (auto simp: bos_invar_def)
  with False assms show ?thesis
    by (simp add: bos_flush_def bos_invar_def bos_written_def)
qed

lemma bos_write_ok:
  assumes "bos_invar invar cap s"
  shows "\<exists>s'. bos_write put data s = ret s' \<and> bos_invar invar cap s' \<and>
           bos_written written s' = bos_written written s @ data"
proof -
  let ?b = "bos_buf s" and ?c = "remaining (bos_buf s)"
  have b: "buffer_init ?b" "buffer_wf ?b" "balloc ?b = cap" "invar (bos_os s)" "0 < cap"
    "bsize ?b \<le> cap"
    using assms by (auto simp: bos_invar_def buffer_init_def buffer_wf_def)
  show ?thesis
  proof (cases "length data \<le> ?c")
    case True
    then show ?thesis
      using b by (auto simp: bos_write_def bos_invar_def bos_written_def remaining_def)
  next
    case False
    define s1 where "s1 = (if ?c > 0 then s\<lparr>bos_buf := append_bytes (take ?c data) ?b\<rparr> else s)"
    have s1: "bos_invar invar cap s1" "bos_written written s1 = bos_written written s @ take ?c data"
      using False b by (auto simp: s1_def bos_invar_def bos_written_def remaining_def)
    obtain s2 where s2: "bos_flush put s1 = ret s2" "bos_invar invar cap s2"
      "bos_written written s2 = bos_written written s1" "bsize (bos_buf s2) = 0"
      using bos_flush_ok [OF s1(1)] by blast
    then have b2: "invar (bos_os s2)" "buffer_init (bos_buf s2)" "buffer_wf (bos_buf s2)"
      "balloc (bos_buf s2) = cap" "contents (bos_buf s2) = []"
      by (auto simp: bos_invar_def contents_def)
    obtain rest o' where r: "bos_chunks put cap (drop ?c data) (bos_os s2) = ret (rest, o')"
      "invar o'" "length rest \<le> cap" "written o' @ rest = written (bos_os s2) @ drop ?c data"
      using bos_chunks_ok [OF \<open>0 < cap\<close> b2(1)] by blast
    have "bos_write put data s = ret (s2\<lparr>bos_os := o',
        bos_buf := (if rest \<noteq> [] then append_bytes rest (bos_buf s2) else bos_buf s2)\<rparr>)"
      using False s2(1) r(1) b2(4) by (simp add: bos_write_def Let_def s1_def)
    then show ?thesis
      using s1(2) s2(3,4) b2 r b(5) by (auto simp: bos_invar_def bos_written_def)
  qed
qed

end

text \<open>
  A buffered stream over a sink is a sink again, whatever its (non-zero) capacity: nothing is
  lost, duplicated or reordered, whether the bytes are still in the buffer or already passed on.
\<close>

locale buffered_sink = byte_sink put written invar
  for put :: "byte list \<Rightarrow> 'o \<Rightarrow> 'o comp" and written invar +
  fixes cap :: nat
begin

sublocale bos: byte_sink "bos_write put" "bos_written written" "bos_invar invar cap"
  by unfold_locales (rule bos_write_ok)

end

interpretation buffered_buffer: buffered_sink buffer_put contents buffer_init 4096
  by unfold_locales

lemma buffered_buffer_sink:
  "byte_sink (bos_write buffer_put) (bos_written contents) (bos_invar buffer_init cap)"
  by unfold_locales (rule buf_sink.bos_write_ok)

section \<open>Properties\<close>

text \<open>\<open>Buffer::append\<close> keeps the buffer well formed, adds exactly the given bytes after the
  present contents, never shrinks the allocation and reallocates only when the bytes do not fit.\<close>

theorem buffer_append_correct:
  assumes "buffer_init b"
  shows "buffer_init (append_bytes bs b) \<and> contents (append_bytes bs b) = contents b @ bs \<and>
    balloc (append_bytes bs b) = max (balloc b) (bsize b + length bs)"
  using assms by (simp add: buffer_init_wf)

theorem buffer_append_correct_witness:
  "contents (append_bytes [3, 4] (buffer_of_data [1, 2])) = [1, 2, 3, 4]"
  using buffer_append_correct [OF contents_of_data(2) [of "[1, 2]"], of "[3, 4]"]
  by (simp only: contents_of_data(1)) simp

text \<open>\<open>BufferedOutputStream\<close> loses, repeats and reorders nothing: after any sequence of writes
  and a final flush, the stream behind it has received what was pending followed by the written
  blocks in order, however the blocks fall on the buffer's (non-zero) capacity.\<close>

theorem buffered_output_lossless:
  assumes "bos_invar buffer_init cap s"
  shows "\<exists>s1 s2. bindC (bos_write buffer_put xs s) (bos_write buffer_put ys) = ret s1 \<and>
    bos_flush buffer_put s1 = ret s2 \<and> bos_invar buffer_init cap s2 \<and> bsize (bos_buf s2) = 0 \<and>
    contents (bos_os s2) = contents (bos_os s) @ contents (bos_buf s) @ xs @ ys"
proof -
  obtain s0 where s0: "bos_write buffer_put xs s = ret s0" "bos_invar buffer_init cap s0"
    "bos_written contents s0 = bos_written contents s @ xs"
    using buf_sink.bos_write_ok [OF assms] by blast
  obtain s1 where s1: "bos_write buffer_put ys s0 = ret s1" "bos_invar buffer_init cap s1"
    "bos_written contents s1 = bos_written contents s0 @ ys"
    using buf_sink.bos_write_ok [OF s0(2)] by blast
  obtain s2 where s2: "bos_flush buffer_put s1 = ret s2" "bos_invar buffer_init cap s2"
    "bos_written contents s2 = bos_written contents s1" "bsize (bos_buf s2) = 0"
    using buf_sink.bos_flush_ok [OF s1(2)] by blast
  then have "contents (bos_buf s2) = []" by (simp add: contents_def)
  with s0 s1 s2 show ?thesis by (simp add: bos_written_def)
qed

theorem buffered_output_lossless_witness:
  "\<exists>s1 s2. bindC (bos_write buffer_put [1, 2, 3] (bos_new (buffer_of_data [7]) 2))
      (bos_write buffer_put [4, 5, 6, 8, 9]) = ret s1 \<and> bos_flush buffer_put s1 = ret s2 \<and>
    contents (bos_os s2) = [7, 1, 2, 3, 4, 5, 6, 8, 9]"
proof -
  have "bos_invar buffer_init 2 (bos_new (buffer_of_data [7]) 2)"
    "contents (bos_buf (bos_new (buffer_of_data [7]) 2)) = []"
    "contents (bos_os (bos_new (buffer_of_data [7]) 2)) = [7]"
    by (simp_all add: bos_invar_def bos_new_def buffer_init_def buffer_wf_def buffer_of_data_def
        buffer_new_def reserve_def contents_def)
  with buffered_output_lossless [of 2 _ "[1, 2, 3]" "[4, 5, 6, 8, 9]"] show ?thesis by fastforce
qed

end
