(* ===== verification/Stx_Streams.thy ===== *)
theory Stx_Streams
  imports Stx_Buffer
begin

text \<open>
  Input and output streams (\<open>io/inputstream.cc\<close>, \<open>io/outputstream.cc\<close>).

  The virtual method \<open>readNextByte\<close> of \<open>InputStream\<close> is a function \<open>rb\<close> that returns the byte
  (\<open>None\<close> for the result \<open>false\<close>) and the new stream state; the methods the base class
  implements on top of it take \<open>rb\<close> as an argument. The locale \<open>byte_source\<close> states what a stream
  promises, and the base-class methods are proved correct once for every stream that keeps it:
  string, buffer, memory and file streams are interpretations.
  In the same way the base-class methods of \<open>OutputStream\<close> take the virtual method \<open>write\<close> as an
  argument and are proved correct for every \<open>byte_sink\<close>.
  Positions and sizes are natural numbers (a stream is shorter than \<open>2 ^ 64\<close> bytes); the value an
  exception carries does not include the stream position.
\<close>

section \<open>Integers as bytes\<close>

text \<open>The in-memory representation of an unsigned integer on the little-endian targets.\<close>

fun le_bytes :: "nat \<Rightarrow> 'a::len word \<Rightarrow> byte list" where
  "le_bytes 0 v = []"
| "le_bytes (Suc n) v = ucast v # le_bytes n (drop_bit 8 v)"

fun le_word :: "byte list \<Rightarrow> 'a::len word" where
  "le_word [] = 0"
| "le_word (b # bs) = ucast b OR push_bit 8 (le_word bs)"

lemma length_le_bytes [simp]: "length (le_bytes n v) = n"
  by (induction n arbitrary: v) auto

lemma le_word_le_bytes_take_bit: "le_word (le_bytes n v) = take_bit (8 * n) v"
proof (induction n arbitrary: v)
  case 0
  then show ?case by simp
next
  case (Suc n)
  have "ucast (ucast v :: byte) OR push_bit 8 (take_bit (8 * n) (drop_bit 8 v)) =
    (take_bit (8 * Suc n) v :: 'a word)"
    by (rule bit_word_eqI)
      (auto simp: bit_simps not_less dest: bit_imp_le_length)
  then show ?case by (simp add: Suc)
qed

lemma le_word_le_bytes:
  fixes v :: "'a::len word"
  assumes "LENGTH('a) \<le> 8 * n"
  shows "le_word (le_bytes n v) = v"
  using assms by (simp add: le_word_le_bytes_take_bit take_bit_word_eq_self)

text \<open>\<open>appendVarUInt\<close>: seven bits per byte, least significant first, the top bit set on all but
  the last byte.\<close>

function varuint_bytes :: "u64 \<Rightarrow> byte list" where
  "varuint_bytes v =
     (let b = ucast (v AND 0x7f); v' = drop_bit 7 v
      in if v' \<noteq> 0 then (b OR 0x80) # varuint_bytes v' else [b])"
  by pat_completeness auto

lemma unat_drop_bit_7: "unat (drop_bit 7 (v :: u64)) = unat v div 128"
proof -
  have "unat (drop_bit 7 v) = drop_bit 7 (unat v)" by (rule unat_drop_bit_eq)
  then show ?thesis by (simp add: drop_bit_eq_div [where ?'a = nat])
qed

termination varuint_bytes
proof (relation "measure unat")
  fix v :: u64 and b :: byte and v' :: u64
  assume "v' = drop_bit 7 v" "v' \<noteq> 0"
  then have "unat v' = unat v div 128" "0 < unat v'"
    by (metis unat_drop_bit_7, metis unat_gt_0)
  then show "(v', v) \<in> measure unat" by simp
qed simp

declare varuint_bytes.simps [simp del]

lemma varuint_bytes_nonempty [simp]: "varuint_bytes v \<noteq> []"
  by (subst varuint_bytes.simps) (simp add: Let_def)

lemma length_varuint_bytes_le:
  "unat v < 2 ^ (7 * n) \<Longrightarrow> 0 < n \<Longrightarrow> length (varuint_bytes v) \<le> n"
proof (induction n arbitrary: v)
  case 0
  then show ?case by simp
next
  case (Suc n)
  show ?case
  proof (cases "drop_bit 7 v = 0")
    case True
    then show ?thesis by (simp add: varuint_bytes.simps [of v])
  next
    case False
    then have "0 < unat (drop_bit 7 v)" by (simp add: unat_gt_0)
    then have "0 < n" using Suc.prems by (cases n) (auto simp: unat_drop_bit_7)
    moreover have "unat (drop_bit 7 v) < 2 ^ (7 * n)"
      using Suc.prems by (simp add: unat_drop_bit_7 power_add less_mult_imp_div_less)
    ultimately have "length (varuint_bytes (drop_bit 7 v)) \<le> n" using Suc.IH by blast
    with False show ?thesis by (simp add: varuint_bytes.simps [of v] Let_def)
  qed
qed

text \<open>The fixed array of ten bytes in the code is large enough for every 64-bit value.\<close>

lemma length_varuint_bytes: "length (varuint_bytes v) \<le> 10"
proof (rule length_varuint_bytes_le)
  have "unat v < 2 ^ 64" using unsigned_less [of v, where ?'a = nat] by simp
  also have "\<dots> \<le> 2 ^ (7 * 10)" by simp
  finally show "unat v < 2 ^ (7 * 10)" .
qed simp

text \<open>The bit facts the decoders of this format need.\<close>

lemma u64_0x7f: "(0x7f :: u64) = mask 7" and byte_0x80: "(0x80 :: byte) = 2 ^ 7"
  by (simp_all add: mask_eq_exp_minus_1)

lemma not_bit_0x80: "n < 7 \<Longrightarrow> \<not> bit (0x80 :: int) n"
  using bit_exp_iff [where ?'a = int, of 7 n] by auto

lemma varuint_low_bits:
  "ucast (ucast (v AND 0x7f) :: byte) AND (0x7f :: u64) = v AND 0x7f"
  "ucast ((ucast (v AND 0x7f) :: byte) OR 0x80) AND (0x7f :: u64) = v AND 0x7f"
  unfolding u64_0x7f
  by (rule bit_word_eqI,
      auto simp: bit_unsigned_iff bit_and_iff bit_or_iff bit_mask_iff not_bit_0x80)+

lemma varuint_more_bit: "((b :: byte) OR 0x80) AND 0x80 \<noteq> 0"
  unfolding byte_0x80 and_exp_eq_0_iff_not_bit by (simp add: bit_simps)

lemma varuint_last_bit: "(ucast (v AND (0x7f :: u64)) :: byte) AND 0x80 = 0"
  unfolding byte_0x80 u64_0x7f and_exp_eq_0_iff_not_bit by (simp add: bit_simps)

lemma varuint_split:
  "push_bit k (v :: u64) = push_bit k (v AND 0x7f) OR push_bit (7 + k) (drop_bit 7 v)"
  unfolding u64_0x7f
proof (rule bit_word_eqI)
  fix n
  have "7 + k \<le> n \<Longrightarrow> 7 + (n - (7 + k)) = n - k" by simp
  then show "bit (push_bit k v) n =
      bit (push_bit k (v AND mask 7) OR push_bit (7 + k) (drop_bit 7 v)) n"
    by (cases "7 + k \<le> n") (auto simp: bit_simps)
qed

lemmas varuint_bits = varuint_low_bits varuint_more_bit varuint_last_bit

lemma varuint_room:
  fixes v :: u64
  assumes "unat v < 2 ^ (64 - 7 * i)" "drop_bit 7 v \<noteq> 0"
  shows "7 * Suc i < 64" and "unat (drop_bit 7 v) < 2 ^ (64 - 7 * Suc i)"
proof -
  have "0 < unat v div 128"
    using assms(2) by (metis unat_drop_bit_7 unat_gt_0)
  then have "2 ^ 7 \<le> unat v" by simp
  then have "(2 :: nat) ^ 7 < 2 ^ (64 - 7 * i)" using assms(1) by simp
  then have lt: "7 < 64 - 7 * i" by (rule power_less_imp_less_exp [rotated]) simp
  then show "7 * Suc i < 64" by simp
  from lt have "(2 :: nat) ^ (64 - 7 * i) = 2 ^ (64 - 7 * Suc i) * 128"
    by (simp flip: power_add [of "2 :: nat" _ 7, simplified])
  with assms(1) have "unat v div 128 < 2 ^ (64 - 7 * Suc i)"
    by (metis less_mult_imp_div_less)
  then show "unat (drop_bit 7 v) < 2 ^ (64 - 7 * Suc i)"
    by (simp only: unat_drop_bit_7)
qed

section \<open>InputStream\<close>

type_synonym 's byte_reader = "'s \<Rightarrow> char option \<times> 's"

fun readNextBytes :: "'s byte_reader \<Rightarrow> nat \<Rightarrow> 's \<Rightarrow> string \<times> 's" where
  "readNextBytes rb 0 s = ([], s)"
| "readNextBytes rb (Suc n) s =
     (case rb s of
        (None, s') \<Rightarrow> ([], s')
      | (Some c, s') \<Rightarrow> (let (cs, s'') = readNextBytes rb n s' in (c # cs, s'')))"

definition readNextBytes_into :: "'s byte_reader \<Rightarrow> string \<Rightarrow> nat \<Rightarrow> 's \<Rightarrow> string \<times> nat \<times> 's" where
  "readNextBytes_into rb target n s =
     (let (cs, s') = readNextBytes rb n s in (target @ cs, length cs, s'))"

partial_function (option) readUntilEOF ::
  "'s byte_reader \<Rightarrow> string \<Rightarrow> nat \<Rightarrow> 's \<Rightarrow> (string \<times> nat \<times> 's) option" where
  "readUntilEOF rb target len s =
     (case rb s of
        (None, s') \<Rightarrow> Some (target, len, s')
      | (Some c, s') \<Rightarrow> readUntilEOF rb (target @ [c]) (Suc len) s')"

declare readUntilEOF.simps [code]

partial_function (option) readLine ::
  "'s byte_reader \<Rightarrow> string \<Rightarrow> nat \<Rightarrow> 's \<Rightarrow> (bool \<times> string \<times> 's) option" where
  "readLine rb target len s =
     (case rb s of
        (None, s') \<Rightarrow> Some (len > 0, target, s')
      | (Some c, s') \<Rightarrow>
          (if c = CHR 0x0A then Some (True, target @ [c], s')
           else readLine rb (target @ [c]) (Suc len) s'))"

declare readLine.simps [code]

text \<open>The fixed-width reads copy the bytes into the variable; the width is in bytes.\<close>

definition readUInt :: "'s byte_reader \<Rightarrow> nat \<Rightarrow> 's \<Rightarrow> ('a::len word \<times> 's) result" where
  "readUInt rb w s =
     (let (cs, s') = readNextBytes rb w s
      in if length cs \<noteq> w then Inl kEOFError else Inr (le_word (bytes_of cs), s'))"

definition readUInt8 :: "'s byte_reader \<Rightarrow> 's \<Rightarrow> (byte \<times> 's) result" where
  "readUInt8 rb s = readUInt rb 1 s"

definition readUInt16 :: "'s byte_reader \<Rightarrow> 's \<Rightarrow> (u16 \<times> 's) result" where
  "readUInt16 rb s = readUInt rb 2 s"

definition readUInt32 :: "'s byte_reader \<Rightarrow> 's \<Rightarrow> (u32 \<times> 's) result" where
  "readUInt32 rb s = readUInt rb 4 s"

definition readUInt64 :: "'s byte_reader \<Rightarrow> 's \<Rightarrow> (u64 \<times> 's) result" where
  "readUInt64 rb s = readUInt rb 8 s"

text \<open>
  \<open>readVarUInt\<close> does not bound the number of bytes; the eleventh byte is shifted by 70 bits, which
  is undefined for a 64-bit operand.
\<close>

function readVarUInt_loop :: "'s byte_reader \<Rightarrow> nat \<Rightarrow> u64 \<Rightarrow> 's \<Rightarrow> (u64 \<times> 's) result" where
  "readVarUInt_loop rb i val s =
     (case rb s of
        (None, s') \<Rightarrow> Inl kEOFError
      | (Some c, s') \<Rightarrow>
          (if 64 \<le> 7 * i then Inl UndefinedBehaviour
           else
             (let val' = val OR push_bit (7 * i) (ucast (byte_of c) AND 0x7f)
              in if byte_of c AND 0x80 = 0 then Inr (val', s')
                 else readVarUInt_loop rb (Suc i) val' s')))"
  by pat_completeness auto
termination
  by (relation "measure (\<lambda>(rb, i, val, s). 10 - i)") auto

declare readVarUInt_loop.simps [simp del]

definition readVarUInt :: "'s byte_reader \<Rightarrow> 's \<Rightarrow> (u64 \<times> 's) result" where
  "readVarUInt rb s = readVarUInt_loop rb 0 0 s"

definition readString :: "'s byte_reader \<Rightarrow> nat \<Rightarrow> 's \<Rightarrow> (string \<times> 's) result" where
  "readString rb n s =
     (let (cs, s') = readNextBytes rb n s in if length cs \<noteq> n then Inl kEOFError else Inr (cs, s'))"

definition readLenencString :: "'s byte_reader \<Rightarrow> 's \<Rightarrow> (string \<times> 's) result" where
  "readLenencString rb s =
     bindE (readVarUInt rb s) (\<lambda>(n, s1).
       let (cs, s') = readNextBytes rb (unat n) s1
       in if length cs \<noteq> unat n then Inl kEOFError else Inr (cs, s'))"

subsection \<open>The contract of an input stream\<close>

locale byte_source =
  fixes rb :: "'s byte_reader"
    and rest :: "'s \<Rightarrow> string"
    and invar :: "'s \<Rightarrow> bool"
  assumes rb_eof: "invar s \<Longrightarrow> rest s = [] \<Longrightarrow> \<exists>s'. rb s = (None, s') \<and> invar s' \<and> rest s' = []"
    and rb_next: "invar s \<Longrightarrow> rest s = c # cs \<Longrightarrow> \<exists>s'. rb s = (Some c, s') \<and> invar s' \<and> rest s' = cs"
begin

lemma rb_cases:
  assumes "invar s"
  obtains (eof) s' where "rest s = []" "rb s = (None, s')" "invar s'" "rest s' = []"
    | (more) c s' where "rest s = c # rest s'" "rb s = (Some c, s')" "invar s'"
  using rb_eof rb_next assms by (cases "rest s") (metis)+

lemma readNextBytes_ok:
  "invar s \<Longrightarrow> \<exists>s'. readNextBytes rb n s = (take n (rest s), s') \<and> invar s' \<and>
     rest s' = drop n (rest s)"
proof (induction n arbitrary: s)
  case 0
  then show ?case by simp
next
  case (Suc n)
  from \<open>invar s\<close> show ?case
  proof (cases rule: rb_cases)
    case (eof s')
    then show ?thesis by simp
  next
    case (more c s')
    with Suc.IH [of s'] show ?thesis by auto
  qed
qed

lemma readUntilEOF_ok:
  "invar s \<Longrightarrow> \<exists>s'. readUntilEOF rb target len s = Some (target @ rest s, len + length (rest s), s') \<and>
     invar s' \<and> rest s' = []"
proof (induction "rest s" arbitrary: s target len)
  case Nil
  then show ?case using rb_eof [of s] by (auto simp: readUntilEOF.simps)
next
  case (Cons c cs)
  then obtain s1 where s1: "rb s = (Some c, s1)" "invar s1" "rest s1 = cs"
    using rb_next [of s c cs] by auto
  have rest: "rest s = c # cs" using Cons.hyps(2) by simp
  from Cons.hyps(1) [of s1 "target @ [c]" "Suc len"] s1 show ?case
    by (subst readUntilEOF.simps) (auto simp: rest)
qed

text \<open>\<open>readLine\<close> returns the text up to and including the first line feed.\<close>

lemma readLine_ok:
  "invar s \<Longrightarrow> \<exists>s'. readLine rb target len s =
      Some (len > 0 \<or> rest s \<noteq> [],
        target @ takeWhile (\<lambda>c. c \<noteq> CHR 0x0A) (rest s) @
          take 1 (dropWhile (\<lambda>c. c \<noteq> CHR 0x0A) (rest s)), s') \<and>
      invar s' \<and> rest s' = drop 1 (dropWhile (\<lambda>c. c \<noteq> CHR 0x0A) (rest s))"
proof (induction "rest s" arbitrary: s target len)
  case Nil
  then show ?case using rb_eof [of s] by (auto simp: readLine.simps)
next
  case (Cons c cs)
  then obtain s1 where s1: "rb s = (Some c, s1)" "invar s1" "rest s1 = cs"
    using rb_next [of s c cs] by auto
  have rest: "rest s = c # cs" using Cons.hyps(2) by simp
  show ?case
  proof (cases "c = CHR 0x0A")
    case True
    then show ?thesis using s1 by (subst readLine.simps) (simp add: rest)
  next
    case False
    then show ?thesis
      using s1 Cons.hyps(1) [of s1 "target @ [c]" "Suc len"]
      by (subst readLine.simps) (auto simp: rest)
  qed
qed

lemma readString_ok:
  assumes "invar s" "rest s = cs @ r"
  shows "\<exists>s'. readString rb (length cs) s = Inr (cs, s') \<and> invar s' \<and> rest s' = r"
  using readNextBytes_ok [OF assms(1), of "length cs"] assms(2) by (auto simp: readString_def)

lemma readString_eof:
  assumes "invar s" "length (rest s) < n"
  shows "readString rb n s = Inl kEOFError"
  using readNextBytes_ok [OF assms(1), of n] assms(2) by (auto simp: readString_def)

lemma readVarUInt_loop_ok:
  "invar s \<Longrightarrow> rest s = string_of (varuint_bytes v) @ r \<Longrightarrow> 7 * i < 64 \<Longrightarrow>
   unat v < 2 ^ (64 - 7 * i) \<Longrightarrow>
   \<exists>s'. readVarUInt_loop rb i acc s = Inr (acc OR push_bit (7 * i) v, s') \<and> invar s' \<and> rest s' = r"
proof (induction v arbitrary: s i acc rule: varuint_bytes.induct)
  case (1 v)
  let ?b = "ucast (v AND 0x7f) :: byte"
  show ?case
  proof (cases "drop_bit 7 v = 0")
    case True
    then have "rest s = chr_of ?b # r"
      using "1.prems"(2) by (simp add: varuint_bytes.simps [of v])
    then obtain s1 where "rb s = (Some (chr_of ?b), s1)" "invar s1" "rest s1 = r"
      using rb_next "1.prems"(1) by blast
    moreover have "push_bit (7 * i) v = push_bit (7 * i) (v AND 0x7f)"
      using True by (subst varuint_split) simp
    ultimately show ?thesis
      using "1.prems"(3) by (simp add: readVarUInt_loop.simps [of rb i] varuint_bits)
  next
    case False
    then have "rest s = chr_of (?b OR 0x80) # string_of (varuint_bytes (drop_bit 7 v)) @ r"
      using "1.prems"(2) by (simp add: varuint_bytes.simps [of v] Let_def)
    then obtain s1 where s1: "rb s = (Some (chr_of (?b OR 0x80)), s1)" "invar s1"
      "rest s1 = string_of (varuint_bytes (drop_bit 7 v)) @ r"
      using rb_next "1.prems"(1) by blast
    let ?acc = "acc OR push_bit (7 * i) (v AND 0x7f)"
    obtain s' where s': "readVarUInt_loop rb (Suc i) ?acc s1 =
        Inr (?acc OR push_bit (7 * Suc i) (drop_bit 7 v), s')" "invar s'" "rest s' = r"
      using "1.IH" [OF refl refl False s1(2,3)] varuint_room [OF "1.prems"(4) False] by blast
    have "push_bit (7 * i) v = push_bit (7 * i) (v AND 0x7f) OR push_bit (7 * Suc i) (drop_bit 7 v)"
      using varuint_split [of "7 * i" v] by simp
    then have "readVarUInt_loop rb i acc s = Inr (acc OR push_bit (7 * i) v, s')"
      using s1(1) s'(1) "1.prems"(3)
      by (simp add: readVarUInt_loop.simps [of rb i acc s] varuint_bits or.assoc)
    with s' show ?thesis by blast
  qed
qed

lemma readVarUInt_ok:
  assumes "invar s" "rest s = string_of (varuint_bytes v) @ r"
  shows "\<exists>s'. readVarUInt rb s = Inr (v, s') \<and> invar s' \<and> rest s' = r"
proof -
  have "unat v < 2 ^ (64 - 7 * 0)" using unsigned_less [of v, where ?'a = nat] by simp
  with readVarUInt_loop_ok [OF assms, of 0 0] show ?thesis by (simp add: readVarUInt_def)
qed

lemma readLenencString_ok:
  assumes "invar s" "length str < 2 ^ 64"
    and "rest s = string_of (varuint_bytes (word_of_nat (length str))) @ str @ r"
  shows "\<exists>s'. readLenencString rb s = Inr (str, s') \<and> invar s' \<and> rest s' = r"
proof -
  obtain s1 where s1: "readVarUInt rb s = Inr (word_of_nat (length str), s1)" "invar s1"
    "rest s1 = str @ r"
    using readVarUInt_ok [OF assms(1,3)] by blast
  have "unat (word_of_nat (length str) :: u64) = length str"
    using assms(2) by (simp add: unat_of_nat)
  with s1 readNextBytes_ok [OF s1(2), of "length str"] show ?thesis
    by (auto simp: readLenencString_def)
qed

lemma readUInt_le_bytes:
  fixes v :: "'a::len word"
  assumes "invar s" "rest s = string_of (le_bytes w v) @ r" "LENGTH('a) \<le> 8 * w"
  shows "\<exists>s'. readUInt rb w s = Inr (v, s') \<and> invar s' \<and> rest s' = r"
  using readNextBytes_ok [OF assms(1), of w] assms(2,3)
  by (auto simp: readUInt_def le_word_le_bytes)

end

subsection \<open>Streams over memory\<close>

record string_is =
  sis_str :: string
  sis_cur :: nat

definition sis_new :: "string \<Rightarrow> string_is" where
  "sis_new s = \<lparr>sis_str = s, sis_cur = 0\<rparr>"

definition sis_readNextByte :: "string_is byte_reader" where
  "sis_readNextByte s =
     (if sis_cur s < length (sis_str s)
      then (Some (sis_str s ! sis_cur s), s\<lparr>sis_cur := sis_cur s + 1\<rparr>) else (None, s))"

definition sis_skipNextBytes :: "nat \<Rightarrow> string_is \<Rightarrow> nat \<times> string_is" where
  "sis_skipNextBytes n s =
     (let nskipped = (if sis_cur s + n > length (sis_str s) then length (sis_str s) - sis_cur s else n)
      in (nskipped, s\<lparr>sis_cur := sis_cur s + nskipped\<rparr>))"

definition sis_eof :: "string_is \<Rightarrow> bool" where
  "sis_eof s \<longleftrightarrow> sis_cur s \<ge> length (sis_str s)"

definition sis_rewind :: "string_is \<Rightarrow> string_is" where
  "sis_rewind s = s\<lparr>sis_cur := 0\<rparr>"

definition sis_seekTo :: "nat \<Rightarrow> string_is \<Rightarrow> string_is" where
  "sis_seekTo offset s =
     s\<lparr>sis_cur := (if offset < length (sis_str s) then offset else length (sis_str s))\<rparr>"

definition sis_rest :: "string_is \<Rightarrow> string" where
  "sis_rest s = drop (sis_cur s) (sis_str s)"

definition sis_invar :: "string_is \<Rightarrow> bool" where
  "sis_invar s \<longleftrightarrow> sis_cur s \<le> length (sis_str s)"

record buffer_is =
  bis_buf :: buffer
  bis_cur :: nat

definition bis_new :: "buffer \<Rightarrow> buffer_is" where
  "bis_new b = \<lparr>bis_buf = b, bis_cur = 0\<rparr>"

text \<open>\<open>charAt\<close> does not raise here: the position was compared with the size.\<close>

definition bis_readNextByte :: "buffer_is byte_reader" where
  "bis_readNextByte s =
     (if bis_cur s < bsize (bis_buf s)
      then (case charAt (bis_buf s) (bis_cur s) of
              Inr c \<Rightarrow> (Some c, s\<lparr>bis_cur := bis_cur s + 1\<rparr>)
            | Inl _ \<Rightarrow> (None, s))
      else (None, s))"

definition bis_skipNextBytes :: "nat \<Rightarrow> buffer_is \<Rightarrow> nat \<times> buffer_is" where
  "bis_skipNextBytes n s =
     (let nskipped = (if bis_cur s + n > bsize (bis_buf s) then bsize (bis_buf s) - bis_cur s else n)
      in (nskipped, s\<lparr>bis_cur := bis_cur s + nskipped\<rparr>))"

definition bis_eof :: "buffer_is \<Rightarrow> bool" where
  "bis_eof s \<longleftrightarrow> bis_cur s \<ge> bsize (bis_buf s)"

definition bis_rewind :: "buffer_is \<Rightarrow> buffer_is" where
  "bis_rewind s = s\<lparr>bis_cur := 0\<rparr>"

definition bis_seekTo :: "nat \<Rightarrow> buffer_is \<Rightarrow> buffer_is" where
  "bis_seekTo offset s =
     s\<lparr>bis_cur := (if offset < bsize (bis_buf s) then offset else bsize (bis_buf s))\<rparr>"

definition bis_rest :: "buffer_is \<Rightarrow> string" where
  "bis_rest s = drop (bis_cur s) (buffer_toString (bis_buf s))"

definition bis_invar :: "buffer_is \<Rightarrow> bool" where
  "bis_invar s \<longleftrightarrow> buffer_init (bis_buf s) \<and> bis_cur s \<le> bsize (bis_buf s)"

text \<open>\<open>MemoryInputStream\<close>: the memory the pointer refers to and the size given with it.\<close>

record memory_is =
  mis_data :: string
  mis_size :: nat
  mis_cur :: nat

definition mis_new :: "string \<Rightarrow> nat \<Rightarrow> memory_is" where
  "mis_new d n = \<lparr>mis_data = d, mis_size = n, mis_cur = 0\<rparr>"

definition mis_readNextByte :: "memory_is byte_reader" where
  "mis_readNextByte s =
     (if mis_cur s < mis_size s
      then (Some (mis_data s ! mis_cur s), s\<lparr>mis_cur := mis_cur s + 1\<rparr>) else (None, s))"

definition mis_skipNextBytes :: "nat \<Rightarrow> memory_is \<Rightarrow> nat \<times> memory_is" where
  "mis_skipNextBytes n s =
     (let nskipped = (if mis_cur s + n > mis_size s then mis_size s - mis_cur s else n)
      in (nskipped, s\<lparr>mis_cur := mis_cur s + nskipped\<rparr>))"

definition mis_eof :: "memory_is \<Rightarrow> bool" where
  "mis_eof s \<longleftrightarrow> mis_cur s \<ge> mis_size s"

definition mis_rewind :: "memory_is \<Rightarrow> memory_is" where
  "mis_rewind s = s\<lparr>mis_cur := 0\<rparr>"

definition mis_seekTo :: "nat \<Rightarrow> memory_is \<Rightarrow> memory_is" where
  "mis_seekTo offset s = s\<lparr>mis_cur := (if offset < mis_size s then offset else mis_size s)\<rparr>"

definition mis_rest :: "memory_is \<Rightarrow> string" where
  "mis_rest s = drop (mis_cur s) (take (mis_size s) (mis_data s))"

definition mis_invar :: "memory_is \<Rightarrow> bool" where
  "mis_invar s \<longleftrightarrow> mis_size s \<le> length (mis_data s) \<and> mis_cur s \<le> mis_size s"

lemma drop_eq_ConsD: "drop n xs = y # ys \<Longrightarrow> n < length xs \<and> xs ! n = y \<and> drop (Suc n) xs = ys"
  by (metis Cons_nth_drop_Suc drop_all leI list.distinct(1) list.inject)

text \<open>
  A stream that can also skip: it passes over at most the bytes that are left and says how many.
\<close>

locale skippable_source = byte_source rb rest invar
  for rb :: "'s byte_reader" and rest invar +
  fixes skip :: "nat \<Rightarrow> 's \<Rightarrow> nat \<times> 's"
    and is_eof :: "'s \<Rightarrow> bool"
  assumes skip_ok: "invar s \<Longrightarrow> \<exists>s'. skip n s = (min n (length (rest s)), s') \<and> invar s' \<and>
      rest s' = drop n (rest s)"
    and eof_iff: "invar s \<Longrightarrow> is_eof s \<longleftrightarrow> rest s = []"
begin

text \<open>Skipping is reading and forgetting.\<close>

lemma skip_eq_read:
  assumes "invar s"
  shows "fst (skip n s) = length (fst (readNextBytes rb n s)) \<and>
    rest (snd (skip n s)) = rest (snd (readNextBytes rb n s))"
  using skip_ok [OF assms, of n] readNextBytes_ok [OF assms, of n] by (auto simp: min.commute)

end

interpretation sis: skippable_source sis_readNextByte sis_rest sis_invar sis_skipNextBytes sis_eof
proof
  fix s c cs
  assume "sis_invar s" "sis_rest s = c # cs"
  then show "\<exists>s'. sis_readNextByte s = (Some c, s') \<and> sis_invar s' \<and> sis_rest s' = cs"
    by (auto simp: sis_readNextByte_def sis_invar_def sis_rest_def dest!: drop_eq_ConsD)
qed (auto simp: sis_readNextByte_def sis_invar_def sis_rest_def sis_skipNextBytes_def sis_eof_def
      min_def Let_def add.commute)

interpretation bis: skippable_source bis_readNextByte bis_rest bis_invar bis_skipNextBytes bis_eof
proof
  fix s c cs
  assume s: "bis_invar s" "bis_rest s = c # cs"
  then have "bis_cur s < bsize (bis_buf s)" "buffer_toString (bis_buf s) ! bis_cur s = c"
    "drop (Suc (bis_cur s)) (buffer_toString (bis_buf s)) = cs"
    by (auto simp: bis_invar_def bis_rest_def buffer_toString_def buffer_init_wf
        dest!: drop_eq_ConsD)
  then show "\<exists>s'. bis_readNextByte s = (Some c, s') \<and> bis_invar s' \<and> bis_rest s' = cs"
    using s(1) by (auto simp: bis_readNextByte_def bis_invar_def bis_rest_def buffer_init_wf
        charAt_contents buffer_toString_def)
qed (auto simp: bis_readNextByte_def bis_invar_def bis_rest_def bis_skipNextBytes_def bis_eof_def
      buffer_toString_def buffer_init_wf min_def Let_def add.commute)

interpretation mis: skippable_source mis_readNextByte mis_rest mis_invar mis_skipNextBytes mis_eof
proof
  fix s c cs
  assume "mis_invar s" "mis_rest s = c # cs"
  then show "\<exists>s'. mis_readNextByte s = (Some c, s') \<and> mis_invar s' \<and> mis_rest s' = cs"
    by (auto simp: mis_readNextByte_def mis_invar_def mis_rest_def dest!: drop_eq_ConsD)
qed (auto simp: mis_readNextByte_def mis_invar_def mis_rest_def mis_skipNextBytes_def mis_eof_def
      min_def Let_def add.commute split: if_splits)

subsection \<open>FileInputStream\<close>

text \<open>
  The system calls \<open>read\<close> and \<open>lseek\<close> are parameters: \<open>sys_read f n\<close> is the block of at most
  \<open>n\<close> bytes it delivers (\<open>None\<close> for a negative result) and the new state of the descriptor,
  \<open>sys_lseek f k\<close> moves the offset forward by \<open>k\<close> (\<open>SEEK_CUR\<close>), \<open>sys_seek f k\<close> to \<open>k\<close>
  (\<open>SEEK_SET\<close>); both give \<open>None\<close> on failure.
\<close>

record 'f file_is =
  fis_fd :: 'f
  fis_buf :: string
  fis_len :: nat
  fis_pos :: nat

definition fis_new :: "'f \<Rightarrow> 'f file_is" where
  "fis_new f = \<lparr>fis_fd = f, fis_buf = [], fis_len = 0, fis_pos = 0\<rparr>"

definition fis_readNextChunk ::
  "('f \<Rightarrow> nat \<Rightarrow> string option \<times> 'f) \<Rightarrow> 'f file_is \<Rightarrow> (bool \<times> 'f file_is) result" where
  "fis_readNextChunk sys_read s =
     (case sys_read (fis_fd s) 8192 of
        (None, f) \<Rightarrow> Inl kIOError
      | (Some cs, f) \<Rightarrow>
          Inr (length cs > 0, s\<lparr>fis_fd := f, fis_buf := cs, fis_pos := 0, fis_len := length cs\<rparr>))"

definition fis_fill ::
  "('f \<Rightarrow> nat \<Rightarrow> string option \<times> 'f) \<Rightarrow> 'f file_is \<Rightarrow> 'f file_is result" where
  "fis_fill sys_read s =
     (if fis_pos s \<ge> fis_len s then bindE (fis_readNextChunk sys_read s) (\<lambda>(_, s'). Inr s')
      else Inr s)"

definition fis_readNextByte ::
  "('f \<Rightarrow> nat \<Rightarrow> string option \<times> 'f) \<Rightarrow> 'f file_is \<Rightarrow> (char option \<times> 'f file_is) result" where
  "fis_readNextByte sys_read s =
     bindE (fis_fill sys_read s) (\<lambda>s.
       if fis_pos s < fis_len s
       then Inr (Some (fis_buf s ! fis_pos s), s\<lparr>fis_pos := fis_pos s + 1\<rparr>)
       else Inr (None, s))"

function fis_readNextBytes ::
  "('f \<Rightarrow> nat \<Rightarrow> string option \<times> 'f) \<Rightarrow> nat \<Rightarrow> 'f file_is \<Rightarrow> (string \<times> 'f file_is) result" where
  "fis_readNextBytes sys_read n s =
     (if n = 0 then Inr ([], s)
      else bindE (if fis_pos s \<ge> fis_len s then fis_readNextChunk sys_read s else Inr (True, s))
        (\<lambda>(more, s).
          if \<not> more \<or> fis_pos s \<ge> fis_len s then Inr ([], s)
          else
            (let k = min (fis_len s - fis_pos s) n
             in bindE (fis_readNextBytes sys_read (n - k) (s\<lparr>fis_pos := fis_pos s + k\<rparr>))
                  (\<lambda>(cs, s'). Inr (take k (drop (fis_pos s) (fis_buf s)) @ cs, s')))))"
  by pat_completeness auto
termination
  by (relation "measure (\<lambda>(sys_read, n, s). n)") auto

declare fis_readNextBytes.simps [simp del]

definition fis_skipNextBytes ::
  "('f \<Rightarrow> nat \<Rightarrow> 'f option) \<Rightarrow> nat \<Rightarrow> 'f file_is \<Rightarrow> (nat \<times> 'f file_is) result" where
  "fis_skipNextBytes sys_lseek n s =
     (let buf_remaining = fis_len s - fis_pos s
      in if n \<le> buf_remaining then Inr (n, s\<lparr>fis_pos := fis_pos s + n\<rparr>)
         else
           (case sys_lseek (fis_fd s) (n - buf_remaining) of
              None \<Rightarrow> Inl OtherError
            | Some f \<Rightarrow> Inr (n, s\<lparr>fis_pos := 0, fis_len := 0, fis_fd := f\<rparr>)))"

definition fis_eof ::
  "('f \<Rightarrow> nat \<Rightarrow> string option \<times> 'f) \<Rightarrow> 'f file_is \<Rightarrow> (bool \<times> 'f file_is) result" where
  "fis_eof sys_read s =
     bindE (fis_fill sys_read s) (\<lambda>s'. Inr (fis_pos s' \<ge> fis_len s', s'))"

definition fis_seekTo :: "('f \<Rightarrow> nat \<Rightarrow> 'f option) \<Rightarrow> nat \<Rightarrow> 'f file_is \<Rightarrow> 'f file_is result" where
  "fis_seekTo sys_seek offset s =
     (case sys_seek (fis_fd s) offset of
        None \<Rightarrow> Inl kIOError
      | Some f \<Rightarrow> Inr (s\<lparr>fis_pos := 0, fis_len := 0, fis_fd := f\<rparr>))"

definition fis_rewind :: "('f \<Rightarrow> nat \<Rightarrow> 'f option) \<Rightarrow> 'f file_is \<Rightarrow> 'f file_is result" where
  "fis_rewind sys_seek s = fis_seekTo sys_seek 0 s"

datatype byte_order_mark = BOM_UNKNOWN | BOM_UTF8 | BOM_UTF16

text \<open>\<open>strncmp\<close> is equality here: the marks contain no zero byte.\<close>

definition bom_at :: "string \<Rightarrow> 'f file_is \<Rightarrow> bool" where
  "bom_at bom s \<longleftrightarrow> fis_pos s + length bom \<le> fis_len s \<and>
     take (length bom) (drop (fis_pos s) (fis_buf s)) = bom"

definition readByteOrderMark ::
  "('f \<Rightarrow> nat \<Rightarrow> string option \<times> 'f) \<Rightarrow> 'f file_is \<Rightarrow> (byte_order_mark \<times> 'f file_is) result" where
  "readByteOrderMark sys_read s =
     bindE (fis_fill sys_read s) (\<lambda>s.
       if bom_at [CHR 0xEF, CHR 0xBB, CHR 0xBF] s
       then Inr (BOM_UTF8, s\<lparr>fis_pos := fis_pos s + 3\<rparr>)
       else if bom_at [CHR 0xFF, CHR 0xFE] s
       then Inr (BOM_UTF16, s\<lparr>fis_pos := fis_pos s + 2\<rparr>)
       else Inr (BOM_UNKNOWN, s))"

text \<open>
  What the stream relies on for a regular file: \<open>read\<close> does not fail, delivers between one and
  \<open>n\<close> of the next bytes and none only at the end.
\<close>

definition fis_rest :: "('f \<Rightarrow> string) \<Rightarrow> 'f file_is \<Rightarrow> string" where
  "fis_rest frest s = drop (fis_pos s) (fis_buf s) @ frest (fis_fd s)"

definition fis_invar :: "'f file_is \<Rightarrow> bool" where
  "fis_invar s \<longleftrightarrow> fis_pos s \<le> fis_len s \<and> fis_len s = length (fis_buf s)"

text \<open>\<open>readNextByte\<close> as the base class sees it when no exception is raised.\<close>

definition fis_rb :: "('f \<Rightarrow> nat \<Rightarrow> string option \<times> 'f) \<Rightarrow> 'f file_is byte_reader" where
  "fis_rb sys_read s = (case fis_readNextByte sys_read s of Inr r \<Rightarrow> r | Inl e \<Rightarrow> (None, s))"

locale regular_file =
  fixes sys_read :: "'f \<Rightarrow> nat \<Rightarrow> string option \<times> 'f"
    and frest :: "'f \<Rightarrow> string"
  assumes read_some: "0 < n \<Longrightarrow> frest f \<noteq> [] \<Longrightarrow>
      \<exists>cs f'. sys_read f n = (Some cs, f') \<and> cs \<noteq> [] \<and> length cs \<le> n \<and> frest f = cs @ frest f'"
    and read_eof: "frest f = [] \<Longrightarrow> \<exists>f'. sys_read f n = (Some [], f') \<and> frest f' = []"
begin

lemma fis_chunk:
  "\<exists>cs s'. fis_readNextChunk sys_read s = Inr (cs \<noteq> [], s') \<and> fis_invar s' \<and> fis_pos s' = 0 \<and>
     fis_buf s' = cs \<and> fis_rest frest s' = frest (fis_fd s) \<and> (cs = [] \<longleftrightarrow> frest (fis_fd s) = [])"
proof (cases "frest (fis_fd s) = []")
  case True
  then show ?thesis
    using read_eof [of "fis_fd s" 8192]
    by (auto simp: fis_readNextChunk_def fis_invar_def fis_rest_def)
next
  case False
  then show ?thesis
    using read_some [of 8192 "fis_fd s"]
    by (auto simp: fis_readNextChunk_def fis_invar_def fis_rest_def)
qed

lemma fis_fill_ok:
  assumes "fis_invar s"
  shows "\<exists>s'. fis_fill sys_read s = Inr s' \<and> fis_invar s' \<and> fis_rest frest s' = fis_rest frest s \<and>
    (fis_pos s' < fis_len s' \<longleftrightarrow> fis_rest frest s \<noteq> [])"
proof (cases "fis_pos s < fis_len s")
  case True
  then show ?thesis using assms by (auto simp: fis_fill_def fis_rest_def fis_invar_def)
next
  case False
  then have "fis_rest frest s = frest (fis_fd s)"
    using assms by (simp add: fis_rest_def fis_invar_def)
  with False fis_chunk [of s] show ?thesis
    by (auto simp: fis_fill_def fis_invar_def)
qed

lemma fis_readNextByte_ok:
  assumes "fis_invar s"
  shows "\<exists>s'. fis_readNextByte sys_read s =
      Inr (case fis_rest frest s of [] \<Rightarrow> None | c # _ \<Rightarrow> Some c, s') \<and>
    fis_invar s' \<and> fis_rest frest s' = tl (fis_rest frest s)"
proof -
  obtain s' where s': "fis_fill sys_read s = Inr s'" "fis_invar s'"
    "fis_rest frest s' = fis_rest frest s" "fis_pos s' < fis_len s' \<longleftrightarrow> fis_rest frest s \<noteq> []"
    using fis_fill_ok [OF assms] by blast
  show ?thesis
  proof (cases "fis_pos s' < fis_len s'")
    case True
    with s'(2,3) have rest: "fis_rest frest s =
        fis_buf s' ! fis_pos s' # drop (Suc (fis_pos s')) (fis_buf s') @ frest (fis_fd s')"
      by (simp add: fis_rest_def [of _ s'] fis_invar_def Cons_nth_drop_Suc flip: s'(3))
    with s'(1,2) True show ?thesis
      by (simp add: rest fis_readNextByte_def fis_invar_def)
        (simp add: fis_rest_def)
  next
    case False
    with s' show ?thesis by (auto simp: fis_readNextByte_def)
  qed
qed

sublocale byte_source "fis_rb sys_read" "fis_rest frest" fis_invar
proof
  fix s :: "'f file_is"
  assume "fis_invar s"
  note ok = fis_readNextByte_ok [OF this]
  show "fis_rest frest s = [] \<Longrightarrow>
      \<exists>s'. fis_rb sys_read s = (None, s') \<and> fis_invar s' \<and> fis_rest frest s' = []"
    using ok by (auto simp: fis_rb_def fis_invar_def)
  show "fis_rest frest s = c # cs \<Longrightarrow>
      \<exists>s'. fis_rb sys_read s = (Some c, s') \<and> fis_invar s' \<and> fis_rest frest s' = cs" for c cs
    using ok by (auto simp: fis_rb_def fis_invar_def)
qed

text \<open>The block read that \<open>FileInputStream\<close> overrides is the byte-wise read of the base class.\<close>

lemma fis_readNextBytes_ok:
  "fis_invar s \<Longrightarrow> \<exists>s'. fis_readNextBytes sys_read n s = Inr (take n (fis_rest frest s), s') \<and>
     fis_invar s' \<and> fis_rest frest s' = drop n (fis_rest frest s)"
proof (induction n arbitrary: s rule: less_induct)
  case (less n)
  show ?case
  proof (cases "n = 0")
    case True
    then show ?thesis using less.prems by (simp add: fis_readNextBytes.simps)
  next
    case False
    define m where "m = (if fis_pos s \<ge> fis_len s then fis_readNextChunk sys_read s else Inr (True, s))"
    obtain s1 where s1: "m = Inr (fis_pos s1 < fis_len s1, s1)" "fis_invar s1"
      "fis_rest frest s1 = fis_rest frest s" "fis_pos s1 < fis_len s1 \<longleftrightarrow> fis_rest frest s \<noteq> []"
    proof (cases "fis_pos s \<ge> fis_len s")
      case True
      then show ?thesis
        using that fis_chunk [of s] less.prems
        by (auto simp: m_def fis_invar_def fis_rest_def)
    next
      case False
      then show ?thesis using that [of s] less.prems by (auto simp: m_def fis_invar_def fis_rest_def)
    qed
    let ?k = "min (fis_len s1 - fis_pos s1) n"
    show ?thesis
    proof (cases "fis_pos s1 < fis_len s1")
      case more: True
      let ?s = "s1\<lparr>fis_pos := fis_pos s1 + ?k\<rparr>"
      have "n - ?k < n" "fis_invar ?s" using False more s1(2) by (auto simp: fis_invar_def)
      moreover have rest: "fis_rest frest s1 =
          take ?k (drop (fis_pos s1) (fis_buf s1)) @ fis_rest frest ?s"
        by (simp add: fis_rest_def flip: append_assoc)
           (metis add.commute append_take_drop_id drop_drop)
      moreover have "length (take ?k (drop (fis_pos s1) (fis_buf s1))) = ?k"
        using s1(2) by (simp add: fis_invar_def)
      ultimately obtain s' where
        "fis_readNextBytes sys_read (n - ?k) ?s = Inr (take (n - ?k) (fis_rest frest ?s), s')"
        "fis_invar s'" "fis_rest frest s' = drop n (fis_rest frest s1)"
        "take n (fis_rest frest s1) = take ?k (drop (fis_pos s1) (fis_buf s1)) @
           take (n - ?k) (fis_rest frest ?s)"
        using less.IH [of "n - ?k" ?s] by (auto simp: min.commute)
      then show ?thesis
        using False s1 more
        by (subst fis_readNextBytes.simps) (auto simp: m_def [symmetric] Let_def)
    next
      case nomore: False
      then show ?thesis
        using False s1 by (subst fis_readNextBytes.simps) (auto simp: m_def [symmetric])
    qed
  qed
qed

lemma fis_block_read:
  assumes "fis_invar s"
  shows "\<exists>s' s'' bs. fis_readNextBytes sys_read n s = Inr (bs, s') \<and>
    readNextBytes (fis_rb sys_read) n s = (bs, s'') \<and> bs = take n (fis_rest frest s) \<and>
    fis_invar s' \<and> fis_rest frest s' = drop n (fis_rest frest s) \<and>
    fis_rest frest s'' = fis_rest frest s'"
  using readNextBytes_ok [OF assms, of n] fis_readNextBytes_ok [OF assms, of n] by auto

end

text \<open>A regular file as its contents and the offset of the descriptor; reads may be short.\<close>

record plain_file =
  pf_data :: string
  pf_off :: nat

definition pf_read :: "plain_file \<Rightarrow> nat \<Rightarrow> string option \<times> plain_file" where
  "pf_read f n = (let cs = take n (drop (pf_off f) (pf_data f))
                  in (Some cs, f\<lparr>pf_off := pf_off f + length cs\<rparr>))"

definition pf_rest :: "plain_file \<Rightarrow> string" where
  "pf_rest f = drop (pf_off f) (pf_data f)"

interpretation pf: regular_file pf_read pf_rest
proof
  fix n f
  assume "0 < (n :: nat)" "pf_rest f \<noteq> []"
  then show "\<exists>cs f'. pf_read f n = (Some cs, f') \<and> cs \<noteq> [] \<and> length cs \<le> n \<and>
      pf_rest f = cs @ pf_rest f'"
    by (auto simp: pf_read_def pf_rest_def Let_def) (metis add.commute append_take_drop_id drop_drop
        length_drop min.commute take_all_iff nle_le min_def drop_take)
qed (auto simp: pf_read_def pf_rest_def)

section \<open>OutputStream\<close>

text \<open>
  The methods of the base class write their bytes with one call of the virtual \<open>write\<close>, the
  argument \<open>put\<close>. \<open>appendVarUInt\<close> collects the bytes in a local array of ten first.
\<close>

type_synonym 'o byte_writer = "byte list \<Rightarrow> 'o \<Rightarrow> 'o comp"

definition os_write_string :: "'o byte_writer \<Rightarrow> string \<Rightarrow> 'o \<Rightarrow> 'o comp" where
  "os_write_string put data s = put (bytes_of data) s"

definition os_write_buffer :: "'o byte_writer \<Rightarrow> buffer \<Rightarrow> 'o \<Rightarrow> 'o comp" where
  "os_write_buffer put b s = put (contents b) s"

definition os_appendUInt8 :: "'o byte_writer \<Rightarrow> byte \<Rightarrow> 'o \<Rightarrow> 'o comp" where
  "os_appendUInt8 put v s = put (le_bytes 1 v) s"

definition os_appendUInt16 :: "'o byte_writer \<Rightarrow> u16 \<Rightarrow> 'o \<Rightarrow> 'o comp" where
  "os_appendUInt16 put v s = put (le_bytes 2 v) s"

definition os_appendUInt32 :: "'o byte_writer \<Rightarrow> u32 \<Rightarrow> 'o \<Rightarrow> 'o comp" where
  "os_appendUInt32 put v s = put (le_bytes 4 v) s"

definition os_appendUInt64 :: "'o byte_writer \<Rightarrow> u64 \<Rightarrow> 'o \<Rightarrow> 'o comp" where
  "os_appendUInt64 put v s = put (le_bytes 8 v) s"

definition os_appendString :: "'o byte_writer \<Rightarrow> string \<Rightarrow> 'o \<Rightarrow> 'o comp" where
  "os_appendString put str s = put (bytes_of str) s"

definition os_appendVarUInt :: "'o byte_writer \<Rightarrow> u64 \<Rightarrow> 'o \<Rightarrow> 'o comp" where
  "os_appendVarUInt put v s = put (varuint_bytes v) s"

definition os_appendLenencString :: "'o byte_writer \<Rightarrow> string \<Rightarrow> 'o \<Rightarrow> 'o comp" where
  "os_appendLenencString put str s =
     bindC (os_appendVarUInt put (word_of_nat (length str)) s) (put (bytes_of str))"

context byte_sink
begin

lemma appendLenencString_ok:
  assumes "invar s"
  shows "\<exists>s'. os_appendLenencString put str s = ret s' \<and> invar s' \<and>
    written s' = written s @ varuint_bytes (word_of_nat (length str)) @ bytes_of str"
  using put_twice [OF assms] by (simp add: os_appendLenencString_def os_appendVarUInt_def)

end

text \<open>
  \<open>StringOutputStream\<close> appends to the string it points to, \<open>BufferOutputStream\<close> to the buffer;
  the state is the string (the buffer) itself.
\<close>

definition sos_write :: "string byte_writer" where
  "sos_write bs str = ret (str @ string_of bs)"

definition bufos_write :: "buffer byte_writer" where
  "bufos_write bs b = ret (append_bytes bs b)"

interpretation sos: byte_sink sos_write bytes_of "\<lambda>_. True"
  by unfold_locales (simp add: sos_write_def)

interpretation bufos: byte_sink bufos_write contents buffer_init
  by unfold_locales (simp add: bufos_write_def buffer_init_wf)

section \<open>Writing, then reading back\<close>

text \<open>A channel: a sink, a source, and a way to open the source on what the sink has received.\<close>

locale channel = snk: byte_sink put written oinvar + src: byte_source rb rest sinvar
  for put :: "'o byte_writer" and written oinvar and rb :: "'s byte_reader" and rest sinvar +
  fixes open_on :: "'o \<Rightarrow> 's"
  assumes open_ok: "oinvar s \<Longrightarrow> sinvar (open_on s) \<and> bytes_of (rest (open_on s)) = written s"
begin

lemma rest_open: "oinvar s \<Longrightarrow> rest (open_on s) = string_of (written s)"
  using open_ok by (metis string_of_bytes_of)

lemma lenenc_channel:
  assumes "oinvar s" "written s = []" "length str < 2 ^ 64"
  shows "\<exists>s1 s2. os_appendLenencString put str s = ret s1 \<and>
    readLenencString rb (open_on s1) = Inr (str, s2) \<and> rest s2 = []"
proof -
  obtain s1 where s1: "os_appendLenencString put str s = ret s1" "oinvar s1"
    "written s1 = varuint_bytes (word_of_nat (length str)) @ bytes_of str"
    using snk.appendLenencString_ok [OF assms(1)] assms(2) by auto
  then have "rest (open_on s1) = string_of (varuint_bytes (word_of_nat (length str))) @ str @ []"
    by (simp add: rest_open)
  then show ?thesis
    using src.readLenencString_ok [OF _ assms(3)] open_ok [OF s1(2)] s1(1) by blast
qed

lemma varuint_channel:
  assumes "oinvar s" "written s = []"
  shows "\<exists>s1 s2. os_appendVarUInt put v s = ret s1 \<and>
    readVarUInt rb (open_on s1) = Inr (v, s2) \<and> rest s2 = []"
proof -
  obtain s1 where s1: "put (varuint_bytes v) s = ret s1" "oinvar s1" "written s1 = varuint_bytes v"
    using snk.put_ok [OF assms(1)] assms(2) by auto
  then have "rest (open_on s1) = string_of (varuint_bytes v) @ []"
    by (simp add: rest_open)
  then show ?thesis
    using src.readVarUInt_ok open_ok [OF s1(2)] s1(1) by (fastforce simp: os_appendVarUInt_def)
qed

end

interpretation string_channel: channel sos_write bytes_of "\<lambda>_. True"
  sis_readNextByte sis_rest sis_invar sis_new
  by unfold_locales (simp add: sis_new_def sis_rest_def sis_invar_def)

interpretation buffer_channel: channel bufos_write contents buffer_init
  bis_readNextByte bis_rest bis_invar bis_new
  by unfold_locales (simp add: bis_new_def bis_rest_def bis_invar_def buffer_toString_def)

section \<open>Properties\<close>

text \<open>The variable-length integers: what \<open>OutputStream::appendVarUInt\<close> writes for any 64-bit
  value fits its local array of ten bytes, and \<open>InputStream::readVarUInt\<close> reads it back and
  consumes exactly those bytes.\<close>

theorem varuint_stream_roundtrip:
  "\<exists>str s. os_appendVarUInt sos_write v [] = ret str \<and> length str \<le> 10 \<and>
    readVarUInt sis_readNextByte (sis_new str) = Inr (v, s) \<and> sis_eof s"
proof -
  obtain str s where "os_appendVarUInt sos_write v [] = ret str"
    "readVarUInt sis_readNextByte (sis_new str) = Inr (v, s)" "sis_rest s = []"
    using string_channel.varuint_channel [of "[]" v] by auto
  moreover from this have "length str \<le> 10"
    using length_varuint_bytes [of v] by (auto simp: os_appendVarUInt_def sos_write_def)
  ultimately show ?thesis by (auto simp: sis_rest_def sis_eof_def)
qed

text \<open>A length-prefixed string written into a buffer by \<open>BufferOutputStream\<close> is read back by
  \<open>BufferInputStream\<close> on that buffer, which is then at its end.\<close>

theorem lenenc_buffer_roundtrip:
  assumes "buffer_init b" "contents b = []" "length str < 2 ^ 64"
  shows "\<exists>b' s. os_appendLenencString bufos_write str b = ret b' \<and>
    readLenencString bis_readNextByte (bis_new b') = Inr (str, s) \<and> bis_rest s = []"
  using buffer_channel.lenenc_channel [OF assms] .

theorem lenenc_buffer_roundtrip_witness:
  "\<exists>b' s. os_appendLenencString bufos_write ''hello'' buffer_new = ret b' \<and>
    readLenencString bis_readNextByte (bis_new b') = Inr (''hello'', s) \<and> bis_rest s = []"
  using lenenc_buffer_roundtrip [of buffer_new "''hello''"]
  by (simp add: buffer_init_def buffer_wf_def buffer_new_def contents_def)

text \<open>C35. \<open>FileInputStream\<close> overrides the block read of the base class with one that copies from its
  read-ahead buffer. On a file whose \<open>read\<close> returns between one and the requested number of bytes
  until the end, it returns the same bytes as reading byte by byte and leaves the same rest, however
  short the individual reads are.\<close>

theorem file_block_read_refines_byte_read:
  assumes "regular_file sys_read frest" "fis_invar s"
  shows "\<exists>s' s'' bs. fis_readNextBytes sys_read n s = Inr (bs, s') \<and>
    readNextBytes (fis_rb sys_read) n s = (bs, s'') \<and> bs = take n (fis_rest frest s) \<and>
    fis_invar s' \<and> fis_rest frest s' = drop n (fis_rest frest s) \<and>
    fis_rest frest s'' = fis_rest frest s'"
  using regular_file.fis_block_read [OF assms] .

theorem file_block_read_refines_byte_read_witness:
  "\<exists>s'. fis_readNextBytes pf_read 3 (fis_new \<lparr>pf_data = ''abcde'', pf_off = 0\<rparr>) = Inr (''abc'', s') \<and>
     fis_rest pf_rest s' = ''de''"
  using file_block_read_refines_byte_read [OF pf.regular_file_axioms,
      of "fis_new \<lparr>pf_data = ''abcde'', pf_off = 0\<rparr>" 3]
  by (auto simp: fis_invar_def fis_new_def fis_rest_def pf_rest_def)

text \<open>Skipping is reading and forgetting: on the streams over a string, a buffer and a block of
  memory, \<open>skipNextBytes\<close> passes over as many bytes as \<open>readNextBytes\<close> would return and leaves
  the same rest.\<close>

theorem skip_is_read:
  assumes "sis_invar s" "bis_invar b" "mis_invar m"
  shows "fst (sis_skipNextBytes n s) = length (fst (readNextBytes sis_readNextByte n s)) \<and>
      sis_rest (snd (sis_skipNextBytes n s)) = sis_rest (snd (readNextBytes sis_readNextByte n s)) \<and>
    fst (bis_skipNextBytes n b) = length (fst (readNextBytes bis_readNextByte n b)) \<and>
      bis_rest (snd (bis_skipNextBytes n b)) = bis_rest (snd (readNextBytes bis_readNextByte n b)) \<and>
    fst (mis_skipNextBytes n m) = length (fst (readNextBytes mis_readNextByte n m)) \<and>
      mis_rest (snd (mis_skipNextBytes n m)) = mis_rest (snd (readNextBytes mis_readNextByte n m))"
  using sis.skip_eq_read [OF assms(1), of n] bis.skip_eq_read [OF assms(2), of n]
    mis.skip_eq_read [OF assms(3), of n] by blast

theorem skip_is_read_witness:
  "fst (sis_skipNextBytes 5 (sis_new ''abc'')) =
     length (fst (readNextBytes sis_readNextByte 5 (sis_new ''abc''))) \<and>
   mis_rest (snd (mis_skipNextBytes 1 (mis_new ''xy'' 2))) =
     mis_rest (snd (readNextBytes mis_readNextByte 1 (mis_new ''xy'' 2)))"
proof -
  have "sis_invar (sis_new ''abc'')" "bis_invar (bis_new buffer_new)" "mis_invar (mis_new ''xy'' 2)"
    by (simp_all add: sis_invar_def sis_new_def bis_invar_def bis_new_def mis_invar_def mis_new_def)
  from skip_is_read [OF this, of 5] skip_is_read [OF this, of 1] show ?thesis by blast
qed

text \<open>\<open>InputStream::readLine\<close> terminates and returns the text up to and including the first line
  feed, or all that is left when there is none; it reports the end only when nothing was left.\<close>

theorem readLine_correct:
  assumes "sis_invar s"
  shows "\<exists>s'. readLine sis_readNextByte [] 0 s =
      Some (sis_rest s \<noteq> [],
        takeWhile (\<lambda>c. c \<noteq> CHR 0x0A) (sis_rest s) @
          take 1 (dropWhile (\<lambda>c. c \<noteq> CHR 0x0A) (sis_rest s)), s') \<and>
      sis_invar s' \<and> sis_rest s' = drop 1 (dropWhile (\<lambda>c. c \<noteq> CHR 0x0A) (sis_rest s))"
  using sis.readLine_ok [OF assms, of "[]" 0] by simp

theorem readLine_correct_witness:
  "\<exists>s'. readLine sis_readNextByte [] 0 (sis_new [CHR ''a'', CHR 0x0A, CHR ''b'']) =
     Some (True, [CHR ''a'', CHR 0x0A], s') \<and> sis_rest s' = ''b''"
  using readLine_correct [of "sis_new [CHR ''a'', CHR 0x0A, CHR ''b'']"]
  by (auto simp: sis_invar_def sis_new_def sis_rest_def)

end
