(* ===== verification/Stx_BinaryMessage.thy ===== *)
theory Stx_BinaryMessage
  imports Stx_Streams
begin

text \<open>
  \<open>BinaryMessageWriter\<close> (\<open>util/binarymessagewriter.cc\<close>) and \<open>BinaryMessageReader\<close>
  (\<open>util/binarymessagereader_impl.h\<close>).

  The writer is its allocation (a list of cells, \<open>None\<close> where nothing was written), the fields
  \<open>size_\<close> and \<open>used_\<close> and the ownership flag. \<open>append\<close> never updates \<open>size_\<close>, so the allocation
  may be larger than \<open>size_\<close>. The reader is modelled with its bounds checks (a build without
  \<open>NDEBUG\<close>); its positions and sizes are 64-bit words, because the sum in the check wraps around.
  An access outside of the message is \<open>UndefinedBehaviour\<close>.
\<close>

section \<open>BinaryMessageWriter\<close>

record bmw =
  bmw_ptr :: "byte option list"
  bmw_size :: nat
  bmw_used :: nat
  bmw_owned :: bool

definition memcpy :: "nat \<Rightarrow> byte list \<Rightarrow> byte option list \<Rightarrow> byte option list result" where
  "memcpy off bs m =
     (if off + length bs \<le> length m
      then Inr (take off m @ map Some bs @ drop (off + length bs) m)
      else Inl UndefinedBehaviour)"

definition bmw_new :: "nat \<Rightarrow> bmw" where
  "bmw_new initial_size =
     \<lparr>bmw_ptr = replicate initial_size None, bmw_size = initial_size, bmw_used = 0, bmw_owned = True\<rparr>"

definition bmw_on :: "byte option list \<Rightarrow> nat \<Rightarrow> bmw" where
  "bmw_on buf buf_len =
     \<lparr>bmw_ptr = buf, bmw_size = buf_len, bmw_used = 0, bmw_owned = False\<rparr>"

text \<open>The loop that doubles \<open>resize\<close>; from 0 it never ends.\<close>

partial_function (option) bmw_resize :: "nat \<Rightarrow> nat \<Rightarrow> nat option" where
  "bmw_resize need rsz = (if need > rsz then bmw_resize need (rsz * 2) else Some rsz)"

declare bmw_resize.simps [code]

definition bmw_append :: "byte list \<Rightarrow> bmw \<Rightarrow> bmw comp" where
  "bmw_append data w =
     Option.bind (bmw_resize (bmw_used w + length data) (bmw_size w)) (\<lambda>rsz.
       if rsz > bmw_size w \<and> \<not> bmw_owned w then raise kBufferOverflowError
       else
         (let ptr = (if rsz > bmw_size w
                     then take rsz (bmw_ptr w) @ replicate (rsz - length (bmw_ptr w)) None
                     else bmw_ptr w)
          in Some (bindE (memcpy (bmw_used w) data ptr)
               (\<lambda>m. Inr (w\<lparr>bmw_ptr := m, bmw_used := bmw_used w + length data\<rparr>)))))"

definition bmw_update :: "nat \<Rightarrow> byte list \<Rightarrow> bmw \<Rightarrow> bmw result" where
  "bmw_update offset data w =
     (if offset + length data > bmw_size w then Inl kBufferOverflowError
      else bindE (memcpy offset data (bmw_ptr w)) (\<lambda>m. Inr (w\<lparr>bmw_ptr := m\<rparr>)))"

definition bmw_clear :: "bmw \<Rightarrow> bmw" where
  "bmw_clear w = w\<lparr>bmw_used := 0\<rparr>"

definition bmw_appendUInt8 :: "byte \<Rightarrow> bmw \<Rightarrow> bmw comp" where
  "bmw_appendUInt8 v w = bmw_append (le_bytes 1 v) w"

definition bmw_appendUInt16 :: "u16 \<Rightarrow> bmw \<Rightarrow> bmw comp" where
  "bmw_appendUInt16 v w = bmw_append (le_bytes 2 v) w"

definition bmw_updateUInt16 :: "nat \<Rightarrow> u16 \<Rightarrow> bmw \<Rightarrow> bmw result" where
  "bmw_updateUInt16 offset v w = bmw_update offset (le_bytes 2 v) w"

definition bmw_appendUInt32 :: "u32 \<Rightarrow> bmw \<Rightarrow> bmw comp" where
  "bmw_appendUInt32 v w = bmw_append (le_bytes 4 v) w"

definition bmw_updateUInt32 :: "nat \<Rightarrow> u32 \<Rightarrow> bmw \<Rightarrow> bmw result" where
  "bmw_updateUInt32 offset v w = bmw_update offset (le_bytes 4 v) w"

definition bmw_appendUInt64 :: "u64 \<Rightarrow> bmw \<Rightarrow> bmw comp" where
  "bmw_appendUInt64 v w = bmw_append (le_bytes 8 v) w"

definition bmw_updateUInt64 :: "nat \<Rightarrow> u64 \<Rightarrow> bmw \<Rightarrow> bmw result" where
  "bmw_updateUInt64 offset v w = bmw_update offset (le_bytes 8 v) w"

definition bmw_appendString :: "string \<Rightarrow> bmw \<Rightarrow> bmw comp" where
  "bmw_appendString str w = bmw_append (bytes_of str) w"

definition bmw_updateString :: "nat \<Rightarrow> string \<Rightarrow> bmw \<Rightarrow> bmw result" where
  "bmw_updateString offset str w = bmw_update offset (bytes_of str) w"

definition bmw_appendVarUInt :: "u64 \<Rightarrow> bmw \<Rightarrow> bmw comp" where
  "bmw_appendVarUInt v w = bmw_append (varuint_bytes v) w"

definition bmw_appendLenencString :: "string \<Rightarrow> bmw \<Rightarrow> bmw comp" where
  "bmw_appendLenencString str w =
     bindC (bmw_appendVarUInt (word_of_nat (length str)) w) (bmw_append (bytes_of str))"

definition bmw_appendValue_string :: "string \<Rightarrow> bmw \<Rightarrow> bmw comp" where
  "bmw_appendValue_string str w =
     bindC (bmw_appendUInt32 (word_of_nat (length str)) w) (bmw_append (bytes_of str))"

text \<open>The bytes \<open>data()\<close> and \<open>size()\<close> expose.\<close>

definition bmw_data :: "bmw \<Rightarrow> byte list" where
  "bmw_data w = map the (take (bmw_used w) (bmw_ptr w))"

definition bmw_invar :: "bmw \<Rightarrow> bool" where
  "bmw_invar w \<longleftrightarrow> bmw_owned w \<and> 0 < bmw_size w \<and> bmw_size w \<le> length (bmw_ptr w) \<and>
     bmw_used w \<le> length (bmw_ptr w) \<and> (\<forall>i < bmw_used w. bmw_ptr w ! i \<noteq> None)"

lemma bmw_resize_ok:
  "0 < r \<Longrightarrow> \<exists>r'. bmw_resize need r = Some r' \<and> need \<le> r' \<and> r \<le> r' \<and> (need \<le> r \<longrightarrow> r' = r)"
proof (induction "need - r" arbitrary: r rule: less_induct)
  case less
  show ?case
  proof (cases "need > r")
    case False
    then show ?thesis by (simp add: bmw_resize.simps)
  next
    case True
    with less.prems have "need - r * 2 < need - r" by linarith
    from less.hyps [OF this] less.prems obtain r' where "bmw_resize need (r * 2) = Some r'"
      "need \<le> r'" "r * 2 \<le> r'" by auto
    then show ?thesis using True by (subst bmw_resize.simps) auto
  qed
qed

lemma bmw_append_ok:
  assumes "bmw_invar w"
  shows "\<exists>w'. bmw_append bs w = ret w' \<and> bmw_invar w' \<and> bmw_data w' = bmw_data w @ bs"
proof -
  have w: "bmw_owned w" "0 < bmw_size w" "bmw_size w \<le> length (bmw_ptr w)"
    "bmw_used w \<le> length (bmw_ptr w)" "\<forall>i < bmw_used w. bmw_ptr w ! i \<noteq> None"
    using assms by (auto simp: bmw_invar_def)
  obtain r where r: "bmw_resize (bmw_used w + length bs) (bmw_size w) = Some r"
    "bmw_used w + length bs \<le> r" "bmw_size w \<le> r"
    using bmw_resize_ok [OF w(2)] by blast
  define p where "p = (if r > bmw_size w
    then take r (bmw_ptr w) @ replicate (r - length (bmw_ptr w)) None else bmw_ptr w)"
  have p: "bmw_used w + length bs \<le> length p" "bmw_size w \<le> length p"
    "take (bmw_used w) p = take (bmw_used w) (bmw_ptr w)"
    using r w by (auto simp: p_def min_def)
  have "bmw_append bs w = ret (w\<lparr>bmw_ptr := take (bmw_used w) p @ map Some bs @
      drop (bmw_used w + length bs) p, bmw_used := bmw_used w + length bs\<rparr>)"
    using r(1) w(1) p(1) by (simp add: bmw_append_def Let_def p_def [symmetric] memcpy_def)
  then show ?thesis
    using w p by (auto simp: bmw_invar_def bmw_data_def comp_def nth_append)
qed

interpretation bmw: byte_sink bmw_append bmw_data bmw_invar
  by unfold_locales (rule bmw_append_ok)

lemma bmw_new_ok [simp]: "0 < n \<Longrightarrow> bmw_invar (bmw_new n)" "bmw_data (bmw_new n) = []"
  by (simp_all add: bmw_invar_def bmw_new_def bmw_data_def)

lemma bmw_clear_ok: "bmw_invar w \<Longrightarrow> bmw_invar (bmw_clear w) \<and> bmw_data (bmw_clear w) = []"
  by (simp add: bmw_invar_def bmw_clear_def bmw_data_def)

text \<open>
  A writer over memory it does not own, of \<open>size_\<close> bytes, with room for the data: the data are
  stored; without room it raises and does not touch the memory.
\<close>

lemma bmw_append_unowned:
  assumes "\<not> bmw_owned w" "0 < bmw_size w" "bmw_size w \<le> length (bmw_ptr w)"
  shows "bmw_append bs w =
    (if bmw_used w + length bs \<le> bmw_size w
     then ret (w\<lparr>bmw_ptr := take (bmw_used w) (bmw_ptr w) @ map Some bs @
                  drop (bmw_used w + length bs) (bmw_ptr w), bmw_used := bmw_used w + length bs\<rparr>)
     else raise kBufferOverflowError)"
proof -
  obtain r where "bmw_resize (bmw_used w + length bs) (bmw_size w) = Some r"
    "bmw_used w + length bs \<le> r" "bmw_size w \<le> r"
    "bmw_used w + length bs \<le> bmw_size w \<longrightarrow> r = bmw_size w"
    using bmw_resize_ok [OF assms(2)] by blast
  then show ?thesis
    using assms by (auto simp: bmw_append_def memcpy_def Let_def)
qed

section \<open>BinaryMessageReader\<close>

record bmr =
  bmr_ptr :: "byte list"
  bmr_size :: u64
  bmr_pos :: u64

definition bmr_new :: "byte list \<Rightarrow> u64 \<Rightarrow> bmr" where
  "bmr_new buf buf_len = \<lparr>bmr_ptr = buf, bmr_size = buf_len, bmr_pos = 0\<rparr>"

text \<open>
  \<open>readString\<close> checks and advances; the caller that dereferences the returned pointer for \<open>size\<close>
  bytes is \<open>bmr_read\<close>, one that only skips is \<open>bmr_advance\<close>.
\<close>

definition bmr_advance :: "u64 \<Rightarrow> bmr \<Rightarrow> bmr result" where
  "bmr_advance n r =
     (if bmr_pos r + n > bmr_size r then Inl kBufferOverflowError
      else Inr (r\<lparr>bmr_pos := bmr_pos r + n\<rparr>))"

definition bmr_read :: "u64 \<Rightarrow> bmr \<Rightarrow> (byte list \<times> bmr) result" where
  "bmr_read n r =
     bindE (bmr_advance n r) (\<lambda>r'.
       if unat (bmr_pos r) + unat n > length (bmr_ptr r) then Inl UndefinedBehaviour
       else Inr (take (unat n) (drop (unat (bmr_pos r)) (bmr_ptr r)), r'))"

definition bmr_readUInt8 :: "bmr \<Rightarrow> (byte \<times> bmr) result" where
  "bmr_readUInt8 r = bindE (bmr_read 1 r) (\<lambda>(bs, r'). Inr (le_word bs, r'))"

definition bmr_readUInt16 :: "bmr \<Rightarrow> (u16 \<times> bmr) result" where
  "bmr_readUInt16 r = bindE (bmr_read 2 r) (\<lambda>(bs, r'). Inr (le_word bs, r'))"

definition bmr_readUInt32 :: "bmr \<Rightarrow> (u32 \<times> bmr) result" where
  "bmr_readUInt32 r = bindE (bmr_read 4 r) (\<lambda>(bs, r'). Inr (le_word bs, r'))"

definition bmr_readUInt64 :: "bmr \<Rightarrow> (u64 \<times> bmr) result" where
  "bmr_readUInt64 r = bindE (bmr_read 8 r) (\<lambda>(bs, r'). Inr (le_word bs, r'))"

definition bmr_remaining :: "bmr \<Rightarrow> u64" where
  "bmr_remaining r = bmr_size r - bmr_pos r"

text \<open>The reads that may fail return \<open>None\<close> for \<open>false\<close>.\<close>

definition bmr_maybeReadUInt8 :: "bmr \<Rightarrow> (byte option \<times> bmr) result" where
  "bmr_maybeReadUInt8 r =
     (if bmr_remaining r > 1 then bindE (bmr_readUInt8 r) (\<lambda>(v, r'). Inr (Some v, r'))
      else Inr (None, r))"

definition bmr_maybeReadUInt16 :: "bmr \<Rightarrow> (u16 option \<times> bmr) result" where
  "bmr_maybeReadUInt16 r =
     (if bmr_remaining r > 2 then bindE (bmr_readUInt16 r) (\<lambda>(v, r'). Inr (Some v, r'))
      else Inr (None, r))"

definition bmr_maybeReadUInt32 :: "bmr \<Rightarrow> (u32 option \<times> bmr) result" where
  "bmr_maybeReadUInt32 r =
     (if bmr_remaining r > 4 then bindE (bmr_readUInt32 r) (\<lambda>(v, r'). Inr (Some v, r'))
      else Inr (None, r))"

definition bmr_maybeReadUInt64 :: "bmr \<Rightarrow> (u64 option \<times> bmr) result" where
  "bmr_maybeReadUInt64 r =
     (if bmr_remaining r > 8 then bindE (bmr_readUInt64 r) (\<lambda>(v, r'). Inr (Some v, r'))
      else Inr (None, r))"

text \<open>The shift of the eleventh byte is by 70 bits and undefined.\<close>

function bmr_readVarUInt_loop :: "nat \<Rightarrow> u64 \<Rightarrow> bmr \<Rightarrow> (u64 \<times> bmr) result" where
  "bmr_readVarUInt_loop i val r =
     bindE (bmr_read 1 r) (\<lambda>(bs, r').
       if 64 \<le> 7 * i then Inl UndefinedBehaviour
       else
         (let b = hd bs; val' = val OR push_bit (7 * i) (ucast b AND 0x7f)
          in if b AND 0x80 = 0 then Inr (val', r') else bmr_readVarUInt_loop (Suc i) val' r'))"
  by pat_completeness auto
termination
  by (relation "measure (\<lambda>(i, val, r). 10 - i)") auto

declare bmr_readVarUInt_loop.simps [simp del]

definition bmr_readVarUInt :: "bmr \<Rightarrow> (u64 \<times> bmr) result" where
  "bmr_readVarUInt r = bmr_readVarUInt_loop 0 0 r"

function bmr_maybeReadVarUInt_loop :: "nat \<Rightarrow> u64 \<Rightarrow> bmr \<Rightarrow> (u64 option \<times> bmr) result" where
  "bmr_maybeReadVarUInt_loop i val r =
     (if bmr_pos r \<ge> bmr_size r then Inr (None, r)
      else bindE (bmr_read 1 r) (\<lambda>(bs, r').
        if 64 \<le> 7 * i then Inl UndefinedBehaviour
        else
          (let b = hd bs; val' = val OR push_bit (7 * i) (ucast b AND 0x7f)
           in if b AND 0x80 = 0 then Inr (Some val', r')
              else bmr_maybeReadVarUInt_loop (Suc i) val' r')))"
  by pat_completeness auto
termination
  by (relation "measure (\<lambda>(i, val, r). 10 - i)") auto

declare bmr_maybeReadVarUInt_loop.simps [simp del]

definition bmr_maybeReadVarUInt :: "bmr \<Rightarrow> (u64 option \<times> bmr) result" where
  "bmr_maybeReadVarUInt r = bmr_maybeReadVarUInt_loop 0 0 r"

definition bmr_readLenencString :: "bmr \<Rightarrow> (string \<times> bmr) result" where
  "bmr_readLenencString r =
     bindE (bmr_readVarUInt r) (\<lambda>(len, r1).
       bindE (bmr_read len r1) (\<lambda>(bs, r2). Inr (string_of bs, r2)))"

definition bmr_maybeReadLenencString :: "bmr \<Rightarrow> (string option \<times> bmr) result" where
  "bmr_maybeReadLenencString r =
     bindE (bmr_maybeReadVarUInt r) (\<lambda>(len, r1).
       case len of
         None \<Rightarrow> Inr (None, r1)
       | Some strlen \<Rightarrow>
           (if strlen \<le> bmr_remaining r1
            then bindE (bmr_read strlen r1) (\<lambda>(bs, r2). Inr (Some (string_of bs), r2))
            else Inr (None, r1\<lparr>bmr_pos := bmr_pos r\<rparr>)))"

definition bmr_readValue_string :: "bmr \<Rightarrow> (string \<times> bmr) result" where
  "bmr_readValue_string r =
     bindE (bmr_readUInt32 r) (\<lambda>(len, r1).
       bindE (bmr_read (ucast len) r1) (\<lambda>(bs, r2). Inr (string_of bs, r2)))"

definition bmr_rewind :: "bmr \<Rightarrow> bmr" where
  "bmr_rewind r = r\<lparr>bmr_pos := 0\<rparr>"

definition bmr_seekTo :: "u64 \<Rightarrow> bmr \<Rightarrow> bmr result" where
  "bmr_seekTo pos r = (if pos > bmr_size r then Inl kBufferOverflowError else Inr (r\<lparr>bmr_pos := pos\<rparr>))"

subsection \<open>The reader as a stream\<close>

definition bmr_rest :: "bmr \<Rightarrow> byte list" where
  "bmr_rest r = drop (unat (bmr_pos r)) (take (unat (bmr_size r)) (bmr_ptr r))"

text \<open>No message has \<open>2 ^ 64 - 1\<close> bytes.\<close>

definition bmr_invar :: "bmr \<Rightarrow> bool" where
  "bmr_invar r \<longleftrightarrow> bmr_pos r \<le> bmr_size r \<and> unat (bmr_size r) \<le> length (bmr_ptr r) \<and>
     unat (bmr_size r) + 1 < 2 ^ 64"

text \<open>The read of one byte that \<open>maybeReadVarUInt\<close> performs, as a \<open>readNextByte\<close>.\<close>

definition bmr_next :: "bmr byte_reader" where
  "bmr_next r =
     (if bmr_pos r \<ge> bmr_size r then (None, r)
      else case bmr_read 1 r of Inr (bs, r') \<Rightarrow> (Some (chr_of (hd bs)), r') | Inl _ \<Rightarrow> (None, r))"

lemma length_bmr_rest: "bmr_invar r \<Longrightarrow> length (bmr_rest r) = unat (bmr_size r) - unat (bmr_pos r)"
  by (auto simp: bmr_rest_def bmr_invar_def min_def)

lemma bmr_read_ok:
  assumes "bmr_invar r" "unat n \<le> length (bmr_rest r)"
  shows "\<exists>r'. bmr_read n r = Inr (take (unat n) (bmr_rest r), r') \<and> bmr_invar r' \<and>
    bmr_rest r' = drop (unat n) (bmr_rest r) \<and> unat (bmr_pos r') = unat (bmr_pos r) + unat n \<and>
    bmr_ptr r' = bmr_ptr r \<and> bmr_size r' = bmr_size r"
proof -
  have le: "unat (bmr_pos r) \<le> unat (bmr_size r)" "unat (bmr_size r) \<le> length (bmr_ptr r)"
    "unat (bmr_size r) + 1 < 2 ^ 64"
    using assms(1) by (auto simp: bmr_invar_def word_le_nat_alt)
  have sum: "unat (bmr_pos r) + unat n \<le> unat (bmr_size r)"
    using assms le by (simp add: length_bmr_rest)
  then have "unat (bmr_pos r) + unat n < 2 ^ 64"
    using unsigned_less [of "bmr_size r", where ?'a = nat] by simp
  then have add: "unat (bmr_pos r + n) = unat (bmr_pos r) + unat n"
    by (simp add: unat_word_ariths)
  then have "\<not> bmr_pos r + n > bmr_size r" using sum by (simp add: word_less_nat_alt)
  then show ?thesis
    using sum le add
    by (auto simp: bmr_read_def bmr_advance_def bmr_rest_def bmr_invar_def word_le_nat_alt drop_take add.commute
        min_def)
qed

lemma bmr_read_overflow:
  assumes "bmr_invar r" "length (bmr_rest r) < unat n" "unat (bmr_pos r) + unat n < 2 ^ 64"
  shows "bmr_read n r = Inl kBufferOverflowError"
proof -
  have "unat (bmr_pos r + n) = unat (bmr_pos r) + unat n"
    using assms(3) by (simp add: unat_word_ariths)
  then have "bmr_pos r + n > bmr_size r"
    using assms(1,2) by (simp add: word_less_nat_alt length_bmr_rest)
  then show ?thesis by (simp add: bmr_read_def bmr_advance_def)
qed

interpretation bmr: byte_source bmr_next "\<lambda>r. string_of (bmr_rest r)" bmr_invar
proof
  fix r c cs
  assume r: "bmr_invar r" "string_of (bmr_rest r) = c # cs"
  then obtain b bs where bs: "bmr_rest r = b # bs" "c = chr_of b" "cs = string_of bs" by auto
  then have "0 < unat (bmr_size r) - unat (bmr_pos r)" using r(1) length_bmr_rest [of r] by simp
  then have "\<not> bmr_pos r \<ge> bmr_size r" by (simp add: word_le_nat_alt)
  moreover obtain r' where "bmr_read 1 r = Inr ([b], r')" "bmr_invar r'" "bmr_rest r' = bs"
    using bmr_read_ok [OF r(1), of 1] bs(1) by auto
  ultimately show "\<exists>r'. bmr_next r = (Some c, r') \<and> bmr_invar r' \<and> string_of (bmr_rest r') = cs"
    using bs by (simp add: bmr_next_def)
next
  fix r
  assume r: "bmr_invar r" "string_of (bmr_rest r) = []"
  then have "bmr_pos r \<ge> bmr_size r"
    using length_bmr_rest [OF r(1)] by (simp add: word_le_nat_alt)
  with r show "\<exists>r'. bmr_next r = (None, r') \<and> bmr_invar r' \<and> string_of (bmr_rest r') = []"
    by (simp add: bmr_next_def)
qed

text \<open>
  Both variable-length reads of the reader are the one of \<open>InputStream\<close> on this stream; they
  differ in what they do at the end of the message.
\<close>

lemma bmr_next_cases:
  assumes "bmr_invar r"
  obtains (eof) "bmr_pos r \<ge> bmr_size r" "bmr_next r = (None, r)" "bmr_read 1 r = Inl kBufferOverflowError"
    | (more) b r' where "\<not> bmr_pos r \<ge> bmr_size r" "bmr_next r = (Some (chr_of b), r')"
        "bmr_read 1 r = Inr ([b], r')" "bmr_invar r'"
proof (cases "bmr_rest r")
  case Nil
  then have le: "bmr_pos r \<ge> bmr_size r" "unat (bmr_pos r) + unat (1 :: u64) < 2 ^ 64"
    using length_bmr_rest [OF assms] assms by (auto simp: word_le_nat_alt bmr_invar_def)
  then show ?thesis
    using eof bmr_read_overflow [OF assms, of 1] Nil by (simp add: bmr_next_def)
next
  case (Cons b bs)
  then have "0 < unat (bmr_size r) - unat (bmr_pos r)" using assms length_bmr_rest [of r] by simp
  then have "\<not> bmr_pos r \<ge> bmr_size r" by (simp add: word_le_nat_alt)
  moreover obtain r' where "bmr_read 1 r = Inr ([b], r')" "bmr_invar r'"
    using bmr_read_ok [OF assms, of 1] Cons by auto
  ultimately show ?thesis using more by (simp add: bmr_next_def)
qed

lemma bmr_readVarUInt_loop_eq:
  "bmr_invar r \<Longrightarrow> bmr_readVarUInt_loop i acc r =
     (case readVarUInt_loop bmr_next i acc r of
        Inl kEOFError \<Rightarrow> Inl kBufferOverflowError | res \<Rightarrow> res)"
proof (induction i acc r rule: bmr_readVarUInt_loop.induct)
  case (1 i acc r)
  from "1.prems" show ?case
  proof (cases rule: bmr_next_cases)
    case eof
    then show ?thesis by (simp add: bmr_readVarUInt_loop.simps [of i] readVarUInt_loop.simps [of _ i])
  next
    case (more b r')
    show ?thesis
    proof (cases "64 \<le> 7 * i \<or> b AND 0x80 = 0")
      case True
      then show ?thesis using more
        by (auto simp: bmr_readVarUInt_loop.simps [of i] readVarUInt_loop.simps [of _ i])
    next
      case False
      then show ?thesis using more "1.IH" [OF more(3) refl _ refl refl]
        by (simp add: bmr_readVarUInt_loop.simps [of i] readVarUInt_loop.simps [of _ i])
    qed
  qed
qed

lemma bmr_maybeReadVarUInt_loop_eq:
  "bmr_invar r \<Longrightarrow> readVarUInt_loop bmr_next i acc r = Inr (v, r') \<Longrightarrow>
     bmr_maybeReadVarUInt_loop i acc r = Inr (Some v, r')"
proof (induction i acc r rule: bmr_maybeReadVarUInt_loop.induct)
  case (1 i acc r)
  from "1.prems"(1) show ?case
  proof (cases rule: bmr_next_cases)
    case eof
    then show ?thesis using "1.prems"(2) by (simp add: readVarUInt_loop.simps [of _ i])
  next
    case (more b r1)
    show ?thesis
    proof (cases "64 \<le> 7 * i \<or> b AND 0x80 = 0")
      case True
      then show ?thesis using more "1.prems"(2)
        by (auto simp: bmr_maybeReadVarUInt_loop.simps [of i] readVarUInt_loop.simps [of _ i]
            split: if_splits)
    next
      case False
      then show ?thesis using more "1.prems"(2) "1.IH" [OF _ more(3) refl _ refl refl]
        by (simp add: bmr_maybeReadVarUInt_loop.simps [of i] readVarUInt_loop.simps [of _ i])
    qed
  qed
qed

lemma bmr_readVarUInt_ok:
  assumes "bmr_invar r" "bmr_rest r = varuint_bytes v @ bs"
  shows "\<exists>r'. bmr_readVarUInt r = Inr (v, r') \<and> bmr_maybeReadVarUInt r = Inr (Some v, r') \<and>
    bmr_invar r' \<and> bmr_rest r' = bs"
proof -
  obtain r' where r': "readVarUInt bmr_next r = Inr (v, r')" "bmr_invar r'"
    "string_of (bmr_rest r') = string_of bs"
    using bmr.readVarUInt_ok [OF assms(1), of v "string_of bs"] assms(2) by auto
  then have "bmr_rest r' = bs" by (metis bytes_of_string_of)
  with r' show ?thesis
    using bmr_readVarUInt_loop_eq [OF assms(1), of 0 0]
      bmr_maybeReadVarUInt_loop_eq [OF assms(1), of 0 0 v r']
    by (simp add: bmr_readVarUInt_def bmr_maybeReadVarUInt_def readVarUInt_def)
qed

lemma bmr_readLenencString_ok:
  assumes "bmr_invar r" "length str < 2 ^ 64"
    and "bmr_rest r = varuint_bytes (word_of_nat (length str)) @ bytes_of str @ bs"
  shows "\<exists>r'. bmr_readLenencString r = Inr (str, r') \<and>
    bmr_maybeReadLenencString r = Inr (Some str, r') \<and> bmr_invar r' \<and> bmr_rest r' = bs"
proof -
  let ?n = "word_of_nat (length str) :: u64"
  obtain r1 where r1: "bmr_readVarUInt r = Inr (?n, r1)" "bmr_maybeReadVarUInt r = Inr (Some ?n, r1)"
    "bmr_invar r1" "bmr_rest r1 = bytes_of str @ bs"
    using bmr_readVarUInt_ok [OF assms(1,3)] by blast
  have n: "unat ?n = length str" using assms(2) by (simp add: unat_of_nat)
  obtain r2 where "bmr_read ?n r1 = Inr (bytes_of str, r2)" "bmr_invar r2" "bmr_rest r2 = bs"
    using bmr_read_ok [OF r1(3), of ?n] n r1(4) by auto
  moreover have "unat (bmr_remaining r1) = length (bmr_rest r1)"
    using r1(3) length_bmr_rest [OF r1(3)]
    by (simp add: bmr_remaining_def bmr_invar_def unat_sub)
  then have "?n \<le> bmr_remaining r1" using n r1(4) by (simp add: word_le_nat_alt)
  ultimately show ?thesis
    using r1 by (simp add: bmr_readLenencString_def bmr_maybeReadLenencString_def)
qed

lemma bmr_readUInt64_ok:
  assumes "bmr_invar r" "bmr_rest r = le_bytes 8 v @ bs"
  shows "\<exists>r'. bmr_readUInt64 r = Inr (v, r') \<and> bmr_invar r' \<and> bmr_rest r' = bs"
proof -
  obtain r' where "bmr_read 8 r = Inr (le_bytes 8 v, r')" "bmr_invar r'" "bmr_rest r' = bs"
    using bmr_read_ok [OF assms(1), of 8] assms(2) by auto
  then show ?thesis by (simp add: bmr_readUInt64_def le_word_le_bytes)
qed

lemma bmr_readUInt32_ok:
  assumes "bmr_invar r" "bmr_rest r = le_bytes 4 v @ bs"
  shows "\<exists>r'. bmr_readUInt32 r = Inr (v, r') \<and> bmr_invar r' \<and> bmr_rest r' = bs"
proof -
  obtain r' where "bmr_read 4 r = Inr (le_bytes 4 v, r')" "bmr_invar r'" "bmr_rest r' = bs"
    using bmr_read_ok [OF assms(1), of 4] assms(2) by auto
  then show ?thesis by (simp add: bmr_readUInt32_def le_word_le_bytes)
qed

text \<open>Nothing the reader does leaves the message as long as no length wraps around.\<close>

lemma bmr_seekTo_ok: "bmr_invar r \<Longrightarrow> bmr_seekTo pos r = Inr r' \<Longrightarrow> bmr_invar r'"
  by (auto simp: bmr_seekTo_def bmr_invar_def split: if_splits)

section \<open>Composing writes and reads\<close>

text \<open>
  \<open>writes f bs\<close>: \<open>f\<close> appends \<open>bs\<close> to any writer. \<open>reads f v bs\<close>: \<open>f\<close> returns \<open>v\<close> from any reader that
  stands before \<open>bs\<close>, and leaves it after them. An encoder and a decoder that are built from the same
  sequence of these have matching formats.
\<close>

definition writes :: "(bmw \<Rightarrow> bmw comp) \<Rightarrow> byte list \<Rightarrow> bool" where
  "writes f bs \<longleftrightarrow> (\<forall>w. bmw_invar w \<longrightarrow>
     (\<exists>w'. f w = ret w' \<and> bmw_invar w' \<and> bmw_data w' = bmw_data w @ bs))"

definition reads :: "(bmr \<Rightarrow> ('a \<times> bmr) result) \<Rightarrow> 'a \<Rightarrow> byte list \<Rightarrow> bool" where
  "reads f v bs \<longleftrightarrow> (\<forall>r rest. bmr_invar r \<longrightarrow> bmr_rest r = bs @ rest \<longrightarrow>
     (\<exists>r'. f r = Inr (v, r') \<and> bmr_invar r' \<and> bmr_rest r' = rest))"

named_theorems format_rules \<open>formats of the primitive writes and reads\<close>

lemma writes_ret [format_rules]: "writes ret []"
  by (simp add: writes_def)

lemma writes_bind:
  assumes "writes f a" "writes g b"
  shows "writes (\<lambda>w. bindC (f w) g) (a @ b)"
  unfolding writes_def
proof (intro allI impI)
  fix w
  assume "bmw_invar w"
  then obtain w1 where w1: "f w = ret w1" "bmw_invar w1" "bmw_data w1 = bmw_data w @ a"
    using assms(1) unfolding writes_def by blast
  then obtain w2 where "g w1 = ret w2" "bmw_invar w2" "bmw_data w2 = bmw_data w1 @ b"
    using assms(2) unfolding writes_def by blast
  with w1 show "\<exists>w'. bindC (f w) g = ret w' \<and> bmw_invar w' \<and> bmw_data w' = bmw_data w @ a @ b" by simp
qed

lemma reads_bind:
  assumes "reads f v a" "reads (g v) u b"
  shows "reads (\<lambda>r. bindE (f r) (\<lambda>(x, r). g x r)) u (a @ b)"
  unfolding reads_def
proof (intro allI impI)
  fix r rest
  assume r: "bmr_invar r" "bmr_rest r = (a @ b) @ rest"
  then obtain r1 where r1: "f r = Inr (v, r1)" "bmr_invar r1" "bmr_rest r1 = b @ rest"
    using assms(1) unfolding reads_def by force
  then obtain r2 where "g v r1 = Inr (u, r2)" "bmr_invar r2" "bmr_rest r2 = rest"
    using assms(2) unfolding reads_def by blast
  with r1 show "\<exists>r'. bindE (f r) (\<lambda>(x, r). g x r) = Inr (u, r') \<and> bmr_invar r' \<and> bmr_rest r' = rest"
    by simp
qed

lemma reads_return [format_rules]: "reads (\<lambda>r. Inr (v, r)) v []"
  by (simp add: reads_def)

lemma reads_map:
  assumes "reads f v a"
  shows "reads (\<lambda>r. bindE (f r) (\<lambda>(x, r). Inr (h x, r))) (h v) a"
  using reads_bind [OF assms, of "\<lambda>x r. Inr (h x, r)" "h v" "[]"] reads_return by fastforce

lemma writes_append [format_rules]: "writes (bmw_append bs) bs"
  unfolding writes_def using bmw_append_ok by blast

lemma writes_UInt8 [format_rules]: "writes (bmw_appendUInt8 v) [v]"
  using writes_append [of "[v]"] by (simp add: writes_def bmw_appendUInt8_def)

lemma writes_VarUInt [format_rules]: "writes (bmw_appendVarUInt v) (varuint_bytes v)"
  using writes_append by (simp add: writes_def bmw_appendVarUInt_def)

lemma writes_UInt64 [format_rules]: "writes (bmw_appendUInt64 v) (le_bytes 8 v)"
  using writes_append by (simp add: writes_def bmw_appendUInt64_def)

lemma writes_LenencString [format_rules]:
  "writes (bmw_appendLenencString str) (varuint_bytes (word_of_nat (length str)) @ bytes_of str)"
  unfolding bmw_appendLenencString_def by (rule writes_bind [OF writes_VarUInt writes_append])

lemma reads_read: "unat n = length bs \<Longrightarrow> reads (bmr_read n) bs bs"
  unfolding reads_def
proof (intro allI impI)
  fix r rest
  assume n: "unat n = length bs" and r: "bmr_invar r" "bmr_rest r = bs @ rest"
  then show "\<exists>r'. bmr_read n r = Inr (bs, r') \<and> bmr_invar r' \<and> bmr_rest r' = rest"
    using bmr_read_ok [OF r(1), of n] by auto
qed

lemma reads_UInt8 [format_rules]: "reads bmr_readUInt8 v [v]"
  using reads_map [OF reads_read [of 1 "[v]"], of "le_word :: byte list \<Rightarrow> byte"] by (simp add: bmr_readUInt8_def [abs_def])

lemma reads_VarUInt [format_rules]: "reads bmr_readVarUInt v (varuint_bytes v)"
  unfolding reads_def using bmr_readVarUInt_ok by blast

lemma reads_UInt64 [format_rules]: "reads bmr_readUInt64 v (le_bytes 8 v)"
  unfolding reads_def using bmr_readUInt64_ok by blast

lemma reads_LenencString [format_rules]:
  "length str < 2 ^ 64 \<Longrightarrow>
   reads bmr_readLenencString str (varuint_bytes (word_of_nat (length str)) @ bytes_of str)"
  unfolding reads_def using bmr_readLenencString_ok by force

lemma bmr_new_ok:
  "length bs + 1 < 2 ^ 64 \<Longrightarrow> bmr_invar (bmr_new bs (word_of_nat (length bs))) \<and>
     bmr_rest (bmr_new bs (word_of_nat (length bs))) = bs"
  by (simp add: bmr_new_def bmr_invar_def bmr_rest_def unat_of_nat)

section \<open>Properties\<close>

text \<open>A length-prefixed string appended by \<open>BinaryMessageWriter\<close> is read back by
  \<open>BinaryMessageReader\<close> on the writer's data, by the plain and by the \<open>maybe\<close> method, and the
  reader stands behind it.\<close>

theorem message_string_roundtrip:
  assumes "bmw_invar w" "bmw_data w = []" "length str + 11 < 2 ^ 64"
  shows "\<exists>w' r'. bmw_appendLenencString str w = ret w' \<and> bmw_invar w' \<and>
    (let r = bmr_new (bmw_data w') (word_of_nat (length (bmw_data w')))
     in bmr_readLenencString r = Inr (str, r') \<and> bmr_maybeReadLenencString r = Inr (Some str, r') \<and>
        bmr_rest r' = [])"
proof -
  let ?bs = "varuint_bytes (word_of_nat (length str)) @ bytes_of str"
  obtain w' where w': "bmw_appendLenencString str w = ret w'" "bmw_invar w'" "bmw_data w' = ?bs"
    using writes_LenencString [of str] assms(1,2) unfolding writes_def by fastforce
  have "length ?bs + 1 < 2 ^ 64"
    using length_varuint_bytes [of "word_of_nat (length str)"] assms(3) by simp
  then have r: "bmr_invar (bmr_new ?bs (word_of_nat (length ?bs)))"
    "bmr_rest (bmr_new ?bs (word_of_nat (length ?bs))) = ?bs"
    using bmr_new_ok by blast+
  then show ?thesis
    using bmr_readLenencString_ok [OF r(1), of str "[]"] assms(3) w' by (auto simp: Let_def)
qed

theorem message_string_roundtrip_witness:
  "\<exists>w' r'. bmw_appendLenencString ''stx'' (bmw_new 1) = ret w' \<and>
     bmr_readLenencString (bmr_new (bmw_data w') (word_of_nat (length (bmw_data w')))) = Inr (''stx'', r')"
  using message_string_roundtrip [of "bmw_new 1" "''stx''"] by (auto simp: Let_def)

text \<open>C20. As long as the position plus the requested size does not exceed 64 bits, a read of
  \<open>BinaryMessageReader\<close> returns the next bytes and advances past them, or raises the buffer
  overflow error: it never touches memory outside of the message.\<close>

theorem reader_bounds_checked:
  assumes "bmr_invar r" "unat (bmr_pos r) + unat n < 2 ^ 64"
  shows "if unat n \<le> length (bmr_rest r)
    then \<exists>r'. bmr_read n r = Inr (take (unat n) (bmr_rest r), r') \<and> bmr_invar r' \<and>
           bmr_rest r' = drop (unat n) (bmr_rest r)
    else bmr_read n r = Inl kBufferOverflowError"
  using bmr_read_ok [OF assms(1), of n] bmr_read_overflow [OF assms(1) _ assms(2)]
  by (auto simp: not_le)

theorem reader_bounds_checked_witness:
  "bmr_read 3 (bmr_new [1, 2] 2) = Inl kBufferOverflowError \<and>
   (\<exists>r'. bmr_read 2 (bmr_new [1, 2] 2) = Inr ([1, 2], r'))"
proof -
  have r: "bmr_invar (bmr_new [1, 2] 2)" "unat (bmr_pos (bmr_new [1, 2] 2)) = 0"
    "bmr_rest (bmr_new [1, 2] 2) = [1, 2]"
    by (simp_all add: bmr_invar_def bmr_new_def bmr_rest_def)
  from reader_bounds_checked [OF r(1), of 3] reader_bounds_checked [OF r(1), of 2] r(2,3)
  show ?thesis by simp blast
qed

text \<open>C21. The bounds check of \<open>BinaryMessageReader\<close> adds the size to the position in 64 bits, so a
  size taken from the message can wrap it around: at every position but the first there is a size
  that passes the check and makes the caller read past the end of the memory.\<close>

theorem reader_bounds_wrap:
  assumes "bmr_invar r" "0 < bmr_pos r" "length (bmr_ptr r) < 2 ^ 64"
  shows "bmr_advance (- bmr_pos r) r = Inr (r\<lparr>bmr_pos := 0\<rparr>) \<and>
    bmr_read (- bmr_pos r) r = Inl UndefinedBehaviour"
proof -
  have "unat (bmr_pos r) + unat (- bmr_pos r) = 2 ^ 64"
    using unat_add_uminus [OF assms(2)] by simp
  then show ?thesis using assms(3) by (simp add: bmr_advance_def bmr_read_def)
qed

theorem reader_bounds_wrap_witness:
  "bmr_read (- 1) \<lparr>bmr_ptr = [1, 2], bmr_size = 2, bmr_pos = 1\<rparr> = Inl UndefinedBehaviour"
  using reader_bounds_wrap [of "\<lparr>bmr_ptr = [1, 2], bmr_size = 2, bmr_pos = 1\<rparr>"]
  by (simp add: bmr_invar_def)

text \<open>\<open>BinaryMessageWriter::update\<close> overwrites bytes that were written before, in place, and
  changes no other byte and not the length.\<close>

theorem writer_update_in_place:
  assumes "bmw_invar w" "offset + length bs \<le> bmw_size w" "offset + length bs \<le> bmw_used w"
  shows "\<exists>w'. bmw_update offset bs w = Inr w' \<and> bmw_invar w' \<and>
    bmw_data w' = take offset (bmw_data w) @ bs @ drop (offset + length bs) (bmw_data w)"
proof -
  let ?m = "take offset (bmw_ptr w) @ map Some bs @ drop (offset + length bs) (bmw_ptr w)"
  have "bmw_update offset bs w = Inr (w\<lparr>bmw_ptr := ?m\<rparr>)"
    using assms by (simp add: bmw_update_def memcpy_def bmw_invar_def)
  moreover have "bmw_invar (w\<lparr>bmw_ptr := ?m\<rparr>)"
    using assms by (auto simp: bmw_invar_def nth_append)
  moreover have "bmw_data (w\<lparr>bmw_ptr := ?m\<rparr>) =
      take offset (bmw_data w) @ bs @ drop (offset + length bs) (bmw_data w)"
    using assms by (auto simp: bmw_data_def bmw_invar_def take_map drop_map drop_take comp_def)
  ultimately show ?thesis by blast
qed

theorem writer_update_in_place_witness:
  "\<exists>w'. bmw_update 1 [9] \<lparr>bmw_ptr = [Some 1, Some 2, Some 3], bmw_size = 3, bmw_used = 3, bmw_owned = True\<rparr>
      = Inr w' \<and> bmw_data w' = [1, 9, 3]"
  using writer_update_in_place [of "\<lparr>bmw_ptr = [Some 1, Some 2, Some 3], bmw_size = 3, bmw_used = 3,
      bmw_owned = True\<rparr>" 1 "[9]"]
  by (auto simp: bmw_invar_def bmw_data_def less_Suc_eq numeral_3_eq_3)

end
