(* ===== verification/Stx_StringUtil.thy ===== *)
theory Stx_StringUtil
  imports Stx_Buffer
begin

text \<open>
  \<open>StringUtil\<close> (\<open>stringutil.cc\<close>): searching, replacing, splitting, joining, comparing and
  classifying strings. \<open>str_find\<close> is \<open>std::string::find\<close> (\<open>None\<close> for \<open>npos\<close>). The loops of
  \<open>replaceAll\<close> and \<open>split\<close> do not end on an empty pattern; they are partial functions, shown to
  return for every other pattern. Strings are shorter than \<open>2 ^ 31\<close>, so that the \<open>int\<close> positions
  of the code do not overflow. The formatting of \<open>double\<close> values is not modelled.
\<close>

section \<open>Searching\<close>

fun find_sub :: "string \<Rightarrow> string \<Rightarrow> nat option" where
  "find_sub pat [] = (if pat = [] then Some 0 else None)"
| "find_sub pat (c # cs) =
     (if prefix pat (c # cs) then Some 0 else map_option Suc (find_sub pat cs))"

definition str_find :: "string \<Rightarrow> string \<Rightarrow> nat \<Rightarrow> nat option" where
  "str_find str pat pos =
     (if pos > length str then None else map_option ((+) pos) (find_sub pat (drop pos str)))"

definition str_includes :: "string \<Rightarrow> string \<Rightarrow> bool" where
  "str_includes str subject \<longleftrightarrow> str_find str subject 0 \<noteq> None"

fun find_chr_from :: "nat \<Rightarrow> string \<Rightarrow> char \<Rightarrow> nat option" where
  "find_chr_from i [] chr = None"
| "find_chr_from i (c # cs) chr = (if c = chr then Some i else find_chr_from (Suc i) cs chr)"

definition str_find_chr :: "string \<Rightarrow> char \<Rightarrow> nat option" where
  "str_find_chr str chr = find_chr_from 0 str chr"

fun find_last_below :: "nat \<Rightarrow> string \<Rightarrow> char \<Rightarrow> nat option" where
  "find_last_below 0 str chr = None"
| "find_last_below (Suc i) str chr = (if str ! i = chr then Some i else find_last_below i str chr)"

definition findLast :: "string \<Rightarrow> char \<Rightarrow> nat option" where
  "findLast str chr = find_last_below (length str) str chr"

definition beginsWith :: "string \<Rightarrow> string \<Rightarrow> bool" where
  "beginsWith str pre \<longleftrightarrow> \<not> length str < length pre \<and> take (length pre) str = pre"

definition endsWith :: "string \<Rightarrow> string \<Rightarrow> bool" where
  "endsWith str suf \<longleftrightarrow>
     \<not> length str < length suf \<and> drop (length str - length suf) str = suf"

fun compare_bytes :: "string \<Rightarrow> string \<Rightarrow> int" where
  "compare_bytes (a # as) (b # bs) =
     (if a \<noteq> b then (if code a < code b then -1 else 1) else compare_bytes as bs)"
| "compare_bytes (a # as) [] = 1"
| "compare_bytes [] (b # bs) = -1"
| "compare_bytes [] [] = 0"

section \<open>Classification and case\<close>

definition is_hex_char :: "char \<Rightarrow> bool" where
  "is_hex_char c \<longleftrightarrow>
     (48 \<le> code c \<and> code c \<le> 57) \<or> (97 \<le> code c \<and> code c \<le> 102) \<or> (65 \<le> code c \<and> code c \<le> 70)"

definition isHexString :: "string \<Rightarrow> bool" where
  "isHexString str \<longleftrightarrow> list_all is_hex_char str"

definition isAlphanumeric_chr :: "char \<Rightarrow> bool" where
  "isAlphanumeric_chr c \<longleftrightarrow>
     (48 \<le> code c \<and> code c \<le> 57) \<or> (97 \<le> code c \<and> code c \<le> 122) \<or> (65 \<le> code c \<and> code c \<le> 90)"

definition isAlphanumeric :: "string \<Rightarrow> bool" where
  "isAlphanumeric str \<longleftrightarrow> list_all isAlphanumeric_chr str"

definition isShellSafe_chr :: "char \<Rightarrow> bool" where
  "isShellSafe_chr c \<longleftrightarrow> isAlphanumeric_chr c \<or> c = CHR ''_'' \<or> c = CHR ''-'' \<or> c = CHR ''.''"

definition isShellSafe :: "string \<Rightarrow> bool" where
  "isShellSafe str \<longleftrightarrow> list_all isShellSafe_chr str"

definition isDigitString :: "string \<Rightarrow> bool" where
  "isDigitString str \<longleftrightarrow> list_all isdigit str"

text \<open>
  The first loop of \<open>isNumber\<close> returns at the first character that is not a digit, so the code
  after it only runs at the end of the string.
\<close>

definition isNumber :: "string \<Rightarrow> bool" where
  "isNumber str =
     (let cur = (case str of c # cs \<Rightarrow> if c = CHR ''-'' then cs else str | [] \<Rightarrow> [])
      in list_all isdigit cur)"

definition toLower :: "string \<Rightarrow> string" where
  "toLower str = map tolower str"

definition toUpper :: "string \<Rightarrow> string" where
  "toUpper str = map toupper str"

definition includesi :: "string \<Rightarrow> string \<Rightarrow> bool" where
  "includesi str subject \<longleftrightarrow> str_includes (toLower str) (toLower subject)"

definition stripShell :: "string \<Rightarrow> string" where
  "stripShell str =
     filter (\<lambda>c. isAlphanumeric_chr c \<or> c = CHR ''_'' \<or> c = CHR ''-'' \<or> c = CHR ''.'') str"

text \<open>\<open>back()\<close> of an empty string is undefined.\<close>

function stripTrailingSlashes :: "string \<Rightarrow> string result" where
  "stripTrailingSlashes str =
     (if str = [] then Inl UndefinedBehaviour
      else if last str = CHR ''/'' then stripTrailingSlashes (butlast str)
      else Inr str)"
  by pat_completeness auto
termination
  by (relation "measure length") auto

declare stripTrailingSlashes.simps [simp del]

section \<open>Replacing, splitting and joining\<close>

partial_function (option) replaceAll_loop :: "string \<Rightarrow> string \<Rightarrow> nat \<Rightarrow> string \<Rightarrow> string option" where
  "replaceAll_loop pat repl cur str =
     (case str_find str pat cur of
        None \<Rightarrow> Some str
      | Some i \<Rightarrow> replaceAll_loop pat repl (i + length repl)
                    (take i str @ repl @ drop (i + length pat) str))"

declare replaceAll_loop.simps [code]

definition replaceAll :: "string \<Rightarrow> string \<Rightarrow> string \<Rightarrow> string option" where
  "replaceAll str pat repl = (if length str = 0 then Some str else replaceAll_loop pat repl 0 str)"

partial_function (option) split_loop ::
  "string \<Rightarrow> string \<Rightarrow> nat \<Rightarrow> string list \<Rightarrow> string list option" where
  "split_loop str pat begin parts =
     (case str_find str pat begin of
        None \<Rightarrow> Some (parts @ [drop begin str])
      | Some e \<Rightarrow>
          split_loop str pat (e + length pat) (parts @ [take (e - begin) (drop begin str)]))"

declare split_loop.simps [code]

definition str_split :: "string \<Rightarrow> string \<Rightarrow> string list option" where
  "str_split str pat = split_loop str pat 0 []"

fun str_join :: "string list \<Rightarrow> string \<Rightarrow> string" where
  "str_join [] j = []"
| "str_join [x] j = x"
| "str_join (x # y # xs) j = x @ j @ str_join (y # xs) j"

text \<open>\<open>format\<close> and \<open>formatv\<close>: the arguments, already converted to strings, replace \<open>$0\<close>, \<open>$1\<close>,
  ... one after the other, each in the result of the previous replacement.\<close>

fun formatv_loop :: "nat \<Rightarrow> string list \<Rightarrow> string \<Rightarrow> string option" where
  "formatv_loop i [] str = Some str"
| "formatv_loop i (v # vs) str =
     Option.bind (replaceAll str (CHR ''$'' # to_string i) v) (formatv_loop (Suc i) vs)"

definition formatv :: "string \<Rightarrow> string list \<Rightarrow> string option" where
  "formatv fmt values = formatv_loop 0 values fmt"

section \<open>Lemmas\<close>

lemma find_sub_None_iff: "find_sub pat s = None \<longleftrightarrow> \<not> sublist pat s"
  by (induction s) (auto simp: sublist_Cons_right)

lemma find_sub_SomeD:
  "find_sub pat s = Some i \<Longrightarrow> i + length pat \<le> length s \<and> s = take i s @ pat @ drop (i + length pat) s"
proof (induction s arbitrary: i)
  case Nil
  then show ?case by (auto split: if_splits)
next
  case (Cons c cs)
  show ?case
  proof (cases "prefix pat (c # cs)")
    case True
    then show ?thesis using Cons.prems by (auto simp: prefix_def) (metis length_append length_Cons le_add1)
  next
    case False
    then obtain j where "i = Suc j" "find_sub pat cs = Some j"
      using Cons.prems by auto
    with Cons.IH [of j] show ?thesis by simp
  qed
qed

lemma find_sub_first:
  "find_sub pat s = Some i \<Longrightarrow> j < i \<Longrightarrow> \<not> prefix pat (drop j s)"
proof (induction s arbitrary: i j)
  case Nil
  then show ?case by (auto split: if_splits)
next
  case (Cons c cs)
  then show ?case by (cases j) (auto split: if_splits)
qed

text \<open>\<open>std::string::find\<close> returns the least position at or after \<open>pos\<close> where the pattern occurs.\<close>

lemma str_find_Some:
  assumes "str_find str pat pos = Some i"
  shows "pos \<le> i" "prefix pat (drop i str)" "i + length pat \<le> length str"
    "\<And>j. pos \<le> j \<Longrightarrow> j < i \<Longrightarrow> \<not> prefix pat (drop j str)"
proof -
  obtain k where k: "pos \<le> length str" "find_sub pat (drop pos str) = Some k" "i = pos + k"
    using assms by (auto simp: str_find_def split: if_splits)
  note d = find_sub_SomeD [OF k(2)]
  show "pos \<le> i" using k by simp
  show "i + length pat \<le> length str" using k d by (auto simp del: drop_drop)
  have "drop i str = drop k (drop pos str)" using k(3) by (simp add: add.commute)
  also have "\<dots> = pat @ drop (k + length pat) (drop pos str)"
    using d by (metis add_diff_cancel_left' append_eq_conv_conj append_take_drop_id drop_drop
        length_take min.absorb2 add_leD1)
  finally show "prefix pat (drop i str)" by simp
  show "\<not> prefix pat (drop j str)" if "pos \<le> j" "j < i" for j
    using find_sub_first [OF k(2), of "j - pos"] that k(3) by simp
qed

lemma str_find_None:
  "str_find str pat pos = None \<longleftrightarrow> pos > length str \<or> \<not> sublist pat (drop pos str)"
  by (simp add: str_find_def find_sub_None_iff)

lemma str_includes_iff: "str_includes str subject \<longleftrightarrow> sublist subject str"
  by (simp add: str_includes_def str_find_None)

lemma beginsWith_iff: "beginsWith str pre \<longleftrightarrow> prefix pre str"
  by (auto simp: beginsWith_def prefix_def) (metis append_take_drop_id)

lemma endsWith_iff: "endsWith str suf \<longleftrightarrow> suffix suf str"
  by (auto simp: endsWith_def suffix_def) (metis append_take_drop_id)

lemma compare_bytes_eq_0: "compare_bytes a b = 0 \<longleftrightarrow> a = b"
  by (induction a b rule: compare_bytes.induct) auto

lemma compare_bytes_lex:
  "compare_bytes a b = -1 \<longleftrightarrow> (map (code :: char \<Rightarrow> nat) a, map code b) \<in> lexord {(x, y). x < y}"
  by (induction a b rule: compare_bytes.induct) auto

lemma find_last_below_Some:
  "find_last_below n str chr = Some i \<longleftrightarrow>
     i < n \<and> str ! i = chr \<and> (\<forall>j. i < j \<and> j < n \<longrightarrow> str ! j \<noteq> chr)"
  by (induction n) (auto simp: less_Suc_eq)

lemma stripTrailingSlashes_eq:
  "stripTrailingSlashes str =
     (if \<forall>c \<in> set str. c = CHR ''/'' then Inl UndefinedBehaviour
      else Inr (rev (dropWhile (\<lambda>c. c = CHR ''/'') (rev str))))"
proof (induction str rule: rev_induct)
  case Nil
  then show ?case by (simp add: stripTrailingSlashes.simps)
next
  case (snoc c cs)
  then show ?case by (simp add: stripTrailingSlashes.simps [of "cs @ [c]"])
qed

subsection \<open>Splitting is the inverse of joining\<close>

lemma str_find_drop:
  "pos \<le> length str \<Longrightarrow> str_find str pat pos = map_option ((+) pos) (find_sub pat (drop pos str))"
  by (simp add: str_find_def)

lemma str_join_Cons: "xs \<noteq> [] \<Longrightarrow> str_join (x # xs) j = x @ j @ str_join xs j"
  by (cases xs) auto

text \<open>The loop on the rest of the string, with the number of pattern occurrences bounded by it.\<close>

lemma split_loop_ok:
  assumes "pat \<noteq> []"
  shows "bg \<le> length str \<Longrightarrow>
    \<exists>ps. split_loop str pat bg parts = Some (parts @ ps) \<and> ps \<noteq> [] \<and>
      str_join ps pat = drop bg str \<and> (\<forall>p \<in> set ps. \<not> sublist pat p)"
proof (induction "length str - bg" arbitrary: bg parts rule: less_induct)
  case less
  show ?case
  proof (cases "str_find str pat bg")
    case None
    then have "\<not> sublist pat (drop bg str)"
      using less.prems by (simp add: str_find_None)
    with None show ?thesis by (subst split_loop.simps) simp
  next
    case (Some e)
    note f = str_find_Some [OF Some]
    have "length str - (e + length pat) < length str - bg"
      using f(1,3) assms less.prems by (cases pat) auto
    from less.hyps [OF this f(3)] obtain ps where ps:
      "split_loop str pat (e + length pat) (parts @ [take (e - bg) (drop bg str)]) =
         Some ((parts @ [take (e - bg) (drop bg str)]) @ ps)"
      "ps \<noteq> []" "str_join ps pat = drop (e + length pat) str" "\<forall>p \<in> set ps. \<not> sublist pat p"
      by blast
    let ?x = "take (e - bg) (drop bg str)"
    have "drop bg str = ?x @ drop e str"
      using f(1) by (metis append_take_drop_id drop_drop le_add_diff_inverse2)
    also have "drop e str = pat @ drop (e + length pat) str"
      using f(2) by (auto simp: prefix_def) (metis append_eq_conv_conj add.commute drop_drop)
    finally have "str_join (?x # ps) pat = drop bg str"
      using ps(2,3) by (simp add: str_join_Cons)
    moreover have "\<not> sublist pat ?x"
    proof
      assume "sublist pat ?x"
      then obtain a b where ab: "?x = a @ pat @ b" by (auto simp: sublist_def)
      then have "drop (bg + length a) str = pat @ b @ drop e str"
        using \<open>drop bg str = ?x @ drop e str\<close>
        by (metis add.commute append.assoc append_eq_conv_conj drop_drop)
      moreover have "length ?x \<le> e - bg" by simp
      then have "bg + length a < e"
        using ab assms by (cases pat) auto
      ultimately show False using f(4) [of "bg + length a"] by simp
    qed
    ultimately show ?thesis
      using ps Some by (subst split_loop.simps) auto
  qed
qed

lemma str_split_ok:
  assumes "pat \<noteq> []"
  obtains ps where "str_split str pat = Some ps" "ps \<noteq> []" "str_join ps pat = str"
    "\<forall>p \<in> set ps. \<not> sublist pat p"
  using split_loop_ok [OF assms, of 0 str "[]"] that by (auto simp: str_split_def)

text \<open>With a one-character separator the parts are determined.\<close>

lemma join_chr_inject:
  "xs \<noteq> [] \<Longrightarrow> ys \<noteq> [] \<Longrightarrow> \<forall>x \<in> set xs. c \<notin> set x \<Longrightarrow> \<forall>y \<in> set ys. c \<notin> set y \<Longrightarrow>
   str_join xs [c] = str_join ys [c] \<Longrightarrow> xs = ys"
proof (induction xs "[c]" arbitrary: ys rule: str_join.induct)
  case 1
  then show ?case by simp
next
  case (2 x)
  then show ?case
    by (cases "(ys, [c])" rule: str_join.cases) auto
next
  case (3 x y xs)
  then obtain z zs where ys: "ys = z # zs" by (cases ys) auto
  show ?case
  proof (cases "zs = []")
    case True
    then show ?thesis using 3 ys by auto
  next
    case False
    then have eq: "x @ c # str_join (y # xs) [c] = z @ c # str_join zs [c]"
      using "3.prems"(5) ys by (simp add: str_join_Cons)
    have "takeWhile (\<lambda>d. d \<noteq> c) (x @ c # str_join (y # xs) [c]) = x"
      "takeWhile (\<lambda>d. d \<noteq> c) (z @ c # str_join zs [c]) = z"
      using "3.prems"(3,4) ys by (auto intro!: takeWhile_append_stop)
    with eq have "x = z" by simp
    with eq have "str_join (y # xs) [c] = str_join zs [c]" by simp
    then have "y # xs = zs"
      using "3.prems" False ys by (intro "3.hyps") auto
    with \<open>x = z\<close> ys show ?thesis by simp
  qed
qed

lemma sublist_singleton [simp]: "sublist [c] s \<longleftrightarrow> c \<in> set s"
  by (auto simp: sublist_def in_set_conv_decomp)

lemma split_join_chr:
  assumes "xs \<noteq> []" "\<forall>x \<in> set xs. c \<notin> set x"
  shows "str_split (str_join xs [c]) [c] = Some xs"
proof -
  obtain ps where ps: "str_split (str_join xs [c]) [c] = Some ps" "ps \<noteq> []"
    "str_join ps [c] = str_join xs [c]" "\<forall>p \<in> set ps. \<not> sublist [c] p"
    by (rule str_split_ok [of "[c]" "str_join xs [c]"]) auto
  then have "ps = xs" using assms by (intro join_chr_inject) auto
  with ps show ?thesis by simp
qed

subsection \<open>Replacing\<close>

text \<open>The specification: every occurrence, from left to right, not looking into replacements.\<close>

function replace_spec :: "string \<Rightarrow> string \<Rightarrow> string \<Rightarrow> string" where
  "replace_spec pat repl str =
     (case find_sub pat str of
        None \<Rightarrow> str
      | Some i \<Rightarrow>
          (if pat = [] then str
           else take i str @ repl @ replace_spec pat repl (drop (i + length pat) str)))"
  by pat_completeness auto
termination
proof (relation "measure (\<lambda>(pat, repl, str). length str)")
  fix pat repl str :: string and i
  assume "find_sub pat str = Some i" "pat \<noteq> []"
  then show "((pat, repl, drop (i + length pat) str), (pat, repl, str)) \<in>
      measure (\<lambda>(pat, repl, str). length str)"
    using find_sub_SomeD [of pat str i] by (cases pat) auto
qed simp

declare replace_spec.simps [simp del]

lemma replaceAll_loop_eq:
  assumes "pat \<noteq> []"
  shows "replaceAll_loop pat repl (length done) (done @ str) = Some (done @ replace_spec pat repl str)"
proof (induction "length str" arbitrary: "done" str rule: less_induct)
  case less
  show ?case
  proof (cases "find_sub pat str")
    case None
    then show ?thesis
      by (subst replaceAll_loop.simps) (simp add: str_find_def replace_spec.simps [of _ _ str])
  next
    case (Some i)
    note d = find_sub_SomeD [OF Some]
    let ?done = "done @ take i str @ repl" and ?str = "drop (i + length pat) str"
    have "length ?str < length str" using d assms by (cases pat) auto
    then have "replaceAll_loop pat repl (length ?done) (?done @ ?str) =
        Some (?done @ replace_spec pat repl ?str)" by (rule less.hyps)
    moreover have "length ?done = length done + i + length repl" using d by simp
    ultimately show ?thesis
      using Some assms
      by (subst replaceAll_loop.simps)
         (simp add: str_find_def replace_spec.simps [of _ _ str] add.assoc)
  qed
qed

lemma replaceAll_eq: "pat \<noteq> [] \<Longrightarrow> replaceAll str pat repl = Some (replace_spec pat repl str)"
  using replaceAll_loop_eq [of pat repl "[]" str]
  by (auto simp: replaceAll_def replace_spec.simps [of _ _ "[]"])

lemma formatv_total: "\<exists>s. formatv_loop i vs str = Some s"
  by (induction vs arbitrary: i str) (auto simp: replaceAll_eq)

lemma replace_spec_None: "\<not> sublist pat s \<Longrightarrow> replace_spec pat repl s = s"
  by (simp add: replace_spec.simps [of _ _ s] find_sub_None_iff [THEN iffD2])

lemma to_string_small: "n < 10 \<Longrightarrow> to_string n = [digit_char n]"
  by (simp add: to_string.simps)

text \<open>A format string that is one placeholder, a separator and a second one, with an argument
  that does not itself contain a dollar sign.\<close>

lemma find_sub_dollar: "CHR ''$'' \<notin> set s \<Longrightarrow> find_sub (CHR ''$'' # p) (s @ CHR ''$'' # p @ t) = Some (length s)"
  by (induction s) auto

lemma not_sublist_dollar: "CHR ''$'' \<notin> set s \<Longrightarrow> \<not> sublist (CHR ''$'' # p) s"
  by (auto simp: sublist_def)

lemma find_sub_skip:
  "CHR ''$'' \<notin> set s \<Longrightarrow>
   find_sub (CHR ''$'' # p) (s @ t) = map_option ((+) (length s)) (find_sub (CHR ''$'' # p) t)"
  by (induction s; cases "find_sub (CHR ''$'' # p) t") auto

lemma replace_spec_skip:
  assumes "CHR ''$'' \<notin> set s"
  shows "replace_spec (CHR ''$'' # p) v (s @ t) = s @ replace_spec (CHR ''$'' # p) v t"
proof (cases "find_sub (CHR ''$'' # p) t")
  case None
  then show ?thesis
    using assms by (simp add: replace_spec.simps [of _ _ "s @ t"] replace_spec.simps [of _ _ t] find_sub_skip)
next
  case (Some i)
  then have "replace_spec (CHR ''$'' # p) v (s @ t) =
      take (length s + i) (s @ t) @ v @
        replace_spec (CHR ''$'' # p) v (drop (length s + i + length (CHR ''$'' # p)) (s @ t))"
    using assms by (subst replace_spec.simps) (simp add: find_sub_skip)
  moreover have "replace_spec (CHR ''$'' # p) v t =
      take i t @ v @ replace_spec (CHR ''$'' # p) v (drop (i + length (CHR ''$'' # p)) t)"
    using Some by (subst replace_spec.simps) simp
  ultimately show ?thesis by simp
qed

lemma replace_spec_here: "replace_spec (c # p) v (c # p @ t) = v @ replace_spec (c # p) v t"
  by (subst replace_spec.simps) simp

lemma format_pair:
  assumes "CHR ''$'' \<notin> set a" "CHR ''$'' \<notin> set b" "CHR ''$'' \<notin> set sep"
    "sep = [] \<or> \<not> isdigit (hd sep)"
  shows "formatv (''$0'' @ sep @ ''$1'') [a, b] = Some (a @ sep @ b)"
proof -
  have n: "to_string 0 = ''0''" "to_string (Suc 0) = ''1''"
    by (simp_all add: to_string_small digit_char_def flip: code_inject)
  have "\<not> sublist ''$0'' (sep @ ''$1'')"
    using assms(3) by (auto simp: sublist_def append_eq_append_conv2 append_eq_Cons_conv Cons_eq_append_conv)
  then have "replace_spec ''$0'' a (''$0'' @ sep @ ''$1'') = a @ sep @ ''$1''"
    by (simp add: replace_spec.simps [of _ _ "CHR ''$'' # _"] replace_spec_None)
  moreover have "replace_spec ''$1'' b (a @ sep @ ''$1'') = a @ sep @ b"
    using assms find_sub_dollar [of "a @ sep" "''1''" "[]"]
    by (simp add: replace_spec.simps [of _ _ "a @ _"] replace_spec.simps [of _ _ "[]"])
  ultimately show ?thesis
    by (simp add: formatv_def n replaceAll_eq)
qed

section \<open>Properties\<close>

text \<open>\<open>StringUtil::split\<close> with a non-empty pattern terminates; its parts joined with the pattern
  give the string back, and no part contains the pattern.\<close>

theorem split_then_join:
  assumes "pat \<noteq> []"
  shows "\<exists>ps. str_split str pat = Some ps \<and> ps \<noteq> [] \<and> str_join ps pat = str \<and>
    (\<forall>p \<in> set ps. \<not> sublist pat p)"
  using str_split_ok [OF assms, of str] by blast

theorem split_then_join_witness:
  "\<exists>ps. str_split ''a, b,, c'' '', '' = Some ps \<and> str_join ps '', '' = ''a, b,, c''"
  using split_then_join [of "'', ''" "''a, b,, c''"] by blast

text \<open>Conversely, splitting at a character what \<open>StringUtil::join\<close> joined with that character
  gives the list back, unless the list is empty or a part contains the character.\<close>

theorem join_then_split:
  assumes "xs \<noteq> []" "\<forall>x \<in> set xs. c \<notin> set x"
  shows "str_split (str_join xs [c]) [c] = Some xs"
proof -
  obtain ps where ps: "str_split (str_join xs [c]) [c] = Some ps" "ps \<noteq> []"
    "str_join ps [c] = str_join xs [c]" "\<forall>p \<in> set ps. \<not> sublist [c] p"
    by (rule str_split_ok [of "[c]" "str_join xs [c]"]) auto
  then have "ps = xs" using assms by (intro join_chr_inject) auto
  with ps show ?thesis by simp
qed

subsection \<open>Replacing\<close>

theorem join_then_split_witness:
  "str_split (str_join [''usr'', '''', ''lib''] ''/'') ''/'' = Some [''usr'', '''', ''lib'']"
  using join_then_split [of "[''usr'', '''', ''lib'']" "CHR ''/''"] by simp

text \<open>\<open>StringUtil::replaceAll\<close> with a non-empty pattern terminates and replaces the occurrences of
  the pattern from left to right, never inside a replacement it has just made.\<close>

theorem replaceAll_correct:
  assumes "pat \<noteq> []"
  shows "replaceAll str pat repl = Some (replace_spec pat repl str)"
  by (rule replaceAll_eq [OF assms])

theorem replaceAll_correct_witness:
  "replaceAll ''aXbX'' ''X'' ''XX'' = Some ''aXXbXX''"
  using replaceAll_correct [of "''X''" "''aXbX''" "''XX''"] by (simp add: replace_spec.simps)

text \<open>\<open>StringUtil::compare\<close> decides the lexicographic order of the bytes: it is -1 exactly when
  the first string is smaller and 0 exactly when they are equal.\<close>

theorem compare_lexicographic:
  "(compare_bytes a b = -1 \<longleftrightarrow> (map (code :: char \<Rightarrow> nat) a, map code b) \<in> lexord {(x, y). x < y}) \<and>
   (compare_bytes a b = 0 \<longleftrightarrow> a = b)"
  using compare_bytes_eq_0 [of a b] compare_bytes_lex [of a b] by simp

text \<open>\<open>StringUtil::stripTrailingSlashes\<close> removes all trailing slashes; on a string of slashes only,
  and on the empty string, it takes the last character of an empty string.\<close>

theorem stripTrailingSlashes_correct:
  "stripTrailingSlashes str =
     (if list_all (\<lambda>c. c = CHR ''/'') str then Inl UndefinedBehaviour
      else Inr (rev (dropWhile (\<lambda>c. c = CHR ''/'') (rev str))))"
proof (induction str rule: rev_induct)
  case Nil
  then show ?case by (simp add: stripTrailingSlashes.simps)
next
  case (snoc c cs)
  then show ?case by (simp add: stripTrailingSlashes.simps [of "cs @ [c]"])
qed

end
