(* ===== verification/Stx_UTF8.thy ===== *)
theory Stx_UTF8
  imports Stx_Prelude
begin

text \<open>
  \<open>UTF8\<close> (\<open>UTF8.cc\<close>) and the conversions of \<open>StringUtil\<close> built on it. The pointer
  \<open>*cur\<close> with the end pointer is the list of the remaining bytes; a code point is a 32-bit word.
\<close>

definition cont :: "byte \<Rightarrow> u32" where
  "cont b = ucast b AND 0x3f"

definition nextCodepoint :: "byte list \<Rightarrow> (u32 \<times> byte list) result" where
  "nextCodepoint bs =
     (case bs of
        [] \<Rightarrow> Inr (0, bs)
      | b # r \<Rightarrow>
          (if b < 0x80 then Inr (ucast b, r)
           else if b AND 0xe0 = 0xc0 then
             (case r of c1 # r' \<Rightarrow> Inr (push_bit 6 (ucast b AND 0x1f) OR cont c1, r')
              | _ \<Rightarrow> Inl kEncodingError)
           else if b AND 0xf0 = 0xe0 then
             (case r of c1 # c2 # r' \<Rightarrow>
                Inr (push_bit 12 (ucast b AND 0x0f) OR push_bit 6 (cont c1) OR cont c2, r')
              | _ \<Rightarrow> Inl kEncodingError)
           else if b AND 0xf8 = 0xf0 then
             (case r of c1 # c2 # c3 # r' \<Rightarrow>
                Inr (push_bit 18 (ucast b AND 0x07) OR push_bit 12 (cont c1) OR
                     push_bit 6 (cont c2) OR cont c3, r')
              | _ \<Rightarrow> Inl kEncodingError)
           else if b AND 0xfc = 0xf8 then
             (case r of c1 # c2 # c3 # c4 # r' \<Rightarrow>
                Inr (push_bit 14 (ucast b AND 0x03) OR push_bit 18 (cont c1) OR
                     push_bit 12 (cont c2) OR push_bit 6 (cont c3) OR cont c4, r')
              | _ \<Rightarrow> Inl kEncodingError)
           else if b AND 0xfe = 0xfc then
             (case r of c1 # c2 # c3 # c4 # c5 # r' \<Rightarrow>
                Inr (push_bit 30 (ucast b AND 0x01) OR push_bit 24 (cont c1) OR
                     push_bit 18 (cont c2) OR push_bit 12 (cont c3) OR push_bit 6 (cont c4) OR
                     cont c5, r')
              | _ \<Rightarrow> Inl kEncodingError)
           else Inl kEncodingError))"

text \<open>
  \<open>isValidUTF8\<close> returns at the first ASCII byte, and does not advance at a byte that starts no
  sequence.
\<close>

partial_function (option) isValidUTF8 :: "byte list \<Rightarrow> bool option" where
  "isValidUTF8 bs =
     (case bs of
        [] \<Rightarrow> Some True
      | b # r \<Rightarrow>
          (if b < 0x80 then Some True
           else if b AND 0xe0 = 0xc0 then
             (if length r < 1 then Some False else isValidUTF8 (drop 1 r))
           else if b AND 0xf0 = 0xe0 then
             (if length r < 2 then Some False else isValidUTF8 (drop 2 r))
           else if b AND 0xf8 = 0xf0 then
             (if length r < 3 then Some False else isValidUTF8 (drop 3 r))
           else if b AND 0xfc = 0xf8 then
             (if length r < 4 then Some False else isValidUTF8 (drop 4 r))
           else if b AND 0xfe = 0xfc then
             (if length r < 5 then Some False else isValidUTF8 (drop 5 r))
           else isValidUTF8 bs))"

declare isValidUTF8.simps [code]

definition tail_byte :: "nat \<Rightarrow> u32 \<Rightarrow> byte" where
  "tail_byte k cp = ucast (0x80 OR (drop_bit k cp AND 0x3f))"

definition encodeCodepoint :: "u32 \<Rightarrow> byte list" where
  "encodeCodepoint cp =
     (if cp < 0x80 then [ucast cp]
      else if cp < 0x800 then
        [ucast (0xc0 OR (drop_bit 6 cp AND 0x1f)), tail_byte 0 cp]
      else if cp < 0x10000 then
        [ucast (0xe0 OR (drop_bit 12 cp AND 0x0f)), tail_byte 6 cp, tail_byte 0 cp]
      else if cp < 0x200000 then
        [ucast (0xf0 OR (drop_bit 18 cp AND 0x07)), tail_byte 12 cp, tail_byte 6 cp, tail_byte 0 cp]
      else if cp < 0x4000000 then
        [ucast (0xf8 OR (drop_bit 24 cp AND 0x03)), tail_byte 18 cp, tail_byte 12 cp,
         tail_byte 6 cp, tail_byte 0 cp]
      else
        [ucast (0xfc OR (drop_bit 30 cp AND 0x01)), tail_byte 24 cp, tail_byte 18 cp,
         tail_byte 11 cp, tail_byte 6 cp, tail_byte 0 cp])"

lemma nextCodepoint_shrinks:
  "nextCodepoint bs = Inr (c, r) \<Longrightarrow> c \<noteq> 0 \<Longrightarrow> length r < length bs"
  by (auto simp: nextCodepoint_def split: list.splits if_splits)

function convertUTF8To32 :: "byte list \<Rightarrow> u32 list result" where
  "convertUTF8To32 bs =
     (case nextCodepoint bs of
        Inl e \<Rightarrow> Inl e
      | Inr (chr, r) \<Rightarrow>
          (if chr > 0 then bindE (convertUTF8To32 r) (\<lambda>cs. Inr (chr # cs)) else Inr []))"
  by pat_completeness auto
termination
  by (relation "measure length") (auto intro: nextCodepoint_shrinks simp: word_greater_zero_iff)

declare convertUTF8To32.simps [simp del]

definition convertUTF32To8 :: "u32 list \<Rightarrow> byte list" where
  "convertUTF32To8 cs = concat (map encodeCodepoint cs)"

section \<open>Decoding what was encoded\<close>

lemma byte_less_0x80_iff: "(b :: byte) < 0x80 \<longleftrightarrow> \<not> bit b 7"
proof -
  have "unat b < 256" using unsigned_less [of b, where ?'a = nat] by simp
  then have "unat b div 128 = (if unat b < 128 then 0 else 1)" by auto
  moreover have "bit (unat b) 7 = bit b 7" by (simp add: bit_unsigned_iff)
  then have "bit b 7 \<longleftrightarrow> odd (unat b div 128)" by (simp add: bit_iff_odd [of "unat b"])
  ultimately show ?thesis by (auto simp: word_less_nat_alt)
qed

lemma byte_eqI:
  fixes a b :: byte
  assumes "bit a 0 = bit b 0" "bit a 1 = bit b 1" "bit a 2 = bit b 2" "bit a 3 = bit b 3"
    "bit a 4 = bit b 4" "bit a 5 = bit b 5" "bit a 6 = bit b 6" "bit a 7 = bit b 7"
  shows "a = b"
proof (rule bit_word_eqI)
  fix n assume "n < LENGTH(8)"
  then have "n \<in> {0, 1, 2, 3, 4, 5, 6, 7}" by auto
  with assms show "bit a n = bit b n" by auto
qed

lemma masks_u32: "(0x01 :: u32) = mask 1" "(0x03 :: u32) = mask 2" "(0x07 :: u32) = mask 3"
  "(0x0f :: u32) = mask 4" "(0x1f :: u32) = mask 5" "(0x3f :: u32) = mask 6"
  by (simp_all add: mask_eq_exp_minus_1)

text \<open>The lead byte of each length is recognised as such and by no earlier test.\<close>

lemma lead2:
  fixes x :: u32
  shows "\<not> (ucast (0xc0 OR (x AND 0x1f)) :: byte) < 0x80"
    "(ucast (0xc0 OR (x AND 0x1f)) :: byte) AND 0xe0 = 0xc0"
  by (simp add: byte_less_0x80_iff bit_simps) (rule byte_eqI; simp add: bit_simps)

lemma lead3:
  fixes x :: u32
  shows "\<not> (ucast (0xe0 OR (x AND 0x0f)) :: byte) < 0x80"
    "(ucast (0xe0 OR (x AND 0x0f)) :: byte) AND 0xe0 = 0xe0"
    "(ucast (0xe0 OR (x AND 0x0f)) :: byte) AND 0xf0 = 0xe0"
  by (simp add: byte_less_0x80_iff bit_simps) (rule byte_eqI; simp add: bit_simps)+

lemma lead4:
  fixes x :: u32
  shows "\<not> (ucast (0xf0 OR (x AND 0x07)) :: byte) < 0x80"
    "(ucast (0xf0 OR (x AND 0x07)) :: byte) AND 0xe0 = 0xe0"
    "(ucast (0xf0 OR (x AND 0x07)) :: byte) AND 0xf0 = 0xf0"
    "(ucast (0xf0 OR (x AND 0x07)) :: byte) AND 0xf8 = 0xf0"
  by (simp add: byte_less_0x80_iff bit_simps) (rule byte_eqI; simp add: bit_simps)+

text \<open>The payload bits of a lead byte and of a continuation byte.\<close>

lemma payload:
  fixes x :: u32
  shows "ucast (ucast (0xc0 OR (x AND 0x1f)) :: byte) AND 0x1f = x AND 0x1f"
    "ucast (ucast (0xe0 OR (x AND 0x0f)) :: byte) AND 0x0f = x AND 0x0f"
    "ucast (ucast (0xf0 OR (x AND 0x07)) :: byte) AND 0x07 = x AND 0x07"
    "ucast (ucast (0x80 OR (x AND 0x3f)) :: byte) AND 0x3f = x AND 0x3f"
  by (rule bit_word_eqI; auto simp: bit_simps numeral_eq_Suc less_Suc_eq)+

lemma cont_tail_byte: "cont (tail_byte k cp) = drop_bit k cp AND 0x3f"
  by (simp only: cont_def tail_byte_def payload)

lemma bit_less_exp:
  fixes x :: u32
  assumes "unat x < 2 ^ k" "bit x n"
  shows "n < k"
proof (rule ccontr)
  assume "\<not> n < k"
  then have "unat x < 2 ^ n"
    using assms(1) by (meson less_le_trans not_less one_le_numeral power_increasing)
  then have "\<not> bit (unat x) n" by (simp add: bit_iff_odd)
  with assms(2) show False by (simp add: bit_unsigned_iff)
qed

lemma bit_field:
  "bit (push_bit k (drop_bit k (cp :: u32) AND mask m)) n \<longleftrightarrow> bit cp n \<and> k \<le> n \<and> n < k + m"
proof (cases "k \<le> n")
  case True
  then have "k + (n - k) = n" "n - k < m \<longleftrightarrow> n < k + m" by auto
  with True show ?thesis by (auto simp: bit_simps dest: bit_imp_le_length)
qed (simp add: bit_simps)

lemma reassemble:
  fixes cp :: u32
  shows "unat cp < 2 ^ 11 \<Longrightarrow>
      push_bit 6 (drop_bit 6 cp AND 0x1f) OR (drop_bit 0 cp AND 0x3f) = cp"
    and "unat cp < 2 ^ 16 \<Longrightarrow> push_bit 12 (drop_bit 12 cp AND 0x0f) OR
      push_bit 6 (drop_bit 6 cp AND 0x3f) OR (drop_bit 0 cp AND 0x3f) = cp"
    and "unat cp < 2 ^ 21 \<Longrightarrow> push_bit 18 (drop_bit 18 cp AND 0x07) OR
      push_bit 12 (drop_bit 12 cp AND 0x3f) OR push_bit 6 (drop_bit 6 cp AND 0x3f) OR
      (drop_bit 0 cp AND 0x3f) = cp"
proof -
  have low: "bit (drop_bit 0 cp AND mask 6) n \<longleftrightarrow> bit cp n \<and> n < 6" for n
    by (auto simp: bit_simps)
  show "unat cp < 2 ^ 11 \<Longrightarrow>
      push_bit 6 (drop_bit 6 cp AND 0x1f) OR (drop_bit 0 cp AND 0x3f) = cp"
    unfolding masks_u32
    by (rule bit_word_eqI) (auto simp only: bit_or_iff bit_field low dest!: bit_less_exp)
  show "unat cp < 2 ^ 16 \<Longrightarrow> push_bit 12 (drop_bit 12 cp AND 0x0f) OR
      push_bit 6 (drop_bit 6 cp AND 0x3f) OR (drop_bit 0 cp AND 0x3f) = cp"
    unfolding masks_u32
    by (rule bit_word_eqI) (auto simp only: bit_or_iff bit_field low dest!: bit_less_exp)
  show "unat cp < 2 ^ 21 \<Longrightarrow> push_bit 18 (drop_bit 18 cp AND 0x07) OR
      push_bit 12 (drop_bit 12 cp AND 0x3f) OR push_bit 6 (drop_bit 6 cp AND 0x3f) OR
      (drop_bit 0 cp AND 0x3f) = cp"
    unfolding masks_u32
    by (rule bit_word_eqI) (auto simp only: bit_or_iff bit_field low dest!: bit_less_exp)
qed

lemma nextCodepoint_encode:
  assumes "cp < 0x200000"
  shows "nextCodepoint (encodeCodepoint cp @ bs) = Inr (cp, bs)"
proof -
  consider "cp < 0x80" | "\<not> cp < 0x80" "unat cp < 2 ^ 11" | "\<not> cp < 0x80" "\<not> cp < 0x800" "unat cp < 2 ^ 16"
    | "\<not> cp < 0x80" "\<not> cp < 0x800" "\<not> cp < 0x10000" "unat cp < 2 ^ 21"
    using assms by (auto simp: word_less_nat_alt)
  then show ?thesis
  proof cases
    case 1
    then have lt: "unat cp < 128" by (simp add: word_less_nat_alt)
    note b = bit_less_exp [of cp 7, simplified, OF lt]
    have "ucast (ucast cp :: byte) = cp"
      by (rule bit_word_eqI) (use b in \<open>fastforce simp: bit_unsigned_iff\<close>)
    moreover have "(ucast cp :: byte) < 0x80"
      using b [of 7] by (auto simp: byte_less_0x80_iff bit_unsigned_iff)
    ultimately show ?thesis using 1 by (simp add: encodeCodepoint_def nextCodepoint_def)
  next
    case 2
    then have "cp < 0x800" by (simp add: word_less_nat_alt)
    with 2 show ?thesis
      using reassemble(1) [of cp]
      by (simp add: encodeCodepoint_def nextCodepoint_def lead2 payload cont_tail_byte)
  next
    case 3
    then have "cp < 0x10000" by (simp add: word_less_nat_alt)
    with 3 show ?thesis
      using reassemble(2) [of cp]
      by (simp add: encodeCodepoint_def nextCodepoint_def lead3 payload cont_tail_byte)
  next
    case 4
    with assms show ?thesis
      using reassemble(3) [of cp] 4
      by (simp add: encodeCodepoint_def nextCodepoint_def lead4 payload cont_tail_byte)
  qed
qed

section \<open>Properties\<close>

text \<open>\<open>convertUTF8To32\<close> decodes exactly what \<open>convertUTF32To8\<close> encoded, for every sequence of
  non-zero code points that UTF-8 encodes in at most four bytes.\<close>

theorem utf8_roundtrip:
  assumes "\<forall>cp \<in> set cps. 0 < cp \<and> cp < 0x200000"
  shows "convertUTF8To32 (convertUTF32To8 cps) = Inr cps"
  using assms
proof (induction cps)
  case Nil
  then show ?case
    by (simp add: convertUTF32To8_def convertUTF8To32.simps [of "[]"] nextCodepoint_def)
next
  case (Cons cp cps)
  then have "nextCodepoint (encodeCodepoint cp @ convertUTF32To8 cps) =
      Inr (cp, convertUTF32To8 cps)" by (simp add: nextCodepoint_encode)
  with Cons show ?case
    by (simp add: convertUTF32To8_def convertUTF8To32.simps [of "encodeCodepoint cp @ _"])
qed

theorem utf8_roundtrip_witness:
  "convertUTF8To32 (convertUTF32To8 [0x41, 0xE9, 0x20AC, 0x1F600]) = Inr [0x41, 0xE9, 0x20AC, 0x1F600]"
  by (rule utf8_roundtrip) simp

text \<open>On a string that starts with a stray continuation byte, \<open>UTF8::isValidUTF8\<close> does not
  return: its loop has no branch that moves past a byte that starts no sequence.\<close>

theorem isValidUTF8_stuck: "isValidUTF8 (0x80 # r) = None"
proof (rule ccontr)
  assume "isValidUTF8 (0x80 # r) \<noteq> None"
  then obtain y where "isValidUTF8 (0x80 # r) = Some y" by blast
  then have "hd (0x80 # r :: byte list) \<noteq> 0x80 \<or> 0x80 # r = []"
  proof (rule isValidUTF8.raw_induct [rotated])
    fix f :: "byte list \<Rightarrow> bool option" and bs y
    assume IH: "\<And>bs y. f bs = Some y \<Longrightarrow> hd bs \<noteq> 0x80 \<or> bs = []"
      and "(case bs of [] \<Rightarrow> Some True
        | b # r \<Rightarrow>
          (if b < 0x80 then Some True
           else if b AND 0xe0 = 0xc0 then (if length r < 1 then Some False else f (drop 1 r))
           else if b AND 0xf0 = 0xe0 then (if length r < 2 then Some False else f (drop 2 r))
           else if b AND 0xf8 = 0xf0 then (if length r < 3 then Some False else f (drop 3 r))
           else if b AND 0xfc = 0xf8 then (if length r < 4 then Some False else f (drop 4 r))
           else if b AND 0xfe = 0xfc then (if length r < 5 then Some False else f (drop 5 r))
           else f bs)) = Some y"
    then show "hd bs \<noteq> 0x80 \<or> bs = []" by (cases bs) (auto split: if_splits dest!: IH)
  qed
  then show False by simp
qed

end
