(* ===== verification/Stx_URI.thy ===== *)
theory Stx_URI
  imports Stx_StringUtil
begin

text \<open>
  \<open>URI\<close> (\<open>uri.cc\<close>) and \<open>http::Cookies\<close> (\<open>http/cookies.cc\<close>). A pair of pointers
  \<open>begin\<close>/\<open>end\<close> is the list of characters between them; a loop that advances \<open>cur\<close> to the first
  character of some set is \<open>takeWhile\<close>/\<open>dropWhile\<close>. \<open>parseURI\<close> writes only the parts the text
  has, so it maps a URI object to a URI object. The port is a natural number (\<open>std::stoi\<close> bounds
  it below \<open>2 ^ 31\<close>).
\<close>

section \<open>Percent encoding\<close>

definition unreserved :: "char \<Rightarrow> bool" where
  "unreserved c \<longleftrightarrow> isAlphanumeric_chr c \<or>
     c = CHR ''-'' \<or> c = CHR ''_'' \<or> c = CHR ''.'' \<or> c = CHR ''~''"

definition hextbl :: string where
  "hextbl = ''0123456789ABCDEF''"

definition encode_char :: "char \<Rightarrow> string" where
  "encode_char c =
     (if unreserved c then [c]
      else [CHR ''%'', hextbl ! (code c div 16 mod 16), hextbl ! (code c mod 16)])"

definition urlEncode :: "string \<Rightarrow> string" where
  "urlEncode str = concat (map encode_char str)"

definition hex_digit_value :: "char \<Rightarrow> nat" where
  "hex_digit_value c =
     (if code c \<le> 57 then code c - 48 else if code c \<le> 70 then code c - 55 else code c - 87)"

fun urlDecode :: "string \<Rightarrow> string result" where
  "urlDecode [] = Inr []"
| "urlDecode (c # cs) =
     (if c = CHR ''%'' then
        (case cs of
           h # l # r \<Rightarrow>
             (if isHexString [h, l]
              then bindE (urlDecode r)
                     (\<lambda>d. Inr (char_of (hex_digit_value h * 16 + hex_digit_value l) # d))
              else bindE (urlDecode cs) (\<lambda>d. Inr (CHR ''%'' # d)))
         | _ \<Rightarrow> Inl kIllegalArgumentError)
      else if c = CHR ''+'' then bindE (urlDecode cs) (\<lambda>d. Inr (CHR '' '' # d))
      else bindE (urlDecode cs) (\<lambda>d. Inr (c # d)))"

lemma hextbl_nth: "n < 16 \<Longrightarrow> is_hex_char (hextbl ! n) \<and> hex_digit_value (hextbl ! n) = n \<and> unreserved (hextbl ! n)"
proof -
  assume "n < 16"
  then have "n \<in> {0, 1, 2, 3, 4, 5, 6, 7, 8, 9, 10, 11, 12, 13, 14, 15}"
    by (simp only: insert_iff empty_iff) presburger
  then show ?thesis
    by (auto simp: hextbl_def is_hex_char_def hex_digit_value_def unreserved_def isAlphanumeric_chr_def)
qed

lemma unreserved_not: "unreserved c \<Longrightarrow> c \<noteq> CHR ''%'' \<and> c \<noteq> CHR ''+'' \<and> c \<noteq> CHR ''$'' \<and>
    c \<noteq> CHR ''='' \<and> c \<noteq> CHR ''&'' \<and> c \<noteq> CHR '';'' \<and> c \<noteq> CHR '' ''"
  by (auto simp: unreserved_def isAlphanumeric_chr_def)

lemma urlDecode_encode_char:
  "urlDecode (encode_char c @ s) = bindE (urlDecode s) (\<lambda>d. Inr (c # d))"
proof (cases "unreserved c")
  case True
  then show ?thesis using unreserved_not [of c] by (simp add: encode_char_def)
next
  case False
  have "code c div 16 < 16" using code_less_256 [of c] by linarith
  then have "code c div 16 mod 16 = code c div 16" by simp
  moreover have "char_of (code c div 16 * 16 + code c mod 16) = c"
    by (simp add: div_mult_mod_eq)
  ultimately show ?thesis
    using False hextbl_nth [of "code c div 16"] hextbl_nth [of "code c mod 16"]
      \<open>code c div 16 < 16\<close>
    by (simp add: encode_char_def isHexString_def)
qed

lemma urlDecode_urlEncode [simp]: "urlDecode (urlEncode s) = Inr s"
  by (induction s) (simp_all add: urlEncode_def urlDecode_encode_char)

text \<open>Nothing that separates the parts of a query string or a cookie occurs in encoded text.\<close>

definition encoded_chr :: "char \<Rightarrow> bool" where
  "encoded_chr c \<longleftrightarrow> unreserved c \<or> c = CHR ''%''"

lemma urlEncode_chars: "c \<in> set (urlEncode s) \<Longrightarrow> encoded_chr c"
proof (induction s)
  case (Cons d s)
  have "code d mod 16 < 16" "code d div 16 mod 16 < 16" by simp_all
  then have "\<forall>c \<in> set (encode_char d). encoded_chr c"
    using hextbl_nth by (auto simp: encode_char_def encoded_chr_def)
  with Cons show ?case by (auto simp: urlEncode_def)
qed (simp add: urlEncode_def)

lemma encoded_chr_not: "encoded_chr c \<Longrightarrow> c \<noteq> CHR ''$'' \<and> c \<noteq> CHR ''='' \<and> c \<noteq> CHR ''&'' \<and>
    c \<noteq> CHR '';'' \<and> c \<noteq> CHR '' '' \<and> c \<noteq> CHR ''+''"
  using unreserved_not by (auto simp: encoded_chr_def)

lemma urlEncode_sep: "c \<in> {CHR ''$'', CHR ''='', CHR ''&'', CHR '';'', CHR '' ''} \<Longrightarrow>
    c \<notin> set (urlEncode s)"
  using urlEncode_chars encoded_chr_not by blast

lemma urlEncode_eq_Nil [simp]: "urlEncode s = [] \<longleftrightarrow> s = []"
  by (cases s) (auto simp: urlEncode_def encode_char_def)

section \<open>URI objects\<close>

record uri =
  scheme :: string
  userinfo :: string
  host :: string
  port :: nat
  path :: string
  query :: string
  fragment :: string

definition uri_new :: uri where
  "uri_new = \<lparr>scheme = [], userinfo = [], host = [], port = 0, path = [], query = [], fragment = []\<rparr>"

definition parse_scheme :: "string \<Rightarrow> uri \<Rightarrow> string \<times> uri" where
  "parse_scheme s u =
     (let p = takeWhile (\<lambda>c. c \<noteq> CHR ''/'' \<and> c \<noteq> CHR '':'') s;
          r = dropWhile (\<lambda>c. c \<noteq> CHR ''/'' \<and> c \<noteq> CHR '':'') s
      in if r \<noteq> [] \<and> hd r = CHR '':'' then (tl r, u\<lparr>scheme := p\<rparr>) else (s, u))"

definition uri_delim :: "char \<Rightarrow> bool" where
  "uri_delim c \<longleftrightarrow> c = CHR ''/'' \<or> c = CHR ''?'' \<or> c = CHR ''#''"

definition parse_userinfo :: "string \<Rightarrow> uri \<Rightarrow> string \<times> uri" where
  "parse_userinfo a u =
     (let r = dropWhile (\<lambda>c. \<not> uri_delim c \<and> c \<noteq> CHR ''@'') a
      in if r \<noteq> [] \<and> hd r = CHR ''@''
         then (tl r, u\<lparr>userinfo := takeWhile (\<lambda>c. \<not> uri_delim c \<and> c \<noteq> CHR ''@'') a\<rparr>) else (a, u))"

definition parse_port :: "string \<Rightarrow> uri \<Rightarrow> uri result" where
  "parse_port r u =
     (if length r > 1 \<and> hd r = CHR '':''
      then
        (let ds = takeWhile isdigit (tl r)
         in if ds \<noteq> []
            then (case stoi ds of Inr p \<Rightarrow> Inr (u\<lparr>port := nat p\<rparr>) | Inl _ \<Rightarrow> Inl kRuntimeError)
            else Inr u)
      else Inr u)"

definition parse_host :: "string \<Rightarrow> uri \<Rightarrow> uri result" where
  "parse_host a u =
     parse_port (dropWhile (\<lambda>c. \<not> uri_delim c \<and> c \<noteq> CHR '':'') a)
       (u\<lparr>host := takeWhile (\<lambda>c. \<not> uri_delim c \<and> c \<noteq> CHR '':'') a\<rparr>)"

definition parse_authority :: "string \<Rightarrow> uri \<Rightarrow> (string \<times> uri) result" where
  "parse_authority s u =
     (if length s > 2 \<and> take 2 s = ''//''
      then
        (let s1 = drop 2 s;
             a = takeWhile (\<lambda>c. \<not> uri_delim c) s1;
             r = dropWhile (\<lambda>c. \<not> uri_delim c) s1
         in if a \<noteq> []
            then (let (a', u') = parse_userinfo a u in bindE (parse_host a' u') (\<lambda>u''. Inr (r, u'')))
            else Inr (r, u))
      else Inr (s, u))"

definition parse_path :: "string \<Rightarrow> uri \<Rightarrow> string \<times> uri" where
  "parse_path s u =
     (let p = takeWhile (\<lambda>c. c \<noteq> CHR ''?'' \<and> c \<noteq> CHR ''#'') s
      in (dropWhile (\<lambda>c. c \<noteq> CHR ''?'' \<and> c \<noteq> CHR ''#'') s, if p \<noteq> [] then u\<lparr>path := p\<rparr> else u))"

definition parse_query :: "string \<Rightarrow> uri \<Rightarrow> string \<times> uri" where
  "parse_query s u =
     (if s \<noteq> [] \<and> hd s = CHR ''?''
      then
        (let q = takeWhile (\<lambda>c. c \<noteq> CHR ''#'') (tl s)
         in (dropWhile (\<lambda>c. c \<noteq> CHR ''#'') (tl s), if q \<noteq> [] then u\<lparr>query := q\<rparr> else u))
      else (s, u))"

definition parse_fragment :: "string \<Rightarrow> uri \<Rightarrow> uri" where
  "parse_fragment s u = (if length s > 1 \<and> hd s = CHR ''#'' then u\<lparr>fragment := tl s\<rparr> else u)"

definition parseURI :: "string \<Rightarrow> uri \<Rightarrow> uri result" where
  "parseURI s u =
     (let (s1, u1) = parse_scheme s u
      in bindE (parse_authority s1 u1) (\<lambda>(s2, u2).
           let (s3, u3) = parse_path s2 u2; (s4, u4) = parse_query s3 u3
           in Inr (parse_fragment s4 u4)))"

definition uri_toString :: "uri \<Rightarrow> string" where
  "uri_toString u =
     scheme u @ '':'' @
     (if length (host u) > 0
      then ''//'' @ (if length (userinfo u) > 0 then userinfo u @ ''@'' else []) @ host u @
           (if port u > 0 then '':'' @ to_string (port u) else [])
      else []) @
     path u @
     (if length (query u) > 0 then ''?'' @ query u else []) @
     (if length (fragment u) > 0 then ''#'' @ fragment u else [])"

definition hostAndPort :: "uri \<Rightarrow> string option" where
  "hostAndPort u =
     (if port u > 0 then formatv ''$0:$1'' [host u, to_string (port u)] else Some (host u))"

definition pathAndQuery :: "uri \<Rightarrow> string option" where
  "pathAndQuery u =
     (if length (query u) > 0 then formatv ''$0?$1'' [path u, query u] else Some (path u))"

text \<open>A URI object that its own text describes completely.\<close>

definition uri_wf :: "uri \<Rightarrow> bool" where
  "uri_wf u \<longleftrightarrow>
     list_all (\<lambda>c. c \<noteq> CHR ''/'' \<and> c \<noteq> CHR '':'') (scheme u) \<and>
     list_all (\<lambda>c. \<not> uri_delim c \<and> c \<noteq> CHR ''@'') (userinfo u) \<and>
     list_all (\<lambda>c. \<not> uri_delim c \<and> c \<noteq> CHR ''@'' \<and> c \<noteq> CHR '':'') (host u) \<and>
     port u < 2 ^ 31 \<and>
     list_all (\<lambda>c. c \<noteq> CHR ''?'' \<and> c \<noteq> CHR ''#'') (path u) \<and>
     list_all (\<lambda>c. c \<noteq> CHR ''#'') (query u) \<and>
     (if host u = [] then userinfo u = [] \<and> port u = 0 \<and> take 2 (path u) \<noteq> ''//''
      else path u = [] \<or> hd (path u) = CHR ''/'')"

lemma parse_scheme_toString:
  "list_all (\<lambda>c. c \<noteq> CHR ''/'' \<and> c \<noteq> CHR '':'') p \<Longrightarrow>
   parse_scheme (p @ CHR '':'' # r) u = (r, u\<lparr>scheme := p\<rparr>)"
  by (simp add: parse_scheme_def list_all_iff)

lemma parse_userinfo_toString:
  "list_all (\<lambda>c. \<not> uri_delim c \<and> c \<noteq> CHR ''@'') i \<Longrightarrow>
   parse_userinfo (i @ CHR ''@'' # r) u = (r, u\<lparr>userinfo := i\<rparr>)"
  by (simp add: parse_userinfo_def list_all_iff)

lemma parse_userinfo_none:
  assumes "CHR ''@'' \<notin> set a"
  shows "parse_userinfo a u = (a, u)"
proof -
  let ?r = "dropWhile (\<lambda>c. \<not> uri_delim c \<and> c \<noteq> CHR ''@'') a"
  have "\<not> (?r \<noteq> [] \<and> hd ?r = CHR ''@'')"
    using assms hd_in_set [of ?r] set_dropWhileD by metis
  then show ?thesis unfolding parse_userinfo_def Let_def by (rule if_not_P)
qed

lemma parse_port_toString:
  "0 < p \<Longrightarrow> p < 2 ^ 31 \<Longrightarrow> parse_port (CHR '':'' # to_string p) u = Inr (u\<lparr>port := p\<rparr>)"
  using takeWhile_isdigit_to_string [of "[]" p]
  by (simp del: takeWhile_eq_all_conv add: parse_port_def Let_def)

lemma parse_host_toString:
  assumes "list_all (\<lambda>c. \<not> uri_delim c \<and> c \<noteq> CHR ''@'' \<and> c \<noteq> CHR '':'') h" "p < 2 ^ 31"
  shows "parse_host (h @ (if p > 0 then '':'' @ to_string p else [])) u =
    Inr (if p > 0 then u\<lparr>host := h, port := p\<rparr> else u\<lparr>host := h\<rparr>)"
proof -
  let ?P = "\<lambda>c. \<not> uri_delim c \<and> c \<noteq> CHR '':''"
  have h: "list_all ?P h" using assms(1) by (auto simp: list_all_iff)
  show ?thesis
  proof (cases "p > 0")
    case True
    then show ?thesis
      using span_append [OF h, of "CHR '':'' # to_string p"] parse_port_toString [OF _ assms(2)]
      by (simp add: parse_host_def)
  next
    case False
    then show ?thesis
      by (simp add: parse_host_def parse_port_def span_all [OF h] del: dropWhile_eq_Nil_conv takeWhile_eq_all_conv)
  qed
qed

lemma to_string_chars: "c \<in> set (to_string n) \<Longrightarrow> \<not> uri_delim c \<and> c \<noteq> CHR ''@'' \<and> c \<noteq> CHR ''$''"
  using to_string_digits [of c n] by (auto simp: uri_delim_def isdigit_def)

text \<open>The authority part, with nothing but a path, a query or a fragment after it.\<close>

lemma parse_authority_toString:
  assumes "list_all (\<lambda>c. \<not> uri_delim c \<and> c \<noteq> CHR ''@'') i" "p < 2 ^ 31" "h \<noteq> []"
    and h: "list_all (\<lambda>c. \<not> uri_delim c \<and> c \<noteq> CHR ''@'' \<and> c \<noteq> CHR '':'') h"
    and r: "r = [] \<or> uri_delim (hd r)"
    and u: "userinfo u = []" "port u = 0"
  shows "parse_authority (''//'' @ (if length i > 0 then i @ ''@'' else []) @ h @
      (if p > 0 then '':'' @ to_string p else []) @ r) u =
    Inr (r, u\<lparr>userinfo := i, host := h, port := p\<rparr>)"
proof -
  let ?h = "h @ (if p > 0 then '':'' @ to_string p else [])"
  let ?a = "(if length i > 0 then i @ ''@'' else []) @ ?h"
  have "\<not> uri_delim (CHR '':'')" "\<not> uri_delim (CHR ''@'')" by (simp_all add: uri_delim_def)
  then have a: "list_all (\<lambda>c. \<not> uri_delim c) ?a" "?a \<noteq> []"
    using assms(1,3,4) to_string_chars by (auto simp: list_all_iff)
  have "r = [] \<or> \<not> \<not> uri_delim (hd r)" using r by blast
  note tw = span_append [OF a(1) this]
  have "CHR ''@'' \<notin> set ?h" using h to_string_chars by (auto simp: list_all_iff)
  then have "parse_userinfo ?a u = (?h, u\<lparr>userinfo := i\<rparr>)"
    using parse_userinfo_toString [OF assms(1), of ?h u] parse_userinfo_none [of ?h u] u
    by (cases "i = []") auto
  moreover have "length (''//'' @ ?a @ r) > 2" using a(2) by (auto simp: length_greater_0_conv)
  ultimately have "parse_authority (''//'' @ ?a @ r) u =
      bindE (parse_host ?h (u\<lparr>userinfo := i\<rparr>)) (\<lambda>u''. Inr (r, u''))"
    using a(2) tw by (simp add: parse_authority_def Let_def)
  also have "\<dots> = Inr (r, u\<lparr>userinfo := i, host := h, port := p\<rparr>)"
    using parse_host_toString [OF h assms(2)] u by simp
  finally show ?thesis by simp
qed

lemma parse_authority_none:
  "take 2 s \<noteq> ''//'' \<Longrightarrow> parse_authority s u = Inr (s, u)"
  by (auto simp: parse_authority_def)

lemma parse_path_toString:
  assumes "list_all (\<lambda>c. c \<noteq> CHR ''?'' \<and> c \<noteq> CHR ''#'') p" "path u = []"
    and "r = [] \<or> hd r = CHR ''?'' \<or> hd r = CHR ''#''"
  shows "parse_path (p @ r) u = (r, u\<lparr>path := p\<rparr>)"
  using span_append [OF assms(1), of r] assms(2,3) by (auto simp: parse_path_def Let_def)

lemma parse_query_toString:
  assumes "list_all (\<lambda>c. c \<noteq> CHR ''#'') q" "query u = []" "r = [] \<or> hd r = CHR ''#''"
  shows "parse_query ((if length q > 0 then ''?'' @ q else []) @ r) u = (r, u\<lparr>query := q\<rparr>)"
  using span_append [OF assms(1), of r] assms(2,3) by (auto simp: parse_query_def Let_def)

lemma parse_fragment_toString:
  "fragment u = [] \<Longrightarrow>
   parse_fragment (if length f > 0 then ''#'' @ f else []) u = u\<lparr>fragment := f\<rparr>"
  by (auto simp: parse_fragment_def)

lemma parse_tail_toString:
  assumes "list_all (\<lambda>c. c \<noteq> CHR ''?'' \<and> c \<noteq> CHR ''#'') p" "list_all (\<lambda>c. c \<noteq> CHR ''#'') q"
    and "path u = []" "query u = []" "fragment u = []"
  shows "(let (s3, u3) = parse_path (p @ (if length q > 0 then ''?'' @ q else []) @
        (if length f > 0 then ''#'' @ f else [])) u; (s4, u4) = parse_query s3 u3
      in parse_fragment s4 u4) = u\<lparr>path := p, query := q, fragment := f\<rparr>"
proof -
  let ?f = "if length f > 0 then ''#'' @ f else []"
  let ?q = "(if length q > 0 then ''?'' @ q else []) @ ?f"
  have "parse_path (p @ ?q) u = (?q, u\<lparr>path := p\<rparr>)"
    by (rule parse_path_toString [OF assms(1,3)]) simp
  moreover have "parse_query ?q (u\<lparr>path := p\<rparr>) = (?f, u\<lparr>path := p, query := q\<rparr>)"
    using parse_query_toString [OF assms(2), of "u\<lparr>path := p\<rparr>" ?f] assms(4) by simp
  ultimately show ?thesis
    using parse_fragment_toString [of "u\<lparr>path := p, query := q\<rparr>" f] assms(5) by simp
qed

text \<open>Parsing the text of a well-formed URI object gives the object back.\<close>

section \<open>Query strings\<close>

type_synonym param_list = "(string \<times> string) list"

fun getParam :: "param_list \<Rightarrow> string \<Rightarrow> string option" where
  "getParam [] key = None"
| "getParam (p # ps) key = (if fst p = key then Some (snd p) else getParam ps key)"

definition query_chr :: "char \<Rightarrow> bool" where
  "query_chr c \<longleftrightarrow> c \<noteq> CHR ''='' \<and> c \<noteq> CHR ''&''"

function parseQueryString :: "string \<Rightarrow> param_list result" where
  "parseQueryString s =
     (if s = [] then Inr []
      else
        (let key_str = takeWhile query_chr s; r = dropWhile query_chr s
         in if key_str \<noteq> [] \<and> r \<noteq> [] \<and> hd r = CHR ''=''
            then
              (let val_str = takeWhile query_chr (tl r); r' = dropWhile query_chr (tl r)
               in bindE (urlDecode key_str) (\<lambda>k.
                  bindE (if val_str \<noteq> [] then urlDecode val_str else Inr []) (\<lambda>v.
                  bindE (parseQueryString (drop 1 r')) (\<lambda>ps. Inr ((k, v) # ps)))))
            else Inr []))"
  by pat_completeness auto
termination
proof (relation "measure length")
  fix s key_str r val_str r' k v
  assume "s \<noteq> []" "r = dropWhile query_chr s" "key_str \<noteq> [] \<and> r \<noteq> [] \<and> hd r = CHR ''=''"
    "r' = dropWhile query_chr (tl r)"
  then have "length r' \<le> length (tl r)" "length r \<le> length s" "r \<noteq> []"
    by (simp_all only: length_dropWhile_le) simp
  then show "(drop 1 r', s) \<in> measure length" by (cases r) auto
qed simp

declare parseQueryString.simps [simp del]

definition queryParams :: "uri \<Rightarrow> param_list result" where
  "queryParams u = (if length (query u) > 0 then parseQueryString (query u) else Inr [])"

fun buildQueryString_from :: "bool \<Rightarrow> param_list \<Rightarrow> string option" where
  "buildQueryString_from first [] = Some []"
| "buildQueryString_from first ((k, v) # ps) =
     Option.bind (formatv ''$0=$1'' [urlEncode k, urlEncode v]) (\<lambda>p.
       map_option (\<lambda>out. (if first then [] else ''&'') @ p @ out) (buildQueryString_from False ps))"

definition buildQueryString :: "param_list \<Rightarrow> string option" where
  "buildQueryString params = buildQueryString_from True params"

lemma getParam_map_of: "getParam ps key = map_of ps key"
  by (induction ps) auto

lemma format_key_value:
  "formatv ''$0=$1'' [urlEncode k, urlEncode v] = Some (urlEncode k @ ''='' @ urlEncode v)"
  using format_pair [of "urlEncode k" "urlEncode v" "''=''"]
  by (simp add: urlEncode_sep isdigit_def)

fun query_text :: "param_list \<Rightarrow> string" where
  "query_text [] = []"
| "query_text [(k, v)] = urlEncode k @ ''='' @ urlEncode v"
| "query_text ((k, v) # p # ps) = urlEncode k @ ''='' @ urlEncode v @ ''&'' @ query_text (p # ps)"

lemma buildQueryString_from_False:
  "buildQueryString_from False ps = Some (if ps = [] then [] else ''&'' @ query_text ps)"
proof (induction ps)
  case (Cons p ps)
  then show ?case by (cases p; cases ps) (auto simp: format_key_value)
qed simp

lemma buildQueryString_eq: "buildQueryString ps = Some (query_text ps)"
proof (cases ps)
  case (Cons p qs)
  then show ?thesis
    by (cases p; cases qs) (auto simp: buildQueryString_def format_key_value buildQueryString_from_False)
qed (simp add: buildQueryString_def)

lemma urlEncode_query_chr: "list_all query_chr (urlEncode s)"
  using urlEncode_sep by (auto simp: list_all_iff query_chr_def)

lemma parseQueryString_step:
  assumes "k \<noteq> []" "r = [] \<or> hd r = CHR ''&''"
  shows "parseQueryString (urlEncode k @ ''='' @ urlEncode v @ r) =
    bindE (parseQueryString (drop 1 r)) (\<lambda>ps. Inr ((k, v) # ps))"
proof -
  have eq: "\<not> query_chr (CHR ''='')" "\<not> query_chr (CHR ''&'')" by (simp_all add: query_chr_def)
  have "takeWhile query_chr (urlEncode k @ CHR ''='' # urlEncode v @ r) = urlEncode k"
    "dropWhile query_chr (urlEncode k @ CHR ''='' # urlEncode v @ r) = CHR ''='' # urlEncode v @ r"
    using span_append [OF urlEncode_query_chr [of k], of "CHR ''='' # urlEncode v @ r"] eq by auto
  moreover have "takeWhile query_chr (urlEncode v @ r) = urlEncode v"
    "dropWhile query_chr (urlEncode v @ r) = r"
    using span_append [OF urlEncode_query_chr [of v], of r] eq assms(2) by auto
  moreover have "(if urlEncode v \<noteq> [] then urlDecode (urlEncode v) else Inr []) = Inr v" by simp
  ultimately show ?thesis
    using assms(1) by (subst parseQueryString.simps) (simp add: Let_def)
qed

lemma parseQueryString_query_text:
  "\<forall>p \<in> set ps. fst p \<noteq> [] \<Longrightarrow> parseQueryString (query_text ps) = Inr ps"
proof (induction ps rule: query_text.induct)
  case 1
  then show ?case by (simp add: parseQueryString.simps)
next
  case (2 k v)
  then show ?case
    using parseQueryString_step [of k "[]" v] by (simp add: parseQueryString.simps [of "[]"])
next
  case (3 k v p ps)
  then show ?case
    using parseQueryString_step [of k "''&'' @ query_text (p # ps)" v] by simp
qed

section \<open>Cookies\<close>

definition getCookie :: "param_list \<Rightarrow> string \<Rightarrow> string option" where
  "getCookie cookies key = map_option snd (find (\<lambda>c. fst c = key) cookies)"

text \<open>
  Without an equals sign \<open>cur\<close> moves past the end and both \<open>split - 1\<close> and the end of the name
  are the end of the header; the value is empty.
\<close>

function parseCookieHeader :: "string \<Rightarrow> param_list result" where
  "parseCookieHeader s =
     (if s = [] then Inr []
      else
        (let b = dropWhile (\<lambda>c. c = CHR '' '') s;
             name = takeWhile (\<lambda>c. c \<noteq> CHR ''='') b;
             r = dropWhile (\<lambda>c. c \<noteq> CHR ''='') b;
             val = takeWhile (\<lambda>c. c \<noteq> CHR '';'') (drop 1 r);
             r' = dropWhile (\<lambda>c. c \<noteq> CHR '';'') (drop 1 r)
         in bindE (urlDecode name) (\<lambda>k.
            bindE (urlDecode val) (\<lambda>v.
            bindE (parseCookieHeader (drop 1 r')) (\<lambda>cs. Inr ((k, v) # cs))))))"
  by pat_completeness auto
termination
proof (relation "measure length")
  fix s b name r val r' k v
  assume "s \<noteq> []" "b = dropWhile (\<lambda>c. c = CHR '' '') s" "r = dropWhile (\<lambda>c. c \<noteq> CHR ''='') b"
    "r' = dropWhile (\<lambda>c. c \<noteq> CHR '';'') (drop 1 r)"
  then have "length r' \<le> length (drop 1 r)" "length r \<le> length b" "length b \<le> length s" "0 < length s"
    by (simp_all only: length_dropWhile_le) simp
  then show "(drop 1 r', s) \<in> measure length"
    unfolding in_measure length_drop by linarith
qed simp

declare parseCookieHeader.simps [simp del]

text \<open>
  \<open>mkCookie\<close>; the formatting of the expiry time (\<open>strftime\<close>) is the argument \<open>fmt_time\<close>.
\<close>

definition mkCookie ::
  "(u64 \<Rightarrow> string) \<Rightarrow> string \<Rightarrow> string \<Rightarrow> u64 \<Rightarrow> string \<Rightarrow> string \<Rightarrow> bool \<Rightarrow> bool \<Rightarrow> string option" where
  "mkCookie fmt_time key value expire cpath domain secure httponly =
     Option.bind (formatv ''$0=$1'' [urlEncode key, urlEncode value]) (\<lambda>c0.
     Option.bind (if length cpath > 0 then formatv ''; Path=$0'' [cpath] else Some []) (\<lambda>p.
     Option.bind (if length domain > 0 then formatv ''; Domain=$0'' [domain] else Some []) (\<lambda>d.
     Option.bind (if expire > 0 then formatv ''; Expires=$0'' [fmt_time expire] else Some []) (\<lambda>e.
     Some (c0 @ p @ d @ e @ (if httponly then ''; HttpOnly'' else []) @
       (if secure then ''; Secure'' else []))))))"

lemma getCookie_map_of: "getCookie cs key = map_of cs key"
  by (induction cs) (auto simp: getCookie_def)

lemma parseCookieHeader_step:
  assumes "k \<noteq> []" "r = [] \<or> hd r = CHR '';''" "list_all (\<lambda>c. c = CHR '' '') sp"
  shows "parseCookieHeader (sp @ urlEncode k @ ''='' @ urlEncode v @ r) =
    bindE (parseCookieHeader (drop 1 r)) (\<lambda>cs. Inr ((k, v) # cs))"
proof -
  have k: "list_all (\<lambda>c. c \<noteq> CHR ''='') (urlEncode k)" and v: "list_all (\<lambda>c. c \<noteq> CHR '';'') (urlEncode v)"
    using urlEncode_sep by (auto simp: list_all_iff)
  have "hd (urlEncode k) \<noteq> CHR '' ''" "urlEncode k \<noteq> []"
    using urlEncode_sep [of "CHR '' ''" k] assms(1) hd_in_set [of "urlEncode k"] by force+
  then have "urlEncode k @ ''='' @ urlEncode v @ r = [] \<or>
      hd (urlEncode k @ ''='' @ urlEncode v @ r) \<noteq> CHR '' ''" by simp
  note sp = span_append [OF assms(3) this]
  note key = span_append [OF k, of "CHR ''='' # urlEncode v @ r"]
  note val = span_append [OF v, of r]
  show ?thesis
    using key val assms sp by (subst parseCookieHeader.simps) (simp add: Let_def)
qed

lemma query_text_no_hash: "CHR ''#'' \<notin> set (query_text ps)"
proof -
  have "\<not> encoded_chr (CHR ''#'')" by (simp add: encoded_chr_def unreserved_def isAlphanumeric_chr_def)
  then have "CHR ''#'' \<notin> set (urlEncode s)" for s using urlEncode_chars by blast
  then show ?thesis by (induction ps rule: query_text.induct) auto
qed

lemma parseURI_toString:
  assumes "uri_wf u"
  shows "parseURI (uri_toString u) uri_new = Inr u"
proof -
  let ?t = "path u @ (if length (query u) > 0 then ''?'' @ query u else []) @
    (if length (fragment u) > 0 then ''#'' @ fragment u else [])"
  let ?u1 = "uri_new\<lparr>scheme := scheme u\<rparr>"
  let ?u2 = "?u1\<lparr>userinfo := userinfo u, host := host u, port := port u\<rparr>"
  note wf = assms [unfolded uri_wf_def]
  have auth: "parse_authority ((if length (host u) > 0
      then ''//'' @ (if length (userinfo u) > 0 then userinfo u @ ''@'' else []) @ host u @
           (if port u > 0 then '':'' @ to_string (port u) else []) else []) @ ?t) ?u1 = Inr (?t, ?u2)"
  proof (cases "host u = []")
    case True
    then have "take 2 ?t \<noteq> ''//''" using wf
      by (cases "path u"; cases "tl (path u)") (auto simp: numeral_2_eq_2)
    with True wf show ?thesis by (simp add: parse_authority_none uri_new_def)
  next
    case False
    then have "?t = [] \<or> uri_delim (hd ?t)" using wf by (cases "path u") (auto simp: uri_delim_def)
    with False wf show ?thesis
      using parse_authority_toString [of "userinfo u" "port u" "host u" ?t ?u1]
      by (simp add: uri_new_def)
  qed
  have "parseURI (uri_toString u) uri_new = bindE (Inr (?t, ?u2)) (\<lambda>(s2, u2).
      let (s3, u3) = parse_path s2 u2; (s4, u4) = parse_query s3 u3 in Inr (parse_fragment s4 u4))"
    unfolding auth [symmetric] using wf
    by (simp add: parseURI_def uri_toString_def parse_scheme_toString)
  also have "\<dots> = Inr (?u2\<lparr>path := path u, query := query u, fragment := fragment u\<rparr>)"
    using parse_tail_toString [of "path u" "query u" ?u2 "fragment u"] wf
    by (simp add: uri_new_def split_def Let_def)
  finally show ?thesis by (simp add: uri_new_def)
qed

section \<open>Properties\<close>

text \<open>Percent-encoding loses nothing: \<open>URI::urlDecode\<close> decodes what \<open>URI::urlEncode\<close> made of any
  string, and the encoded text contains none of the characters that separate parameters and cookies.\<close>

theorem url_encoding_roundtrip:
  "urlDecode (urlEncode s) = Inr s \<and>
   set (urlEncode s) \<inter> {CHR ''$'', CHR ''='', CHR ''&'', CHR '';'', CHR '' ''} = {}"
  using urlEncode_sep by fastforce

text \<open>C34. Parsing what \<open>URI::toString\<close> printed gives the URI back, component by component, for every
  URI whose components do not contain the delimiters that end them.\<close>

theorem uri_roundtrip:
  assumes "uri_wf u"
  shows "parseURI (uri_toString u) uri_new = Inr u"
  using assms by (rule parseURI_toString)

theorem uri_roundtrip_witness:
  "parseURI (uri_toString \<lparr>scheme = ''http'', userinfo = ''me'', host = ''example.com'', port = 8080,
     path = ''/a/b'', query = ''x=1'', fragment = ''top''\<rparr>) uri_new =
   Inr \<lparr>scheme = ''http'', userinfo = ''me'', host = ''example.com'', port = 8080,
     path = ''/a/b'', query = ''x=1'', fragment = ''top''\<rparr>"
  by (rule uri_roundtrip) (simp add: uri_wf_def uri_delim_def)

text \<open>A query string built by \<open>URI::buildQueryString\<close> is parsed back by \<open>URI::parseQueryString\<close>
  into the same parameters in the same order, whatever characters keys and values contain, as long
  as no key is empty.\<close>

theorem query_string_roundtrip:
  assumes "\<forall>p \<in> set ps. fst p \<noteq> []"
  shows "\<exists>q. buildQueryString ps = Some q \<and> parseQueryString q = Inr ps"
  using parseQueryString_query_text [OF assms] by (simp add: buildQueryString_eq)

theorem query_string_roundtrip_witness:
  "\<exists>q. buildQueryString [(''a&b'', ''1=2''), (''c'', '' '')] = Some q \<and>
     parseQueryString q = Inr [(''a&b'', ''1=2''), (''c'', '' '')]"
  using query_string_roundtrip [of "[(''a&b'', ''1=2''), (''c'', '' '')]"] by simp

text \<open>Cookies made by \<open>Cookies::mkCookie\<close> without attributes, sent back joined with semicolons,
  are parsed by \<open>Cookies::parseCookieHeader\<close> into the same keys and values, and \<open>getCookie\<close> finds
  the first value of a key.\<close>

theorem cookie_roundtrip:
  assumes "\<forall>c \<in> set cs. fst c \<noteq> []"
  shows "\<exists>texts. map (\<lambda>(k, v). mkCookie fmt_time k v 0 [] [] False False) cs = map Some texts \<and>
    parseCookieHeader (str_join texts ''; '') = Inr cs \<and> getCookie cs key = map_of cs key"
proof -
  let ?text = "\<lambda>(k, v). urlEncode k @ ''='' @ urlEncode v"
  have mk: "mkCookie fmt_time k v 0 [] [] False False = Some (?text (k, v))" for k v
    using urlEncode_sep by (simp add: mkCookie_def format_key_value)
  have "parseCookieHeader (sp @ str_join (map ?text cs) ''; '') = Inr cs"
    if "list_all (\<lambda>c. c = CHR '' '') sp" "cs \<noteq> []" for sp
    using that assms
  proof (induction cs arbitrary: sp)
    case (Cons c cs)
    obtain k v where c: "c = (k, v)" by (cases c)
    show ?case
    proof (cases "cs = []")
      case True
      then show ?thesis
        using Cons.prems parseCookieHeader_step [of k "[]" sp v] by (simp add: c parseCookieHeader.simps)
    next
      case False
      then show ?thesis
        using Cons.prems Cons.IH [of "'' ''"]
          parseCookieHeader_step [of k "''; '' @ str_join (map ?text cs) ''; ''" sp v]
        by (simp add: c str_join_Cons)
    qed
  qed simp
  from this [of "[]"] have "parseCookieHeader (str_join (map ?text cs) ''; '') = Inr cs"
    by (cases "cs = []") (auto simp: parseCookieHeader.simps)
  then show ?thesis
    using mk by (intro exI [of _ "map ?text cs"]) (auto simp: getCookie_map_of)
qed

theorem cookie_roundtrip_witness:
  "\<exists>texts. map (\<lambda>(k, v). mkCookie (\<lambda>_. []) k v 0 [] [] False False) [(''id'', ''a;b''), (''n'', ''1'')] = map Some texts \<and>
    parseCookieHeader (str_join texts ''; '') = Inr [(''id'', ''a;b''), (''n'', ''1'')]"
proof -
  have "\<forall>c \<in> set [(''id'', ''a;b''), (''n'', ''1'')]. fst c \<noteq> []" by simp
  from cookie_roundtrip [OF this, of "\<lambda>_. []" "''n''"] show ?thesis by blast
qed

end
