(* ===== verification/Stx_JSON.thy ===== *)
theory Stx_JSON
  imports Stx_Streams Stx_StringUtil
begin

text \<open>
  The token-level JSON library (\<open>json/jsontypes.h\<close>, \<open>jsoninputstream.cc\<close>,
  \<open>jsonoutputstream.cc\<close>, \<open>json.cc\<close>, \<open>jsonutil.cc\<close>, \<open>jsonpointer.cc\<close>).

  The lexer runs on any input stream (an argument \<open>rb\<close>), the writer on any output stream (an
  argument \<open>put\<close>); they are proved correct inside the contracts \<open>byte_source\<close> and \<open>byte_sink\<close>.
  A \<open>JSONObject\<close> is the list of its tokens; an iterator is a position. The \<open>size\<close> of a token is a
  natural number (documents have fewer than \<open>2 ^ 32\<close> tokens). Conversions to \<open>double\<close> are left
  out.
\<close>

section \<open>Tokens\<close>

datatype kTokenType =
    JSON_OBJECT_BEGIN
  | JSON_OBJECT_END
  | JSON_ARRAY_BEGIN
  | JSON_ARRAY_END
  | JSON_STRING
  | JSON_NUMBER
  | JSON_TRUE
  | JSON_FALSE
  | JSON_NULL

record json_token =
  jt_type :: kTokenType
  jt_data :: string
  jt_size :: nat

type_synonym json_object = "json_token list"

definition JSONToken :: "kTokenType \<Rightarrow> string \<Rightarrow> json_token" where
  "JSONToken t d = \<lparr>jt_type = t, jt_data = d, jt_size = 1\<rparr>"

section \<open>JSONInputStream\<close>

record 's json_is =
  jis_input :: 's
  jis_cur :: char

definition jis_new :: "'s \<Rightarrow> 's json_is" where
  "jis_new input = \<lparr>jis_input = input, jis_cur = CHR '' ''\<rparr>"

definition advanceCursor :: "'s byte_reader \<Rightarrow> 's json_is \<Rightarrow> 's json_is" where
  "advanceCursor rb s =
     (case rb (jis_input s) of
        (Some c, i) \<Rightarrow> s\<lparr>jis_input := i, jis_cur := c\<rparr>
      | (None, i) \<Rightarrow> s\<lparr>jis_input := i, jis_cur := CHR 0x00\<rparr>)"

definition number_chr :: "char \<Rightarrow> bool" where
  "number_chr c \<longleftrightarrow> isdigit c \<or>
     c = CHR ''-'' \<or> c = CHR ''+'' \<or> c = CHR ''.'' \<or> c = CHR ''e'' \<or> c = CHR ''E''"

text \<open>\<open>readNumber\<close> also passes over spaces inside a number.\<close>

partial_function (option) readNumber ::
  "'s byte_reader \<Rightarrow> string \<Rightarrow> 's json_is \<Rightarrow> (string \<times> 's json_is) comp" where
  "readNumber rb dst s =
     (if number_chr (jis_cur s) then readNumber rb (dst @ [jis_cur s]) (advanceCursor rb s)
      else if jis_cur s = CHR '' '' then readNumber rb dst (advanceCursor rb s)
      else ret (dst, s))"

declare readNumber.simps [code]

definition unescape :: "char \<Rightarrow> string option" where
  "unescape c =
     (if c = CHR 0x22 then Some [CHR 0x22]
      else if c = CHR 0x5C then Some [CHR 0x5C]
      else if c = CHR ''/'' then Some ''/''
      else if c = CHR ''b'' then Some [CHR 0x08]
      else if c = CHR ''f'' then Some [CHR 0x0C]
      else if c = CHR ''n'' then Some [CHR 0x0A]
      else if c = CHR ''r'' then Some [CHR 0x0D]
      else if c = CHR ''t'' then Some [CHR 0x09]
      else None)"

text \<open>An escape \<open>\u\<close> is dropped with its four digits.\<close>

partial_function (option) readString_json ::
  "'s byte_reader \<Rightarrow> string \<Rightarrow> 's json_is \<Rightarrow> (string \<times> 's json_is) comp" where
  "readString_json rb dst s =
     (let s1 = advanceCursor rb s; c = jis_cur s1
      in if c = CHR 0x5C then
           (let s2 = advanceCursor rb s1
            in case unescape (jis_cur s2) of
                 Some u \<Rightarrow> readString_json rb (dst @ u) s2
               | None \<Rightarrow>
                   (if jis_cur s2 = CHR ''u''
                    then readString_json rb dst
                           (advanceCursor rb (advanceCursor rb (advanceCursor rb (advanceCursor rb s2))))
                    else raise kRuntimeError))
         else if c = CHR 0x22 then ret (dst, advanceCursor rb s1)
         else if c = CHR 0x00 then raise kRuntimeError
         else readString_json rb (dst @ [c]) s1)"

declare readString_json.simps [code]

definition expectString :: "'s byte_reader \<Rightarrow> string \<Rightarrow> 's json_is \<Rightarrow> 's json_is result" where
  "expectString rb expect s =
     (let (cs, i) = readNextBytes rb (length expect - 1) (jis_input s)
      in if jis_cur s # cs \<noteq> expect then Inl kRuntimeError
         else Inr (advanceCursor rb (s\<lparr>jis_input := i\<rparr>)))"

partial_function (option) readNextToken ::
  "'s byte_reader \<Rightarrow> 's json_is \<Rightarrow> ((kTokenType \<times> string) option \<times> 's json_is) comp" where
  "readNextToken rb s =
     (let c = jis_cur s
      in if c = CHR ''{'' then ret (Some (JSON_OBJECT_BEGIN, []), advanceCursor rb s)
         else if c = CHR ''}'' then ret (Some (JSON_OBJECT_END, []), advanceCursor rb s)
         else if c = CHR ''['' then ret (Some (JSON_ARRAY_BEGIN, []), advanceCursor rb s)
         else if c = CHR '']'' then ret (Some (JSON_ARRAY_END, []), advanceCursor rb s)
         else if c = CHR '':'' \<or> c = CHR '','' \<or> c = CHR '' '' \<or> c = CHR 0x0A \<or> c = CHR 0x0D
         then readNextToken rb (advanceCursor rb s)
         else if c = CHR ''-'' \<or> isdigit c
         then bindC (readNumber rb [] s) (\<lambda>(d, s'). ret (Some (JSON_NUMBER, d), s'))
         else if c = CHR 0x22
         then bindC (readString_json rb [] s) (\<lambda>(d, s'). ret (Some (JSON_STRING, d), s'))
         else if c = CHR ''t''
         then bindC (Some (expectString rb ''true'' s)) (\<lambda>s'. ret (Some (JSON_TRUE, []), s'))
         else if c = CHR ''f''
         then bindC (Some (expectString rb ''false'' s)) (\<lambda>s'. ret (Some (JSON_FALSE, []), s'))
         else if c = CHR ''n''
         then bindC (Some (expectString rb ''null'' s)) (\<lambda>s'. ret (Some (JSON_NULL, []), s'))
         else if c = CHR 0x00 then ret (None, s)
         else raise kRuntimeError)"

declare readNextToken.simps [code]

section \<open>parseJSON\<close>

text \<open>The state of the loop: the tokens so far and the positions of the open brackets.\<close>

definition parse_step ::
  "kTokenType \<Rightarrow> string \<Rightarrow> json_object \<times> nat list \<Rightarrow> (json_object \<times> nat list) result" where
  "parse_step token token_str st =
     (let (obj, stack) = st
      in case token of
           JSON_ARRAY_BEGIN \<Rightarrow> Inr (obj @ [JSONToken token []], length obj # stack)
         | JSON_OBJECT_BEGIN \<Rightarrow> Inr (obj @ [JSONToken token []], length obj # stack)
         | JSON_ARRAY_END \<Rightarrow>
             (let obj' = obj @ [JSONToken token []]
              in case stack of
                   [] \<Rightarrow> Inl kParseError
                 | tp # stack' \<Rightarrow>
                     Inr (obj'[tp := (obj' ! tp)\<lparr>jt_size := length obj' - tp\<rparr>], stack'))
         | JSON_OBJECT_END \<Rightarrow>
             (let obj' = obj @ [JSONToken token []]
              in case stack of
                   [] \<Rightarrow> Inl kParseError
                 | tp # stack' \<Rightarrow>
                     Inr (obj'[tp := (obj' ! tp)\<lparr>jt_size := length obj' - tp\<rparr>], stack'))
         | JSON_STRING \<Rightarrow> Inr (obj @ [JSONToken token token_str], stack)
         | JSON_NUMBER \<Rightarrow> Inr (obj @ [JSONToken token token_str], stack)
         | _ \<Rightarrow> Inr (obj @ [JSONToken token []], stack))"

partial_function (option) parseJSON_loop ::
  "'s byte_reader \<Rightarrow> json_object \<times> nat list \<Rightarrow> 's json_is \<Rightarrow> (json_object \<times> nat list) comp" where
  "parseJSON_loop rb st s =
     bindC (readNextToken rb s) (\<lambda>(t, s').
       case t of
         None \<Rightarrow> ret st
       | Some (token, token_str) \<Rightarrow>
           bindC (Some (parse_step token token_str st)) (\<lambda>st'. parseJSON_loop rb st' s'))"

declare parseJSON_loop.simps [code]

definition parseJSON_stream :: "'s byte_reader \<Rightarrow> 's json_is \<Rightarrow> json_object comp" where
  "parseJSON_stream rb s =
     bindC (parseJSON_loop rb ([], []) s) (\<lambda>(obj, stack).
       if stack \<noteq> [] then raise kRuntimeError else ret obj)"

definition parseJSON :: "string \<Rightarrow> json_object comp" where
  "parseJSON json_str = parseJSON_stream sis_readNextByte (jis_new (sis_new json_str))"

definition parseJSON_buffer :: "buffer \<Rightarrow> json_object comp" where
  "parseJSON_buffer b = parseJSON_stream bis_readNextByte (jis_new (bis_new b))"

section \<open>JSONOutputStream\<close>

definition escape_chr :: "char \<Rightarrow> string" where
  "escape_chr c =
     (if c = CHR 0x08 then [CHR 0x5C, CHR ''b'']
      else if c = CHR 0x09 then [CHR 0x5C, CHR ''t'']
      else if c = CHR 0x0A then [CHR 0x5C, CHR ''n'']
      else if c = CHR 0x0C then [CHR 0x5C, CHR ''f'']
      else if c = CHR 0x0D then [CHR 0x5C, CHR ''r'']
      else if code c < 32
      then [CHR 0x5C, CHR ''u'', CHR ''0'', CHR ''0'', hexTable ! (code c div 16), hexTable ! (code c mod 16)]
      else if c = CHR 0x22 then [CHR 0x5C, CHR 0x22]
      else if c = CHR 0x5C then [CHR 0x5C, CHR 0x5C]
      else [c])"

definition escapeString :: "string \<Rightarrow> string" where
  "escapeString str = concat (map escape_chr str)"

type_synonym 'o json_os = "(kTokenType \<times> nat) list \<times> 'o"

definition bump :: "(kTokenType \<times> nat) list \<Rightarrow> (kTokenType \<times> nat) list" where
  "bump stack = (case stack of [] \<Rightarrow> [] | (t, n) # st \<Rightarrow> (t, n + 1) # st)"

definition addString :: "'o byte_writer \<Rightarrow> string \<Rightarrow> 'o \<Rightarrow> 'o comp" where
  "addString put str out =
     bindC (os_write_string put [CHR 0x22] out) (\<lambda>out.
     bindC (os_write_string put (escapeString str) out) (\<lambda>out.
     os_write_string put [CHR 0x22] out))"

definition jos_separator :: "'o byte_writer \<Rightarrow> (kTokenType \<times> nat) list \<Rightarrow> 'o \<Rightarrow> 'o comp" where
  "jos_separator put stack out =
     (case stack of
        [] \<Rightarrow> ret out
      | (t, n) # _ \<Rightarrow>
          (if n > 0
           then (case t of
                   JSON_ARRAY_BEGIN \<Rightarrow> os_write_string put '','' out
                 | JSON_OBJECT_BEGIN \<Rightarrow>
                     (if n mod 2 = 0 then os_write_string put '','' out
                      else os_write_string put '':'' out)
                 | _ \<Rightarrow> ret out)
           else ret out))"

definition jos_emplace_back ::
  "'o byte_writer \<Rightarrow> kTokenType \<Rightarrow> string \<Rightarrow> 'o json_os \<Rightarrow> 'o json_os comp" where
  "jos_emplace_back put token data st =
     (let (stack, out) = st
      in if token = JSON_ARRAY_END
         then bindC (os_write_string put '']'' out) (\<lambda>out. ret (bump (drop 1 stack), out))
         else if token = JSON_OBJECT_END
         then bindC (os_write_string put ''}'' out) (\<lambda>out. ret (bump (drop 1 stack), out))
         else bindC (jos_separator put stack out) (\<lambda>out.
           case token of
             JSON_ARRAY_BEGIN \<Rightarrow>
               bindC (os_write_string put ''['' out) (\<lambda>out. ret ((JSON_ARRAY_BEGIN, 0) # stack, out))
           | JSON_OBJECT_BEGIN \<Rightarrow>
               bindC (os_write_string put ''{'' out) (\<lambda>out. ret ((JSON_OBJECT_BEGIN, 0) # stack, out))
           | JSON_STRING \<Rightarrow> bindC (addString put data out) (\<lambda>out. ret (bump stack, out))
           | JSON_NUMBER \<Rightarrow> bindC (addString put data out) (\<lambda>out. ret (bump stack, out))
           | JSON_TRUE \<Rightarrow> bindC (os_write_string put ''true'' out) (\<lambda>out. ret (bump stack, out))
           | JSON_FALSE \<Rightarrow> bindC (os_write_string put ''false'' out) (\<lambda>out. ret (bump stack, out))
           | JSON_NULL \<Rightarrow> bindC (os_write_string put ''null'' out) (\<lambda>out. ret (bump stack, out))
           | _ \<Rightarrow> ret (stack, out)))"

fun jos_write :: "'o byte_writer \<Rightarrow> json_object \<Rightarrow> 'o json_os \<Rightarrow> 'o json_os comp" where
  "jos_write put [] st = ret st"
| "jos_write put (t # ts) st =
     bindC (jos_emplace_back put (jt_type t) (jt_data t) st) (jos_write put ts)"

section \<open>Reading back what was written\<close>

text \<open>
  A string whose characters \<open>escapeString\<close> does not turn into a \<open>\u\<close> escape.
\<close>

definition json_safe_chr :: "char \<Rightarrow> bool" where
  "json_safe_chr c \<longleftrightarrow> 32 \<le> code c \<or> c = CHR 0x08 \<or> c = CHR 0x09 \<or> c = CHR 0x0A \<or> c = CHR 0x0C \<or>
     c = CHR 0x0D"

fun token_text :: "kTokenType \<Rightarrow> string \<Rightarrow> string" where
  "token_text JSON_OBJECT_BEGIN d = ''{''"
| "token_text JSON_OBJECT_END d = ''}''"
| "token_text JSON_ARRAY_BEGIN d = ''[''"
| "token_text JSON_ARRAY_END d = '']''"
| "token_text JSON_STRING d = CHR 0x22 # escapeString d @ [CHR 0x22]"
| "token_text JSON_NUMBER d = CHR 0x22 # escapeString d @ [CHR 0x22]"
| "token_text JSON_TRUE d = ''true''"
| "token_text JSON_FALSE d = ''false''"
| "token_text JSON_NULL d = ''null''"

text \<open>What a token becomes when it is written and read: a number is written as a string.\<close>

fun reread :: "kTokenType \<Rightarrow> string \<Rightarrow> kTokenType \<times> string" where
  "reread JSON_STRING d = (JSON_STRING, d)"
| "reread JSON_NUMBER d = (JSON_STRING, d)"
| "reread t d = (t, [])"

context byte_source
begin

text \<open>The text from the cursor on.\<close>

definition jis_at :: "'s json_is \<Rightarrow> string \<Rightarrow> bool" where
  "jis_at s t \<longleftrightarrow> invar (jis_input s) \<and>
     (case t of [] \<Rightarrow> jis_cur s = CHR 0x00 \<and> rest (jis_input s) = []
      | c # cs \<Rightarrow> jis_cur s = c \<and> rest (jis_input s) = cs)"

lemma jis_at_new: "invar i \<Longrightarrow> jis_at (jis_new i) (CHR '' '' # rest i)"
  by (simp add: jis_at_def jis_new_def)

lemma jis_at_cur: "jis_at s (c # t) \<Longrightarrow> jis_cur s = c"
  by (simp add: jis_at_def)

lemma jis_at_Nil_cur: "jis_at s [] \<Longrightarrow> jis_cur s = CHR 0x00"
  by (simp add: jis_at_def)

lemma jis_at_advance: "jis_at s (c # t) \<Longrightarrow> jis_at (advanceCursor rb s) t"
proof -
  assume s: "jis_at s (c # t)"
  then have iv: "invar (jis_input s)" and rest: "rest (jis_input s) = t" by (auto simp: jis_at_def)
  from iv show ?thesis
    by (cases rule: rb_cases) (use rest in \<open>auto simp: jis_at_def advanceCursor_def split: list.splits\<close>)
qed

lemma readString_json_escape_chr:
  assumes "jis_at s (q # escape_chr c @ t)" "json_safe_chr c" "t \<noteq> []"
  shows "\<exists>s' q'. readString_json rb dst s = readString_json rb (dst @ [c]) s' \<and> jis_at s' (q' # t)"
proof -
  let ?s1 = "advanceCursor rb s"
  note at1 = jis_at_advance [OF assms(1)]
  show ?thesis
  proof (cases "escape_chr c = [c]")
    case True
    then have "jis_at ?s1 (c # t)" using at1 by simp
    moreover have "c \<noteq> CHR 0x5C" "c \<noteq> CHR 0x22" "c \<noteq> CHR 0x00"
      using True assms(2) by (auto simp: escape_chr_def json_safe_chr_def)
    ultimately show ?thesis
      by (subst readString_json.simps) (auto simp: Let_def dest: jis_at_cur)
  next
    case False
    then obtain d where d: "escape_chr c = [CHR 0x5C, d]" "unescape d = Some [c]"
      using assms(2) by (auto simp: escape_chr_def json_safe_chr_def unescape_def split: if_splits)
    have "jis_at ?s1 (CHR 0x5C # d # t)" using at1 d by simp
    then have "jis_cur ?s1 = CHR 0x5C" and at2: "jis_at (advanceCursor rb ?s1) (d # t)"
      by (rule jis_at_cur, rule jis_at_advance)
    moreover from at2 have "jis_cur (advanceCursor rb ?s1) = d" by (rule jis_at_cur)
    ultimately have "readString_json rb dst s = readString_json rb (dst @ [c]) (advanceCursor rb ?s1)"
      using d(2) by (subst readString_json.simps) (simp add: Let_def)
    with at2 show ?thesis by blast
  qed
qed

lemma readString_json_ok:
  "jis_at s (q # escapeString d @ CHR 0x22 # t) \<Longrightarrow> list_all json_safe_chr d \<Longrightarrow>
   \<exists>s'. readString_json rb dst s = ret (dst @ d, s') \<and> jis_at s' t"
proof (induction d arbitrary: dst s q)
  case Nil
  then have "jis_at (advanceCursor rb s) (CHR 0x22 # t)"
    using jis_at_advance by (fastforce simp: escapeString_def)
  then show ?case
    by (subst readString_json.simps) (auto simp: Let_def dest: jis_at_cur jis_at_advance)
next
  case (Cons c d)
  then obtain s' q' where "readString_json rb dst s = readString_json rb (dst @ [c]) s'"
    "jis_at s' (q' # escapeString d @ CHR 0x22 # t)"
    using readString_json_escape_chr [of s q c "escapeString d @ CHR 0x22 # t" dst]
    by (auto simp: escapeString_def)
  with Cons.IH [of s' q' "dst @ [c]"] Cons.prems(2) show ?case by simp
qed

lemma expectString_ok:
  assumes "jis_at s (c # cs @ t)"
  shows "\<exists>s'. expectString rb (c # cs) s = Inr s' \<and> jis_at s' t"
proof -
  have s: "invar (jis_input s)" "jis_cur s = c" "rest (jis_input s) = cs @ t"
    using assms by (auto simp: jis_at_def)
  obtain i where i: "readNextBytes rb (length cs) (jis_input s) = (cs, i)" "invar i" "rest i = t"
    using readNextBytes_ok [OF s(1), of "length cs"] s(3) by auto
  then have "jis_at (s\<lparr>jis_input := i\<rparr>) (c # t)" using s by (simp add: jis_at_def)
  then have "jis_at (advanceCursor rb (s\<lparr>jis_input := i\<rparr>)) t" by (rule jis_at_advance)
  with i s(2) show ?thesis by (simp add: expectString_def)
qed

lemma readNextToken_sep:
  assumes "jis_at s (sep @ t)" "sep \<in> {[], '','', '':'', '' ''}"
  shows "\<exists>s'. readNextToken rb s = readNextToken rb s' \<and> jis_at s' t"
proof (cases sep)
  case Nil
  then show ?thesis using assms(1) by auto
next
  case (Cons c cs)
  with assms have "jis_at s (c # t)" "c = CHR '','' \<or> c = CHR '':'' \<or> c = CHR '' ''" by auto
  then show ?thesis
    by (subst (1) readNextToken.simps) (auto simp: Let_def dest: jis_at_cur intro: jis_at_advance)
qed

lemma readNextToken_token:
  assumes "jis_at s (token_text tok d @ t)" "list_all json_safe_chr d"
  shows "\<exists>s'. readNextToken rb s = ret (Some (reread tok d), s') \<and> jis_at s' t"
proof -
  have str: ?thesis if "reread tok d = (JSON_STRING, d)" "token_text tok d = CHR 0x22 # escapeString d @ [CHR 0x22]"
  proof -
    have at: "jis_at s (CHR 0x22 # escapeString d @ CHR 0x22 # t)" using assms(1) that by simp
    with readString_json_ok [OF at assms(2), of "[]"] that show ?thesis
      by (subst readNextToken.simps) (auto simp: Let_def isdigit_def dest!: jis_at_cur)
  qed
  have word: ?thesis if "token_text tok d = w" "w = c # cs" "reread tok d = (tok, [])"
    "(tok, w) \<in> {(JSON_TRUE, ''true''), (JSON_FALSE, ''false''), (JSON_NULL, ''null'')}" for w c cs
    using expectString_ok [of s c cs t] assms(1) that
    by (subst readNextToken.simps) (auto simp: Let_def isdigit_def dest!: jis_at_cur)
  have bracket: ?thesis if "token_text tok d = [c]" "reread tok d = (tok, [])"
    "(tok, c) \<in> {(JSON_OBJECT_BEGIN, CHR ''{''), (JSON_OBJECT_END, CHR ''}''),
       (JSON_ARRAY_BEGIN, CHR ''[''), (JSON_ARRAY_END, CHR '']'')}" for c
    using assms(1) that jis_at_advance [of s c t]
    by (subst readNextToken.simps) (auto simp: Let_def dest!: jis_at_cur)
  show ?thesis by (cases tok) (use str word bracket in \<open>auto\<close>)
qed

lemma readNextToken_end: "jis_at s [] \<Longrightarrow> readNextToken rb s = ret (None, s)"
  by (subst readNextToken.simps) (auto simp: isdigit_def dest!: jis_at_Nil_cur)

end

text \<open>The writer puts at most one separator before each token.\<close>

inductive token_stream :: "(kTokenType \<times> string) list \<Rightarrow> string \<Rightarrow> bool" where
  ts_Nil: "token_stream [] []"
| ts_Cons: "sep \<in> {[], '','', '':'', '' ''} \<Longrightarrow> token_stream ts txt0 \<Longrightarrow>
    token_stream ((t, d) # ts) (sep @ token_text t d @ txt0)"

context byte_sink
begin

lemma write_string_ok:
  "invar out \<Longrightarrow> \<exists>out'. os_write_string put s out = ret out' \<and> invar out' \<and>
     written out' = written out @ bytes_of s"
  by (simp add: os_write_string_def put_ok)

lemma addString_ok:
  assumes "invar out"
  shows "\<exists>out'. addString put d out = ret out' \<and> invar out' \<and>
    written out' = written out @ bytes_of (CHR 0x22 # escapeString d @ [CHR 0x22])"
proof -
  obtain o1 where o1: "os_write_string put [CHR 0x22] out = ret o1" "invar o1"
    "written o1 = written out @ bytes_of [CHR 0x22]" using write_string_ok [OF assms] by blast
  obtain o2 where o2: "os_write_string put (escapeString d) o1 = ret o2" "invar o2"
    "written o2 = written o1 @ bytes_of (escapeString d)" using write_string_ok [OF o1(2)] by blast
  obtain o3 where "os_write_string put [CHR 0x22] o2 = ret o3" "invar o3"
    "written o3 = written o2 @ bytes_of [CHR 0x22]" using write_string_ok [OF o2(2)] by blast
  with o1 o2 show ?thesis by (simp add: addString_def)
qed

lemma jos_separator_ok:
  assumes "invar out"
  shows "\<exists>out' sep. jos_separator put stack out = ret out' \<and> invar out' \<and>
    sep \<in> {[], '','', '':'', '' ''} \<and> written out' = written out @ bytes_of sep"
proof (cases stack)
  case Nil
  then show ?thesis using assms by (auto simp: jos_separator_def)
next
  case (Cons p st)
  have w: "\<exists>out' sep. os_write_string put c out = ret out' \<and> invar out' \<and>
      sep \<in> {[], '','', '':'', '' ''} \<and> written out' = written out @ bytes_of sep"
    if "c \<in> {'','', '':''}" for c
    using write_string_ok [OF assms, of c] that by blast
  have n: "\<exists>out' sep. ret out = ret out' \<and> invar out' \<and>
      sep \<in> {[], '','', '':'', '' ''} \<and> written out' = written out @ bytes_of sep"
    using assms by force
  show ?thesis
    using Cons w [of "'',''"] w [of "'':''"] n
    by (cases p; cases "fst p") (simp_all add: jos_separator_def)
qed

lemma jos_emplace_back_ok:
  assumes "invar out"
  shows "\<exists>stack' out' sep. jos_emplace_back put t d (stack, out) = ret (stack', out') \<and> invar out' \<and>
    sep \<in> {[], '','', '':'', '' ''} \<and> written out' = written out @ bytes_of (sep @ token_text t d)"
proof (cases "t = JSON_ARRAY_END \<or> t = JSON_OBJECT_END")
  case True
  then show ?thesis
    using write_string_ok [OF assms, of "'']''"] write_string_ok [OF assms, of "''}''"]
    by (fastforce simp: jos_emplace_back_def)
next
  case False
  obtain o1 sep where o1: "jos_separator put stack out = ret o1" "invar o1"
    "sep \<in> {[], '','', '':'', '' ''}" "written o1 = written out @ bytes_of sep"
    using jos_separator_ok [OF assms] by blast
  have "\<exists>stack' o2. jos_emplace_back put t d (stack, out) = ret (stack', o2) \<and> invar o2 \<and>
      written o2 = written o1 @ bytes_of (token_text t d)"
    using False o1(1) addString_ok [OF o1(2), of d] write_string_ok [OF o1(2), of "token_text t d"]
    by (cases t) (auto simp: jos_emplace_back_def)
  with o1(3,4) show ?thesis by fastforce
qed

lemma jos_write_ok:
  "invar out \<Longrightarrow> \<exists>stack' out' txt0. jos_write put ts (stack, out) = ret (stack', out') \<and> invar out' \<and>
     token_stream (map (\<lambda>t. (jt_type t, jt_data t)) ts) txt0 \<and> written out' = written out @ bytes_of txt0"
proof (induction ts arbitrary: stack out)
  case Nil
  then show ?case by (auto intro: ts_Nil)
next
  case (Cons t ts)
  obtain st1 o1 sep where 1: "jos_emplace_back put (jt_type t) (jt_data t) (stack, out) = ret (st1, o1)"
    "invar o1" "sep \<in> {[], '','', '':'', '' ''}"
    "written o1 = written out @ bytes_of (sep @ token_text (jt_type t) (jt_data t))"
    using jos_emplace_back_ok [OF Cons.prems] by blast
  obtain st2 o2 txt0 where 2: "jos_write put ts (st1, o1) = ret (st2, o2)" "invar o2"
    "token_stream (map (\<lambda>t. (jt_type t, jt_data t)) ts) txt0" "written o2 = written o1 @ bytes_of txt0"
    using Cons.IH [OF 1(2)] by blast
  have "token_stream (map (\<lambda>t. (jt_type t, jt_data t)) (t # ts))
      (sep @ token_text (jt_type t) (jt_data t) @ txt0)"
    using ts_Cons [OF 1(3) 2(3)] by simp
  with 1 2 show ?case by fastforce
qed

end

text \<open>Folding the tokens of a document into the token list.\<close>

fun build :: "(kTokenType \<times> string) list \<Rightarrow> json_object \<times> nat list \<Rightarrow> (json_object \<times> nat list) result" where
  "build [] st = Inr st"
| "build ((t, d) # ts) st = bindE (parse_step t d st) (build ts)"

lemma build_append: "build (xs @ ys) st = bindE (build xs st) (build ys)"
proof (induction xs arbitrary: st)
  case (Cons p xs)
  then show ?case by (cases p; cases "parse_step (fst p) (snd p) st") auto
qed simp

context byte_source
begin

lemma parseJSON_loop_ok:
  "token_stream ts txt0 \<Longrightarrow> list_all (\<lambda>(t, d). list_all json_safe_chr d) ts \<Longrightarrow> jis_at s txt0 \<Longrightarrow>
   parseJSON_loop rb st s = Some (build (map (\<lambda>(t, d). reread t d) ts) st)"
proof (induction ts txt0 arbitrary: s st rule: token_stream.induct)
  case ts_Nil
  then show ?case by (subst parseJSON_loop.simps) (simp add: readNextToken_end)
next
  case (ts_Cons sep ts txt0 t d)
  obtain s1 where s1: "readNextToken rb s = readNextToken rb s1" "jis_at s1 (token_text t d @ txt0)"
    using readNextToken_sep [OF ts_Cons.prems(2) ts_Cons.hyps(1)] by blast
  then obtain s2 where s2: "readNextToken rb s = ret (Some (reread t d), s2)" "jis_at s2 txt0"
    using readNextToken_token [OF s1(2)] ts_Cons.prems(1) by auto
  obtain t' d' where rr: "reread t d = (t', d')" by fastforce
  show ?case
  proof (cases "parse_step t' d' st")
    case (Inl e)
    then show ?thesis using s2(1) rr by (subst parseJSON_loop.simps) simp
  next
    case (Inr st')
    then show ?thesis
      using s2 rr ts_Cons.IH [OF _ s2(2)] ts_Cons.prems(1)
      by (subst parseJSON_loop.simps) simp
  qed
qed

lemma parseJSON_stream_ok:
  assumes "token_stream ts (rest i)" "list_all (\<lambda>(t, d). list_all json_safe_chr d) ts" "invar i"
  shows "parseJSON_stream rb (jis_new i) =
    Some (bindE (build (map (\<lambda>(t, d). reread t d) ts) ([], []))
      (\<lambda>(obj, stack). if stack \<noteq> [] then Inl kRuntimeError else Inr obj))"
proof -
  have "jis_at (jis_new i) ('' '' @ rest i)" using jis_at_new [OF assms(3)] by simp
  then obtain s1 where s1: "readNextToken rb (jis_new i) = readNextToken rb s1" "jis_at s1 (rest i)"
    using readNextToken_sep [of "jis_new i" "'' ''"] by auto
  have "parseJSON_loop rb ([], []) (jis_new i) = parseJSON_loop rb ([], []) s1"
    by (subst (1 2) parseJSON_loop.simps) (simp add: s1(1))
  also have "\<dots> = Some (build (map (\<lambda>(t, d). reread t d) ts) ([], []))"
    by (rule parseJSON_loop_ok [OF assms(1,2) s1(2)])
  finally show ?thesis
    by (cases "build (map (\<lambda>(t, d). reread t d) ts) ([], [])")
       (auto simp: parseJSON_stream_def split: prod.splits)
qed

end

section \<open>Documents\<close>

text \<open>The values a balanced token list stands for, and the token list \<open>parseJSON\<close> builds for one.\<close>

datatype jvalue =
    JObj "(string \<times> jvalue) list"
  | JArr "jvalue list"
  | JStr string
  | JNum string
  | JTrue
  | JFalse
  | JNull

definition sized :: "kTokenType \<Rightarrow> nat \<Rightarrow> json_token" where
  "sized t n = \<lparr>jt_type = t, jt_data = [], jt_size = n\<rparr>"

definition bracket :: "kTokenType \<Rightarrow> kTokenType \<Rightarrow> json_object \<Rightarrow> json_object" where
  "bracket b e body = sized b (length body + 2) # body @ [JSONToken e []]"

lemma size_member [termination_simp]: "kv \<in> set kvs \<Longrightarrow>
    size (snd kv) < Suc (size_list (size_prod (\<lambda>x. 0) size) kvs)"
  unfolding size_prod_simp [abs_def] by (induction kvs) auto

fun flatten :: "jvalue \<Rightarrow> json_object" where
  "flatten (JObj kvs) = bracket JSON_OBJECT_BEGIN JSON_OBJECT_END
     (concat (map (\<lambda>kv. JSONToken JSON_STRING (fst kv) # flatten (snd kv)) kvs))"
| "flatten (JArr vs) = bracket JSON_ARRAY_BEGIN JSON_ARRAY_END (concat (map flatten vs))"
| "flatten (JStr d) = [JSONToken JSON_STRING d]"
| "flatten (JNum d) = [JSONToken JSON_NUMBER d]"
| "flatten JTrue = [JSONToken JSON_TRUE []]"
| "flatten JFalse = [JSONToken JSON_FALSE []]"
| "flatten JNull = [JSONToken JSON_NULL []]"

fun quote_numbers :: "jvalue \<Rightarrow> jvalue" where
  "quote_numbers (JObj kvs) = JObj (map (\<lambda>kv. (fst kv, quote_numbers (snd kv))) kvs)"
| "quote_numbers (JArr vs) = JArr (map quote_numbers vs)"
| "quote_numbers (JNum d) = JStr d"
| "quote_numbers v = v"

fun json_safe :: "jvalue \<Rightarrow> bool" where
  "json_safe (JObj kvs) \<longleftrightarrow> (\<forall>kv \<in> set kvs. list_all json_safe_chr (fst kv) \<and> json_safe (snd kv))"
| "json_safe (JArr vs) \<longleftrightarrow> (\<forall>v \<in> set vs. json_safe v)"
| "json_safe (JStr d) \<longleftrightarrow> list_all json_safe_chr d"
| "json_safe (JNum d) \<longleftrightarrow> list_all json_safe_chr d"
| "json_safe _ \<longleftrightarrow> True"

abbreviation raw :: "json_object \<Rightarrow> (kTokenType \<times> string) list" where
  "raw obj \<equiv> map (\<lambda>t. (jt_type t, jt_data t)) obj"

lemma raw_bracket [simp]: "raw (bracket b e body) = (b, []) # raw body @ [(e, [])]"
  by (simp add: bracket_def sized_def JSONToken_def)

lemma length_bracket [simp]: "length (bracket b e body) = length body + 2"
  by (simp add: bracket_def)

lemma hd_flatten_size: "jt_size (hd (flatten v)) = length (flatten v)" "flatten v \<noteq> []"
  by (cases v; simp add: bracket_def sized_def JSONToken_def)+

lemma flatten_nonempty [simp]: "flatten v \<noteq> []"
  by (rule hd_flatten_size)

lemma build_bracket:
  assumes "\<And>obj stack. build (raw body) (obj, stack) = Inr (obj @ body, stack)"
    and "(b, e) \<in> {(JSON_OBJECT_BEGIN, JSON_OBJECT_END), (JSON_ARRAY_BEGIN, JSON_ARRAY_END)}"
  shows "build (raw (bracket b e body)) (obj, stack) = Inr (obj @ bracket b e body, stack)"
proof -
  have "parse_step b [] (obj, stack) = Inr (obj @ [JSONToken b []], length obj # stack)"
    using assms(2) by (auto simp: parse_step_def)
  moreover have "parse_step e [] (obj @ [JSONToken b []] @ body, length obj # stack) =
      Inr (obj @ bracket b e body, stack)"
    using assms(2)
    by (auto simp: parse_step_def Let_def bracket_def sized_def JSONToken_def nth_append list_update_append)
  ultimately show ?thesis
    by (simp add: build_append assms(1))
qed

lemma build_concat:
  assumes "\<And>x obj stack. x \<in> set xs \<Longrightarrow> build (raw (f x)) (obj, stack) = Inr (obj @ f x, stack)"
  shows "build (raw (concat (map f xs))) (obj, stack) = Inr (obj @ concat (map f xs), stack)"
  using assms by (induction xs arbitrary: obj) (auto simp: build_append)

lemma build_flatten: "build (raw (flatten v)) (obj, stack) = Inr (obj @ flatten v, stack)"
proof (induction v arbitrary: obj stack rule: flatten.induct)
  case (1 kvs)
  show ?case
    unfolding flatten.simps
  proof (rule build_bracket [OF build_concat])
    fix kv obj stack
    assume "kv \<in> set kvs"
    from "1.IH" [OF this]
    show "build (raw (JSONToken JSON_STRING (fst kv) # flatten (snd kv))) (obj, stack) =
        Inr (obj @ JSONToken JSON_STRING (fst kv) # flatten (snd kv), stack)"
      by (simp add: parse_step_def JSONToken_def)
  qed simp
next
  case (2 vs)
  show ?case
    unfolding flatten.simps by (rule build_bracket [OF build_concat]) (simp_all add: 2)
qed (simp_all add: parse_step_def JSONToken_def)

lemma reread_flatten:
  "map (\<lambda>(t, d). reread t d) (raw (flatten v)) = raw (flatten (quote_numbers v))"
proof (induction v rule: flatten.induct)
  case (1 kvs)
  then show ?case
    by (simp add: map_concat comp_def JSONToken_def cong: map_cong)
next
  case (2 vs)
  then show ?case by (simp add: map_concat comp_def cong: map_cong)
qed (simp_all add: JSONToken_def)

lemma json_safe_flatten: "json_safe v \<Longrightarrow> t \<in> set (flatten v) \<Longrightarrow> list_all json_safe_chr (jt_data t)"
  by (induction v rule: flatten.induct) (auto simp: bracket_def sized_def JSONToken_def)

text \<open>Parsing the text of a document gives its tokens, with their sizes.\<close>

context byte_source
begin

lemma parse_document:
  assumes "token_stream (raw (flatten v)) (rest i)" "json_safe v" "invar i"
  shows "parseJSON_stream rb (jis_new i) = ret (flatten (quote_numbers v))"
proof -
  have "list_all (\<lambda>(t, d). list_all json_safe_chr d) (raw (flatten v))"
    using json_safe_flatten [OF assms(2)] by (auto simp: list_all_iff)
  from parseJSON_stream_ok [OF assms(1) this assms(3)] show ?thesis
    using build_flatten [of "quote_numbers v" "[]" "[]"]
    by (simp add: reread_flatten del: map_map)
qed

end

section \<open>Properties\<close>

text \<open>C9. A JSON document written by \<open>JSONOutputStream\<close> is parsed back by \<open>parseJSON\<close> into the same
  tokens, sizes of the containers included, except that every number has become a string: the
  output stream quotes numbers. Both terminate and raise nothing. The texts of the document contain no control characters
  but those with an escape of their own (\<open>json_safe\<close>); the reader drops the others.\<close>

theorem json_document_roundtrip:
  assumes "json_safe v"
  shows "\<exists>stack str. jos_write sos_write (flatten v) ([], []) = ret (stack, str) \<and>
    parseJSON str = ret (flatten (quote_numbers v))"
proof -
  obtain stack str txt0 where w: "jos_write sos_write (flatten v) ([], []) = ret (stack, str)"
    "token_stream (raw (flatten v)) txt0" "bytes_of str = bytes_of [] @ bytes_of txt0"
    using sos.jos_write_ok [where ts = "flatten v" and stack = "[]" and out = "[]"] by auto
  then have "str = txt0" using bytes_of_inject by simp
  then have "token_stream (raw (flatten v)) (sis_rest (sis_new str))"
    using w(2) by (simp add: sis_rest_def sis_new_def)
  then show ?thesis
    using w(1) sis.parse_document [OF _ assms] by (simp add: parseJSON_def sis_invar_def sis_new_def)
qed

theorem json_document_roundtrip_witness:
  "\<exists>stack str. jos_write sos_write (flatten (JObj [(''k'', JArr [JStr ''a'', JNum ''7'']), (''n'', JNull)])) ([], []) =
     ret (stack, str) \<and>
   parseJSON str = ret (flatten (JObj [(''k'', JArr [JStr ''a'', JStr ''7'']), (''n'', JNull)]))"
  using json_document_roundtrip [of "JObj [(''k'', JArr [JStr ''a'', JNum ''7'']), (''n'', JNull)]"]
  by (simp add: json_safe_chr_def)

end
