(* ===== verification/Stx_JSONUtil.thy ===== *)
theory Stx_JSONUtil
  imports Stx_JSON
begin

text \<open>
  Access to parsed documents: \<open>fromJSONImpl\<close> of \<open>json.cc\<close>, the lookups of \<open>jsonutil.cc\<close> and
  \<open>JSONPointer\<close>. An iterator pair \<open>begin\<close>/\<open>end\<close> is a pair of positions into the token list; a
  dereference at or after its end is \<open>UndefinedBehaviour\<close>.
\<close>

section \<open>Conversions\<close>

definition fromJSON_string :: "json_object \<Rightarrow> string result" where
  "fromJSON_string ts =
     (case ts of
        [] \<Rightarrow> Inl kIndexError
      | t # _ \<Rightarrow>
          (case jt_type t of
             JSON_STRING \<Rightarrow> Inr (jt_data t)
           | JSON_NUMBER \<Rightarrow> Inr (jt_data t)
           | JSON_TRUE \<Rightarrow> Inr ''true''
           | JSON_FALSE \<Rightarrow> Inr ''false''
           | JSON_NULL \<Rightarrow> Inr ''null''
           | _ \<Rightarrow> Inl kParseError))"

definition number_from :: "(string \<Rightarrow> 'a result) \<Rightarrow> json_object \<Rightarrow> 'a result" where
  "number_from conv ts =
     (case ts of
        [] \<Rightarrow> Inl kIndexError
      | t # _ \<Rightarrow>
          (if jt_type t = JSON_STRING \<or> jt_type t = JSON_NUMBER
           then (case conv (jt_data t) of Inr v \<Rightarrow> Inr v | Inl _ \<Rightarrow> Inl kParseError)
           else Inl kParseError))"

definition fromJSON_int :: "json_object \<Rightarrow> int result" where
  "fromJSON_int ts = number_from stoi ts"

text \<open>The \<open>unsigned int\<close> conversion drops the upper half of what \<open>stoul\<close> returns.\<close>

definition fromJSON_uint :: "json_object \<Rightarrow> u32 result" where
  "fromJSON_uint ts = number_from (\<lambda>d. bindE (stoul d) (\<lambda>v. Inr (ucast v))) ts"

definition fromJSON_ullong :: "json_object \<Rightarrow> u64 result" where
  "fromJSON_ullong ts = number_from (\<lambda>d. bindE (stoull d) (\<lambda>r. Inr (fst r))) ts"

definition fromJSON_ulong :: "json_object \<Rightarrow> u64 result" where
  "fromJSON_ulong ts = number_from stoul ts"

definition fromJSON_bool :: "json_object \<Rightarrow> bool result" where
  "fromJSON_bool ts =
     (case ts of
        [] \<Rightarrow> Inl kIndexError
      | t # _ \<Rightarrow>
          (case jt_type t of JSON_TRUE \<Rightarrow> Inr True | JSON_FALSE \<Rightarrow> Inr False | _ \<Rightarrow> Inl kParseError))"

definition fromJSON_object :: "json_object \<Rightarrow> json_object result" where
  "fromJSON_object ts =
     (case ts of
        [] \<Rightarrow> Inl UndefinedBehaviour
      | t # _ \<Rightarrow> if jt_size t > length ts then Inl kIndexError else Inr (take (jt_size t) ts))"

fun fromJSON_map_loop :: "json_object \<Rightarrow> (string \<rightharpoonup> string) \<Rightarrow> (string \<rightharpoonup> string) result" where
  "fromJSON_map_loop [] m = Inr m"
| "fromJSON_map_loop (k # r) m =
     (case jt_type k of
        JSON_OBJECT_END \<Rightarrow> Inr m
      | JSON_STRING \<Rightarrow>
          (case r of
             [] \<Rightarrow> Inl UndefinedBehaviour
           | v # r' \<Rightarrow>
               (case jt_type v of
                  JSON_STRING \<Rightarrow> fromJSON_map_loop r' (m(jt_data k \<mapsto> jt_data v))
                | JSON_NULL \<Rightarrow> fromJSON_map_loop r' (m(jt_data k \<mapsto> []))
                | _ \<Rightarrow> Inl kParseError))
      | _ \<Rightarrow> Inl kParseError)"

definition fromJSON_map :: "json_object \<Rightarrow> (string \<rightharpoonup> string) result" where
  "fromJSON_map ts =
     (case ts of
        [] \<Rightarrow> Inl kIndexError
      | t # r \<Rightarrow>
          (if jt_size t > length ts then Inl kIndexError
           else if jt_type t \<noteq> JSON_OBJECT_BEGIN then Inl kParseError
           else fromJSON_map_loop r Map.empty))"

lemma fromJSON_object_flatten: "fromJSON_object (flatten v @ ts) = Inr (flatten v)"
proof -
  obtain t r where fl: "flatten v = t # r" using flatten_nonempty [of v] by (cases "flatten v") auto
  then have "jt_size t = length (t # r)" using hd_flatten_size(1) [of v] by simp
  then show ?thesis by (simp add: fromJSON_object_def fl)
qed

section \<open>Lookups\<close>

partial_function (option) objectLookup_loop ::
  "json_object \<Rightarrow> nat \<Rightarrow> nat \<Rightarrow> string \<Rightarrow> nat \<Rightarrow> nat comp" where
  "objectLookup_loop obj oend e key b =
     (if b < e
      then if jt_type (obj ! b) = JSON_STRING \<and> jt_data (obj ! b) = key then ret (b + 1)
           else if b + 1 = oend then ret e
           else if b + 1 \<ge> length obj then raise UndefinedBehaviour
           else objectLookup_loop obj oend e key (b + 1 + jt_size (obj ! (b + 1)))
      else ret e)"

declare objectLookup_loop.simps [code]

definition objectLookup :: "json_object \<Rightarrow> nat \<Rightarrow> nat \<Rightarrow> string \<Rightarrow> nat comp" where
  "objectLookup obj b e key =
     (if b = e then ret e
      else if jt_type (obj ! b) \<noteq> JSON_OBJECT_BEGIN then raise kParseError
      else
        (let oend = b + jt_size (obj ! b)
         in if oend > e then ret e else objectLookup_loop obj oend e key (b + 1)))"

partial_function (option) arrayLength_loop :: "json_object \<Rightarrow> nat \<Rightarrow> nat \<Rightarrow> nat \<Rightarrow> nat comp" where
  "arrayLength_loop obj aend b len =
     (if b < aend then arrayLength_loop obj aend (b + jt_size (obj ! b)) (len + 1) else ret len)"

declare arrayLength_loop.simps [code]

definition arrayLength :: "json_object \<Rightarrow> nat \<Rightarrow> nat \<Rightarrow> nat comp" where
  "arrayLength obj b e =
     (if b = e then ret 0
      else if jt_type (obj ! b) \<noteq> JSON_ARRAY_BEGIN then raise kParseError
      else
        (let aend = b + jt_size (obj ! b) - 1
         in if aend > e then raise kIndexError else arrayLength_loop obj aend (b + 1) 0))"

partial_function (option) arrayLookup_loop :: "json_object \<Rightarrow> nat \<Rightarrow> nat \<Rightarrow> nat \<Rightarrow> nat \<Rightarrow> nat comp" where
  "arrayLookup_loop obj aend index b idx =
     (if b < aend
      then if idx = index then ret b
           else arrayLookup_loop obj aend index (b + jt_size (obj ! b)) (idx + 1)
      else raise kIndexError)"

declare arrayLookup_loop.simps [code]

definition arrayLookup :: "json_object \<Rightarrow> nat \<Rightarrow> nat \<Rightarrow> nat \<Rightarrow> nat comp" where
  "arrayLookup obj b e index =
     (if b = e then ret e
      else if jt_type (obj ! b) \<noteq> JSON_ARRAY_BEGIN then raise kParseError
      else
        (let aend = b + jt_size (obj ! b) - 1
         in if aend > e \<or> b = aend then raise kIndexError
            else arrayLookup_loop obj aend index (b + 1) 0))"

definition objectGetString :: "json_object \<Rightarrow> nat \<Rightarrow> nat \<Rightarrow> string \<Rightarrow> string option comp" where
  "objectGetString obj b e key =
     bindC (objectLookup obj b e key) (\<lambda>iter.
       if iter \<noteq> e \<and> jt_type (obj ! iter) = JSON_STRING then ret (Some (jt_data (obj ! iter)))
       else ret None)"

definition objectGetUInt64 :: "json_object \<Rightarrow> nat \<Rightarrow> nat \<Rightarrow> string \<Rightarrow> u64 option comp" where
  "objectGetUInt64 obj b e key =
     bindC (objectLookup obj b e key) (\<lambda>iter.
       if iter \<noteq> e \<and> (jt_type (obj ! iter) = JSON_STRING \<or> jt_type (obj ! iter) = JSON_NUMBER)
       then Some (bindE (stoul (jt_data (obj ! iter))) (\<lambda>v. Inr (Some v)))
       else ret None)"

definition objectGetBool :: "json_object \<Rightarrow> nat \<Rightarrow> nat \<Rightarrow> string \<Rightarrow> bool option comp" where
  "objectGetBool obj b e key =
     bindC (objectLookup obj b e key) (\<lambda>iter.
       ret (if iter \<noteq> e
            then (case jt_type (obj ! iter) of
                    JSON_TRUE \<Rightarrow> Some True
                  | JSON_FALSE \<Rightarrow> Some False
                  | JSON_STRING \<Rightarrow>
                      (let d = jt_data (obj ! iter)
                       in if d = ''true'' \<or> d = ''TRUE'' then Some True
                          else if d = ''false'' \<or> d = ''FALSE'' then Some False
                          else None)
                  | _ \<Rightarrow> None)
            else None))"

definition arrayGetString :: "json_object \<Rightarrow> nat \<Rightarrow> nat \<Rightarrow> nat \<Rightarrow> string option comp" where
  "arrayGetString obj b e index =
     bindC (arrayLookup obj b e index) (\<lambda>iter.
       if iter \<noteq> e \<and> jt_type (obj ! iter) = JSON_STRING then ret (Some (jt_data (obj ! iter)))
       else ret None)"

subsection \<open>Lookups in a document\<close>

definition members :: "(string \<times> jvalue) list \<Rightarrow> json_object" where
  "members kvs = concat (map (\<lambda>kv. JSONToken JSON_STRING (fst kv) # flatten (snd kv)) kvs)"

lemma members_Cons [simp]:
  "members [] = []"
  "members ((k, v) # kvs) = JSONToken JSON_STRING k # flatten v @ members kvs"
  by (simp_all add: members_def)

lemma flatten_size_at: "obj = pre @ flatten v @ post \<Longrightarrow> jt_size (obj ! length pre) = length (flatten v)"
  using hd_flatten_size [of v] by (cases "flatten v") (auto simp: nth_append)

text \<open>The tokens of a value stand at a position, before the end of the range.\<close>

definition value_at :: "json_object \<Rightarrow> nat \<Rightarrow> nat \<Rightarrow> jvalue \<Rightarrow> bool" where
  "value_at obj e i v \<longleftrightarrow>
     i + length (flatten v) \<le> e \<and> e \<le> length obj \<and> (\<exists>r. drop i obj = flatten v @ r)"

lemma value_at_split:
  assumes "value_at obj e i v"
  obtains pre post where "obj = pre @ flatten v @ post" "i = length pre"
    "i + length (flatten v) \<le> e" "e \<le> length obj"
proof -
  obtain r where r: "drop i obj = flatten v @ r" "i + length (flatten v) \<le> e" "e \<le> length obj"
    using assms by (auto simp: value_at_def)
  then have "obj = take i obj @ flatten v @ r" by (metis append_take_drop_id)
  then show ?thesis using that r by (metis add_leD1 le_trans length_take min.absorb2)
qed

lemma value_at_less: "value_at obj e i v \<Longrightarrow> i < e"
  using flatten_nonempty [of v] by (cases "flatten v") (auto simp: value_at_def)

lemma value_at_hd: "value_at obj e i v \<Longrightarrow> obj ! i = hd (flatten v)"
  by (erule value_at_split) (simp add: nth_append hd_conv_nth)

lemma value_at_scalar:
  "value_at obj e i (JStr d) \<Longrightarrow> obj ! i = JSONToken JSON_STRING d"
  "value_at obj e i (JNum d) \<Longrightarrow> obj ! i = JSONToken JSON_NUMBER d"
  "value_at obj e i JTrue \<Longrightarrow> obj ! i = JSONToken JSON_TRUE []"
  "value_at obj e i JFalse \<Longrightarrow> obj ! i = JSONToken JSON_FALSE []"
  "value_at obj e i JNull \<Longrightarrow> obj ! i = JSONToken JSON_NULL []"
  by (drule value_at_hd; simp)+

text \<open>The position returned is where the tokens of the first value with that key start.\<close>

lemma objectLookup_loop_ok:
  assumes "obj = pre @ members kvs @ JSONToken JSON_OBJECT_END [] # post"
    and "oend = length pre + length (members kvs) + 1" "oend \<le> e" "e \<le> length obj"
  shows "\<exists>i. objectLookup_loop obj oend e key (length pre) = ret i \<and>
    (case map_of kvs key of
       None \<Rightarrow> i = e
     | Some v \<Rightarrow> value_at obj e i v)"
  using assms(1,2)
proof (induction kvs arbitrary: pre)
  case Nil
  then have "length pre < e" "obj ! length pre = JSONToken JSON_OBJECT_END []"
    using assms(3) by (auto simp: nth_append)
  then show ?case
    using Nil by (subst objectLookup_loop.simps) (simp add: JSONToken_def)
next
  case (Cons kv kvs)
  obtain k v where kv: "kv = (k, v)" by fastforce
  let ?pre = "pre @ JSONToken JSON_STRING k # flatten v"
  have obj: "obj = (pre @ [JSONToken JSON_STRING k]) @ flatten v @ members kvs @
      JSONToken JSON_OBJECT_END [] # post"
    using Cons.prems(1) kv by simp
  have len: "length pre + 1 + length (flatten v) < oend" "oend \<le> length obj"
    using Cons.prems(2) kv assms(3,4) by auto
  have at: "obj ! length pre = JSONToken JSON_STRING k"
    unfolding obj by (simp add: nth_append)
  have lt: "length pre < e" using len assms(3) by simp
  show ?case
  proof (cases "k = key")
    case True
    have "drop (length pre + 1) obj = flatten v @ members kvs @ JSONToken JSON_OBJECT_END [] # post"
      unfolding obj by simp
    moreover have "length pre + 1 + length (flatten v) \<le> e" using len assms(3) by simp
    ultimately show ?thesis
      using True kv at lt assms(4) by (subst objectLookup_loop.simps) (auto simp: JSONToken_def value_at_def)
  next
    case False
    have "jt_size (obj ! (length pre + 1)) = length (flatten v)"
      using flatten_size_at [OF obj] by simp
    moreover have "length pre + 1 \<noteq> oend" "\<not> length pre + 1 \<ge> length obj"
      using len flatten_nonempty [of v] by (cases "flatten v"; auto)+
    ultimately have "objectLookup_loop obj oend e key (length pre) =
        objectLookup_loop obj oend e key (length ?pre)"
      using False at lt by (subst objectLookup_loop.simps) (simp add: JSONToken_def)
    moreover have "obj = ?pre @ members kvs @ JSONToken JSON_OBJECT_END [] # post"
      using obj by simp
    moreover have "oend = length ?pre + length (members kvs) + 1" using Cons.prems(2) kv by simp
    ultimately show ?thesis using Cons.IH [of ?pre] False kv by simp
  qed
qed

lemma arrayLookup_loop_ok:
  assumes "obj = pre @ concat (map flatten vs) @ post" "aend = length pre + length (concat (map flatten vs))"
  shows "(if n < length vs
     then \<exists>i. arrayLookup_loop obj aend (idx + n) (length pre) idx = ret i \<and> value_at obj aend i (vs ! n)
     else arrayLookup_loop obj aend (idx + n) (length pre) idx = raise kIndexError)"
  using assms
proof (induction vs arbitrary: pre idx n)
  case Nil
  then show ?case by (subst arrayLookup_loop.simps) simp
next
  case (Cons v vs)
  have size: "jt_size (obj ! length pre) = length (flatten v)"
    using flatten_size_at [of obj pre v "concat (map flatten vs) @ post"] Cons.prems(1) by simp
  have lt: "length pre < aend" using Cons.prems(2) flatten_nonempty [of v] by (cases "flatten v") auto
  show ?case
  proof (cases n)
    case 0
    then show ?thesis using lt Cons.prems by (subst arrayLookup_loop.simps) (simp add: value_at_def)
  next
    case (Suc m)
    have "arrayLookup_loop obj aend (idx + n) (length pre) idx =
        arrayLookup_loop obj aend (Suc idx + m) (length (pre @ flatten v)) (Suc idx)"
      using Suc lt size by (subst arrayLookup_loop.simps) simp
    moreover have "obj = (pre @ flatten v) @ concat (map flatten vs) @ post"
      "aend = length (pre @ flatten v) + length (concat (map flatten vs))"
      using Cons.prems by simp_all
    note Cons.IH [OF this, of m "Suc idx"]
    moreover have "n < length (v # vs) \<longleftrightarrow> m < length vs" "(v # vs) ! n = vs ! m"
      using Suc by simp_all
    ultimately show ?thesis by (simp only:)
  qed
qed

lemma arrayLength_loop_ok:
  assumes "obj = pre @ concat (map flatten vs) @ post" "aend = length pre + length (concat (map flatten vs))"
  shows "arrayLength_loop obj aend (length pre) len = ret (len + length vs)"
  using assms
proof (induction vs arbitrary: pre len)
  case Nil
  then show ?case by (subst arrayLength_loop.simps) simp
next
  case (Cons v vs)
  have size: "jt_size (obj ! length pre) = length (flatten v)"
    using flatten_size_at [of obj pre v "concat (map flatten vs) @ post"] Cons.prems(1) by simp
  have "length pre < aend" using Cons.prems(2) flatten_nonempty [of v] by (cases "flatten v") auto
  then show ?case
    using Cons.IH [of "pre @ flatten v" "Suc len"] Cons.prems size
    by (subst arrayLength_loop.simps) simp
qed

lemma array_at:
  assumes "obj = pre @ flatten (JArr vs) @ post"
  shows "obj = (pre @ [sized JSON_ARRAY_BEGIN (length (concat (map flatten vs)) + 2)]) @
      concat (map flatten vs) @ JSONToken JSON_ARRAY_END [] # post"
    "obj ! length pre = sized JSON_ARRAY_BEGIN (length (concat (map flatten vs)) + 2)"
    "length pre + length (concat (map flatten vs)) + 2 \<le> length obj"
  using assms by (simp_all add: bracket_def nth_append)

text \<open>What the accessors answer for a document, for every range that contains it.\<close>

lemma objectLookup_at:
  assumes "value_at obj e b (JObj kvs)"
  shows "\<exists>i. objectLookup obj b e key = ret i \<and>
    (case map_of kvs key of None \<Rightarrow> i = e | Some v \<Rightarrow> i \<noteq> e \<and> value_at obj e i v)"
proof -
  let ?b = "sized JSON_OBJECT_BEGIN (length (members kvs) + 2)"
  obtain pre post where v: "obj = pre @ flatten (JObj kvs) @ post" "b = length pre"
    "b + length (flatten (JObj kvs)) \<le> e" "e \<le> length obj"
    using assms by (rule value_at_split)
  then have obj: "obj = (pre @ [?b]) @ members kvs @ JSONToken JSON_OBJECT_END [] # post"
    by (simp add: bracket_def members_def)
  have e: "b + (length (members kvs) + 2) \<le> e" using v(3) by (simp add: members_def)
  have "obj ! b = ?b" unfolding obj v(2) by (simp add: nth_append)
  then have "objectLookup obj b e key =
      objectLookup_loop obj (b + (length (members kvs) + 2)) e key (length (pre @ [?b]))"
    using e v(2) by (simp add: objectLookup_def sized_def Let_def)
  moreover obtain i where "objectLookup_loop obj (b + (length (members kvs) + 2)) e key (length (pre @ [?b])) = ret i"
    "case map_of kvs key of None \<Rightarrow> i = e | Some v \<Rightarrow> value_at obj e i v"
    using objectLookup_loop_ok [OF obj _ e v(4)] v(2) by auto
  ultimately show ?thesis by (auto dest: value_at_less split: option.splits)
qed

lemma arrayLookup_at:
  assumes "value_at obj e b (JArr vs)" "n < length vs"
  shows "\<exists>i. arrayLookup obj b e n = ret i \<and> value_at obj e i (vs ! n)"
proof -
  let ?m = "length (concat (map flatten vs))"
  obtain pre post where v: "obj = pre @ flatten (JArr vs) @ post" "b = length pre"
    "b + length (flatten (JArr vs)) \<le> e" "e \<le> length obj"
    using assms(1) by (rule value_at_split)
  have "arrayLookup obj b e n = arrayLookup_loop obj (b + ?m + 1) n (b + 1) 0"
    using array_at(2) [OF v(1)] v(2,3) by (simp add: arrayLookup_def sized_def Let_def)
  then show ?thesis
    using arrayLookup_loop_ok [OF array_at(1) [OF v(1)], of "b + ?m + 1" n 0] v assms(2)
    by (auto simp: value_at_def)
qed

lemma arrayLength_at:
  assumes "value_at obj e b (JArr vs)"
  shows "arrayLength obj b e = ret (length vs)"
proof -
  obtain pre post where v: "obj = pre @ flatten (JArr vs) @ post" "b = length pre"
    "b + length (flatten (JArr vs)) \<le> e" "e \<le> length obj"
    using assms by (rule value_at_split)
  then show ?thesis
    using arrayLength_loop_ok [OF array_at(1) [OF v(1)], of _ 0] array_at(2) [OF v(1)]
    by (simp add: arrayLength_def sized_def Let_def)
qed

lemma objectGetString_at:
  assumes "value_at obj e b (JObj kvs)" "map_of kvs key = Some (JStr d)"
  shows "objectGetString obj b e key = ret (Some d)"
  using objectLookup_at [OF assms(1), of key] assms(2)
  by (auto simp: objectGetString_def JSONToken_def dest: value_at_scalar)

lemma objectGetUInt64_at:
  assumes "value_at obj e b (JObj kvs)" "map_of kvs key = Some (JNum d)"
  shows "objectGetUInt64 obj b e key = Some (bindE (stoul d) (\<lambda>v. Inr (Some v)))"
  using objectLookup_at [OF assms(1), of key] assms(2)
  by (auto simp: objectGetUInt64_def JSONToken_def dest: value_at_scalar)

lemma objectGetBool_at:
  assumes "value_at obj e b (JObj kvs)" "map_of kvs key = Some (if c then JTrue else JFalse)"
  shows "objectGetBool obj b e key = ret (Some c)"
  using objectLookup_at [OF assms(1), of key] assms(2)
  by (cases c) (auto simp: objectGetBool_def JSONToken_def dest: value_at_scalar)

section \<open>JSONPointer\<close>

definition ptr_escape :: "string \<Rightarrow> string option" where
  "ptr_escape str = Option.bind (replaceAll str ''~'' ''~0'') (\<lambda>s. replaceAll s ''/'' ''~1'')"

definition ptr_push :: "string \<Rightarrow> string \<Rightarrow> string option" where
  "ptr_push path str = map_option (\<lambda>e. path @ ''/'' @ e) (ptr_escape str)"

text \<open>
  Both loops run backwards to the last slash; without one they reach the position before the
  first character, where \<open>erase\<close> is undefined.
\<close>

definition ptr_pop :: "string \<Rightarrow> string result" where
  "ptr_pop path =
     (if CHR ''/'' \<in> set path
      then Inr (butlast (rev (dropWhile (\<lambda>c. c \<noteq> CHR ''/'') (rev path))))
      else Inl UndefinedBehaviour)"

definition ptr_head :: "string \<Rightarrow> string" where
  "ptr_head path = rev (takeWhile (\<lambda>c. c \<noteq> CHR ''/'') (rev path))"

lemma replace_spec_chr:
  "replace_spec [c] r s = concat (map (\<lambda>x. if x = c then r else [x]) s)"
proof (induction s)
  case Nil
  then show ?case by (simp add: replace_spec.simps)
next
  case (Cons x s)
  show ?case
  proof (cases "x = c")
    case True
    then show ?thesis using Cons by (simp add: replace_spec.simps [of _ _ "c # s"])
  next
    case False
    then have "replace_spec [c] r (x # s) = x # replace_spec [c] r s"
      by (cases "find_sub [c] s")
         (simp_all add: replace_spec.simps [of _ _ "x # s"] replace_spec.simps [of _ _ s])
    with False Cons show ?thesis by simp
  qed
qed

definition esc :: "char \<Rightarrow> string" where
  "esc c = (if c = CHR ''~'' then ''~0'' else if c = CHR ''/'' then ''~1'' else [c])"

lemma ptr_escape_eq: "ptr_escape s = Some (concat (map esc s))"
proof -
  have "concat (map (\<lambda>x. if x = CHR ''/'' then ''~1'' else [x])
      (concat (map (\<lambda>x. if x = CHR ''~'' then ''~0'' else [x]) s))) = concat (map esc s)"
    by (induction s) (auto simp: esc_def)
  then show ?thesis by (simp add: ptr_escape_def replaceAll_eq replace_spec_chr)
qed

lemma esc_no_slash: "CHR ''/'' \<notin> set (concat (map esc s))"
  by (induction s) (auto simp: esc_def)

lemma concat_esc_inject: "concat (map esc s) = concat (map esc t) \<Longrightarrow> s = t"
proof (induction s arbitrary: t)
  case Nil
  then show ?case by (cases t) (auto simp: esc_def split: if_splits)
next
  case (Cons c s)
  then obtain d t' where t: "t = d # t'" by (cases t) (auto simp: esc_def split: if_splits)
  then have "esc c @ concat (map esc s) = esc d @ concat (map esc t')" using Cons.prems by simp
  then have "c = d" "concat (map esc s) = concat (map esc t')"
    by (auto simp: esc_def split: if_splits)
  with Cons.IH t show ?case by simp
qed

text \<open>A push is undone by a pop, and the head is the escaped element, which determines it.\<close>

lemma ptr_push_pop:
  obtains p' e where "ptr_push p s = Some p'" "ptr_pop p' = Inr p" "ptr_head p' = e"
    "ptr_escape s = Some e" "CHR ''/'' \<notin> set e"
proof -
  let ?e = "concat (map esc s)"
  have e: "CHR ''/'' \<notin> set ?e" by (rule esc_no_slash)
  then have all: "list_all (\<lambda>c. c \<noteq> CHR ''/'') (rev ?e)" by (auto simp: list_all_iff)
  note sp = span_append [OF all, of "CHR ''/'' # rev p", simplified]
  have "rev (p @ ''/'' @ ?e) = rev ?e @ CHR ''/'' # rev p" by simp
  then have "dropWhile (\<lambda>c. c \<noteq> CHR ''/'') (rev (p @ ''/'' @ ?e)) = CHR ''/'' # rev p"
    "takeWhile (\<lambda>c. c \<noteq> CHR ''/'') (rev (p @ ''/'' @ ?e)) = rev ?e"
    using sp by (simp_all only:)
  then have "ptr_pop (p @ ''/'' @ ?e) = Inr p" "ptr_head (p @ ''/'' @ ?e) = ?e"
    by (simp_all only: ptr_pop_def ptr_head_def) simp_all
  then show ?thesis using that e by (simp add: ptr_push_def ptr_escape_eq)
qed

section \<open>Properties\<close>

text \<open>C36. \<open>JSONUtil::objectLookup\<close> finds the value of the first member with the key, wherever the
  object lies in the token list and whatever nested values stand before it, and returns the end of
  the list when no member has the key; it terminates.\<close>

theorem objectLookup_correct:
  assumes "obj = pre @ flatten (JObj kvs) @ post"
  shows "\<exists>i. objectLookup obj (length pre) (length obj) key = ret i \<and>
    (case map_of kvs key of
       None \<Rightarrow> i = length obj
     | Some v \<Rightarrow> i < length obj \<and> (\<exists>r. drop i obj = flatten v @ r))"
proof -
  have "value_at obj (length obj) (length pre) (JObj kvs)" using assms by (simp add: value_at_def)
  from objectLookup_at [OF this, of key] show ?thesis
    by (cases "map_of kvs key") (auto simp: value_at_def)
qed

theorem objectLookup_correct_witness:
  "\<exists>i. objectLookup (flatten (JObj [(''a'', JArr [JNum ''1'', JNull]), (''b'', JTrue)])) 0
      (length (flatten (JObj [(''a'', JArr [JNum ''1'', JNull]), (''b'', JTrue)]))) ''b'' = ret i \<and>
    (\<exists>r. drop i (flatten (JObj [(''a'', JArr [JNum ''1'', JNull]), (''b'', JTrue)])) = flatten JTrue @ r)"
  using objectLookup_correct [of "flatten (JObj [(''a'', JArr [JNum ''1'', JNull]), (''b'', JTrue)])" "[]"
      "[(''a'', JArr [JNum ''1'', JNull]), (''b'', JTrue)]" "[]" "''b''"]
  by (simp del: flatten.simps) blast

text \<open>\<open>JSONUtil::arrayLookup\<close> returns the position of the n-th element, whatever the elements
  before it, and raises the index error exactly when the array is not that long.\<close>

theorem arrayLookup_correct:
  assumes "obj = pre @ flatten (JArr vs) @ post"
  shows "if n < length vs
    then \<exists>i. arrayLookup obj (length pre) (length obj) n = ret i \<and> i < length obj \<and>
           (\<exists>r. drop i obj = flatten (vs ! n) @ r)
    else arrayLookup obj (length pre) (length obj) n = raise kIndexError"
proof -
  let ?m = "length (concat (map flatten vs))"
  have "arrayLookup obj (length pre) (length obj) n =
      arrayLookup_loop obj (length pre + ?m + 1) n (length pre + 1) 0"
    using array_at(2,3) [OF assms] by (simp add: arrayLookup_def sized_def Let_def)
  then show ?thesis
    using arrayLookup_loop_ok [OF array_at(1) [OF assms], of "length pre + ?m + 1" n 0]
      array_at(3) [OF assms] by (auto simp: value_at_def dest: value_at_less split: if_splits)
qed

theorem arrayLookup_correct_witness:
  "arrayLookup (flatten (JArr [JArr [JNull], JTrue])) 0 (length (flatten (JArr [JArr [JNull], JTrue]))) 2 =
     raise kIndexError"
  using arrayLookup_correct [of "flatten (JArr [JArr [JNull], JTrue])" "[]" "[JArr [JNull], JTrue]" "[]" 2]
  by (simp del: flatten.simps)

text \<open>\<open>JSONUtil::arrayLength\<close> counts the elements of the array, not those nested in them.\<close>

theorem arrayLength_correct:
  assumes "obj = pre @ flatten (JArr vs) @ post"
  shows "arrayLength obj (length pre) (length obj) = ret (length vs)"
  using assms by (intro arrayLength_at) (simp add: value_at_def)

theorem arrayLength_correct_witness:
  "arrayLength (flatten (JArr [JArr [JNull, JNull], JTrue])) 0
     (length (flatten (JArr [JArr [JNull, JNull], JTrue]))) = ret 2"
  using arrayLength_correct [of "flatten (JArr [JArr [JNull, JNull], JTrue])" "[]"
      "[JArr [JNull, JNull], JTrue]" "[]"]
  by (simp del: flatten.simps)

text \<open>\<open>fromJSON\<close> of a string map reads an object of strings into a map in which the last member
  with a key wins, and leaves what follows the object alone.\<close>

theorem fromJSON_map_correct:
  "fromJSON_map (flatten (JObj (map (\<lambda>(k, v). (k, JStr v)) kvs)) @ ts) = Inr (map_of (rev kvs))"
proof -
  let ?body = "\<lambda>kvs. concat (map (\<lambda>(k, v). [JSONToken JSON_STRING k, JSONToken JSON_STRING v]) kvs)"
  have loop: "fromJSON_map_loop (?body kvs @ JSONToken JSON_OBJECT_END [] # ts) m =
      Inr (m ++ map_of (rev kvs))" for m
    by (induction kvs arbitrary: m) (auto simp: JSONToken_def map_add_def fun_eq_iff split: option.splits)
  have "flatten (JObj (map (\<lambda>(k, v). (k, JStr v)) kvs)) =
      bracket JSON_OBJECT_BEGIN JSON_OBJECT_END (?body kvs)"
    by (simp add: comp_def split_def)
  then show ?thesis
    using loop [of Map.empty] by (simp add: fromJSON_map_def bracket_def sized_def)
qed

text \<open>\<open>JSONPointer\<close>: \<open>pop\<close> undoes \<open>push\<close>, and two different elements pushed on the same pointer
  give different pointers, whatever slashes and tildes they contain.\<close>

theorem json_pointer_push_pop:
  "\<exists>p1 p2. ptr_push p s = Some p1 \<and> ptr_push p t = Some p2 \<and> ptr_pop p1 = Inr p \<and> (p1 = p2 \<longleftrightarrow> s = t)"
proof -
  obtain p1 where "ptr_push p s = Some p1" "ptr_pop p1 = Inr p" by (rule ptr_push_pop [of p s])
  then show ?thesis using concat_esc_inject by (auto simp: ptr_push_def ptr_escape_eq)
qed

end
