(* ===== verification/Stx_HTTP.thy ===== *)
theory Stx_HTTP
  imports Stx_URI Stx_Streams
begin

text \<open>
  HTTP messages (\<open>http/httpmessage.cc\<close>, \<open>httprequest.cc\<close>, \<open>httpresponse.cc\<close>), the incremental
  parser (\<open>http/httpparser.cc\<close>) and the generator (\<open>http/httpgenerator.cc\<close>).

  The parser calls back into its owner; the model records the calls, in order, as events, and a
  request or response is what its callbacks make of them. The callback for the method is special:
  without it the method stays in the buffer, so its presence is part of the state. The buffer of
  the parser is the string of its contents (theory \<open>Stx_Buffer\<close> relates the two). The body counters
  are 64-bit words: \<open>-1\<close> means "until the connection closes". Redirecting the body into streams and
  everything that needs a socket is left out.
\<close>

section \<open>Messages\<close>

datatype kHTTPMethod =
  M_CONNECT | M_DELETE | M_GET | M_HEAD | M_OPTIONS | M_POST | M_PUT | M_TRACE

fun method_toString :: "kHTTPMethod \<Rightarrow> string" where
  "method_toString M_CONNECT = ''CONNECT''"
| "method_toString M_DELETE = ''DELETE''"
| "method_toString M_GET = ''GET''"
| "method_toString M_HEAD = ''HEAD''"
| "method_toString M_OPTIONS = ''OPTIONS''"
| "method_toString M_POST = ''POST''"
| "method_toString M_PUT = ''PUT''"
| "method_toString M_TRACE = ''TRACE''"

type_synonym header_list = "(string \<times> string) list"

record http_message =
  hm_version :: string
  hm_headers :: header_list
  hm_body :: string

record http_request = http_message +
  req_method :: kHTTPMethod
  req_url :: string

record http_response = http_message +
  res_code :: int
  res_status :: string

fun header_lookup :: "string \<Rightarrow> header_list \<Rightarrow> string option" where
  "header_lookup key [] = None"
| "header_lookup key ((k, v) # hs) = (if k = key then Some v else header_lookup key hs)"

definition getHeader :: "string \<Rightarrow> 'a http_message_scheme \<Rightarrow> string" where
  "getHeader key m =
     (case header_lookup (toLower key) (hm_headers m) of Some v \<Rightarrow> v | None \<Rightarrow> [])"

definition hasHeader :: "string \<Rightarrow> 'a http_message_scheme \<Rightarrow> bool" where
  "hasHeader key m \<longleftrightarrow> header_lookup (toLower key) (hm_headers m) \<noteq> None"

definition addHeader :: "string \<Rightarrow> string \<Rightarrow> 'a http_message_scheme \<Rightarrow> 'a http_message_scheme" where
  "addHeader key val m = m\<lparr>hm_headers := hm_headers m @ [(toLower key, val)]\<rparr>"

fun header_replace :: "string \<Rightarrow> string \<Rightarrow> header_list \<Rightarrow> header_list" where
  "header_replace key val [] = [(key, val)]"
| "header_replace key val ((k, v) # hs) =
     (if k = key then (k, val) # hs else (k, v) # header_replace key val hs)"

definition setHeader :: "string \<Rightarrow> string \<Rightarrow> 'a http_message_scheme \<Rightarrow> 'a http_message_scheme" where
  "setHeader key val m = m\<lparr>hm_headers := header_replace (toLower key) val (hm_headers m)\<rparr>"

definition clearHeaders :: "'a http_message_scheme \<Rightarrow> 'a http_message_scheme" where
  "clearHeaders m = m\<lparr>hm_headers := []\<rparr>"

definition addBody :: "string \<Rightarrow> 'a http_message_scheme \<Rightarrow> 'a http_message_scheme" where
  "addBody b m = m\<lparr>hm_body := b\<rparr>"

definition appendBody :: "string \<Rightarrow> 'a http_message_scheme \<Rightarrow> 'a http_message_scheme" where
  "appendBody b m = m\<lparr>hm_body := hm_body m @ b\<rparr>"

definition clearBody :: "'a http_message_scheme \<Rightarrow> 'a http_message_scheme" where
  "clearBody m = m\<lparr>hm_body := []\<rparr>"

lemma toLower_idem [simp]: "toLower (toLower s) = toLower s"
  by (simp add: toLower_def comp_def)

lemma header_lookup_replace:
  "header_lookup k (header_replace key val hs) = (if k = key then Some val else header_lookup k hs)"
  by (induction key val hs rule: header_replace.induct) auto

lemma header_lookup_append:
  "header_lookup k (hs @ hs') =
     (case header_lookup k hs of Some v \<Rightarrow> Some v | None \<Rightarrow> header_lookup k hs')"
  by (induction k hs rule: header_lookup.induct) auto

lemma getHeader_setHeader: "toLower k = toLower k' \<Longrightarrow> getHeader k (setHeader k' v m) = v"
  by (simp add: getHeader_def setHeader_def header_lookup_replace)

lemma getHeader_setHeader_other:
  "toLower k \<noteq> toLower k' \<Longrightarrow> getHeader k (setHeader k' v m) = getHeader k m"
  by (simp add: getHeader_def setHeader_def header_lookup_replace)

section \<open>HTTPParser\<close>

datatype kParserMode = PARSE_HTTP_REQUEST | PARSE_HTTP_RESPONSE

datatype kParserState =
    S_REQ_METHOD | S_REQ_URI | S_REQ_VERSION | S_RES_VERSION | S_RES_STATUS_CODE
  | S_RES_STATUS_NAME | S_HEADER | S_BODY | S_DONE

datatype http_event =
    OnMethod kHTTPMethod
  | OnURI string
  | OnVersion string
  | OnStatusCode int
  | OnStatusName string
  | OnHeader string string
  | OnHeadersComplete
  | OnBodyChunk string

record http_parser =
  hp_mode :: kParserMode
  hp_state :: kParserState
  hp_buf :: string
  hp_read :: u64
  hp_expected :: u64
  hp_expect_body :: bool
  hp_method_cb :: bool
  hp_events :: "http_event list"

definition hp_start :: "kParserMode \<Rightarrow> kParserState" where
  "hp_start mode = (case mode of PARSE_HTTP_REQUEST \<Rightarrow> S_REQ_METHOD | PARSE_HTTP_RESPONSE \<Rightarrow> S_RES_VERSION)"

definition hp_new :: "kParserMode \<Rightarrow> http_parser" where
  "hp_new mode =
     \<lparr>hp_mode = mode, hp_state = hp_start mode, hp_buf = [], hp_read = 0, hp_expected = 0,
      hp_expect_body = True, hp_method_cb = False, hp_events = []\<rparr>"

definition hp_reset :: "http_parser \<Rightarrow> http_parser" where
  "hp_reset p =
     p\<lparr>hp_state := hp_start (hp_mode p), hp_buf := [], hp_read := 0, hp_expected := 0,
       hp_expect_body := True\<rparr>"

definition hp_ignoreBody :: "http_parser \<Rightarrow> http_parser" where
  "hp_ignoreBody p = p\<lparr>hp_expect_body := False\<rparr>"

definition emit :: "http_event \<Rightarrow> http_parser \<Rightarrow> http_parser" where
  "emit e p = p\<lparr>hp_events := hp_events p @ [e]\<rparr>"

text \<open>\<open>readUntil\<close>: whether the character was found, the rest of the data, the parser.\<close>

definition readUntil :: "char \<Rightarrow> string \<Rightarrow> http_parser \<Rightarrow> bool \<times> string \<times> http_parser" where
  "readUntil search data p =
     (let r = dropWhile (\<lambda>c. c \<noteq> search) data
      in (r \<noteq> [], r, p\<lparr>hp_buf := hp_buf p @ takeWhile (\<lambda>c. c \<noteq> search) data\<rparr>))"

definition strip_cr :: "string \<Rightarrow> string" where
  "strip_cr s = rev (dropWhile (\<lambda>c. c = CHR 0x0D) (rev s))"

fun method_of :: "string \<Rightarrow> kHTTPMethod option" where
  "method_of s =
     (if s = ''CONNECT'' then Some M_CONNECT
      else if s = ''DELETE'' then Some M_DELETE
      else if s = ''GET'' then Some M_GET
      else if s = ''HEAD'' then Some M_HEAD
      else if s = ''OPTIONS'' then Some M_OPTIONS
      else if s = ''POST'' then Some M_POST
      else if s = ''PUT'' then Some M_PUT
      else if s = ''TRACE'' then Some M_TRACE
      else None)"

definition kMaxMethodSize :: nat where "kMaxMethodSize = 16"
definition kMaxURISize :: nat where "kMaxURISize = 8192"
definition kMaxVersionSize :: nat where "kMaxVersionSize = 16"
definition kMaxHeaderSize :: nat where "kMaxHeaderSize = 65535"

definition check_size :: "nat \<Rightarrow> string \<times> http_parser \<Rightarrow> (string \<times> http_parser) result" where
  "check_size n rp = (if length (hp_buf (snd rp)) > n then Inl kParseError else Inr rp)"

definition parseMethod :: "string \<Rightarrow> http_parser \<Rightarrow> (string \<times> http_parser) result" where
  "parseMethod data p =
     (let (found, r, p) = readUntil (CHR '' '') data p
      in if found
         then
           (let p = p\<lparr>hp_state := S_REQ_URI\<rparr>; r = tl r
            in if hp_method_cb p
               then (case method_of (hp_buf p) of
                       Some m \<Rightarrow> Inr (r, (emit (OnMethod m) p)\<lparr>hp_buf := []\<rparr>)
                     | None \<Rightarrow> Inl kParseError)
               else check_size kMaxMethodSize (r, p))
         else check_size kMaxMethodSize (r, p))"

definition hp_parseURI :: "string \<Rightarrow> http_parser \<Rightarrow> (string \<times> http_parser) result" where
  "hp_parseURI data p =
     (let (found, r, p) = readUntil (CHR '' '') data p
      in if found
         then Inr (tl r, (emit (OnURI (hp_buf p)) p)\<lparr>hp_buf := [], hp_state := S_REQ_VERSION\<rparr>)
         else check_size kMaxURISize (r, p))"

definition parseRequestVersion :: "string \<Rightarrow> http_parser \<Rightarrow> (string \<times> http_parser) result" where
  "parseRequestVersion data p =
     (let (found, r, p) = readUntil (CHR 0x0A) data p
      in if found
         then Inr (tl r, (emit (OnVersion (strip_cr (hp_buf p))) p)\<lparr>hp_buf := [], hp_state := S_HEADER\<rparr>)
         else check_size kMaxVersionSize (r, p))"

text \<open>\<open>strncasecmp(buf, lit, n) == 0\<close> for a buffer of \<open>n\<close> bytes and a literal.\<close>

fun strncase_eq :: "string \<Rightarrow> string \<Rightarrow> bool" where
  "strncase_eq [] l = True"
| "strncase_eq (c # cs) [] \<longleftrightarrow> c = CHR 0x00"
| "strncase_eq (c # cs) (d # l) \<longleftrightarrow> tolower c = tolower d \<and> strncase_eq cs l"

definition parseResponseVersion :: "string \<Rightarrow> http_parser \<Rightarrow> (string \<times> http_parser) result" where
  "parseResponseVersion data p =
     (let (found, r, p) = readUntil (CHR '' '') data p
      in if found
         then
           (let p1 = (if strncase_eq (hp_buf p) ''HTTP/1.0'' then p\<lparr>hp_expected := -1\<rparr> else p)
            in Inr (tl r, (emit (OnVersion (hp_buf p1)) p1)\<lparr>hp_buf := [], hp_state := S_RES_STATUS_CODE\<rparr>))
         else check_size kMaxVersionSize (r, p))"

definition parseResponseStatusCode :: "string \<Rightarrow> http_parser \<Rightarrow> (string \<times> http_parser) result" where
  "parseResponseStatusCode data p =
     (let (found, r, p) = readUntil (CHR '' '') data p
      in if found
         then (case stoi (hp_buf p) of
                 Inl _ \<Rightarrow> Inl kParseError
               | Inr status_code \<Rightarrow>
                   Inr (tl r, (emit (OnStatusCode status_code) p)\<lparr>hp_buf := [], hp_state := S_RES_STATUS_NAME\<rparr>))
         else check_size kMaxURISize (r, p))"

definition parseResponseStatusName :: "string \<Rightarrow> http_parser \<Rightarrow> (string \<times> http_parser) result" where
  "parseResponseStatusName data p =
     (let (found, r, p) = readUntil (CHR 0x0A) data p
      in if found
         then Inr (tl r, (emit (OnStatusName (strip_cr (hp_buf p))) p)\<lparr>hp_buf := [], hp_state := S_HEADER\<rparr>)
         else check_size kMaxVersionSize (r, p))"

definition processHeader :: "string \<Rightarrow> string \<Rightarrow> http_parser \<Rightarrow> http_parser result" where
  "processHeader key val p =
     bindE (if hp_expect_body p \<and> length key = 14 \<and> strncase_eq key ''Content-Length''
            then (case stoul val of Inr n \<Rightarrow> Inr (p\<lparr>hp_expected := n\<rparr>) | Inl _ \<Rightarrow> Inl kParseError)
            else Inr p) (\<lambda>p.
       let p = (if hp_mode p = PARSE_HTTP_RESPONSE \<and> hp_expect_body p \<and>
                   length key = 10 \<and> strncase_eq key ''Connection'' \<and>
                   length val = 5 \<and> strncase_eq val ''Close''
                then p\<lparr>hp_expected := -1\<rparr> else p)
       in Inr (emit (OnHeader key val) p))"

definition parseHeader :: "string \<Rightarrow> http_parser \<Rightarrow> (string \<times> http_parser) result" where
  "parseHeader data p =
     (let (found, r, p) = readUntil (CHR 0x0A) data p
      in if found
         then
           (let line = strip_cr (hp_buf p); p = p\<lparr>hp_buf := line\<rparr>
            in if line \<noteq> []
               then
                 (if CHR '':'' \<notin> set line then Inl kParseError
                  else
                    (let hkey = takeWhile (\<lambda>c. c \<noteq> CHR '':'') line;
                         hval = dropWhile (\<lambda>c. c = CHR '' '') (drop (length hkey + 1) line)
                     in bindE (processHeader hkey hval p) (\<lambda>p.
                          Inr (tl r, p\<lparr>hp_buf := [], hp_state := S_HEADER\<rparr>))))
               else Inr (tl r, emit OnHeadersComplete
                      (p\<lparr>hp_state := (if hp_expected p = 0 then S_DONE else S_BODY)\<rparr>)))
         else check_size kMaxHeaderSize (r, p))"

definition readBody :: "string \<Rightarrow> http_parser \<Rightarrow> (string \<times> http_parser) result" where
  "readBody data p =
     (let p = p\<lparr>hp_read := hp_read p + word_of_nat (length data)\<rparr>;
          p = (if hp_read p = hp_expected p then p\<lparr>hp_state := S_DONE\<rparr> else p)
      in Inr ([], emit (OnBodyChunk data) p))"

definition hp_step :: "string \<Rightarrow> http_parser \<Rightarrow> (string \<times> http_parser) result" where
  "hp_step data p =
     (case hp_state p of
        S_REQ_METHOD \<Rightarrow> parseMethod data p
      | S_REQ_URI \<Rightarrow> hp_parseURI data p
      | S_REQ_VERSION \<Rightarrow> parseRequestVersion data p
      | S_RES_VERSION \<Rightarrow> parseResponseVersion data p
      | S_RES_STATUS_CODE \<Rightarrow> parseResponseStatusCode data p
      | S_RES_STATUS_NAME \<Rightarrow> parseResponseStatusName data p
      | S_HEADER \<Rightarrow> parseHeader data p
      | S_DONE \<Rightarrow> if hp_mode p = PARSE_HTTP_REQUEST then Inl kParseError else readBody data p
      | S_BODY \<Rightarrow> readBody data p)"

text \<open>The delimiter each line-oriented state waits for.\<close>

fun hp_delim :: "kParserState \<Rightarrow> char option" where
  "hp_delim S_REQ_METHOD = Some (CHR '' '')"
| "hp_delim S_REQ_URI = Some (CHR '' '')"
| "hp_delim S_REQ_VERSION = Some (CHR 0x0A)"
| "hp_delim S_RES_VERSION = Some (CHR '' '')"
| "hp_delim S_RES_STATUS_CODE = Some (CHR '' '')"
| "hp_delim S_RES_STATUS_NAME = Some (CHR 0x0A)"
| "hp_delim S_HEADER = Some (CHR 0x0A)"
| "hp_delim S_BODY = None"
| "hp_delim S_DONE = None"

lemmas hp_handler_defs = parseMethod_def hp_parseURI_def parseRequestVersion_def
  parseResponseVersion_def parseResponseStatusCode_def parseResponseStatusName_def parseHeader_def

lemma readUntil_found:
  "d \<in> set a \<Longrightarrow> \<exists>r p'. readUntil d a p = (True, d # r, p') \<and> readUntil d (a @ b) p = (True, d # r @ b, p') \<and>
     length r < length a"
proof -
  assume "d \<in> set a"
  then obtain x y where a: "a = x @ d # y" "d \<notin> set x" by (meson split_list_first)
  then have "list_all (\<lambda>c. c \<noteq> d) x" by (auto simp: list_all_iff)
  note sp = span_append [OF this, of "d # y"] span_append [OF this, of "d # y @ b"]
  from a sp show ?thesis by (auto simp: readUntil_def Let_def)
qed

lemma readUntil_not_found:
  assumes "d \<notin> set a"
  shows "readUntil d a p = (False, [], p\<lparr>hp_buf := hp_buf p @ a\<rparr>)"
    and "readUntil d b (p\<lparr>hp_buf := hp_buf p @ a\<rparr>) = readUntil d (a @ b) p"
proof -
  have all: "list_all (\<lambda>c. c \<noteq> d) a" using assms by (auto simp: list_all_iff)
  show "readUntil d a p = (False, [], p\<lparr>hp_buf := hp_buf p @ a\<rparr>)"
    by (simp only: readUntil_def Let_def span_all [OF all]) simp
  have "takeWhile (\<lambda>c. c \<noteq> d) (a @ b) = a @ takeWhile (\<lambda>c. c \<noteq> d) b"
    using assms by (induction a) auto
  moreover have "dropWhile (\<lambda>c. c \<noteq> d) (a @ b) = dropWhile (\<lambda>c. c \<noteq> d) b"
    using assms by (induction a) auto
  ultimately show "readUntil d b (p\<lparr>hp_buf := hp_buf p @ a\<rparr>) = readUntil d (a @ b) p"
    by (simp add: readUntil_def Let_def)
qed

lemma check_size_Inr: "check_size n rp = Inr rp' \<Longrightarrow> rp' = rp"
  by (auto simp: check_size_def split: if_splits)

text \<open>A step that finds its delimiter depends only on the data up to it.\<close>

lemma hp_step_found:
  assumes "hp_delim (hp_state p) = Some d" "d \<in> set a" "hp_step a p = Inr (r, p')"
  shows "hp_step (a @ b) p = Inr (r @ b, p') \<and> length r < length a"
proof -
  obtain q p1 where q: "readUntil d a p = (True, d # q, p1)" "readUntil d (a @ b) p = (True, d # q @ b, p1)"
    "length q < length a" using readUntil_found [OF assms(2)] by blast
  show ?thesis
    using assms(1,3) q
    by (cases "hp_state p")
       (auto simp: hp_step_def hp_handler_defs Let_def bindE_eq_Inr check_size_def
         split: if_splits option.splits sum.splits)
qed

lemma hp_step_not_found:
  assumes "hp_delim (hp_state p) = Some d" "d \<notin> set a" "hp_step a p = Inr (r, p')"
  shows "r = [] \<and> p' = p\<lparr>hp_buf := hp_buf p @ a\<rparr> \<and> hp_step b p' = hp_step (a @ b) p"
proof -
  note nf = readUntil_not_found [OF assms(2)]
  have "r = [] \<and> p' = p\<lparr>hp_buf := hp_buf p @ a\<rparr>"
    using assms(1,3) nf(1)
    by (cases "hp_state p") (auto simp: hp_step_def hp_handler_defs dest!: check_size_Inr)
  moreover have "hp_step b (p\<lparr>hp_buf := hp_buf p @ a\<rparr>) = hp_step (a @ b) p"
    using assms(1) nf(2) [of b p]
    by (cases "hp_state p") (auto simp: hp_step_def hp_handler_defs)
  ultimately show ?thesis by simp
qed

lemma hp_step_body:
  assumes "hp_delim (hp_state p) = None" "hp_step a p = Inr (r, p')"
  shows "r = [] \<and> readBody a p = Inr ([], p') \<and> (hp_state p = S_DONE \<longrightarrow> hp_mode p \<noteq> PARSE_HTTP_REQUEST)"
  using assms by (cases "hp_state p") (auto simp: hp_step_def readBody_def Let_def split: if_splits)

lemma hp_step_shrinks: "hp_step a p = Inr (r, p') \<Longrightarrow> a \<noteq> [] \<Longrightarrow> length r < length a"
  using hp_step_found [of p _ a r p' "[]"] hp_step_not_found [of p _ a r p'] hp_step_body [of p a r p']
  by (cases "hp_delim (hp_state p)") (auto, metis length_greater_0_conv list.size(3))

lemma hp_step_mode: "hp_step a p = Inr (r, p') \<Longrightarrow> hp_mode p' = hp_mode p"
  by (cases "hp_state p")
     (auto simp: hp_step_def hp_handler_defs readBody_def Let_def bindE_eq_Inr check_size_def emit_def
       readUntil_def processHeader_def split: if_splits option.splits sum.splits)

text \<open>\<open>HTTPParser::parse\<close>: every step consumes data, so the loop ends.\<close>

function hp_parse :: "string \<Rightarrow> http_parser \<Rightarrow> http_parser result" where
  "hp_parse data p =
     (if data = [] then Inr p
      else case hp_step data p of Inl e \<Rightarrow> Inl e | Inr (r, p') \<Rightarrow> hp_parse r p')"
  by pat_completeness auto
termination
  by (relation "measure (\<lambda>(data, p). length data)") (auto intro: hp_step_shrinks)

declare hp_parse.simps [simp del]

lemma hp_parse_Nil [simp]: "hp_parse [] p = Inr p"
  by (simp add: hp_parse.simps)

definition hp_eof :: "http_parser \<Rightarrow> http_parser result" where
  "hp_eof p =
     (if hp_state p = S_DONE then Inr p
      else if hp_expected p \<noteq> -1 \<and> hp_read p < hp_expected p then Inl kParseError
      else Inr (p\<lparr>hp_state := S_DONE\<rparr>))"

section \<open>Chunk independence\<close>

text \<open>What an owner of the parser sees: the calls other than body chunks, and the body.\<close>

fun body_of :: "http_event \<Rightarrow> string" where
  "body_of (OnBodyChunk b) = b"
| "body_of _ = []"

definition is_body :: "http_event \<Rightarrow> bool" where
  "is_body e = (case e of OnBodyChunk _ \<Rightarrow> True | _ \<Rightarrow> False)"

definition observe :: "http_event list \<Rightarrow> http_event list \<times> string" where
  "observe es = (filter (\<lambda>e. \<not> is_body e) es, concat (map body_of es))"

definition hp_equiv :: "http_parser \<Rightarrow> http_parser \<Rightarrow> bool" where
  "hp_equiv p q \<longleftrightarrow> p\<lparr>hp_events := []\<rparr> = q\<lparr>hp_events := []\<rparr> \<and> observe (hp_events p) = observe (hp_events q)"

lemma hp_equiv_refl [simp]: "hp_equiv p p"
  by (simp add: hp_equiv_def)

lemma hp_equiv_trans: "hp_equiv p q \<Longrightarrow> hp_equiv q r \<Longrightarrow> hp_equiv p r"
  by (simp add: hp_equiv_def)

lemma hp_parse_step:
  "a \<noteq> [] \<Longrightarrow> hp_step a p = Inr (r, p') \<Longrightarrow> hp_parse a p = hp_parse r p'"
  by (subst hp_parse.simps) simp

lemma readBody_twice:
  assumes "readBody a p = Inr ([], p1)" "hp_state p1 \<noteq> S_DONE" "readBody b p1 = Inr ([], p2)"
  shows "\<exists>p2'. readBody (a @ b) p = Inr ([], p2') \<and> hp_equiv p2' p2"
  using assms
  by (auto simp: readBody_def Let_def emit_def hp_equiv_def observe_def is_body_def add.assoc
      split: if_splits)

text \<open>
  Parsing two pieces one after the other, when no exception is raised, is parsing them at once.
\<close>

lemma hp_parse_append_body:
  assumes "hp_delim (hp_state p) = None" "hp_step a p = Inr (r, p1)" "a \<noteq> []" "b \<noteq> []"
    "hp_state p1 \<noteq> S_DONE" "hp_parse b p1 = Inr p2"
  shows "\<exists>p2'. hp_parse (a @ b) p = Inr p2' \<and> hp_equiv p2' p2"
proof -
  note e = hp_step_body [OF assms(1,2)]
  have st: "hp_state p = S_BODY" "hp_state p1 = S_BODY"
    using e assms(1,5) by (cases "hp_state p"; auto simp: readBody_def Let_def emit_def split: if_splits)+
  obtain r' p3 where st': "hp_step b p1 = Inr (r', p3)" and rest': "hp_parse r' p3 = Inr p2"
    using assms(4,6) by (subst (asm) hp_parse.simps) (auto split: sum.splits)
  have "hp_delim (hp_state p1) = None" using st by simp
  note e' = hp_step_body [OF this st']
  then have "p3 = p2" using rest' by simp
  then obtain p2' where p2': "readBody (a @ b) p = Inr ([], p2')" "hp_equiv p2' p2"
    using readBody_twice [of a p p1 b p2] e e' assms(5) by auto
  then have "hp_step (a @ b) p = Inr ([], p2')" using st by (simp add: hp_step_def)
  then show ?thesis using p2'(2) assms(3) by (auto simp: hp_parse_step [of "a @ b"])
qed

lemma hp_parse_append_open:
  "hp_parse a p = Inr p1 \<Longrightarrow> hp_state p1 \<noteq> S_DONE \<or> b = [] \<Longrightarrow> hp_parse b p1 = Inr p2 \<Longrightarrow>
   \<exists>p2'. hp_parse (a @ b) p = Inr p2' \<and> hp_equiv p2' p2"
proof (induction a p arbitrary: p1 p2 rule: hp_parse.induct)
  case (1 a p)
  show ?case
  proof (cases "a = [] \<or> b = []")
    case True
    then show ?thesis using "1.prems" by auto
  next
    case False
    then have ne: "a \<noteq> []" "b \<noteq> []" by auto
    obtain r p' where st: "hp_step a p = Inr (r, p')" and rest: "hp_parse r p' = Inr p1"
      using "1.prems"(1) ne by (subst (asm) hp_parse.simps) (auto split: sum.splits)
    show ?thesis
    proof (cases "hp_delim (hp_state p)")
      case None
      then have "p1 = p'" using hp_step_body [OF None st] rest by simp
      then show ?thesis using hp_parse_append_body [OF None _ ne] st "1.prems"(2,3) ne by auto
    next
      case (Some d)
      show ?thesis
      proof (cases "d \<in> set a")
        case True
        from hp_step_found [OF Some this st] have "hp_step (a @ b) p = Inr (r @ b, p')" by blast
        then have "hp_parse (a @ b) p = hp_parse (r @ b) p'" using ne by (intro hp_parse_step) auto
        with "1.IH" [OF ne(1) st refl rest "1.prems"(2,3)] show ?thesis by simp
      next
        case nf: False
        note e = hp_step_not_found [OF Some nf st, of b]
        then have "p1 = p'" using rest by simp
        with e "1.prems"(3) ne show ?thesis
          by (auto simp: hp_parse.simps [of b] hp_parse.simps [of "a @ b"] hp_parse_step [OF ne(1) st])
      qed
    qed
  qed
qed

text \<open>A request parser accepts nothing after the end of its message.\<close>

lemma hp_parse_mode: "hp_parse a p = Inr p' \<Longrightarrow> hp_mode p' = hp_mode p"
proof (induction a p rule: hp_parse.induct)
  case (1 a p)
  then show ?case
    by (simp add: hp_parse.simps [of a p] split: if_splits sum.splits prod.splits)
       (metis hp_step_mode)
qed

lemma hp_step_done:
  "hp_mode p = PARSE_HTTP_REQUEST \<Longrightarrow> hp_state p = S_DONE \<Longrightarrow> hp_step a p = Inl kParseError"
  by (simp add: hp_step_def)

lemma hp_parse_append:
  assumes "hp_mode p = PARSE_HTTP_REQUEST" "hp_parse a p = Inr p1" "hp_parse b p1 = Inr p2"
  shows "\<exists>p2'. hp_parse (a @ b) p = Inr p2' \<and> hp_equiv p2' p2"
proof (rule hp_parse_append_open [OF assms(2) _ assms(3)])
  show "hp_state p1 \<noteq> S_DONE \<or> b = []"
    using assms(1,3) hp_parse_mode [OF assms(2)] hp_step_done [of p1 b] by (auto simp: hp_parse.simps [of b] split: if_splits)
qed

fun hp_parse_chunks :: "string list \<Rightarrow> http_parser \<Rightarrow> http_parser result" where
  "hp_parse_chunks [] p = Inr p"
| "hp_parse_chunks (c # cs) p = bindE (hp_parse c p) (hp_parse_chunks cs)"

lemma hp_parse_chunks_concat:
  "hp_mode p = PARSE_HTTP_REQUEST \<Longrightarrow> hp_parse_chunks cs p = Inr q \<Longrightarrow>
   \<exists>q'. hp_parse (concat cs) p = Inr q' \<and> hp_equiv q' q"
proof (induction cs arbitrary: p)
  case Nil
  then show ?case by simp
next
  case (Cons c cs)
  then obtain p1 where p1: "hp_parse c p = Inr p1" "hp_parse_chunks cs p1 = Inr q"
    by (auto simp: bindE_eq_Inr)
  then obtain q1 where "hp_parse (concat cs) p1 = Inr q1" "hp_equiv q1 q"
    using Cons.IH [of p1] hp_parse_mode [OF p1(1)] Cons.prems(1) by auto
  then show ?case
    using hp_parse_append [OF Cons.prems(1) p1(1)] hp_equiv_trans by fastforce
qed

subsection \<open>When a cut is accepted\<close>

text \<open>
  A piece that ends inside of a token is accepted only when the part of the token that has arrived is within a limit;
  a token that arrives whole is never too long. \<open>tokens_fit\<close> says that all tokens of a message are within their limits.
\<close>

fun hp_limit :: "kParserState \<Rightarrow> nat" where
  "hp_limit S_REQ_METHOD = kMaxMethodSize"
| "hp_limit S_REQ_URI = kMaxURISize"
| "hp_limit S_REQ_VERSION = kMaxVersionSize"
| "hp_limit S_RES_VERSION = kMaxVersionSize"
| "hp_limit S_RES_STATUS_CODE = kMaxURISize"
| "hp_limit S_RES_STATUS_NAME = kMaxVersionSize"
| "hp_limit S_HEADER = kMaxHeaderSize"
| "hp_limit st = 0"

definition token_fits :: "string \<Rightarrow> http_parser \<Rightarrow> bool" where
  "token_fits data p \<longleftrightarrow>
     (case hp_delim (hp_state p) of
        None \<Rightarrow> True
      | Some d \<Rightarrow> length (hp_buf p @ takeWhile (\<lambda>c. c \<noteq> d) data) \<le> hp_limit (hp_state p))"

function tokens_fit :: "string \<Rightarrow> http_parser \<Rightarrow> bool" where
  "tokens_fit data p =
     (if data = [] then True
      else token_fits data p \<and> (case hp_step data p of Inl e \<Rightarrow> True | Inr (r, p') \<Rightarrow> tokens_fit r p'))"
  by pat_completeness auto
termination
  by (relation "measure (\<lambda>(data, p). length data)") (auto intro: hp_step_shrinks)

declare tokens_fit.simps [simp del]

lemma tokens_fit_Nil [simp]: "tokens_fit [] p"
  by (simp add: tokens_fit.simps)

lemma tokens_fit_step:
  "a \<noteq> [] \<Longrightarrow> hp_step a p = Inr (r, p') \<Longrightarrow> tokens_fit a p \<longleftrightarrow> token_fits a p \<and> tokens_fit r p'"
  by (subst tokens_fit.simps) simp

lemma tokens_fit_line:
  assumes "hp_step (x @ d # r) p = Inr (r, p')" "hp_delim (hp_state p) = Some d" "hp_buf p = []"
    "list_all (\<lambda>c. c \<noteq> d) x" "length x \<le> hp_limit (hp_state p)"
  shows "tokens_fit (x @ d # r) p \<longleftrightarrow> tokens_fit r p'"
proof -
  have "takeWhile (\<lambda>c. c \<noteq> d) (x @ d # r) = x" using assms(4) by (induction x) auto
  then show ?thesis using tokens_fit_step [OF _ assms(1)] assms(2,3,5) by (simp add: token_fits_def)
qed

lemma tokens_fit_body: "hp_delim (hp_state p) = None \<Longrightarrow> tokens_fit b p"
  using hp_step_body [of p b] by (subst tokens_fit.simps) (auto simp: token_fits_def split: sum.splits)

lemma hp_step_found_converse:
  assumes "hp_delim (hp_state p) = Some d" "d \<in> set a" "hp_step (a @ b) p = Inr (r', p')"
  shows "\<exists>r. r' = r @ b \<and> hp_step a p = Inr (r, p') \<and> length r < length a"
proof -
  obtain q p1 where q: "readUntil d a p = (True, d # q, p1)" "readUntil d (a @ b) p = (True, d # q @ b, p1)"
    "length q < length a" using readUntil_found [OF assms(2)] by blast
  show ?thesis
    using assms(1,3) q
    by (cases "hp_state p")
       (auto simp: hp_step_def hp_handler_defs Let_def bindE_eq_Inr check_size_def
         split: if_splits option.splits sum.splits)
qed

lemma hp_step_cut:
  assumes "hp_delim (hp_state p) = Some d" "d \<notin> set a" "length (hp_buf p @ a) \<le> hp_limit (hp_state p)"
  shows "hp_step a p = Inr ([], p\<lparr>hp_buf := hp_buf p @ a\<rparr>) \<and> hp_step b (p\<lparr>hp_buf := hp_buf p @ a\<rparr>) = hp_step (a @ b) p"
proof -
  note nf = readUntil_not_found [OF assms(2)]
  have "hp_step a p = Inr ([], p\<lparr>hp_buf := hp_buf p @ a\<rparr>)"
    using assms(1,3) nf(1) by (cases "hp_state p") (auto simp: hp_step_def hp_handler_defs check_size_def)
  then show ?thesis using hp_step_not_found [OF assms(1,2), of "[]" "p\<lparr>hp_buf := hp_buf p @ a\<rparr>" b] by simp
qed

lemma hp_step_read: "hp_step a p = Inr (r, p') \<Longrightarrow> hp_delim (hp_state p) \<noteq> None \<Longrightarrow> hp_read p' = hp_read p"
  by (cases "hp_state p")
     (auto simp: hp_step_def hp_handler_defs Let_def bindE_eq_Inr check_size_def emit_def
       readUntil_def processHeader_def split: if_splits option.splits sum.splits)

text \<open>
  The first piece of an accepted message is accepted, and the rest after it, when the tokens fit and the body is not
  longer than the message announces.
\<close>

lemma hp_parse_split_body:
  assumes "hp_delim (hp_state p) = None" "a \<noteq> []" "b \<noteq> []" "hp_parse (a @ b) p = Inr q"
    "unat (hp_read p) + length (a @ b) < 2 ^ 64" "hp_read q \<le> hp_expected q"
  shows "\<exists>p1 q'. hp_parse a p = Inr p1 \<and> hp_parse b p1 = Inr q' \<and> hp_equiv q q' \<and>
    unat (hp_read p1) + length b < 2 ^ 64 \<and> tokens_fit b p1"
proof -
  have pb: "hp_parse x p' = readB" if "x \<noteq> []" "readB = (case readBody x p' of Inl e \<Rightarrow> Inl e | Inr rp \<Rightarrow> Inr (snd rp))"
    "hp_state p' = S_BODY \<or> hp_state p' = S_DONE \<and> hp_mode p' \<noteq> PARSE_HTTP_REQUEST" for x p' readB
    using that by (subst hp_parse.simps) (auto simp: hp_step_def readBody_def Let_def)
  have st: "hp_state p = S_BODY \<or> hp_state p = S_DONE \<and> hp_mode p \<noteq> PARSE_HTTP_REQUEST"
    using assms(1,2,4) by (cases "hp_state p") (auto simp: hp_parse.simps [of "a @ b"] hp_step_def split: if_splits)
  let ?n = "\<lambda>x. word_of_nat (length x) :: u64"
  have q: "q = (let p1 = p\<lparr>hp_read := hp_read p + ?n (a @ b)\<rparr>;
      p1 = (if hp_read p1 = hp_expected p1 then p1\<lparr>hp_state := S_DONE\<rparr> else p1) in emit (OnBodyChunk (a @ b)) p1)"
    using assms(2,4) pb [OF _ refl st, of "a @ b"] by (simp add: readBody_def Let_def)
  have e: "hp_expected q = hp_expected p" "hp_read q = hp_read p + ?n (a @ b)"
    using q by (auto simp: emit_def Let_def split: if_splits)
  have ua: "unat (hp_read p + ?n a) = unat (hp_read p) + length a" if "length a \<le> length (a @ b)"
    using assms(5) by (simp add: unat_word_ariths unat_of_nat)
  have uab: "unat (hp_read q) = unat (hp_read p) + length (a @ b)"
    using assms(5) e(2) by (simp add: unat_word_ariths unat_of_nat)
  have "hp_read p + ?n a < hp_read q" using ua uab assms(3) by (simp add: word_less_nat_alt)
  then have ne: "hp_read p + ?n a \<noteq> hp_expected p" using assms(6) e(1) by auto
  let ?p1 = "emit (OnBodyChunk a) (p\<lparr>hp_read := hp_read p + ?n a\<rparr>)"
  have "hp_parse a p = Inr ?p1" using pb [OF assms(2) refl st] ne by (simp add: readBody_def Let_def)
  moreover have "hp_state ?p1 = S_BODY \<or> hp_state ?p1 = S_DONE \<and> hp_mode ?p1 \<noteq> PARSE_HTTP_REQUEST"
    using st by (simp add: emit_def)
  from pb [OF assms(3) refl this] obtain q' where "hp_parse b ?p1 = Inr q'" "hp_equiv q q'"
    using q by (simp add: readBody_def Let_def emit_def hp_equiv_def observe_def is_body_def add.assoc)
  moreover have "tokens_fit b ?p1"
    using assms(1,3) hp_step_body [of ?p1 b]
    by (subst tokens_fit.simps) (auto simp: token_fits_def emit_def split: sum.splits)
  ultimately show ?thesis using ua assms(5) by (auto simp: emit_def)
qed

lemma hp_parse_split:
  "hp_parse (a @ b) p = Inr q \<Longrightarrow> tokens_fit (a @ b) p \<Longrightarrow> unat (hp_read p) + length (a @ b) < 2 ^ 64 \<Longrightarrow>
   hp_read q \<le> hp_expected q \<Longrightarrow>
   \<exists>p1 q'. hp_parse a p = Inr p1 \<and> hp_parse b p1 = Inr q' \<and> hp_equiv q q' \<and>
     unat (hp_read p1) + length b < 2 ^ 64 \<and> tokens_fit b p1"
proof (induction a p rule: hp_parse.induct)
  case (1 a p)
  show ?case
  proof (cases "a = [] \<or> b = []")
    case True
    then show ?thesis
    proof
      assume "b = []"
      moreover have "unat (hp_read q) < 2 ^ 64" using unsigned_less [of "hp_read q", where ?'a = nat] by simp
      ultimately show ?thesis using "1.prems" by simp
    qed (use "1.prems" in auto)
  next
    case False
    then have ne: "a \<noteq> []" "b \<noteq> []" by auto
    obtain r' p' where st: "hp_step (a @ b) p = Inr (r', p')" and rest: "hp_parse r' p' = Inr q"
      using "1.prems"(1) ne by (subst (asm) hp_parse.simps) (auto split: sum.splits)
    have fit: "token_fits (a @ b) p" "tokens_fit r' p'" using "1.prems"(2) tokens_fit_step [OF _ st] ne by auto
    show ?thesis
    proof (cases "hp_delim (hp_state p)")
      case None
      from hp_parse_split_body [OF this ne "1.prems"(1,3,4)] show ?thesis .
    next
      case (Some d)
      show ?thesis
      proof (cases "d \<in> set a")
        case True
        from hp_step_found_converse [OF Some this st] obtain r where r: "r' = r @ b" "hp_step a p = Inr (r, p')"
          "length r < length a" by blast
        moreover have "hp_read p' = hp_read p" using hp_step_read [OF st] Some by simp
        moreover have "hp_parse a p = hp_parse r p'" using r(2) ne by (intro hp_parse_step)
        ultimately show ?thesis using "1.IH" [OF ne(1) r(2) refl] rest fit(2) "1.prems"(3,4) by simp
      next
        case nf: False
        have tw: "takeWhile (\<lambda>c. c \<noteq> d) (a @ b) = a @ takeWhile (\<lambda>c. c \<noteq> d) b" using nf by (induction a) auto
        then have "length (hp_buf p @ a) \<le> hp_limit (hp_state p)" using fit(1) Some by (simp add: token_fits_def)
        note cut = hp_step_cut [OF Some nf this, of b]
        let ?p1 = "p\<lparr>hp_buf := hp_buf p @ a\<rparr>"
        have "hp_parse a p = Inr ?p1" using cut ne by (simp add: hp_parse_step)
        moreover have "hp_parse b ?p1 = Inr q" using cut st rest ne by (simp add: hp_parse_step)
        moreover have "tokens_fit b ?p1"
          using cut st fit ne tw Some by (simp add: tokens_fit_step [of b ?p1 r' p'] token_fits_def)
        ultimately show ?thesis using "1.prems"(3) by auto
      qed
    qed
  qed
qed

lemma hp_equiv_read: "hp_equiv p q \<Longrightarrow> hp_read p = hp_read q \<and> hp_expected p = hp_expected q"
  by (cases p; cases q) (auto simp: hp_equiv_def)

lemma hp_parse_chunks_split:
  "hp_parse (concat cs) p = Inr q \<Longrightarrow> tokens_fit (concat cs) p \<Longrightarrow> unat (hp_read p) + length (concat cs) < 2 ^ 64 \<Longrightarrow>
   hp_read q \<le> hp_expected q \<Longrightarrow> \<exists>q'. hp_parse_chunks cs p = Inr q' \<and> hp_equiv q q'"
proof (induction cs arbitrary: p q)
  case (Cons c cs)
  from hp_parse_split [of c "concat cs" p q] Cons.prems obtain p1 q1 where
    p1: "hp_parse c p = Inr p1" "hp_parse (concat cs) p1 = Inr q1" "hp_equiv q q1"
    "unat (hp_read p1) + length (concat cs) < 2 ^ 64" "tokens_fit (concat cs) p1" by auto
  have "hp_read q1 \<le> hp_expected q1"
    using Cons.prems(4) hp_equiv_read [OF p1(3)] by simp
  from Cons.IH [OF p1(2,5,4) this] p1(1,3) show ?case by (auto intro: hp_equiv_trans)
qed simp

section \<open>Requests and responses from the parser\<close>

text \<open>The callbacks \<open>HTTPRequest::parse\<close> and \<open>HTTPResponse::parse\<close> register.\<close>

fun req_event :: "http_event \<Rightarrow> http_request \<Rightarrow> http_request" where
  "req_event (OnMethod m) r = r\<lparr>req_method := m\<rparr>"
| "req_event (OnURI u) r = r\<lparr>req_url := u\<rparr>"
| "req_event (OnVersion v) r = r\<lparr>hm_version := v\<rparr>"
| "req_event (OnHeader k v) r = addHeader k v r"
| "req_event (OnBodyChunk b) r = appendBody b r"
| "req_event _ r = r"

definition req_empty :: http_request where
  "req_empty = \<lparr>hm_version = [], hm_headers = [], hm_body = [], req_method = M_GET, req_url = []\<rparr>"

definition req_new :: "kHTTPMethod \<Rightarrow> string \<Rightarrow> http_request" where
  "req_new m u =
     \<lparr>hm_version = ''HTTP/1.1'', hm_headers = [], hm_body = [], req_method = m, req_url = u\<rparr>"

definition HTTPRequest_parse :: "string \<Rightarrow> http_request result" where
  "HTTPRequest_parse str =
     bindE (hp_parse str ((hp_new PARSE_HTTP_REQUEST)\<lparr>hp_method_cb := True\<rparr>)) (\<lambda>p.
     bindE (hp_eof p) (\<lambda>p.
       if hp_state p \<noteq> S_DONE then Inl kRuntimeError
       else Inr (fold req_event (hp_events p) req_empty)))"

fun res_event :: "http_event \<Rightarrow> http_response \<Rightarrow> http_response" where
  "res_event (OnVersion v) r = r\<lparr>hm_version := v\<rparr>"
| "res_event (OnStatusName n) r = r\<lparr>res_status := n\<rparr>"
| "res_event (OnStatusCode c) r = r\<lparr>res_code := c\<rparr>"
| "res_event (OnHeader k v) r = addHeader k v r"
| "res_event (OnBodyChunk b) r = appendBody b r"
| "res_event _ r = r"

definition res_new :: http_response where
  "res_new = \<lparr>hm_version = [], hm_headers = [], hm_body = [], res_code = 404, res_status = ''Not found''\<rparr>"

definition HTTPResponse_parse :: "string \<Rightarrow> http_response result" where
  "HTTPResponse_parse str =
     bindE (hp_parse str (hp_new PARSE_HTTP_RESPONSE)) (\<lambda>p.
     bindE (hp_eof p) (\<lambda>p.
       if hp_state p \<noteq> S_DONE then Inl kRuntimeError
       else Inr (fold res_event (hp_events p) res_new)))"

definition keepalive :: "http_request \<Rightarrow> bool" where
  "keepalive r =
     (if getHeader ''Connection'' r = ''keep-alive'' then True
      else if getHeader ''Connection'' r = ''close'' then False
      else hm_version r = ''HTTP/1.1'')"

definition req_cookies :: "http_request \<Rightarrow> param_list result" where
  "req_cookies r = parseCookieHeader (getHeader ''Cookie'' r)"

fun set_headers :: "header_list \<Rightarrow> 'a http_message_scheme \<Rightarrow> 'a http_message_scheme" where
  "set_headers [] m = m"
| "set_headers ((k, v) # hs) m = set_headers hs (setHeader k v m)"

definition mkGet :: "uri \<Rightarrow> header_list \<Rightarrow> http_request option" where
  "mkGet u hs =
     Option.bind (pathAndQuery u) (\<lambda>pq. Option.bind (hostAndPort u) (\<lambda>hp.
       Some (set_headers hs (addHeader ''Host'' hp (req_new M_GET pq)))))"

definition mkPost :: "uri \<Rightarrow> string \<Rightarrow> header_list \<Rightarrow> http_request option" where
  "mkPost u data hs =
     Option.bind (pathAndQuery u) (\<lambda>pq. Option.bind (hostAndPort u) (\<lambda>hp.
       Some (addBody data (set_headers hs (addHeader ''Host'' hp (req_new M_POST pq))))))"

definition setStatus :: "int \<Rightarrow> string \<Rightarrow> http_response \<Rightarrow> http_response" where
  "setStatus c n r = r\<lparr>res_code := c, res_status := n\<rparr>"

definition addCookie ::
  "(u64 \<Rightarrow> string) \<Rightarrow> string \<Rightarrow> string \<Rightarrow> u64 \<Rightarrow> string \<Rightarrow> string \<Rightarrow> bool \<Rightarrow> bool \<Rightarrow>
   http_response \<Rightarrow> http_response option" where
  "addCookie fmt_time key val expire cpath domain secure httponly r =
     map_option (\<lambda>c. setHeader ''Set-Cookie'' c r)
       (mkCookie fmt_time key val expire cpath domain secure httponly)"

definition populateFromRequest :: "http_request \<Rightarrow> http_response \<Rightarrow> http_response" where
  "populateFromRequest req r =
     (let r = r\<lparr>hm_version := hm_version req\<rparr>
      in if hm_version req = ''HTTP/1.0''
         then (if keepalive req then addHeader ''Connection'' ''keep-alive'' r
               else addHeader ''Connection'' ''close'' r)
         else r)"

text \<open>A message built by callbacks depends on the events only through what is observed of them.\<close>

lemma fold_event_observe:
  fixes f :: "http_event \<Rightarrow> 'a http_message_scheme \<Rightarrow> 'a http_message_scheme"
  assumes other: "\<And>e b r. \<not> is_body e \<Longrightarrow> appendBody b (f e r) = f e (appendBody b r)"
    and body: "\<And>b r. f (OnBodyChunk b) r = appendBody b r"
  shows "fold f es r = appendBody (snd (observe es)) (fold f (fst (observe es)) r)"
proof (induction es arbitrary: r)
  case (Cons e es)
  have "appendBody b (fold f (filter (\<lambda>e. \<not> is_body e) es) r) =
      fold f (filter (\<lambda>e. \<not> is_body e) es) (appendBody b r)" for b r
    by (induction es arbitrary: r) (simp_all add: other)
  then show ?case
    using Cons by (cases e) (simp_all add: observe_def is_body_def appendBody_def body)
qed (simp add: observe_def appendBody_def)

section \<open>HTTPGenerator\<close>

abbreviation crlf :: string where
  "crlf \<equiv> [CHR 0x0D, CHR 0x0A]"

definition write_fmt :: "'o byte_writer \<Rightarrow> string \<Rightarrow> string list \<Rightarrow> 'o \<Rightarrow> 'o comp" where
  "write_fmt put fmt args out = Option.bind (formatv fmt args) (\<lambda>s. os_write_string put s out)"

fun write_headers :: "'o byte_writer \<Rightarrow> header_list \<Rightarrow> 'o \<Rightarrow> 'o comp" where
  "write_headers put [] out = ret out"
| "write_headers put ((k, v) # hs) out =
     bindC (write_fmt put (''$0: $1'' @ crlf) [k, v] out) (write_headers put hs)"

definition generate_request :: "'o byte_writer \<Rightarrow> http_request \<Rightarrow> 'o \<Rightarrow> 'o comp" where
  "generate_request put req out =
     bindC (write_fmt put (''$0 $1 $2'' @ crlf)
              [method_toString (req_method req), req_url req, hm_version req] out) (\<lambda>out.
     bindC (write_headers put (hm_headers req) out) (\<lambda>out.
     bindC (if length (hm_body req) > 0 \<and> \<not> hasHeader ''Content-Length'' req
            then write_fmt put (''Content-Length: $0'' @ crlf) [to_string (length (hm_body req))] out
            else ret out) (\<lambda>out.
     bindC (os_write_string put crlf out) (\<lambda>out.
       if length (hm_body req) > 0 then os_write_string put (hm_body req) out else ret out))))"

definition int_to_string :: "int \<Rightarrow> string" where
  "int_to_string i = (if i < 0 then CHR ''-'' # to_string (nat (- i)) else to_string (nat i))"

definition generate_response :: "'o byte_writer \<Rightarrow> http_response \<Rightarrow> 'o \<Rightarrow> 'o comp" where
  "generate_response put res out =
     (if length (hm_version res) < 4 then raise kRuntimeError
      else
        bindC (write_fmt put (''$0 $1 $2'' @ crlf)
                 [hm_version res, int_to_string (res_code res), res_status res] out) (\<lambda>out.
        bindC (write_headers put (hm_headers res) out) (\<lambda>out.
        bindC (os_write_string put crlf out) (\<lambda>out.
          if length (hm_body res) > 0 then os_write_string put (hm_body res) out else ret out))))"

section \<open>Parsing a generated request\<close>

lemma to_string_012: "to_string 0 = ''0''" "to_string (Suc 0) = ''1''" "to_string (Suc (Suc 0)) = ''2''"
  by (simp_all add: to_string_small digit_char_def flip: code_inject)

lemma replace_spec_find_None: "find_sub pat s = None \<Longrightarrow> replace_spec pat r s = s"
  by (subst replace_spec.simps) simp

lemma format_line:
  assumes "CHR ''$'' \<notin> set a" "CHR ''$'' \<notin> set b" "CHR ''$'' \<notin> set c"
  shows "formatv (''$0 $1 $2'' @ crlf) [a, b, c] = Some (a @ '' '' @ b @ '' '' @ c @ crlf)"
proof -
  have sp: "CHR ''$'' \<notin> set '' ''" by simp
  have "replace_spec ''$0'' a (''$0 $1 $2'' @ crlf) = a @ '' $1 $2'' @ crlf"
    using replace_spec_here [of "CHR ''$''" "''0''" a "'' $1 $2'' @ crlf"]
    by (simp add: replace_spec_find_None)
  moreover have "replace_spec ''$1'' b (a @ '' $1 $2'' @ crlf) = a @ '' '' @ b @ '' $2'' @ crlf"
    using replace_spec_skip [OF assms(1), of "''1''" b "'' $1 $2'' @ crlf"]
      replace_spec_skip [OF sp, of "''1''" b "''$1 $2'' @ crlf"]
      replace_spec_here [of "CHR ''$''" "''1''" b "'' $2'' @ crlf"]
    by (simp add: replace_spec_find_None)
  moreover have "replace_spec ''$2'' c (a @ '' '' @ b @ '' $2'' @ crlf) = a @ '' '' @ b @ '' '' @ c @ crlf"
    using replace_spec_skip [OF assms(1), of "''2''" c "'' '' @ b @ '' $2'' @ crlf"]
      replace_spec_skip [OF sp, of "''2''" c "b @ '' $2'' @ crlf"]
      replace_spec_skip [OF assms(2), of "''2''" c "'' $2'' @ crlf"]
      replace_spec_skip [OF sp, of "''2''" c "''$2'' @ crlf"]
      replace_spec_here [of "CHR ''$''" "''2''" c "crlf"]
    by (simp add: replace_spec_find_None)
  ultimately show ?thesis
    by (simp add: formatv_def to_string_012 replaceAll_eq)
qed

lemma format_header:
  assumes "CHR ''$'' \<notin> set a" "CHR ''$'' \<notin> set b"
  shows "formatv (''$0: $1'' @ crlf) [a, b] = Some (a @ '': '' @ b @ crlf)"
proof -
  have sp: "CHR ''$'' \<notin> set '': ''" by simp
  have "replace_spec ''$0'' a (''$0: $1'' @ crlf) = a @ '': $1'' @ crlf"
    using replace_spec_here [of "CHR ''$''" "''0''" a "'': $1'' @ crlf"]
    by (simp add: replace_spec_find_None)
  moreover have "replace_spec ''$1'' b (a @ '': $1'' @ crlf) = a @ '': '' @ b @ crlf"
    using replace_spec_skip [OF assms(1), of "''1''" b "'': $1'' @ crlf"]
      replace_spec_skip [OF sp, of "''1''" b "''$1'' @ crlf"]
      replace_spec_here [of "CHR ''$''" "''1''" b "crlf"]
    by (simp add: replace_spec_find_None)
  ultimately show ?thesis
    by (simp add: formatv_def to_string_012 replaceAll_eq)
qed

lemma format_content_length:
  "formatv (''Content-Length: $0'' @ crlf) [a] = Some (''Content-Length: '' @ a @ crlf)"
proof -
  have sp: "CHR ''$'' \<notin> set ''Content-Length: ''" by simp
  have "replace_spec ''$0'' a (''Content-Length: $0'' @ crlf) = ''Content-Length: '' @ a @ crlf"
    using replace_spec_skip [OF sp, of "''0''" a "''$0'' @ crlf"]
      replace_spec_here [of "CHR ''$''" "''0''" a "crlf"]
    by (simp add: replace_spec_find_None)
  then show ?thesis by (simp add: formatv_def to_string_012 replaceAll_eq)
qed

definition header_wf :: "string \<times> string \<Rightarrow> bool" where
  "header_wf h =
     (let (k, v) = h
      in toLower k = k \<and> k \<noteq> ''content-length'' \<and>
         list_all (\<lambda>c. c \<noteq> CHR ''$'' \<and> c \<noteq> CHR '':'' \<and> c \<noteq> CHR 0x0A) k \<and>
         list_all (\<lambda>c. c \<noteq> CHR ''$'' \<and> c \<noteq> CHR 0x0A) v \<and>
         (v \<noteq> [] \<longrightarrow> hd v \<noteq> CHR '' '' \<and> last v \<noteq> CHR 0x0D))"

definition request_wf :: "http_request \<Rightarrow> bool" where
  "request_wf r \<longleftrightarrow>
     list_all (\<lambda>c. c \<noteq> CHR ''$'' \<and> c \<noteq> CHR '' '') (req_url r) \<and>
     list_all (\<lambda>c. c \<noteq> CHR ''$'' \<and> c \<noteq> CHR 0x0A) (hm_version r) \<and>
     (hm_version r \<noteq> [] \<longrightarrow> last (hm_version r) \<noteq> CHR 0x0D) \<and>
     list_all header_wf (hm_headers r) \<and> length (hm_body r) < 2 ^ 64"

fun headers_text :: "header_list \<Rightarrow> string" where
  "headers_text [] = []"
| "headers_text ((k, v) # hs) = k @ '': '' @ v @ crlf @ headers_text hs"

definition content_length :: "string \<Rightarrow> header_list" where
  "content_length b = (if b = [] then [] else [(''Content-Length'', to_string (length b))])"

definition request_text :: "http_request \<Rightarrow> string" where
  "request_text r =
     method_toString (req_method r) @ '' '' @ req_url r @ '' '' @ hm_version r @ crlf @
     headers_text (hm_headers r) @ headers_text (content_length (hm_body r)) @ crlf @ hm_body r"

lemma method_toString_chars: "c \<in> set (method_toString m) \<Longrightarrow> c \<noteq> CHR ''$'' \<and> c \<noteq> CHR '' ''"
  by (cases m) auto

lemma method_of_toString [simp]: "method_of (method_toString m) = Some m"
  by (cases m) auto

lemma hasHeader_wf: "list_all header_wf (hm_headers r) \<Longrightarrow> \<not> hasHeader ''Content-Length'' r"
proof -
  have "toLower ''Content-Length'' = ''content-length''"
    by (simp add: toLower_def tolower_def flip: code_inject)
  moreover have "list_all header_wf hs \<Longrightarrow> header_lookup ''content-length'' hs = None" for hs
    by (induction hs) (auto simp: header_wf_def)
  ultimately show "list_all header_wf (hm_headers r) \<Longrightarrow> \<not> hasHeader ''Content-Length'' r"
    by (simp add: hasHeader_def)
qed

context byte_sink
begin

lemma write_fmt_ok:
  "invar out \<Longrightarrow> formatv fmt args = Some s \<Longrightarrow>
   \<exists>out'. write_fmt put fmt args out = ret out' \<and> invar out' \<and> written out' = written out @ bytes_of s"
  by (simp add: write_fmt_def os_write_string_def put_ok)

lemma write_headers_ok:
  "invar out \<Longrightarrow> list_all header_wf hs \<Longrightarrow>
   \<exists>out'. write_headers put hs out = ret out' \<and> invar out' \<and> written out' = written out @ bytes_of (headers_text hs)"
proof (induction hs arbitrary: out)
  case (Cons h hs)
  obtain k v where h: "h = (k, v)" by fastforce
  then have "CHR ''$'' \<notin> set k" "CHR ''$'' \<notin> set v"
    using Cons.prems(2) by (auto simp: header_wf_def list_all_iff)
  from write_fmt_ok [OF Cons.prems(1) format_header [OF this]]
  obtain o1 where o1: "write_fmt put (''$0: $1'' @ crlf) [k, v] out = ret o1" "invar o1"
    "written o1 = written out @ bytes_of (k @ '': '' @ v @ crlf)" by blast
  with Cons.IH [OF o1(2)] Cons.prems(2) h show ?case by auto
qed simp

lemma generate_request_ok:
  assumes "invar out" "request_wf r"
  shows "\<exists>out'. generate_request put r out = ret out' \<and> invar out' \<and>
    written out' = written out @ bytes_of (request_text r)"
proof -
  have nd: "CHR ''$'' \<notin> set (method_toString (req_method r))" "CHR ''$'' \<notin> set (req_url r)"
    "CHR ''$'' \<notin> set (hm_version r)"
    using assms(2) method_toString_chars by (auto simp: request_wf_def list_all_iff)
  obtain o1 where o1: "write_fmt put (''$0 $1 $2'' @ crlf)
      [method_toString (req_method r), req_url r, hm_version r] out = ret o1" "invar o1"
    "written o1 = written out @
      bytes_of (method_toString (req_method r) @ '' '' @ req_url r @ '' '' @ hm_version r @ crlf)"
    using write_fmt_ok [OF assms(1) format_line [OF nd]] by blast
  obtain o2 where o2: "write_headers put (hm_headers r) o1 = ret o2" "invar o2"
    "written o2 = written o1 @ bytes_of (headers_text (hm_headers r))"
    using write_headers_ok [OF o1(2)] assms(2) by (auto simp: request_wf_def)
  have "\<exists>o3. (if length (hm_body r) > 0 \<and> \<not> hasHeader ''Content-Length'' r
      then write_fmt put (''Content-Length: $0'' @ crlf) [to_string (length (hm_body r))] o2
      else ret o2) = ret o3 \<and> invar o3 \<and>
      written o3 = written o2 @ bytes_of (headers_text (content_length (hm_body r)))"
    using write_fmt_ok [OF o2(2) format_content_length [of "to_string (length (hm_body r))"]]
      hasHeader_wf [of r] assms(2) o2(2)
    by (auto simp: content_length_def request_wf_def)
  then obtain o3 where o3: "(if length (hm_body r) > 0 \<and> \<not> hasHeader ''Content-Length'' r
      then write_fmt put (''Content-Length: $0'' @ crlf) [to_string (length (hm_body r))] o2
      else ret o2) = ret o3" "invar o3"
      "written o3 = written o2 @ bytes_of (headers_text (content_length (hm_body r)))" by blast
  obtain o4 where o4: "put (bytes_of crlf) o3 = ret o4" "invar o4" "written o4 = written o3 @ bytes_of crlf"
    using put_ok [OF o3(2)] by blast
  obtain o5 where o5: "put (bytes_of (hm_body r)) o4 = ret o5" "invar o5"
    "written o5 = written o4 @ bytes_of (hm_body r)" using put_ok [OF o4(2)] by blast
  show ?thesis
  proof (cases "hm_body r = []")
    case True
    then show ?thesis
      using o1 o2 o3 o4 by (auto simp: generate_request_def request_text_def os_write_string_def)
  next
    case False
    then show ?thesis
      using o1 o2 o3 o4 o5 by (auto simp: generate_request_def request_text_def os_write_string_def)
  qed
qed

end

subsection \<open>The lines of a request\<close>

lemma readUntil_append:
  "list_all (\<lambda>c. c \<noteq> d) x \<Longrightarrow>
   readUntil d (x @ d # r) p = (True, d # r, p\<lparr>hp_buf := hp_buf p @ x\<rparr>)"
  using span_append [of "\<lambda>c. c \<noteq> d" x "d # r"] by (simp add: readUntil_def)

lemma strip_cr_snoc: "strip_cr (x @ [CHR 0x0D]) = strip_cr x"
  by (simp add: strip_cr_def)

lemma strip_cr_id: "x = [] \<or> last x \<noteq> CHR 0x0D \<Longrightarrow> strip_cr x = x"
  by (cases x rule: rev_cases) (auto simp: strip_cr_def)

lemma hp_step_method_line:
  assumes "hp_state p = S_REQ_METHOD" "hp_method_cb p" "hp_buf p = []"
  shows "hp_step (method_toString m @ CHR '' '' # r) p =
      Inr (r, p\<lparr>hp_state := S_REQ_URI, hp_events := hp_events p @ [OnMethod m]\<rparr>)"
proof -
  have "list_all (\<lambda>c. c \<noteq> CHR '' '') (method_toString m)"
    using method_toString_chars by (auto simp: list_all_iff)
  note ru = readUntil_append [OF this, of r p]
  show ?thesis
    using assms by (simp add: hp_step_def parseMethod_def ru emit_def del: method_of.simps)
qed

lemma hp_parse_method_line:
  assumes "hp_state p = S_REQ_METHOD" "hp_method_cb p" "hp_buf p = []"
  shows "hp_parse (method_toString m @ CHR '' '' # r) p =
    hp_parse r (p\<lparr>hp_state := S_REQ_URI, hp_events := hp_events p @ [OnMethod m]\<rparr>)"
  by (rule hp_parse_step [OF _ hp_step_method_line [OF assms]]) simp

lemma hp_step_uri_line:
  assumes "hp_state p = S_REQ_URI" "hp_buf p = []" "list_all (\<lambda>c. c \<noteq> CHR '' '') u"
  shows "hp_step (u @ CHR '' '' # r) p =
      Inr (r, p\<lparr>hp_state := S_REQ_VERSION, hp_events := hp_events p @ [OnURI u]\<rparr>)"
proof -
  show ?thesis
    using assms by (simp add: hp_step_def hp_parseURI_def readUntil_append emit_def)
qed

lemma hp_parse_uri_line:
  assumes "hp_state p = S_REQ_URI" "hp_buf p = []" "list_all (\<lambda>c. c \<noteq> CHR '' '') u"
  shows "hp_parse (u @ CHR '' '' # r) p =
    hp_parse r (p\<lparr>hp_state := S_REQ_VERSION, hp_events := hp_events p @ [OnURI u]\<rparr>)"
  by (rule hp_parse_step [OF _ hp_step_uri_line [OF assms]]) simp

lemma hp_step_version_line:
  assumes "hp_state p = S_REQ_VERSION" "hp_buf p = []" "list_all (\<lambda>c. c \<noteq> CHR 0x0A) v"
    "v = [] \<or> last v \<noteq> CHR 0x0D"
  shows "hp_step (v @ crlf @ r) p =
      Inr (r, p\<lparr>hp_state := S_HEADER, hp_events := hp_events p @ [OnVersion v]\<rparr>)"
proof -
  have "list_all (\<lambda>c. c \<noteq> CHR 0x0A) (v @ [CHR 0x0D])" using assms(3) by simp
  note ru = readUntil_append [OF this, of r p]
  show ?thesis
    using assms ru
    by (simp add: hp_step_def parseRequestVersion_def emit_def strip_cr_snoc strip_cr_id)
qed

lemma hp_parse_version_line:
  assumes "hp_state p = S_REQ_VERSION" "hp_buf p = []" "list_all (\<lambda>c. c \<noteq> CHR 0x0A) v"
    "v = [] \<or> last v \<noteq> CHR 0x0D"
  shows "hp_parse (v @ crlf @ r) p =
    hp_parse r (p\<lparr>hp_state := S_HEADER, hp_events := hp_events p @ [OnVersion v]\<rparr>)"
  by (rule hp_parse_step [OF _ hp_step_version_line [OF assms]]) simp

lemma header_line_split:
  assumes "list_all (\<lambda>c. c \<noteq> CHR '':'') k" "v = [] \<or> hd v \<noteq> CHR '' ''"
  shows "takeWhile (\<lambda>c. c \<noteq> CHR '':'') (k @ '': '' @ v) = k"
    "dropWhile (\<lambda>c. c = CHR '' '') (drop (length k + 1) (k @ '': '' @ v)) = v"
proof -
  show "takeWhile (\<lambda>c. c \<noteq> CHR '':'') (k @ '': '' @ v) = k"
    using span_append(1) [OF assms(1), of "'': '' @ v"] by simp
  show "dropWhile (\<lambda>c. c = CHR '' '') (drop (length k + 1) (k @ '': '' @ v)) = v"
    using assms(2) by (cases v) auto
qed

lemma parseHeader_line:
  assumes "hp_buf p = []" "list_all (\<lambda>c. c \<noteq> CHR 0x0A) l" "strip_cr l = l" "CHR '':'' \<in> set l"
    and "k = takeWhile (\<lambda>c. c \<noteq> CHR '':'') l"
    and "v = dropWhile (\<lambda>c. c = CHR '' '') (drop (length k + 1) l)"
  shows "parseHeader ((l @ [CHR 0x0D]) @ CHR 0x0A # r) p =
    bindE (processHeader k v (p\<lparr>hp_buf := l\<rparr>)) (\<lambda>p. Inr (r, p\<lparr>hp_buf := [], hp_state := S_HEADER\<rparr>))"
proof -
  have "list_all (\<lambda>c. c \<noteq> CHR 0x0A) (l @ [CHR 0x0D])" using assms(2) by simp
  note ru = readUntil_append [OF this, of r p]
  have "l \<noteq> []" using assms(4) by auto
  then show ?thesis
    unfolding parseHeader_def ru using assms(1,3-6) by (simp add: strip_cr_snoc Let_def)
qed

lemma hp_step_header_line:
  assumes "hp_state p = S_HEADER" "hp_buf p = []"
    and "list_all (\<lambda>c. c \<noteq> CHR '':'' \<and> c \<noteq> CHR 0x0A) k" "list_all (\<lambda>c. c \<noteq> CHR 0x0A) v"
    and "v = [] \<or> hd v \<noteq> CHR '' '' \<and> last v \<noteq> CHR 0x0D"
    and "processHeader k v (p\<lparr>hp_buf := k @ '': '' @ v\<rparr>) = Inr q"
  shows "hp_step (k @ '': '' @ v @ crlf @ r) p = Inr (r, q\<lparr>hp_buf := [], hp_state := S_HEADER\<rparr>)"
proof -
  define l where "l = k @ '': '' @ v"
  have l: "list_all (\<lambda>c. c \<noteq> CHR 0x0A) l" "CHR '':'' \<in> set l" "strip_cr l = l"
  proof -
    show "list_all (\<lambda>c. c \<noteq> CHR 0x0A) l" using assms(3,4) by (auto simp: list_all_iff l_def)
    show "CHR '':'' \<in> set l" by (simp add: l_def)
    have "l = [] \<or> last l \<noteq> CHR 0x0D" using assms(5) by (cases "v = []") (simp_all add: l_def)
    then show "strip_cr l = l" by (rule strip_cr_id)
  qed
  have k: "list_all (\<lambda>c. c \<noteq> CHR '':'') k" using assms(3) by (auto simp: list_all_iff)
  have v: "v = [] \<or> hd v \<noteq> CHR '' ''" using assms(5) by blast
  have "k = takeWhile (\<lambda>c. c \<noteq> CHR '':'') l"
    "v = dropWhile (\<lambda>c. c = CHR '' '') (drop (length k + 1) l)"
    unfolding l_def
    by (rule header_line_split(1) [OF k v, symmetric], rule header_line_split(2) [OF k v, symmetric])
  from parseHeader_line [OF assms(2) l(1,3,2) this, of r]
  have "hp_step ((l @ [CHR 0x0D]) @ CHR 0x0A # r) p = Inr (r, q\<lparr>hp_buf := [], hp_state := S_HEADER\<rparr>)"
    using assms(1,6) by (simp add: hp_step_def l_def)
  then show ?thesis by (simp add: l_def)
qed

lemma hp_parse_header_line:
  assumes "hp_state p = S_HEADER" "hp_buf p = []"
    and "list_all (\<lambda>c. c \<noteq> CHR '':'' \<and> c \<noteq> CHR 0x0A) k" "list_all (\<lambda>c. c \<noteq> CHR 0x0A) v"
    and "v = [] \<or> hd v \<noteq> CHR '' '' \<and> last v \<noteq> CHR 0x0D"
    and "processHeader k v (p\<lparr>hp_buf := k @ '': '' @ v\<rparr>) = Inr q"
  shows "hp_parse (k @ '': '' @ v @ crlf @ r) p = hp_parse r (q\<lparr>hp_buf := [], hp_state := S_HEADER\<rparr>)"
  by (rule hp_parse_step [OF _ hp_step_header_line [OF assms]]) simp

lemma strncase_eq_iff: "length a = length l \<Longrightarrow> strncase_eq a l \<longleftrightarrow> toLower a = toLower l"
  by (induction a l rule: list_induct2) (auto simp: toLower_def)

lemma processHeader_other:
  assumes "hp_mode p = PARSE_HTTP_REQUEST" "toLower k \<noteq> ''content-length''"
  shows "processHeader k v p = Inr (emit (OnHeader k v) p)"
proof -
  have "toLower ''Content-Length'' = ''content-length''"
    by (simp add: toLower_def tolower_def flip: code_inject)
  then have "\<not> (length k = 14 \<and> strncase_eq k ''Content-Length'')"
    using assms(2) strncase_eq_iff [of k "''Content-Length''"] by auto
  then have "\<not> (hp_expect_body p \<and> length k = 14 \<and> strncase_eq k ''Content-Length'')" by blast
  then show ?thesis
    unfolding processHeader_def using assms(1) by (simp only: if_not_P bindE_simps) simp
qed

lemma processHeader_length:
  assumes "hp_expect_body p" "n < 2 ^ 64" "length k = 14" "strncase_eq k ''Content-Length''"
  shows "processHeader k (to_string n) p =
    Inr (emit (OnHeader k (to_string n)) (p\<lparr>hp_expected := word_of_nat n\<rparr>))"
  using assms by (simp add: processHeader_def)

text \<open>Headers that the parser only reports.\<close>

definition plain_header :: "kParserMode \<Rightarrow> string \<times> string \<Rightarrow> bool" where
  "plain_header mode h \<longleftrightarrow>
     list_all (\<lambda>c. c \<noteq> CHR '':'' \<and> c \<noteq> CHR 0x0A) (fst h) \<and> list_all (\<lambda>c. c \<noteq> CHR 0x0A) (snd h) \<and>
     (snd h = [] \<or> hd (snd h) \<noteq> CHR '' '' \<and> last (snd h) \<noteq> CHR 0x0D) \<and>
     (\<forall>p. hp_mode p = mode \<longrightarrow> processHeader (fst h) (snd h) p = Inr (emit (OnHeader (fst h) (snd h)) p))"

lemma hp_parse_plain_headers:
  "list_all (plain_header (hp_mode p)) hs \<Longrightarrow> hp_state p = S_HEADER \<Longrightarrow> hp_buf p = [] \<Longrightarrow>
   hp_parse (headers_text hs @ r) p =
     hp_parse r (p\<lparr>hp_events := hp_events p @ map (\<lambda>(k, v). OnHeader k v) hs\<rparr>)"
proof (induction hs arbitrary: p)
  case Nil
  then show ?case by simp
next
  case (Cons h hs)
  obtain k v where h: "h = (k, v)" by fastforce
  have wf: "list_all (\<lambda>c. c \<noteq> CHR '':'' \<and> c \<noteq> CHR 0x0A) k"
    "list_all (\<lambda>c. c \<noteq> CHR 0x0A) v" "v = [] \<or> hd v \<noteq> CHR '' '' \<and> last v \<noteq> CHR 0x0D"
    using Cons.prems(1) h by (auto simp: plain_header_def)
  let ?p = "p\<lparr>hp_events := hp_events p @ [OnHeader k v]\<rparr>"
  have "processHeader k v (p\<lparr>hp_buf := k @ '': '' @ v\<rparr>) = Inr (?p\<lparr>hp_buf := k @ '': '' @ v\<rparr>)"
    using Cons.prems(1) h by (simp add: plain_header_def emit_def)
  from hp_parse_header_line [OF Cons.prems(2,3) wf this, of "headers_text hs @ r"]
  have "hp_parse (k @ '': '' @ v @ crlf @ headers_text hs @ r) p =
      hp_parse (headers_text hs @ r) (?p\<lparr>hp_buf := [], hp_state := S_HEADER\<rparr>)" by simp
  moreover have "?p\<lparr>hp_buf := [], hp_state := S_HEADER\<rparr> = ?p" using Cons.prems(2,3) by (cases p) simp
  ultimately have "hp_parse (k @ '': '' @ v @ crlf @ headers_text hs @ r) p =
      hp_parse (headers_text hs @ r) ?p" by (simp only:)
  also have "\<dots> = hp_parse r (?p\<lparr>hp_events := hp_events ?p @ map (\<lambda>(k, v). OnHeader k v) hs\<rparr>)"
    using Cons.prems by (intro Cons.IH) auto
  finally show ?case using h by simp
qed

lemma header_wf_plain: "header_wf h \<Longrightarrow> plain_header PARSE_HTTP_REQUEST h"
  by (cases h) (auto simp: header_wf_def plain_header_def list_all_iff processHeader_other)

lemma hp_parse_headers:
  assumes "list_all header_wf hs" "hp_mode p = PARSE_HTTP_REQUEST" "hp_state p = S_HEADER" "hp_buf p = []"
  shows "hp_parse (headers_text hs @ r) p =
     hp_parse r (p\<lparr>hp_events := hp_events p @ map (\<lambda>(k, v). OnHeader k v) hs\<rparr>)"
  using assms header_wf_plain by (intro hp_parse_plain_headers) (auto simp: list_all_iff)

lemma to_string_chr_ne:
  "c \<in> set (to_string n) \<Longrightarrow> c \<noteq> CHR 0x0A" "c \<in> set (to_string n) \<Longrightarrow> c \<noteq> CHR '' ''"
  "c \<in> set (to_string n) \<Longrightarrow> c \<noteq> CHR 0x0D"
  using to_string_digits [of c n] by (auto simp: isdigit_def)

lemma to_string_ends: "to_string n = [] \<or> hd (to_string n) \<noteq> CHR '' '' \<and> last (to_string n) \<noteq> CHR 0x0D"
  using to_string_chr_ne(2) [OF hd_in_set [OF to_string_nonempty]]
    to_string_chr_ne(3) [OF last_in_set [OF to_string_nonempty]] by blast

lemma hp_step_blank_line:
  assumes "hp_state p = S_HEADER" "hp_buf p = []"
  shows "hp_step (crlf @ r) p = Inr (r, p\<lparr>hp_state := (if hp_expected p = 0 then S_DONE else S_BODY),
    hp_events := hp_events p @ [OnHeadersComplete]\<rparr>)"
proof -
  have ru: "readUntil (CHR 0x0A) (crlf @ r) p = (True, CHR 0x0A # r, p\<lparr>hp_buf := [CHR 0x0D]\<rparr>)"
    using assms(2) by (simp add: readUntil_def)
  show ?thesis
    using assms ru by (simp add: hp_step_def parseHeader_def strip_cr_def emit_def)
qed

lemma hp_parse_blank_line:
  assumes "hp_state p = S_HEADER" "hp_buf p = []"
  shows "hp_parse (crlf @ r) p = hp_parse r (p\<lparr>hp_state := (if hp_expected p = 0 then S_DONE else S_BODY),
    hp_events := hp_events p @ [OnHeadersComplete]\<rparr>)"
  by (rule hp_parse_step [OF _ hp_step_blank_line [OF assms]]) simp

text \<open>The end of a message with a body of known size.\<close>

lemma hp_parse_sized_body:
  assumes "hp_state p = S_HEADER" "hp_buf p = []" "hp_expect_body p" "hp_read p = 0"
    "body \<noteq> []" "length body < 2 ^ 64" "length k = 14" "strncase_eq k ''Content-Length''"
    "list_all (\<lambda>c. c \<noteq> CHR '':'' \<and> c \<noteq> CHR 0x0A) k"
  shows "hp_parse (headers_text [(k, to_string (length body))] @ crlf @ body) p =
    Inr (p\<lparr>hp_state := S_DONE, hp_expected := word_of_nat (length body), hp_read := word_of_nat (length body),
      hp_events := hp_events p @ [OnHeader k (to_string (length body)), OnHeadersComplete, OnBodyChunk body]\<rparr>)"
proof -
  let ?n = "length body"
  let ?h = "OnHeader k (to_string ?n)"
  let ?p2 = "p\<lparr>hp_expected := word_of_nat ?n, hp_events := hp_events p @ [?h]\<rparr>"
  let ?p3 = "?p2\<lparr>hp_state := S_BODY, hp_events := hp_events p @ [?h, OnHeadersComplete]\<rparr>"
  have chars: "list_all (\<lambda>c. c \<noteq> CHR 0x0A) (to_string ?n)"
    "to_string ?n = [] \<or> hd (to_string ?n) \<noteq> CHR '' '' \<and> last (to_string ?n) \<noteq> CHR 0x0D"
    by (unfold list_all_iff, blast dest: to_string_chr_ne, rule to_string_ends)
  have "processHeader k (to_string ?n) (p\<lparr>hp_buf := k @ '': '' @ to_string ?n\<rparr>) =
      Inr (?p2\<lparr>hp_buf := k @ '': '' @ to_string ?n\<rparr>)"
    using processHeader_length [OF _ assms(6-8)] assms(3) by (simp add: emit_def)
  note hl = hp_parse_header_line [OF assms(1,2,9) chars this, of "crlf @ body"]
  moreover have "?p2\<lparr>hp_buf := [], hp_state := S_HEADER\<rparr> = ?p2" using assms(1,2) by (cases p) simp
  ultimately have "hp_parse (headers_text [(k, to_string ?n)] @ crlf @ body) p = hp_parse (crlf @ body) ?p2"
    by simp
  also have "unat (word_of_nat ?n :: u64) = ?n" using assms(6) by (simp add: unat_of_nat)
  then have ne: "(word_of_nat ?n :: u64) \<noteq> 0" using assms(5) by (metis length_0_conv unat_0)
  have "hp_parse (crlf @ body) ?p2 = hp_parse body ?p3"
    using hp_parse_blank_line [of ?p2 body] ne assms(1,2) by simp
  also have "hp_step body ?p3 = Inr ([], ?p3\<lparr>hp_state := S_DONE, hp_read := word_of_nat ?n,
      hp_events := hp_events p @ [?h, OnHeadersComplete, OnBodyChunk body]\<rparr>)"
    using assms(4) by (simp add: hp_step_def readBody_def emit_def)
  then have "hp_parse body ?p3 = Inr (?p3\<lparr>hp_state := S_DONE, hp_read := word_of_nat ?n,
      hp_events := hp_events p @ [?h, OnHeadersComplete, OnBodyChunk body]\<rparr>)"
    using hp_parse_step [OF assms(5), of ?p3] by simp
  finally show ?thesis by simp
qed

text \<open>All of a request: what the parser reports for the text of a request.\<close>

lemma hp_parse_request_text:
  assumes "request_wf r" "p0 = (hp_new PARSE_HTTP_REQUEST)\<lparr>hp_method_cb := True\<rparr>"
  shows "\<exists>p. hp_parse (request_text r) p0 = Inr p \<and> hp_state p = S_DONE \<and> hp_read p = hp_expected p \<and>
    hp_events p = [OnMethod (req_method r), OnURI (req_url r), OnVersion (hm_version r)] @
      map (\<lambda>(k, v). OnHeader k v) (hm_headers r @ content_length (hm_body r)) @ [OnHeadersComplete] @
      (if hm_body r = [] then [] else [OnBodyChunk (hm_body r)])"
proof -
  note wf = assms(1) [unfolded request_wf_def]
  let ?es = "[OnMethod (req_method r), OnURI (req_url r), OnVersion (hm_version r)] @
      map (\<lambda>(k, v). OnHeader k v) (hm_headers r)"
  let ?n = "length (hm_body r)"
  let ?p1 = "p0\<lparr>hp_state := S_HEADER, hp_events := ?es\<rparr>"
  have u: "list_all (\<lambda>c. c \<noteq> CHR '' '') (req_url r)" and v: "list_all (\<lambda>c. c \<noteq> CHR 0x0A) (hm_version r)"
    using wf by (auto simp: list_all_iff)
  have vl: "hm_version r = [] \<or> last (hm_version r) \<noteq> CHR 0x0D" using wf by blast
  let ?t = "headers_text (content_length (hm_body r)) @ crlf @ hm_body r"
  let ?q = "p0\<lparr>hp_state := S_REQ_VERSION, hp_events := [OnMethod (req_method r), OnURI (req_url r)]\<rparr>"
  have "hp_parse (request_text r) p0 =
      hp_parse (hm_version r @ crlf @ headers_text (hm_headers r) @ ?t) ?q"
    by (simp add: request_text_def hp_parse_method_line hp_parse_uri_line [OF _ _ u] assms(2) hp_new_def
        hp_start_def)
  also have "\<dots> = hp_parse (headers_text (hm_headers r) @ ?t) (?q\<lparr>hp_state := S_HEADER,
      hp_events := hp_events ?q @ [OnVersion (hm_version r)]\<rparr>)"
    by (rule hp_parse_version_line [OF _ _ v vl]) (simp_all add: assms(2) hp_new_def)
  also have "\<dots> = hp_parse ?t ?p1"
    using wf by (simp add: hp_parse_headers assms(2) hp_new_def)
  finally have 1: "hp_parse (request_text r) p0 = hp_parse ?t ?p1" .
  show ?thesis
  proof (cases "hm_body r = []")
    case True
    then have "hp_parse (request_text r) p0 = Inr (?p1\<lparr>hp_state := S_DONE, hp_events := ?es @ [OnHeadersComplete]\<rparr>)"
      using 1 hp_parse_blank_line [of ?p1 "[]"] by (simp add: content_length_def assms(2) hp_new_def)
    then show ?thesis using True by (simp add: content_length_def assms(2) hp_new_def)
  next
    case False
    have "hp_parse ?t ?p1 = Inr (?p1\<lparr>hp_state := S_DONE, hp_expected := word_of_nat ?n, hp_read := word_of_nat ?n,
        hp_events := ?es @ [OnHeader ''Content-Length'' (to_string ?n), OnHeadersComplete, OnBodyChunk (hm_body r)]\<rparr>)"
      using hp_parse_sized_body [of ?p1 "hm_body r" "''Content-Length''"] wf False
      by (simp add: content_length_def assms(2) hp_new_def)
    then show ?thesis using 1 False by (simp add: content_length_def)
  qed
qed

text \<open>The lines of a message are within the limits of the parser.\<close>

definition header_fits :: "string \<times> string \<Rightarrow> bool" where
  "header_fits h \<longleftrightarrow> length (fst h) + length (snd h) + 3 \<le> kMaxHeaderSize"

lemma tokens_fit_header_line:
  assumes "hp_state p = S_HEADER" "hp_buf p = []"
    and "list_all (\<lambda>c. c \<noteq> CHR '':'' \<and> c \<noteq> CHR 0x0A) k" "list_all (\<lambda>c. c \<noteq> CHR 0x0A) v"
    and "v = [] \<or> hd v \<noteq> CHR '' '' \<and> last v \<noteq> CHR 0x0D"
    and "processHeader k v (p\<lparr>hp_buf := k @ '': '' @ v\<rparr>) = Inr q" "header_fits (k, v)"
  shows "tokens_fit (k @ '': '' @ v @ crlf @ r) p \<longleftrightarrow> tokens_fit r (q\<lparr>hp_buf := [], hp_state := S_HEADER\<rparr>)"
  using tokens_fit_line [of "k @ '': '' @ v @ [CHR 0x0D]" "CHR 0x0A" r p] hp_step_header_line [OF assms(1-6), of r]
    assms(1-4,7)
  by (simp add: header_fits_def list_all_iff ball_Un)

lemma tokens_fit_plain_headers:
  "list_all (plain_header (hp_mode p)) hs \<Longrightarrow> list_all header_fits hs \<Longrightarrow> hp_state p = S_HEADER \<Longrightarrow> hp_buf p = [] \<Longrightarrow>
   tokens_fit (headers_text hs @ r) p \<longleftrightarrow>
     tokens_fit r (p\<lparr>hp_events := hp_events p @ map (\<lambda>(k, v). OnHeader k v) hs\<rparr>)"
proof (induction hs arbitrary: p)
  case (Cons h hs)
  obtain k v where h: "h = (k, v)" by fastforce
  have wf: "list_all (\<lambda>c. c \<noteq> CHR '':'' \<and> c \<noteq> CHR 0x0A) k"
    "list_all (\<lambda>c. c \<noteq> CHR 0x0A) v" "v = [] \<or> hd v \<noteq> CHR '' '' \<and> last v \<noteq> CHR 0x0D"
    and fit: "header_fits (k, v)" using Cons.prems(1,2) h by (auto simp: plain_header_def)
  let ?p = "p\<lparr>hp_events := hp_events p @ [OnHeader k v]\<rparr>"
  have "processHeader k v (p\<lparr>hp_buf := k @ '': '' @ v\<rparr>) = Inr (?p\<lparr>hp_buf := k @ '': '' @ v\<rparr>)"
    using Cons.prems(1) h by (simp add: plain_header_def emit_def)
  from tokens_fit_header_line [OF Cons.prems(3,4) wf this fit, of "headers_text hs @ r"]
  have "tokens_fit (k @ '': '' @ v @ crlf @ headers_text hs @ r) p \<longleftrightarrow>
      tokens_fit (headers_text hs @ r) (?p\<lparr>hp_buf := [], hp_state := S_HEADER\<rparr>)" by simp
  moreover have "?p\<lparr>hp_buf := [], hp_state := S_HEADER\<rparr> = ?p" using Cons.prems(3,4) by (cases p) simp
  ultimately have "tokens_fit (k @ '': '' @ v @ crlf @ headers_text hs @ r) p \<longleftrightarrow>
      tokens_fit (headers_text hs @ r) ?p" by (simp only:)
  also have "\<dots> \<longleftrightarrow> tokens_fit r (?p\<lparr>hp_events := hp_events ?p @ map (\<lambda>(k, v). OnHeader k v) hs\<rparr>)"
    using Cons.prems by (intro Cons.IH) auto
  finally show ?case using h by simp
qed simp

lemma tokens_fit_blank_line:
  assumes "hp_state p = S_HEADER" "hp_buf p = []"
  shows "tokens_fit (crlf @ r) p"
  using tokens_fit_line [of "[CHR 0x0D]" "CHR 0x0A" r p] hp_step_blank_line [OF assms, of r] assms
  by (simp add: tokens_fit_body kMaxHeaderSize_def)

lemma tokens_fit_sized_body:
  assumes "hp_state p = S_HEADER" "hp_buf p = []" "hp_expect_body p"
    "length body < 2 ^ 64" "length k = 14" "strncase_eq k ''Content-Length''"
    "list_all (\<lambda>c. c \<noteq> CHR '':'' \<and> c \<noteq> CHR 0x0A) k"
  shows "tokens_fit (headers_text [(k, to_string (length body))] @ crlf @ body) p"
proof -
  let ?n = "length body"
  let ?p2 = "p\<lparr>hp_expected := word_of_nat ?n, hp_events := hp_events p @ [OnHeader k (to_string ?n)]\<rparr>"
  have chars: "list_all (\<lambda>c. c \<noteq> CHR 0x0A) (to_string ?n)"
    "to_string ?n = [] \<or> hd (to_string ?n) \<noteq> CHR '' '' \<and> last (to_string ?n) \<noteq> CHR 0x0D"
    by (unfold list_all_iff, blast dest: to_string_chr_ne, rule to_string_ends)
  have ph: "processHeader k (to_string ?n) (p\<lparr>hp_buf := k @ '': '' @ to_string ?n\<rparr>) =
      Inr (?p2\<lparr>hp_buf := k @ '': '' @ to_string ?n\<rparr>)"
    using processHeader_length [OF _ assms(4-6)] assms(3) by (simp add: emit_def)
  have "?n < 10 ^ Suc 19" using assms(4) by simp
  from length_to_string_le [OF this] have "header_fits (k, to_string ?n)"
    using assms(5) by (simp add: header_fits_def kMaxHeaderSize_def)
  from tokens_fit_header_line [OF assms(1,2,7) chars ph this, of "crlf @ body"] show ?thesis
    using tokens_fit_blank_line [of "?p2\<lparr>hp_buf := [], hp_state := S_HEADER\<rparr>" body] by simp
qed

definition request_fits :: "http_request \<Rightarrow> bool" where
  "request_fits r \<longleftrightarrow>
     length (req_url r) \<le> kMaxURISize \<and> length (hm_version r) + 1 \<le> kMaxVersionSize \<and>
     list_all header_fits (hm_headers r) \<and> length (request_text r) < 2 ^ 64"

lemma request_tokens_fit:
  assumes "request_wf r" "request_fits r" "p0 = (hp_new PARSE_HTTP_REQUEST)\<lparr>hp_method_cb := True\<rparr>"
  shows "tokens_fit (request_text r) p0"
proof -
  note wf = assms(1) [unfolded request_wf_def] and fits = assms(2) [unfolded request_fits_def]
  have c: "list_all (\<lambda>c. c \<noteq> CHR '' '') (method_toString (req_method r))" "list_all (\<lambda>c. c \<noteq> CHR '' '') (req_url r)"
    "list_all (\<lambda>c. c \<noteq> CHR 0x0A) (hm_version r)" "hm_version r = [] \<or> last (hm_version r) \<noteq> CHR 0x0D"
    "list_all (\<lambda>c. c \<noteq> CHR 0x0A) (hm_version r @ [CHR 0x0D])"
    using wf method_toString_chars by (auto simp: list_all_iff)
  let ?t = "headers_text (content_length (hm_body r)) @ crlf @ hm_body r"
  let ?e = "[OnMethod (req_method r), OnURI (req_url r), OnVersion (hm_version r)]"
  let ?p1 = "p0\<lparr>hp_state := S_REQ_URI, hp_events := take 1 ?e\<rparr>"
  let ?p2 = "p0\<lparr>hp_state := S_REQ_VERSION, hp_events := take 2 ?e\<rparr>"
  let ?p3 = "p0\<lparr>hp_state := S_HEADER, hp_events := ?e\<rparr>"
  let ?p4 = "p0\<lparr>hp_state := S_HEADER, hp_events := ?e @ map (\<lambda>(k, v). OnHeader k v) (hm_headers r)\<rparr>"
  note p0 = assms(3) hp_new_def hp_start_def
  have m: "length (method_toString (req_method r)) \<le> kMaxMethodSize"
    by (cases "req_method r") (simp_all add: kMaxMethodSize_def)
  have "tokens_fit ?t ?p4"
  proof (cases "hm_body r = []")
    case True
    then show ?thesis using tokens_fit_blank_line [of ?p4 "[]"] by (simp add: p0 content_length_def)
  next
    case False
    then show ?thesis
      using tokens_fit_sized_body [of ?p4 "hm_body r" "''Content-Length''"] wf by (simp add: p0 content_length_def)
  qed
  then have "tokens_fit (headers_text (hm_headers r) @ ?t) ?p3"
    using tokens_fit_plain_headers [of ?p3 "hm_headers r" ?t] wf fits header_wf_plain by (auto simp: p0 list_all_iff)
  then have "tokens_fit (hm_version r @ crlf @ headers_text (hm_headers r) @ ?t) ?p2"
    using tokens_fit_line [OF _ _ _ c(5), of _ ?p2 ?p3] hp_step_version_line [OF _ _ c(3,4), of ?p2] fits
    by (simp add: p0)
  then have "tokens_fit (req_url r @ '' '' @ hm_version r @ crlf @ headers_text (hm_headers r) @ ?t) ?p1"
    using tokens_fit_line [OF _ _ _ c(2), of _ ?p1 ?p2] hp_step_uri_line [OF _ _ c(2), of ?p1] fits by (simp add: p0)
  then show ?thesis
    using tokens_fit_line [OF _ _ _ c(1), of _ p0 ?p1] hp_step_method_line [of p0 "req_method r"] m
    by (simp add: p0 request_text_def)
qed

text \<open>Such a request is accepted in whatever pieces it arrives.\<close>

lemma request_chunks_accepted:
  assumes "request_wf r" "request_fits r" "concat cs = request_text r"
  shows "\<exists>p. hp_parse_chunks cs ((hp_new PARSE_HTTP_REQUEST)\<lparr>hp_method_cb := True\<rparr>) = Inr p"
proof -
  let ?p = "(hp_new PARSE_HTTP_REQUEST)\<lparr>hp_method_cb := True\<rparr>"
  obtain q where "hp_parse (request_text r) ?p = Inr q" "hp_read q = hp_expected q"
    using hp_parse_request_text [OF assms(1) refl] by blast
  with hp_parse_chunks_split [of cs ?p q] request_tokens_fit [OF assms(1,2) refl] assms(2,3)
  show ?thesis by (auto simp: request_fits_def hp_new_def)
qed

lemma fold_req_headers:
  "fold req_event (map (\<lambda>(k, v). OnHeader k v) hs) r =
     r\<lparr>hm_headers := hm_headers r @ map (\<lambda>(k, v). (toLower k, v)) hs\<rparr>"
  by (induction hs arbitrary: r) (auto simp: addHeader_def)

lemma header_wf_lower: "list_all header_wf hs \<Longrightarrow> map (\<lambda>(k, v). (toLower k, v)) hs = hs"
  by (induction hs) (auto simp: header_wf_def)

lemma HTTPRequest_parse_text:
  assumes "request_wf r"
  shows "HTTPRequest_parse (request_text r) =
    Inr (r\<lparr>hm_headers := hm_headers r @
      (if hm_body r = [] then [] else [(''content-length'', to_string (length (hm_body r)))])\<rparr>)"
proof -
  obtain p where p: "hp_parse (request_text r) ((hp_new PARSE_HTTP_REQUEST)\<lparr>hp_method_cb := True\<rparr>) = Inr p"
    "hp_state p = S_DONE"
    "hp_events p = [OnMethod (req_method r), OnURI (req_url r), OnVersion (hm_version r)] @
      map (\<lambda>(k, v). OnHeader k v) (hm_headers r @ content_length (hm_body r)) @ [OnHeadersComplete] @
      (if hm_body r = [] then [] else [OnBodyChunk (hm_body r)])"
    using hp_parse_request_text [OF assms refl] by blast
  have low: "toLower ''Content-Length'' = ''content-length''"
    by (simp add: toLower_def tolower_def flip: code_inject)
  have hs: "map (\<lambda>(k, v). (toLower k, v)) (hm_headers r) = hm_headers r"
    using assms header_wf_lower by (simp add: request_wf_def)
  have "fold req_event (hp_events p) req_empty = r\<lparr>hm_headers := hm_headers r @
      (if hm_body r = [] then [] else [(''content-length'', to_string (length (hm_body r)))])\<rparr>"
    unfolding p(3) using hs low
    by (cases r) (simp add: fold_req_headers req_empty_def content_length_def addHeader_def appendBody_def)
  with p show ?thesis by (simp add: HTTPRequest_parse_def hp_eof_def)
qed

section \<open>Properties\<close>

text \<open>C6. The HTTP parser does not depend on how the network splits a request. When it accepts the chunks one after
  the other it accepts their concatenation and is left in the same state, with the same callbacks in the same order and
  the same body bytes (only the cuts between body callbacks differ). Conversely, when it accepts the request at once it
  accepts it in every chunks and again ends up the same, as long as the tokens of the request are within the limits the
  parser sets for unfinished ones (\<open>tokens_fit\<close>: 16 characters for the method and for the version, 8192 for the URI,
  65535 for a header line), the body is not longer than announced and the request is shorter than \<open>2 ^ 64\<close> bytes.\<close>

theorem http_parse_chunk_independent:
  assumes "hp_mode p = PARSE_HTTP_REQUEST"
  shows "(\<forall>q. hp_parse_chunks cs p = Inr q \<longrightarrow> (\<exists>q'. hp_parse (concat cs) p = Inr q' \<and> hp_equiv q' q)) \<and>
    (\<forall>q. hp_parse (concat cs) p = Inr q \<and> tokens_fit (concat cs) p \<and> unat (hp_read p) + length (concat cs) < 2 ^ 64 \<and>
       hp_read q \<le> hp_expected q \<longrightarrow> (\<exists>q'. hp_parse_chunks cs p = Inr q' \<and> hp_equiv q q'))"
  using hp_parse_chunks_concat [OF assms] hp_parse_chunks_split by blast

theorem http_parse_chunk_independent_witness:
  "\<exists>q q'. hp_parse (concat [''G'', ''ET /'', '' H'']) ((hp_new PARSE_HTTP_REQUEST)\<lparr>hp_method_cb := True\<rparr>) = Inr q \<and>
     hp_parse_chunks [''G'', ''ET /'', '' H''] ((hp_new PARSE_HTTP_REQUEST)\<lparr>hp_method_cb := True\<rparr>) = Inr q' \<and>
     hp_equiv q q' \<and> hp_state q = S_REQ_VERSION"
proof -
  let ?p = "(hp_new PARSE_HTTP_REQUEST)\<lparr>hp_method_cb := True\<rparr>"
  have "\<exists>q. hp_parse ''GET / H'' ?p = Inr q \<and> hp_state q = S_REQ_VERSION \<and> hp_read q \<le> hp_expected q"
    by (simp add: hp_parse.simps hp_step_def hp_handler_defs hp_new_def hp_start_def readUntil_def
        emit_def check_size_def kMaxMethodSize_def kMaxURISize_def kMaxVersionSize_def)
  then obtain q where q: "hp_parse (concat [''G'', ''ET /'', '' H'']) ?p = Inr q" "hp_state q = S_REQ_VERSION"
    "hp_read q \<le> hp_expected q" by auto
  moreover have "tokens_fit (concat [''G'', ''ET /'', '' H'']) ?p"
    by (simp add: tokens_fit.simps token_fits_def hp_step_def hp_handler_defs hp_new_def hp_start_def readUntil_def
        emit_def check_size_def kMaxMethodSize_def kMaxURISize_def kMaxVersionSize_def)
  moreover have "unat (hp_read ?p) + length (concat [''G'', ''ET /'', '' H'']) < 2 ^ 64" by (simp add: hp_new_def)
  ultimately have "\<exists>q'. hp_parse_chunks [''G'', ''ET /'', '' H''] ?p = Inr q' \<and> hp_equiv q q'"
    using http_parse_chunk_independent [of ?p "[''G'', ''ET /'', '' H'']"] by (auto simp: hp_new_def)
  with q show ?thesis by blast
qed

text \<open>C7. A request written by \<open>HTTPGenerator::generate\<close> and parsed by \<open>HTTPRequest::parse\<close> is the
  request again: method, URL, version, headers in order and body, with the content length header
  that the generator adds to a request with a body. The request is well-formed (\<open>request_wf\<close>): no space in the
  URL, no line break in version and headers, header names in lower case without a colon, values without leading spaces,
  no content length of its own, a body shorter than \<open>2 ^ 64\<close>, and no dollar sign in the request line and headers,
  because the generator takes it for a placeholder.\<close>

theorem http_request_roundtrip:
  assumes "request_wf r"
  shows "\<exists>out. generate_request sos_write r [] = ret out \<and>
    HTTPRequest_parse out = Inr (r\<lparr>hm_headers := hm_headers r @
      (if hm_body r = [] then [] else [(''content-length'', to_string (length (hm_body r)))])\<rparr>)"
proof -
  obtain out where "generate_request sos_write r [] = ret out" "bytes_of out = bytes_of (request_text r)"
    using sos.generate_request_ok [where out = "[]" and r = r] assms by auto
  then show ?thesis using HTTPRequest_parse_text [OF assms] bytes_of_inject by auto
qed

theorem http_request_roundtrip_witness:
  "\<exists>out. generate_request sos_write \<lparr>hm_version = ''HTTP/1.1'', hm_headers = [(''host'', ''x'')],
       hm_body = ''abc'', req_method = M_POST, req_url = ''/p''\<rparr> [] = ret out \<and>
     HTTPRequest_parse out = Inr \<lparr>hm_version = ''HTTP/1.1'',
       hm_headers = [(''host'', ''x''), (''content-length'', to_string 3)],
       hm_body = ''abc'', req_method = M_POST, req_url = ''/p''\<rparr>"
  using http_request_roundtrip [of "\<lparr>hm_version = ''HTTP/1.1'', hm_headers = [(''host'', ''x'')],
       hm_body = ''abc'', req_method = M_POST, req_url = ''/p''\<rparr>"]
  by (simp add: request_wf_def header_wf_def toLower_def tolower_def numeral_3_eq_3)

text \<open>A dollar sign in a URL is taken for a placeholder: the format function of the generator substitutes the
  arguments one after the other into the line, so that later arguments are inserted into earlier ones.\<close>

theorem request_line_resubstituted:
  "generate_request sos_write (req_new M_GET ''/x$2'') [] = ret (''GET /xHTTP/1.1 HTTP/1.1'' @ crlf @ crlf)"
  by code_simp

text \<open>Headers are case-insensitive: after \<open>setHeader\<close>, \<open>getHeader\<close> returns the value under every
  spelling of the key, and every other header is unchanged.\<close>

theorem header_set_get:
  "getHeader k (setHeader k' v m) = (if toLower k = toLower k' then v else getHeader k m)"
  using getHeader_setHeader [of k k' v m] getHeader_setHeader_other [of k k' v m] by simp

text \<open>\<open>HTTPParser::eof\<close> ends every message that has read the body bytes it expects, whatever the
  state it is in; so the check for an incomplete request in \<open>HTTPRequest::parse\<close> never fires, and
  even the empty string is accepted as a request.\<close>

theorem http_eof_accepts_incomplete:
  "HTTPRequest_parse [] = Inr req_empty \<and>
   (case hp_eof p of
      Inr p' \<Rightarrow> hp_state p' = S_DONE
    | Inl e \<Rightarrow> e = kParseError \<and> hp_state p \<noteq> S_DONE \<and> hp_read p < hp_expected p)"
  by (simp add: HTTPRequest_parse_def hp_eof_def hp_new_def hp_start_def)

end
