(* ===== verification/Stx_Protobuf.thy ===== *)
theory Stx_Protobuf
  imports Stx_BinaryMessage Stx_StringUtil
begin

text \<open>
  Schemas (\<open>protobuf/MessageSchema.cc\<close>), messages (\<open>protobuf/MessageObject.cc\<close>) and their binary
  encoding (\<open>protobuf/MessageEncoder.cc\<close>, \<open>protobuf/MessageDecoder.cc\<close>).

  A \<open>double\<close> is its 64-bit representation (\<open>IEEE754::toBytes\<close> and \<open>fromBytes\<close> are bit casts). The
  three hash maps of a schema are maps; \<open>emplace\<close> keeps an entry that is already there. A reference
  to a nested schema is the schema itself, \<open>None\<close> for a null pointer. Enumerations read from a byte
  may hold a value without a name, the constructors \<open>OTHER_TYPE\<close> and \<open>OTHER_HINT\<close>. The checks that
  \<open>STX_NODEBUG\<close> would remove are modelled. Importing \<open>.proto\<close> files, JSON and the printed form of a
  schema are left out.
\<close>

section \<open>Field types\<close>

datatype FieldType = OBJECT | BOOLEAN | UINT32 | STRING | UINT64 | DOUBLE | DATETIME | OTHER_TYPE byte

datatype EncodingHint = NONE | BITPACK | LEB128 | OTHER_HINT byte

fun fieldTypeToString :: "FieldType \<Rightarrow> string" where
  "fieldTypeToString OBJECT = ''OBJECT''"
| "fieldTypeToString STRING = ''STRING''"
| "fieldTypeToString BOOLEAN = ''BOOLEAN''"
| "fieldTypeToString UINT32 = ''UINT32''"
| "fieldTypeToString UINT64 = ''UINT64''"
| "fieldTypeToString DOUBLE = ''DOUBLE''"
| "fieldTypeToString DATETIME = ''DATETIME''"
| "fieldTypeToString (OTHER_TYPE b) = []"

definition fieldTypeFromString :: "string \<Rightarrow> FieldType result" where
  "fieldTypeFromString str =
     (let s = toUpper str
      in if s = ''OBJECT'' then Inr OBJECT
         else if s = ''STRING'' then Inr STRING
         else if s = ''BOOLEAN'' then Inr BOOLEAN
         else if s = ''UINT32'' then Inr UINT32
         else if s = ''UINT64'' then Inr UINT64
         else if s = ''DOUBLE'' then Inr DOUBLE
         else if s = ''DATETIME'' then Inr DATETIME
         else Inl kTypeError)"

fun typeName :: "FieldType \<Rightarrow> string" where
  "typeName OBJECT = ''object''"
| "typeName BOOLEAN = ''bool''"
| "typeName UINT32 = ''uint32''"
| "typeName UINT64 = ''uint64''"
| "typeName STRING = ''string''"
| "typeName DOUBLE = ''double''"
| "typeName DATETIME = ''datetime''"
| "typeName (OTHER_TYPE b) = []"

fun byte_of_type :: "FieldType \<Rightarrow> byte" where
  "byte_of_type OBJECT = 0"
| "byte_of_type BOOLEAN = 1"
| "byte_of_type UINT32 = 2"
| "byte_of_type STRING = 3"
| "byte_of_type UINT64 = 4"
| "byte_of_type DOUBLE = 5"
| "byte_of_type DATETIME = 6"
| "byte_of_type (OTHER_TYPE b) = b"

definition type_of_byte :: "byte \<Rightarrow> FieldType" where
  "type_of_byte b =
     (if b = 0 then OBJECT else if b = 1 then BOOLEAN else if b = 2 then UINT32
      else if b = 3 then STRING else if b = 4 then UINT64 else if b = 5 then DOUBLE
      else if b = 6 then DATETIME else OTHER_TYPE b)"

fun byte_of_hint :: "EncodingHint \<Rightarrow> byte" where
  "byte_of_hint NONE = 0"
| "byte_of_hint BITPACK = 1"
| "byte_of_hint LEB128 = 2"
| "byte_of_hint (OTHER_HINT b) = b"

definition hint_of_byte :: "byte \<Rightarrow> EncodingHint" where
  "hint_of_byte b =
     (if b = 0 then NONE else if b = 1 then BITPACK else if b = 2 then LEB128 else OTHER_HINT b)"

lemma fieldType_string_roundtrip:
  "(\<forall>b. t \<noteq> OTHER_TYPE b) \<Longrightarrow> fieldTypeFromString (fieldTypeToString t) = Inr t"
  by (cases t) (simp_all add: fieldTypeFromString_def toUpper_def toupper_def)

section \<open>Schemas\<close>

datatype schema_field =
  Field (f_id: u32) (f_name: string) (f_type: FieldType) (f_type_size: u64) (f_repeated: bool)
    (f_optional: bool) (f_encoding: EncodingHint) (f_schema: "message_schema option")
and message_schema =
  Schema (sc_name: string) (sc_fields: "schema_field list") (sc_ids: "string \<rightharpoonup> u32")
    (sc_types: "u32 \<rightharpoonup> FieldType") (sc_names: "u32 \<rightharpoonup> string")

definition mkObjectField :: "u32 \<Rightarrow> string \<Rightarrow> bool \<Rightarrow> bool \<Rightarrow> message_schema \<Rightarrow> schema_field" where
  "mkObjectField i n rep opt sc = Field i n OBJECT 0 rep opt NONE (Some sc)"

definition schema_null :: message_schema where
  "schema_null = Schema [] [] Map.empty Map.empty Map.empty"

definition emplace :: "('k \<rightharpoonup> 'v) \<Rightarrow> 'k \<Rightarrow> 'v \<Rightarrow> ('k \<rightharpoonup> 'v)" where
  "emplace m k v = (if m k = None then m(k \<mapsto> v) else m)"

definition addField :: "schema_field \<Rightarrow> message_schema \<Rightarrow> message_schema" where
  "addField f s =
     Schema (sc_name s) (sc_fields s @ [f]) (emplace (sc_ids s) (f_name f) (f_id f))
       (emplace (sc_types s) (f_id f) (f_type f)) (emplace (sc_names s) (f_id f) (f_name f))"

definition setName :: "string \<Rightarrow> message_schema \<Rightarrow> message_schema" where
  "setName n s = Schema n (sc_fields s) (sc_ids s) (sc_types s) (sc_names s)"

definition MessageSchema :: "string \<Rightarrow> schema_field list \<Rightarrow> message_schema" where
  "MessageSchema n fs = fold addField fs (setName n schema_null)"

definition hasField_name :: "string \<Rightarrow> message_schema \<Rightarrow> bool" where
  "hasField_name p s \<longleftrightarrow> sc_ids s p \<noteq> None"

definition hasField :: "u32 \<Rightarrow> message_schema \<Rightarrow> bool" where
  "hasField i s \<longleftrightarrow> sc_types s i \<noteq> None"

definition fieldId :: "string \<Rightarrow> message_schema \<Rightarrow> u32 result" where
  "fieldId p s = (case sc_ids s p of None \<Rightarrow> Inl kIndexError | Some i \<Rightarrow> Inr i)"

definition fieldType :: "u32 \<Rightarrow> message_schema \<Rightarrow> FieldType result" where
  "fieldType i s =
     (if i = 0 then Inr OBJECT
      else case sc_types s i of None \<Rightarrow> Inl kIndexError | Some t \<Rightarrow> Inr t)"

definition fieldName :: "u32 \<Rightarrow> message_schema \<Rightarrow> string result" where
  "fieldName i s =
     (if i = 0 then Inr (sc_name s)
      else case sc_names s i of None \<Rightarrow> Inl kIndexError | Some n \<Rightarrow> Inr n)"

definition fieldSchema :: "u32 \<Rightarrow> message_schema \<Rightarrow> message_schema option result" where
  "fieldSchema i s =
     (case find (\<lambda>f. f_id f = i) (sc_fields s) of
        None \<Rightarrow> Inl kIndexError
      | Some f \<Rightarrow> Inr (f_schema f))"

fun remove_first :: "u32 \<Rightarrow> schema_field list \<Rightarrow> schema_field list" where
  "remove_first i [] = []"
| "remove_first i (f # fs) = (if f_id f \<noteq> i then f # remove_first i fs else fs)"

definition removeField :: "u32 \<Rightarrow> message_schema \<Rightarrow> message_schema result" where
  "removeField i s =
     (case find (\<lambda>f. f_id f = i) (sc_fields s) of
        None \<Rightarrow> Inl kNotFoundError
      | Some f \<Rightarrow>
          Inr (Schema (sc_name s) (remove_first i (sc_fields s)) ((sc_ids s)(f_name f := None))
                 ((sc_types s)(i := None)) ((sc_names s)(i := None))))"

text \<open>The maps describe the field list: the first field with a name or an id counts.\<close>

definition schema_index :: "message_schema \<Rightarrow> bool" where
  "schema_index s \<longleftrightarrow>
     (\<forall>n. sc_ids s n = map_option f_id (find (\<lambda>f. f_name f = n) (sc_fields s))) \<and>
     (\<forall>i. sc_types s i = map_option f_type (find (\<lambda>f. f_id f = i) (sc_fields s))) \<and>
     (\<forall>i. sc_names s i = map_option f_name (find (\<lambda>f. f_id f = i) (sc_fields s)))"

lemma find_append: "find P (xs @ ys) = (case find P xs of None \<Rightarrow> find P ys | Some x \<Rightarrow> Some x)"
  by (induction xs) auto

lemma schema_index_addField: "schema_index s \<Longrightarrow> schema_index (addField f s)"
  by (auto simp: schema_index_def addField_def find_append emplace_def split: option.splits)

lemma schema_index_fold: "schema_index s \<Longrightarrow> schema_index (fold addField fs s)"
  by (induction fs arbitrary: s) (auto intro: schema_index_addField)

lemma schema_index_MessageSchema: "schema_index (MessageSchema n fs)"
  unfolding MessageSchema_def
  by (rule schema_index_fold) (simp add: schema_index_def setName_def schema_null_def)

lemma fold_addField_fields [simp]:
  "sc_fields (fold addField fs s) = sc_fields s @ fs" "sc_name (fold addField fs s) = sc_name s"
  by (induction fs arbitrary: s) (auto simp: addField_def)

text \<open>A schema is determined by its name and its fields once it is indexed.\<close>

lemma schema_index_unique:
  "schema_index s \<Longrightarrow> schema_index t \<Longrightarrow> sc_name s = sc_name t \<Longrightarrow> sc_fields s = sc_fields t \<Longrightarrow> s = t"
  by (cases s; cases t) (auto simp: schema_index_def fun_eq_iff)

lemma MessageSchema_eq: "schema_index s \<Longrightarrow> MessageSchema (sc_name s) (sc_fields s) = s"
  by (rule schema_index_unique [OF schema_index_MessageSchema])
     (auto simp: MessageSchema_def setName_def schema_null_def)

text \<open>Removing keeps the maps in step when ids and names are unique.\<close>

lemma remove_first_distinct:
  "distinct (map f_id fs) \<Longrightarrow> remove_first i fs = filter (\<lambda>f. f_id f \<noteq> i) fs"
  by (induction fs) (force simp: filter_id_conv image_iff intro: filter_True [symmetric])+

lemma find_filter: "find P (filter Q xs) = find (\<lambda>x. Q x \<and> P x) xs"
  by (induction xs) auto

lemma find_Some_mem: "find P xs = Some x \<Longrightarrow> P x \<and> x \<in> set xs"
  by (induction xs) (auto split: if_splits)

lemma find_cong_mem: "(\<And>x. x \<in> set xs \<Longrightarrow> P x = Q x) \<Longrightarrow> find P xs = find Q xs"
  by (induction xs) auto

fun encode_schema :: "message_schema \<Rightarrow> bmw \<Rightarrow> bmw comp"
  and encode_fields :: "schema_field list \<Rightarrow> bmw \<Rightarrow> bmw comp" where
  "encode_schema (Schema n fs ids types names) w =
     bindC (bmw_appendUInt8 0x1 w) (\<lambda>w.
     bindC (bmw_appendLenencString n w) (\<lambda>w.
     bindC (bmw_appendVarUInt (word_of_nat (length fs)) w) (\<lambda>w.
     encode_fields fs w)))"
| "encode_fields [] w = ret w"
| "encode_fields (Field i n t ts rep opt enc sc # fs) w =
     bindC (bmw_appendVarUInt (ucast i) w) (\<lambda>w.
     bindC (bmw_appendLenencString n w) (\<lambda>w.
     bindC (bmw_appendUInt8 (byte_of_type t) w) (\<lambda>w.
     bindC (bmw_appendVarUInt ts w) (\<lambda>w.
     bindC (bmw_appendUInt8 (if rep then 1 else 0) w) (\<lambda>w.
     bindC (bmw_appendUInt8 (if opt then 1 else 0) w) (\<lambda>w.
     bindC (bmw_appendUInt8 (byte_of_hint enc) w) (\<lambda>w.
     bindC (if t = OBJECT
            then (case sc of None \<Rightarrow> raise UndefinedBehaviour | Some s \<Rightarrow> encode_schema s w)
            else ret w) (\<lambda>w.
     encode_fields fs w))))))))"

definition schema_encode :: "message_schema \<Rightarrow> byte list comp" where
  "schema_encode s = bindC (encode_schema s (bmw_new 4096)) (\<lambda>w. ret (bmw_data w))"

text \<open>Version, name and number of fields; the loop over the fields with its nested schemas.\<close>

definition decode_header :: "bmr \<Rightarrow> (string \<times> nat \<times> bmr) result" where
  "decode_header r =
     bindE (bmr_readUInt8 r) (\<lambda>(version, r).
     bindE (bmr_readLenencString r) (\<lambda>(n, r).
     bindE (bmr_readVarUInt r) (\<lambda>(nfields, r). Inr (n, unat nfields, r))))"

definition decode_field_head :: "bmr \<Rightarrow> (schema_field \<times> bmr) result" where
  "decode_field_head r =
     bindE (bmr_readVarUInt r) (\<lambda>(i, r).
     bindE (bmr_readLenencString r) (\<lambda>(n, r).
     bindE (bmr_readUInt8 r) (\<lambda>(t, r).
     bindE (bmr_readVarUInt r) (\<lambda>(ts, r).
     bindE (bmr_readUInt8 r) (\<lambda>(rep, r).
     bindE (bmr_readUInt8 r) (\<lambda>(opt, r).
     bindE (bmr_readUInt8 r) (\<lambda>(enc, r).
       Inr (Field (ucast i) n (type_of_byte t) ts (rep > 0) (opt > 0) (hint_of_byte enc) None, r))))))))"

definition with_schema :: "schema_field \<Rightarrow> message_schema \<Rightarrow> schema_field" where
  "with_schema f sc = Field (f_id f) (f_name f) (f_type f) (f_type_size f) (f_repeated f) (f_optional f)
     (f_encoding f) (Some sc)"

partial_function (option) decode_fields ::
  "nat \<Rightarrow> bmr \<Rightarrow> message_schema \<Rightarrow> (message_schema \<times> bmr) comp" where
  "decode_fields n r s =
     (if n = 0 then ret (s, r)
      else
        bindC (Some (decode_field_head r)) (\<lambda>(f, r).
          if f_type f = OBJECT
          then bindC (Some (decode_header r)) (\<lambda>(cn, cnf, r).
               bindC (decode_fields cnf r (setName cn schema_null)) (\<lambda>(sc, r).
               decode_fields (n - 1) r (addField (with_schema f sc) s)))
          else decode_fields (n - 1) r (addField f s)))"

declare decode_fields.simps [code]

definition decode_schema :: "bmr \<Rightarrow> message_schema \<Rightarrow> (message_schema \<times> bmr) comp" where
  "decode_schema r s =
     bindC (Some (decode_header r)) (\<lambda>(n, nf, r). decode_fields nf r (setName n s))"

definition schema_decode :: "byte list \<Rightarrow> message_schema comp" where
  "schema_decode data =
     bindC (decode_schema (bmr_new data (word_of_nat (length data))) schema_null) (\<lambda>(s, r). ret s)"

text \<open>
  Schemas that can be stored: indexed, and nested exactly at the object fields. The decoder counts
  the fields with an \<open>int\<close>, so their number is below \<open>2 ^ 31\<close>.
\<close>

fun schema_wf :: "message_schema \<Rightarrow> bool"
  and fields_wf :: "schema_field list \<Rightarrow> bool" where
  "schema_wf (Schema n fs ids types names) \<longleftrightarrow>
     schema_index (Schema n fs ids types names) \<and> length n < 2 ^ 64 \<and> length fs < 2 ^ 31 \<and> fields_wf fs"
| "fields_wf [] \<longleftrightarrow> True"
| "fields_wf (Field i n t ts rep opt enc sc # fs) \<longleftrightarrow>
     length n < 2 ^ 64 \<and> t = type_of_byte (byte_of_type t) \<and> enc = hint_of_byte (byte_of_hint enc) \<and>
     (case sc of None \<Rightarrow> t \<noteq> OBJECT | Some s \<Rightarrow> t = OBJECT \<and> schema_wf s) \<and> fields_wf fs"

definition lenenc :: "string \<Rightarrow> byte list" where
  "lenenc str = varuint_bytes (word_of_nat (length str)) @ bytes_of str"

fun schema_bytes :: "message_schema \<Rightarrow> byte list"
  and fields_bytes :: "schema_field list \<Rightarrow> byte list" where
  "schema_bytes (Schema n fs ids types names) =
     1 # lenenc n @ varuint_bytes (word_of_nat (length fs)) @ fields_bytes fs"
| "fields_bytes [] = []"
| "fields_bytes (Field i n t ts rep opt enc sc # fs) =
     varuint_bytes (ucast i) @ lenenc n @ [byte_of_type t] @ varuint_bytes ts @
     [if rep then 1 else 0] @ [if opt then 1 else 0] @ [byte_of_hint enc] @
     (case sc of None \<Rightarrow> [] | Some s \<Rightarrow> schema_bytes s) @ fields_bytes fs"

lemma writes_schema:
  "schema_wf s \<Longrightarrow> writes (encode_schema s) (schema_bytes s)"
  "fields_wf fs \<Longrightarrow> writes (encode_fields fs) (fields_bytes fs)"
proof (induction s and fs rule: schema_bytes_fields_bytes.induct)
  case (1 n fs ids types names)
  have "writes (encode_schema (Schema n fs ids types names))
      ([1] @ lenenc n @ varuint_bytes (word_of_nat (length fs)) @ fields_bytes fs)"
    unfolding encode_schema.simps [abs_def] lenenc_def
    by (intro writes_bind format_rules) (use 1 in simp)
  then show ?case by (simp only: append_Cons append_Nil schema_bytes.simps)
next
  case 2
  show ?case by (simp add: writes_def)
next
  case (3 i n t ts rep opt enc sc fs)
  have "writes (\<lambda>w. if t = OBJECT then (case sc of None \<Rightarrow> raise UndefinedBehaviour
      | Some s \<Rightarrow> encode_schema s w) else ret w) (case sc of None \<Rightarrow> [] | Some s \<Rightarrow> schema_bytes s)"
    using 3 by (cases sc) (auto simp: writes_def)
  moreover have "writes (encode_fields fs) (fields_bytes fs)" using 3 by (cases sc) auto
  ultimately show ?case
    unfolding encode_fields.simps [abs_def] fields_bytes.simps lenenc_def
    by (intro writes_bind format_rules)
qed

lemma ucast_u32_u64 [simp]: "ucast (ucast (i :: u32) :: u64) = i"
  by (rule bit_word_eqI) (auto simp: bit_unsigned_iff dest: bit_imp_le_length)

definition field_head_bytes :: "schema_field \<Rightarrow> byte list" where
  "field_head_bytes f = varuint_bytes (ucast (f_id f)) @ lenenc (f_name f) @ [byte_of_type (f_type f)] @
     varuint_bytes (f_type_size f) @ [if f_repeated f then 1 else 0] @ [if f_optional f then 1 else 0] @
     [byte_of_hint (f_encoding f)]"

lemma reads_field_head:
  assumes "length n < 2 ^ 64" "t = type_of_byte (byte_of_type t)" "enc = hint_of_byte (byte_of_hint enc)"
  shows "reads decode_field_head (Field i n t ts rep opt enc None)
    (field_head_bytes (Field i n t ts rep opt enc sc))"
proof -
  let ?f = "\<lambda>e. Field (ucast (ucast i :: u64)) n (type_of_byte (byte_of_type t)) ts
    ((if rep then 1 else 0 :: byte) > 0) ((if opt then 1 else 0 :: byte) > 0) (hint_of_byte e) None"
  have "reads decode_field_head (?f (byte_of_hint enc))
      (varuint_bytes (ucast i) @ lenenc n @ [byte_of_type t] @ varuint_bytes ts @
       [if rep then 1 else 0] @ [if opt then 1 else 0] @ [byte_of_hint enc])"
    unfolding decode_field_head_def [abs_def] lenenc_def
    by (rule reads_bind [OF reads_VarUInt], rule reads_bind [OF reads_LenencString [OF assms(1)]],
        rule reads_bind [OF reads_UInt8], rule reads_bind [OF reads_VarUInt],
        rule reads_bind [OF reads_UInt8], rule reads_bind [OF reads_UInt8], rule reads_map [OF reads_UInt8])
  moreover have "0 < (if b then 1 else 0 :: byte) \<longleftrightarrow> b" for b by simp
  ultimately show ?thesis unfolding assms(2,3) [symmetric] by (simp add: field_head_bytes_def split del: if_split)
qed

lemma reads_header:
  assumes "length n < 2 ^ 64" "k < 2 ^ 64" "bmr_invar r"
    "bmr_rest r = 1 # lenenc n @ varuint_bytes (word_of_nat k) @ rest"
  shows "\<exists>r'. decode_header r = Inr (n, k, r') \<and> bmr_invar r' \<and> bmr_rest r' = rest"
proof -
  obtain r1 where r1: "bmr_readUInt8 r = Inr (1, r1)" "bmr_invar r1"
    "bmr_rest r1 = lenenc n @ varuint_bytes (word_of_nat k) @ rest"
    using reads_UInt8 [of 1] assms(3,4) unfolding reads_def by force
  then obtain r2 where r2: "bmr_readLenencString r1 = Inr (n, r2)" "bmr_invar r2"
    "bmr_rest r2 = varuint_bytes (word_of_nat k) @ rest"
    using reads_LenencString [OF assms(1)] unfolding reads_def lenenc_def by force
  then obtain r3 where "bmr_readVarUInt r2 = Inr (word_of_nat k, r3)" "bmr_invar r3" "bmr_rest r3 = rest"
    using reads_VarUInt unfolding reads_def by blast
  moreover have "unat (word_of_nat k :: u64) = k" using assms(2) by (simp add: unat_of_nat)
  ultimately show ?thesis using r1 r2 by (simp add: decode_header_def)
qed

lemma fields_bytes_Cons:
  "fields_bytes (Field i n t ts rep opt enc sc # fs) = field_head_bytes (Field i n t ts rep opt enc sc) @
     (case sc of None \<Rightarrow> [] | Some s \<Rightarrow> schema_bytes s) @ fields_bytes fs"
  by (simp add: field_head_bytes_def)

lemma schema_index_setName [simp]: "schema_index (setName n schema_null)" "sc_name (setName n s) = n"
  "sc_fields (setName n s) = sc_fields s"
  by (simp_all add: schema_index_def setName_def schema_null_def)

lemma decode_schema_ok:
  "schema_wf s \<Longrightarrow> bmr_invar r \<Longrightarrow> bmr_rest r = schema_bytes s @ rest \<Longrightarrow>
   \<exists>r'. decode_schema r schema_null = ret (s, r') \<and> bmr_invar r' \<and> bmr_rest r' = rest"
  "fields_wf fs \<Longrightarrow> bmr_invar r \<Longrightarrow> bmr_rest r = fields_bytes fs @ rest \<Longrightarrow>
   \<exists>r'. decode_fields (length fs) r t0 = ret (fold addField fs t0, r') \<and> bmr_invar r' \<and> bmr_rest r' = rest"
proof (induction s and fs arbitrary: r rest and r rest t0 rule: schema_bytes_fields_bytes.induct)
  case (1 n fs ids types names)
  let ?s = "Schema n fs ids types names"
  obtain r1 where r1: "decode_header r = Inr (n, length fs, r1)" "bmr_invar r1"
    "bmr_rest r1 = fields_bytes fs @ rest"
    using reads_header [of n "length fs" r "fields_bytes fs @ rest"] "1.prems" by auto
  then obtain r2 where r2: "decode_fields (length fs) r1 (setName n schema_null) =
      ret (fold addField fs (setName n schema_null), r2)" "bmr_invar r2" "bmr_rest r2 = rest"
    using "1.IH" [OF _ r1(2,3)] "1.prems"(1) by auto
  have "fold addField fs (setName n schema_null) = ?s"
    using MessageSchema_eq [of ?s] "1.prems"(1) by (simp add: MessageSchema_def)
  with r1 r2 show ?case by (simp add: decode_schema_def)
next
  case 2
  then show ?case by (subst decode_fields.simps) simp
next
  case (3 i n t ts rep opt enc sc fs)
  let ?f = "Field i n t ts rep opt enc None"
  have fs: "fields_wf fs" "length n < 2 ^ 64" "t = type_of_byte (byte_of_type t)"
    "enc = hint_of_byte (byte_of_hint enc)"
    using "3.prems"(1) by auto
  obtain r1 where r1: "decode_field_head r = Inr (?f, r1)" "bmr_invar r1"
    "bmr_rest r1 = (case sc of None \<Rightarrow> [] | Some s \<Rightarrow> schema_bytes s) @ fields_bytes fs @ rest"
    using reads_field_head [OF fs(2-4), of i ts rep opt sc] "3.prems"(2,3)
    unfolding reads_def fields_bytes_Cons by force
  show ?case
  proof (cases sc)
    case None
    then have "t \<noteq> OBJECT" using "3.prems"(1) by simp
    moreover obtain r2 where "decode_fields (length fs) r1 (addField ?f t0) =
        ret (fold addField fs (addField ?f t0), r2)" "bmr_invar r2" "bmr_rest r2 = rest"
      using "3.IH"(2) [OF fs(1) r1(2)] r1(3) None by auto
    ultimately show ?thesis using r1(1) None by (subst decode_fields.simps) simp
  next
    case (Some s)
    then have t: "t = OBJECT" "schema_wf s" using "3.prems"(1) by auto
    obtain r2 where r2: "decode_schema r1 schema_null = ret (s, r2)" "bmr_invar r2"
      "bmr_rest r2 = fields_bytes fs @ rest"
      using "3.IH"(1) [OF Some t(2) r1(2)] r1(3) Some by auto
    obtain cn cnf r1' where h: "decode_header r1 = Inr (cn, cnf, r1')"
      "decode_fields cnf r1' (setName cn schema_null) = ret (s, r2)"
      using r2(1) by (auto simp: decode_schema_def bindC_eq_ret)
    obtain r3 where "decode_fields (length fs) r2 (addField (with_schema ?f s) t0) =
        ret (fold addField fs (addField (with_schema ?f s) t0), r3)" "bmr_invar r3" "bmr_rest r3 = rest"
      using "3.IH"(2) [OF fs(1) r2(2,3)] by blast
    then show ?thesis
      using r1(1) Some t(1) h by (subst decode_fields.simps) (simp add: with_schema_def)
  qed
qed

section \<open>Properties\<close>

text \<open>The lookup maps of \<open>MessageSchema\<close> agree with its field list: after construction and after
  \<open>addField\<close>, \<open>fieldType\<close>, \<open>fieldName\<close> and \<open>fieldId\<close> answer from the first field with that id or
  name and raise the index error exactly when there is none; the id 0 stands for the message itself.\<close>

theorem schema_lookup_correct:
  "schema_index (addField f (MessageSchema n fs)) \<and>
   fieldType i (addField f (MessageSchema n fs)) = (if i = 0 then Inr OBJECT else
     case find (\<lambda>g. f_id g = i) (fs @ [f]) of None \<Rightarrow> Inl kIndexError | Some g \<Rightarrow> Inr (f_type g)) \<and>
   fieldName i (addField f (MessageSchema n fs)) = (if i = 0 then Inr n else
     case find (\<lambda>g. f_id g = i) (fs @ [f]) of None \<Rightarrow> Inl kIndexError | Some g \<Rightarrow> Inr (f_name g)) \<and>
   fieldId nm (addField f (MessageSchema n fs)) =
     (case find (\<lambda>g. f_name g = nm) (fs @ [f]) of None \<Rightarrow> Inl kIndexError | Some g \<Rightarrow> Inr (f_id g))"
proof -
  have s: "schema_index (addField f (MessageSchema n fs))"
    by (intro schema_index_addField schema_index_MessageSchema)
  have fs: "sc_fields (addField f (MessageSchema n fs)) = fs @ [f]"
    "sc_name (addField f (MessageSchema n fs)) = n"
    by (simp_all add: MessageSchema_def addField_def [of f] setName_def schema_null_def)
  show ?thesis
    using s by (auto simp: fieldType_def fieldName_def fieldId_def schema_index_def fs split: option.split)
qed

text \<open>\<open>removeField\<close> on a schema with distinct ids and names removes exactly the field with the
  given id and leaves the lookup maps in agreement with the shorter field list.\<close>

theorem removeField_correct:
  assumes "schema_index s" "distinct (map f_id (sc_fields s))" "distinct (map f_name (sc_fields s))"
    and "hasField i s"
  shows "\<exists>s'. removeField i s = Inr s' \<and> schema_index s' \<and>
    sc_fields s' = filter (\<lambda>f. f_id f \<noteq> i) (sc_fields s) \<and> \<not> hasField i s'"
proof -
  obtain f where f: "find (\<lambda>f. f_id f = i) (sc_fields s) = Some f"
    using assms(1,4) by (auto simp: hasField_def schema_index_def)
  let ?fs = "filter (\<lambda>f. f_id f \<noteq> i) (sc_fields s)"
  note fm = find_Some_mem [OF f]
  have rm: "remove_first i (sc_fields s) = ?fs" by (rule remove_first_distinct [OF assms(2)])
  have ids: "find (\<lambda>g. f_id g \<noteq> i \<and> f_id g = j) (sc_fields s) =
      (if j = i then None else find (\<lambda>g. f_id g = j) (sc_fields s))" for j
    by (auto intro: find_cong_mem simp: find_None_iff)
  have "f_name g = f_name f \<Longrightarrow> g \<in> set (sc_fields s) \<Longrightarrow> g = f" for g
    using assms(3) fm by (metis distinct_map inj_onD)
  then have names: "find (\<lambda>g. f_id g \<noteq> i \<and> f_name g = n) (sc_fields s) =
      (if n = f_name f then None else find (\<lambda>g. f_name g = n) (sc_fields s))" for n
    using fm assms(2) by (auto simp: find_None_iff intro!: find_cong_mem) (metis distinct_map inj_onD)
  show ?thesis
    using assms(1) by (auto simp: removeField_def f rm schema_index_def find_filter ids names hasField_def)
qed

subsection \<open>The binary form of a schema\<close>

theorem removeField_correct_witness:
  "\<exists>s'. removeField 1 (MessageSchema ''m'' [Field 1 ''a'' UINT32 0 False False NONE None,
      Field 2 ''b'' STRING 0 True False NONE None]) = Inr s' \<and>
    sc_fields s' = [Field 2 ''b'' STRING 0 True False NONE None]"
  using removeField_correct [OF schema_index_MessageSchema [of "''m''"
      "[Field 1 ''a'' UINT32 0 False False NONE None, Field 2 ''b'' STRING 0 True False NONE None]"], of 1]
  by (auto simp: MessageSchema_def addField_def setName_def schema_null_def hasField_def emplace_def)

text \<open>C18. A schema, with all its nested schemas, survives storage: \<open>MessageSchema::encode\<close> returns and
  \<open>MessageSchema::decode\<close> rebuilds the same schema from its bytes, lookup maps included.\<close>

theorem schema_storage_roundtrip:
  assumes "schema_wf s" "length (schema_bytes s) + 1 < 2 ^ 64"
  shows "\<exists>bs. schema_encode s = ret bs \<and> schema_decode bs = ret s"
proof -
  obtain w where w: "encode_schema s (bmw_new 4096) = ret w" "bmw_data w = schema_bytes s"
    using writes_schema(1) [OF assms(1)] bmw_new_ok [of 4096] unfolding writes_def by force
  obtain r' where "decode_schema (bmr_new (schema_bytes s) (word_of_nat (length (schema_bytes s)))) schema_null =
      ret (s, r')"
    using decode_schema_ok(1) [OF assms(1), of _ "[]"] bmr_new_ok [OF assms(2)] by fastforce
  with w show ?thesis by (simp add: schema_encode_def schema_decode_def)
qed

theorem schema_storage_roundtrip_witness:
  "\<exists>s bs. s = MessageSchema ''m'' [Field 1 ''a'' UINT32 4 False True BITPACK None,
       mkObjectField 2 ''sub'' True False (MessageSchema ''s'' [Field 7 ''x'' STRING 0 False False NONE None])] \<and>
     schema_encode s = ret bs \<and> schema_decode bs = ret s"
proof -
  let ?t = "MessageSchema ''s'' [Field 7 ''x'' STRING 0 False False NONE None]"
  let ?s = "MessageSchema ''m'' [Field 1 ''a'' UINT32 4 False True BITPACK None, mkObjectField 2 ''sub'' True False ?t]"
  have "schema_index ?s" "schema_index ?t" by (rule schema_index_MessageSchema)+
  then have "schema_wf ?s"
    by (simp add: MessageSchema_def addField_def setName_def schema_null_def mkObjectField_def
        type_of_byte_def hint_of_byte_def)
  moreover have "length (schema_bytes ?s) + 1 < 2 ^ 64"
    by (simp add: MessageSchema_def addField_def setName_def schema_null_def mkObjectField_def lenenc_def
        varuint_bytes.simps)
  ultimately show ?thesis using schema_storage_roundtrip [of ?s] by blast
qed

end
