(* ===== verification/Stx_Message.thy ===== *)
theory Stx_Message
  imports Stx_Protobuf
begin

text \<open>
  Messages (\<open>protobuf/MessageObject.cc\<close>) and their encoding by a schema
  (\<open>protobuf/MessageEncoder.cc\<close>, \<open>protobuf/MessageDecoder.cc\<close>).

  The union inside a \<open>MessageObject\<close> with its type tag is a datatype. The encoder runs on the
  binary message writer and the decoder on the reader of theory \<open>Stx_BinaryMessage\<close>.
\<close>

section \<open>MessageObject\<close>

datatype message_object = MessageObject (mo_id: u32) (mo_data: message_data)
and message_data =
    Obj "message_object list"
  | Str string
  | U32 u32
  | U64 u64
  | Dbl u64
  | Bool bool
  | DateTime u64

fun mo_type :: "message_object \<Rightarrow> FieldType" where
  "mo_type (MessageObject i (Obj cs)) = OBJECT"
| "mo_type (MessageObject i (Str s)) = STRING"
| "mo_type (MessageObject i (U32 v)) = UINT32"
| "mo_type (MessageObject i (U64 v)) = UINT64"
| "mo_type (MessageObject i (Dbl v)) = DOUBLE"
| "mo_type (MessageObject i (Bool b)) = BOOLEAN"
| "mo_type (MessageObject i (DateTime v)) = DATETIME"

definition asObject :: "message_object \<Rightarrow> message_object list result" where
  "asObject m = (case mo_data m of Obj cs \<Rightarrow> Inr cs | _ \<Rightarrow> Inl kTypeError)"

definition asString :: "message_object \<Rightarrow> string result" where
  "asString m = (case mo_data m of Str s \<Rightarrow> Inr s | _ \<Rightarrow> Inl kTypeError)"

definition asUInt32 :: "message_object \<Rightarrow> u32 result" where
  "asUInt32 m = (case mo_data m of U64 v \<Rightarrow> Inr (ucast v) | U32 v \<Rightarrow> Inr v | _ \<Rightarrow> Inl kTypeError)"

definition asUInt64 :: "message_object \<Rightarrow> u64 result" where
  "asUInt64 m =
     (case mo_data m of
        U32 v \<Rightarrow> Inr (ucast v) | U64 v \<Rightarrow> Inr v | DateTime v \<Rightarrow> Inr v | _ \<Rightarrow> Inl kTypeError)"

definition asDouble :: "message_object \<Rightarrow> u64 result" where
  "asDouble m = (case mo_data m of Dbl v \<Rightarrow> Inr v | _ \<Rightarrow> Inl kTypeError)"

definition asBool :: "message_object \<Rightarrow> bool result" where
  "asBool m = (case mo_data m of U32 v \<Rightarrow> Inr (v > 0) | Bool b \<Rightarrow> Inr b | _ \<Rightarrow> Inl kTypeError)"

definition asUnixTime :: "message_object \<Rightarrow> u64 result" where
  "asUnixTime m = (case mo_data m of DateTime v \<Rightarrow> Inr v | _ \<Rightarrow> Inl kTypeError)"

lemma asObject_Obj [simp]: "asObject (MessageObject i (Obj cs)) = Inr cs"
  by (simp add: asObject_def)

text \<open>The copy constructor and the assignment operator read the other object through the accessors.\<close>

fun copy_object :: "message_object \<Rightarrow> message_object result" where
  "copy_object m =
     (case mo_type m of
        OBJECT \<Rightarrow> bindE (asObject m) (\<lambda>v. Inr (MessageObject (mo_id m) (Obj v)))
      | STRING \<Rightarrow> bindE (asString m) (\<lambda>v. Inr (MessageObject (mo_id m) (Str v)))
      | UINT32 \<Rightarrow> bindE (asUInt32 m) (\<lambda>v. Inr (MessageObject (mo_id m) (U32 v)))
      | UINT64 \<Rightarrow> bindE (asUInt64 m) (\<lambda>v. Inr (MessageObject (mo_id m) (U64 v)))
      | DATETIME \<Rightarrow> bindE (asUInt64 m) (\<lambda>v. Inr (MessageObject (mo_id m) (DateTime v)))
      | DOUBLE \<Rightarrow> bindE (asDouble m) (\<lambda>v. Inr (MessageObject (mo_id m) (Dbl v)))
      | BOOLEAN \<Rightarrow> bindE (asBool m) (\<lambda>v. Inr (MessageObject (mo_id m) (Bool v)))
      | OTHER_TYPE b \<Rightarrow> Inl UndefinedBehaviour)"

definition addChild :: "message_object \<Rightarrow> message_object \<Rightarrow> message_object result" where
  "addChild c m = bindE (asObject m) (\<lambda>cs. Inr (MessageObject (mo_id m) (Obj (cs @ [c]))))"

definition get_child :: "(message_object \<Rightarrow> 'a result) \<Rightarrow> u32 \<Rightarrow> message_object \<Rightarrow> 'a result" where
  "get_child conv i m =
     bindE (asObject m) (\<lambda>cs.
       case find (\<lambda>f. mo_id f = i) cs of None \<Rightarrow> Inl kIndexError | Some f \<Rightarrow> conv f)"

definition getObject :: "u32 \<Rightarrow> message_object \<Rightarrow> message_object result" where
  "getObject i m = get_child Inr i m"

definition getObjects :: "u32 \<Rightarrow> message_object \<Rightarrow> message_object list result" where
  "getObjects i m = bindE (asObject m) (\<lambda>cs. Inr (filter (\<lambda>f. mo_id f = i) cs))"

definition fieldCount :: "u32 \<Rightarrow> message_object \<Rightarrow> nat result" where
  "fieldCount i m = bindE (asObject m) (\<lambda>cs. Inr (length (filter (\<lambda>f. mo_id f = i) cs)))"

definition getUInt32 :: "u32 \<Rightarrow> message_object \<Rightarrow> u32 result" where
  "getUInt32 i m = get_child asUInt32 i m"

definition getUInt64 :: "u32 \<Rightarrow> message_object \<Rightarrow> u64 result" where
  "getUInt64 i m = get_child asUInt64 i m"

definition getString :: "u32 \<Rightarrow> message_object \<Rightarrow> string result" where
  "getString i m = get_child asString i m"

definition getUnixTime :: "u32 \<Rightarrow> message_object \<Rightarrow> u64 result" where
  "getUnixTime i m = get_child asUnixTime i m"

definition getDouble :: "u32 \<Rightarrow> message_object \<Rightarrow> u64 result" where
  "getDouble i m = get_child asDouble i m"

definition getBool :: "u32 \<Rightarrow> message_object \<Rightarrow> bool result" where
  "getBool i m = get_child asBool i m"

lemma copy_object_id [simp]: "copy_object m = Inr m"
  by (cases m rule: mo_type.cases)
     (simp_all add: asObject_def asString_def asUInt32_def asUInt64_def asDouble_def asBool_def)

declare copy_object.simps [simp del]

section \<open>MessageEncoder\<close>

text \<open>The handler of \<open>encodeObject\<close> asks the schema for the name of the field and may raise itself.\<close>

definition catch_field :: "u32 \<Rightarrow> message_schema \<Rightarrow> 'a comp \<Rightarrow> 'a comp" where
  "catch_field i sc m =
     Option.bind m (\<lambda>r. case r of
         Inr x \<Rightarrow> ret x
       | Inl e \<Rightarrow>
           (if e = UndefinedBehaviour then raise e
            else case fieldName i sc of Inl e' \<Rightarrow> raise e' | Inr _ \<Rightarrow> raise kRuntimeError))"

fun encodeObject :: "message_object \<Rightarrow> message_schema \<Rightarrow> bmw \<Rightarrow> bmw comp"
  and encodeObjects :: "message_object list \<Rightarrow> message_schema \<Rightarrow> bmw \<Rightarrow> bmw comp" where
  "encodeObject (MessageObject i d) sc w =
     catch_field i sc
       (bindC (Some (fieldType i sc)) (\<lambda>t.
          case t of
            OBJECT \<Rightarrow>
              bindC (Some (fieldSchema i sc)) (\<lambda>obj_schema.
              bindC (case d of
                       Obj cs \<Rightarrow>
                         (case obj_schema of
                            None \<Rightarrow> if cs = [] then ret (bmw_new 4096) else raise UndefinedBehaviour
                          | Some os \<Rightarrow> encodeObjects cs os (bmw_new 4096))
                     | _ \<Rightarrow> raise kTypeError) (\<lambda>cld.
              bindC (bmw_appendVarUInt (ucast (push_bit 3 i OR 0x2)) w) (\<lambda>w.
              bindC (bmw_appendVarUInt (word_of_nat (length (bmw_data cld))) w) (\<lambda>w.
              bmw_append (bmw_data cld) w))))
          | STRING \<Rightarrow>
              bindC (Some (asString (MessageObject i d))) (\<lambda>str.
              bindC (bmw_appendVarUInt (ucast (push_bit 3 i OR 0x2)) w) (\<lambda>w.
              bindC (bmw_appendVarUInt (word_of_nat (length str)) w) (\<lambda>w.
              bmw_append (bytes_of str) w)))
          | UINT32 \<Rightarrow>
              bindC (bmw_appendVarUInt (ucast (push_bit 3 i OR 0x0)) w) (\<lambda>w.
              bindC (Some (asUInt32 (MessageObject i d))) (\<lambda>v. bmw_appendVarUInt (ucast v) w))
          | UINT64 \<Rightarrow>
              bindC (bmw_appendVarUInt (ucast (push_bit 3 i OR 0x0)) w) (\<lambda>w.
              bindC (Some (asUInt64 (MessageObject i d))) (\<lambda>v. bmw_appendVarUInt v w))
          | DATETIME \<Rightarrow>
              bindC (bmw_appendVarUInt (ucast (push_bit 3 i OR 0x0)) w) (\<lambda>w.
              bindC (Some (asUInt64 (MessageObject i d))) (\<lambda>v. bmw_appendVarUInt v w))
          | DOUBLE \<Rightarrow>
              bindC (bmw_appendVarUInt (ucast (push_bit 3 i OR 0x1)) w) (\<lambda>w.
              bindC (Some (asDouble (MessageObject i d))) (\<lambda>v. bmw_appendUInt64 v w))
          | BOOLEAN \<Rightarrow>
              bindC (bmw_appendVarUInt (ucast (push_bit 3 i OR 0x0)) w) (\<lambda>w.
              bindC (Some (asBool (MessageObject i d))) (\<lambda>b. bmw_appendVarUInt (if b then 1 else 0) w))
          | OTHER_TYPE b \<Rightarrow> ret w))"
| "encodeObjects [] sc w = ret w"
| "encodeObjects (c # cs) sc w = bindC (encodeObject c sc w) (\<lambda>w. encodeObjects cs sc w)"

definition MessageEncoder_encode :: "message_object \<Rightarrow> message_schema \<Rightarrow> buffer \<Rightarrow> buffer comp" where
  "MessageEncoder_encode msg sc buf =
     bindC (Some (asObject msg)) (\<lambda>cs.
     bindC (encodeObjects cs sc (bmw_new 4096)) (\<lambda>body. ret (append_bytes (bmw_data body) buf)))"

section \<open>MessageDecoder\<close>

text \<open>Skipping an unknown field by its wire type.\<close>

definition skip_field :: "u64 \<Rightarrow> bmr \<Rightarrow> bmr result" where
  "skip_field fkey r =
     (let wire_type = fkey AND 0x7
      in if wire_type = 0 then bindE (bmr_readVarUInt r) (\<lambda>(_, r). Inr r)
         else if wire_type = 2 then bindE (bmr_readVarUInt r) (\<lambda>(n, r). bmr_advance n r)
         else if wire_type = 5 then bmr_advance 4 r
         else if wire_type = 1 then bmr_advance 8 r
         else Inl kRuntimeError)"

definition decode_scalar :: "FieldType \<Rightarrow> u32 \<Rightarrow> bmr \<Rightarrow> (message_object list \<times> bmr) result" where
  "decode_scalar t fid r =
     (case t of
        UINT32 \<Rightarrow> bindE (bmr_readVarUInt r) (\<lambda>(v, r). Inr ([MessageObject fid (U32 (ucast v))], r))
      | UINT64 \<Rightarrow> bindE (bmr_readVarUInt r) (\<lambda>(v, r). Inr ([MessageObject fid (U64 v)], r))
      | DATETIME \<Rightarrow> bindE (bmr_readVarUInt r) (\<lambda>(v, r). Inr ([MessageObject fid (DateTime v)], r))
      | DOUBLE \<Rightarrow> bindE (bmr_readUInt64 r) (\<lambda>(v, r). Inr ([MessageObject fid (Dbl v)], r))
      | BOOLEAN \<Rightarrow> bindE (bmr_readVarUInt r) (\<lambda>(v, r). Inr ([MessageObject fid (Bool (v = 1))], r))
      | STRING \<Rightarrow>
          bindE (bmr_readVarUInt r) (\<lambda>(len, r).
          bindE (bmr_read len r) (\<lambda>(bs, r). Inr ([MessageObject fid (Str (string_of bs))], r)))
      | _ \<Rightarrow> Inr ([], r))"

text \<open>
  The loop on the reader; \<open>cs\<close> are the children the message has so far. The field id is cut to 32
  bits where the code passes it on.
\<close>

partial_function (option) decode_loop ::
  "message_schema \<Rightarrow> bmr \<Rightarrow> message_object list \<Rightarrow> message_object list comp" where
  "decode_loop sc r cs =
     (if bmr_remaining r > 0
      then
        bindC (Some (bmr_readVarUInt r)) (\<lambda>(fkey, r).
          let fid = ucast (drop_bit 3 fkey)
          in if \<not> hasField fid sc
             then bindC (Some (skip_field fkey r)) (\<lambda>r. decode_loop sc r cs)
             else
               bindC (Some (fieldType fid sc)) (\<lambda>t.
                 if t = OBJECT
                 then
                   bindC (Some (bmr_readVarUInt r)) (\<lambda>(len, r).
                     if len > bmr_remaining r then raise kBufferOverflowError
                     else
                       bindC (Some (fieldSchema fid sc)) (\<lambda>obj_schema.
                       bindC (Some (bmr_read len r)) (\<lambda>(bs, r).
                       bindC (case obj_schema of
                                None \<Rightarrow> raise UndefinedBehaviour
                              | Some os \<Rightarrow> decode_loop os (bmr_new bs len) []) (\<lambda>nxt.
                       decode_loop sc r (cs @ [MessageObject fid (Obj nxt)])))))
                 else
                   bindC (Some (decode_scalar t fid r)) (\<lambda>(c, r). decode_loop sc r (cs @ c))))
      else ret cs)"

declare decode_loop.simps [code]

definition MessageDecoder_decode :: "byte list \<Rightarrow> message_schema \<Rightarrow> message_object \<Rightarrow> message_object comp" where
  "MessageDecoder_decode data sc msg =
     bindC (Some (asObject msg)) (\<lambda>cs.
     bindC (decode_loop sc (bmr_new data (word_of_nat (length data))) cs) (\<lambda>cs'.
     ret (MessageObject (mo_id msg) (Obj cs'))))"

section \<open>Decoding an encoded message\<close>

text \<open>A message that follows a schema, with ids that fit the three bits the key needs for the wire type.\<close>

fun conforms :: "message_object \<Rightarrow> message_schema \<Rightarrow> bool"
  and conforms_all :: "message_object list \<Rightarrow> message_schema \<Rightarrow> bool" where
  "conforms (MessageObject i d) sc \<longleftrightarrow>
     i \<noteq> 0 \<and> unat i < 2 ^ 29 \<and> sc_types sc i = Some (mo_type (MessageObject i d)) \<and>
     (case d of
        Obj cs \<Rightarrow> (case fieldSchema i sc of Inr (Some os) \<Rightarrow> conforms_all cs os | _ \<Rightarrow> False)
      | _ \<Rightarrow> True)"
| "conforms_all [] sc \<longleftrightarrow> True"
| "conforms_all (c # cs) sc \<longleftrightarrow> conforms c sc \<and> conforms_all cs sc"

definition key_bytes :: "u32 \<Rightarrow> u32 \<Rightarrow> byte list" where
  "key_bytes i wt = varuint_bytes (ucast (push_bit 3 i OR wt))"

definition block :: "byte list \<Rightarrow> byte list" where
  "block bs = varuint_bytes (word_of_nat (length bs)) @ bs"

fun object_bytes :: "message_object \<Rightarrow> byte list"
  and objects_bytes :: "message_object list \<Rightarrow> byte list" where
  "object_bytes (MessageObject i d) =
     (case d of
        Obj cs \<Rightarrow> key_bytes i 2 @ block (objects_bytes cs)
      | Str s \<Rightarrow> key_bytes i 2 @ block (bytes_of s)
      | U32 v \<Rightarrow> key_bytes i 0 @ varuint_bytes (ucast v)
      | U64 v \<Rightarrow> key_bytes i 0 @ varuint_bytes v
      | Dbl v \<Rightarrow> key_bytes i 1 @ le_bytes 8 v
      | Bool b \<Rightarrow> key_bytes i 0 @ varuint_bytes (if b then 1 else 0)
      | DateTime v \<Rightarrow> key_bytes i 0 @ varuint_bytes v)"
| "objects_bytes [] = []"
| "objects_bytes (c # cs) = object_bytes c @ objects_bytes cs"

lemma writes_catch: "writes f bs \<Longrightarrow> writes (\<lambda>w. catch_field i sc (f w)) bs"
  by (fastforce simp: writes_def catch_field_def)

lemma writes_key: "writes (bmw_appendVarUInt (ucast (push_bit 3 i OR wt))) (key_bytes i wt)"
  unfolding key_bytes_def by (rule writes_VarUInt)

lemma writes_block:
  "writes (\<lambda>w. bindC (bmw_appendVarUInt (ucast (push_bit 3 i OR wt)) w) (\<lambda>w.
     bindC (bmw_appendVarUInt (word_of_nat (length bs)) w) (\<lambda>w. bmw_append bs w))) (key_bytes i wt @ block bs)"
  unfolding block_def by (intro writes_bind writes_key format_rules)

lemma fieldType_conforms:
  "conforms (MessageObject i d) sc \<Longrightarrow> fieldType i sc = Inr (mo_type (MessageObject i d))"
  by (simp add: fieldType_def)

lemma writes_objects:
  "conforms m sc \<Longrightarrow> writes (encodeObject m sc) (object_bytes m)"
  "conforms_all ms sc \<Longrightarrow> writes (encodeObjects ms sc) (objects_bytes ms)"
proof (induction m and ms arbitrary: sc and sc rule: object_bytes_objects_bytes.induct)
  case (1 i d)
  note ft = fieldType_conforms [OF "1.prems"]
  show ?case
  proof (cases d)
    case (Obj cs)
    then obtain os where os: "fieldSchema i sc = Inr (Some os)" "conforms_all cs os"
      using "1.prems" by (auto split: sum.splits option.splits)
    obtain w where w: "encodeObjects cs os (bmw_new 4096) = ret w" "bmw_data w = objects_bytes cs"
      using "1.IH" [OF Obj os(2)] bmw_new_ok [of 4096] unfolding writes_def by force
    show ?thesis
      unfolding encodeObject.simps [abs_def] using ft Obj os(1) w
      by (simp add: writes_catch writes_block)
  next
    case (Str str)
    then show ?thesis
      unfolding encodeObject.simps [abs_def] using ft writes_block [of i 2 "bytes_of str"]
      by (simp add: writes_catch asString_def)
  next
    case (U32 v)
    then show ?thesis
      unfolding encodeObject.simps [abs_def]
      using ft writes_catch [OF writes_bind [OF writes_key [of i 0] writes_VarUInt [of "ucast v"]], of i sc]
      by (simp add: asUInt32_def)
  next
    case (U64 v)
    then show ?thesis
      unfolding encodeObject.simps [abs_def]
      using ft writes_catch [OF writes_bind [OF writes_key [of i 0] writes_VarUInt [of v]], of i sc]
      by (simp add: asUInt64_def)
  next
    case (Dbl v)
    then show ?thesis
      unfolding encodeObject.simps [abs_def]
      using ft writes_catch [OF writes_bind [OF writes_key [of i 1] writes_UInt64 [of v]], of i sc]
      by (simp add: asDouble_def)
  next
    case (Bool b)
    then show ?thesis
      unfolding encodeObject.simps [abs_def]
      using ft writes_catch [OF writes_bind [OF writes_key [of i 0] writes_VarUInt [of "if b then 1 else 0"]], of i sc]
      by (simp add: asBool_def)
  next
    case (DateTime v)
    then show ?thesis
      unfolding encodeObject.simps [abs_def]
      using ft writes_catch [OF writes_bind [OF writes_key [of i 0] writes_VarUInt [of v]], of i sc]
      by (simp add: asUInt64_def)
  qed
next
  case 2
  show ?case by (simp add: writes_def)
next
  case (3 c cs)
  then show ?case
    unfolding encodeObjects.simps [abs_def] objects_bytes.simps by (intro writes_bind) auto
qed

text \<open>The key survives: the id comes back, and a field of the schema is recognised as known.\<close>

lemma key_id:
  assumes "unat i < 2 ^ 29" "wt \<in> {0, 1, 2}"
  shows "ucast (drop_bit 3 (ucast (push_bit 3 i OR wt) :: u64)) = (i :: u32)"
proof (rule bit_word_eqI)
  fix n
  have wt: "\<not> bit wt (3 + n)" using assms(2) by (auto simp: bit_numeral_rec bit_1_iff)
  have "bit i n \<Longrightarrow> n < 29"
  proof (rule ccontr)
    assume "bit i n" "\<not> n < 29"
    then have "unat i < 2 ^ n"
      using assms(1) by (meson less_le_trans not_less one_le_numeral power_increasing)
    then have "\<not> bit (unat i) n" by (simp add: bit_iff_odd)
    with \<open>bit i n\<close> show False by (simp add: bit_unsigned_iff)
  qed
  then show "bit (ucast (drop_bit 3 (ucast (push_bit 3 i OR wt) :: u64)) :: u32) n = bit i n"
    using wt by (auto simp: bit_unsigned_iff bit_drop_bit_eq bit_or_iff bit_push_bit_iff)
qed

lemma bmr_remaining_length: "bmr_invar r \<Longrightarrow> unat (bmr_remaining r) = length (bmr_rest r)"
  using length_bmr_rest [of r] by (simp add: bmr_remaining_def bmr_invar_def unat_sub)

lemma bmr_remaining_pos: "bmr_invar r \<Longrightarrow> bmr_remaining r > 0 \<longleftrightarrow> bmr_rest r \<noteq> []"
  using bmr_remaining_length [of r] by (metis length_greater_0_conv unat_gt_0 word_gt_0)

lemma bmr_rest_bound: "bmr_invar r \<Longrightarrow> length (bmr_rest r) + 1 < 2 ^ 64"
  using length_bmr_rest [of r] by (auto simp: bmr_invar_def)

lemma key_bytes_nonempty [simp]: "key_bytes i wt \<noteq> []"
  by (simp add: key_bytes_def)

lemma decode_loop_known:
  assumes "bmr_invar r" "bmr_rest r = key_bytes i wt @ rest" "unat i < 2 ^ 29" "wt \<in> {0, 1, 2}"
    and "hasField i sc" "fieldType i sc = Inr t"
  obtains r1 where "bmr_invar r1" "bmr_rest r1 = rest"
    "t \<noteq> OBJECT \<Longrightarrow> decode_loop sc r cs =
       bindC (Some (decode_scalar t i r1)) (\<lambda>(c, r). decode_loop sc r (cs @ c))"
    "t = OBJECT \<Longrightarrow> decode_loop sc r cs =
       bindC (Some (bmr_readVarUInt r1)) (\<lambda>(len, r).
         if len > bmr_remaining r then raise kBufferOverflowError
         else
           bindC (Some (fieldSchema i sc)) (\<lambda>obj_schema.
           bindC (Some (bmr_read len r)) (\<lambda>(bs, r).
           bindC (case obj_schema of
                    None \<Rightarrow> raise UndefinedBehaviour
                  | Some os \<Rightarrow> decode_loop os (bmr_new bs len) []) (\<lambda>nxt.
           decode_loop sc r (cs @ [MessageObject i (Obj nxt)])))))"
proof -
  define k where "k = (ucast (push_bit 3 i OR wt) :: u64)"
  obtain r1 where r1: "bmr_readVarUInt r = Inr (k, r1)" "bmr_invar r1" "bmr_rest r1 = rest"
    using bmr_readVarUInt_ok [OF assms(1)] assms(2) unfolding key_bytes_def k_def by blast
  have pos: "bmr_remaining r > 0" using bmr_remaining_pos [OF assms(1)] assms(2) by simp
  note id = key_id [OF assms(3,4), folded k_def]
  show ?thesis
    by (rule that [OF r1(2,3)]; subst decode_loop.simps)
       (simp_all add: pos r1(1) id assms(5,6) Let_def cong: if_cong)
qed

lemma decode_block:
  assumes "bmr_invar r" "bmr_rest r = block bs @ rest"
  obtains r1 r2 where "bmr_readVarUInt r = Inr (word_of_nat (length bs), r1)"
    "\<not> word_of_nat (length bs) > bmr_remaining r1" "bmr_read (word_of_nat (length bs)) r1 = Inr (bs, r2)"
    "bmr_invar r2" "bmr_rest r2 = rest"
proof -
  have len: "length bs + 1 < 2 ^ 64"
    using bmr_rest_bound [OF assms(1)] assms(2) by (simp add: block_def)
  then have n: "unat (word_of_nat (length bs) :: u64) = length bs" by (simp add: unat_of_nat)
  obtain r1 where r1: "bmr_readVarUInt r = Inr (word_of_nat (length bs), r1)" "bmr_invar r1"
    "bmr_rest r1 = bs @ rest"
    using bmr_readVarUInt_ok [OF assms(1)] assms(2) unfolding block_def by force
  moreover have "\<not> word_of_nat (length bs) > bmr_remaining r1"
    using bmr_remaining_length [OF r1(2)] r1(3) n by (simp add: word_less_nat_alt)
  moreover obtain r2 where "bmr_read (word_of_nat (length bs)) r1 = Inr (bs, r2)" "bmr_invar r2"
    "bmr_rest r2 = rest"
    using bmr_read_ok [OF r1(2), of "word_of_nat (length bs)"] n r1(3) by auto
  ultimately show ?thesis using that by blast
qed

lemma decode_objects:
  "conforms m sc \<Longrightarrow> bmr_invar r \<Longrightarrow> bmr_rest r = object_bytes m @ rest \<Longrightarrow>
   \<exists>r'. decode_loop sc r cs = decode_loop sc r' (cs @ [m]) \<and> bmr_invar r' \<and> bmr_rest r' = rest"
  "conforms_all ms sc \<Longrightarrow> bmr_invar r \<Longrightarrow> bmr_rest r = objects_bytes ms \<Longrightarrow>
   decode_loop sc r cs = ret (cs @ ms)"
proof (induction m and ms arbitrary: sc r rest cs and sc r cs rule: object_bytes_objects_bytes.induct)
  case (1 i d)
  have i: "unat i < 2 ^ 29" "hasField i sc" "fieldType i sc = Inr (mo_type (MessageObject i d))"
    using "1.prems"(1) fieldType_conforms by (auto simp: hasField_def)
  note known = decode_loop_known [OF "1.prems"(2) _ i(1) _ i(2,3), where cs = cs]
  show ?case
  proof (cases d)
    case (Obj ms)
    obtain os where os: "fieldSchema i sc = Inr (Some os)" "conforms_all ms os"
      using "1.prems"(1) Obj by (auto split: sum.splits option.splits)
    let ?bs = "objects_bytes ms" and ?n = "word_of_nat (length (objects_bytes ms)) :: u64"
    obtain r1 where r1: "bmr_invar r1" "bmr_rest r1 = block ?bs @ rest"
      "decode_loop sc r cs = bindC (Some (bmr_readVarUInt r1)) (\<lambda>(len, r).
         if len > bmr_remaining r then raise kBufferOverflowError
         else
           bindC (Some (fieldSchema i sc)) (\<lambda>obj_schema.
           bindC (Some (bmr_read len r)) (\<lambda>(bs, r).
           bindC (case obj_schema of
                    None \<Rightarrow> raise UndefinedBehaviour
                  | Some os \<Rightarrow> decode_loop os (bmr_new bs len) []) (\<lambda>nxt.
           decode_loop sc r (cs @ [MessageObject i (Obj nxt)])))))"
      by (rule known [of 2 "block ?bs @ rest"]) (use "1.prems"(3) Obj in auto)
    obtain r2 r3 where r3: "bmr_readVarUInt r1 = Inr (?n, r2)" "\<not> ?n > bmr_remaining r2"
      "bmr_read ?n r2 = Inr (?bs, r3)" "bmr_invar r3" "bmr_rest r3 = rest"
      using decode_block [OF r1(1,2)] by blast
    have "length ?bs + 1 < 2 ^ 64"
      using bmr_rest_bound [OF r1(1)] r1(2) by (simp add: block_def)
    then have "decode_loop os (bmr_new ?bs ?n) [] = ret ms"
      using "1.IH" [OF Obj os(2), of "bmr_new ?bs ?n" "[]"] bmr_new_ok [of ?bs] by simp
    with r1(3) r3 os(1) Obj show ?thesis by auto
  next
    case (Str str)
    obtain r1 where r1: "bmr_invar r1" "bmr_rest r1 = block (bytes_of str) @ rest" "decode_loop sc r cs =
       bindC (Some (decode_scalar STRING i r1)) (\<lambda>(c, r). decode_loop sc r (cs @ c))"
      by (rule known [of 2 "block (bytes_of str) @ rest"]) (use "1.prems"(3) Str in auto)
    obtain r2 r3 where "bmr_readVarUInt r1 = Inr (word_of_nat (length str), r2)"
      "bmr_read (word_of_nat (length str)) r2 = Inr (bytes_of str, r3)" "bmr_invar r3" "bmr_rest r3 = rest"
      using decode_block [OF r1(1,2)] unfolding length_map by metis
    with r1(3) Str show ?thesis by (auto simp: decode_scalar_def)
  next
    case (U32 v)
    obtain r1 where r1: "bmr_invar r1" "bmr_rest r1 = varuint_bytes (ucast v) @ rest" "decode_loop sc r cs =
       bindC (Some (decode_scalar UINT32 i r1)) (\<lambda>(c, r). decode_loop sc r (cs @ c))"
      by (rule known [of 0 "varuint_bytes (ucast v) @ rest"]) (use "1.prems"(3) U32 in auto)
    then show ?thesis
      using bmr_readVarUInt_ok [OF r1(1,2)] U32 by (auto simp: decode_scalar_def)
  next
    case (U64 v)
    obtain r1 where r1: "bmr_invar r1" "bmr_rest r1 = varuint_bytes v @ rest" "decode_loop sc r cs =
       bindC (Some (decode_scalar UINT64 i r1)) (\<lambda>(c, r). decode_loop sc r (cs @ c))"
      by (rule known [of 0 "varuint_bytes v @ rest"]) (use "1.prems"(3) U64 in auto)
    then show ?thesis
      using bmr_readVarUInt_ok [OF r1(1,2)] U64 by (auto simp: decode_scalar_def)
  next
    case (Dbl v)
    obtain r1 where r1: "bmr_invar r1" "bmr_rest r1 = le_bytes 8 v @ rest" "decode_loop sc r cs =
       bindC (Some (decode_scalar DOUBLE i r1)) (\<lambda>(c, r). decode_loop sc r (cs @ c))"
      by (rule known [of 1 "le_bytes 8 v @ rest"]) (use "1.prems"(3) Dbl in auto)
    then show ?thesis
      using bmr_readUInt64_ok [OF r1(1,2)] Dbl by (auto simp: decode_scalar_def)
  next
    case (Bool b)
    let ?v = "if b then 1 else 0 :: u64"
    obtain r1 where r1: "bmr_invar r1" "bmr_rest r1 = varuint_bytes ?v @ rest" "decode_loop sc r cs =
       bindC (Some (decode_scalar BOOLEAN i r1)) (\<lambda>(c, r). decode_loop sc r (cs @ c))"
      by (rule known [of 0 "varuint_bytes ?v @ rest"]) (use "1.prems"(3) Bool in auto)
    have "(?v = 1) = b" by simp
    then show ?thesis
      using bmr_readVarUInt_ok [OF r1(1,2)] Bool r1(3) by (fastforce simp: decode_scalar_def)
  next
    case (DateTime v)
    obtain r1 where r1: "bmr_invar r1" "bmr_rest r1 = varuint_bytes v @ rest" "decode_loop sc r cs =
       bindC (Some (decode_scalar DATETIME i r1)) (\<lambda>(c, r). decode_loop sc r (cs @ c))"
      by (rule known [of 0 "varuint_bytes v @ rest"]) (use "1.prems"(3) DateTime in auto)
    then show ?thesis
      using bmr_readVarUInt_ok [OF r1(1,2)] DateTime by (auto simp: decode_scalar_def)
  qed
next
  case 2
  then show ?case using bmr_remaining_pos [of r] by (subst decode_loop.simps) simp
next
  case (3 c ms)
  have "conforms c sc" "bmr_rest r = object_bytes c @ objects_bytes ms" using "3.prems" by simp_all
  then obtain r' where "decode_loop sc r cs = decode_loop sc r' (cs @ [c])" "bmr_invar r'"
    "bmr_rest r' = objects_bytes ms"
    using "3.IH"(1) [OF _ "3.prems"(2)] by blast
  with "3.IH"(2) [of sc r' "cs @ [c]"] "3.prems"(1) show ?case by simp
qed

lemma encode_decode_objects:
  assumes "conforms_all cs sc" "length (objects_bytes cs) + 1 < 2 ^ 64"
  shows "\<exists>b. MessageEncoder_encode (MessageObject i (Obj cs)) sc buffer_new = ret b \<and> contents b = objects_bytes cs \<and>
    MessageDecoder_decode (contents b) sc (MessageObject i (Obj [])) = ret (MessageObject i (Obj cs))"
proof -
  obtain w where w: "encodeObjects cs sc (bmw_new 4096) = ret w" "bmw_data w = objects_bytes cs"
    using writes_objects(2) [OF assms(1)] bmw_new_ok [of 4096] unfolding writes_def by force
  let ?bs = "objects_bytes cs"
  have "decode_loop sc (bmr_new ?bs (word_of_nat (length ?bs))) [] = ret ([] @ cs)"
    using bmr_new_ok [OF assms(2)] by (intro decode_objects(2) [OF assms(1)]) auto
  moreover have "contents (append_bytes ?bs buffer_new) = ?bs"
    using contents_append_bytes [of buffer_new] by (simp add: buffer_init_wf)
  ultimately show ?thesis
    using w by (simp add: MessageEncoder_encode_def MessageDecoder_decode_def asObject_def)
qed

text \<open>C1. Every message that conforms to a schema survives the wire: \<open>MessageEncoder::encode\<close> returns
  without an error and \<open>MessageDecoder::decode\<close> with the same schema rebuilds the message, with all
  its nested objects and the order of its fields.\<close>

theorem message_roundtrip:
  assumes "conforms_all cs sc" "length (objects_bytes cs) + 1 < 2 ^ 64"
  shows "\<exists>b. MessageEncoder_encode (MessageObject i (Obj cs)) sc buffer_new = ret b \<and>
    MessageDecoder_decode (contents b) sc (MessageObject i (Obj [])) = ret (MessageObject i (Obj cs))"
  using encode_decode_objects [OF assms] by blast

theorem message_roundtrip_witness:
  "\<exists>sc b. sc = MessageSchema ''m'' [Field 1 ''a'' UINT32 0 False False NONE None,
       mkObjectField 2 ''sub'' True False (MessageSchema ''s'' [Field 7 ''x'' STRING 0 False False NONE None])] \<and>
     MessageEncoder_encode (MessageObject 0 (Obj [MessageObject 1 (U32 300),
       MessageObject 2 (Obj [MessageObject 7 (Str ''hi'')])])) sc buffer_new = ret b \<and>
     MessageDecoder_decode (contents b) sc (MessageObject 0 (Obj [])) =
       ret (MessageObject 0 (Obj [MessageObject 1 (U32 300),
         MessageObject 2 (Obj [MessageObject 7 (Str ''hi'')])]))"
proof -
  let ?sc = "MessageSchema ''m'' [Field 1 ''a'' UINT32 0 False False NONE None,
       mkObjectField 2 ''sub'' True False (MessageSchema ''s'' [Field 7 ''x'' STRING 0 False False NONE None])]"
  let ?cs = "[MessageObject 1 (U32 300), MessageObject 2 (Obj [MessageObject 7 (Str ''hi'')])]"
  have "conforms_all ?cs ?sc"
    by (simp add: MessageSchema_def addField_def setName_def schema_null_def mkObjectField_def
        fieldType_def fieldSchema_def emplace_def)
  moreover have "length (objects_bytes ?cs) + 1 < 2 ^ 64"
    by (simp add: key_bytes_def block_def varuint_bytes.simps)
  ultimately show ?thesis using message_roundtrip [of ?cs ?sc 0] by blast
qed

text \<open>Adding a child to an object appends it: \<open>getObjects\<close> and \<open>fieldCount\<close> see one field more with
  its id, \<open>getObject\<close> still answers with the first field of that id, and copying the result copies
  it exactly, whatever the types of its fields.\<close>

theorem addChild_correct:
  assumes "asObject m = Inr cs"
  shows "\<exists>m'. addChild c m = Inr m' \<and> copy_object m' = Inr m' \<and>
    getObjects (mo_id c) m' = Inr (filter (\<lambda>f. mo_id f = mo_id c) cs @ [c]) \<and>
    fieldCount (mo_id c) m' = Inr (length (filter (\<lambda>f. mo_id f = mo_id c) cs) + 1) \<and>
    getObject (mo_id c) m' = Inr (case find (\<lambda>f. mo_id f = mo_id c) cs of None \<Rightarrow> c | Some f \<Rightarrow> f)"
  using assms by (simp add: addChild_def getObjects_def fieldCount_def getObject_def get_child_def
      find_append del: copy_object.simps split: option.split)

theorem addChild_correct_witness:
  "\<exists>m'. addChild (MessageObject 3 (Bool True)) (MessageObject 0 (Obj [MessageObject 3 (Bool False)])) = Inr m' \<and>
     fieldCount 3 m' = Inr 2 \<and> getObject 3 m' = Inr (MessageObject 3 (Bool False))"
  using addChild_correct [of "MessageObject 0 (Obj [MessageObject 3 (Bool False)])"
      "[MessageObject 3 (Bool False)]" "MessageObject 3 (Bool True)"]
  by (auto simp: asObject_def)

end
