(* ===== verification/Stx_Monitor.thy ===== *)
theory Stx_Monitor
  imports Stx_Prelude
begin

text \<open>
  Operations of the thread library run under a mutex, may wait on a condition variable and notify
  all waiting threads after they have released the mutex. This theory has the part that the queues
  and the thread pools share.

  A critical section is a function \<open>attempt e op k q\<close>: from the environment \<open>e\<close> (what it reads of
  the world, such as the clock), the operation, the number \<open>k\<close> of waits it has behind it and the
  protected state \<open>q\<close> it either is \<open>Done\<close>, with the new state, the result and whether it notifies,
  or it waits: \<open>Block\<close> until it is notified, \<open>BlockFor\<close> until it is notified or a timeout has
  passed. Any thread may start any operation at any time, a waiting thread may also wake up without
  a notification, and the notification is a step of its own, after the mutex was released.
\<close>

datatype ('q, 'r) attempt = Done 'q 'r bool | Block nat | BlockFor nat

datatype ('op, 'r) thread_state =
    Idle
  | Waiting 'op nat bool
  | Woken 'op nat
  | Notifying 'r

type_synonym ('e, 'op, 'q, 'r) critical = "'e \<Rightarrow> 'op \<Rightarrow> nat \<Rightarrow> 'q \<Rightarrow> ('q, 'r) attempt"

record ('q, 'op, 'r) monitor =
  mon_q :: 'q
  mon_t :: "nat \<Rightarrow> ('op, 'r) thread_state"
  mon_log :: "('op \<times> 'r) list"

definition mon_init :: "'q \<Rightarrow> ('q, 'op, 'r) monitor" where
  "mon_init q = \<lparr>mon_q = q, mon_t = (\<lambda>_. Idle), mon_log = []\<rparr>"

fun wake :: "('op, 'r) thread_state \<Rightarrow> ('op, 'r) thread_state" where
  "wake (Waiting op k timed) = Woken op k"
| "wake t = t"

definition section_end ::
  "nat \<Rightarrow> 'op \<Rightarrow> ('q, 'r) attempt \<Rightarrow> ('q, 'op, 'r) monitor \<Rightarrow> ('q, 'op, 'r) monitor" where
  "section_end i op a s =
     (case a of
        Done q r notify \<Rightarrow>
          s\<lparr>mon_q := q, mon_t := (mon_t s)(i := if notify then Notifying r else Idle),
            mon_log := mon_log s @ [(op, r)]\<rparr>
      | Block k \<Rightarrow> s\<lparr>mon_t := (mon_t s)(i := Waiting op k False)\<rparr>
      | BlockFor k \<Rightarrow> s\<lparr>mon_t := (mon_t s)(i := Waiting op k True)\<rparr>)"

inductive mon_step ::
  "('e, 'op, 'q, 'r) critical \<Rightarrow> ('q, 'op, 'r) monitor \<Rightarrow> ('q, 'op, 'r) monitor \<Rightarrow> bool"
  for attempt where
  call: "mon_t s i = Idle \<Longrightarrow>
    mon_step attempt s (section_end i op (attempt e op 0 (mon_q s)) s)"
| resume: "mon_t s i = Woken op k \<Longrightarrow>
    mon_step attempt s (section_end i op (attempt e op k (mon_q s)) s)"
| notify: "mon_t s i = Notifying r \<Longrightarrow>
    mon_step attempt s (s\<lparr>mon_t := wake \<circ> (mon_t s)(i := Idle)\<rparr>)"
| wakeup: "mon_step attempt s (s\<lparr>mon_t := wake \<circ> mon_t s\<rparr>)"
| spurious: "mon_t s i = Waiting op k timed \<Longrightarrow>
    mon_step attempt s (s\<lparr>mon_t := (mon_t s)(i := Woken op k)\<rparr>)"

inductive mon_reach ::
  "('e, 'op, 'q, 'r) critical \<Rightarrow> 'q \<Rightarrow> ('q, 'op, 'r) monitor \<Rightarrow> bool"
  for attempt q0 where
  init: "mon_reach attempt q0 (mon_init q0)"
| step: "mon_reach attempt q0 s \<Longrightarrow> mon_step attempt s s' \<Longrightarrow> mon_reach attempt q0 s'"

lemma reach_call:
  "mon_reach attempt q0 s \<Longrightarrow> mon_t s i = Idle \<Longrightarrow>
   mon_reach attempt q0 (section_end i op (attempt e op 0 (mon_q s)) s)"
  by (blast intro: mon_reach.step call)

text \<open>What the completed critical sections did, one after the other.\<close>

inductive replay :: "('e, 'op, 'q, 'r) critical \<Rightarrow> 'q \<Rightarrow> ('op \<times> 'r) list \<Rightarrow> 'q \<Rightarrow> bool"
  for attempt q0 where
  replay_Nil: "replay attempt q0 [] q0"
| replay_snoc: "replay attempt q0 l q \<Longrightarrow> attempt e op k q = Done q' r n \<Longrightarrow>
    replay attempt q0 (l @ [(op, r)]) q'"

inductive_cases replay_NilE: "replay attempt q0 [] q"

lemma wake_Notifying [simp]: "wake t = Notifying r \<longleftrightarrow> t = Notifying r"
  by (cases t) auto

lemma wake_not_Waiting [simp]: "wake t \<noteq> Waiting op k timed"
  by (cases t) auto

lemma section_end_log:
  assumes "replay attempt q0 (mon_log s) (mon_q s)"
  shows "replay attempt q0 (mon_log (section_end i op (attempt e op k (mon_q s)) s))
           (mon_q (section_end i op (attempt e op k (mon_q s)) s))"
  using assms replay_snoc by (fastforce simp: section_end_def split: attempt.split)

text \<open>Every run of the threads has the effect of running the completed sections in their order.\<close>

lemma mon_reach_replay: "mon_reach attempt q0 s \<Longrightarrow> replay attempt q0 (mon_log s) (mon_q s)"
proof (induction rule: mon_reach.induct)
  case init
  then show ?case by (simp add: mon_init_def replay_Nil)
next
  case (step s s')
  from step.hyps(2) step.IH show ?case
    by (cases rule: mon_step.cases) (auto simp: section_end_log)
qed

definition pending :: "('q, 'op, 'r) monitor \<Rightarrow> bool" where
  "pending s \<longleftrightarrow> (\<exists>j r. mon_t s j = Notifying r)"

definition no_lost_wakeup :: "('op \<Rightarrow> 'q \<Rightarrow> bool) \<Rightarrow> ('q, 'op, 'r) monitor \<Rightarrow> bool" where
  "no_lost_wakeup ready s \<longleftrightarrow>
     (\<forall>i op k. mon_t s i = Waiting op k False \<longrightarrow> ready op (mon_q s) \<longrightarrow> pending s)"

lemma pending_update:
  "pending s \<Longrightarrow> \<forall>r. mon_t s i \<noteq> Notifying r \<Longrightarrow> pending (s\<lparr>mon_t := (mon_t s)(i := t)\<rparr>)"
  unfolding pending_def by simp metis

text \<open>
  A monitor is sound when an operation waits only while it cannot proceed, and a section that
  enables an operation notifies. Then no wake-up is lost: while an operation waits without
  a timeout although it could proceed, some thread is about to notify it.
\<close>

locale monitor_ok =
  fixes attempt :: "('e, 'op, 'q, 'r) critical"
    and ready :: "'op \<Rightarrow> 'q \<Rightarrow> bool"
  assumes blocks: "attempt e op k q = Block k' \<Longrightarrow> \<not> ready op q"
    and silent: "attempt e op k q = Done q' r False \<Longrightarrow> ready op' q' \<Longrightarrow> ready op' q"
begin

lemma section_end_no_lost:
  assumes s: "no_lost_wakeup ready s" and t: "\<forall>r. mon_t s i \<noteq> Notifying r"
  shows "no_lost_wakeup ready (section_end i op (attempt e op k (mon_q s)) s)"
proof (cases "attempt e op k (mon_q s)")
  case (Done q r n)
  have keep: "pending (section_end i op (Done q r False) s)" if "pending s"
    using that t by (fastforce simp: pending_def section_end_def)
  show ?thesis
  proof (cases n)
    case True
    then show ?thesis by (auto simp: Done no_lost_wakeup_def pending_def section_end_def)
  next
    case False
    then have "ready op' (mon_q s)" if "ready op' q" for op'
      using silent [of e op k "mon_q s" q r op'] Done that by simp
    with False keep s show ?thesis
      by (auto simp: Done no_lost_wakeup_def section_end_def split: if_splits)
  qed
next
  case (Block k')
  then have "\<not> ready op (mon_q s)" by (rule blocks)
  moreover have "pending (section_end i op (Block k') s)" if "pending s"
    using that t by (fastforce simp: pending_def section_end_def)
  ultimately show ?thesis
    using s by (auto simp: Block no_lost_wakeup_def section_end_def split: if_splits)
next
  case (BlockFor k')
  moreover have "pending (section_end i op (BlockFor k') s)" if "pending s"
    using that t by (fastforce simp: pending_def section_end_def)
  ultimately show ?thesis
    using s by (auto simp: no_lost_wakeup_def section_end_def split: if_splits)
qed

lemma step_no_lost: "mon_step attempt s s' \<Longrightarrow> no_lost_wakeup ready s \<Longrightarrow> no_lost_wakeup ready s'"
proof (induction rule: mon_step.induct)
  case (call s i op e)
  then show ?case by (intro section_end_no_lost) simp_all
next
  case (resume s i op k e)
  then show ?case by (intro section_end_no_lost) simp_all
next
  case (notify s i r)
  then show ?case by (auto simp: no_lost_wakeup_def)
next
  case (wakeup s)
  then show ?case by (auto simp: no_lost_wakeup_def)
next
  case (spurious s i op k timed)
  have "pending (s\<lparr>mon_t := (mon_t s)(i := Woken op k)\<rparr>)" if "pending s"
    using that by (rule pending_update) (simp add: spurious.hyps)
  with spurious show ?case by (auto simp: no_lost_wakeup_def split: if_splits)
qed

lemma reach_no_lost: "mon_reach attempt q0 s \<Longrightarrow> no_lost_wakeup ready s"
  by (induction rule: mon_reach.induct)
    (simp_all add: mon_init_def no_lost_wakeup_def [of ready "\<lparr>mon_q = _, mon_t = _, mon_log = _\<rparr>"] step_no_lost)

lemma waiting_ready_pending:
  "mon_reach attempt q0 s \<Longrightarrow> mon_t s i = Waiting op k False \<Longrightarrow> ready op (mon_q s) \<Longrightarrow>
   \<exists>j r. mon_t s j = Notifying r"
  using reach_no_lost [of q0 s] unfolding no_lost_wakeup_def pending_def by blast

end

text \<open>When an operation that is ready never waits, it completes two steps after a notification.\<close>

locale monitor_live = monitor_ok attempt ready
  for attempt :: "('e, 'op, 'q, 'r) critical" and ready +
  assumes ready_done: "ready op q \<Longrightarrow> \<exists>q' r n. attempt e op k q = Done q' r n"
begin

lemma waiting_completes:
  assumes "mon_reach attempt q0 s" "mon_t s i = Waiting op k False" "ready op (mon_q s)"
  shows "\<exists>s1 s2 r. mon_step attempt s s1 \<and> mon_step attempt s1 s2 \<and> mon_log s2 = mon_log s @ [(op, r)] \<and>
    (mon_t s2 i = Idle \<or> mon_t s2 i = Notifying r)"
proof -
  obtain j r0 where j: "mon_t s j = Notifying r0" using waiting_ready_pending [OF assms] by blast
  let ?s1 = "s\<lparr>mon_t := wake \<circ> (mon_t s)(j := Idle)\<rparr>"
  have i: "mon_t ?s1 i = Woken op k" using assms(2) j by auto
  obtain q r n where a: "attempt undefined op k (mon_q ?s1) = Done q r n"
    using ready_done assms(3) by fastforce
  have "mon_step attempt s ?s1" using j by (rule notify)
  moreover have "mon_step attempt ?s1 (section_end i op (Done q r n) ?s1)"
    using resume [OF i, of attempt undefined] a by simp
  ultimately show ?thesis by (force simp: section_end_def)
qed

end

end
