(* ===== verification/Stx_Queue.thy ===== *)
theory Stx_Queue
  imports Stx_Monitor
begin

text \<open>
  The queues of \<open>thread/\<close>: \<open>Queue\<close>, \<open>DelayedQueue\<close> and \<open>CoalescingDelayedQueue\<close>, as monitors
  (theory \<open>Stx_Monitor\<close>): one function per method gives its critical section, the threads that call
  the methods are those of \<open>mon_step\<close>. The size limit \<open>size_t(-1)\<close> means no limit. The loop around
  a wait is the next attempt of the same operation.
\<close>

definition npos :: nat where
  "npos = 2 ^ 64 - 1"

section \<open>Queue\<close>

record 'a queue =
  q_items :: "'a list"
  q_max :: nat
  q_length :: nat

definition queue_new :: "nat \<Rightarrow> 'a queue" where
  "queue_new max_size = \<lparr>q_items = [], q_max = max_size, q_length = 0\<rparr>"

datatype 'a qop = Insert 'a bool | Pop | InterruptiblePop | Poll | Length | WaitUntilEmpty

datatype 'a qres = Unit | Value 'a | Optional "'a option" | Size nat | Raised stx_error

definition queue_insert :: "'a \<Rightarrow> bool \<Rightarrow> 'a queue \<Rightarrow> ('a queue, 'a qres) attempt" where
  "queue_insert job block q =
     (if q_max q \<noteq> npos \<and> q_length q \<ge> q_max q
      then if \<not> block then Done q (Raised kRuntimeError) False else Block 1
      else Done (q\<lparr>q_items := q_items q @ [job], q_length := q_length q + 1\<rparr>) Unit True)"

definition pop_front :: "'a queue \<Rightarrow> 'a queue" where
  "pop_front q = q\<lparr>q_items := tl (q_items q), q_length := q_length q - 1\<rparr>"

definition queue_pop :: "'a queue \<Rightarrow> ('a queue, 'a qres) attempt" where
  "queue_pop q =
     (case q_items q of [] \<Rightarrow> Block 1 | job # _ \<Rightarrow> Done (pop_front q) (Value job) True)"

definition queue_poll :: "'a queue \<Rightarrow> ('a queue, 'a qres) attempt" where
  "queue_poll q =
     (case q_items q of
        [] \<Rightarrow> Done q (Optional None) False
      | job # _ \<Rightarrow> Done (pop_front q) (Optional (Some job)) True)"

text \<open>One wait at most: woken on an empty queue, it returns nothing.\<close>

definition queue_interruptiblePop :: "nat \<Rightarrow> 'a queue \<Rightarrow> ('a queue, 'a qres) attempt" where
  "queue_interruptiblePop waits q =
     (if q_items q = [] \<and> waits = 0 then Block 1 else queue_poll q)"

definition queue_waitUntilEmpty :: "'a queue \<Rightarrow> ('a queue, 'a qres) attempt" where
  "queue_waitUntilEmpty q = (if q_items q \<noteq> [] then Block 1 else Done q Unit False)"

fun queue_op :: "(unit, 'a qop, 'a queue, 'a qres) critical" where
  "queue_op e (Insert job block) k q = queue_insert job block q"
| "queue_op e Pop k q = queue_pop q"
| "queue_op e InterruptiblePop k q = queue_interruptiblePop k q"
| "queue_op e Poll k q = queue_poll q"
| "queue_op e Length k q = Done q (Size (q_length q)) False"
| "queue_op e WaitUntilEmpty k q = queue_waitUntilEmpty q"

fun queue_ready :: "'a qop \<Rightarrow> 'a queue \<Rightarrow> bool" where
  "queue_ready (Insert job block) q \<longleftrightarrow> q_max q = npos \<or> q_length q < q_max q"
| "queue_ready WaitUntilEmpty q \<longleftrightarrow> q_items q = []"
| "queue_ready Length q \<longleftrightarrow> True"
| "queue_ready Poll q \<longleftrightarrow> True"
| "queue_ready op q \<longleftrightarrow> q_items q \<noteq> []"

lemmas queue_defs = queue_insert_def queue_pop_def queue_poll_def queue_interruptiblePop_def
  queue_waitUntilEmpty_def pop_front_def

interpretation queue: monitor_ok queue_op queue_ready
proof
  show "queue_op e op k q = Block k' \<Longrightarrow> \<not> queue_ready op q" for e op k k' and q :: "'a queue"
    by (cases op) (auto simp: queue_defs split: if_splits list.splits)
  show "queue_op e op k q = Done q' r False \<Longrightarrow> queue_ready op' q' \<Longrightarrow> queue_ready op' q"
    for e op op' k q' r and q :: "'a queue"
    by (cases op) (auto simp: queue_defs split: if_splits list.splits)
qed

interpretation queue: monitor_live queue_op queue_ready
proof
  show "queue_ready op q \<Longrightarrow> \<exists>q' r n. queue_op e op k q = Done q' r n" for e op k and q :: "'a queue"
    by (cases op) (auto simp: queue_defs split: list.splits)
qed

subsection \<open>First in, first out\<close>

fun inserted :: "'a qop \<times> 'a qres \<Rightarrow> 'a list" where
  "inserted (Insert job block, Unit) = [job]"
| "inserted _ = []"

fun removed :: "'a qop \<times> 'a qres \<Rightarrow> 'a list" where
  "removed (_, Value job) = [job]"
| "removed (_, Optional (Some job)) = [job]"
| "removed _ = []"

definition queue_wf :: "'a queue \<Rightarrow> bool" where
  "queue_wf q \<longleftrightarrow> q_length q = length (q_items q) \<and> (q_max q \<noteq> npos \<longrightarrow> q_length q \<le> q_max q)"

lemma queue_op_wf: "queue_op e op k q = Done q' r n \<Longrightarrow> queue_wf q \<Longrightarrow> queue_wf q'"
  by (cases op) (auto simp: queue_defs queue_wf_def split: if_splits list.splits)

lemma queue_op_items:
  "queue_op e op k q = Done q' r n \<Longrightarrow>
   q_items q @ inserted (op, r) = removed (op, r) @ q_items q' \<and> q_max q' = q_max q"
  by (cases op) (auto simp: queue_defs split: if_splits list.splits)

lemma queue_replay:
  "replay queue_op q0 l q \<Longrightarrow> queue_wf q0 \<Longrightarrow>
   queue_wf q \<and> q_max q = q_max q0 \<and>
   q_items q0 @ concat (map inserted l) = concat (map removed l) @ q_items q"
proof (induction rule: replay.induct)
  case replay_Nil
  then show ?case by simp
next
  case (replay_snoc l q e op k q' r n)
  have "q_items q0 @ concat (map inserted (l @ [(op, r)])) =
      concat (map removed l) @ q_items q @ inserted (op, r)" using replay_snoc by simp
  then show ?case
    using replay_snoc queue_op_wf [OF replay_snoc.hyps(2)] queue_op_items [OF replay_snoc.hyps(2)] by simp
qed

section \<open>DelayedQueue\<close>

text \<open>
  The multiset ordered by the due time is a list sorted by it; \<open>emplace\<close> puts an element after those
  with the same time. The environment of a critical section is the wall clock.
\<close>

record 'a delayed_queue =
  dq_items :: "(u64 \<times> 'a) list"
  dq_max :: nat
  dq_length :: nat

definition delayed_new :: "nat \<Rightarrow> 'a delayed_queue" where
  "delayed_new max_size = \<lparr>dq_items = [], dq_max = max_size, dq_length = 0\<rparr>"

fun emplace_at :: "u64 \<times> 'a \<Rightarrow> (u64 \<times> 'a) list \<Rightarrow> (u64 \<times> 'a) list" where
  "emplace_at x [] = [x]"
| "emplace_at x (y # ys) = (if fst x < fst y then x # y # ys else y # emplace_at x ys)"

datatype 'a dop = DInsert 'a u64 bool | DPop | DLength

definition delayed_insert ::
  "'a \<Rightarrow> u64 \<Rightarrow> bool \<Rightarrow> 'a delayed_queue \<Rightarrow> ('a delayed_queue, 'a qres) attempt" where
  "delayed_insert job due block q =
     (if dq_max q \<noteq> npos \<and> dq_length q \<ge> dq_max q
      then if \<not> block then Done q (Raised kRuntimeError) False else Block 1
      else Done (q\<lparr>dq_items := emplace_at (due, job) (dq_items q), dq_length := dq_length q + 1\<rparr>)
             Unit True)"

text \<open>
  A pop on an empty queue waits once; when the first job is not due yet, it waits until then and
  returns nothing in any case (\<open>waits = 2\<close>).
\<close>

definition delayed_pop :: "u64 \<Rightarrow> nat \<Rightarrow> 'a delayed_queue \<Rightarrow> ('a delayed_queue, 'a qres) attempt" where
  "delayed_pop now waits q =
     (if waits = 2 then Done q (Optional None) False
      else case dq_items q of
        [] \<Rightarrow> if waits = 0 then Block 1 else Done q (Optional None) False
      | (due, job) # rest \<Rightarrow>
          if now < due then BlockFor 2
          else Done (q\<lparr>dq_items := rest, dq_length := dq_length q - 1\<rparr>) (Optional (Some job)) True)"

fun delayed_op :: "(u64, 'a dop, 'a delayed_queue, 'a qres) critical" where
  "delayed_op now (DInsert job due block) k q = delayed_insert job due block q"
| "delayed_op now DPop k q = delayed_pop now k q"
| "delayed_op now DLength k q = Done q (Size (dq_length q)) False"

fun delayed_ready :: "'a dop \<Rightarrow> 'a delayed_queue \<Rightarrow> bool" where
  "delayed_ready (DInsert job due block) q \<longleftrightarrow> dq_max q = npos \<or> dq_length q < dq_max q"
| "delayed_ready DPop q \<longleftrightarrow> dq_items q \<noteq> []"
| "delayed_ready DLength q \<longleftrightarrow> True"

lemmas delayed_defs = delayed_insert_def delayed_pop_def

interpretation delayed: monitor_ok delayed_op delayed_ready
proof
  show "delayed_op e op k q = Block k' \<Longrightarrow> \<not> delayed_ready op q" for e op k k' and q :: "'a delayed_queue"
    by (cases op) (auto simp: delayed_defs split: if_splits list.splits)
  show "delayed_op e op k q = Done q' r False \<Longrightarrow> delayed_ready op' q' \<Longrightarrow> delayed_ready op' q"
    for e op op' k q' r and q :: "'a delayed_queue"
    by (cases op) (auto simp: delayed_defs split: if_splits list.splits)
qed

definition delayed_wf :: "'a delayed_queue \<Rightarrow> bool" where
  "delayed_wf q \<longleftrightarrow> sorted (map fst (dq_items q)) \<and> dq_length q = length (dq_items q) \<and>
     (dq_max q \<noteq> npos \<longrightarrow> dq_length q \<le> dq_max q)"

lemma set_emplace_at [simp]: "set (emplace_at x xs) = insert x (set xs)"
  by (induction xs) auto

lemma length_emplace_at [simp]: "length (emplace_at x xs) = Suc (length xs)"
  by (induction xs) auto

lemma sorted_emplace_at: "sorted (map fst xs) \<Longrightarrow> sorted (map fst (emplace_at x xs))"
  by (induction xs) auto

lemma delayed_op_wf: "delayed_op e op k q = Done q' r n \<Longrightarrow> delayed_wf q \<Longrightarrow> delayed_wf q'"
  by (cases op) (auto simp: delayed_defs delayed_wf_def sorted_emplace_at split: if_splits list.splits)

lemma delayed_replay_wf: "replay delayed_op q0 l q \<Longrightarrow> delayed_wf q0 \<Longrightarrow> delayed_wf q"
  by (induction rule: replay.induct) (auto dest: delayed_op_wf)

section \<open>CoalescingDelayedQueue\<close>

text \<open>
  Jobs are identified by their address, here a value of \<open>'a\<close>. \<open>queue_.erase(make_pair(t, job))\<close>
  erases by key: the comparison of the multiset looks at the time only, so it erases every element
  with that time.
\<close>

record 'a coalescing_queue =
  cq_items :: "(u64 \<times> 'a) list"
  cq_map :: "'a \<rightharpoonup> u64"
  cq_max :: nat
  cq_length :: nat

definition coalescing_new :: "nat \<Rightarrow> 'a coalescing_queue" where
  "coalescing_new max_size =
     \<lparr>cq_items = [], cq_map = Map.empty, cq_max = max_size, cq_length = 0\<rparr>"

definition erase_key :: "u64 \<Rightarrow> (u64 \<times> 'a) list \<Rightarrow> (u64 \<times> 'a) list" where
  "erase_key t items = filter (\<lambda>x. fst x \<noteq> t) items"

definition coalescing_put :: "'a \<Rightarrow> u64 \<Rightarrow> 'a coalescing_queue \<Rightarrow> 'a coalescing_queue" where
  "coalescing_put job due q =
     q\<lparr>cq_items := emplace_at (due, job) (cq_items q), cq_map := (cq_map q)(job \<mapsto> due),
       cq_length := cq_length q + 1\<rparr>"

definition coalescing_insert ::
  "'a \<Rightarrow> u64 \<Rightarrow> bool \<Rightarrow> 'a coalescing_queue \<Rightarrow> ('a coalescing_queue, 'a qres) attempt" where
  "coalescing_insert job due block q =
     (if cq_max q \<noteq> npos \<and> cq_length q \<ge> cq_max q
      then if \<not> block then Done q (Raised kRuntimeError) False else Block 1
      else case cq_map q job of
        None \<Rightarrow> Done (coalescing_put job due q) Unit True
      | Some old \<Rightarrow>
          if old > due
          then Done (coalescing_put job due (q\<lparr>cq_items := erase_key old (cq_items q)\<rparr>)) Unit True
          else Done q Unit False)"

definition coalescing_pop ::
  "u64 \<Rightarrow> nat \<Rightarrow> 'a coalescing_queue \<Rightarrow> ('a coalescing_queue, 'a qres) attempt" where
  "coalescing_pop now waits q =
     (if waits = 2 then Done q (Optional None) False
      else case cq_items q of
        [] \<Rightarrow> if waits = 0 then Block 1 else Done q (Optional None) False
      | (due, job) # rest \<Rightarrow>
          if now < due then BlockFor 2
          else Done (q\<lparr>cq_items := rest, cq_map := (cq_map q)(job := None),
                       cq_length := cq_length q - 1\<rparr>) (Optional (Some job)) True)"

fun coalescing_op :: "(u64, 'a dop, 'a coalescing_queue, 'a qres) critical" where
  "coalescing_op now (DInsert job due block) k q = coalescing_insert job due block q"
| "coalescing_op now DPop k q = coalescing_pop now k q"
| "coalescing_op now DLength k q = Done q (Size (cq_length q)) False"

fun coalescing_ready :: "'a dop \<Rightarrow> 'a coalescing_queue \<Rightarrow> bool" where
  "coalescing_ready (DInsert job due block) q \<longleftrightarrow> cq_max q = npos \<or> cq_length q < cq_max q"
| "coalescing_ready DPop q \<longleftrightarrow> cq_items q \<noteq> []"
| "coalescing_ready DLength q \<longleftrightarrow> True"

lemmas coalescing_defs = coalescing_insert_def coalescing_pop_def coalescing_put_def erase_key_def

interpretation coalescing: monitor_ok coalescing_op coalescing_ready
proof
  show "coalescing_op e op k q = Block k' \<Longrightarrow> \<not> coalescing_ready op q"
    for e op k k' and q :: "'a coalescing_queue"
    by (cases op) (auto simp: coalescing_defs split: if_splits list.splits option.splits)
  show "coalescing_op e op k q = Done q' r False \<Longrightarrow> coalescing_ready op' q' \<Longrightarrow> coalescing_ready op' q"
    for e op op' k q' r and q :: "'a coalescing_queue"
    by (cases op) (auto simp: coalescing_defs split: if_splits list.splits option.splits)
qed

definition coalescing_wf :: "'a coalescing_queue \<Rightarrow> bool" where
  "coalescing_wf q \<longleftrightarrow> sorted (map fst (cq_items q)) \<and> distinct (map snd (cq_items q)) \<and>
     (\<forall>(t, job) \<in> set (cq_items q). cq_map q job = Some t)"

lemma map_snd_emplace_at: "distinct (map snd (emplace_at x xs)) \<longleftrightarrow> snd x \<notin> snd ` set xs \<and> distinct (map snd xs)"
  by (induction xs) auto

lemma sorted_erase_key: "sorted (map fst xs) \<Longrightarrow> sorted (map fst (erase_key t xs))"
  unfolding erase_key_def by (rule sorted_filter)

lemma distinct_erase_key: "distinct (map snd xs) \<Longrightarrow> distinct (map snd (erase_key t xs))"
  by (simp add: erase_key_def distinct_map_filter)

section \<open>Properties\<close>

text \<open>C37. \<open>Queue\<close> is first in, first out under every interleaving of any number of threads: what was
  inserted so far is what was removed so far followed by what is in the queue, in order; the
  length counter is right and a bounded queue never exceeds its size.\<close>

theorem queue_fifo:
  assumes "mon_reach queue_op (queue_new m) s"
  shows "concat (map inserted (mon_log s)) = concat (map removed (mon_log s)) @ q_items (mon_q s) \<and>
    q_length (mon_q s) = length (q_items (mon_q s)) \<and>
    (m \<noteq> npos \<longrightarrow> length (q_items (mon_q s)) \<le> m)"
proof -
  have "queue_wf (queue_new m :: 'a queue)" by (simp add: queue_wf_def queue_new_def)
  from queue_replay [OF mon_reach_replay [OF assms] this] show ?thesis
    by (auto simp: queue_wf_def queue_new_def)
qed

lemma queue_popper_waits:
  "mon_reach queue_op (queue_new 4)
     \<lparr>mon_q = \<lparr>q_items = [7 :: nat], q_max = 4, q_length = 1\<rparr>,
      mon_t = (\<lambda>_. Idle)(0 := Waiting Pop 1 False, 1 := Notifying Unit),
      mon_log = [(Insert 7 False, Unit)]\<rparr>"
proof -
  let ?s1 = "section_end 0 (Pop :: nat qop) (queue_op () Pop 0 (queue_new 4)) (mon_init (queue_new 4 :: nat queue))"
  let ?s2 = "section_end 1 (Insert 7 False) (queue_op () (Insert 7 False) 0 (mon_q ?s1)) ?s1"
  have "mon_reach queue_op (queue_new 4) ?s1"
    using reach_call [OF mon_reach.init, of "queue_new 4" 0 queue_op Pop "()"] by (simp add: mon_init_def)
  then have "mon_reach queue_op (queue_new 4) ?s2"
    by (rule reach_call) (simp add: section_end_def queue_defs queue_new_def mon_init_def)
  then show ?thesis by (simp add: section_end_def queue_defs queue_new_def mon_init_def npos_def)
qed

lemma queue_two_in_one_out:
  "\<exists>s. mon_reach queue_op (queue_new 4) s \<and> q_items (mon_q s) = [8 :: nat] \<and>
     mon_log s = [(Insert 7 False, Unit), (Insert 8 True, Unit), (Pop, Value 7)]"
proof -
  let ?s1 = "section_end 0 (Insert 7 False :: nat qop) (queue_op () (Insert 7 False) 0 (queue_new 4)) (mon_init (queue_new 4))"
  let ?s2 = "section_end 1 (Insert 8 True :: nat qop) (queue_op () (Insert 8 True) 0 (mon_q ?s1)) ?s1"
  let ?s3 = "section_end 2 (Pop :: nat qop) (queue_op () Pop 0 (mon_q ?s2)) ?s2"
  have "mon_reach queue_op (queue_new 4) ?s1"
    using reach_call [OF mon_reach.init, of "queue_new 4" 0 queue_op "Insert 7 False" "()"] by (simp add: mon_init_def)
  then have "mon_reach queue_op (queue_new 4) ?s2"
    by (rule reach_call) (simp add: section_end_def queue_defs queue_new_def mon_init_def npos_def)
  then have "mon_reach queue_op (queue_new 4) ?s3"
    by (rule reach_call) (simp add: section_end_def queue_defs queue_new_def mon_init_def npos_def)
  moreover have "q_items (mon_q ?s3) = [8]" "mon_log ?s3 = [(Insert 7 False, Unit), (Insert 8 True, Unit), (Pop, Value 7)]"
    by (simp_all add: section_end_def queue_defs queue_new_def mon_init_def npos_def)
  ultimately show ?thesis by blast
qed

theorem queue_fifo_witness:
  "\<exists>s. mon_reach queue_op (queue_new 4) s \<and> q_items (mon_q s) = [8 :: nat] \<and>
     mon_log s = [(Insert 7 False, Unit), (Insert 8 True, Unit), (Pop, Value 7)] \<and>
     concat (map inserted (mon_log s)) = concat (map removed (mon_log s)) @ q_items (mon_q s) \<and>
     q_length (mon_q s) = length (q_items (mon_q s)) \<and> length (q_items (mon_q s)) \<le> 4"
proof -
  obtain s where s: "mon_reach queue_op (queue_new 4) s" "q_items (mon_q s) = [8 :: nat]"
    "mon_log s = [(Insert 7 False, Unit), (Insert 8 True, Unit), (Pop, Value 7)]" using queue_two_in_one_out by blast
  have "(4 :: nat) \<noteq> npos" by (simp add: npos_def)
  with queue_fifo [OF s(1)] s show ?thesis by blast
qed

text \<open>No wake-up of \<open>Queue\<close> is lost although notifications are sent after the mutex is released and
  waiting threads may be overtaken: whenever an operation waits that could proceed (a pop on a
  non-empty queue, an insert into a queue with room, a wait for an empty queue), some thread is
  about to notify, and after that notification the waiting operation completes in its next step.\<close>

theorem queue_waiting_completes:
  assumes "mon_reach queue_op (queue_new m) s" "mon_t s i = Waiting op k False"
    and "queue_ready op (mon_q s)"
  shows "(\<exists>j r. mon_t s j = Notifying r) \<and>
    (\<exists>s1 s2 r. mon_step queue_op s s1 \<and> mon_step queue_op s1 s2 \<and> mon_log s2 = mon_log s @ [(op, r)] \<and>
       (mon_t s2 i = Idle \<or> mon_t s2 i = Notifying r))"
  using queue.waiting_ready_pending [OF assms] queue.waiting_completes [OF assms] by blast

theorem queue_waiting_completes_witness:
  "\<exists>s s1 s2 r. mon_t s 0 = Waiting Pop 1 False \<and> q_items (mon_q s) = [7 :: nat] \<and>
     mon_step queue_op s s1 \<and> mon_step queue_op s1 s2 \<and> mon_log s2 = mon_log s @ [(Pop, r)]"
proof -
  let ?s = "\<lparr>mon_q = \<lparr>q_items = [7 :: nat], q_max = 4, q_length = 1\<rparr>,
      mon_t = (\<lambda>_. Idle)(0 := Waiting Pop 1 False, 1 := Notifying Unit),
      mon_log = [(Insert 7 False, Unit)]\<rparr>"
  have "mon_t ?s 0 = Waiting Pop 1 False" "queue_ready Pop (mon_q ?s)" "q_items (mon_q ?s) = [7]" by simp_all
  with queue_waiting_completes [OF queue_popper_waits, of 0 Pop 1] show ?thesis by blast
qed

text \<open>A pop of \<open>DelayedQueue\<close> returns a job that is due, and none that is in the queue is due
  earlier; the queue stays sorted by due time under every interleaving.\<close>

theorem delayed_pop_earliest:
  assumes "mon_reach delayed_op (delayed_new m) s"
    and "delayed_op now DPop k (mon_q s) = Done q' (Optional (Some job)) n"
  shows "delayed_wf q' \<and> (\<exists>due. due \<le> now \<and> dq_items (mon_q s) = (due, job) # dq_items q' \<and>
    (\<forall>d j. (d, j) \<in> set (dq_items q') \<longrightarrow> due \<le> d))"
proof -
  have "delayed_wf (delayed_new m :: 'a delayed_queue)" by (simp add: delayed_wf_def delayed_new_def)
  then have "delayed_wf (mon_q s)" using delayed_replay_wf [OF mon_reach_replay [OF assms(1)]] by blast
  with assms(2) delayed_op_wf [OF assms(2)] show ?thesis
    by (force simp: delayed_pop_def delayed_wf_def split: if_splits list.splits prod.splits)
qed

theorem delayed_pop_earliest_witness:
  "\<exists>q q' n. delayed_op 9 DPop 0 q = Done q' (Optional (Some ''job'')) n \<and> delayed_wf q'"
proof -
  let ?op = "DInsert ''job'' 5 False"
  let ?s = "section_end 0 ?op (delayed_op 1 ?op 0 (delayed_new 4)) (mon_init (delayed_new 4))"
  have r: "mon_reach delayed_op (delayed_new 4) ?s"
    using reach_call [OF mon_reach.init, of "delayed_new 4" 0 delayed_op ?op 1] by (simp add: mon_init_def)
  have "delayed_op 9 DPop 0 (mon_q ?s) = Done (delayed_new 4) (Optional (Some ''job'')) True"
    by (simp add: section_end_def delayed_defs delayed_new_def mon_init_def npos_def)
  with delayed_pop_earliest [OF r this] show ?thesis by blast
qed

text \<open>\<open>CoalescingDelayedQueue\<close> loses jobs: when two jobs are scheduled for the same time and one of
  them is rescheduled to an earlier time, the erase by key removes the other one from the queue too,
  while the map still lists it; every later insert of that job for that time or later returns
  without effect, and the length counter stays too large.\<close>

theorem coalescing_reschedule_loses_job:
  assumes "a \<noteq> b" "due' < due" "due \<le> due''"
  shows "\<exists>q1 q2 q3. coalescing_op now (DInsert a due block) 0 (coalescing_new npos) = Done q1 Unit True \<and>
    coalescing_op now (DInsert b due block) 0 q1 = Done q2 Unit True \<and>
    coalescing_op now (DInsert a due' block) 0 q2 = Done q3 Unit True \<and>
    cq_items q3 = [(due', a)] \<and> cq_length q3 = 3 \<and>
    coalescing_op now (DInsert b due'' block) 0 q3 = Done q3 Unit False"
  using assms by (simp add: coalescing_defs coalescing_new_def)

theorem coalescing_reschedule_loses_job_witness:
  "\<exists>q1 q2 q3. coalescing_op 0 (DInsert ''a'' 10 False) 0 (coalescing_new npos) = Done q1 Unit True \<and>
    coalescing_op 0 (DInsert ''b'' 10 False) 0 q1 = Done q2 Unit True \<and>
    coalescing_op 0 (DInsert ''a'' 5 False) 0 q2 = Done q3 Unit True \<and> cq_items q3 = [(5, ''a'')] \<and>
    coalescing_op 0 (DInsert ''b'' 10 False) 0 q3 = Done q3 Unit False"
  using coalescing_reschedule_loses_job [of "''a''" "''b''" 5 10 10 0 False] by auto

end
