(* ===== verification/Stx_ThreadPool.thy ===== *)
theory Stx_ThreadPool
  imports Stx_Queue
begin

text \<open>
  The thread pools of \<open>thread/threadpool.cc\<close> and \<open>thread/FixedSizeThreadPool.cc\<close>. The state of a
  pool holds the position of each of its threads; a step is one critical section, one notification
  or one job, so the step relations have every interleaving. Starting a thread does not fail; a
  job that throws ends in the error handler, which is the end of the job.
\<close>

section \<open>ThreadPool\<close>

text \<open>
  A pool thread is \<open>Entering\<close> its loop (not yet holding the mutex), \<open>Asleep\<close> in the wait,
  \<open>Awake\<close> (woken, not yet holding the mutex again), \<open>Working\<close> on a task, \<open>Leaving\<close> after its last
  task or \<open>Gone\<close>. The flag says whether it is a cached thread, which loops.
\<close>

datatype 'a pool_thread =
    Entering bool
  | Asleep bool
  | Awake bool
  | Working bool 'a
  | Leaving
  | Gone

record 'a thread_pool =
  tp_runq :: "'a list"
  tp_num :: nat
  tp_free :: nat
  tp_max_cached :: nat
  tp_threads :: "'a pool_thread list"
  tp_notify :: nat

definition pool_new :: "nat \<Rightarrow> 'a thread_pool" where
  "pool_new max_cached =
     \<lparr>tp_runq = [], tp_num = 0, tp_free = 0, tp_max_cached = max_cached, tp_threads = [], tp_notify = 0\<rparr>"

definition startThread :: "'a thread_pool \<Rightarrow> 'a thread_pool" where
  "startThread p =
     p\<lparr>tp_num := tp_num p + 1,
       tp_threads := tp_threads p @ [Entering (tp_num p + 1 \<le> tp_max_cached p)]\<rparr>"

text \<open>\<open>run\<close>: the critical section; the notification that follows it is counted in \<open>tp_notify\<close>.\<close>

definition pool_run :: "'a \<Rightarrow> 'a thread_pool \<Rightarrow> 'a thread_pool" where
  "pool_run task p =
     (let p = p\<lparr>tp_runq := tp_runq p @ [task]\<rparr>;
          p = (if length (tp_runq p) > tp_free p then startThread p else p)
      in p\<lparr>tp_notify := tp_notify p + 1\<rparr>)"

text \<open>The loop body of a pool thread under the mutex, from the test of the queue on.\<close>

definition pool_take :: "nat \<Rightarrow> bool \<Rightarrow> 'a thread_pool \<Rightarrow> 'a thread_pool" where
  "pool_take i cache p =
     (case tp_runq p of
        [] \<Rightarrow> p\<lparr>tp_threads := (tp_threads p)[i := Asleep cache]\<rparr>
      | task # rest \<Rightarrow>
          p\<lparr>tp_runq := rest, tp_free := tp_free p - 1,
            tp_threads := (tp_threads p)[i := Working cache task]\<rparr>)"

definition pool_enter :: "nat \<Rightarrow> bool \<Rightarrow> 'a thread_pool \<Rightarrow> 'a thread_pool" where
  "pool_enter i cache p = pool_take i cache (p\<lparr>tp_free := tp_free p + 1\<rparr>)"

definition pool_finish :: "nat \<Rightarrow> bool \<Rightarrow> 'a thread_pool \<Rightarrow> 'a thread_pool" where
  "pool_finish i cache p =
     p\<lparr>tp_threads := (tp_threads p)[i := if cache then Entering cache else Leaving]\<rparr>"

definition pool_leave :: "nat \<Rightarrow> 'a thread_pool \<Rightarrow> 'a thread_pool" where
  "pool_leave i p = p\<lparr>tp_num := tp_num p - 1, tp_threads := (tp_threads p)[i := Gone]\<rparr>"

definition is_asleep :: "'a pool_thread \<Rightarrow> bool" where
  "is_asleep t \<longleftrightarrow> (\<exists>c. t = Asleep c)"

definition at :: "'a thread_pool \<Rightarrow> nat \<Rightarrow> 'a pool_thread \<Rightarrow> bool" where
  "at p i t \<longleftrightarrow> i < length (tp_threads p) \<and> tp_threads p ! i = t"

text \<open>
  The steps the pool makes by itself: the critical sections of its threads, the end of a task, and the notifications that
  \<open>run\<close> has sent. A caller of \<open>run\<close> and a spurious wakeup are steps from outside.
\<close>

inductive pool_own :: "'a thread_pool \<Rightarrow> 'a thread_pool \<Rightarrow> bool" where
  notify_one: "tp_notify p > 0 \<Longrightarrow> at p i (Asleep c) \<Longrightarrow>
    pool_own p (p\<lparr>tp_notify := tp_notify p - 1, tp_threads := (tp_threads p)[i := Awake c]\<rparr>)"
| notify_none: "tp_notify p > 0 \<Longrightarrow> \<not> list_ex is_asleep (tp_threads p) \<Longrightarrow>
    pool_own p (p\<lparr>tp_notify := tp_notify p - 1\<rparr>)"
| enter: "at p i (Entering c) \<Longrightarrow> pool_own p (pool_enter i c p)"
| retry: "at p i (Awake c) \<Longrightarrow> pool_own p (pool_take i c p)"
| finish: "at p i (Working c task) \<Longrightarrow> pool_own p (pool_finish i c p)"
| leave: "at p i Leaving \<Longrightarrow> pool_own p (pool_leave i p)"

inductive pool_step :: "'a thread_pool \<Rightarrow> 'a thread_pool \<Rightarrow> bool" where
  run: "pool_step p (pool_run task p)"
| spurious: "at p i (Asleep c) \<Longrightarrow> pool_step p (p\<lparr>tp_threads := (tp_threads p)[i := Awake c]\<rparr>)"
| own: "pool_own p p' \<Longrightarrow> pool_step p p'"

inductive pool_reach :: "nat \<Rightarrow> 'a thread_pool \<Rightarrow> bool" for m where
  pool_init: "pool_reach m (pool_new m)"
| pool_next: "pool_reach m p \<Longrightarrow> pool_step p p' \<Longrightarrow> pool_reach m p'"

subsection \<open>Counting threads\<close>

definition cnt :: "('b \<Rightarrow> bool) \<Rightarrow> 'b list \<Rightarrow> nat" where
  "cnt P xs = length (filter P xs)"

lemma cnt_simps [simp]:
  "cnt P [] = 0" "cnt P (xs @ ys) = cnt P xs + cnt P ys"
  "cnt P (x # xs) = (if P x then Suc (cnt P xs) else cnt P xs)"
  by (simp_all add: cnt_def)

lemma cnt_update:
  "i < length xs \<Longrightarrow>
   cnt P (xs[i := v]) + (if P (xs ! i) then 1 else 0) = cnt P xs + (if P v then 1 else 0)"
proof (induction xs arbitrary: i)
  case (Cons x xs)
  then show ?case by (cases i) (force, use Cons.IH in fastforce)
qed simp

lemma cnt_pos: "cnt P xs > 0 \<longleftrightarrow> (\<exists>i < length xs. P (xs ! i))"
  by (simp add: cnt_def) (metis in_set_conv_nth filter_empty_conv)

fun entering :: "'a pool_thread \<Rightarrow> bool" where
  "entering (Entering c) = True" | "entering _ = False"

fun awake :: "'a pool_thread \<Rightarrow> bool" where
  "awake (Awake c) = True" | "awake _ = False"

fun asleep :: "'a pool_thread \<Rightarrow> bool" where
  "asleep (Asleep c) = True" | "asleep _ = False"

fun alive :: "'a pool_thread \<Rightarrow> bool" where
  "alive Gone = False" | "alive _ = True"

abbreviation n_entering :: "'a thread_pool \<Rightarrow> nat" where
  "n_entering p \<equiv> cnt entering (tp_threads p)"
abbreviation n_awake :: "'a thread_pool \<Rightarrow> nat" where
  "n_awake p \<equiv> cnt awake (tp_threads p)"
abbreviation n_asleep :: "'a thread_pool \<Rightarrow> nat" where
  "n_asleep p \<equiv> cnt asleep (tp_threads p)"

text \<open>
  The counters are right; every queued task has a thread that is free or on its way to the queue;
  while a thread sleeps, the queued tasks are covered by pending notifications and threads that are
  awake.
\<close>

definition pool_inv :: "'a thread_pool \<Rightarrow> bool" where
  "pool_inv p \<longleftrightarrow>
     tp_free p = n_asleep p + n_awake p \<and>
     tp_num p = cnt alive (tp_threads p) \<and>
     length (tp_runq p) \<le> tp_free p + n_entering p \<and>
     (n_asleep p > 0 \<longrightarrow> length (tp_runq p) \<le> tp_notify p + n_awake p + n_entering p)"

lemma asleep_is_asleep: "asleep t \<longleftrightarrow> is_asleep t"
  by (cases t) (auto simp: is_asleep_def)

lemma no_asleep: "\<not> list_ex is_asleep ts \<Longrightarrow> cnt asleep ts = 0"
  by (induction ts) (auto simp: asleep_is_asleep)

lemma at_update:
  assumes "at p i t"
  shows "cnt P ((tp_threads p)[i := v]) + (if P t then 1 else 0) = cnt P (tp_threads p) + (if P v then 1 else 0)"
  using assms cnt_update [of i "tp_threads p" P v] by (auto simp: at_def)

lemma at_updates:
  assumes "at p i t"
  shows "cnt entering ((tp_threads p)[i := v]) + (if entering t then 1 else 0) =
      n_entering p + (if entering v then 1 else 0)"
    and "cnt awake ((tp_threads p)[i := v]) + (if awake t then 1 else 0) =
      n_awake p + (if awake v then 1 else 0)"
    and "cnt asleep ((tp_threads p)[i := v]) + (if asleep t then 1 else 0) =
      n_asleep p + (if asleep v then 1 else 0)"
    and "cnt alive ((tp_threads p)[i := v]) + (if alive t then 1 else 0) =
      cnt alive (tp_threads p) + (if alive v then 1 else 0)"
  by (rule at_update [OF assms])+

lemma pool_inv_run: "pool_inv p \<Longrightarrow> pool_inv (pool_run task p)"
  by (auto simp: pool_inv_def pool_run_def startThread_def Let_def)

lemma pool_inv_enter:
  assumes "pool_inv p" "at p i (Entering c)"
  shows "pool_inv (pool_enter i c p)"
proof (cases "tp_runq p")
  case Nil
  then show ?thesis
    using assms(1) at_updates [OF assms(2), of "Asleep c"]
    by (auto simp: pool_inv_def pool_enter_def pool_take_def)
next
  case (Cons t ts)
  then show ?thesis
    using assms(1) at_updates [OF assms(2), of "Working c t"]
    by (auto simp: pool_inv_def pool_enter_def pool_take_def)
qed

lemma pool_inv_retry:
  assumes "pool_inv p" "at p i (Awake c)"
  shows "pool_inv (pool_take i c p)"
proof (cases "tp_runq p")
  case Nil
  then show ?thesis
    using assms(1) at_updates [OF assms(2), of "Asleep c"]
    by (auto simp: pool_inv_def pool_take_def)
next
  case (Cons t ts)
  then show ?thesis
    using assms(1) at_updates [OF assms(2), of "Working c t"]
    by (auto simp: pool_inv_def pool_take_def)
qed

lemma pool_inv_wake:
  assumes "pool_inv p" "at p i (Asleep c)" "tp_notify p \<le> n + 1" "n \<le> tp_notify p"
  shows "pool_inv (p\<lparr>tp_notify := n, tp_threads := (tp_threads p)[i := Awake c]\<rparr>)"
  using assms(1,3,4) at_updates [OF assms(2), of "Awake c"]
  by (auto simp: pool_inv_def)

lemma pool_inv_own: "pool_own p p' \<Longrightarrow> pool_inv p \<Longrightarrow> pool_inv p'"
proof (induction rule: pool_own.induct)
  case (notify_one p i c)
  then show ?case by (intro pool_inv_wake) auto
next
  case (notify_none p)
  then show ?case using no_asleep [of "tp_threads p"] by (simp add: pool_inv_def)
next
  case (enter p i c)
  then show ?case by (intro pool_inv_enter)
next
  case (retry p i c)
  then show ?case by (intro pool_inv_retry)
next
  case (finish p i c task)
  let ?t = "if c then Entering c else Leaving :: 'a pool_thread"
  show ?case
    using finish(2) at_updates [OF finish(1), of ?t]
    by (auto simp: pool_inv_def pool_finish_def split: if_splits)
next
  case (leave p i)
  then show ?case
    using at_updates [OF leave(1), of Gone]
    by (auto simp: pool_inv_def pool_leave_def)
qed

lemma pool_inv_step: "pool_step p p' \<Longrightarrow> pool_inv p \<Longrightarrow> pool_inv p'"
proof (induction rule: pool_step.induct)
  case (run p task)
  then show ?case by (rule pool_inv_run)
next
  case (spurious p i c)
  then show ?case using pool_inv_wake [of p i c "tp_notify p"] by simp
next
  case (own p p')
  then show ?case by (rule pool_inv_own)
qed

lemma pool_reach_inv: "pool_reach m p \<Longrightarrow> pool_inv p"
proof (induction rule: pool_reach.induct)
  case pool_init
  then show ?case by (simp add: pool_new_def pool_inv_def)
next
  case (pool_next p p')
  then show ?case by (blast intro: pool_inv_step)
qed

lemma pool_takes_task:
  assumes "tp_runq p = task # rest" "at p i (Entering c) \<or> at p i (Awake c)"
  shows "\<exists>p'. pool_own p p' \<and> at p' i (Working c task) \<and> tp_runq p' = rest"
  using assms(2)
proof
  assume "at p i (Entering c)"
  then show ?thesis
    using assms(1) enter [of p i c] by (fastforce simp: pool_enter_def pool_take_def at_def)
next
  assume "at p i (Awake c)"
  then show ?thesis
    using assms(1) retry [of p i c] by (fastforce simp: pool_take_def at_def)
qed

lemma pool_inv_progress:
  assumes "pool_inv p" "tp_runq p = task # rest"
  shows "\<exists>p1 p2 i c. (p1 = p \<or> pool_own p p1) \<and> pool_own p1 p2 \<and> at p2 i (Working c task) \<and> tp_runq p2 = rest"
proof (cases "n_entering p + n_awake p > 0")
  case True
  then obtain i where "i < length (tp_threads p)" "entering (tp_threads p ! i) \<or> awake (tp_threads p ! i)"
    using cnt_pos [of entering "tp_threads p"] cnt_pos [of awake "tp_threads p"] by auto
  then obtain c where "at p i (Entering c) \<or> at p i (Awake c)"
    by (cases "tp_threads p ! i") (auto simp: at_def)
  from pool_takes_task [OF assms(2) this] show ?thesis by blast
next
  case False
  then have n: "n_asleep p > 0" "tp_notify p > 0" using assms by (auto simp: pool_inv_def)
  then obtain i where "i < length (tp_threads p)" "asleep (tp_threads p ! i)"
    using cnt_pos [of asleep "tp_threads p"] by blast
  then obtain c where i: "at p i (Asleep c)" by (cases "tp_threads p ! i") (auto simp: at_def)
  let ?p1 = "p\<lparr>tp_notify := tp_notify p - 1, tp_threads := (tp_threads p)[i := Awake c]\<rparr>"
  have "pool_own p ?p1" using n(2) i by (rule notify_one)
  moreover have "at ?p1 i (Awake c)" "tp_runq ?p1 = task # rest" using i assms(2) by (auto simp: at_def)
  moreover from this(2) i assms(2) obtain p2 where "pool_own ?p1 p2" "at p2 i (Working c task)" "tp_runq p2 = rest"
    using pool_takes_task [of ?p1 task rest i c] by (auto simp: at_def)
  ultimately show ?thesis by blast
qed

text \<open>The work that is left: every step of the pool itself makes it smaller.\<close>

fun thread_work :: "'a pool_thread \<Rightarrow> nat" where
  "thread_work (Entering c) = 4"
| "thread_work (Awake c) = 1"
| "thread_work (Working c t) = 5"
| "thread_work Leaving = 1"
| "thread_work _ = 0"

definition pool_work :: "'a thread_pool \<Rightarrow> nat" where
  "pool_work p = 6 * length (tp_runq p) + 2 * tp_notify p + sum_list (map thread_work (tp_threads p))"

lemma sum_list_at:
  "at p i t \<Longrightarrow> sum_list (map f ((tp_threads p)[i := v])) + f t = sum_list (map f (tp_threads p)) + (f v :: nat)"
proof -
  have "i < length xs \<Longrightarrow> sum_list (map f (xs[i := v])) + f (xs ! i) = sum_list (map f xs) + f v" for xs
    by (induction xs arbitrary: i) (auto split: nat.splits)
  then show "at p i t \<Longrightarrow> ?thesis" by (auto simp: at_def)
qed

lemma pool_own_work: "pool_own p p' \<Longrightarrow> pool_work p' < pool_work p"
proof (induction rule: pool_own.induct)
  case (notify_one p i c)
  then show ?case using sum_list_at [OF notify_one(2), of thread_work "Awake c"] by (simp add: pool_work_def)
next
  case (enter p i c)
  show ?case
    using sum_list_at [OF enter, of thread_work "Asleep c"] sum_list_at [OF enter, of thread_work "Working c (hd (tp_runq p))"]
    by (cases "tp_runq p") (simp_all add: pool_work_def pool_enter_def pool_take_def)
next
  case (retry p i c)
  show ?case
    using sum_list_at [OF retry, of thread_work "Asleep c"] sum_list_at [OF retry, of thread_work "Working c (hd (tp_runq p))"]
    by (cases "tp_runq p") (simp_all add: pool_work_def pool_take_def)
next
  case (finish p i c task)
  show ?case
    using sum_list_at [OF finish, of thread_work "Entering c"] sum_list_at [OF finish, of thread_work Leaving]
    by (cases c) (simp_all add: pool_work_def pool_finish_def)
next
  case (leave p i)
  show ?case using sum_list_at [OF leave, of thread_work Gone] by (simp add: pool_work_def pool_leave_def)
qed (simp add: pool_work_def)

lemma pool_own_run:
  "(pool_own ^^ n) p p' \<Longrightarrow> pool_inv p \<Longrightarrow> pool_inv p' \<and> n + pool_work p' \<le> pool_work p"
proof (induction n arbitrary: p')
  case (Suc n)
  then obtain q where q: "(pool_own ^^ n) p q" "pool_own q p'" by auto
  with Suc pool_inv_own [OF q(2)] pool_own_work [OF q(2)] show ?case by force
qed simp

section \<open>FixedSizeThreadPool\<close>

text \<open>
  A worker tests the flag \<open>running_\<close> (\<open>Checking\<close>), then runs the critical section of
  \<open>interruptiblePop\<close> with \<open>k\<close> waits behind it (\<open>Popping k\<close>), may sleep in it (\<open>Sleeping k\<close>), notifies
  after it has taken a job (\<open>Releasing\<close>) and runs the job (\<open>Executing\<close>). \<open>stop\<close> waits until the queue
  is empty, clears the flag, wakes everybody and joins the workers. \<open>fp_pending\<close> counts the callers
  of \<open>run\<close> that have inserted and not yet notified; \<open>fp_inserted\<close> and \<open>fp_started\<close> record the jobs.
\<close>

datatype 'a worker =
    Checking
  | Popping nat
  | Sleeping nat
  | Releasing 'a
  | Executing 'a
  | Exited

datatype stopper = NotStopped | StopWait | StopSleep | StopClear | StopWake | StopJoin | Stopped

record 'a fixed_pool =
  fp_queue :: "'a queue"
  fp_block :: bool
  fp_running :: bool
  fp_workers :: "'a worker list"
  fp_stop :: stopper
  fp_pending :: nat
  fp_inserted :: "'a list"
  fp_started :: "'a list"

definition fixed_new :: "nat \<Rightarrow> bool \<Rightarrow> 'a fixed_pool" where
  "fixed_new maxqueuelen block =
     \<lparr>fp_queue = queue_new maxqueuelen, fp_block = block, fp_running = False, fp_workers = [],
      fp_stop = NotStopped, fp_pending = 0, fp_inserted = [], fp_started = []\<rparr>"

text \<open>The constructor without an error handler does not pass its last two arguments on.\<close>

definition fixed_new_default :: "nat \<Rightarrow> bool \<Rightarrow> 'a fixed_pool" where
  "fixed_new_default maxqueuelen block = fixed_new npos True"

definition fixed_start :: "nat \<Rightarrow> 'a fixed_pool \<Rightarrow> 'a fixed_pool" where
  "fixed_start nthreads p =
     p\<lparr>fp_running := True, fp_workers := fp_workers p @ replicate nthreads Checking\<rparr>"

fun wake_worker :: "'a worker \<Rightarrow> 'a worker" where
  "wake_worker (Sleeping k) = Popping k"
| "wake_worker w = w"

definition fixed_notify :: "'a fixed_pool \<Rightarrow> 'a fixed_pool" where
  "fixed_notify p =
     p\<lparr>fp_workers := map wake_worker (fp_workers p),
       fp_stop := (if fp_stop p = StopSleep then StopWait else fp_stop p)\<rparr>"

definition set_worker :: "nat \<Rightarrow> 'a worker \<Rightarrow> 'a fixed_pool \<Rightarrow> 'a fixed_pool" where
  "set_worker i w p = p\<lparr>fp_workers := (fp_workers p)[i := w]\<rparr>"

definition worker_check :: "nat \<Rightarrow> 'a fixed_pool \<Rightarrow> 'a fixed_pool" where
  "worker_check i p = set_worker i (if fp_running p then Popping 0 else Exited) p"

definition worker_pop :: "nat \<Rightarrow> nat \<Rightarrow> 'a fixed_pool \<Rightarrow> 'a fixed_pool" where
  "worker_pop i k p =
     (case queue_interruptiblePop k (fp_queue p) of
        Done q (Optional (Some job)) n \<Rightarrow>
          (set_worker i (Releasing job) p)\<lparr>fp_queue := q, fp_started := fp_started p @ [job]\<rparr>
      | Done q r n \<Rightarrow> (set_worker i Checking p)\<lparr>fp_queue := q\<rparr>
      | Block k' \<Rightarrow> set_worker i (Sleeping k') p
      | BlockFor k' \<Rightarrow> set_worker i (Sleeping k') p)"

definition stop_section :: "'a fixed_pool \<Rightarrow> 'a fixed_pool" where
  "stop_section p =
     (case queue_waitUntilEmpty (fp_queue p) of
        Done q r n \<Rightarrow> p\<lparr>fp_stop := StopClear\<rparr>
      | _ \<Rightarrow> p\<lparr>fp_stop := StopSleep\<rparr>)"

definition is_worker :: "'a fixed_pool \<Rightarrow> nat \<Rightarrow> 'a worker \<Rightarrow> bool" where
  "is_worker p i w \<longleftrightarrow> i < length (fp_workers p) \<and> fp_workers p ! i = w"

text \<open>The steps of the workers and of the thread that calls \<open>stop\<close>.\<close>

inductive fixed_step :: "'a fixed_pool \<Rightarrow> 'a fixed_pool \<Rightarrow> bool" where
  check: "is_worker p i Checking \<Longrightarrow> fixed_step p (worker_check i p)"
| pop: "is_worker p i (Popping k) \<Longrightarrow> fixed_step p (worker_pop i k p)"
| release: "is_worker p i (Releasing job) \<Longrightarrow>
    fixed_step p (set_worker i (Executing job) (fixed_notify p))"
| execute: "is_worker p i (Executing job) \<Longrightarrow> fixed_step p (set_worker i Checking p)"
| stop_wait: "fp_stop p = StopWait \<Longrightarrow> fixed_step p (stop_section p)"
| stop_clear: "fp_stop p = StopClear \<Longrightarrow> fixed_step p (p\<lparr>fp_running := False, fp_stop := StopWake\<rparr>)"
| stop_wake: "fp_stop p = StopWake \<Longrightarrow> fixed_step p ((fixed_notify p)\<lparr>fp_stop := StopJoin\<rparr>)"
| stop_join: "fp_stop p = StopJoin \<Longrightarrow> \<forall>w \<in> set (fp_workers p). w = Exited \<Longrightarrow>
    fixed_step p (p\<lparr>fp_stop := Stopped\<rparr>)"

text \<open>
  What comes from outside: \<open>start\<close>, \<open>stop\<close>, callers of \<open>run\<close> (one whose insert is blocked has not
  made its step yet) and wake-ups without a notification.
\<close>

inductive fixed_env :: "'a fixed_pool \<Rightarrow> 'a fixed_pool \<Rightarrow> bool" where
  env_start: "fixed_env p (fixed_start n p)"
| env_stop: "fp_stop p = NotStopped \<Longrightarrow> fixed_env p (p\<lparr>fp_stop := StopWait\<rparr>)"
| env_run: "queue_insert job (fp_block p) (fp_queue p) = Done q Unit True \<Longrightarrow>
    fixed_env p (p\<lparr>fp_queue := q, fp_pending := fp_pending p + 1, fp_inserted := fp_inserted p @ [job]\<rparr>)"
| env_notify: "fp_pending p > 0 \<Longrightarrow>
    fixed_env p ((fixed_notify p)\<lparr>fp_pending := fp_pending p - 1\<rparr>)"
| env_spurious: "is_worker p i (Sleeping k) \<Longrightarrow> fixed_env p (set_worker i (Popping k) p)"

inductive fixed_reach :: "'a fixed_pool \<Rightarrow> 'a fixed_pool \<Rightarrow> bool" for p0 where
  fixed_init: "fixed_reach p0 p0"
| fixed_next: "fixed_reach p0 p \<Longrightarrow> fixed_step p p' \<Longrightarrow> fixed_reach p0 p'"
| fixed_outside: "fixed_reach p0 p \<Longrightarrow> fixed_env p p' \<Longrightarrow> fixed_reach p0 p'"

definition fixed_inv :: "'a fixed_pool \<Rightarrow> bool" where
  "fixed_inv p \<longleftrightarrow> queue_wf (fp_queue p) \<and> fp_inserted p = fp_started p @ q_items (fp_queue p)"

lemma fixed_inv_notify [simp]: "fixed_inv (fixed_notify p) = fixed_inv p"
  by (simp add: fixed_inv_def fixed_notify_def)

lemma fixed_inv_set [simp]: "fixed_inv (set_worker i w p) = fixed_inv p"
  by (simp add: fixed_inv_def set_worker_def)

lemma fixed_inv_stop [simp]: "fixed_inv (p\<lparr>fp_stop := x\<rparr>) = fixed_inv p"
  "fixed_inv (p\<lparr>fp_running := r\<rparr>) = fixed_inv p" "fixed_inv (p\<lparr>fp_pending := m\<rparr>) = fixed_inv p"
  "fixed_inv (p\<lparr>fp_workers := ws\<rparr>) = fixed_inv p"
  by (simp_all add: fixed_inv_def)

lemma fixed_inv_pop: "fixed_inv p \<Longrightarrow> fixed_inv (worker_pop i k p)"
  by (auto simp: worker_pop_def queue_defs fixed_inv_def queue_wf_def set_worker_def split: list.splits)

lemma fixed_inv_step: "fixed_step p p' \<Longrightarrow> fixed_inv p \<Longrightarrow> fixed_inv p'"
  by (induction rule: fixed_step.induct)
    (simp_all add: worker_check_def stop_section_def fixed_inv_pop split: attempt.split)

lemma fixed_inv_env: "fixed_env p p' \<Longrightarrow> fixed_inv p \<Longrightarrow> fixed_inv p'"
proof (induction rule: fixed_env.induct)
  case (env_run job p q)
  then show ?case by (auto simp: fixed_inv_def queue_insert_def queue_wf_def split: if_splits)
qed (simp_all add: fixed_start_def)

lemma fixed_reach_inv: "fixed_reach p0 p \<Longrightarrow> fixed_inv p0 \<Longrightarrow> fixed_inv p"
  by (induction rule: fixed_reach.induct) (auto intro: fixed_inv_step fixed_inv_env)

section \<open>Properties\<close>

text \<open>The counters of \<open>ThreadPool\<close> are right under every interleaving: the number of free threads is
  the number of threads in the wait or just woken from it, the number of threads is the number of
  those that have not left, and every queued task has a free thread or one on its way to the queue.\<close>

theorem thread_pool_counters:
  assumes "pool_reach m p"
  shows "tp_free p = n_asleep p + n_awake p \<and> tp_num p = cnt alive (tp_threads p) \<and>
    length (tp_runq p) \<le> tp_free p + n_entering p"
  using pool_reach_inv [OF assms] by (simp add: pool_inv_def)

theorem thread_pool_counters_witness:
  "tp_free (pool_run ''t'' (pool_new 1)) = n_asleep (pool_run ''t'' (pool_new 1)) + n_awake (pool_run ''t'' (pool_new 1))"
  using thread_pool_counters [OF pool_next [OF pool_init run [of "pool_new 1" "''t''"]]] by blast

text \<open>C38. \<open>ThreadPool\<close> never leaves a task waiting for good, although it notifies one thread only and
  after it has released the mutex. In every reachable state with a queued task, one or two steps of the pool's own threads
  and of the notifications it has sent, with no help from a spurious wakeup or a further call of \<open>run\<close>, lead to
  a thread that works on the first task. Whatever own steps the pool makes and in whatever order, as long as tasks end,
  it makes at most \<open>pool_work\<close> of them, and when none is possible any more the queue is empty.\<close>

theorem thread_pool_progress:
  assumes "pool_reach m p" "tp_runq p = task # rest"
  shows "(\<exists>p1 p2 i c. (p1 = p \<or> pool_own p p1) \<and> pool_own p1 p2 \<and> at p2 i (Working c task) \<and> tp_runq p2 = rest) \<and>
    (\<forall>n p'. (pool_own ^^ n) p p' \<longrightarrow> n \<le> pool_work p \<and> ((\<nexists>p''. pool_own p' p'') \<longrightarrow> tp_runq p' = []))"
proof (intro conjI allI impI)
  have inv: "pool_inv p" using assms(1) by (rule pool_reach_inv)
  show "\<exists>p1 p2 i c. (p1 = p \<or> pool_own p p1) \<and> pool_own p1 p2 \<and> at p2 i (Working c task) \<and> tp_runq p2 = rest"
    by (rule pool_inv_progress [OF inv assms(2)])
  fix n p'
  assume "(pool_own ^^ n) p p'"
  then have p': "pool_inv p'" "n + pool_work p' \<le> pool_work p" using pool_own_run inv by blast+
  then show "n \<le> pool_work p" by simp
  show "tp_runq p' = []" if "\<nexists>p''. pool_own p' p''"
    using that pool_inv_progress [OF p'(1)] by (cases "tp_runq p'") blast+
qed

theorem thread_pool_progress_witness:
  "pool_reach 1 (pool_run ''t'' (pool_new 1)) \<and> tp_runq (pool_run ''t'' (pool_new 1)) = [''t''] \<and>
   (\<exists>p1 p2 i c. (p1 = pool_run ''t'' (pool_new 1) \<or> pool_own (pool_run ''t'' (pool_new 1)) p1) \<and>
     pool_own p1 p2 \<and> at p2 i (Working c ''t'') \<and> tp_runq p2 = [])"
proof -
  have r: "pool_reach 1 (pool_run ''t'' (pool_new 1))" by (rule pool_next [OF pool_init run])
  have q: "tp_runq (pool_run ''t'' (pool_new 1)) = [''t'']" by (simp add: pool_run_def Let_def startThread_def pool_new_def)
  from thread_pool_progress [OF r q] r q show ?thesis by blast
qed

text \<open>\<open>FixedSizeThreadPool\<close> starts every job at most once and in the order of the calls of \<open>run\<close>:
  the inserted jobs are the started ones followed by those still queued.\<close>

theorem fixed_pool_order:
  assumes "fixed_reach (fixed_new maxqueuelen block) p"
  shows "fp_inserted p = fp_started p @ q_items (fp_queue p)"
proof -
  have "fixed_inv (fixed_new maxqueuelen block :: 'a fixed_pool)"
    by (simp add: fixed_inv_def fixed_new_def queue_new_def queue_wf_def)
  with fixed_reach_inv [OF assms] show ?thesis by (simp add: fixed_inv_def)
qed

theorem fixed_pool_order_witness:
  "\<exists>p. fixed_reach (fixed_new 3 True) p \<and> fp_inserted p = [''j''] \<and>
     fp_inserted p = fp_started p @ q_items (fp_queue p)"
proof -
  let ?new = "fixed_new 3 True :: string fixed_pool"
  let ?q = "\<lparr>q_items = [''j''], q_max = 3, q_length = 1\<rparr>"
  let ?p = "?new\<lparr>fp_queue := ?q, fp_pending := fp_pending ?new + 1, fp_inserted := fp_inserted ?new @ [''j'']\<rparr>"
  have "queue_insert ''j'' (fp_block ?new) (fp_queue ?new) = Done ?q Unit True"
    by (simp add: queue_insert_def fixed_new_def queue_new_def npos_def)
  then have "fixed_reach ?new ?p" by (rule fixed_outside [OF fixed_init env_run])
  with fixed_pool_order [OF this] show ?thesis by (intro exI [of _ ?p]) (simp add: fixed_new_def)
qed

text \<open>\<open>FixedSizeThreadPool::stop\<close> may never return: the flag \<open>running_\<close> is not protected by the mutex
  of the queue, so a worker that has tested it before \<open>stop\<close> clears it can go to sleep after the last
  wake-up was sent. A state is reachable in which \<open>stop\<close> waits for a sleeping worker, nobody is
  about to notify and neither the workers nor \<open>stop\<close> can make a step.\<close>

theorem fixed_pool_stop_hangs:
  "\<exists>p. fixed_reach (fixed_new maxqueuelen block) p \<and> fp_stop p = StopJoin \<and>
     fp_workers p = [Sleeping 1] \<and> fp_pending p = 0 \<and> (\<forall>p'. \<not> fixed_step p p')"
proof -
  let ?new = "fixed_new maxqueuelen block :: 'a fixed_pool"
  let ?mk = "\<lambda>r w st. \<lparr>fp_queue = queue_new maxqueuelen, fp_block = block, fp_running = r, fp_workers = [w :: 'a worker],
    fp_stop = st, fp_pending = 0, fp_inserted = [], fp_started = []\<rparr>"
  have "fixed_reach ?new (?mk True Checking NotStopped)"
    using fixed_outside [OF fixed_init env_start [of ?new 1]] by (simp add: fixed_start_def fixed_new_def)
  then have "fixed_reach ?new (worker_check 0 (?mk True Checking NotStopped))"
    by (rule fixed_next [OF _ check]) (simp add: is_worker_def)
  then have "fixed_reach ?new (?mk True (Popping 0) NotStopped)"
    by (simp add: worker_check_def set_worker_def)
  then have "fixed_reach ?new (?mk True (Popping 0) NotStopped\<lparr>fp_stop := StopWait\<rparr>)"
    by (rule fixed_outside [OF _ env_stop]) simp
  then have "fixed_reach ?new (?mk True (Popping 0) StopWait)" by simp
  then have "fixed_reach ?new (stop_section (?mk True (Popping 0) StopWait))"
    by (rule fixed_next [OF _ stop_wait]) simp
  then have "fixed_reach ?new (?mk True (Popping 0) StopClear)"
    by (simp add: stop_section_def queue_waitUntilEmpty_def fixed_new_def queue_new_def)
  then have "fixed_reach ?new (?mk True (Popping 0) StopClear\<lparr>fp_running := False, fp_stop := StopWake\<rparr>)"
    by (rule fixed_next [OF _ stop_clear]) simp
  then have "fixed_reach ?new (?mk False (Popping 0) StopWake)" by simp
  then have "fixed_reach ?new ((fixed_notify (?mk False (Popping 0) StopWake))\<lparr>fp_stop := StopJoin\<rparr>)"
    by (rule fixed_next [OF _ stop_wake]) simp
  then have "fixed_reach ?new (?mk False (Popping 0) StopJoin)" by (simp add: fixed_notify_def)
  then have "fixed_reach ?new (worker_pop 0 0 (?mk False (Popping 0) StopJoin))"
    by (rule fixed_next [OF _ pop]) (simp add: is_worker_def)
  then have "fixed_reach ?new (?mk False (Sleeping 1) StopJoin)"
    by (simp add: worker_pop_def queue_interruptiblePop_def set_worker_def fixed_new_def queue_new_def)
  moreover have "\<not> fixed_step (?mk False (Sleeping 1) StopJoin) p'" for p'
    by (auto elim!: fixed_step.cases simp: is_worker_def)
  ultimately show ?thesis
    by (intro exI [of _ "?mk False (Sleeping 1) StopJoin"]) (simp add: fixed_new_def)
qed

end
