(* ===== verification/Stx_Future.thy ===== *)
theory Stx_Future
  imports Stx_Monitor
begin

text \<open>
  \<open>Future\<close> and \<open>Promise\<close> of \<open>thread/future_impl.h\<close>, which share a \<open>PromiseState\<close>, and \<open>Wakeup\<close> of
  \<open>thread/wakeup.cc\<close>. A callback is named by a value of \<open>'c\<close>; an operation returns the calls of
  callbacks it makes. \<open>onReady\<close> stores a wrapper that drops the argument. The status of a failed
  promise is the kind of its error, \<open>None\<close> is \<open>eSuccess\<close>.
\<close>

section \<open>Promise and Future\<close>

datatype 'c callback = Plain 'c | IgnoreArg 'c

datatype ('a, 'c) callback_call = CallValue 'c 'a | CallStatus 'c "stx_error option" | CallReady 'c

record ('a, 'c) promise =
  pr_ready :: bool
  pr_status :: "stx_error option"
  pr_value :: "'a option"
  pr_on_failure :: "'c callback option"
  pr_on_success :: "'c callback option"

definition promise_new :: "('a, 'c) promise" where
  "promise_new =
     \<lparr>pr_ready = False, pr_status = None, pr_value = None, pr_on_failure = None, pr_on_success = None\<rparr>"

fun call_value :: "'c callback option \<Rightarrow> 'a \<Rightarrow> ('a, 'c) callback_call list" where
  "call_value (Some (Plain c)) v = [CallValue c v]"
| "call_value (Some (IgnoreArg c)) v = [CallReady c]"
| "call_value None v = []"

fun call_status :: "'c callback option \<Rightarrow> stx_error option \<Rightarrow> ('a, 'c) callback_call list" where
  "call_status (Some (Plain c)) e = [CallStatus c e]"
| "call_status (Some (IgnoreArg c)) e = [CallReady c]"
| "call_status None e = []"

type_synonym ('a, 'c) promise_step = "(('a, 'c) promise \<times> ('a, 'c) callback_call list) result"

definition promise_success :: "'a \<Rightarrow> ('a, 'c) promise \<Rightarrow> ('a, 'c) promise_step" where
  "promise_success v p =
     (if pr_ready p then Inl kFutureError
      else Inr (p\<lparr>pr_value := Some v, pr_ready := True\<rparr>, call_value (pr_on_success p) v))"

definition promise_failure :: "stx_error option \<Rightarrow> ('a, 'c) promise \<Rightarrow> ('a, 'c) promise_step" where
  "promise_failure st p =
     (if pr_ready p then Inl kFutureError
      else Inr (p\<lparr>pr_status := st, pr_ready := True\<rparr>, call_status (pr_on_failure p) st))"

definition future_onFailure :: "'c \<Rightarrow> ('a, 'c) promise \<Rightarrow> ('a, 'c) promise_step" where
  "future_onFailure fn p =
     (if \<not> pr_ready p then Inr (p\<lparr>pr_on_failure := Some (Plain fn)\<rparr>, [])
      else if pr_status p \<noteq> None then Inr (p, [CallStatus fn (pr_status p)])
      else Inr (p, []))"

definition future_onSuccess :: "'c \<Rightarrow> ('a, 'c) promise \<Rightarrow> ('a, 'c) promise_step" where
  "future_onSuccess fn p =
     (if \<not> pr_ready p then Inr (p\<lparr>pr_on_success := Some (Plain fn)\<rparr>, [])
      else if pr_status p = None
      then (case pr_value p of None \<Rightarrow> Inl UndefinedBehaviour | Some v \<Rightarrow> Inr (p, [CallValue fn v]))
      else Inr (p, []))"

definition future_onReady :: "'c \<Rightarrow> ('a, 'c) promise \<Rightarrow> ('a, 'c) promise_step" where
  "future_onReady fn p =
     (if pr_ready p then Inr (p, [CallReady fn])
      else Inr (p\<lparr>pr_on_success := Some (IgnoreArg fn), pr_on_failure := Some (IgnoreArg fn)\<rparr>, []))"

definition future_get :: "('a, 'c) promise \<Rightarrow> 'a result" where
  "future_get p =
     (if \<not> pr_ready p then Inl kFutureError
      else case pr_status p of
        Some e \<Rightarrow> Inl e
      | None \<Rightarrow> (case pr_value p of None \<Rightarrow> Inl UndefinedBehaviour | Some v \<Rightarrow> Inr v))"

subsection \<open>The operations as critical sections\<close>

datatype ('a, 'c) future_op =
    Success 'a | Failure "stx_error option" | OnSuccess 'c | OnFailure 'c | OnReady 'c
  | Get | Wait | WaitFor | IsReady

datatype ('a, 'c) future_res =
    Calls "('a, 'c) callback_call list" | Got "'a result" | Flag bool | Threw stx_error

definition section_of ::
  "bool \<Rightarrow> ('a, 'c) promise_step \<Rightarrow> ('a, 'c) promise \<Rightarrow> (('a, 'c) promise, ('a, 'c) future_res) attempt" where
  "section_of notify st p =
     (case st of Inl e \<Rightarrow> Done p (Threw e) False | Inr (p', calls) \<Rightarrow> Done p' (Calls calls) notify)"

definition future_wait :: "('a, 'c) promise \<Rightarrow> (('a, 'c) promise, ('a, 'c) future_res) attempt" where
  "future_wait p = (if \<not> pr_ready p then Block 1 else Done p (Calls []) False)"

definition future_waitFor :: "nat \<Rightarrow> ('a, 'c) promise \<Rightarrow> (('a, 'c) promise, ('a, 'c) future_res) attempt" where
  "future_waitFor waits p =
     (if pr_ready p then Done p (Flag True) False
      else if waits = 0 then BlockFor 1
      else Done p (Flag (pr_ready p)) False)"

fun future_section :: "(unit, ('a, 'c) future_op, ('a, 'c) promise, ('a, 'c) future_res) critical" where
  "future_section e (Success v) k p = section_of True (promise_success v p) p"
| "future_section e (Failure st) k p = section_of True (promise_failure st p) p"
| "future_section e (OnSuccess c) k p = section_of False (future_onSuccess c p) p"
| "future_section e (OnFailure c) k p = section_of False (future_onFailure c p) p"
| "future_section e (OnReady c) k p = section_of False (future_onReady c p) p"
| "future_section e Get k p = Done p (Got (future_get p)) False"
| "future_section e Wait k p = future_wait p"
| "future_section e WaitFor k p = future_waitFor k p"
| "future_section e IsReady k p = Done p (Flag (pr_ready p)) False"

fun future_ready :: "('a, 'c) future_op \<Rightarrow> ('a, 'c) promise \<Rightarrow> bool" where
  "future_ready Wait p \<longleftrightarrow> pr_ready p"
| "future_ready WaitFor p \<longleftrightarrow> pr_ready p"
| "future_ready op p \<longleftrightarrow> True"

lemmas future_defs = section_of_def promise_success_def promise_failure_def future_onSuccess_def
  future_onFailure_def future_onReady_def future_wait_def future_waitFor_def

lemma future_section_block: "future_section e op k p = Block k' \<Longrightarrow> \<not> future_ready op p"
  by (cases op) (auto simp: future_defs split: if_splits option.splits)

lemma future_section_silent:
  "future_section e op k p = Done p' r False \<Longrightarrow> pr_ready p' = pr_ready p"
  by (cases op) (auto simp: future_defs split: if_splits option.splits)

lemma future_section_ready:
  "future_ready op p \<Longrightarrow> \<exists>p' r n. future_section e op k p = Done p' r n"
  by (cases op) (auto simp: future_defs split: option.splits)

interpretation future: monitor_live future_section future_ready
proof
  show "future_section e op k p = Block k' \<Longrightarrow> \<not> future_ready op p" for e op k k' and p :: "('a, 'c) promise"
    by (rule future_section_block)
  show "future_section e op k p = Done p' r False \<Longrightarrow> future_ready op' p' \<Longrightarrow> future_ready op' p"
    for e op op' k p' r and p :: "('a, 'c) promise"
    using future_section_silent [of e op k p p' r] by (cases op') auto
  show "future_ready op p \<Longrightarrow> \<exists>p' r n. future_section e op k p = Done p' r n"
    for e op k and p :: "('a, 'c) promise"
    by (rule future_section_ready)
qed

subsection \<open>A promise is fulfilled once\<close>

lemma ready_stable:
  assumes "future_section e op k p = Done p' r n" "pr_ready p"
  shows "p' = p"
  using assms by (cases op) (auto simp: future_defs split: if_splits option.splits)

definition fulfils :: "('a, 'c) future_op \<times> ('a, 'c) future_res \<Rightarrow> bool" where
  "fulfils x = (case x of (Success v, Calls cs) \<Rightarrow> True | (Failure st, Calls cs) \<Rightarrow> True | _ \<Rightarrow> False)"

lemma fulfil_section:
  "future_section e op k p = Done p' r n \<Longrightarrow> fulfils (op, r) \<longleftrightarrow> \<not> pr_ready p \<and> pr_ready p'"
  by (cases op) (auto simp: fulfils_def future_defs split: if_splits option.splits)

lemma replay_fulfilled_once:
  assumes "replay future_section promise_new l p"
  shows "length (filter fulfils l) = (if pr_ready p then 1 else 0)"
  using assms
proof (induction rule: replay.induct)
  case replay_Nil
  then show ?case by (simp add: promise_new_def)
next
  case (replay_snoc l q e op k q' r n)
  then show ?case
    using fulfil_section [OF replay_snoc.hyps(2)] ready_stable [OF replay_snoc.hyps(2)] by auto
qed

section \<open>Wakeup\<close>

text \<open>A generation counter with callbacks for the next generation.\<close>

record 'c wakeup =
  wu_gen :: nat
  wu_callbacks :: "'c list"

definition wakeup_new :: "'c wakeup" where
  "wakeup_new = \<lparr>wu_gen = 0, wu_callbacks = []\<rparr>"

datatype 'c wakeup_op = WaitForWakeup nat | OnWakeup nat 'c | Generation | DoWakeup

datatype 'c wakeup_res = Ran "'c list" | Gen nat

definition waitForWakeup :: "nat \<Rightarrow> 'c wakeup \<Rightarrow> ('c wakeup, 'c wakeup_res) attempt" where
  "waitForWakeup oldgen w = (if wu_gen w > oldgen then Done w (Ran []) False else Block 1)"

definition onWakeup :: "nat \<Rightarrow> 'c \<Rightarrow> 'c wakeup \<Rightarrow> ('c wakeup, 'c wakeup_res) attempt" where
  "onWakeup generation callback w =
     (if wu_gen w > generation then Done w (Ran [callback]) False
      else Done (w\<lparr>wu_callbacks := wu_callbacks w @ [callback]\<rparr>) (Ran []) False)"

definition do_wakeup :: "'c wakeup \<Rightarrow> ('c wakeup, 'c wakeup_res) attempt" where
  "do_wakeup w = Done (w\<lparr>wu_gen := wu_gen w + 1, wu_callbacks := []\<rparr>) (Ran (wu_callbacks w)) True"

fun wakeup_section :: "(unit, 'c wakeup_op, 'c wakeup, 'c wakeup_res) critical" where
  "wakeup_section e (WaitForWakeup g) k w = waitForWakeup g w"
| "wakeup_section e (OnWakeup g c) k w = onWakeup g c w"
| "wakeup_section e Generation k w = Done w (Gen (wu_gen w)) False"
| "wakeup_section e DoWakeup k w = do_wakeup w"

fun wakeup_ready :: "'c wakeup_op \<Rightarrow> 'c wakeup \<Rightarrow> bool" where
  "wakeup_ready (WaitForWakeup g) w \<longleftrightarrow> g < wu_gen w"
| "wakeup_ready op w \<longleftrightarrow> True"

lemmas wakeup_defs = waitForWakeup_def onWakeup_def do_wakeup_def

interpretation wakeup: monitor_live wakeup_section wakeup_ready
proof
  show "wakeup_section e op k w = Block k' \<Longrightarrow> \<not> wakeup_ready op w" for e op k k' and w :: "'c wakeup"
    by (cases op) (auto simp: wakeup_defs split: if_splits)
  show "wakeup_section e op k w = Done w' r False \<Longrightarrow> wakeup_ready op' w' \<Longrightarrow> wakeup_ready op' w"
    for e op op' k w' r and w :: "'c wakeup"
    by (cases op; cases op') (auto simp: wakeup_defs split: if_splits)
  show "wakeup_ready op w \<Longrightarrow> \<exists>w' r n. wakeup_section e op k w = Done w' r n"
    for e op k and w :: "'c wakeup"
    by (cases op) (auto simp: wakeup_defs)
qed

section \<open>Properties\<close>

text \<open>A promise is fulfilled at most once, whatever the threads do: of all completed calls of
  \<open>success\<close> and \<open>failure\<close> on a promise exactly one has not raised once it is ready and none before,
  and a thread that waits for a ready future is woken and returns.\<close>

theorem promise_fulfilled_once:
  assumes "mon_reach future_section promise_new s"
  shows "length (filter fulfils (mon_log s)) = (if pr_ready (mon_q s) then 1 else 0) \<and>
    (\<forall>i k. mon_t s i = Waiting Wait k False \<longrightarrow> pr_ready (mon_q s) \<longrightarrow>
      (\<exists>s1 s2 r. mon_step future_section s s1 \<and> mon_step future_section s1 s2 \<and>
        mon_log s2 = mon_log s @ [(Wait, r)]))"
proof -
  have "\<exists>s1 s2 r. mon_step future_section s s1 \<and> mon_step future_section s1 s2 \<and>
      mon_log s2 = mon_log s @ [(Wait, r)]"
    if "mon_t s i = Waiting Wait k False" "pr_ready (mon_q s)" for i k
    using future.waiting_completes [OF assms that(1)] that(2) by auto
  then show ?thesis using replay_fulfilled_once [OF mon_reach_replay [OF assms]] by blast
qed

theorem promise_fulfilled_once_witness:
  "\<exists>l. l = [(Success 5 :: (nat, nat) future_op, Calls [])] \<and> length (filter fulfils l) = 1"
proof -
  let ?op = "Success 5 :: (nat, nat) future_op"
  let ?s = "section_end 0 ?op (future_section () ?op 0 promise_new) (mon_init promise_new)"
  have r: "mon_reach future_section promise_new ?s"
    using reach_call [OF mon_reach.init, of promise_new 0 future_section ?op "()"] by (simp add: mon_init_def)
  have "mon_log ?s = [(?op, Calls [])]" "pr_ready (mon_q ?s)"
    by (simp_all add: section_end_def future_defs promise_new_def mon_init_def)
  moreover from this(2) promise_fulfilled_once [OF r] have "length (filter fulfils (mon_log ?s)) = 1" by simp
  ultimately show ?thesis by blast
qed

text \<open>After \<open>success(v)\<close> on a pending promise, \<open>get\<close> returns \<open>v\<close>, later fulfilments raise, and a
  success callback is called exactly once with \<open>v\<close>: at fulfilment if it was the last one registered
  before, at once if it is registered after; failure callbacks are not called.\<close>

theorem promise_success_correct:
  assumes "\<not> pr_ready p" "pr_status p = None"
  shows "\<exists>p'. future_onSuccess c p = Inr (p', []) \<and>
    (\<exists>p1. promise_success v p' = Inr (p1, [CallValue c v]) \<and> future_get p1 = Inr v \<and>
      promise_success w p1 = Inl kFutureError \<and> promise_failure st p1 = Inl kFutureError \<and>
      future_onSuccess d p1 = Inr (p1, [CallValue d v]) \<and> future_onFailure d p1 = Inr (p1, []) \<and>
      future_onReady d p1 = Inr (p1, [CallReady d]))"
  using assms by (simp add: future_defs future_get_def)

theorem promise_success_correct_witness:
  "\<exists>p1. promise_success 3 (promise_new\<lparr>pr_on_success := Some (Plain ''cb'')\<rparr>) = Inr (p1, [CallValue ''cb'' 3]) \<and>
     future_get p1 = Inr (3 :: nat)"
  using promise_success_correct [of "promise_new :: (nat, string) promise" "''cb''" 3 0 None "''d''"]
  by (auto simp: promise_new_def future_onSuccess_def)

end
