(* ===== verification/Stx_PageManager.thy ===== *)
theory Stx_PageManager
  imports Stx_Prelude
begin

text \<open>
  The page allocator of \<open>io/pagemanager.cc\<close>: \<open>PageManager\<close> hands out ranges of a file and keeps a
  list of freed ones, \<open>MmapPageManager\<close> grows and maps the file. Offsets and sizes are 64-bit values,
  written as natural numbers below \<open>2 ^ 64\<close> with the wrap-around explicit. The mutexes make each
  operation atomic. The file on disk is its size; \<open>mmap\<close> maps the whole file.
\<close>

abbreviation two64 :: nat where
  "two64 \<equiv> 2 ^ 64"

record page =
  pg_offset :: nat
  pg_size :: nat

section \<open>PageManager\<close>

record page_manager =
  pm_end :: nat
  pm_block :: nat
  pm_free :: "(nat \<times> nat) list"

definition pm_new :: "nat \<Rightarrow> nat \<Rightarrow> page_manager" where
  "pm_new block_size end_pos = \<lparr>pm_end = end_pos, pm_block = block_size, pm_free = []\<rparr>"

text \<open>The list holds pairs of size and offset; the first range that is large enough is taken whole.\<close>

fun findFreePage :: "nat \<Rightarrow> (nat \<times> nat) list \<Rightarrow> (page \<times> (nat \<times> nat) list) option" where
  "findFreePage min_size [] = None"
| "findFreePage min_size ((sz, off) # fl) =
     (if sz \<ge> min_size then Some (\<lparr>pg_offset = off, pg_size = sz\<rparr>, fl)
      else map_option (\<lambda>(p, fl'). (p, (sz, off) # fl')) (findFreePage min_size fl))"

text \<open>The request is rounded up to a multiple of the block size; a block size of 0 divides by zero.\<close>

definition align_up :: "nat \<Rightarrow> nat \<Rightarrow> nat" where
  "align_up block min_size =
     ((((min_size + block - 1) mod two64) div block) * block) mod two64"

definition allocPage :: "nat \<Rightarrow> page_manager \<Rightarrow> (page \<times> page_manager) result" where
  "allocPage min_size m =
     (if pm_block m = 0 then Inl UndefinedBehaviour
      else
        (let aligned = align_up (pm_block m) min_size
         in case findFreePage aligned (pm_free m) of
              Some (p, fl) \<Rightarrow> Inr (p, m\<lparr>pm_free := fl\<rparr>)
            | None \<Rightarrow> Inr (\<lparr>pg_offset = pm_end m, pg_size = aligned\<rparr>,
                          m\<lparr>pm_end := (pm_end m + aligned) mod two64\<rparr>)))"

definition freePage :: "page \<Rightarrow> page_manager \<Rightarrow> page_manager" where
  "freePage p m = m\<lparr>pm_free := pm_free m @ [(pg_size p, pg_offset p)]\<rparr>"

definition structAt :: "nat \<Rightarrow> page \<Rightarrow> nat result" where
  "structAt position p =
     (if position \<ge> pg_size p then Inl kIndexError else Inr (pg_offset p + position))"

subsection \<open>Pages do not overlap\<close>

definition bytes :: "page \<Rightarrow> nat set" where
  "bytes p = {pg_offset p..<pg_offset p + pg_size p}"

definition free_page :: "nat \<times> nat \<Rightarrow> page" where
  "free_page x = \<lparr>pg_offset = snd x, pg_size = fst x\<rparr>"

abbreviation disjoint_pages :: "page list \<Rightarrow> bool" where
  "disjoint_pages \<equiv> sorted_wrt (\<lambda>p q. bytes p \<inter> bytes q = {})"

definition pm_inv :: "page_manager \<Rightarrow> page list \<Rightarrow> bool" where
  "pm_inv m live \<longleftrightarrow> disjoint_pages (live @ map free_page (pm_free m)) \<and>
     (\<forall>p \<in> set live \<union> free_page ` set (pm_free m). pg_offset p + pg_size p \<le> pm_end m)"

lemma disjoint_pages_nth:
  assumes "disjoint_pages ps" "i < length ps" "j < length ps" "i \<noteq> j"
  shows "bytes (ps ! i) \<inter> bytes (ps ! j) = {}"
  using assms(2-) sorted_wrt_nth_less [OF assms(1), of i j] sorted_wrt_nth_less [OF assms(1), of j i]
  by (cases "i < j") auto

lemma disjoint_pages_remove1:
  assumes "disjoint_pages ps" "p \<in> set ps"
  shows "disjoint_pages (remove1 p ps) \<and> (\<forall>q \<in> set (remove1 p ps). bytes p \<inter> bytes q = {})"
proof -
  obtain xs ys where "ps = xs @ p # ys" "p \<notin> set xs" using split_list_first [OF assms(2)] by blast
  with assms(1) show ?thesis by (auto simp: sorted_wrt_append remove1_append)
qed

lemma findFreePage_Some:
  assumes "findFreePage n fl = Some (p, fl')"
  shows "n \<le> pg_size p \<and> (\<exists>xs ys. fl = xs @ (pg_size p, pg_offset p) # ys \<and> fl' = xs @ ys)"
  using assms
proof (induction fl arbitrary: fl')
  case (Cons x fl)
  obtain sz off where x: "x = (sz, off)" by (cases x)
  show ?case
  proof (cases "sz \<ge> n")
    case True
    then have "p = \<lparr>pg_offset = off, pg_size = sz\<rparr>" "fl' = fl" using Cons.prems by (simp_all add: x)
    then have "x # fl = [] @ (pg_size p, pg_offset p) # fl \<and> fl' = [] @ fl" by (simp add: x)
    with True \<open>p = _\<close> show ?thesis by (metis page.select_convs(2))
  next
    case False
    then obtain fl1 where "findFreePage n fl = Some (p, fl1)" "fl' = x # fl1"
      using Cons.prems by (auto simp: x split: prod.splits)
    with Cons.IH obtain xs ys where "n \<le> pg_size p" "fl = xs @ (pg_size p, pg_offset p) # ys" "fl1 = xs @ ys"
      by blast
    then show ?thesis using \<open>fl' = x # fl1\<close> by (metis append_Cons)
  qed
qed simp

lemma align_up_ge:
  assumes "0 < b" "n + 2 * b \<le> two64"
  shows "n \<le> align_up b n" "align_up b n < n + b" "b dvd align_up b n"
proof -
  let ?q = "(n + b - 1) div b"
  have "n + b - 1 < two64" using assms by linarith
  have split: "?q * b + (n + b - 1) mod b = n + b - 1" by (rule div_mult_mod_eq)
  moreover have "(n + b - 1) mod b < b" using assms(1) by simp
  ultimately have q: "n \<le> ?q * b" "?q * b < n + b" using assms(1) by linarith+
  then have "?q * b < two64" using assms by linarith
  then have "align_up b n = ?q * b" using \<open>n + b - 1 < two64\<close> by (simp add: align_up_def)
  with q show "n \<le> align_up b n" "align_up b n < n + b" "b dvd align_up b n" by simp_all
qed

lemma pm_inv_alloc:
  assumes inv: "pm_inv m live" and b: "0 < pm_block m" "n + 2 * pm_block m \<le> two64"
    and e: "pm_end m + n + pm_block m \<le> two64"
  shows "\<exists>p m'. allocPage n m = Inr (p, m') \<and> pm_inv m' (p # live) \<and> n \<le> pg_size p \<and>
    pm_block m' = pm_block m \<and> (\<forall>q \<in> set live. bytes p \<inter> bytes q = {})"
proof (cases "findFreePage (align_up (pm_block m) n) (pm_free m)")
  case None
  let ?a = "align_up (pm_block m) n"
  have a: "n \<le> ?a" "pm_end m + ?a < two64" using align_up_ge [OF b] e by linarith+
  have "bytes \<lparr>pg_offset = pm_end m, pg_size = ?a\<rparr> \<inter> bytes q = {}"
    if "pg_offset q + pg_size q \<le> pm_end m" for q
    using that by (auto simp: bytes_def)
  moreover have "allocPage n m = Inr (\<lparr>pg_offset = pm_end m, pg_size = ?a\<rparr>, m\<lparr>pm_end := pm_end m + ?a\<rparr>)"
    using None b a by (simp add: allocPage_def Let_def)
  ultimately show ?thesis using inv a(1) by (auto simp: pm_inv_def intro: trans_le_add1)
next
  case (Some r)
  obtain p fl where r: "r = (p, fl)" by (cases r)
  obtain xs ys where fl: "align_up (pm_block m) n \<le> pg_size p"
    "pm_free m = xs @ (pg_size p, pg_offset p) # ys" "fl = xs @ ys"
    using findFreePage_Some Some unfolding r by blast
  have p: "free_page (pg_size p, pg_offset p) = p" by (simp add: free_page_def)
  then have "pm_inv (m\<lparr>pm_free := fl\<rparr>) (p # live) \<and> (\<forall>q \<in> set live. bytes p \<inter> bytes q = {})"
    using inv by (auto simp: pm_inv_def fl sorted_wrt_append Int_commute)
  moreover have "n \<le> pg_size p" using fl(1) align_up_ge(1) [OF b] by linarith
  ultimately show ?thesis using Some b by (auto simp: allocPage_def Let_def r)
qed

lemma pm_inv_free:
  assumes "pm_inv m live" "p \<in> set live"
  shows "pm_inv (freePage p m) (remove1 p live)"
proof -
  have p: "free_page (pg_size p, pg_offset p) = p" by (simp add: free_page_def)
  have "disjoint_pages (remove1 p live)" "\<forall>q \<in> set (remove1 p live). bytes p \<inter> bytes q = {}"
    using disjoint_pages_remove1 [OF _ assms(2)] assms(1) by (auto simp: pm_inv_def sorted_wrt_append)
  moreover have "set (remove1 p live) \<subseteq> set live" by (rule set_remove1_subset)
  ultimately show ?thesis
    using assms by (auto simp: pm_inv_def freePage_def sorted_wrt_append p Int_commute subset_iff)
qed

text \<open>
  The states the allocator and its clients can reach when only live pages are freed and the file
  stays below \<open>2 ^ 64\<close> bytes; the second argument is the list of the pages in use.
\<close>

inductive pm_reach :: "nat \<Rightarrow> page_manager \<Rightarrow> page list \<Rightarrow> bool" for b where
  reach_new: "0 < b \<Longrightarrow> e < two64 \<Longrightarrow> pm_reach b (pm_new b e) []"
| reach_alloc: "pm_reach b m live \<Longrightarrow> n + 2 * b \<le> two64 \<Longrightarrow> pm_end m + n + b \<le> two64 \<Longrightarrow>
    allocPage n m = Inr (p, m') \<Longrightarrow> pm_reach b m' (p # live)"
| reach_free: "pm_reach b m live \<Longrightarrow> p \<in> set live \<Longrightarrow> pm_reach b (freePage p m) (remove1 p live)"

lemma pm_reach_inv: "pm_reach b m live \<Longrightarrow> 0 < b \<and> pm_block m = b \<and> pm_inv m live"
proof (induction rule: pm_reach.induct)
  case (reach_new e)
  then show ?case by (simp add: pm_new_def pm_inv_def)
next
  case (reach_alloc m live n p m')
  then show ?case using pm_inv_alloc [of m live n] by auto
next
  case (reach_free m live p)
  then show ?case using pm_inv_free by (simp add: freePage_def)
qed

section \<open>MmapPageManager\<close>

record mmap_manager =
  mm_used :: nat
  mm_file_size :: nat
  mm_mapping :: "nat option"
  mm_sys_page :: nat
  mm_disk :: nat

definition kMmapSizeMultiplier :: nat where
  "kMmapSizeMultiplier = 128"

definition mmap_new :: "nat \<Rightarrow> nat \<Rightarrow> mmap_manager" where
  "mmap_new sys_page file_size =
     \<lparr>mm_used = file_size, mm_file_size = file_size, mm_mapping = None, mm_sys_page = sys_page,
      mm_disk = file_size\<rparr>"

definition mm_truncate :: "nat \<Rightarrow> mmap_manager \<Rightarrow> mmap_manager" where
  "mm_truncate n m = m\<lparr>mm_disk := n, mm_file_size := n\<rparr>"

definition shrinkFile :: "mmap_manager \<Rightarrow> mmap_manager" where
  "shrinkFile m = mm_truncate (mm_used m) m"

definition getMmappedFile :: "nat \<Rightarrow> mmap_manager \<Rightarrow> nat \<times> mmap_manager" where
  "getMmappedFile last_byte m =
     (case mm_mapping m of
        Some sz \<Rightarrow> if last_byte > sz then (mm_disk m, m\<lparr>mm_mapping := Some (mm_disk m)\<rparr>) else (sz, m)
      | None \<Rightarrow> (mm_disk m, m\<lparr>mm_mapping := Some (mm_disk m)\<rparr>))"

text \<open>The size the file is grown to, with and without padding.\<close>

definition grown_size :: "nat \<Rightarrow> bool \<Rightarrow> nat \<Rightarrow> nat" where
  "grown_size sys_page allow_padding last_byte =
     (let mmap_block_size = sys_page * kMmapSizeMultiplier
      in if allow_padding then ((last_byte div mmap_block_size + 1) * mmap_block_size) mod two64
         else last_byte)"

text \<open>\<open>getPageImpl\<close>: the size of the mapping behind the returned page, and the new state.\<close>

definition getPageImpl :: "page \<Rightarrow> bool \<Rightarrow> mmap_manager \<Rightarrow> nat \<times> mmap_manager" where
  "getPageImpl p allow_padding m =
     (let last_byte = (pg_offset p + pg_size p) mod two64;
          m = (if last_byte > mm_used m then m\<lparr>mm_used := last_byte\<rparr> else m);
          m = (if last_byte > mm_file_size m
               then mm_truncate (grown_size (mm_sys_page m) allow_padding last_byte) m
               else m)
      in getMmappedFile last_byte m)"

datatype sync_flag = MS_SYNC | MS_ASYNC

text \<open>\<open>sync\<close>: the range and the flag passed to \<open>msync\<close>, for a mapping at address \<open>base\<close>.\<close>

definition page_sync :: "nat \<Rightarrow> nat \<Rightarrow> page \<Rightarrow> bool \<Rightarrow> nat \<times> nat \<times> sync_flag" where
  "page_sync sys_page base p async =
     (let ptr = base + pg_offset p;
          sptr = (ptr div sys_page) * sys_page;
          ssize = pg_size p + (ptr - sptr)
      in (sptr, ssize, if async then MS_SYNC else MS_ASYNC))"

definition mm_inv :: "mmap_manager \<Rightarrow> bool" where
  "mm_inv m \<longleftrightarrow> mm_disk m = mm_file_size m \<and> mm_used m \<le> mm_file_size m \<and> 0 < mm_sys_page m"

lemma padded_size:
  assumes "0 < (b :: nat)"
  shows "n < (n div b + 1) * b"
  using dividend_less_times_div [OF assms, of n] by (simp add: algebra_simps)

lemma grown_size_ge:
  assumes "0 < sys_page" "n + sys_page * kMmapSizeMultiplier < two64"
  shows "n \<le> grown_size sys_page pad n"
proof -
  let ?b = "sys_page * kMmapSizeMultiplier"
  have "0 < ?b" using assms(1) by (simp add: kMmapSizeMultiplier_def)
  then have "n \<le> (n div ?b + 1) * ?b" using padded_size less_imp_le by blast
  moreover have "(n div ?b + 1) * ?b < two64"
    using assms(2) div_times_less_eq_dividend [of n ?b] by (simp add: algebra_simps)
  ultimately show ?thesis unfolding grown_size_def Let_def by (simp only: mod_less if_splits) simp
qed

lemma getPageImpl_ok:
  assumes "mm_inv m" "pg_offset p + pg_size p + mm_sys_page m * kMmapSizeMultiplier < two64"
  shows "\<exists>sz m'. getPageImpl p pad m = (sz, m') \<and> mm_inv m' \<and> mm_mapping m' = Some sz \<and>
    pg_offset p + pg_size p \<le> sz \<and> pg_offset p + pg_size p \<le> mm_used m' \<and> mm_used m \<le> mm_used m'"
proof -
  let ?l = "pg_offset p + pg_size p"
  have l: "?l mod two64 = ?l" using assms(2) by simp
  have "?l \<le> grown_size (mm_sys_page m) pad ?l"
    using grown_size_ge assms by (simp add: mm_inv_def)
  then show ?thesis
    using assms(1) unfolding getPageImpl_def Let_def l mm_truncate_def
    by (auto simp: mm_inv_def getMmappedFile_def split: option.split)
qed

section \<open>Properties\<close>

text \<open>C39. Pages in use never overlap, under any sequence of allocations and of frees of pages in use: any
  two positions of the list of live pages are disjoint ranges that end before the end of the file.\<close>

theorem pages_never_overlap:
  assumes "pm_reach b m live" "i < length live" "j < length live" "i \<noteq> j"
  shows "bytes (live ! i) \<inter> bytes (live ! j) = {} \<and>
    pg_offset (live ! i) + pg_size (live ! i) \<le> pm_end m"
proof -
  have inv: "pm_inv m live" using pm_reach_inv [OF assms(1)] by blast
  then have "disjoint_pages live" by (auto simp: pm_inv_def sorted_wrt_append)
  with disjoint_pages_nth assms(2-) inv show ?thesis by (auto simp: pm_inv_def)
qed

text \<open>\<open>allocPage\<close> returns a page of at least the requested size that overlaps no page in use, as
  long as the rounding and the end of the file stay below \<open>2 ^ 64\<close>.\<close>

theorem allocPage_correct:
  assumes "pm_reach b m live" "n + 2 * b \<le> two64" "pm_end m + n + b \<le> two64"
  shows "\<exists>p m'. allocPage n m = Inr (p, m') \<and> n \<le> pg_size p \<and>
    (\<forall>q \<in> set live. bytes p \<inter> bytes q = {}) \<and> pm_reach b m' (p # live)"
proof -
  have inv: "0 < pm_block m" "pm_block m = b" "pm_inv m live" using pm_reach_inv [OF assms(1)] by auto
  then obtain p m' where "allocPage n m = Inr (p, m')" "n \<le> pg_size p" "\<forall>q \<in> set live. bytes p \<inter> bytes q = {}"
    using pm_inv_alloc [of m live n] assms(2,3) by auto
  with reach_alloc [OF assms] show ?thesis by blast
qed

theorem allocPage_correct_witness:
  "\<exists>p m'. allocPage 100 (pm_new 64 0) = Inr (p, m') \<and> 100 \<le> pg_size p"
  using allocPage_correct [OF reach_new [of 64 0], of 100] by (auto simp: pm_new_def)

theorem pages_never_overlap_witness:
  "\<exists>p q m. pm_reach 64 m [q, p] \<and> bytes q \<inter> bytes p = {}"
proof -
  let ?m0 = "pm_new 64 0" and ?p = "\<lparr>pg_offset = 0, pg_size = 128\<rparr>" and ?q = "\<lparr>pg_offset = 128, pg_size = 64\<rparr>"
  let ?m1 = "?m0\<lparr>pm_end := 128\<rparr>" and ?m2 = "?m0\<lparr>pm_end := 192\<rparr>"
  have "pm_reach 64 ?m1 [?p]"
    by (rule reach_alloc [OF reach_new, of 64 0 100]) (simp_all add: pm_new_def allocPage_def align_up_def)
  then have r: "pm_reach 64 ?m2 [?q, ?p]"
    by (rule reach_alloc [of 64 ?m1 _ 10]) (simp_all add: pm_new_def allocPage_def align_up_def)
  have "bytes ?q \<inter> bytes ?p = {}" using pages_never_overlap [OF r, of 0 1] by simp
  with r show ?thesis by (intro exI conjI)
qed

text \<open>A request so large that rounding it up wraps around is answered with a page of size 0.\<close>

theorem allocPage_wraps:
  assumes "1 < b" "pm_block m = b" "pm_free m = []" "n < two64" "b < two64" "two64 \<le> n + b - 1"
  shows "\<exists>m'. allocPage n m = Inr (\<lparr>pg_offset = pm_end m, pg_size = 0\<rparr>, m')"
proof -
  have "(n + b - 1) mod two64 = n + b - 1 - two64"
  proof -
    have "n + b - 1 - two64 < two64" using assms(4,5) by linarith
    then show ?thesis using le_mod_geq [OF assms(6)] by (simp only: mod_less)
  qed
  moreover have "n + b - 1 - two64 < b" using assms(1,4,6) by linarith
  ultimately have "align_up b n = 0" by (simp add: align_up_def)
  then show ?thesis using assms by (simp add: allocPage_def)
qed

theorem allocPage_wraps_witness:
  "\<exists>m'. allocPage 18446744073709551615 (pm_new 4096 0) = Inr (\<lparr>pg_offset = 0, pg_size = 0\<rparr>, m')"
  using allocPage_wraps [of 4096 "pm_new 4096 0" 18446744073709551615] by (simp add: pm_new_def)

text \<open>A page obtained from \<open>MmapPageManager\<close> lies inside of the mapping it is read through and inside
  of the used part of the file, whether or not the file is padded and after any number of shrinks.\<close>

theorem mmap_page_mapped:
  assumes "mm_inv m" "pg_offset p + pg_size p + mm_sys_page m * kMmapSizeMultiplier < two64"
  shows "\<exists>sz m'. getPageImpl p pad (shrinkFile m) = (sz, m') \<and> mm_inv m' \<and>
    pg_offset p + pg_size p \<le> sz \<and> pg_offset p + pg_size p \<le> mm_used m' \<and>
    (\<forall>i a. structAt i p = Inr a \<longrightarrow> a < sz)"
proof -
  have "mm_inv (shrinkFile m)" "mm_sys_page (shrinkFile m) = mm_sys_page m"
    using assms(1) by (simp_all add: mm_inv_def shrinkFile_def mm_truncate_def)
  with getPageImpl_ok [of "shrinkFile m" p pad] assms(2) show ?thesis
    by (auto simp: structAt_def split: if_splits)
qed

theorem mmap_page_mapped_witness:
  "\<exists>sz m'. getPageImpl \<lparr>pg_offset = 4096, pg_size = 10\<rparr> True (shrinkFile (mmap_new 4096 0)) = (sz, m') \<and>
     4106 \<le> sz"
  using mmap_page_mapped [of "mmap_new 4096 0" "\<lparr>pg_offset = 4096, pg_size = 10\<rparr>" True]
  by (auto simp: mm_inv_def mmap_new_def kMmapSizeMultiplier_def)

text \<open>\<open>sync\<close> passes \<open>msync\<close> a range that starts at a system page and covers the whole page, but
  with the flags exchanged: a synchronous call asks for asynchronous writing and the other way round.\<close>

theorem sync_range_and_flag:
  assumes "0 < sys_page"
  shows "\<exists>start n. page_sync sys_page base p async = (start, n, if async then MS_SYNC else MS_ASYNC) \<and>
    sys_page dvd start \<and> start \<le> base + pg_offset p \<and>
    start + n = base + pg_offset p + pg_size p \<and> base + pg_offset p < start + sys_page"
proof -
  let ?ptr = "base + pg_offset p"
  have "?ptr div sys_page * sys_page \<le> ?ptr" by simp
  moreover have "?ptr < ?ptr div sys_page * sys_page + sys_page"
    using padded_size [OF assms, of ?ptr] by (simp add: algebra_simps)
  ultimately show ?thesis unfolding page_sync_def Let_def by (intro exI conjI refl) (linarith | simp)+
qed

theorem sync_range_and_flag_witness:
  "page_sync 4096 8192 \<lparr>pg_offset = 5000, pg_size = 10\<rparr> False = (12288, 914, MS_ASYNC)"
  using sync_range_and_flag [of 4096 8192 "\<lparr>pg_offset = 5000, pg_size = 10\<rparr>" False]
  by (simp add: page_sync_def Let_def)

end
