(* ===== verification/Stx_HashSet.thy ===== *)
theory Stx_HashSet
  imports Stx_Prelude
begin

text \<open>
  The FNV hash of \<open>fnv.h\<close>, \<open>fnv.cc\<close> and the open-addressing hash set on disk of
  \<open>util/PersistentHashSet.cc\<close>. A record id is a list of 20 bytes. The file is its header and the list of its
  slots; a read returns the bytes up to the end of the file. Slot counts are natural numbers: the
  fill factor 0.5 and the growth factor 2.0 are exact on them. The write mutex makes the inserts
  sequential; system calls do not fail.
\<close>

section \<open>FNV\<close>

record 'w fnv =
  fnv_prime :: 'w
  fnv_memory :: 'w

definition FNV32 :: "u32 fnv" where
  "FNV32 = \<lparr>fnv_prime = 16777619, fnv_memory = 2166136261\<rparr>"

definition FNV64 :: "u64 fnv" where
  "FNV64 = \<lparr>fnv_prime = 1099511628211, fnv_memory = 14695981039346656037\<rparr>"

primrec fnv_hash :: "byte list \<Rightarrow> ('w::len) word fnv \<Rightarrow> 'w word fnv" where
  "fnv_hash [] h = h"
| "fnv_hash (d # ds) h = fnv_hash ds (h\<lparr>fnv_memory := (fnv_memory h XOR ucast d) * fnv_prime h\<rparr>)"

lemma fnv_hash_append: "fnv_hash (xs @ ys) h = fnv_hash ys (fnv_hash xs h)"
  by (induction xs arbitrary: h) auto

section \<open>PersistentHashSet\<close>

type_synonym slot = "byte list"

definition kSize :: nat where "kSize = 20"
definition kVersion :: nat where "kVersion = 1"
definition kInitialSlots :: nat where "kInitialSlots = 512"
definition kFetchIOBatchSize :: nat where "kFetchIOBatchSize = 200"
definition kProbeIOBatchSize :: nat where "kProbeIOBatchSize = 25"

record hs_file =
  hdr_version :: nat
  hdr_nslots :: nat
  hf_slots :: "slot list"

text \<open>\<open>nslots_used_\<close> is \<open>None\<close> for the initial value -1; a file that does not exist is \<open>None\<close>.\<close>

record hash_set =
  hs_nslots :: nat
  hs_used :: "nat option"
  hs_disk :: "hs_file option"

definition zslot :: slot where
  "zslot = replicate kSize 0"

definition IS_SLOT_EMPTY :: "slot \<Rightarrow> bool" where
  "IS_SLOT_EMPTY s \<longleftrightarrow> take 8 s = replicate 8 0 \<and> take (kSize - 8) s = take (kSize - 8) (drop 8 s)"

definition record_hash :: "slot \<Rightarrow> u64" where
  "record_hash s = fnv_memory (fnv_hash s FNV64)"

definition hash_set_open :: "hs_file option \<Rightarrow> hash_set result" where
  "hash_set_open disk =
     (case disk of
        None \<Rightarrow> Inr \<lparr>hs_nslots = 0, hs_used = None, hs_disk = None\<rparr>
      | Some f \<Rightarrow>
          if hdr_version f \<noteq> kVersion then Inl kRuntimeError
          else if length (hf_slots f) \<noteq> hdr_nslots f then Inl kRuntimeError
          else Inr \<lparr>hs_nslots = hdr_nslots f, hs_used = None, hs_disk = Some f\<rparr>)"

definition probe :: "u64 \<Rightarrow> nat \<Rightarrow> nat \<Rightarrow> nat" where
  "probe h nslots i = unat (h + of_nat i) mod nslots"

text \<open>
  \<open>lookup\<close>: the loop over the counter values \<open>is\<close>, with the slots read ahead and their offset. The result is
  \<open>None\<close> when the id was found and the slot for it otherwise.
\<close>

fun lookup_loop :: "slot list \<Rightarrow> nat \<Rightarrow> u64 \<Rightarrow> slot \<Rightarrow> nat list \<Rightarrow> nat \<Rightarrow> slot list \<Rightarrow> nat option result" where
  "lookup_loop sl nslots h record_id [] buf_offset buf = Inl kIllegalStateError"
| "lookup_loop sl nslots h record_id (i # is) buf_offset buf =
     (let idx = probe h nslots i;
          reload = (buf = [] \<or> idx \<ge> buf_offset + length buf \<or> idx < buf_offset);
          data = (if reload then take kProbeIOBatchSize (drop idx sl) else buf);
          buf_offset = (if reload then idx else buf_offset)
      in if data = [] then Inl kRuntimeError
         else if data ! (idx - buf_offset) = record_id then Inr None
         else if IS_SLOT_EMPTY (data ! (idx - buf_offset)) then Inr (Some idx)
         else lookup_loop sl nslots h record_id is buf_offset data)"

definition hs_lookup :: "slot list \<Rightarrow> nat \<Rightarrow> slot \<Rightarrow> nat option result" where
  "hs_lookup sl nslots record_id =
     lookup_loop sl nslots (record_hash record_id) record_id [0..<nslots] 0 []"

text \<open>
  \<open>scan\<close>: the slots its callback is called with. Each batch overwrites the front of the buffer, and the whole
  buffer is visited; \<open>buf\<close> is at first the uninitialised memory it was allocated with.
\<close>

fun scan_loop :: "nat \<Rightarrow> slot list \<Rightarrow> slot list \<Rightarrow> slot list" where
  "scan_loop 0 rest buf = []"
| "scan_loop (Suc b) rest buf =
     (let data = take kFetchIOBatchSize rest;
          buf = data @ drop (length data) buf
      in filter (\<lambda>s. \<not> IS_SLOT_EMPTY s) buf @ scan_loop b (drop kFetchIOBatchSize rest) buf)"

definition hs_scan :: "(nat \<Rightarrow> slot) \<Rightarrow> nat \<Rightarrow> slot list \<Rightarrow> slot list" where
  "hs_scan junk nslots sl =
     scan_loop ((nslots + kFetchIOBatchSize - 1) div kFetchIOBatchSize) sl (map junk [0..<kFetchIOBatchSize])"

fun put_slot :: "nat \<Rightarrow> u64 \<Rightarrow> slot \<Rightarrow> nat list \<Rightarrow> slot list \<Rightarrow> slot list" where
  "put_slot new_nslots h old_slot [] data = data"
| "put_slot new_nslots h old_slot (i # is) data =
     (let idx = probe h new_nslots i
      in if IS_SLOT_EMPTY (data ! idx) then data[idx := old_slot]
         else put_slot new_nslots h old_slot is data)"

definition rehash :: "nat \<Rightarrow> slot list \<Rightarrow> slot list" where
  "rehash new_nslots old =
     fold (\<lambda>s. put_slot new_nslots (record_hash s) s [0..<new_nslots]) old
       (replicate new_nslots zslot)"

definition hs_grow :: "(nat \<Rightarrow> slot) \<Rightarrow> slot list \<Rightarrow> hash_set \<Rightarrow> slot list \<times> hash_set" where
  "hs_grow junk sl s =
     (let new_nslots = (if hs_nslots s = 0 then kInitialSlots else hs_nslots s * 2);
          new_data = rehash new_nslots (if hs_nslots s > 0 then hs_scan junk (hs_nslots s) sl else [])
      in (new_data,
          s\<lparr>hs_nslots := new_nslots,
            hs_disk := Some \<lparr>hdr_version = kVersion, hdr_nslots = new_nslots, hf_slots = new_data\<rparr>\<rparr>))"

text \<open>
  \<open>insert\<close>: the used slots are counted once, the table is grown when it would be more than half full, then
  the id is looked up and written to the empty slot the lookup ended at.
\<close>

definition count_used :: "(nat \<Rightarrow> slot) \<Rightarrow> slot list \<Rightarrow> hash_set \<Rightarrow> nat" where
  "count_used junk sl s =
     (case hs_used s of
        Some u \<Rightarrow> u
      | None \<Rightarrow> if hs_nslots s > 0 then length (hs_scan junk (hs_nslots s) sl) else 0)"

definition hs_reserve :: "(nat \<Rightarrow> slot) \<Rightarrow> slot list \<Rightarrow> hash_set \<Rightarrow> slot list \<times> hash_set" where
  "hs_reserve junk sl s =
     (let used = count_used junk sl s;
          s = s\<lparr>hs_used := Some used\<rparr>
      in if 2 * (used + 1) > hs_nslots s then hs_grow junk sl s else (sl, s))"

definition hs_insert :: "(nat \<Rightarrow> slot) \<Rightarrow> slot \<Rightarrow> slot list \<Rightarrow> hash_set \<Rightarrow> (bool \<times> hash_set) result" where
  "hs_insert junk record_id sl s =
     (let (sl, s) = hs_reserve junk sl s
      in bindE (hs_lookup sl (hs_nslots s) record_id) (\<lambda>r.
           case r of
             None \<Rightarrow> Inr (False, s)
           | Some idx \<Rightarrow>
               Inr (True, s\<lparr>hs_used := map_option Suc (hs_used s),
                 hs_disk := map_option (\<lambda>f. f\<lparr>hf_slots := sl[idx := record_id]\<rparr>) (hs_disk s)\<rparr>)))"

text \<open>\<open>addRecordID\<close> opens or creates the file and calls \<open>insert\<close>.\<close>

definition addRecordID :: "(nat \<Rightarrow> slot) \<Rightarrow> slot \<Rightarrow> hash_set \<Rightarrow> (bool \<times> hash_set) result" where
  "addRecordID junk record_id s =
     hs_insert junk record_id (case hs_disk s of None \<Rightarrow> [] | Some f \<Rightarrow> hf_slots f) s"

text \<open>\<open>addRecordIDs\<close> removes from the given set, in its order, the ids that were present.\<close>

fun addRecordIDs :: "(nat \<Rightarrow> slot) \<Rightarrow> slot list \<Rightarrow> hash_set \<Rightarrow> (slot list \<times> hash_set) result" where
  "addRecordIDs junk [] s = Inr ([], s)"
| "addRecordIDs junk (x # xs) s =
     bindE (addRecordID junk x s) (\<lambda>(added, s).
       bindE (addRecordIDs junk xs s) (\<lambda>(kept, s). Inr (if added then x # kept else kept, s)))"

definition hasRecordID :: "slot \<Rightarrow> hash_set \<Rightarrow> bool result" where
  "hasRecordID record_id s =
     (if hs_nslots s = 0 then Inr False
      else
        (case hs_disk s of
           None \<Rightarrow> Inl kIOError
         | Some f \<Rightarrow> bindE (hs_lookup (hf_slots f) (hs_nslots s) record_id) (\<lambda>r. Inr (r = None))))"

definition fetchRecordIDs :: "(nat \<Rightarrow> slot) \<Rightarrow> hash_set \<Rightarrow> slot set result" where
  "fetchRecordIDs junk s =
     (if hs_nslots s = 0 then Inr {}
      else
        (case hs_disk s of
           None \<Rightarrow> Inl kIOError
         | Some f \<Rightarrow> Inr (set (hs_scan junk (hs_nslots s) (hf_slots f)))))"

section \<open>Linear probing\<close>

lemma IS_SLOT_EMPTY_iff:
  assumes "length s = kSize"
  shows "IS_SLOT_EMPTY s \<longleftrightarrow> s = zslot"
proof
  assume e: "IS_SLOT_EMPTY s"
  then have t8: "take 8 s = replicate 8 0" and t12: "take 12 s = take 12 (drop 8 s)"
    by (simp_all add: IS_SLOT_EMPTY_def kSize_def)
  have "s ! i = 0" if "i < 20" for i
    using that
  proof (induction i rule: less_induct)
    case (less i)
    show ?case
    proof (cases "i < 8")
      case True
      then have "s ! i = take 8 s ! i" by simp
      with t8 True show ?thesis by simp
    next
      case False
      have "take 12 (drop 8 s) ! (i - 8) = s ! i" using False less.prems assms by (simp add: kSize_def)
      moreover have "take 12 s ! (i - 8) = s ! (i - 8)" using less.prems False by simp
      ultimately show ?thesis using less False by (simp add: t12)
    qed
  qed
  with assms show "s = zslot" by (simp add: list_eq_iff_nth_eq kSize_def zslot_def)
qed (simp add: IS_SLOT_EMPTY_def kSize_def zslot_def)

lemma probe_mod:
  assumes "n dvd 2 ^ 64"
  shows "probe h n i = (unat h + i) mod n"
proof -
  have "h + of_nat i = of_nat (unat h + i)" by simp
  then have "unat (h + of_nat i) = (unat h + i) mod 2 ^ 64"
    by (simp only: unsigned_of_nat) (simp add: take_bit_eq_mod)
  then show ?thesis using assms by (simp add: probe_def mod_mod_cancel)
qed

lemma probe_less: "0 < n \<Longrightarrow> probe h n i < n"
  by (simp add: probe_def)

lemma probe_covers:
  assumes "n dvd 2 ^ 64" "j < n"
  shows "\<exists>d<n. probe h n d = j"
proof -
  let ?a = "unat h mod n"
  let ?d = "(j + n - ?a) mod n"
  have "?a < n" using assms(2) by simp
  have "(unat h + ?d) mod n = (?a + (j + n - ?a)) mod n"
    by (simp only: mod_add_right_eq mod_add_left_eq)
  also have "?a + (j + n - ?a) = j + n" using \<open>?a < n\<close> by linarith
  finally have "(unat h + ?d) mod n = j" using assms(2) by simp
  then show ?thesis using assms probe_mod [OF assms(1)] by (intro exI [of _ ?d]) simp
qed

text \<open>The table without the read-ahead: the reference for the batched lookup.\<close>

fun lookup_ref :: "slot list \<Rightarrow> slot \<Rightarrow> nat list \<Rightarrow> nat option result" where
  "lookup_ref sl x [] = Inl kIllegalStateError"
| "lookup_ref sl x (j # js) =
     (if sl ! j = x then Inr None else if IS_SLOT_EMPTY (sl ! j) then Inr (Some j) else lookup_ref sl x js)"

lemma lookup_loop_ref:
  assumes "buf = take k (drop off sl)" "0 < nslots" "length sl = nslots"
  shows "lookup_loop sl nslots h x is off buf = lookup_ref sl x (map (probe h nslots) is)"
  using assms(1)
proof (induction "is" arbitrary: off buf k)
  case (Cons i "is")
  let ?j = "probe h nslots i"
  have j: "?j < length sl" using assms(2,3) probe_less by simp
  show ?case
  proof (cases "buf = [] \<or> ?j \<ge> off + length buf \<or> ?j < off")
    case True
    let ?b = "take kProbeIOBatchSize (drop ?j sl)"
    have "?b ! 0 = sl ! ?j" "?b \<noteq> []" using j by (auto simp: kProbeIOBatchSize_def)
    with True Cons.IH [of ?b kProbeIOBatchSize ?j] show ?thesis by (simp add: Let_def)
  next
    case False
    then have "buf ! (?j - off) = sl ! ?j" using Cons.prems j by auto
    with False Cons.IH [OF Cons.prems] show ?thesis by (auto simp: Let_def)
  qed
qed simp

lemma hs_lookup_ref:
  assumes "0 < nslots" "length sl = nslots"
  shows "hs_lookup sl nslots x = lookup_ref sl x (map (probe (record_hash x) nslots) [0..<nslots])"
  unfolding hs_lookup_def by (rule lookup_loop_ref [of _ 0]) (use assms in auto)

lemma lookup_ref_first:
  assumes "d < length js" "sl ! (js ! d) = x \<or> IS_SLOT_EMPTY (sl ! (js ! d))"
    and "\<And>i. i < d \<Longrightarrow> sl ! (js ! i) \<noteq> x \<and> \<not> IS_SLOT_EMPTY (sl ! (js ! i))"
  shows "lookup_ref sl x js = Inr (if sl ! (js ! d) = x then None else Some (js ! d))"
  using assms
proof (induction js arbitrary: d)
  case (Cons j js)
  show ?case
  proof (cases d)
    case 0
    with Cons.prems(2) show ?thesis by auto
  next
    case (Suc d')
    with Cons.prems(3) [of 0] Cons.IH [of d'] Cons.prems(1,2) Cons.prems(3) [of "Suc _"]
    show ?thesis by auto
  qed
qed simp

definition reachable :: "slot list \<Rightarrow> slot \<Rightarrow> nat \<Rightarrow> bool" where
  "reachable sl x j \<longleftrightarrow> (\<exists>d<length sl. probe (record_hash x) (length sl) d = j \<and>
     (\<forall>i<d. sl ! probe (record_hash x) (length sl) i \<noteq> zslot))"

definition table_ok :: "slot list \<Rightarrow> bool" where
  "table_ok sl \<longleftrightarrow> length sl dvd 2 ^ 64 \<and> (\<forall>s \<in> set sl. length s = kSize) \<and>
     (\<forall>j<length sl. sl ! j \<noteq> zslot \<longrightarrow> reachable sl (sl ! j) j)"

definition members :: "slot list \<Rightarrow> slot set" where
  "members sl = set sl - {zslot}"

definition occupied :: "slot list \<Rightarrow> nat" where
  "occupied sl = length (filter (\<lambda>s. s \<noteq> zslot) sl)"

lemma table_empty:
  assumes "table_ok sl" "s \<in> set sl"
  shows "IS_SLOT_EMPTY s \<longleftrightarrow> s = zslot"
  using assms IS_SLOT_EMPTY_iff by (simp add: table_ok_def)

lemma occupied_less:
  assumes "occupied sl < length sl"
  obtains j where "j < length sl" "sl ! j = zslot"
proof -
  have "zslot \<in> set sl"
  proof (rule ccontr)
    assume "zslot \<notin> set sl"
    then have "filter (\<lambda>s. s \<noteq> zslot) sl = sl" by (intro filter_True) metis
    with assms show False by (simp add: occupied_def)
  qed
  with that show ?thesis by (auto simp: in_set_conv_nth)
qed

lemma first_stop:
  assumes "table_ok sl" "occupied sl < length sl"
  obtains d where "d < length sl"
    "sl ! probe (record_hash x) (length sl) d = y \<or> sl ! probe (record_hash x) (length sl) d = zslot"
    "reachable sl x (probe (record_hash x) (length sl) d)"
    "\<And>i. i < d \<Longrightarrow> sl ! probe (record_hash x) (length sl) i \<noteq> y \<and>
      sl ! probe (record_hash x) (length sl) i \<noteq> zslot"
proof -
  let ?n = "length sl" and ?p = "probe (record_hash x) (length sl)"
  let ?P = "\<lambda>d. d < ?n \<and> (sl ! ?p d = y \<or> sl ! ?p d = zslot)"
  obtain j where j: "j < ?n" "sl ! j = zslot" using occupied_less [OF assms(2)] .
  obtain d0 where "d0 < ?n" "?p d0 = j"
    using probe_covers [OF _ j(1), of "record_hash x"] assms(1) by (auto simp: table_ok_def)
  then have "?P d0" using j by simp
  then obtain d where d: "d < ?n" "sl ! ?p d = y \<or> sl ! ?p d = zslot" and m: "\<forall>i<d. \<not> ?P i"
    using exists_least_iff [of ?P] by blast
  have m': "sl ! ?p i \<noteq> y \<and> sl ! ?p i \<noteq> zslot" if "i < d" for i
  proof -
    have "i < ?n" using that d(1) by (rule less_trans)
    with m that show ?thesis by blast
  qed
  then have "reachable sl x (?p d)" using d(1) unfolding reachable_def by blast
  with d m' show ?thesis by (intro that [of d])
qed

lemma hs_lookup_correct:
  assumes ok: "table_ok sl" and occ: "occupied sl < length sl" and x: "x \<noteq> zslot"
  shows "if x \<in> members sl then hs_lookup sl (length sl) x = Inr None
    else \<exists>j<length sl. hs_lookup sl (length sl) x = Inr (Some j) \<and> sl ! j = zslot \<and> reachable sl x j"
proof -
  let ?n = "length sl" and ?p = "probe (record_hash x) (length sl)"
  have n: "0 < ?n" using occ by (rule le_less_trans [OF le0])
  obtain d where d: "d < ?n" "sl ! ?p d = x \<or> sl ! ?p d = zslot"
    "reachable sl x (?p d)"
    "\<And>i. i < d \<Longrightarrow> sl ! ?p i \<noteq> x \<and> sl ! ?p i \<noteq> zslot"
    using first_stop [OF ok occ, of x x] by blast
  have p: "sl ! ?p i \<in> set sl" for i using n probe_less by simp
  have "lookup_ref sl x (map ?p [0..<?n]) = Inr (if sl ! ?p d = x then None else Some (?p d))"
    using lookup_ref_first [of d "map ?p [0..<?n]" sl x] d table_empty [OF ok p] by simp
  then have r: "hs_lookup sl ?n x = Inr (if sl ! ?p d = x then None else Some (?p d))"
    by (simp only: hs_lookup_ref [OF n refl])
  have "sl ! ?p d = x" if mem: "x \<in> set sl"
  proof -
    obtain j where j: "j < ?n" "sl ! j = x" using mem by (metis in_set_conv_nth)
    then obtain e where e: "e < ?n" "?p e = j" "\<forall>i<e. sl ! ?p i \<noteq> zslot"
      using ok x by (auto simp: table_ok_def reachable_def)
    then have "\<not> e < d" using d(4) j by auto
    then show ?thesis using d(2) e j by (metis not_less_iff_gr_or_eq)
  qed
  moreover have "x \<in> set sl" if "sl ! ?p d = x" using that p [of d] by simp
  ultimately show ?thesis
    using r x d(2,3) n probe_less [of ?n] by (auto simp: members_def)
qed

lemma table_ok_update:
  assumes ok: "table_ok sl" and j: "j < length sl" "sl ! j = zslot" "reachable sl x j"
    and x: "x \<noteq> zslot" "length x = kSize"
  shows "table_ok (sl[j := x])" "members (sl[j := x]) = insert x (members sl)"
    "occupied (sl[j := x]) = occupied sl + 1"
proof -
  have mono: "reachable (sl[j := x]) y k" if "reachable sl y k" for y k
    using that j x unfolding reachable_def by (auto simp: nth_list_update)
  show "table_ok (sl[j := x])"
    using ok j x mono unfolding table_ok_def
    by (auto simp: nth_list_update dest!: set_update_subset_insert [THEN subsetD])
  have sp: "sl = take j sl @ zslot # drop (Suc j) sl" using id_take_nth_drop [OF j(1)] j(2) by simp
  have up: "sl[j := x] = take j sl @ x # drop (Suc j) sl" using j(1) by (rule upd_conv_take_nth_drop)
  have "occupied sl = occupied (take j sl) + occupied (drop (Suc j) sl)"
    by (subst sp) (simp add: occupied_def)
  then show "occupied (sl[j := x]) = occupied sl + 1" using x(1) by (simp add: up) (simp add: occupied_def)
  have "set sl = set (take j sl) \<union> set (drop (Suc j) sl) \<union> {zslot}" by (subst sp) auto
  then show "members (sl[j := x]) = insert x (members sl)" using x(1) by (auto simp: up members_def)
qed

section \<open>Scanning and growing\<close>

abbreviation used_slots :: "slot list \<Rightarrow> slot list" where
  "used_slots sl \<equiv> filter (\<lambda>s. \<not> IS_SLOT_EMPTY s) sl"

lemma used_slots_ok:
  assumes "table_ok sl"
  shows "set (used_slots sl) = members sl" "length (used_slots sl) = occupied sl"
proof -
  have "used_slots sl = filter (\<lambda>s. s \<noteq> zslot) sl"
    by (rule filter_cong) (simp_all add: table_empty [OF assms])
  then show "set (used_slots sl) = members sl" "length (used_slots sl) = occupied sl"
    by (auto simp: members_def occupied_def)
qed

lemma used_slots_split:
  "used_slots sl = used_slots (take k sl) @ used_slots (drop k sl)"
  by (metis append_take_drop_id filter_append)

lemma scan_loop_set:
  assumes "length rest \<le> kFetchIOBatchSize * b"
  shows "set (used_slots rest) \<subseteq> set (scan_loop b rest buf) \<and>
    set (scan_loop b rest buf) \<subseteq> set (used_slots rest) \<union> set (used_slots buf)"
  using assms
proof (induction b arbitrary: rest buf)
  case (Suc b)
  let ?k = kFetchIOBatchSize
  let ?d = "take ?k rest"
  let ?buf = "?d @ drop (length ?d) buf"
  have IH: "set (used_slots (drop ?k rest)) \<subseteq> set (scan_loop b (drop ?k rest) ?buf)"
    "set (scan_loop b (drop ?k rest) ?buf) \<subseteq> set (used_slots (drop ?k rest)) \<union> set (used_slots ?buf)"
    using Suc.IH [of "drop ?k rest" ?buf] Suc.prems by auto
  have "set (used_slots (drop (length ?d) buf)) \<subseteq> set (used_slots buf)"
    using set_drop_subset [of "length ?d" buf] by auto
  then have "set (used_slots ?buf) \<subseteq> set (used_slots ?d) \<union> set (used_slots buf)" by auto
  moreover have "set (used_slots rest) = set (used_slots ?d) \<union> set (used_slots (drop ?k rest))"
    by (subst used_slots_split [of rest ?k]) simp
  ultimately show ?case using IH by (simp add: Let_def) blast
qed simp

lemma scan_loop_length_ge:
  assumes "length rest \<le> kFetchIOBatchSize * b"
  shows "length (used_slots rest) \<le> length (scan_loop b rest buf)"
  using assms
proof (induction b arbitrary: rest buf)
  case (Suc b)
  let ?k = kFetchIOBatchSize
  let ?buf = "take ?k rest @ drop (length (take ?k rest)) buf"
  have "length (used_slots (drop ?k rest)) \<le> length (scan_loop b (drop ?k rest) ?buf)"
    using Suc.IH [of "drop ?k rest" ?buf] Suc.prems by simp
  then show ?case
    by (subst used_slots_split [of rest ?k]) (simp add: Let_def)
qed simp

lemma scan_loop_length_le:
  assumes "length buf = kFetchIOBatchSize" "kFetchIOBatchSize * b < length rest + kFetchIOBatchSize"
  shows "length (scan_loop b rest buf) \<le> length (used_slots rest) + kFetchIOBatchSize"
  using assms
proof (induction b arbitrary: rest buf)
  case (Suc b)
  let ?k = kFetchIOBatchSize
  let ?buf = "take ?k rest @ drop (length (take ?k rest)) buf"
  show ?case
  proof (cases "length rest < ?k")
    case True
    then have "b = 0" using Suc.prems(2) by (cases b) auto
    moreover have "length (used_slots ?buf) \<le> ?k"
      using True Suc.prems(1) by (intro le_trans [OF length_filter_le]) simp
    ultimately show ?thesis by (simp add: Let_def)
  next
    case False
    then have "length (scan_loop b (drop ?k rest) ?buf) \<le> length (used_slots (drop ?k rest)) + ?k"
      using Suc by simp
    moreover have "drop (length (take ?k rest)) buf = []" using False Suc.prems(1) by simp
    ultimately show ?thesis by (subst used_slots_split [of rest ?k]) (simp add: Let_def)
  qed
qed simp

lemma hs_scan_ok:
  assumes ok: "table_ok sl" and n: "length sl = n" "kFetchIOBatchSize \<le> n"
  shows "set (hs_scan junk n sl) = members sl" "occupied sl \<le> length (hs_scan junk n sl)"
    "length (hs_scan junk n sl) \<le> occupied sl + kFetchIOBatchSize"
proof -
  let ?k = kFetchIOBatchSize
  let ?nb = "(n + ?k - 1) div ?k"
  have k: "0 < ?k" by (simp add: kFetchIOBatchSize_def)
  have "?nb * ?k + (n + ?k - 1) mod ?k = n + ?k - 1" by (rule div_mult_mod_eq)
  moreover have "(n + ?k - 1) mod ?k < ?k" using k by simp
  ultimately have "n \<le> ?nb * ?k" "?nb * ?k < n + ?k" using k by linarith+
  then have nb: "n \<le> ?k * ?nb" "?k * ?nb < n + ?k" by (simp_all only: mult.commute)
  obtain b where b: "?nb = Suc b" using nb(1) n(2) k by (cases ?nb) auto
  let ?d = "take ?k sl"
  let ?junk = "map junk [0..<?k]"
  have full: "?d @ drop (length ?d) ?junk = ?d" using n by simp
  have "set (hs_scan junk n sl) = set (used_slots ?d) \<union> set (scan_loop b (drop ?k sl) ?d)"
    unfolding hs_scan_def b using full by (simp add: Let_def)
  moreover have "set (used_slots sl) = set (used_slots ?d) \<union> set (used_slots (drop ?k sl))"
    by (subst used_slots_split [of sl ?k]) simp
  moreover have "length (drop ?k sl) \<le> ?k * b" using nb(1) n unfolding b by simp
  ultimately have "set (hs_scan junk n sl) = set (used_slots sl)"
    using scan_loop_set [of "drop ?k sl" b ?d] by blast
  then show "set (hs_scan junk n sl) = members sl" by (simp only: used_slots_ok [OF ok])
  show "occupied sl \<le> length (hs_scan junk n sl)"
    using scan_loop_length_ge [of sl ?nb ?junk] nb n by (simp add: hs_scan_def used_slots_ok [OF ok])
  show "length (hs_scan junk n sl) \<le> occupied sl + ?k"
    using scan_loop_length_le [of ?junk ?nb sl] nb n by (simp add: hs_scan_def used_slots_ok [OF ok])
qed

lemma put_slot_first:
  assumes "d < length is" "IS_SLOT_EMPTY (data ! probe h n (is ! d))"
    and "\<And>i. i < d \<Longrightarrow> \<not> IS_SLOT_EMPTY (data ! probe h n (is ! i))"
  shows "put_slot n h x is data = data[probe h n (is ! d) := x]"
  using assms
proof (induction "is" arbitrary: d)
  case (Cons i "is")
  show ?case
  proof (cases d)
    case 0
    with Cons.prems(2) show ?thesis by (simp add: Let_def)
  next
    case (Suc d')
    with Cons.prems(3) [of 0] Cons.IH [of d'] Cons.prems(1,2) Cons.prems(3) [of "Suc _"]
    show ?thesis by (auto simp: Let_def)
  qed
qed simp

lemma put_slot_ok:
  assumes ok: "table_ok sl" and occ: "occupied sl < length sl" and x: "x \<noteq> zslot" "length x = kSize"
  defines "sl' \<equiv> put_slot (length sl) (record_hash x) x [0..<length sl] sl"
  shows "table_ok sl'" "members sl' = insert x (members sl)" "occupied sl' = occupied sl + 1"
    "length sl' = length sl"
proof -
  let ?n = "length sl" and ?p = "probe (record_hash x) (length sl)"
  have n: "0 < ?n" using occ by (rule le_less_trans [OF le0])
  obtain d where d: "d < ?n" "sl ! ?p d = zslot" "reachable sl x (?p d)"
    "\<And>i. i < d \<Longrightarrow> sl ! ?p i \<noteq> zslot"
    using first_stop [OF ok occ, of x zslot] by metis
  have e: "IS_SLOT_EMPTY zslot" by (simp add: IS_SLOT_EMPTY_iff zslot_def)
  have p: "sl ! ?p i \<in> set sl" for i using n probe_less by simp
  have "sl' = sl[?p d := x]"
    unfolding sl'_def using put_slot_first [of d "[0..<?n]" sl "record_hash x" ?n x] d
    by (simp add: table_empty [OF ok p] e)
  with table_ok_update [OF ok _ d(2,3) x] n probe_less
  show "table_ok sl'" "members sl' = insert x (members sl)" "occupied sl' = occupied sl + 1"
    "length sl' = length sl" by simp_all
qed

lemma fold_put_slot_ok:
  assumes "table_ok sl" "occupied sl + length xs \<le> length sl" "\<forall>x \<in> set xs. x \<noteq> zslot \<and> length x = kSize"
  defines "step \<equiv> \<lambda>n s. put_slot n (record_hash s) s [0..<n]"
  shows "table_ok (fold (step (length sl)) xs sl) \<and>
    members (fold (step (length sl)) xs sl) = set xs \<union> members sl \<and>
    occupied (fold (step (length sl)) xs sl) = occupied sl + length xs \<and>
    length (fold (step (length sl)) xs sl) = length sl"
  using assms(1-3)
proof (induction xs arbitrary: sl)
  case (Cons x xs)
  let ?sl = "step (length sl) x sl"
  have sl: "table_ok ?sl" "members ?sl = insert x (members sl)" "occupied ?sl = occupied sl + 1"
    "length ?sl = length sl"
    using put_slot_ok [of sl x] Cons.prems by (auto simp: step_def)
  with Cons.IH [of ?sl] Cons.prems(2,3) show ?case by simp
qed simp

lemma rehash_ok:
  assumes "n dvd 2 ^ 64" "length xs \<le> n" "\<forall>x \<in> set xs. x \<noteq> zslot \<and> length x = kSize"
  shows "table_ok (rehash n xs)" "members (rehash n xs) = set xs" "occupied (rehash n xs) = length xs"
    "length (rehash n xs) = n"
proof -
  let ?sl = "replicate n zslot"
  have "table_ok ?sl" "occupied ?sl = 0" "members ?sl = {}"
    using assms(1) by (auto simp: table_ok_def occupied_def members_def zslot_def)
  with fold_put_slot_ok [of ?sl xs] assms(2,3)
  show "table_ok (rehash n xs)" "members (rehash n xs) = set xs" "occupied (rehash n xs) = length xs"
    "length (rehash n xs) = n" by (simp_all add: rehash_def)
qed

section \<open>The set on disk as a set\<close>

text \<open>
  What a set of record ids promises: \<open>add\<close> says whether the element is new and adds it, \<open>has\<close> tests
  membership, \<open>fetch\<close> lists it. The laws hold up to a size limit that each \<open>add\<close> approaches by a step.
\<close>

locale id_set =
  fixes inv :: "'s \<Rightarrow> bool" and elems :: "'s \<Rightarrow> 'a set" and valid :: "'a \<Rightarrow> bool"
    and weight :: "'s \<Rightarrow> nat" and limit :: nat and inc :: nat
    and add :: "'a \<Rightarrow> 's \<Rightarrow> (bool \<times> 's) result" and has :: "'a \<Rightarrow> 's \<Rightarrow> bool result"
    and fetch :: "'s \<Rightarrow> 'a set result"
  assumes add_ok: "inv s \<Longrightarrow> weight s \<le> limit \<Longrightarrow> valid x \<Longrightarrow>
      \<exists>s'. add x s = Inr (x \<notin> elems s, s') \<and> inv s' \<and> elems s' = insert x (elems s) \<and>
        weight s' \<le> weight s + inc"
    and has_ok: "inv s \<Longrightarrow> valid x \<Longrightarrow> has x s = Inr (x \<in> elems s)"
    and fetch_ok: "inv s \<Longrightarrow> fetch s = Inr (elems s)"
begin

fun add_all :: "'a list \<Rightarrow> 's \<Rightarrow> ('a list \<times> 's) result" where
  "add_all [] s = Inr ([], s)"
| "add_all (x # xs) s =
     bindE (add x s) (\<lambda>(added, s).
       bindE (add_all xs s) (\<lambda>(kept, s). Inr (if added then x # kept else kept, s)))"

lemma add_all_ok:
  assumes "inv s" "weight s + inc * length xs \<le> limit" "\<forall>x \<in> set xs. valid x" "distinct xs"
  shows "\<exists>s'. add_all xs s = Inr (filter (\<lambda>x. x \<notin> elems s) xs, s') \<and> inv s' \<and>
    elems s' = set xs \<union> elems s \<and> weight s' \<le> weight s + inc * length xs"
  using assms
proof (induction xs arbitrary: s)
  case (Cons x xs)
  obtain s1 where s1: "add x s = Inr (x \<notin> elems s, s1)" "inv s1" "elems s1 = insert x (elems s)"
    "weight s1 \<le> weight s + inc"
    using add_ok [of s x] Cons.prems by auto
  obtain s2 where s2: "add_all xs s1 = Inr (filter (\<lambda>y. y \<notin> elems s1) xs, s2)" "inv s2"
    "elems s2 = set xs \<union> elems s1" "weight s2 \<le> weight s1 + inc * length xs"
    using Cons.IH [of s1] s1(2,4) Cons.prems by auto
  have "filter (\<lambda>y. y \<notin> elems s1) xs = filter (\<lambda>y. y \<notin> elems s) xs"
    using Cons.prems(4) by (intro filter_cong) (auto simp: s1(3))
  with s1 s2 show ?case by auto
qed simp

lemma has_after_add_all:
  assumes "inv s" "weight s + inc * length xs \<le> limit" "\<forall>x \<in> set xs. valid x" "distinct xs"
    and "add_all xs s = Inr (kept, s')" "valid y"
  shows "has y s' = Inr (y \<in> set xs \<or> y \<in> elems s)" "fetch s' = Inr (set xs \<union> elems s)"
  using add_all_ok [OF assms(1-4)] assms(5,6) has_ok fetch_ok by auto

end

definition hs_slots :: "hash_set \<Rightarrow> slot list" where
  "hs_slots s = (case hs_disk s of None \<Rightarrow> [] | Some f \<Rightarrow> hf_slots f)"

definition hs_elems :: "hash_set \<Rightarrow> slot set" where
  "hs_elems s = members (hs_slots s)"

text \<open>
  The number of slots is \<open>512 * 2 ^ k\<close> after \<open>k\<close> rounds of growing. The last batch of a scan visits slots of
  the batch before it again, so every round may store up to 200 slots a second time.
\<close>

definition table_inv :: "nat \<Rightarrow> nat option \<Rightarrow> slot list \<Rightarrow> bool" where
  "table_inv k used sl \<longleftrightarrow> k \<le> 55 \<and> length sl = 512 * 2 ^ k \<and> table_ok sl \<and>
     (case used of
        None \<Rightarrow> occupied sl \<le> 256 * 2 ^ k + 200 * k
      | Some u \<Rightarrow> occupied sl \<le> u + 200 * k \<and> u \<le> 256 * 2 ^ k)"

definition hs_inv :: "hash_set \<Rightarrow> bool" where
  "hs_inv s \<longleftrightarrow>
     (case hs_disk s of
        None \<Rightarrow> hs_nslots s = 0 \<and> hs_used s \<in> {None, Some 0}
      | Some f \<Rightarrow> hdr_version f = kVersion \<and> hdr_nslots f = hs_nslots s \<and>
          length (hf_slots f) = hs_nslots s \<and> (\<exists>k. table_inv k (hs_used s) (hf_slots f)))"

definition hs_weight :: "hash_set \<Rightarrow> nat" where
  "hs_weight s = max 512 (max (hs_nslots s)
     (4 * ((case hs_used s of None \<Rightarrow> hs_nslots s + 200 | Some u \<Rightarrow> u) + 1)))"

lemma spare_slots: "200 * k + 201 \<le> 256 * 2 ^ k" for k :: nat
proof (induction k)
  case (Suc k)
  then show ?case using one_le_power [of "2 :: nat" k] by simp
qed simp

lemma slots_dvd: "k \<le> 55 \<Longrightarrow> (512 * 2 ^ k :: nat) dvd 2 ^ 64"
  using le_imp_power_dvd [of "9 + k" 64 "2 :: nat"] by (simp add: power_add)

lemma table_inv_room:
  assumes "table_inv k used sl"
  shows "occupied sl < length sl" "occupied sl \<le> 256 * 2 ^ k + 200 * k"
  using assms spare_slots [of k] by (auto simp: table_inv_def split: option.splits)

lemma table_inv_insert:
  assumes inv: "table_inv k (Some u) sl" and u: "u + 1 \<le> 256 * 2 ^ k"
    and j: "j < length sl" "sl ! j = zslot" "reachable sl x j" and x: "x \<noteq> zslot" "length x = kSize"
  shows "table_inv k (Some (u + 1)) (sl[j := x])" "members (sl[j := x]) = insert x (members sl)"
  using table_ok_update [OF _ j x] inv u by (auto simp: table_inv_def)

lemma table_inv_count:
  assumes inv: "table_inv k used sl" and sln: "length sl = n"
    and u_def: "u = (case used of Some v \<Rightarrow> v | None \<Rightarrow> length (hs_scan junk n sl))"
  shows "set (hs_scan junk n sl) = members sl" "length (hs_scan junk n sl) \<le> occupied sl + 200"
    "occupied sl \<le> u + 200 * k" "u + 1 \<le> 256 * 2 ^ (k + 1)"
    "u \<le> (case used of Some v \<Rightarrow> v | None \<Rightarrow> n + 200)"
    "length (hs_scan junk n sl) \<le> u + 200 * (k + 1)"
proof -
  have ok: "table_ok sl" "kFetchIOBatchSize \<le> n"
    using inv sln le_trans [OF _ mult_le_mono2 [OF one_le_power, of 2 512 k], of 200]
    by (auto simp: table_inv_def kFetchIOBatchSize_def)
  note sc = hs_scan_ok [OF ok(1) sln ok(2), where junk = junk, unfolded kFetchIOBatchSize_def]
  show "set (hs_scan junk n sl) = members sl" "length (hs_scan junk n sl) \<le> occupied sl + 200"
    using sc by blast+
  show occ: "occupied sl \<le> u + 200 * k" using inv sc(2) by (cases used) (auto simp: u_def table_inv_def intro: trans_le_add1)
  show "u + 1 \<le> 256 * 2 ^ (k + 1)"
    using inv sc(3) spare_slots [of k] one_le_power [of "2 :: nat" k]
    by (cases used) (auto simp: u_def table_inv_def)
  show "u \<le> (case used of Some v \<Rightarrow> v | None \<Rightarrow> n + 200)"
    using sc(3) table_inv_room(1) [OF inv] sln by (cases used) (auto simp: u_def)
  show "length (hs_scan junk n sl) \<le> u + 200 * (k + 1)"
    using occ sc(3) by simp
qed

lemma grow_table:
  assumes inv: "table_inv k used sl" and sln: "length sl = n" and k: "k < 55"
    and u_def: "u = (case used of Some v \<Rightarrow> v | None \<Rightarrow> length (hs_scan junk n sl))"
    and new_def: "new = rehash (n * 2) (hs_scan junk n sl)"
  shows "table_inv (k + 1) (Some u) new" "members new = members sl" "length new = n * 2"
proof -
  note c = table_inv_count [OF inv sln u_def]
  have n: "n * 2 = 512 * 2 ^ (k + 1)" using inv sln by (simp add: table_inv_def)
  have "length (hs_scan junk n sl) \<le> n * 2"
    using c(2) table_inv_room(2) [OF inv] spare_slots [of k] n by simp
  moreover have "\<forall>x \<in> set (hs_scan junk n sl). x \<noteq> zslot \<and> length x = kSize"
    using inv c(1) by (auto simp: table_inv_def table_ok_def members_def)
  ultimately have new: "table_ok new" "members new = set (hs_scan junk n sl)"
    "occupied new = length (hs_scan junk n sl)" "length new = n * 2"
    using rehash_ok [of "n * 2"] slots_dvd [of "k + 1"] k n by (simp_all add: new_def)
  then show "members new = members sl" "length new = n * 2" using c(1) by simp_all
  show "table_inv (k + 1) (Some u) new"
    using new c(4,6) k n by (simp add: table_inv_def)
qed

lemma grow_limit:
  assumes "2 * (u + 1) > 512 * 2 ^ k" "4 * (u + 1) \<le> (2 ^ 62 :: nat)"
  shows "k < 55"
proof -
  have "(2 :: nat) ^ (10 + k) = 1024 * 2 ^ k" by (simp add: power_add)
  also have "\<dots> < 2 ^ 62" using assms by linarith
  finally have "10 + k < 62" by (rule power_less_imp_less_exp [rotated]) simp
  then show ?thesis by simp
qed

lemma hs_insert_prepared:
  assumes inv: "table_inv k (Some u) sl" and u: "u + 1 \<le> 256 * 2 ^ k"
    and x: "x \<noteq> zslot" "length x = kSize"
  shows "\<exists>r. hs_lookup sl (length sl) x = Inr r \<and>
    (case r of None \<Rightarrow> x \<in> members sl
     | Some j \<Rightarrow> x \<notin> members sl \<and> table_inv k (Some (u + 1)) (sl[j := x]) \<and>
         members (sl[j := x]) = insert x (members sl))"
proof -
  have ok: "table_ok sl" using inv by (simp add: table_inv_def)
  show ?thesis
    using hs_lookup_correct [OF ok table_inv_room(1) [OF inv] x(1)] table_inv_insert [OF inv u _ _ _ x]
    by (cases "x \<in> members sl") auto
qed

abbreviation counted :: "slot list \<Rightarrow> nat \<Rightarrow> hash_set" where
  "counted sl u \<equiv> \<lparr>hs_nslots = length sl, hs_used = Some u,
     hs_disk = Some \<lparr>hdr_version = kVersion, hdr_nslots = length sl, hf_slots = sl\<rparr>\<rparr>"

lemma counted_ok:
  assumes "table_inv k (Some u) sl"
  shows "hs_inv (counted sl u)" "hs_elems (counted sl u) = members sl"
    "hs_weight (counted sl u) = max 512 (max (length sl) (4 * (u + 1)))"
  using assms by (auto simp: hs_inv_def hs_elems_def hs_slots_def hs_weight_def)

lemma hs_weight_ge: "512 \<le> hs_weight s"
  by (simp add: hs_weight_def)

lemma hs_reserve_ok:
  assumes inv: "hs_inv s" and w: "hs_weight s \<le> 2 ^ 62"
  shows "\<exists>k u sl. hs_reserve junk (hs_slots s) s = (sl, counted sl u) \<and>
    table_inv k (Some u) sl \<and> u + 1 \<le> 256 * 2 ^ k \<and> members sl = hs_elems s \<and>
    length sl \<le> hs_weight s \<and> 4 * (u + 1) \<le> hs_weight s"
proof (cases "hs_disk s")
  case None
  let ?sl = "rehash 512 []"
  have s: "hs_nslots s = 0" "count_used junk [] s = 0" "hs_slots s = []" "hs_elems s = {}"
    using inv None by (auto simp: hs_inv_def count_used_def hs_slots_def hs_elems_def members_def)
  have t: "table_inv 0 (Some 0) ?sl" "members ?sl = {}" "length ?sl = 512"
    using rehash_ok [of 512 "[]"] slots_dvd [of 0] by (simp_all add: table_inv_def)
  have "hs_reserve junk (hs_slots s) s = (?sl, \<lparr>hs_nslots = 512, hs_used = Some 0,
      hs_disk = Some \<lparr>hdr_version = kVersion, hdr_nslots = 512, hf_slots = ?sl\<rparr>\<rparr>)"
    using s by (simp add: hs_reserve_def hs_grow_def Let_def kInitialSlots_def)
  with t s(4) show ?thesis by (intro exI [of _ 0] exI [of _ ?sl]) (simp add: hs_weight_def)
next
  case (Some f)
  let ?sl = "hf_slots f" and ?n = "hs_nslots s" and ?u = "count_used junk (hf_slots f) s"
  obtain k where f: "hdr_version f = kVersion" "hdr_nslots f = ?n" "length ?sl = ?n" "table_inv k (hs_used s) ?sl"
    using inv Some by (auto simp: hs_inv_def)
  have n: "?n = 512 * 2 ^ k" using f by (simp add: table_inv_def)
  have u: "?u = (case hs_used s of Some v \<Rightarrow> v | None \<Rightarrow> length (hs_scan junk ?n ?sl))"
    using n by (simp add: count_used_def split: option.split)
  note c = table_inv_count [OF f(4) f(3) u]
  have s: "hs_slots s = ?sl" "hs_elems s = members ?sl" by (simp_all add: hs_slots_def hs_elems_def Some)
  have lim: "4 * (?u + 1) \<le> hs_weight s" using c(5) by (simp add: hs_weight_def split: option.splits)
  show ?thesis
  proof (cases "2 * (?u + 1) > ?n")
    case True
    let ?new = "rehash (?n * 2) (hs_scan junk ?n ?sl)"
    have k: "k < 55" using grow_limit [of k ?u] True lim w n by linarith
    note g = grow_table [OF f(4) f(3) k u refl]
    have "hs_reserve junk (hs_slots s) s = (?new, \<lparr>hs_nslots = ?n * 2, hs_used = Some ?u,
      hs_disk = Some \<lparr>hdr_version = kVersion, hdr_nslots = ?n * 2, hf_slots = ?new\<rparr>\<rparr>)"
      using True n s by (simp add: hs_reserve_def hs_grow_def Let_def)
    moreover have "?n * 2 \<le> hs_weight s" using True lim by linarith
    ultimately show ?thesis using g c(4) lim s(2) by (intro exI [of _ "k + 1"] exI [of _ ?u] exI [of _ ?new]) simp
  next
    case False
    have "f = \<lparr>hdr_version = kVersion, hdr_nslots = ?n, hf_slots = ?sl\<rparr>" using f(1,2) by simp
    then have "hs_reserve junk (hs_slots s) s = (?sl, \<lparr>hs_nslots = ?n, hs_used = Some ?u,
      hs_disk = Some \<lparr>hdr_version = kVersion, hdr_nslots = ?n, hf_slots = ?sl\<rparr>\<rparr>)"
      using False s Some by (simp add: hs_reserve_def Let_def)
    moreover have "table_inv k (Some ?u) ?sl" "?u + 1 \<le> 256 * 2 ^ k"
      using f(4) c(3) False n by (auto simp: table_inv_def)
    moreover have "?n \<le> hs_weight s" by (simp add: hs_weight_def)
    ultimately show ?thesis using lim s(2) f(3) by (intro exI [of _ k] exI [of _ ?u] exI [of _ ?sl]) simp
  qed
qed

lemma addRecordID_ok:
  assumes "hs_inv s" "hs_weight s \<le> 2 ^ 62"
    and x: "x \<noteq> zslot \<and> length x = kSize"
  shows "\<exists>s'. addRecordID junk x s = Inr (x \<notin> hs_elems s, s') \<and> hs_inv s' \<and>
    hs_elems s' = insert x (hs_elems s) \<and> hs_weight s' \<le> hs_weight s + 4"
proof -
  obtain k u sl where r: "hs_reserve junk (hs_slots s) s = (sl, counted sl u)"
    and t: "table_inv k (Some u) sl" "u + 1 \<le> 256 * 2 ^ k" "members sl = hs_elems s"
    and w: "length sl \<le> hs_weight s" "4 * (u + 1) \<le> hs_weight s"
    using hs_reserve_ok [OF assms(1,2)] by blast
  have a: "addRecordID junk x s = hs_insert junk x (hs_slots s) s"
    by (simp add: addRecordID_def hs_slots_def)
  obtain res where l: "hs_lookup sl (length sl) x = Inr res"
    "case res of None \<Rightarrow> x \<in> members sl
     | Some j \<Rightarrow> x \<notin> members sl \<and> table_inv k (Some (u + 1)) (sl[j := x]) \<and>
         members (sl[j := x]) = insert x (members sl)"
    using hs_insert_prepared [OF t(1,2)] x by blast
  show ?thesis
  proof (cases res)
    case None
    then have "x \<in> members sl" "addRecordID junk x s = Inr (False, counted sl u)"
      using l by (simp_all add: a hs_insert_def r)
    with counted_ok [OF t(1)] t(3) w hs_weight_ge [of s] show ?thesis by (auto simp: insert_absorb)
  next
    case (Some j)
    let ?sl = "sl[j := x]"
    have t': "x \<notin> members sl" "table_inv k (Some (u + 1)) ?sl" "members ?sl = insert x (members sl)"
      using l(2) Some by simp_all
    have "addRecordID junk x s = Inr (True, counted ?sl (u + 1))"
      using l(1) Some by (simp add: a hs_insert_def r)
    with counted_ok [OF t'(2)] t' t(3) w hs_weight_ge [of s] show ?thesis by auto
  qed
qed

lemma hash_set_reads_ok:
  assumes "hs_inv s"
  shows "x \<noteq> zslot \<Longrightarrow> hasRecordID x s = Inr (x \<in> hs_elems s)"
    "fetchRecordIDs junk s = Inr (hs_elems s)"
proof -
  have d: "hs_nslots s = 0 \<and> hs_elems s = {} \<or>
    (\<exists>f k. hs_disk s = Some f \<and> hs_elems s = members (hf_slots f) \<and> length (hf_slots f) = hs_nslots s \<and>
      0 < hs_nslots s \<and> table_inv k (hs_used s) (hf_slots f))"
    using assms by (cases "hs_disk s") (auto simp: hs_inv_def hs_elems_def hs_slots_def members_def table_inv_def)
  show "hasRecordID x s = Inr (x \<in> hs_elems s)" if x: "x \<noteq> zslot"
    using d
  proof (elim disjE exE conjE)
    fix f k assume f: "hs_disk s = Some f" "hs_elems s = members (hf_slots f)"
      "length (hf_slots f) = hs_nslots s" "0 < hs_nslots s" "table_inv k (hs_used s) (hf_slots f)"
    then have "table_ok (hf_slots f)" by (simp add: table_inv_def)
    from hs_lookup_correct [OF this table_inv_room(1) [OF f(5)] x] f show ?thesis
      by (cases "x \<in> hs_elems s") (auto simp: hasRecordID_def)
  qed (simp add: hasRecordID_def)
  show "fetchRecordIDs junk s = Inr (hs_elems s)"
    using d
  proof (elim disjE exE conjE)
    fix f k assume f: "hs_disk s = Some f" "hs_elems s = members (hf_slots f)"
      "length (hf_slots f) = hs_nslots s" "0 < hs_nslots s" "table_inv k (hs_used s) (hf_slots f)"
    from table_inv_count(1) [OF f(5) f(3) refl] f show ?thesis by (simp add: fetchRecordIDs_def)
  qed (simp add: fetchRecordIDs_def)
qed

definition valid_id :: "slot \<Rightarrow> bool" where
  "valid_id x \<longleftrightarrow> x \<noteq> zslot \<and> length x = kSize"

interpretation hash_set: id_set hs_inv hs_elems valid_id hs_weight "2 ^ 62" 4
  "addRecordID junk" hasRecordID "fetchRecordIDs junk" for junk
  by unfold_locales (use addRecordID_ok hash_set_reads_ok in \<open>simp_all add: valid_id_def\<close>)

lemma addRecordIDs_eq: "addRecordIDs junk xs s = hash_set.add_all junk xs s"
  by (induction xs arbitrary: s) simp_all

lemma hs_inv_open:
  assumes "hs_inv s" "hs_disk s = Some f"
  shows "\<exists>s'. hash_set_open (Some f) = Inr s' \<and> hs_inv s' \<and> hs_elems s' = hs_elems s"
proof -
  obtain k where "table_inv k (hs_used s) (hf_slots f)" using assms by (auto simp: hs_inv_def)
  then have "table_inv k None (hf_slots f)"
    using table_inv_room(2) by (auto simp: table_inv_def)
  with assms show ?thesis
    by (auto simp: hash_set_open_def hs_inv_def hs_elems_def hs_slots_def)
qed

section \<open>Properties\<close>

text \<open>C22. The hash set on disk is a set: after \<open>addRecordIDs\<close> of distinct non-zero ids, which reports exactly the
  new ones, and after the file is opened again, \<open>hasRecordID\<close> and \<open>fetchRecordIDs\<close> answer for the union
  of the old and the new ids, whatever the uninitialised buffers hold and through any number of rehashes.\<close>

theorem hash_set_refines_set:
  assumes "hs_inv s" "hs_weight s + 4 * length xs \<le> 2 ^ 62" "\<forall>x \<in> set xs. valid_id x" "distinct xs"
    and "xs \<noteq> []" "valid_id y"
  shows "\<exists>s' f s2. addRecordIDs junk xs s = Inr (filter (\<lambda>x. x \<notin> hs_elems s) xs, s') \<and>
    hs_inv s' \<and> hs_disk s' = Some f \<and> hash_set_open (Some f) = Inr s2 \<and> hs_inv s2 \<and>
    hasRecordID y s' = Inr (y \<in> set xs \<union> hs_elems s) \<and> hasRecordID y s2 = Inr (y \<in> set xs \<union> hs_elems s) \<and>
    fetchRecordIDs junk s2 = Inr (set xs \<union> hs_elems s)"
proof -
  obtain s' where s': "addRecordIDs junk xs s = Inr (filter (\<lambda>x. x \<notin> hs_elems s) xs, s')" "hs_inv s'"
    "hs_elems s' = set xs \<union> hs_elems s"
    using hash_set.add_all_ok [OF assms(1-4)] unfolding addRecordIDs_eq by blast
  have "hs_disk s' \<noteq> None" using s'(3) assms(3,5) by (cases xs) (auto simp: hs_elems_def hs_slots_def members_def)
  then obtain f where f: "hs_disk s' = Some f" by blast
  obtain s2 where s2: "hash_set_open (Some f) = Inr s2" "hs_inv s2" "hs_elems s2 = hs_elems s'"
    using hs_inv_open [OF s'(2) f] by blast
  show ?thesis using s' f s2 hash_set.has_ok [OF _ assms(6)] hash_set.fetch_ok by auto
qed

theorem hash_set_refines_set_witness:
  "\<exists>s s' x. hash_set_open None = Inr s \<and> x = replicate 20 7 \<and> addRecordIDs (\<lambda>_. []) [x] s = Inr ([x], s') \<and>
     hasRecordID x s' = Inr True"
proof -
  let ?s = "\<lparr>hs_nslots = 0, hs_used = None, hs_disk = None\<rparr>" and ?x = "replicate 20 7 :: slot"
  have "valid_id ?x" by (simp add: valid_id_def zslot_def kSize_def)
  moreover have "hs_inv ?s" "hs_weight ?s + 4 * length [?x] \<le> 2 ^ 62" "?x \<notin> hs_elems ?s"
    by (simp_all add: hs_inv_def hs_weight_def hs_elems_def hs_slots_def members_def)
  ultimately show ?thesis
    using hash_set_refines_set [of ?s "[?x]" ?x "\<lambda>_. []"] by (auto simp: hash_set_open_def)
qed

text \<open>The batched lookup of the hash set, which reads 25 slots ahead and wraps around at the end of
  the table, finds what probing the table slot by slot finds, on every table and from every state of its buffer.\<close>

theorem batched_lookup_equiv:
  assumes "0 < nslots" "length sl = nslots"
  shows "hs_lookup sl nslots x = lookup_ref sl x (map (probe (record_hash x) nslots) [0..<nslots])"
  using hs_lookup_ref [OF assms] .

theorem batched_lookup_equiv_witness:
  "hs_lookup [zslot, zslot] 2 [7] = lookup_ref [zslot, zslot] [7] (map (probe (record_hash [7]) 2) [0..<2])"
  using batched_lookup_equiv [of 2 "[zslot, zslot]" "[7]"] by simp

text \<open>A scan visits slots twice: on a table whose size is not a multiple of the batch size the last
  batch leaves stale slots of the batch before it in the buffer, which are visited again, so the number of used
  slots that a reopened set counts is larger than the number of its ids.\<close>

theorem scan_counts_stale_slots:
  assumes "length sl = 201" "\<forall>s \<in> set sl. \<not> IS_SLOT_EMPTY s"
  shows "length (hs_scan junk 201 sl) = 400"
proof -
  let ?A = "take 200 sl" and ?B = "drop 200 sl" and ?J = "map junk [0..<200]"
  have f: "used_slots ?A = ?A" "used_slots ?B = ?B" "used_slots (drop 1 ?A) = drop 1 ?A"
    using assms(2) by (auto intro!: filter_True dest: in_set_takeD in_set_dropD)
  have "hs_scan junk 201 sl = scan_loop (Suc (Suc 0)) sl ?J"
    by (simp add: hs_scan_def kFetchIOBatchSize_def numeral_2_eq_2)
  also have "\<dots> = used_slots ?A @ used_slots ?B @ used_slots (drop 1 ?A)"
    using assms(1) by (simp add: Let_def kFetchIOBatchSize_def)
  finally show ?thesis using assms(1) by (simp only: f) simp
qed

theorem scan_counts_stale_slots_witness:
  "length (hs_scan (\<lambda>_. []) 201 (replicate 201 (replicate 20 7))) = 400"
  using scan_counts_stale_slots [of "replicate 201 (replicate 20 7)" "\<lambda>_. []"]
  by (simp add: IS_SLOT_EMPTY_def)

end
