(* ===== verification/Stx_SHA1.thy ===== *)
theory Stx_SHA1
  imports Stx_Prelude
begin

text \<open>
  SHA1 and HMAC of \<open>SHA1.cc\<close> and \<open>HMAC.cc\<close>, on 32-bit words. The arrays \<open>w\<close> and \<open>result\<close> are lists of 80
  and of 5 words. The loop counters of \<open>SHA1::compute\<close> are signed 32-bit values; the model is of inputs
  of less than \<open>2 ^ 31\<close> bytes, on which they do not overflow.
\<close>

section \<open>The hash of the code\<close>

definition rol :: "u32 \<Rightarrow> nat \<Rightarrow> u32" where
  "rol v steps = push_bit steps v OR drop_bit (32 - steps) v"

definition clearWBuffert :: "u32 list \<Rightarrow> u32 list" where
  "clearWBuffert w = replicate 16 0 @ drop 16 w"

type_synonym sha_state = "u32 \<times> u32 \<times> u32 \<times> u32 \<times> u32"

type_synonym sha_func = "u32 \<Rightarrow> u32 \<Rightarrow> u32 \<Rightarrow> u32"

definition sha1macro :: "sha_func \<Rightarrow> u32 \<Rightarrow> u32 \<Rightarrow> sha_state \<Rightarrow> sha_state" where
  "sha1macro func val wr s =
     (case s of (a, b, c, d, e) \<Rightarrow> (rol a 5 + func b c d + e + val + wr, a, rol b 30, c, d))"

definition expand_w :: "nat \<Rightarrow> u32 list \<Rightarrow> u32 list" where
  "expand_w r w = w[r := rol (w ! (r - 3) XOR w ! (r - 8) XOR w ! (r - 14) XOR w ! (r - 16)) 1]"

text \<open>One of the five loops of \<open>innerHash\<close>; all but the first extend the message schedule.\<close>

definition round_loop ::
  "bool \<Rightarrow> sha_func \<Rightarrow> u32 \<Rightarrow> nat \<Rightarrow> nat \<Rightarrow> sha_state \<times> u32 list \<Rightarrow> sha_state \<times> u32 list" where
  "round_loop ext func val lo hi =
     fold (\<lambda>r (s, w). let w = (if ext then expand_w r w else w) in (sha1macro func val (w ! r) s, w)) [lo..<hi]"

definition innerHash :: "u32 list \<Rightarrow> u32 list \<Rightarrow> u32 list \<times> u32 list" where
  "innerHash result w =
     (let p = ((result ! 0, result ! 1, result ! 2, result ! 3, result ! 4), w);
          p = round_loop False (\<lambda>b c d. (b AND c) OR (NOT b AND d)) 0x5a827999 0 16 p;
          p = round_loop True (\<lambda>b c d. (b AND c) OR (NOT b AND d)) 0x5a827999 16 20 p;
          p = round_loop True (\<lambda>b c d. b XOR c XOR d) 0x6ed9eba1 20 40 p;
          p = round_loop True (\<lambda>b c d. (b AND c) OR (b AND d) OR (c AND d)) 0x8f1bbcdc 40 60 p;
          ((a, b, c, d, e), w) = round_loop True (\<lambda>b c d. b XOR c XOR d) 0xca62c1d6 60 80 p
      in ([result ! 0 + a, result ! 1 + b, result ! 2 + c, result ! 3 + d, result ! 4 + e], w))"

definition word_at :: "byte list \<Rightarrow> nat \<Rightarrow> u32" where
  "word_at bs i = ucast (bs ! (i + 3)) OR push_bit 8 (ucast (bs ! (i + 2)))
     OR push_bit 16 (ucast (bs ! (i + 1))) OR push_bit 24 (ucast (bs ! i))"

definition load_block :: "byte list \<Rightarrow> u32 list \<Rightarrow> u32 list" where
  "load_block bs w = map (\<lambda>j. word_at bs (4 * j)) [0..<16] @ drop 16 w"

function full_blocks :: "byte list \<Rightarrow> u32 list \<times> u32 list \<Rightarrow> byte list \<times> u32 list \<times> u32 list" where
  "full_blocks data (result, w) =
     (if 64 \<le> length data
      then full_blocks (drop 64 data) (innerHash result (load_block data w))
      else (data, result, w))"
  by pat_completeness auto
termination by (relation "measure (\<lambda>(data, _). length data)") auto

definition or_byte :: "nat \<Rightarrow> byte \<Rightarrow> u32 list \<Rightarrow> u32 list" where
  "or_byte i b w = w[i div 4 := w ! (i div 4) OR push_bit (8 * (3 - i mod 4)) (ucast b)]"

definition last_block :: "byte list \<Rightarrow> u32 list \<Rightarrow> u32 list" where
  "last_block data w = fold (\<lambda>i. or_byte i (data ! i)) [0..<length data] (clearWBuffert w)"

definition sha1_compute :: "byte list \<Rightarrow> byte list" where
  "sha1_compute data =
     (let (rest, result, w) = full_blocks data
            ([0x67452301, 0xefcdab89, 0x98badcfe, 0x10325476, 0xc3d2e1f0], replicate 80 0);
          w = or_byte (length rest) 0x80 (last_block rest w);
          (result, w) = (if 56 \<le> length rest
                         then let (result, w) = innerHash result w in (result, clearWBuffert w)
                         else (result, w));
          w = w[15 := push_bit 3 (of_nat (length data))];
          (result, w) = innerHash result w
      in map (\<lambda>i. ucast (drop_bit (nat ((3 - int i) mod 4) * 8) (result ! (i div 4)) AND 0xff)) [0..<20])"

section \<open>The standard\<close>

text \<open>
  FIPS 180: the message is padded with \<open>0x80\<close>, zeros and its length in bits as a 64-bit big-endian number,
  cut into blocks of sixteen words, and each block is folded in with eighty rounds.
\<close>

function schedule :: "u32 list \<Rightarrow> nat \<Rightarrow> u32" where
  "schedule m t =
     (if t < 16 then m ! t
      else word_rotl 1 (schedule m (t - 3) XOR schedule m (t - 8) XOR schedule m (t - 14) XOR schedule m (t - 16)))"
  by pat_completeness auto
termination by (relation "measure snd") auto

declare schedule.simps [simp del]

definition fips_f :: "nat \<Rightarrow> sha_func" where
  "fips_f t b c d =
     (if t < 20 then (b AND c) OR (NOT b AND d)
      else if 40 \<le> t \<and> t < 60 then (b AND c) OR (b AND d) OR (c AND d)
      else b XOR c XOR d)"

definition fips_k :: "nat \<Rightarrow> u32" where
  "fips_k t = (if t < 20 then 0x5a827999 else if t < 40 then 0x6ed9eba1 else if t < 60 then 0x8f1bbcdc else 0xca62c1d6)"

definition fips_round :: "u32 list \<Rightarrow> nat \<Rightarrow> sha_state \<Rightarrow> sha_state" where
  "fips_round m t s =
     (case s of (a, b, c, d, e) \<Rightarrow>
        (word_rotl 5 a + fips_f t b c d + e + schedule m t + fips_k t, a, word_rotl 30 b, c, d))"

definition fips_block :: "u32 list \<Rightarrow> u32 list \<Rightarrow> u32 list" where
  "fips_block m h =
     (case fold (fips_round m) [0..<80] (h ! 0, h ! 1, h ! 2, h ! 3, h ! 4) of
        (a, b, c, d, e) \<Rightarrow> [a + h ! 0, b + h ! 1, c + h ! 2, d + h ! 3, e + h ! 4])"

definition be_bytes :: "nat \<Rightarrow> ('a::len) word \<Rightarrow> byte list" where
  "be_bytes n v = map (\<lambda>i. ucast (drop_bit (8 * (n - 1 - i)) v)) [0..<n]"

definition fips_pad :: "byte list \<Rightarrow> byte list" where
  "fips_pad data =
     (let z = (119 - length data mod 64) mod 64
      in data @ [0x80] @ replicate z 0 @ be_bytes 8 (of_nat (8 * length data) :: u64))"

function fips_blocks :: "byte list \<Rightarrow> u32 list \<Rightarrow> u32 list" where
  "fips_blocks bs h =
     (if length bs < 64 then h
      else fips_blocks (drop 64 bs) (fips_block (map (\<lambda>j. word_at bs (4 * j)) [0..<16]) h))"
  by pat_completeness auto
termination by (relation "measure (\<lambda>(bs, _). length bs)") auto

declare fips_blocks.simps [simp del] full_blocks.simps [simp del]

definition fips_sha1 :: "byte list \<Rightarrow> byte list" where
  "fips_sha1 data =
     concat (map (be_bytes 4)
       (fips_blocks (fips_pad data) [0x67452301, 0xefcdab89, 0x98badcfe, 0x10325476, 0xc3d2e1f0]))"

section \<open>Rounds\<close>

lemma rol_rotl:
  assumes "0 < s" "s < 32"
  shows "rol v s = word_rotl s v"
proof (rule bit_word_eqI)
  fix n assume "n < LENGTH(32)"
  then have n: "n < 32" by simp
  have r: "bit (word_rotl s v) n \<longleftrightarrow> n < LENGTH(32) \<and> bit v ((n + (LENGTH(32) - s mod LENGTH(32))) mod LENGTH(32))"
    by (rule bit_word_rotl_iff)
  show "bit (rol v s) n \<longleftrightarrow> bit (word_rotl s v) n"
  proof (cases "n < s")
    case True
    have "(n + (LENGTH(32) - s mod LENGTH(32))) mod LENGTH(32) = 32 - s + n" using True assms by simp
    then have "bit (word_rotl s v) n \<longleftrightarrow> bit v (32 - s + n)" using n r by simp
    moreover have "bit (rol v s) n \<longleftrightarrow> bit v (32 - s + n)" using True by (simp add: rol_def bit_simps)
    ultimately show ?thesis by (simp only:)
  next
    case False
    have "n + (32 - s) = (n - s) + 32" using False assms by simp
    then have "(n + (32 - s)) mod 32 = n - s" using n by (simp only: mod_add_self2) simp
    then have "(n + (LENGTH(32) - s mod LENGTH(32))) mod LENGTH(32) = n - s" using assms by simp
    then have "bit (word_rotl s v) n \<longleftrightarrow> bit v (n - s)" using n r by simp
    moreover have "\<not> bit v (32 - s + n)" using False assms bit_imp_le_length [of v "32 - s + n"] by auto
    then have "bit (rol v s) n \<longleftrightarrow> bit v (n - s)" using False n by (simp add: rol_def bit_simps)
    ultimately show ?thesis by (simp only:)
  qed
qed

lemma round_loop_step:
  assumes "lo \<le> hi"
  shows "round_loop ext func val lo (Suc hi) p =
    (case round_loop ext func val lo hi p of (s, w) \<Rightarrow>
       let w = (if ext then expand_w hi w else w) in (sha1macro func val (w ! hi) s, w))"
  using assms by (simp add: round_loop_def)

lemma round_loop_fips:
  assumes "lo \<le> hi" "hi \<le> 80" "length m = 16" "length w = 80"
    and "\<forall>t. lo \<le> t \<and> t < hi \<longrightarrow> func = fips_f t \<and> val = fips_k t"
    and "if ext then 16 \<le> lo else hi \<le> 16"
    and "\<forall>t < max lo 16. w ! t = schedule m t"
  shows "\<exists>w'. round_loop ext func val lo hi (s, w) = (fold (fips_round m) [lo..<hi] s, w') \<and> length w' = 80 \<and>
    (\<forall>t < max hi 16. w' ! t = schedule m t)"
  using assms(1,2,5,6)
proof (induction hi rule: dec_induct)
  case base
  then show ?case using assms(4,7) by (simp add: round_loop_def)
next
  case (step hi)
  then obtain w' where w': "round_loop ext func val lo hi (s, w) = (fold (fips_round m) [lo..<hi] s, w')"
    "length w' = 80" "\<forall>t < max hi 16. w' ! t = schedule m t"
    by (auto split: if_splits)
  let ?w = "if ext then expand_w hi w' else w'"
  have len: "length ?w = 80" using w'(2) by (simp add: expand_w_def)
  have sched: "\<forall>t < max (Suc hi) 16. ?w ! t = schedule m t"
  proof (cases ext)
    case True
    then have "16 \<le> hi" using step by simp
    moreover from this have "schedule m hi = rol (w' ! (hi - 3) XOR w' ! (hi - 8) XOR w' ! (hi - 14) XOR w' ! (hi - 16)) 1"
      using w'(3) by (simp add: schedule.simps [of m hi] rol_rotl)
    ultimately show ?thesis using True w'(2,3) step.prems
      by (auto simp: expand_w_def nth_list_update less_Suc_eq)
  next
    case False
    with step.prems w'(3) show ?thesis by (auto simp: less_Suc_eq max_def)
  qed
  have f: "func = fips_f hi" "val = fips_k hi" using step by auto
  obtain a b c d e where st: "fold (fips_round m) [lo..<hi] s = (a, b, c, d, e)" by (metis prod_cases5)
  have "sha1macro func val (?w ! hi) (a, b, c, d, e) = fips_round m hi (a, b, c, d, e)"
    using sched by (simp add: sha1macro_def fips_round_def f rol_rotl ac_simps)
  then have "round_loop ext func val lo (Suc hi) (s, w) = (fold (fips_round m) [lo..<Suc hi] s, ?w)"
    using step.hyps by (simp add: round_loop_step w'(1) st Let_def)
  with len sched show ?case by blast
qed

lemma upt_split: "i \<le> j \<Longrightarrow> j \<le> k \<Longrightarrow> [i..<k] = [i..<j] @ [j..<k]"
  using upt_add_eq_append [of i j "k - j"] by simp

lemma innerHash_fips:
  assumes "length w = 80"
  shows "\<exists>w'. innerHash h w = (fips_block (take 16 w) h, w') \<and> length w' = 80"
proof -
  let ?m = "take 16 w" and ?s = "(h ! 0, h ! 1, h ! 2, h ! 3, h ! 4)"
  let ?F = "\<lambda>lo hi. fold (fips_round ?m) [lo..<hi]"
  have m: "length ?m = 16" using assms by simp
  have w0: "\<forall>t < 16. w ! t = schedule ?m t" using assms by (simp add: schedule.simps)
  obtain w1 where 1: "round_loop False (\<lambda>b c d. (b AND c) OR (NOT b AND d)) 0x5a827999 0 16 (?s, w) = (?F 0 16 ?s, w1)"
    "length w1 = 80" "\<forall>t < 16. w1 ! t = schedule ?m t"
    using round_loop_fips [where lo = 0 and hi = 16 and m = ?m and w = w and func = "\<lambda>b c d. (b AND c) OR (NOT b AND d)" and val = "0x5a827999" and ext = False and s = ?s] m assms w0
    by (auto simp: fips_f_def fips_k_def fun_eq_iff)
  obtain w2 where 2: "round_loop True (\<lambda>b c d. (b AND c) OR (NOT b AND d)) 0x5a827999 16 20 (?F 0 16 ?s, w1) =
      (?F 16 20 (?F 0 16 ?s), w2)" "length w2 = 80" "\<forall>t < 20. w2 ! t = schedule ?m t"
    using round_loop_fips [where lo = 16 and hi = 20 and m = ?m and w = w1 and func = "\<lambda>b c d. (b AND c) OR (NOT b AND d)" and val = "0x5a827999" and ext = True and s = "?F 0 16 ?s"] m 1
    by (auto simp: fips_f_def fips_k_def fun_eq_iff)
  obtain w3 where 3: "round_loop True (\<lambda>b c d. b XOR c XOR d) 0x6ed9eba1 20 40 (?F 16 20 (?F 0 16 ?s), w2) =
      (?F 20 40 (?F 16 20 (?F 0 16 ?s)), w3)" "length w3 = 80" "\<forall>t < 40. w3 ! t = schedule ?m t"
    using round_loop_fips [where lo = 20 and hi = 40 and m = ?m and w = w2 and func = "\<lambda>b c d. b XOR c XOR d" and val = "0x6ed9eba1" and ext = True and s = "?F 16 20 (?F 0 16 ?s)"] m 2
    by (auto simp: fips_f_def fips_k_def fun_eq_iff)
  obtain w4 where 4: "round_loop True (\<lambda>b c d. (b AND c) OR (b AND d) OR (c AND d)) 0x8f1bbcdc 40 60
      (?F 20 40 (?F 16 20 (?F 0 16 ?s)), w3) = (?F 40 60 (?F 20 40 (?F 16 20 (?F 0 16 ?s))), w4)"
    "length w4 = 80" "\<forall>t < 60. w4 ! t = schedule ?m t"
    using round_loop_fips [where lo = 40 and hi = 60 and m = ?m and w = w3 and func = "\<lambda>b c d. (b AND c) OR (b AND d) OR (c AND d)" and val = "0x8f1bbcdc" and ext = True and s = "?F 20 40 (?F 16 20 (?F 0 16 ?s))"] m 3
    by (auto simp: fips_f_def fips_k_def fun_eq_iff)
  obtain w5 where 5: "round_loop True (\<lambda>b c d. b XOR c XOR d) 0xca62c1d6 60 80
      (?F 40 60 (?F 20 40 (?F 16 20 (?F 0 16 ?s))), w4) =
      (?F 60 80 (?F 40 60 (?F 20 40 (?F 16 20 (?F 0 16 ?s)))), w5)" "length w5 = 80"
    using round_loop_fips [where lo = 60 and hi = 80 and m = ?m and w = w4 and func = "\<lambda>b c d. b XOR c XOR d" and val = "0xca62c1d6" and ext = True and s = "?F 40 60 (?F 20 40 (?F 16 20 (?F 0 16 ?s)))"] m 4
    by (auto simp: fips_f_def fips_k_def fun_eq_iff)
  have "[0..<80] = [0..<16] @ [16..<20] @ [20..<40] @ [40..<60] @ [60..<80 :: nat]"
    by (simp only: upt_split [symmetric] order_refl Nat.le0 numeral_le_iff semiring_norm)
  then have "?F 60 80 (?F 40 60 (?F 20 40 (?F 16 20 (?F 0 16 ?s)))) = ?F 0 80 ?s" by (simp only: fold_append comp_def)
  with 1(1) 2(1) 3(1) 4(1) 5 show ?thesis
    unfolding innerHash_def Let_def fips_block_def
    by (cases "?F 0 80 ?s") (simp add: ac_simps)
qed

section \<open>Blocks and padding\<close>

abbreviation block_words :: "byte list \<Rightarrow> u32 list" where
  "block_words bs \<equiv> map (\<lambda>j. word_at bs (4 * j)) [0..<16]"

lemma word_at_update_same:
  assumes "r < 4" "4 * q + 3 < length bs" "bs ! (4 * q + r) = 0"
  shows "word_at (bs[4 * q + r := b]) (4 * q) = word_at bs (4 * q) OR push_bit (8 * (3 - r)) (ucast b)"
proof -
  have "r = 0 \<or> r = 1 \<or> r = 2 \<or> r = 3" using assms(1) by linarith
  with assms(2,3) show ?thesis by (elim disjE) (simp_all add: word_at_def ac_simps)
qed

lemma word_at_update_other:
  assumes "r < 4" "q \<noteq> j"
  shows "word_at (bs[4 * q + r := b]) (4 * j) = word_at bs (4 * j)"
proof -
  have "4 * j + k \<noteq> 4 * q + r" if "k < 4" for k using assms that by presburger
  from this [of 0] this [of 1] this [of 2] this [of 3] show ?thesis
    by (simp add: word_at_def nth_list_update_neq)
qed

lemma or_byte_block:
  assumes "length bs = 64" "i < 64" "bs ! i = 0"
  shows "or_byte i b (block_words bs @ t) = block_words (bs[i := b]) @ t"
proof (rule nth_equalityI)
  let ?q = "i div 4" and ?r = "i mod 4"
  have i: "i = 4 * ?q + ?r" "?r < 4" "?q < 16" using assms(2) by auto
  show "length (or_byte i b (block_words bs @ t)) = length (block_words (bs[i := b]) @ t)"
    by (simp add: or_byte_def)
  fix j assume j: "j < length (or_byte i b (block_words bs @ t))"
  show "or_byte i b (block_words bs @ t) ! j = (block_words (bs[i := b]) @ t) ! j"
  proof (cases "j < 16")
    case True
    show ?thesis
    proof (cases "j = ?q")
      case True
      have "word_at (bs[i := b]) (4 * ?q) = word_at bs (4 * ?q) OR push_bit (8 * (3 - ?r)) (ucast b)"
      proof -
        have "4 * ?q + 3 < length bs" "bs ! (4 * ?q + ?r) = 0" using i assms by simp_all
        from word_at_update_same [OF i(2) this] show ?thesis using i(1) by simp
      qed
      then show ?thesis using True i(3) by (simp add: or_byte_def nth_append)
    next
      case False
      then have "word_at (bs[i := b]) (4 * j) = word_at bs (4 * j)"
        using word_at_update_other [of ?r ?q j bs b] i(1,2) by simp
      with True False i(3) show ?thesis by (simp add: or_byte_def nth_append)
    qed
  qed (use i(3) in \<open>simp add: or_byte_def nth_append\<close>)
qed

lemma clearWBuffert_block: "clearWBuffert w = block_words (replicate 64 0) @ drop 16 w"
proof -
  have "block_words (replicate 64 0) = replicate 16 0"
    by (rule nth_equalityI) (simp_all add: word_at_def)
  then show ?thesis by (simp add: clearWBuffert_def)
qed

lemma last_block_words:
  assumes "n \<le> length data" "length data < 64"
  shows "fold (\<lambda>i. or_byte i (data ! i)) [0..<n] (block_words (replicate 64 0) @ t) =
    block_words (take n data @ replicate (64 - n) 0) @ t"
  using assms(1)
proof (induction n)
  case (Suc n)
  let ?bs = "take n data @ replicate (64 - n) 0"
  have "64 - n = Suc (64 - Suc n)" using Suc.prems assms(2) by simp
  then have "replicate (64 - n) 0 = (0 :: byte) # replicate (64 - Suc n) 0" by (simp only: replicate_Suc)
  then have "?bs[n := data ! n] = take (Suc n) data @ replicate (64 - Suc n) 0"
    using Suc.prems assms(2) by (simp add: list_update_append take_Suc_conv_app_nth)
  with or_byte_block [of ?bs n "data ! n" t] Suc assms(2) show ?case
    by (simp add: nth_append)
qed simp

lemma padded_block:
  assumes "length data < 64"
  shows "or_byte (length data) 0x80 (last_block data w) =
    block_words (data @ [0x80] @ replicate (63 - length data) 0) @ drop 16 w"
proof -
  let ?n = "length data"
  let ?bs = "data @ replicate (64 - ?n) 0"
  have z: "replicate (64 - ?n) 0 = (0 :: byte) # replicate (63 - ?n) 0"
  proof -
    have "64 - ?n = Suc (63 - ?n)" using assms by simp
    then show ?thesis by (simp only: replicate_Suc)
  qed
  have "last_block data w = block_words ?bs @ drop 16 w"
    using last_block_words [of ?n data "drop 16 w"] assms by (simp add: last_block_def clearWBuffert_block)
  moreover have "?bs[?n := 0x80] = data @ [0x80] @ replicate (63 - ?n) 0"
    by (simp add: z list_update_append)
  ultimately show ?thesis using or_byte_block [of ?bs ?n "0x80" "drop 16 w"] assms by (simp add: z)
qed

lemma word_at_append:
  "i + 3 < length xs \<Longrightarrow> word_at (xs @ ys) i = word_at xs i"
  "word_at (xs @ ys) (length xs + i) = word_at ys i"
  by (simp_all add: word_at_def nth_append add.assoc)

lemma word_at_be_bytes: "word_at (be_bytes 4 v) 0 = (v :: u32)"
proof (rule bit_word_eqI)
  fix n assume "n < LENGTH(32)"
  then have "n < 8 \<or> (\<exists>k<8. n = 8 + k) \<or> (\<exists>k<8. n = 16 + k) \<or> (\<exists>k<8. n = 24 + k)"
    by (simp, presburger)
  then show "bit (word_at (be_bytes 4 v) 0) n = bit v n"
    by (elim disjE exE conjE) (simp_all add: word_at_def be_bytes_def bit_simps upt_rec [of _ 4])
qed

lemma be_bytes_8:
  "be_bytes 8 (v :: u64) = be_bytes 4 (ucast (drop_bit 32 v) :: u32) @ be_bytes 4 (ucast v :: u32)"
proof -
  have "(ucast (drop_bit k (ucast (drop_bit 32 v) :: u32)) :: byte) = ucast (drop_bit (k + 32) v)"
    "(ucast (drop_bit k (ucast v :: u32)) :: byte) = ucast (drop_bit k v)" if "k \<le> 24" for k
    using that by (auto intro!: bit_word_eqI simp: bit_simps ac_simps)
  then show ?thesis by (simp add: be_bytes_def upt_rec [of _ 8] upt_rec [of _ 4])
qed

lemma length_word_block [simp]: "length (be_bytes n v) = n"
  by (simp add: be_bytes_def)

lemma drop_bit_small: "unat (v :: u64) < 2 ^ 32 \<Longrightarrow> drop_bit 32 v = 0"
  by (simp only: word_unat_eq_iff unat_drop_bit_eq) (simp add: drop_bit_eq_div)

lemma length_block_words:
  assumes "length bs = 56" "8 * n < 2 ^ 32" "length w = 80"
    and "take 16 w = block_words (bs @ replicate 8 0)"
  shows "take 16 (w[15 := push_bit 3 (of_nat n)]) = block_words (bs @ be_bytes 8 (of_nat (8 * n) :: u64))"
proof -
  let ?v = "of_nat (8 * n) :: u64"
  have v: "unat ?v = 8 * n"
    using assms(2) by (simp only: unsigned_of_nat) (simp add: take_bit_nat_eq_self)
  have hi: "(ucast (drop_bit 32 ?v) :: u32) = 0" using v assms(2) drop_bit_small [of ?v] by simp
  have "(ucast ?v :: u32) = of_nat (unat ?v)" by (rule of_nat_unat [symmetric])
  also have "\<dots> = of_nat (8 * n)" by (simp only: v)
  finally have lo: "(ucast ?v :: u32) = push_bit 3 (of_nat n)" by (simp add: push_bit_eq_mult mult.commute)
  have w: "w ! j = word_at (bs @ replicate 8 0) (4 * j)" if "j < 16" for j
    using arg_cong [OF assms(4), of "\<lambda>xs. xs ! j"] that by simp
  have "word_at (bs @ be_bytes 8 ?v) (4 * j) = w[15 := push_bit 3 (of_nat n)] ! j" if j: "j < 16" for j
  proof -
    have "j < 14 \<or> j = 14 \<or> j = 15" using j by linarith
    then show ?thesis
    proof (elim disjE)
      assume "j < 14"
      then show ?thesis using assms(1) w [OF j] by (simp add: word_at_append(1))
    next
      assume j: "j = 14"
      have "word_at (bs @ replicate 8 0) (length bs + 0) = 0"
        unfolding word_at_append(2) by (simp add: word_at_def)
      moreover have "word_at (bs @ be_bytes 8 ?v) (length bs + 0) = 0"
        unfolding word_at_append(2) be_bytes_8 hi by (simp add: word_at_append(1) word_at_be_bytes)
      ultimately show ?thesis using assms(1) w [of 14] j by simp
    next
      assume j: "j = 15"
      have "word_at ((bs @ be_bytes 4 (0 :: u32)) @ be_bytes 4 (push_bit 3 (of_nat n) :: u32))
          (length (bs @ be_bytes 4 (0 :: u32)) + 0) = push_bit 3 (of_nat n)"
        unfolding word_at_append(2) by (rule word_at_be_bytes)
      moreover have "be_bytes 8 ?v = be_bytes 4 (0 :: u32) @ be_bytes 4 (push_bit 3 (of_nat n) :: u32)"
        by (simp only: be_bytes_8 hi lo)
      ultimately show ?thesis using assms(1,3) j by simp
    qed
  qed
  then show ?thesis using assms(3) by (intro nth_equalityI) simp_all
qed

lemma fips_blocks_step:
  assumes "64 \<le> length bs"
  shows "fips_blocks (bs @ t) h = fips_blocks (drop 64 bs @ t) (fips_block (block_words bs) h)"
proof -
  have "block_words (bs @ t) = block_words bs" using assms by (simp add: word_at_append(1))
  then show ?thesis using assms by (subst fips_blocks.simps) (simp del: map_eq_conv)
qed

lemma full_blocks_fips:
  assumes "length w = 80"
  shows "\<exists>rest h' w'. full_blocks data (h, w) = (rest, h', w') \<and> length w' = 80 \<and> length rest < 64 \<and>
    length rest = length data mod 64 \<and> (\<forall>t. fips_blocks (data @ t) h = fips_blocks (rest @ t) h')"
  using assms
proof (induction data arbitrary: h w rule: length_induct)
  case (1 data)
  show ?case
  proof (cases "64 \<le> length data")
    case True
    let ?w = "load_block data w"
    have w: "length ?w = 80" "take 16 ?w = block_words data" using 1(2) by (simp_all add: load_block_def)
    obtain w1 where w1: "innerHash h ?w = (fips_block (block_words data) h, w1)" "length w1 = 80"
      using innerHash_fips [OF w(1), of h] w(2) by auto
    have "fips_blocks (data @ t) h = fips_blocks (drop 64 data @ t) (fips_block (block_words data) h)" for t
      using True by (rule fips_blocks_step)
    moreover have "length (drop 64 data) mod 64 = length data mod 64" using True by (simp add: le_mod_geq)
    moreover have "full_blocks data (h, w) = full_blocks (drop 64 data) (fips_block (block_words data) h, w1)"
      using True w1(1) by (subst full_blocks.simps) simp
    moreover have "length (drop 64 data) < length data" using True by simp
    ultimately show ?thesis using 1(1) w1(2) by metis
  next
    case False
    then show ?thesis using 1(2) by (subst full_blocks.simps) simp
  qed
qed

lemma fips_blocks_one:
  assumes "length bs = 64"
  shows "fips_blocks (bs @ t) h = fips_blocks t (fips_block (block_words bs) h)"
  using fips_blocks_step [of bs t h] assms by simp

lemma fips_blocks_last:
  assumes "length bs = 64"
  shows "fips_blocks bs h = fips_block (block_words bs) h"
  using fips_blocks_one [OF assms, of "[]" h] by (simp add: fips_blocks.simps)

lemma out_bytes:
  assumes "length h = 5"
  shows "map (\<lambda>i. ucast (drop_bit (nat ((3 - int i) mod 4) * 8) (h ! (i div 4)) AND 0xff)) [0..<20] =
    concat (map (be_bytes 4) (h :: u32 list))"
proof -
  have e: "x AND 0xff = take_bit 8 x" for x :: u32 by (simp add: take_bit_eq_mask mask_eq_exp_minus_1)
  have m: "(ucast (x AND 0xff) :: byte) = ucast x" for x :: u32
    unfolding e by (auto intro!: bit_word_eqI simp: bit_simps)
  obtain a b c d e where "h = [a, b, c, d, e]" using assms by (auto simp: length_Suc_conv numeral_eq_Suc)
  then show ?thesis by (simp add: m be_bytes_def upt_rec [of _ 20] upt_rec [of _ 4])
qed

lemma length_fips_block [simp]: "length (fips_block m h) = 5"
  by (simp add: fips_block_def split: prod.split)

lemma length_fips_blocks: "length h = 5 \<Longrightarrow> length (fips_blocks bs h) = 5"
  by (induction bs h rule: fips_blocks.induct) (subst fips_blocks.simps, simp)

lemma pad_split:
  assumes "length rest = length data mod 64"
  shows "fips_pad data = data @ (if length rest < 56
    then [0x80] @ replicate (55 - length rest) 0 @ be_bytes 8 (of_nat (8 * length data) :: u64)
    else [0x80] @ replicate (63 - length rest) 0 @ replicate 56 0 @ be_bytes 8 (of_nat (8 * length data) :: u64))"
proof (cases "length rest < 56")
  case True
  then have "(119 - length rest) mod 64 = 55 - length rest" by (simp add: mod_if)
  with True show ?thesis by (simp add: fips_pad_def Let_def flip: assms)
next
  case False
  have l: "length rest < 64" using assms by simp
  with False have "(119 - length rest) mod 64 = (63 - length rest) + 56" by simp
  with False show ?thesis
    by (simp only: fips_pad_def Let_def assms [symmetric] replicate_add) simp
qed

text \<open>The two ways the final block is formed: the length fits behind the tail, or it needs a block of its own.\<close>

lemma short_tail:
  assumes rest: "length rest < 56" and w: "length w = 80" and n: "8 * n < 2 ^ 32"
  shows "fst (innerHash h ((or_byte (length rest) 0x80 (last_block rest w))[15 := push_bit 3 (of_nat n)])) =
    fips_blocks (rest @ [0x80] @ replicate (55 - length rest) 0 @ be_bytes 8 (of_nat (8 * n) :: u64)) h"
proof -
  let ?len = "be_bytes 8 (of_nat (8 * n) :: u64)" and ?v = "push_bit 3 (of_nat n) :: u32"
  let ?w1 = "or_byte (length rest) 0x80 (last_block rest w)"
  let ?bs = "rest @ [0x80] @ replicate (55 - length rest) 0"
  have w1: "?w1 = block_words (rest @ [0x80] @ replicate (63 - length rest) 0) @ drop 16 w" "length ?w1 = 80"
    using padded_block [of rest w] rest w by simp_all
  have "replicate (63 - length rest) (0 :: byte) = replicate (55 - length rest) 0 @ replicate 8 0"
    using rest by (simp flip: replicate_add)
  then have "take 16 ?w1 = block_words (?bs @ replicate 8 0)" using w1 by simp
  then have "take 16 (?w1[15 := ?v]) = block_words (?bs @ ?len)"
    using length_block_words [of ?bs n ?w1] rest n w1(2) by simp
  moreover have "fips_blocks (?bs @ ?len) h = fips_block (block_words (?bs @ ?len)) h"
    using rest by (intro fips_blocks_last) simp
  ultimately show ?thesis using innerHash_fips [of "?w1[15 := ?v]" h] w1(2) by auto
qed

lemma long_tail:
  assumes rest: "56 \<le> length rest" "length rest < 64" and w: "length w = 80" and n: "8 * n < 2 ^ 32"
    and i: "innerHash h (or_byte (length rest) 0x80 (last_block rest w)) = (h1, w2)"
  shows "fst (innerHash h1 ((clearWBuffert w2)[15 := push_bit 3 (of_nat n)])) =
    fips_blocks (rest @ [0x80] @ replicate (63 - length rest) 0 @ replicate 56 0 @
      be_bytes 8 (of_nat (8 * n) :: u64)) h"
proof -
  let ?len = "be_bytes 8 (of_nat (8 * n) :: u64)" and ?v = "push_bit 3 (of_nat n) :: u32"
  let ?pad = "rest @ [0x80] @ replicate (63 - length rest) 0" and ?w3 = "clearWBuffert w2"
  have h1: "h1 = fips_block (block_words ?pad) h" "length w2 = 80"
    using innerHash_fips [of "or_byte (length rest) 0x80 (last_block rest w)" h] padded_block [OF rest(2), of w] w i
    by auto
  have w3: "take 16 ?w3 = block_words (replicate 56 0 @ replicate 8 0)" "length ?w3 = 80"
    using h1(2) by (simp_all add: clearWBuffert_block flip: replicate_add)
  then have m: "take 16 (?w3[15 := ?v]) = block_words (replicate 56 0 @ ?len)"
    using length_block_words [of "replicate 56 0" n ?w3] n by simp
  have "fips_blocks (?pad @ replicate 56 0 @ ?len) h = fips_blocks (replicate 56 0 @ ?len) h1"
    unfolding h1(1) using rest by (intro fips_blocks_one) simp
  also have "\<dots> = fips_block (block_words (replicate 56 0 @ ?len)) h1"
    by (intro fips_blocks_last) simp
  finally show ?thesis using innerHash_fips [of "?w3[15 := ?v]" h1] w3(2) m by auto
qed

section \<open>HMAC\<close>

definition kBlockSize :: nat where "kBlockSize = 64"

definition hmac_sha1 :: "byte list \<Rightarrow> byte list \<Rightarrow> byte list" where
  "hmac_sha1 key message =
     (let key_pad = (if length key > kBlockSize then sha1_compute key else key);
          key_pad = key_pad @ replicate (kBlockSize - length key_pad) 0;
          opad = map (\<lambda>i. 0x5c XOR key_pad ! i) [0..<kBlockSize];
          ipad = map (\<lambda>i. 0x36 XOR key_pad ! i) [0..<kBlockSize]
      in sha1_compute (opad @ sha1_compute (ipad @ message)))"

lemma length_sha1_compute [simp]: "length (sha1_compute data) = 20"
  by (simp add: sha1_compute_def Let_def split: prod.split)

lemma length_hmac [simp]: "length (hmac_sha1 key message) = 20"
  by (simp add: hmac_sha1_def Let_def)

section \<open>Properties\<close>

text \<open>C23. \<open>SHA1::compute\<close> is SHA-1: on every input of less than \<open>2 ^ 29\<close> bytes it equals the padded,
  block-wise hash of FIPS 180, with the message schedule by recursion and the rotations of words.\<close>

theorem sha1_is_fips:
  assumes "8 * length data < 2 ^ 32"
  shows "sha1_compute data = fips_sha1 data"
proof -
  let ?h0 = "[0x67452301, 0xefcdab89, 0x98badcfe, 0x10325476, 0xc3d2e1f0] :: u32 list"
  obtain rest h w where fb: "full_blocks data (?h0, replicate 80 0) = (rest, h, w)" and w: "length w = 80"
    and rest: "length rest < 64" "length rest = length data mod 64"
    and t: "\<And>t. fips_blocks (data @ t) ?h0 = fips_blocks (rest @ t) h"
    using full_blocks_fips [of "replicate 80 0" data ?h0] by auto
  note pad = pad_split [OF rest(2)] t length_fips_blocks [of ?h0 "fips_pad data"]
  show ?thesis
  proof (cases "length rest < 56")
    case True
    then show ?thesis using short_tail [OF True w assms, of h] pad
      by (auto simp: sha1_compute_def fips_sha1_def Let_def fb out_bytes split: prod.split)
  next
    case False
    obtain h1 w2 where i: "innerHash h (or_byte (length rest) 0x80 (last_block rest w)) = (h1, w2)" by force
    with False show ?thesis using long_tail [OF _ rest(1) w assms i] pad
      by (auto simp: sha1_compute_def fips_sha1_def Let_def fb out_bytes split: prod.split)
  qed
qed

theorem sha1_is_fips_witness: "sha1_compute (replicate 100 7) = fips_sha1 (replicate 100 7)"
  using sha1_is_fips [of "replicate 100 7"] by simp

end
