(* ===== verification/Stx_SecureCookie.thy ===== *)
theory Stx_SecureCookie
  imports Stx_SHA1 Stx_Buffer Stx_StringUtil
begin

text \<open>
  Base64 (\<open>util/Base64.cc\<close>), the text form of hashes (\<open>SHA1.cc\<close>) and the signed cookies of
  \<open>web/SecureCookie.cc\<close>: encoding, verification with the HMAC of \<open>HMAC.cc\<close> and expiry. Times are
  microseconds as 64-bit words; the current time is an argument.
\<close>

section \<open>Base64\<close>

definition pr2six_table :: "byte list" where
  "pr2six_table =
    [64, 64, 64, 64, 64, 64, 64, 64, 64, 64, 64, 64, 64, 64, 64, 64,
     64, 64, 64, 64, 64, 64, 64, 64, 64, 64, 64, 64, 64, 64, 64, 64,
     64, 64, 64, 64, 64, 64, 64, 64, 64, 64, 64, 62, 64, 64, 64, 63,
     52, 53, 54, 55, 56, 57, 58, 59, 60, 61, 64, 64, 64, 64, 64, 64,
     64,  0,  1,  2,  3,  4,  5,  6,  7,  8,  9, 10, 11, 12, 13, 14,
     15, 16, 17, 18, 19, 20, 21, 22, 23, 24, 25, 64, 64, 64, 64, 64,
     64, 26, 27, 28, 29, 30, 31, 32, 33, 34, 35, 36, 37, 38, 39, 40,
     41, 42, 43, 44, 45, 46, 47, 48, 49, 50, 51, 64, 64, 64, 64, 64] @ replicate 128 64"

definition pr2six :: "char \<Rightarrow> byte" where
  "pr2six c = pr2six_table ! code c"

definition chrtbl :: string where
  "chrtbl = ''ABCDEFGHIJKLMNOPQRSTUVWXYZabcdefghijklmnopqrstuvwxyz0123456789+/''"

definition six :: "byte \<Rightarrow> char" where
  "six k = chrtbl ! unat k"

text \<open>The four sextets of three bytes and the three bytes of four sextets.\<close>

definition six1 :: "byte \<Rightarrow> byte" where
  "six1 a = drop_bit 2 a AND 0x3F"

definition six2 :: "byte \<Rightarrow> byte \<Rightarrow> byte" where
  "six2 a b = push_bit 4 (a AND 0x3) OR drop_bit 4 (b AND 0xF0)"

definition six3 :: "byte \<Rightarrow> byte \<Rightarrow> byte" where
  "six3 b c = push_bit 2 (b AND 0xF) OR drop_bit 6 (c AND 0xC0)"

definition six4 :: "byte \<Rightarrow> byte" where
  "six4 c = c AND 0x3F"

definition byte1 :: "byte \<Rightarrow> byte \<Rightarrow> byte" where
  "byte1 p q = push_bit 2 p OR drop_bit 4 q"

definition byte2 :: "byte \<Rightarrow> byte \<Rightarrow> byte" where
  "byte2 q r = push_bit 4 q OR drop_bit 2 r"

definition byte3 :: "byte \<Rightarrow> byte \<Rightarrow> byte" where
  "byte3 r t = push_bit 6 r OR t"

fun base64_groups :: "byte list \<Rightarrow> string" where
  "base64_groups (a # b # c # rest) =
     [six (six1 a), six (six2 a b), six (six3 b c), six (six4 c)] @ base64_groups rest"
| "base64_groups [] = []"
| "base64_groups [a] = [six (six1 a), six (push_bit 4 (a AND 0x3)), CHR ''='', CHR ''='']"
| "base64_groups [a, b] = [six (six1 a), six (six2 a b), six (push_bit 2 (b AND 0xF)), CHR ''='']"

text \<open>The bound \<open>len - 2\<close> of the loop wraps around for shorter inputs, which are then read out of bounds.\<close>

definition base64_encode :: "byte list \<Rightarrow> string result" where
  "base64_encode s = (if length s < 2 then Inl UndefinedBehaviour else Inr (base64_groups s))"

fun decode_groups :: "byte list \<Rightarrow> byte list" where
  "decode_groups (p # q # r # t # u # rest) = [byte1 p q, byte2 q r, byte3 r t] @ decode_groups (u # rest)"
| "decode_groups [p, q, r, t] = [byte1 p q, byte2 q r, byte3 r t]"
| "decode_groups [p, q, r] = [byte1 p q, byte2 q r]"
| "decode_groups [p, q] = [byte1 p q]"
| "decode_groups [p] = []"
| "decode_groups [] = []"

definition base64_decode :: "string \<Rightarrow> byte list" where
  "base64_decode s = decode_groups (map pr2six (takeWhile (\<lambda>c. pr2six c \<le> 63) s))"

lemma bit_byte_less: "bit (x :: byte) n \<Longrightarrow> n < 8"
  using bit_imp_le_length [of x n] by simp

lemma Suc_Suc_diff: "2 \<le> n \<Longrightarrow> Suc (Suc (n - 2)) = n"
  by simp

lemma and_low:
  "x AND 0x3F = take_bit 6 x" "x AND 0xF = take_bit 4 x" "x AND 0x3 = take_bit 2 x"
  "drop_bit 4 (x AND 0xF0) = drop_bit 4 x" "drop_bit 6 (x AND 0xC0) = drop_bit 6 x" for x :: byte
proof -
  show "x AND 0x3F = take_bit 6 x" "x AND 0xF = take_bit 4 x" "x AND 0x3 = take_bit 2 x"
    by (simp_all add: take_bit_eq_mask mask_eq_exp_minus_1)
  have t: "take_bit 4 (drop_bit 4 x) = drop_bit 4 x" "take_bit 2 (drop_bit 6 x) = drop_bit 6 x"
    using bit_byte_less [of x "4 + _"] bit_byte_less [of x "6 + _"]
    by (auto intro!: bit_word_eqI simp: bit_simps)
  have "drop_bit 4 (x AND 0xF0) = take_bit 4 (drop_bit 4 x)" "drop_bit 6 (x AND 0xC0) = take_bit 2 (drop_bit 6 x)"
    by (simp_all add: take_bit_eq_mask mask_eq_exp_minus_1)
  then show "drop_bit 4 (x AND 0xF0) = drop_bit 4 x" "drop_bit 6 (x AND 0xC0) = drop_bit 6 x"
    by (simp_all only: t)
qed

lemmas six_defs = six1_def six2_def six3_def six4_def byte1_def byte2_def byte3_def

lemma six_bytes:
  "byte1 (six1 a) (six2 a b) = a" "byte2 (six2 a b) (six3 b c) = b" "byte3 (six3 b c) (six4 c) = c"
  by (auto intro!: bit_word_eqI simp: six_defs and_low bit_simps Suc_Suc_diff less_diff_conv2 not_less)

lemma six_tail: "push_bit 4 (a AND 0x3) = six2 a 0" "push_bit 2 (b AND 0xF) = six3 b 0"
  by (simp_all add: six_defs)

lemma bits_below_6:
  assumes "\<And>n. bit (k :: byte) n \<Longrightarrow> n < 6"
  shows "unat k < 64"
proof -
  have "k = take_bit 6 k" by (rule bit_word_eqI) (use assms in \<open>auto simp: bit_simps\<close>)
  then have "unat k = take_bit 6 (unat k)" by (metis unsigned_take_bit_eq)
  then show ?thesis using take_bit_nat_less_exp [of 6 "unat k"] by simp
qed

lemma six_less [simp]: "unat (six1 a) < 64" "unat (six2 a b) < 64" "unat (six3 b c) < 64" "unat (six4 c) < 64"
  by (rule bits_below_6; auto simp: six_defs and_low bit_simps)+

lemma chrtbl_codes:
  "list_all (\<lambda>k. pr2six (chrtbl ! k) = of_nat k \<and> chrtbl ! k \<noteq> CHR ''|'') [0..<64]"
  by code_simp

lemma pr2six_six:
  assumes "unat k < 64"
  shows "pr2six (six k) = k" "pr2six (six k) \<le> 63" "six k \<noteq> CHR ''|''"
  using chrtbl_codes assms by (auto simp: list_all_iff six_def word_le_nat_alt)

lemma pr2six_eq: "\<not> pr2six (CHR ''='') \<le> 63"
  by code_simp

fun sextets :: "byte list \<Rightarrow> byte list" where
  "sextets (a # b # c # rest) = [six1 a, six2 a b, six3 b c, six4 c] @ sextets rest"
| "sextets [] = []"
| "sextets [a] = [six1 a, six2 a 0]"
| "sextets [a, b] = [six1 a, six2 a b, six3 b 0]"

lemma groups_sextets:
  "\<exists>p. base64_groups bs = map six (sextets bs) @ p \<and> set p \<subseteq> {CHR ''=''}"
  by (induction bs rule: base64_groups.induct) (simp_all only: base64_groups.simps sextets.simps six_tail, auto)

lemma sextets_less: "k \<in> set (sextets bs) \<Longrightarrow> unat k < 64"
  by (induction bs rule: sextets.induct) auto

lemma decode_sextets: "decode_groups (sextets bs) = bs"
proof (induction bs rule: sextets.induct)
  case (1 a b c rest)
  show ?case
  proof (cases "sextets rest")
    case Nil
    then have "rest = []" by (cases rest rule: sextets.cases) auto
    then show ?thesis by (simp add: six_bytes)
  next
    case (Cons u us)
    with 1 show ?thesis by (simp add: six_bytes)
  qed
qed (simp_all add: six_bytes)

lemma base64_decode_groups: "base64_decode (base64_groups bs) = bs"
proof -
  obtain p where p: "base64_groups bs = map six (sextets bs) @ p" "set p \<subseteq> {CHR ''=''}"
    using groups_sextets by blast
  have "takeWhile (\<lambda>c. pr2six c \<le> 63) (base64_groups bs) = map six (sextets bs) @ takeWhile (\<lambda>c. pr2six c \<le> 63) p"
    unfolding p(1) by (rule takeWhile_append2) (use sextets_less pr2six_six(2) in auto)
  moreover have "takeWhile (\<lambda>c. pr2six c \<le> 63) p = []" using p(2) pr2six_eq by (cases p) auto
  moreover have "map pr2six (map six (sextets bs)) = sextets bs"
    using sextets_less pr2six_six(1) by (auto intro: map_idI)
  ultimately show ?thesis by (simp add: base64_decode_def decode_sextets)
qed

lemma base64_groups_chars: "c \<in> set (base64_groups bs) \<Longrightarrow> c \<noteq> CHR ''|''"
proof -
  assume c: "c \<in> set (base64_groups bs)"
  obtain p where p: "base64_groups bs = map six (sextets bs) @ p" "set p \<subseteq> {CHR ''=''}"
    using groups_sextets by blast
  then have "c = CHR ''='' \<or> (\<exists>k \<in> set (sextets bs). c = six k)" using c by auto
  then show ?thesis using sextets_less pr2six_six(3) by fastforce
qed

section \<open>Hashes as text\<close>

definition hash_toString :: "byte list \<Rightarrow> string" where
  "hash_toString h = hexPrint (buffer_of_data h) False False"

definition hex_decode_char :: "char \<Rightarrow> byte result" where
  "hex_decode_char c =
     (if code c \<ge> code CHR ''0'' \<and> code c \<le> code CHR ''9'' then Inr (of_nat (code c - code CHR ''0''))
      else if code c \<ge> code CHR ''A'' \<and> code c \<le> code CHR ''F'' then Inr (of_nat (code c - code CHR ''A'' + 10))
      else if code c \<ge> code CHR ''a'' \<and> code c \<le> code CHR ''f'' then Inr (of_nat (code c - code CHR ''a'' + 10))
      else Inl kRuntimeError)"

text \<open>The loop ends after twenty bytes; the terminator of the string is read after an odd character.\<close>

fun fromHex_loop :: "nat \<Rightarrow> string \<Rightarrow> byte list result" where
  "fromHex_loop 0 str = Inr []"
| "fromHex_loop (Suc room) [] = Inr []"
| "fromHex_loop (Suc room) [c] =
     bindE (hex_decode_char c) (\<lambda>hi. bindE (hex_decode_char (CHR 0x00)) (\<lambda>lo. Inr [push_bit 4 hi + lo]))"
| "fromHex_loop (Suc room) (c # d # str) =
     bindE (hex_decode_char c) (\<lambda>hi. bindE (hex_decode_char d) (\<lambda>lo.
       bindE (fromHex_loop room str) (\<lambda>h. Inr ((push_bit 4 hi + lo) # h))))"

definition fromHexString :: "string \<Rightarrow> byte list result" where
  "fromHexString str =
     bindE (fromHex_loop 20 str) (\<lambda>h. if length h \<noteq> 20 then Inl kRuntimeError else Inr h)"

fun sha1_compare_from :: "nat \<Rightarrow> byte list \<Rightarrow> byte list \<Rightarrow> int" where
  "sha1_compare_from 0 a b = 0"
| "sha1_compare_from (Suc i) a b =
     (if a ! i < b ! i then -1 else if a ! i > b ! i then 1 else sha1_compare_from i a b)"

definition sha1_compare :: "byte list \<Rightarrow> byte list \<Rightarrow> int" where
  "sha1_compare a b = sha1_compare_from 20 a b"

lemma hex_table_codes:
  "list_all (\<lambda>k. hex_decode_char (hexTable ! k) = Inr (of_nat k) \<and> hexTable ! k \<noteq> CHR ''|'') [0..<16]"
  by code_simp

lemma nibble_less:
  "unat (drop_bit 4 (x AND 0xf0)) < 16" "unat (x AND 0x0f) < 16" for x :: byte
proof -
  have "unat x < 256" using unsigned_less [of x, where ?'a = nat] by simp
  then show "unat (drop_bit 4 (x AND 0xf0)) < 16"
    by (simp only: and_low unat_drop_bit_eq) (simp add: drop_bit_eq_div)
  show "unat (x AND 0x0f) < 16"
    using take_bit_nat_less_exp [of 4 "unat x"] by (simp add: and_low unsigned_take_bit_eq)
qed

lemma fromHex_pair:
  "hex_decode_char (hexTable ! unat (drop_bit 4 (x AND 0xf0))) = Inr (drop_bit 4 x)"
  "hex_decode_char (hexTable ! unat (x AND 0x0f)) = Inr (take_bit 4 x)"
proof -
  have h: "hex_decode_char (hexTable ! k) = Inr (of_nat k)" if "k < 16" for k
    using hex_table_codes that by (simp add: list_all_iff)
  show "hex_decode_char (hexTable ! unat (drop_bit 4 (x AND 0xf0))) = Inr (drop_bit 4 x)"
    using h [OF nibble_less(1) [of x]] by (simp only: and_low of_nat_unat ucast_id)
  show "hex_decode_char (hexTable ! unat (x AND 0x0f)) = Inr (take_bit 4 x)"
    using h [OF nibble_less(2) [of x]] by (simp only: and_low of_nat_unat ucast_id)
qed

lemma fromHex_print:
  "fromHex_loop (length h) (hexPrint_loop False first h) = Inr h"
proof (induction h arbitrary: first)
  case (Cons x h)
  have "push_bit 4 (drop_bit 4 x) + take_bit 4 x = x" by (rule bits_ident)
  with Cons fromHex_pair [of x] show ?case by (simp add: hex_pair_def)
qed simp

lemma fromHexString_toString:
  assumes "length h = 20"
  shows "fromHexString (hash_toString h) = Inr h"
  using fromHex_print [of h True] assms
  by (simp add: fromHexString_def hash_toString_def hexPrint_def contents_def buffer_of_data_def)

lemma hex_decode_nul [simp]: "hex_decode_char (CHR 0x00) = Inl kRuntimeError"
  by (simp add: hex_decode_char_def)

lemma fromHex_loop_length: "fromHex_loop n str = Inr h \<Longrightarrow> 2 * length h \<le> length str"
  by (induction n str arbitrary: h rule: fromHex_loop.induct) (fastforce simp: bindE_eq_Inr)+

lemma fromHex_loop_take: "fromHex_loop n (take (2 * n) str) = fromHex_loop n str"
  by (induction n str rule: fromHex_loop.induct) (auto simp: bindE_def split: sum.split)

lemma fromHexString_take: "fromHexString (take 40 str) = fromHexString str"
  using fromHex_loop_take [of 20 str] by (simp add: fromHexString_def)

lemma fromHexString_length: "fromHexString str = Inr h \<Longrightarrow> 40 \<le> length str"
  using fromHex_loop_length [of 20 str h] by (auto simp: fromHexString_def bindE_eq_Inr split: if_splits)

lemma fromHexString_append: "fromHexString str = Inr h \<Longrightarrow> fromHexString (str @ junk) = Inr h"
  using fromHexString_length [of str h] fromHexString_take [of str] fromHexString_take [of "str @ junk"] by simp

lemma hash_toString_chars: "c \<in> set (hash_toString h) \<Longrightarrow> c \<noteq> CHR ''|''"
proof -
  have "c \<in> set (hexPrint_loop False first h) \<Longrightarrow> c \<noteq> CHR ''|''" for first h
    using hex_table_codes nibble_less
    by (induction h arbitrary: first) (auto simp: hex_pair_def list_all_iff)
  then show "c \<in> set (hash_toString h) \<Longrightarrow> c \<noteq> CHR ''|''"
    by (auto simp: hash_toString_def hexPrint_def)
qed

section \<open>Signed cookies\<close>

record secure_cookie =
  sc_data :: "byte list"
  sc_created_at :: u64

definition encodeWithoutEncryption :: "string \<Rightarrow> secure_cookie \<Rightarrow> string result" where
  "encodeWithoutEncryption secret_key cookie =
     bindE (base64_encode (sc_data cookie)) (\<lambda>b64.
       let out = b64 @ ''|'' @ to_string (unat (sc_created_at cookie)) @ ''|PLAIN||'';
           hmac = hmac_sha1 (bytes_of secret_key) (bytes_of out)
       in Inr (out @ hash_toString hmac))"

definition verify_parts :: "string \<Rightarrow> string \<Rightarrow> string list \<Rightarrow> secure_cookie option result" where
  "verify_parts secret_key data parts =
     (if length parts \<noteq> 5 then Inr None
      else
        (let pad_end = (case findLast data (CHR ''|'') of Some i \<Rightarrow> i + 1 | None \<Rightarrow> 0);
             pad_hmac = hmac_sha1 (bytes_of secret_key) (bytes_of (take pad_end data))
         in bindE (stoull (parts ! 1)) (\<lambda>(created_at, _).
            bindE (fromHexString (parts ! 4)) (\<lambda>hmac.
              if pad_hmac \<noteq> hmac then Inr None
              else if parts ! 2 = ''PLAIN''
              then Inr (Some \<lparr>sc_data = base64_decode (parts ! 0), sc_created_at = created_at\<rparr>)
              else Inr None))))"

definition decodeAndVerifyWithoutExpiration :: "string \<Rightarrow> string \<Rightarrow> secure_cookie option comp" where
  "decodeAndVerifyWithoutExpiration secret_key data =
     (case str_split data ''|'' of
        None \<Rightarrow> None
      | Some parts \<Rightarrow> Some (verify_parts secret_key data parts))"

definition decodeAndVerify :: "u64 \<Rightarrow> string \<Rightarrow> u64 \<Rightarrow> string \<Rightarrow> secure_cookie option comp" where
  "decodeAndVerify now secret_key expire_after data =
     bindC (decodeAndVerifyWithoutExpiration secret_key data) (\<lambda>cookie.
       case cookie of
         None \<Rightarrow> ret None
       | Some c \<Rightarrow>
           if sc_created_at c < now \<and> now - sc_created_at c > expire_after then ret None else ret cookie)"

lemma findLast_append:
  assumes "c \<notin> set ys"
  shows "findLast (xs @ c # ys) c = Some (length xs)"
proof -
  have "(xs @ c # ys) ! j \<noteq> c" if "length xs < j" "j < length (xs @ c # ys)" for j
    using that assms nth_mem [of "j - Suc (length xs)" ys] by (auto simp: nth_append nth_Cons')
  then show ?thesis unfolding findLast_def find_last_below_Some by auto
qed

lemma no_bar:
  "CHR ''|'' \<notin> set (to_string n)" "CHR ''|'' \<notin> set (base64_groups bs)" "CHR ''|'' \<notin> set (hash_toString h)"
  using to_string_digits [of "CHR ''|''" n] base64_groups_chars [of "CHR ''|''" bs]
    hash_toString_chars [of "CHR ''|''" h] by (auto simp: isdigit_def)

lemma verify_five:
  assumes "txt0 = pre @ CHR ''|'' # hex" "CHR ''|'' \<notin> set hex"
  shows "verify_parts key txt0 [b64, ts, alg, iv, hex] =
    bindE (stoull ts) (\<lambda>(created_at, _). bindE (fromHexString hex) (\<lambda>hmac.
      if hmac_sha1 (bytes_of key) (bytes_of (pre @ ''|'')) \<noteq> hmac then Inr None
      else if alg = ''PLAIN'' then Inr (Some \<lparr>sc_data = base64_decode b64, sc_created_at = created_at\<rparr>)
      else Inr None))"
proof -
  have "take (length pre + 1) txt0 = pre @ ''|''" using assms(1) by simp
  then show ?thesis
    by (simp add: verify_parts_def Let_def assms(1) findLast_append [OF assms(2)] cong: if_cong)
qed

lemma verify_encoded:
  assumes "encodeWithoutEncryption key c = Inr txt0"
  shows "decodeAndVerifyWithoutExpiration key txt0 = ret (Some c)"
proof -
  let ?b64 = "base64_groups (sc_data c)" and ?ts = "to_string (unat (sc_created_at c))"
  let ?pre = "?b64 @ ''|'' @ ?ts @ ''|PLAIN|''"
  let ?out = "?pre @ ''|''"
  let ?hmac = "hmac_sha1 (bytes_of key) (bytes_of ?out)"
  let ?parts = "[?b64, ?ts, ''PLAIN'', [], hash_toString ?hmac]"
  have txt0: "txt0 = ?out @ hash_toString ?hmac"
    using assms by (auto simp: encodeWithoutEncryption_def base64_encode_def Let_def split: if_splits)
  then have "txt0 = str_join ?parts ''|''" by simp
  moreover have "\<forall>p \<in> set ?parts. CHR ''|'' \<notin> set p"
    by (simp add: no_bar)
  ultimately have "str_split txt0 ''|'' = Some ?parts" using split_join_chr [of ?parts "CHR ''|''"] by simp
  moreover have "txt0 = ?pre @ CHR ''|'' # hash_toString ?hmac" using txt0 by simp
  note verify_five [OF this no_bar(3)]
  then have "verify_parts key txt0 ?parts = Inr (Some c)"
    using fromHexString_toString [of ?hmac] unsigned_less [of "sc_created_at c", where ?'a = nat]
    by (simp only: bindE_simps length_hmac simp_thms if_False if_True stoull_to_string prod.case
        base64_decode_groups) (simp add: base64_decode_groups)
  ultimately show ?thesis by (simp add: decodeAndVerifyWithoutExpiration_def)
qed

section \<open>Properties\<close>

text \<open>Decoding what \<open>Base64::encode\<close> wrote gives the bytes back, for every input of two bytes or more;
  shorter inputs are read out of bounds.\<close>

theorem base64_roundtrip:
  "if length bs < 2 then base64_encode bs = Inl UndefinedBehaviour
   else \<exists>txt0. base64_encode bs = Inr txt0 \<and> base64_decode txt0 = bs"
  by (simp add: base64_encode_def base64_decode_groups)

text \<open>A signed cookie is accepted: whatever its data (of two bytes or more), its time and the key,
  the encoded cookie is verified with the same key and decoded to the same cookie, until it expires.\<close>

theorem secure_cookie_roundtrip:
  assumes "2 \<le> length (sc_data c)"
  shows "\<exists>txt0. encodeWithoutEncryption key c = Inr txt0 \<and>
    decodeAndVerify now key expire_after txt0 =
      ret (if sc_created_at c < now \<and> now - sc_created_at c > expire_after then None else Some c)"
proof -
  obtain txt0 where "encodeWithoutEncryption key c = Inr txt0"
    using assms by (auto simp: encodeWithoutEncryption_def base64_encode_def Let_def)
  with verify_encoded [OF this] show ?thesis by (simp add: decodeAndVerify_def)
qed

theorem secure_cookie_roundtrip_witness:
  "\<exists>txt0. encodeWithoutEncryption ''key'' \<lparr>sc_data = [1, 2, 3], sc_created_at = 7\<rparr> = Inr txt0 \<and>
    decodeAndVerify 9 ''key'' 5 txt0 = ret (Some \<lparr>sc_data = [1, 2, 3], sc_created_at = 7\<rparr>)"
  using secure_cookie_roundtrip [of "\<lparr>sc_data = [1, 2, 3], sc_created_at = 7\<rparr>" "''key''" 9 5] by simp

text \<open>C24. Only signed text is accepted: when \<open>decodeAndVerify\<close> returns a cookie, the text has five parts between
  bars, the third of them \<open>PLAIN\<close>, the first 40 characters of the last part are the hexadecimal digits of the HMAC of
  exactly the text up to and including the last bar under the key, and the cookie's data and time are decoded from
  parts of the signed text. The characters of the last part after the 40th are neither signed nor looked at.\<close>

theorem secure_cookie_authentic:
  assumes "decodeAndVerify now key expire_after txt0 = ret (Some c)"
  shows "\<exists>b64 ts iv hex n. txt0 = b64 @ ''|'' @ ts @ ''|PLAIN|'' @ iv @ ''|'' @ hex \<and>
    40 \<le> length hex \<and>
    fromHexString (take 40 hex) = Inr (hmac_sha1 (bytes_of key) (bytes_of (b64 @ ''|'' @ ts @ ''|PLAIN|'' @ iv @ ''|''))) \<and>
    base64_decode b64 = sc_data c \<and> stoull ts = Inr (sc_created_at c, n)"
proof -
  obtain ps where ps: "str_split txt0 ''|'' = Some ps" "str_join ps ''|'' = txt0"
    "\<forall>p \<in> set ps. \<not> sublist ''|'' p"
    by (rule str_split_ok [of "''|''" txt0]) auto
  have v: "verify_parts key txt0 ps = Inr (Some c)"
    using assms ps(1)
    by (auto simp: decodeAndVerify_def decodeAndVerifyWithoutExpiration_def bindC_def
        split: if_splits option.splits sum.splits)
  then have "length ps = 5" by (auto simp: verify_parts_def split: if_splits)
  then obtain b64 ts alg iv hex where p: "ps = [b64, ts, alg, iv, hex]"
    by (auto simp: length_Suc_conv numeral_eq_Suc)
  let ?pre = "b64 @ ''|'' @ ts @ ''|'' @ alg @ ''|'' @ iv"
  have t: "txt0 = ?pre @ CHR ''|'' # hex" using ps(2) p by simp
  have "CHR ''|'' \<notin> set hex" using ps(3) p by simp
  from v [unfolded p verify_five [OF t this]]
  have e: "alg = ''PLAIN''" "\<exists>n. stoull ts = Inr (sc_created_at c, n)" "base64_decode b64 = sc_data c"
    "fromHexString hex = Inr (hmac_sha1 (bytes_of key) (bytes_of (?pre @ ''|'')))"
    by (auto simp: result_simps split: if_splits prod.splits)
  with t fromHexString_length [OF e(4)] show ?thesis
    by (intro exI [of _ b64] exI [of _ ts] exI [of _ iv] exI [of _ hex]) (auto simp: fromHexString_take)
qed

theorem secure_cookie_authentic_witness:
  "\<exists>txt0 b64 ts iv hex. encodeWithoutEncryption ''key'' \<lparr>sc_data = [1, 2, 3], sc_created_at = 7\<rparr> = Inr txt0 \<and>
    decodeAndVerify 7 ''key'' 5 txt0 = ret (Some \<lparr>sc_data = [1, 2, 3], sc_created_at = 7\<rparr>) \<and>
    txt0 = b64 @ ''|'' @ ts @ ''|PLAIN|'' @ iv @ ''|'' @ hex \<and>
    fromHexString (take 40 hex) = Inr (hmac_sha1 (bytes_of ''key'') (bytes_of (b64 @ ''|'' @ ts @ ''|PLAIN|'' @ iv @ ''|''))) \<and>
    base64_decode b64 = [1, 2, 3]"
proof -
  let ?c = "\<lparr>sc_data = [1, 2, 3], sc_created_at = 7\<rparr>"
  obtain txt0 where e: "encodeWithoutEncryption ''key'' ?c = Inr txt0"
    by (auto simp: encodeWithoutEncryption_def base64_encode_def Let_def)
  then have d: "decodeAndVerify 7 ''key'' 5 txt0 = ret (Some ?c)"
    using verify_encoded [OF e] by (simp add: decodeAndVerify_def)
  from secure_cookie_authentic [OF d] obtain b64 ts iv hex where
    "txt0 = b64 @ ''|'' @ ts @ ''|PLAIN|'' @ iv @ ''|'' @ hex"
    "fromHexString (take 40 hex) = Inr (hmac_sha1 (bytes_of ''key'') (bytes_of (b64 @ ''|'' @ ts @ ''|PLAIN|'' @ iv @ ''|'')))"
    "base64_decode b64 = sc_data ?c" by blast
  with d e show ?thesis
    by (intro exI [of _ txt0] exI [of _ b64] exI [of _ ts] exI [of _ iv] exI [of _ hex]) simp
qed

text \<open>Whatever follows the forty digits of a hash is ignored, so that a text can be accepted that does not end in the
  HMAC of what is before it.\<close>

theorem hash_trailing_ignored:
  assumes "length h = 20"
  shows "fromHexString (hash_toString h @ junk) = Inr h"
  using fromHexString_append [OF fromHexString_toString [OF assms]] .

theorem hash_trailing_ignored_witness:
  "fromHexString (hash_toString (replicate 20 1) @ ''unsigned'') = Inr (replicate 20 1)"
  using hash_trailing_ignored [of "replicate 20 1"] by simp

end
