(* ===== verification/Stx_Time.thy ===== *)
theory Stx_Time
  imports Stx_StringUtil
begin

text \<open>
  Civil time, ISO 8601 text, durations and Unix time: \<open>CivilTime.h\<close>, \<open>ISO8601.cc\<close>, \<open>UnixTime.cc\<close>,
  \<open>duration_impl.h\<close>, \<open>duration.cc\<close>. The parser works on the rest of a zero-terminated string, its
  \<open>begin\<close> pointer being the head of the rest. \<open>strptime\<close> and \<open>strftime\<close> are functions of the C library.
\<close>

section \<open>Constants and civil time\<close>

definition kMicrosPerSecond :: int where "kMicrosPerSecond = 1000000"
definition kMicrosPerMinute :: int where "kMicrosPerMinute = 60 * kMicrosPerSecond"
definition kMicrosPerHour :: int where "kMicrosPerHour = 60 * kMicrosPerMinute"
definition kMicrosPerDay :: int where "kMicrosPerDay = 24 * kMicrosPerHour"
definition kMicrosPerWeek :: int where "kMicrosPerWeek = 7 * kMicrosPerDay"
definition kMicrosPerYear :: int where "kMicrosPerYear = 365 * kMicrosPerDay"
definition kSecondsPerHour :: int where "kSecondsPerHour = 3600"
definition kSecondsPerMinute :: int where "kSecondsPerMinute = 60"

text \<open>The fields are natural numbers; the source keeps the year in sixteen bits and the others in eight or sixteen.\<close>

record civil_time =
  ct_year :: nat
  ct_month :: nat
  ct_day :: nat
  ct_hour :: nat
  ct_minute :: nat
  ct_second :: nat
  ct_millisecond :: nat
  ct_offset :: int

definition civil_zero :: civil_time where
  "civil_zero = \<lparr>ct_year = 0, ct_month = 0, ct_day = 0, ct_hour = 0, ct_minute = 0, ct_second = 0,
     ct_millisecond = 0, ct_offset = 0\<rparr>"

section \<open>ISO8601\<close>

definition isLeapYear :: "nat \<Rightarrow> bool" where
  "isLeapYear year \<longleftrightarrow> (year mod 4 = 0 \<and> year mod 100 \<noteq> 0) \<or> year mod 400 = 0"

definition daysInMonth :: "nat \<Rightarrow> nat \<Rightarrow> nat" where
  "daysInMonth year month =
     (if month = 2 then 28 + (if isLeapYear year then 1 else 0) else 31 - (month - 1) mod 7 mod 2)"

definition digits_at :: "nat \<Rightarrow> string \<Rightarrow> bool" where
  "digits_at n r \<longleftrightarrow> length (take n r) = n \<and> isDigitString (take n r)"

text \<open>Each parser returns whether it succeeded, with the fields it has set.\<close>

definition parseTimeOffset :: "string \<Rightarrow> civil_time \<Rightarrow> bool \<times> civil_time" where
  "parseTimeOffset r d =
     (if length r = 1 \<and> (hd r = CHR ''z'' \<or> hd r = CHR ''Z'') then (True, d\<lparr>ct_offset := 0\<rparr>)
      else if r = [] \<or> (hd r \<noteq> CHR ''+'' \<and> hd r \<noteq> CHR ''-'') then (False, d)
      else
        (let sign = (if hd r = CHR ''+'' then 1 else -1)
         in if \<not> digits_at 2 (drop 1 r) then (False, d)
            else
              (case stoi (take 2 (drop 1 r)) of
                 Inl _ \<Rightarrow> (False, d)
               | Inr hour \<Rightarrow>
                   if \<not> (0 \<le> hour \<and> hour \<le> 24) then (False, d)
                   else if length r < 6 \<or> r ! 3 \<noteq> CHR '':'' \<or> \<not> digits_at 2 (drop 4 r) then (False, d)
                   else
                     (case stoi (take 2 (drop 4 r)) of
                        Inl _ \<Rightarrow> (False, d)
                      | Inr minute \<Rightarrow>
                          if 0 \<le> minute \<and> minute \<le> 59
                          then (True, d\<lparr>ct_offset := sign * (hour * kSecondsPerHour + minute * kSecondsPerMinute)\<rparr>)
                          else (False, d)))))"

definition parseSecondFrac :: "string \<Rightarrow> civil_time \<Rightarrow> bool \<times> civil_time" where
  "parseSecondFrac r d =
     (if r = [] \<or> hd r \<noteq> CHR ''.'' then (False, d)
      else
        (let frac = takeWhile isdigit (tl r)
         in if length frac < 1 \<or> length frac > 3 then (False, d)
            else
              (case stoul frac of
                 Inl _ \<Rightarrow> (False, d)
               | Inr millis \<Rightarrow>
                   parseTimeOffset (drop (length frac) (tl r))
                     (d\<lparr>ct_millisecond := unat millis * 10 ^ (3 - length frac)\<rparr>))))"

definition parseSecond :: "string \<Rightarrow> civil_time \<Rightarrow> bool \<times> civil_time" where
  "parseSecond r d =
     (if r = [] \<or> hd r \<noteq> CHR '':'' \<or> \<not> digits_at 2 (tl r) then (False, d)
      else
        (case stoi (take 2 (tl r)) of
           Inl _ \<Rightarrow> (False, d)
         | Inr second \<Rightarrow>
             if 0 \<le> second \<and> second \<le> 59
             then
               (let (ok, d) = parseSecondFrac (drop 3 r) (d\<lparr>ct_second := nat second\<rparr>)
                in if ok then (True, d) else parseTimeOffset (drop 3 r) d)
             else (False, d)))"

definition parseMinute :: "string \<Rightarrow> civil_time \<Rightarrow> bool \<times> civil_time" where
  "parseMinute r d =
     (if r = [] \<or> hd r \<noteq> CHR '':'' \<or> \<not> digits_at 2 (tl r) then (False, d)
      else
        (case stoi (take 2 (tl r)) of
           Inl _ \<Rightarrow> (False, d)
         | Inr minute \<Rightarrow>
             if 0 \<le> minute \<and> minute \<le> 59 then parseSecond (drop 3 r) (d\<lparr>ct_minute := nat minute\<rparr>)
             else (False, d)))"

definition parseHour :: "string \<Rightarrow> civil_time \<Rightarrow> bool \<times> civil_time" where
  "parseHour r d =
     (if r = [] \<or> (hd r \<noteq> CHR ''T'' \<and> hd r \<noteq> CHR ''t'') \<or> \<not> digits_at 2 (tl r) then (False, d)
      else
        (case stoi (take 2 (tl r)) of
           Inl _ \<Rightarrow> (False, d)
         | Inr hour \<Rightarrow>
             if 0 \<le> hour \<and> hour \<le> 24 then parseMinute (drop 3 r) (d\<lparr>ct_hour := nat hour\<rparr>)
             else (False, d)))"

text \<open>
  \<open>parseDay\<close> copies two characters before it looks at them: after a final minus sign the copy reaches
  past the terminator. The number of days is looked up with the day in place of the month.
\<close>

definition parseDay :: "string \<Rightarrow> civil_time \<Rightarrow> (bool \<times> civil_time) result" where
  "parseDay r d =
     (if r = [] \<or> hd r \<noteq> CHR ''-'' then Inr (False, d)
      else if tl r = [] then Inl UndefinedBehaviour
      else if \<not> digits_at 2 (tl r) then Inr (False, d)
      else
        (case stoi (take 2 (tl r)) of
           Inl _ \<Rightarrow> Inr (False, d)
         | Inr day \<Rightarrow>
             if day > 0 \<and> day \<le> int (daysInMonth (ct_year d) (nat day))
             then
               (let d = d\<lparr>ct_day := nat day\<rparr>
                in Inr (if drop 3 r \<noteq> [] then parseHour (drop 3 r) d else (True, d)))
             else Inr (False, d)))"

definition parseMonth :: "string \<Rightarrow> civil_time \<Rightarrow> (bool \<times> civil_time) result" where
  "parseMonth r d =
     (if length r < 3 \<or> hd r \<noteq> CHR ''-'' \<or> \<not> digits_at 2 (tl r) then Inr (False, d)
      else
        (case stoi (take 2 (tl r)) of
           Inl _ \<Rightarrow> Inr (False, d)
         | Inr month \<Rightarrow>
             if month > 0 \<and> month < 13
             then
               (let d = d\<lparr>ct_month := nat month\<rparr>
                in if drop 3 r \<noteq> [] then parseDay (drop 3 r) d else Inr (True, d))
             else Inr (False, d)))"

definition parseYear :: "string \<Rightarrow> civil_time \<Rightarrow> (bool \<times> civil_time) result" where
  "parseYear r d =
     (if \<not> digits_at 4 r then Inr (False, d)
      else
        (case stoi (take 4 r) of
           Inl _ \<Rightarrow> Inr (False, d)
         | Inr year \<Rightarrow>
             (let d = d\<lparr>ct_year := nat year\<rparr>
              in if drop 4 r \<noteq> [] then parseMonth (drop 4 r) d else Inr (True, d))))"

definition iso8601_parse :: "string \<Rightarrow> civil_time option result" where
  "iso8601_parse str = bindE (parseYear str civil_zero) (\<lambda>(ok, d). Inr (if ok then Some d else None))"

section \<open>UnixTime and Duration\<close>

definition days_of_years :: "nat \<Rightarrow> nat" where
  "days_of_years year = sum_list (map (\<lambda>i. 365 + (if isLeapYear i then 1 else 0)) [1970..<year])"

definition days_of_months :: "nat \<Rightarrow> nat \<Rightarrow> nat" where
  "days_of_months year month = sum_list (map (daysInMonth year) [1..<month])"

definition civil_days :: "civil_time \<Rightarrow> int" where
  "civil_days c =
     int (ct_day c) - 1 + int (days_of_years (ct_year c)) + int (days_of_months (ct_year c) (ct_month c))"

text \<open>All of the arithmetic of the constructor is modulo \<open>2 ^ 64\<close>.\<close>

definition unix_of_civil :: "civil_time \<Rightarrow> u64" where
  "unix_of_civil c =
     word_of_int (civil_days c * kMicrosPerDay + int (ct_hour c) * kMicrosPerHour +
       int (ct_minute c) * kMicrosPerMinute + int (ct_second c) * kMicrosPerSecond +
       int (ct_millisecond c) * 1000 + ct_offset c * kMicrosPerSecond * -1)"

definition time_minus :: "u64 \<Rightarrow> u64 \<Rightarrow> u64" where
  "time_minus a b = (if a > b then a - b else b - a)"

definition dur_milliseconds :: "u64 \<Rightarrow> u64" where "dur_milliseconds d = d div 1000"
definition dur_seconds :: "u64 \<Rightarrow> u64" where "dur_seconds d = d div 1000000"
definition dur_minutes :: "u64 \<Rightarrow> u64" where "dur_minutes d = dur_seconds d div 60"
definition dur_hours :: "u64 \<Rightarrow> u64" where "dur_hours d = dur_minutes d div 60"
definition dur_days :: "u64 \<Rightarrow> u64" where "dur_days d = dur_hours d div 24"

definition fromDays :: "u64 \<Rightarrow> u64" where "fromDays v = v * 1000000 * 86400"
definition fromHours :: "u64 \<Rightarrow> u64" where "fromHours v = v * 1000000 * 3600"
definition fromMinutes :: "u64 \<Rightarrow> u64" where "fromMinutes v = v * 1000000 * 60"
definition fromSeconds :: "u64 \<Rightarrow> u64" where "fromSeconds v = v * 1000000"
definition fromMilliseconds :: "u64 \<Rightarrow> u64" where "fromMilliseconds v = v * 1000"

text \<open>\<open>inspect\<close>: the counter \<open>i\<close> is not advanced after the years.\<close>

definition dur_part :: "nat \<Rightarrow> string \<Rightarrow> nat \<times> string \<Rightarrow> nat \<times> string" where
  "dur_part v unit_name acc =
     (if v \<noteq> 0 then (fst acc + 1, snd acc @ (if fst acc > 0 then '' '' else []) @ to_string v @ unit_name) else acc)"

definition dur_inspect :: "u64 \<Rightarrow> string" where
  "dur_inspect d =
     (let years = unat (dur_days d) div 365;
          days = unat (dur_days d) mod 365;
          hours = unat (dur_hours d) mod 24;
          minutes = unat (dur_minutes d) mod 60;
          seconds = unat (dur_seconds d) mod 60;
          msecs = unat (dur_milliseconds d) mod 1000;
          acc = (0, if years \<noteq> 0 then to_string years @ '' years'' else []);
          acc = dur_part days '' days'' acc;
          acc = dur_part hours '' hours'' acc;
          acc = dur_part minutes '' minutes'' acc;
          acc = dur_part seconds '' seconds'' acc
      in snd (dur_part msecs ''ms'' acc))"

section \<open>The calendar\<close>

lemma daysInMonth_table:
  "map (daysInMonth y) [1..<13] = [31, if isLeapYear y then 29 else 28, 31, 30, 31, 30, 31, 31, 30, 31, 30, 31]"
  by (simp add: daysInMonth_def upt_rec)

lemma daysInMonth_ge: "28 \<le> daysInMonth y m"
proof -
  have "(m - 1) mod 7 mod 2 < 2" by simp
  then have "28 \<le> 31 - (m - 1) mod 7 mod 2" by linarith
  then show ?thesis unfolding daysInMonth_def by (cases "m = 2") (simp_all only: if_True if_False, simp)
qed

lemma days_of_months_12: "days_of_months y 13 = 365 + (if isLeapYear y then 1 else 0)"
  unfolding days_of_months_def daysInMonth_table by simp

lemma days_of_months_Suc: "1 \<le> m \<Longrightarrow> days_of_months y (Suc m) = days_of_months y m + daysInMonth y m"
  by (simp add: days_of_months_def)

lemma days_of_years_Suc:
  "1970 \<le> y \<Longrightarrow> days_of_years (Suc y) = days_of_years y + 365 + (if isLeapYear y then 1 else 0)"
  by (simp add: days_of_years_def)

lemma leap_step:
  fixes D D' L :: nat
  assumes "D' = D + 365 + L" "L + c100 = c4 + c400" "k' = Suc k" "D + 477 + e100 = 365 * k + e4 + e400"
  shows "D' + 477 + (e100 + c100) = 365 * k' + (e4 + c4) + (e400 + c400)"
  using assms by linarith

lemma days_of_years_closed:
  assumes "1970 \<le> y"
  shows "days_of_years y + 477 + (y - 1) div 100 = 365 * (y - 1970) + (y - 1) div 4 + (y - 1) div 400"
  using assms
proof (induction y rule: dec_induct)
  case base
  then show ?case by (simp add: days_of_years_def)
next
  case (step y)
  obtain x where y: "y = Suc x" using step.hyps(1) by (cases y) auto
  have m: "y mod 400 = 0 \<Longrightarrow> y mod 100 = 0" "y mod 100 = 0 \<Longrightarrow> y mod 4 = 0"
    using dvd_trans [of 100 400 y] dvd_trans [of 4 100 y] by (simp_all add: dvd_eq_mod_eq_0)
  have d: "y div k = x div k + (if y mod k = 0 then 1 else 0)" for k unfolding y by (simp add: div_Suc)
  have "days_of_years (Suc y) = days_of_years y + 365 + (if isLeapYear y then 1 else 0)"
    using step.hyps(1) by (rule days_of_years_Suc)
  moreover have "(if isLeapYear y then 1 else 0) + (if y mod 100 = 0 then 1 else 0) =
      (if y mod 4 = 0 then 1 else 0) + (if y mod 400 = 0 then 1 else (0 :: nat))"
    using m by (auto simp: isLeapYear_def)
  moreover have "Suc y - 1970 = Suc (y - 1970)" using step.hyps(1) by simp
  moreover have "days_of_years y + 477 + x div 100 = 365 * (y - 1970) + x div 4 + x div 400"
    using step.IH unfolding y diff_Suc_1 .
  ultimately show ?case unfolding diff_Suc_1 d [of 4] d [of 100] d [of 400] by (rule leap_step)
qed

subsection \<open>The Gregorian calendar\<close>

text \<open>The calendar itself, independent of the code: the lengths of the months, the leap years, and the day after a date.\<close>

definition gregorian_leap :: "nat \<Rightarrow> bool" where
  "gregorian_leap y \<longleftrightarrow> 4 dvd y \<and> (100 dvd y \<longrightarrow> 400 dvd y)"

definition month_length :: "nat \<Rightarrow> nat \<Rightarrow> nat" where
  "month_length y m =
     [31, if gregorian_leap y then 29 else 28, 31, 30, 31, 30, 31, 31, 30, 31, 30, 31] ! (m - 1)"

definition valid_date :: "civil_time \<Rightarrow> bool" where
  "valid_date c \<longleftrightarrow> 1970 \<le> ct_year c \<and> 1 \<le> ct_month c \<and> ct_month c \<le> 12 \<and> 1 \<le> ct_day c \<and>
     ct_day c \<le> month_length (ct_year c) (ct_month c)"

definition next_day :: "civil_time \<Rightarrow> civil_time" where
  "next_day c =
     (if ct_day c < month_length (ct_year c) (ct_month c) then c\<lparr>ct_day := ct_day c + 1\<rparr>
      else if ct_month c < 12 then c\<lparr>ct_month := ct_month c + 1, ct_day := 1\<rparr>
      else c\<lparr>ct_year := ct_year c + 1, ct_month := 1, ct_day := 1\<rparr>)"

lemma isLeapYear_gregorian: "isLeapYear y = gregorian_leap y"
proof -
  have "400 dvd y \<Longrightarrow> 4 dvd y" by (rule dvd_trans [of 4 400]) simp
  then show ?thesis by (cases "400 dvd y") (simp_all add: isLeapYear_def gregorian_leap_def flip: dvd_eq_mod_eq_0)
qed

lemma daysInMonth_calendar: "1 \<le> m \<Longrightarrow> m \<le> 12 \<Longrightarrow> daysInMonth y m = month_length y m"
proof -
  assume m: "1 \<le> m" "m \<le> 12"
  then have "daysInMonth y m = map (daysInMonth y) [1..<13] ! (m - 1)" by simp
  then show ?thesis unfolding daysInMonth_table isLeapYear_gregorian month_length_def .
qed

lemma civil_days_next:
  assumes "valid_date c"
  shows "civil_days (next_day c) = civil_days c + 1"
proof -
  have len: "daysInMonth (ct_year c) (ct_month c) = month_length (ct_year c) (ct_month c)"
    using assms daysInMonth_calendar by (simp add: valid_date_def)
  consider "ct_day c < month_length (ct_year c) (ct_month c)"
    | "ct_day c = month_length (ct_year c) (ct_month c)" "ct_month c < 12"
    | "ct_day c = month_length (ct_year c) (ct_month c)" "ct_month c = 12"
    using assms unfolding valid_date_def by linarith
  then show ?thesis
  proof cases
    case 1
    then show ?thesis by (simp add: next_day_def civil_days_def)
  next
    case 2
    then show ?thesis using assms days_of_months_Suc [of "ct_month c" "ct_year c"]
      by (simp add: next_day_def civil_days_def valid_date_def len)
  next
    case 3
    have "days_of_months y 1 = 0" for y by (simp add: days_of_months_def)
    with 3 show ?thesis
      using assms days_of_months_Suc [of 12 "ct_year c"] days_of_months_12 [of "ct_year c"]
        days_of_years_Suc [of "ct_year c"] len
      by (simp add: next_day_def civil_days_def valid_date_def)
  qed
qed

lemma valid_next_day: "valid_date c \<Longrightarrow> valid_date (next_day c)"
  using daysInMonth_ge [of "ct_year c" "Suc (ct_month c)"] daysInMonth_ge [of "Suc (ct_year c)" 1]
    daysInMonth_calendar [of "Suc (ct_month c)" "ct_year c"] daysInMonth_calendar [of 1 "Suc (ct_year c)"]
  by (auto simp: valid_date_def next_day_def)

section \<open>Reading ISO 8601 text\<close>

definition two :: "nat \<Rightarrow> string" where
  "two n = [digit_char (n div 10), digit_char (n mod 10)]"

definition three :: "nat \<Rightarrow> string" where
  "three n = digit_char (n div 100) # two (n mod 100)"

definition four :: "nat \<Rightarrow> string" where
  "four n = two (n div 100) @ two (n mod 100)"

lemma two_digits:
  assumes "n < 100"
  shows "length (two n) = 2" "list_all isdigit (two n)" "digits_value (two n) = n"
  using assms by (simp_all add: two_def digits_value_def)

lemma four_digits:
  assumes "n < 10000"
  shows "length (four n) = 4" "list_all isdigit (four n)" "digits_value (four n) = n"
  using assms by (simp_all add: four_def two_def digits_value_def)

lemma three_digits:
  assumes "n < 1000"
  shows "length (three n) = 3" "list_all isdigit (three n)" "digits_value (three n) = n"
  using assms by (simp_all add: three_def two_def digits_value_def)

lemma strto_prefix_digits:
  assumes "list_all isdigit ds" "ds \<noteq> []"
  shows "strto_prefix ds = Some (False, ds, length ds)"
proof -
  obtain c cs where ds: "ds = c # cs" using assms(2) by (cases ds) auto
  then have "isdigit c" using assms(1) by simp
  moreover have tw: "takeWhile isdigit cs = cs" using assms(1) ds by (simp add: takeWhile_eq_all_conv list_all_iff)
  ultimately show ?thesis
    using isdigit_not_space [of c] isdigit_not_sign [of c] by (simp add: strto_prefix_def ds Let_def tw)
qed

lemma stoi_digits:
  assumes "list_all isdigit ds" "ds \<noteq> []" "digits_value ds < 10000"
  shows "stoi ds = Inr (int (digits_value ds))"
  using assms by (simp add: stoi_def strto_prefix_digits)

lemma stoul_digits:
  assumes "list_all isdigit ds" "ds \<noteq> []" "digits_value ds < 1000"
  shows "stoul ds = Inr (word_of_nat (digits_value ds))"
  using assms by (simp add: stoul_def stoull_def strto_prefix_digits)

lemma stoi_two [simp]: "n < 100 \<Longrightarrow> stoi (two n) = Inr (int n)"
  using stoi_digits [of "two n"] two_digits [of n] by (simp add: two_def)

lemma stoi_four [simp]: "n < 10000 \<Longrightarrow> stoi (four n) = Inr (int n)"
  using stoi_digits [of "four n"] four_digits [of n] by (simp add: four_def two_def)

lemma digits_at_two [simp]: "n < 100 \<Longrightarrow> digits_at 2 (two n @ r)"
  using two_digits [of n] by (simp add: digits_at_def isDigitString_def)

lemma digits_at_four [simp]: "n < 10000 \<Longrightarrow> digits_at 4 (four n @ r)"
  using four_digits [of n] by (simp add: digits_at_def isDigitString_def)

lemma take_two [simp]: "take 2 (two n @ r) = two n" "drop 2 (two n @ r) = r" "length (two n) = 2"
  by (simp_all add: two_def)

lemma take_four [simp]: "take 4 (four n @ r) = four n" "drop 4 (four n @ r) = r" "length (four n) = 4"
  by (simp_all add: four_def two_def)

text \<open>The text of a time with a fraction of three digits and a numeric offset.\<close>

definition offset_text :: "int \<Rightarrow> string" where
  "offset_text off =
     (if off < 0 then ''-'' else ''+'') @ two (nat (abs off) div 3600) @ '':'' @ two (nat (abs off) mod 3600 div 60)"

definition iso_date_text :: "civil_time \<Rightarrow> string" where
  "iso_date_text c = four (ct_year c) @ ''-'' @ two (ct_month c) @ ''-'' @ two (ct_day c)"

definition iso_text :: "civil_time \<Rightarrow> string" where
  "iso_text c = iso_date_text c @ ''T'' @ two (ct_hour c) @ '':'' @ two (ct_minute c) @ '':'' @ two (ct_second c) @
     ''.'' @ three (ct_millisecond c) @ offset_text (ct_offset c)"

definition iso_fields :: "civil_time \<Rightarrow> bool" where
  "iso_fields c \<longleftrightarrow> ct_year c < 10000 \<and> 1 \<le> ct_month c \<and> ct_month c \<le> 12 \<and> 1 \<le> ct_day c \<and> ct_day c \<le> 31 \<and>
     ct_hour c \<le> 24 \<and> ct_minute c \<le> 59 \<and> ct_second c \<le> 59 \<and> ct_millisecond c < 1000 \<and>
     ct_offset c mod 60 = 0 \<and> abs (ct_offset c) < 25 * 3600"

lemma hour_minute: "n mod 60 = 0 \<Longrightarrow> n div 3600 * 3600 + n mod 3600 div 60 * 60 = (n :: nat)"
proof -
  assume "n mod 60 = 0"
  then have "n mod 3600 mod 60 = 0" by (simp add: mod_mod_cancel)
  then have "n mod 3600 div 60 * 60 = n mod 3600" using div_mult_mod_eq [of "n mod 3600" 60] by linarith
  then show ?thesis using div_mult_mod_eq [of n 3600] by linarith
qed

lemma parseTimeOffset_signed:
  assumes "h \<le> 24" "m < 60"
  shows "s = CHR ''+'' \<or> s = CHR ''-'' \<Longrightarrow> parseTimeOffset (s # two h @ CHR '':'' # two m) d =
    (True, d\<lparr>ct_offset := (if s = CHR ''+'' then 1 else -1) * (int h * 3600 + int m * 60)\<rparr>)"
proof -
  have "drop 4 (s # two h @ CHR '':'' # two m) = two m" "(s # two h @ CHR '':'' # two m) ! 3 = CHR '':''"
    by (simp_all add: drop_Cons' nth_Cons' nth_append)
  moreover have "digits_at 2 (two m)" using digits_at_two [of m "[]"] assms(2) by simp
  ultimately show "s = CHR ''+'' \<or> s = CHR ''-'' \<Longrightarrow> ?thesis"
    using assms by (auto simp: parseTimeOffset_def kSecondsPerHour_def kSecondsPerMinute_def Let_def)
qed

lemma parseTimeOffset_text:
  assumes "off mod 60 = 0" "abs off < 25 * 3600"
  shows "parseTimeOffset (offset_text off) d = (True, d\<lparr>ct_offset := off\<rparr>)"
proof -
  let ?n = "nat (abs off)"
  let ?h = "?n div 3600" and ?m = "?n mod 3600 div 60"
  have b: "?h \<le> 24" "?m < 60" using assms(2) by linarith+
  have "60 dvd abs off" using mod_0_imp_dvd [OF assms(1)] by (simp only: dvd_abs_iff)
  then obtain k where "abs off = 60 * k" by (rule dvdE)
  then have "?n = 60 * nat k" by (simp add: nat_mult_distrib)
  then have "?n mod 60 = 0" by simp
  then have hm: "?h * 3600 + ?m * 60 = ?n" by (rule hour_minute)
  have "int ?h * 3600 + int ?m * 60 = int (?h * 3600 + ?m * 60)" by (simp only: of_nat_add of_nat_mult of_nat_numeral)
  also have "\<dots> = abs off" by (simp only: hm)
  finally have v: "int ?h * 3600 + int ?m * 60 = abs off" .
  obtain s where s: "offset_text off = s # two ?h @ CHR '':'' # two ?m"
    "s = CHR ''+'' \<and> 0 \<le> off \<or> s = CHR ''-'' \<and> off < 0"
    by (cases "off < 0") (auto simp: offset_text_def)
  from s(2) show ?thesis
    unfolding s(1) using parseTimeOffset_signed [OF b, of s d] v by (elim disjE conjE) (simp_all only: v, simp_all)
qed


lemma parseSecond_text:
  assumes "ct_second c \<le> 59" "ct_millisecond c < 1000" "ct_offset c mod 60 = 0" "abs (ct_offset c) < 25 * 3600"
  shows "parseSecond ('':'' @ two (ct_second c) @ ''.'' @ three (ct_millisecond c) @ offset_text (ct_offset c)) d =
    (True, d\<lparr>ct_second := ct_second c, ct_millisecond := ct_millisecond c, ct_offset := ct_offset c\<rparr>)"
proof -
  let ?ms = "three (ct_millisecond c)" and ?o = "offset_text (ct_offset c)"
  have ms: "length ?ms = 3" "list_all isdigit ?ms" "digits_value ?ms = ct_millisecond c"
    using three_digits [OF assms(2)] .
  have "\<not> isdigit (hd ?o)" "?o \<noteq> []" by (auto simp: offset_text_def isdigit_def)
  then have tw: "takeWhile isdigit (?ms @ ?o) = ?ms"
    using ms(2) by (cases ?o) (auto simp: takeWhile_append2 list_all_iff)
  have "stoul ?ms = Inr (word_of_nat (ct_millisecond c))"
    using stoul_digits [of ?ms] ms assms(2) by (simp add: three_def)
  moreover have "unat (word_of_nat (ct_millisecond c) :: u64) = ct_millisecond c"
    using assms(2) by (simp add: unat_of_nat take_bit_nat_eq_self)
  ultimately have "parseSecondFrac (''.'' @ ?ms @ ?o) d' =
      (True, d'\<lparr>ct_millisecond := ct_millisecond c, ct_offset := ct_offset c\<rparr>)" for d'
    using ms(1) parseTimeOffset_text [OF assms(3,4)] by (cases "?ms = []") (simp_all add: parseSecondFrac_def tw Let_def)
  moreover have "drop 3 ('':'' @ two (ct_second c) @ ''.'' @ ?ms @ ?o) = ''.'' @ ?ms @ ?o"
    by (simp add: drop_Cons')
  ultimately show ?thesis
    using assms(1) digits_at_two [of "ct_second c"] by (simp add: parseSecond_def)
qed

lemma parseHour_text:
  assumes "iso_fields c"
  shows "parseHour (''T'' @ two (ct_hour c) @ '':'' @ two (ct_minute c) @ '':'' @ two (ct_second c) @ ''.'' @
      three (ct_millisecond c) @ offset_text (ct_offset c)) d =
    (True, d\<lparr>ct_hour := ct_hour c, ct_minute := ct_minute c, ct_second := ct_second c,
       ct_millisecond := ct_millisecond c, ct_offset := ct_offset c\<rparr>)"
proof -
  let ?s = "'':'' @ two (ct_second c) @ ''.'' @ three (ct_millisecond c) @ offset_text (ct_offset c)"
  have s: "parseSecond ?s d' = (True, d'\<lparr>ct_second := ct_second c, ct_millisecond := ct_millisecond c,
      ct_offset := ct_offset c\<rparr>)" for d'
    using assms by (intro parseSecond_text) (simp_all add: iso_fields_def)
  have d3: "drop 3 (x # two n @ r) = r" for x n r by (simp add: drop_Cons')
  have b: "ct_hour c \<le> 24" "ct_minute c \<le> 59" using assms by (simp_all add: iso_fields_def)
  have "parseMinute ('':'' @ two (ct_minute c) @ ?s) d' = (True, d'\<lparr>ct_minute := ct_minute c,
      ct_second := ct_second c, ct_millisecond := ct_millisecond c, ct_offset := ct_offset c\<rparr>)" for d'
    using b s by (simp add: parseMinute_def d3)
  then show ?thesis using b by (simp add: parseHour_def d3)
qed

lemma parse_date:
  assumes "iso_fields c"
  shows "parseYear (iso_date_text c @ r) d =
    Inr (if r = [] then (True, d\<lparr>ct_year := ct_year c, ct_month := ct_month c, ct_day := ct_day c\<rparr>)
         else parseHour r (d\<lparr>ct_year := ct_year c, ct_month := ct_month c, ct_day := ct_day c\<rparr>))"
proof -
  have d3: "drop 3 (x # two n @ r) = r" for x n r by (simp add: drop_Cons')
  have b: "1 \<le> ct_day c" "ct_day c \<le> 31" "1 \<le> ct_month c" "ct_month c \<le> 12" "ct_year c < 10000"
    using assms by (simp_all add: iso_fields_def)
  have ne: "two n \<noteq> []" for n by (simp add: two_def)
  have "ct_day c \<le> daysInMonth y (ct_day c)" for y
  proof -
    have "ct_day c \<le> 28 \<or> ct_day c = 29 \<or> ct_day c = 30 \<or> ct_day c = 31" using b(2) by linarith
    then show ?thesis using daysInMonth_ge [of y "ct_day c"] by (elim disjE) (simp_all add: daysInMonth_def)
  qed
  then have day: "parseDay (''-'' @ two (ct_day c) @ r) d' = Inr (if r = [] then (True, d'\<lparr>ct_day := ct_day c\<rparr>)
      else parseHour r (d'\<lparr>ct_day := ct_day c\<rparr>))" for d'
    using b ne by (simp add: parseDay_def d3 Let_def)
  have "parseMonth (''-'' @ two (ct_month c) @ ''-'' @ two (ct_day c) @ r) d' =
      Inr (if r = [] then (True, d'\<lparr>ct_month := ct_month c, ct_day := ct_day c\<rparr>)
         else parseHour r (d'\<lparr>ct_month := ct_month c, ct_day := ct_day c\<rparr>))" for d'
    using b day by (simp add: parseMonth_def d3 Let_def)
  then show ?thesis
    using b by (simp add: parseYear_def iso_date_text_def Let_def)
qed

lemma parse_date_only:
  assumes "iso_fields c"
  shows "iso8601_parse (iso_date_text c) =
    Inr (Some (civil_zero\<lparr>ct_year := ct_year c, ct_month := ct_month c, ct_day := ct_day c\<rparr>))"
  using parse_date [OF assms, of "[]" civil_zero] by (simp add: iso8601_parse_def)

section \<open>Properties\<close>

text \<open>\<open>ISO8601::parse\<close> reads every field of a full time stamp: the text of a year, month, day, time of
  day with milliseconds and offset in minutes, of either sign, is parsed to exactly these fields.\<close>

theorem iso8601_parse_text:
  assumes "iso_fields c"
  shows "iso8601_parse (iso_text c) = Inr (Some c)"
proof -
  let ?t = "''T'' @ two (ct_hour c) @ '':'' @ two (ct_minute c) @ '':'' @ two (ct_second c) @ ''.'' @
      three (ct_millisecond c) @ offset_text (ct_offset c)"
  have "parseYear (iso_text c) civil_zero = Inr (True, c)"
    using parse_date [OF assms, of ?t civil_zero] parseHour_text [OF assms]
    by (simp add: iso_text_def civil_zero_def)
  then show ?thesis by (simp add: iso8601_parse_def)
qed

theorem iso8601_parse_text_witness:
  "iso8601_parse ''2015-03-01T23:59:07.250-01:30'' =
     Inr (Some \<lparr>ct_year = 2015, ct_month = 3, ct_day = 1, ct_hour = 23, ct_minute = 59, ct_second = 7,
       ct_millisecond = 250, ct_offset = - 5400\<rparr>)"
  using iso8601_parse_text [of "\<lparr>ct_year = 2015, ct_month = 3, ct_day = 1, ct_hour = 23, ct_minute = 59,
      ct_second = 7, ct_millisecond = 250, ct_offset = - 5400\<rparr>"]
  by (simp add: iso_fields_def iso_text_def iso_date_text_def offset_text_def four_def three_def two_def
      digit_char_def char_of_def bit_simps)

text \<open>C40. Unix time counts the days of the Gregorian calendar, which is specified on its own by a table of month lengths
  and the leap year rule: the first of January 1970 is time 0, and from every date of the years 1970 to 65534 on (the
  years are kept in sixteen bits), over the ends of months, of years and of centuries, the next day is one day of
  microseconds later, with the time of day and the offset unchanged.\<close>

theorem unix_time_counts_days:
  assumes "valid_date c" "ct_year c < 65535"
  shows "unix_of_civil (next_day c) = unix_of_civil c + word_of_int kMicrosPerDay \<and> valid_date (next_day c) \<and>
    unix_of_civil (civil_zero\<lparr>ct_year := 1970, ct_month := 1, ct_day := 1\<rparr>) = 0"
proof -
  have same: "ct_hour (next_day c) = ct_hour c" "ct_minute (next_day c) = ct_minute c"
    "ct_second (next_day c) = ct_second c" "ct_millisecond (next_day c) = ct_millisecond c"
    "ct_offset (next_day c) = ct_offset c"
    by (simp_all add: next_day_def)
  have "unix_of_civil (next_day c) = unix_of_civil c + word_of_int kMicrosPerDay"
    unfolding unix_of_civil_def same civil_days_next [OF assms(1)] wi_hom_syms(1) by (simp add: algebra_simps)
  moreover have "unix_of_civil (civil_zero\<lparr>ct_year := 1970, ct_month := 1, ct_day := 1\<rparr>) = 0"
    by (simp add: unix_of_civil_def civil_days_def civil_zero_def days_of_years_def days_of_months_def)
  ultimately show ?thesis using valid_next_day [OF assms(1)] by blast
qed

theorem unix_time_counts_days_witness:
  "unix_of_civil (civil_zero\<lparr>ct_year := 2000, ct_month := 2, ct_day := 29\<rparr>) =
     unix_of_civil (civil_zero\<lparr>ct_year := 2000, ct_month := 2, ct_day := 28\<rparr>) + word_of_int kMicrosPerDay \<and>
   unix_of_civil (civil_zero\<lparr>ct_year := 2100, ct_month := 3, ct_day := 1\<rparr>) =
     unix_of_civil (civil_zero\<lparr>ct_year := 2100, ct_month := 2, ct_day := 28\<rparr>) + word_of_int kMicrosPerDay"
proof -
  have leap: "gregorian_leap 2000" "\<not> gregorian_leap 2100" by (simp_all add: gregorian_leap_def)
  show ?thesis
    using unix_time_counts_days [of "civil_zero\<lparr>ct_year := 2000, ct_month := 2, ct_day := 28\<rparr>"]
      unix_time_counts_days [of "civil_zero\<lparr>ct_year := 2100, ct_month := 2, ct_day := 28\<rparr>"] leap
    by (simp add: valid_date_def next_day_def civil_zero_def month_length_def)
qed

text \<open>The day of a date is not checked against its month: every day up to 31 is accepted in every
  month, because the length of the month is looked up with the day in place of the month.\<close>

theorem iso8601_day_not_checked:
  assumes "ct_year c < 10000" "1 \<le> ct_month c" "ct_month c \<le> 12" "1 \<le> ct_day c" "ct_day c \<le> 31"
  shows "iso8601_parse (iso_date_text c) =
    Inr (Some (civil_zero\<lparr>ct_year := ct_year c, ct_month := ct_month c, ct_day := ct_day c\<rparr>))"
proof -
  let ?c = "civil_zero\<lparr>ct_year := ct_year c, ct_month := ct_month c, ct_day := ct_day c\<rparr>"
  have "iso_fields ?c" using assms by (simp add: iso_fields_def civil_zero_def)
  from parse_date_only [OF this] show ?thesis by (simp add: iso_date_text_def)
qed

theorem iso8601_day_not_checked_witness:
  "iso8601_parse (iso_date_text (civil_zero\<lparr>ct_year := 2015, ct_month := 2, ct_day := 31\<rparr>)) =
     Inr (Some (civil_zero\<lparr>ct_year := 2015, ct_month := 2, ct_day := 31\<rparr>)) \<and> daysInMonth 2015 2 = 28"
  using iso8601_day_not_checked [of "civil_zero\<lparr>ct_year := 2015, ct_month := 2, ct_day := 31\<rparr>"]
  by (simp add: daysInMonth_def isLeapYear_def)

text \<open>A date that ends after a minus sign makes the parser read past the end of the string.\<close>

theorem iso8601_reads_past_end:
  assumes "y < 10000" "1 \<le> m" "m \<le> 12"
  shows "iso8601_parse (four y @ ''-'' @ two m @ ''-'') = Inl UndefinedBehaviour"
  using assms by (simp add: iso8601_parse_def parseYear_def parseMonth_def parseDay_def Let_def drop_Cons')

theorem iso8601_reads_past_end_witness: "iso8601_parse (four 2015 @ ''-'' @ two 7 @ ''-'') = Inl UndefinedBehaviour"
  using iso8601_reads_past_end [of 2015 7] by simp

end
