(* ===== verification/Stx_Human.thy ===== *)
theory Stx_Human
  imports Stx_Time Stx_UTF8
begin

text \<open>
  Human-readable values: \<open>human.cc\<close>. Times, durations, booleans and the detection of the data type of a
  series of values. \<open>strptime\<close>, the function of the C library behind \<open>CivilTime::parseString\<close>, is a
  parameter from texts to civil times; the current time is an argument.
\<close>

section \<open>Durations and times\<close>

definition unit_micros :: "string \<Rightarrow> int option" where
  "unit_micros time_suffix =
     (if time_suffix \<in> {''s'', ''sec'', ''secs'', ''second'', ''seconds''} then Some kMicrosPerSecond
      else if time_suffix \<in> {''m'', ''min'', ''mins'', ''minute'', ''minutes''} then Some kMicrosPerMinute
      else if time_suffix \<in> {''h'', ''hour'', ''hours''} then Some kMicrosPerHour
      else if time_suffix \<in> {''d'', ''day'', ''days''} then Some kMicrosPerDay
      else if time_suffix \<in> {''w'', ''week'', ''weeks''} then Some kMicrosPerWeek
      else if time_suffix \<in> {''y'', ''year'', ''years''} then Some kMicrosPerYear
      else None)"

definition parseDuration :: "string \<Rightarrow> u64 option result" where
  "parseDuration str =
     bindE (stoull str) (\<lambda>(v, sz). Inr (map_option (\<lambda>k. v * word_of_int k) (unit_micros (drop sz str))))"

definition parse_timestamp :: "u64 \<Rightarrow> u64 option" where
  "parse_timestamp ts =
     (if ts < 30000000000 then Some (ts * 1000000)
      else if ts > 30000000000 \<and> ts < 30000000000000 then Some (ts * 1000)
      else if ts > 30000000000000 then Some ts
      else None)"

definition parse_calendar :: "(string \<Rightarrow> civil_time option) \<Rightarrow> string \<Rightarrow> u64 option result" where
  "parse_calendar strptime str =
     bindE (iso8601_parse str) (\<lambda>civil.
       case civil of
         Some c \<Rightarrow> Inr (Some (unix_of_civil c))
       | None \<Rightarrow>
           (case strptime str of
              Some c \<Rightarrow> Inr (Some (unix_of_civil c))
            | None \<Rightarrow> if beginsWith str ''0000-00-00'' then Inr (Some 0) else Inr None))"

definition parseTime :: "(string \<Rightarrow> civil_time option) \<Rightarrow> string \<Rightarrow> u64 \<Rightarrow> u64 option result" where
  "parseTime strptime str now =
     (if str = ''now'' then Inr (Some now)
      else
        bindE (if beginsWith str ''-'' \<and> length str > 1 \<and> isdigit (str ! 1) then parseDuration (drop 1 str) else Inr None)
          (\<lambda>offset.
            case offset of
              Some d \<Rightarrow> Inr (Some (now - d))
            | None \<Rightarrow>
                (case (if isDigitString str
                       then (case stoull str of Inr (ts, _) \<Rightarrow> parse_timestamp ts | Inl _ \<Rightarrow> None) else None) of
                   Some t \<Rightarrow> Inr (Some t)
                 | None \<Rightarrow> parse_calendar strptime str)))"

definition parseBoolean :: "string \<Rightarrow> bool option" where
  "parseBoolean v =
     (if v \<in> {''true'', ''TRUE'', ''yes'', ''YES''} then Some True
      else if v \<in> {''false'', ''FALSE'', ''no'', ''NO''} then Some False
      else None)"

section \<open>Data types\<close>

datatype human_data_type =
    UNKNOWN
  | DATETIME
  | DATETIME_NULLABLE
  | URL
  | URL_NULLABLE
  | CURRENCY
  | CURRENCY_NULLABLE
  | UNSIGNED_INTEGER
  | UNSIGNED_INTEGER_NULLABLE
  | SIGNED_INTEGER
  | SIGNED_INTEGER_NULLABLE
  | FLOAT
  | FLOAT_NULLABLE
  | BOOLEAN
  | BOOLEAN_NULLABLE
  | NULL_OR_EMPTY
  | TEXT
  | BINARY

definition isNullOrEmpty :: "string \<Rightarrow> bool" where
  "isNullOrEmpty v \<longleftrightarrow> v = [] \<or> v = ''null'' \<or> v = ''NULL''"

text \<open>\<open>isValidUTF8\<close> may not return; then neither does the detection.\<close>

definition detectDataType ::
  "(string \<Rightarrow> civil_time option) \<Rightarrow> u64 \<Rightarrow> string \<Rightarrow> human_data_type comp" where
  "detectDataType strptime now v =
     (if isNumber v
      then
        (if str_includes v ''.'' \<or> str_includes v '','' then ret FLOAT
         else if beginsWith v ''-'' then ret SIGNED_INTEGER else ret UNSIGNED_INTEGER)
      else if isNullOrEmpty v then ret NULL_OR_EMPTY
      else if v \<in> {''true'', ''TRUE'', ''false'', ''FALSE'', ''yes'', ''YES'', ''no'', ''NO''} then ret BOOLEAN
      else
        bindC (Some (parseTime strptime v now)) (\<lambda>t.
          case t of
            Some _ \<Rightarrow> ret DATETIME
          | None \<Rightarrow>
              (case isValidUTF8 (bytes_of v) of
                 None \<Rightarrow> None
               | Some True \<Rightarrow> ret TEXT
               | Some False \<Rightarrow> ret BINARY)))"

fun series_null :: "human_data_type \<Rightarrow> human_data_type" where
  "series_null DATETIME = DATETIME_NULLABLE"
| "series_null DATETIME_NULLABLE = DATETIME_NULLABLE"
| "series_null URL = URL_NULLABLE"
| "series_null URL_NULLABLE = URL_NULLABLE"
| "series_null CURRENCY = CURRENCY_NULLABLE"
| "series_null CURRENCY_NULLABLE = CURRENCY_NULLABLE"
| "series_null UNSIGNED_INTEGER = UNSIGNED_INTEGER_NULLABLE"
| "series_null UNSIGNED_INTEGER_NULLABLE = UNSIGNED_INTEGER_NULLABLE"
| "series_null SIGNED_INTEGER = SIGNED_INTEGER_NULLABLE"
| "series_null SIGNED_INTEGER_NULLABLE = SIGNED_INTEGER_NULLABLE"
| "series_null FLOAT = FLOAT_NULLABLE"
| "series_null FLOAT_NULLABLE = FLOAT_NULLABLE"
| "series_null BOOLEAN = BOOLEAN_NULLABLE"
| "series_null BOOLEAN_NULLABLE = BOOLEAN_NULLABLE"
| "series_null TEXT = TEXT"
| "series_null BINARY = BINARY"
| "series_null UNKNOWN = NULL_OR_EMPTY"
| "series_null NULL_OR_EMPTY = NULL_OR_EMPTY"

definition series_uint_nullable :: "human_data_type \<Rightarrow> human_data_type" where
  "series_uint_nullable prev =
     (if prev \<in> {FLOAT, FLOAT_NULLABLE} then FLOAT_NULLABLE
      else if prev \<in> {SIGNED_INTEGER, SIGNED_INTEGER_NULLABLE} then SIGNED_INTEGER_NULLABLE
      else if prev \<in> {NULL_OR_EMPTY, UNSIGNED_INTEGER, UNSIGNED_INTEGER_NULLABLE} then UNSIGNED_INTEGER_NULLABLE
      else TEXT)"

definition series_sint_nullable :: "human_data_type \<Rightarrow> human_data_type" where
  "series_sint_nullable prev =
     (if prev \<in> {FLOAT, FLOAT_NULLABLE} then FLOAT_NULLABLE
      else if prev \<in> {NULL_OR_EMPTY, UNSIGNED_INTEGER, UNSIGNED_INTEGER_NULLABLE, SIGNED_INTEGER,
                      SIGNED_INTEGER_NULLABLE} then SIGNED_INTEGER_NULLABLE
      else TEXT)"

definition series_float_nullable :: "human_data_type \<Rightarrow> human_data_type" where
  "series_float_nullable prev =
     (if prev \<in> {NULL_OR_EMPTY, FLOAT_NULLABLE, UNSIGNED_INTEGER, UNSIGNED_INTEGER_NULLABLE, SIGNED_INTEGER,
                 SIGNED_INTEGER_NULLABLE} then FLOAT_NULLABLE
      else TEXT)"

text \<open>The switch of \<open>detectDataTypeSeries\<close> over the type of the next value and the type so far.\<close>

fun series_switch :: "human_data_type \<Rightarrow> human_data_type \<Rightarrow> human_data_type" where
  "series_switch UNKNOWN prev = UNKNOWN"
| "series_switch TEXT prev = TEXT"
| "series_switch BINARY prev = BINARY"
| "series_switch NULL_OR_EMPTY prev = series_null prev"
| "series_switch DATETIME prev = (if prev \<in> {NULL_OR_EMPTY, DATETIME_NULLABLE} then DATETIME_NULLABLE else TEXT)"
| "series_switch DATETIME_NULLABLE prev =
     (if prev \<in> {NULL_OR_EMPTY, DATETIME_NULLABLE} then DATETIME_NULLABLE else TEXT)"
| "series_switch URL prev = (if prev \<in> {NULL_OR_EMPTY, URL_NULLABLE} then URL_NULLABLE else TEXT)"
| "series_switch URL_NULLABLE prev = (if prev \<in> {NULL_OR_EMPTY, URL_NULLABLE} then URL_NULLABLE else TEXT)"
| "series_switch CURRENCY prev = (if prev \<in> {NULL_OR_EMPTY, CURRENCY_NULLABLE} then CURRENCY_NULLABLE else TEXT)"
| "series_switch CURRENCY_NULLABLE prev =
     (if prev \<in> {NULL_OR_EMPTY, CURRENCY_NULLABLE} then CURRENCY_NULLABLE else TEXT)"
| "series_switch UNSIGNED_INTEGER prev =
     (if prev = FLOAT then FLOAT else if prev = SIGNED_INTEGER then SIGNED_INTEGER else series_uint_nullable prev)"
| "series_switch UNSIGNED_INTEGER_NULLABLE prev = series_uint_nullable prev"
| "series_switch SIGNED_INTEGER prev =
     (if prev = FLOAT then FLOAT else if prev = UNSIGNED_INTEGER then SIGNED_INTEGER else series_sint_nullable prev)"
| "series_switch SIGNED_INTEGER_NULLABLE prev = series_sint_nullable prev"
| "series_switch FLOAT prev =
     (if prev \<in> {UNSIGNED_INTEGER, SIGNED_INTEGER} then FLOAT else series_float_nullable prev)"
| "series_switch FLOAT_NULLABLE prev = series_float_nullable prev"
| "series_switch BOOLEAN prev = (if prev \<in> {NULL_OR_EMPTY, BOOLEAN_NULLABLE} then BOOLEAN_NULLABLE else TEXT)"
| "series_switch BOOLEAN_NULLABLE prev =
     (if prev \<in> {NULL_OR_EMPTY, BOOLEAN_NULLABLE} then BOOLEAN_NULLABLE else TEXT)"

definition detectDataTypeSeries ::
  "(string \<Rightarrow> civil_time option) \<Rightarrow> u64 \<Rightarrow> string \<Rightarrow> human_data_type \<Rightarrow> human_data_type comp" where
  "detectDataTypeSeries strptime now v prev =
     (if prev = BINARY then ret prev
      else
        bindC (detectDataType strptime now v) (\<lambda>t.
          if t = prev \<or> prev = UNKNOWN then ret t else ret (series_switch t prev)))"

section \<open>What a value of a type is\<close>

text \<open>
  The values of a column of a type, independent of the detection: digits, digits after an optional sign, digits with
  separators, the words of \<open>parseBoolean\<close>, a time that \<open>parseTime\<close> reads, and nothing at all; texts and binaries can be
  anything. URLs and currencies are never detected.
\<close>

definition unsigned_part :: "string \<Rightarrow> string" where
  "unsigned_part v = (case v of c # cs \<Rightarrow> if c = CHR ''-'' then cs else v | [] \<Rightarrow> [])"

definition is_time :: "(string \<Rightarrow> civil_time option) \<Rightarrow> u64 \<Rightarrow> string \<Rightarrow> bool" where
  "is_time strptime now v \<longleftrightarrow> (case parseTime strptime v now of Inr (Some _) \<Rightarrow> True | _ \<Rightarrow> False)"

definition float_text :: "string \<Rightarrow> bool" where
  "float_text v \<longleftrightarrow> list_all (\<lambda>c. isdigit c \<or> c = CHR ''.'' \<or> c = CHR '','') (unsigned_part v)"

fun reads_as :: "(string \<Rightarrow> civil_time option) \<Rightarrow> u64 \<Rightarrow> human_data_type \<Rightarrow> string \<Rightarrow> bool" where
  "reads_as strptime now UNKNOWN v \<longleftrightarrow> False"
| "reads_as strptime now DATETIME v \<longleftrightarrow> is_time strptime now v"
| "reads_as strptime now DATETIME_NULLABLE v \<longleftrightarrow> is_time strptime now v \<or> isNullOrEmpty v"
| "reads_as strptime now URL v \<longleftrightarrow> False"
| "reads_as strptime now URL_NULLABLE v \<longleftrightarrow> isNullOrEmpty v"
| "reads_as strptime now CURRENCY v \<longleftrightarrow> False"
| "reads_as strptime now CURRENCY_NULLABLE v \<longleftrightarrow> isNullOrEmpty v"
| "reads_as strptime now UNSIGNED_INTEGER v \<longleftrightarrow> list_all isdigit v"
| "reads_as strptime now UNSIGNED_INTEGER_NULLABLE v \<longleftrightarrow> list_all isdigit v \<or> isNullOrEmpty v"
| "reads_as strptime now SIGNED_INTEGER v \<longleftrightarrow> list_all isdigit (unsigned_part v)"
| "reads_as strptime now SIGNED_INTEGER_NULLABLE v \<longleftrightarrow> list_all isdigit (unsigned_part v) \<or> isNullOrEmpty v"
| "reads_as strptime now FLOAT v \<longleftrightarrow> float_text v"
| "reads_as strptime now FLOAT_NULLABLE v \<longleftrightarrow> float_text v \<or> isNullOrEmpty v"
| "reads_as strptime now BOOLEAN v \<longleftrightarrow> parseBoolean v \<noteq> None"
| "reads_as strptime now BOOLEAN_NULLABLE v \<longleftrightarrow> parseBoolean v \<noteq> None \<or> isNullOrEmpty v"
| "reads_as strptime now NULL_OR_EMPTY v \<longleftrightarrow> isNullOrEmpty v"
| "reads_as strptime now TEXT v \<longleftrightarrow> True"
| "reads_as strptime now BINARY v \<longleftrightarrow> True"

lemma unsigned_digits: "list_all isdigit v \<Longrightarrow> list_all isdigit (unsigned_part v)"
  by (cases v) (auto simp: unsigned_part_def)

lemma float_digits: "list_all isdigit (unsigned_part v) \<Longrightarrow> float_text v"
  by (simp add: list_all_iff float_text_def)

lemma detectDataType_reads:
  assumes "detectDataType strptime now v = ret t"
  shows "reads_as strptime now t v"
proof (cases "isNumber v")
  case True
  then have n: "list_all isdigit (unsigned_part v)" by (simp add: isNumber_def unsigned_part_def)
  moreover have "list_all isdigit v" if "\<not> beginsWith v ''-''"
    using n that by (cases v) (auto simp: unsigned_part_def beginsWith_def split: if_splits)
  ultimately show ?thesis
    using assms True float_digits [OF n] by (auto simp: detectDataType_def split: if_splits)
next
  case nn: False
  let ?words = "{''true'', ''TRUE'', ''false'', ''FALSE'', ''yes'', ''YES'', ''no'', ''NO''}"
  show ?thesis
  proof (cases "isNullOrEmpty v")
    case True
    then show ?thesis using assms nn by (simp only: detectDataType_def if_True if_False) simp
  next
    case False
    note unfold = detectDataType_def if_not_P [OF nn] if_not_P [OF False]
    show ?thesis
    proof (cases "v \<in> ?words")
      case True
      then have "t = BOOLEAN" using assms by (simp only: unfold if_True) simp
      moreover have "parseBoolean v \<noteq> None" using True by (elim insertE) (simp_all add: parseBoolean_def)
      ultimately show ?thesis by simp
    next
      case False
      then have "bindC (Some (parseTime strptime v now)) (\<lambda>t. case t of Some _ \<Rightarrow> ret DATETIME
          | None \<Rightarrow> (case isValidUTF8 (bytes_of v) of None \<Rightarrow> None | Some True \<Rightarrow> ret TEXT | Some False \<Rightarrow> ret BINARY)) = ret t"
        using assms by (simp only: unfold if_False)
      then show ?thesis by (auto simp: bindC_def is_time_def split: option.splits sum.splits bool.splits)
    qed
  qed
qed

lemma series_switch_reads:
  assumes "t \<noteq> UNKNOWN" "prev \<noteq> UNKNOWN" "prev \<noteq> BINARY" "t \<noteq> prev"
  shows "reads_as strptime now t v \<Longrightarrow> reads_as strptime now (series_switch t prev) v"
    "reads_as strptime now prev v \<Longrightarrow> reads_as strptime now (series_switch t prev) v"
  using assms unsigned_digits [of v] float_digits [of v]
  by (cases t; cases prev; force simp: series_uint_nullable_def series_sint_nullable_def series_float_nullable_def)+

lemma detectDataType_known: "detectDataType strptime now v = ret t \<Longrightarrow> t \<noteq> UNKNOWN"
  using detectDataType_reads [of strptime now v t] by auto

text \<open>The type of a column: the series is detected value by value.\<close>

fun detect_series ::
  "(string \<Rightarrow> civil_time option) \<Rightarrow> u64 \<Rightarrow> string list \<Rightarrow> human_data_type \<Rightarrow> human_data_type comp" where
  "detect_series strptime now [] prev = ret prev"
| "detect_series strptime now (v # vs) prev =
     bindC (detectDataTypeSeries strptime now v prev) (detect_series strptime now vs)"

lemma detectDataTypeSeries_reads:
  assumes "detectDataTypeSeries strptime now v prev = ret t"
  shows "reads_as strptime now t v" "reads_as strptime now prev w \<Longrightarrow> reads_as strptime now t w"
proof -
  have "reads_as strptime now t v \<and> (reads_as strptime now prev w \<longrightarrow> reads_as strptime now t w)"
  proof (cases "prev = BINARY \<or> prev = UNKNOWN")
    case True
    then show ?thesis
      using assms detectDataType_reads by (auto simp: detectDataTypeSeries_def bindC_eq_ret split: if_splits)
  next
    case False
    then obtain t1 where t1: "detectDataType strptime now v = ret t1"
      "t = (if t1 = prev then t1 else series_switch t1 prev)"
      using assms by (auto simp: detectDataTypeSeries_def bindC_eq_ret split: if_splits)
    then show ?thesis
      using detectDataType_reads [OF t1(1)] series_switch_reads [OF detectDataType_known [OF t1(1)]] False by auto
  qed
  then show "reads_as strptime now t v" "reads_as strptime now prev w \<Longrightarrow> reads_as strptime now t w" by auto
qed

lemma detect_series_mono:
  "detect_series strptime now us p = ret t \<Longrightarrow> reads_as strptime now p w \<Longrightarrow> reads_as strptime now t w"
proof (induction us arbitrary: p)
  case (Cons u us)
  then obtain p1 where "detectDataTypeSeries strptime now u p = ret p1" "detect_series strptime now us p1 = ret t"
    by (auto simp: bindC_eq_ret)
  with Cons detectDataTypeSeries_reads(2) show ?case by blast
qed simp

lemma unit_of:
  "(u, k) \<in> set [(''s'', kMicrosPerSecond), (''minutes'', kMicrosPerMinute), (''h'', kMicrosPerHour),
      (''days'', kMicrosPerDay), (''w'', kMicrosPerWeek), (''years'', kMicrosPerYear)] \<Longrightarrow> unit_micros u = Some k"
  by (simp, elim disjE conjE) (simp_all add: unit_micros_def)

lemma parseTime_digits:
  assumes "n < 2 ^ 64"
  shows "parseTime strptime (to_string n) now =
    (if n < 30000000000 then Inr (Some (word_of_nat (n * 1000000)))
     else if n = 30000000000 \<or> n = 30000000000000 then parse_calendar strptime (to_string n)
     else if n < 30000000000000 then Inr (Some (word_of_nat (n * 1000)))
     else Inr (Some (word_of_nat n)))"
proof -
  obtain c cs where c: "to_string n = c # cs" by (cases "to_string n") auto
  have dig: "list_all isdigit (to_string n)" using to_string_digits by (simp add: list_all_iff)
  then have "isdigit c" by (simp add: c)
  then have ne: "to_string n \<noteq> ''now''" "\<not> beginsWith (to_string n) ''-''"
    using isdigit_not_sign [of c] by (auto simp: c beginsWith_def isdigit_def)
  have v: "unat (word_of_nat n :: u64) = n" using assms by (simp add: unat_of_nat take_bit_nat_eq_self)
  have "parse_timestamp (word_of_nat n) =
    (if n < 30000000000 then Some (word_of_nat (n * 1000000))
     else if n = 30000000000 \<or> n = 30000000000000 then None
     else if n < 30000000000000 then Some (word_of_nat (n * 1000))
     else Some (word_of_nat n))"
    by (auto simp: parse_timestamp_def word_less_nat_alt v)
  then show ?thesis
    using ne dig assms by (simp add: parseTime_def isDigitString_def)
qed

section \<open>Properties\<close>

text \<open>C33. The type detected for a series of values fits every value of the series: when \<open>detectDataTypeSeries\<close>, value after
  value from the unknown type on, ends with a type, every value of the series is one of that type, whatever the order of
  the values. A column of unsigned integers has only digits, one of signed integers digits after an optional sign, a
  column of booleans only words that \<open>parseBoolean\<close> reads, a column of times only texts that \<open>parseTime\<close> reads, and a
  nullable column in addition empty and null values. (Digits may be none, and any value is a text or a binary.)\<close>

theorem series_type_sound:
  assumes "detect_series strptime now vs UNKNOWN = ret t" "v \<in> set vs"
  shows "reads_as strptime now t v"
proof -
  have "detect_series strptime now vs p = ret t \<Longrightarrow> v \<in> set vs \<Longrightarrow> reads_as strptime now t v" for p
  proof (induction vs arbitrary: p)
    case (Cons w vs)
    then obtain t1 where t1: "detectDataTypeSeries strptime now w p = ret t1" "detect_series strptime now vs t1 = ret t"
      by (auto simp: bindC_eq_ret)
    then show ?case
      using Cons.IH [OF t1(2)] Cons.prems(2) detect_series_mono [OF t1(2) detectDataTypeSeries_reads(1) [OF t1(1)]]
      by auto
  qed simp
  with assms show ?thesis by blast
qed

theorem series_type_sound_witness:
  "detect_series (\<lambda>_. None) 0 [''7'', ''-3'', ''null''] UNKNOWN = ret SIGNED_INTEGER_NULLABLE \<and>
   reads_as (\<lambda>_. None) 0 SIGNED_INTEGER_NULLABLE ''7'' \<and> \<not> reads_as (\<lambda>_. None) 0 SIGNED_INTEGER_NULLABLE ''x''"
proof -
  have d: "detectDataType (\<lambda>_. None) 0 ''7'' = ret UNSIGNED_INTEGER"
    "detectDataType (\<lambda>_. None) 0 ''-3'' = ret SIGNED_INTEGER" "detectDataType (\<lambda>_. None) 0 ''null'' = ret NULL_OR_EMPTY"
    by (simp_all add: detectDataType_def isNumber_def isdigit_def str_includes_def str_find_def beginsWith_def
        isNullOrEmpty_def)
  have s: "detect_series (\<lambda>_. None) 0 [''7'', ''-3'', ''null''] UNKNOWN = ret SIGNED_INTEGER_NULLABLE"
    by (simp add: detectDataTypeSeries_def d)
  have "\<not> reads_as (\<lambda>_. None) 0 SIGNED_INTEGER_NULLABLE ''x''"
    by (simp add: unsigned_part_def isdigit_def isNullOrEmpty_def)
  with s series_type_sound [OF s, of "''7''"] show ?thesis by simp
qed

text \<open>A number and a unit are read as that many units, in 64-bit microseconds, and a time written as a
  minus sign and a duration is that long before now.\<close>

theorem parse_duration_units:
  assumes "n < 2 ^ 64"
    and "(u, k) \<in> set [(''s'', kMicrosPerSecond), (''minutes'', kMicrosPerMinute), (''h'', kMicrosPerHour),
      (''days'', kMicrosPerDay), (''w'', kMicrosPerWeek), (''years'', kMicrosPerYear)]"
  shows "parseDuration (to_string n @ u) = Inr (Some (word_of_nat n * word_of_int k)) \<and>
    parseTime strptime (''-'' @ to_string n @ u) now = Inr (Some (now - word_of_nat n * word_of_int k))"
proof -
  have u: "u \<noteq> []" "\<not> isdigit (hd u)" using assms(2) by (auto simp: isdigit_def)
  then have "\<forall>c \<in> set (take 1 u). \<not> isdigit c" by (cases u) auto
  then have "stoull (to_string n @ u) = Inr (word_of_nat n, length (to_string n))"
    using strto_prefix_to_string [of u n] assms(1) by (simp add: stoull_def)
  then have d: "parseDuration (to_string n @ u) = Inr (Some (word_of_nat n * word_of_int k))"
    using unit_of [OF assms(2)] by (simp only: parseDuration_def bindE_simps prod.case) simp
  obtain c cs where c: "to_string n = c # cs" by (cases "to_string n") auto
  then have "isdigit c" using to_string_digits [of c n] by simp
  with c d show ?thesis by (simp add: parseTime_def beginsWith_def)
qed

theorem parse_duration_units_witness:
  "parseTime (\<lambda>_. None) (''-'' @ to_string 90 @ ''minutes'') 6000000000 = Inr (Some 600000000)"
  using parse_duration_units [of 90 "''minutes''" kMicrosPerMinute "\<lambda>_. None" 6000000000]
  by (simp add: kMicrosPerMinute_def kMicrosPerSecond_def)

text \<open>A time stamp of digits is read as seconds, milliseconds or microseconds by its size, without
  overflow; a stamp that is exactly one of the two bounds is read as none of them.\<close>

theorem parse_timestamp_units:
  assumes "n < 2 ^ 64"
  shows "parseTime strptime (to_string n) now =
    (if n < 30000000000 then Inr (Some (word_of_nat (n * 1000000)))
     else if n = 30000000000 \<or> n = 30000000000000 then parse_calendar strptime (to_string n)
     else if n < 30000000000000 then Inr (Some (word_of_nat (n * 1000)))
     else Inr (Some (word_of_nat n)))"
  by (rule parseTime_digits [OF assms])

theorem parse_timestamp_units_witness:
  "parseTime (\<lambda>_. None) (to_string 1430000000) 0 = Inr (Some 1430000000000000)"
  using parse_timestamp_units [of 1430000000 "\<lambda>_. None" 0] by simp

text \<open>The empty string and a lone minus sign are detected as integers, and a number with a decimal point is
  not detected as a number, because \<open>isNumber\<close> accepts a string without digits and no decimal point.\<close>

theorem number_detection_gaps:
  "detectDataType strptime now '''' = ret UNSIGNED_INTEGER \<and> detectDataType strptime now ''-'' = ret SIGNED_INTEGER \<and>
   \<not> isNumber ''1.5''"
  by (simp add: detectDataType_def isNumber_def str_includes_def str_find_def beginsWith_def isdigit_def)

end
