(* ===== verification/Stx_JSONText.thy ===== *)
theory Stx_JSONText
  imports Stx_JSONUtil
begin

text \<open>
  The direct interface of \<open>JSONOutputStream\<close> (\<open>json/jsonoutputstream.cc\<close>: \<open>beginObject\<close>,
  \<open>addObjectEntry\<close>, \<open>addInteger\<close>, ...), on which schemas and messages write their JSON, with
  \<open>OutputStream::printf\<close> and \<open>StringUtil::toString\<close> of a \<open>double\<close>.

  Unlike the token interface of theory \<open>Stx_JSON\<close> it writes numbers without quotes and puts no separators by
  itself. The second part shows that the text of a document written this way is parsed back to
  the tokens of the document.
\<close>

section \<open>Printing numbers\<close>

definition to_string_int :: "int \<Rightarrow> string" where
  "to_string_int i = (if i < 0 then CHR ''-'' # to_string (nat (- i)) else to_string (nat i))"

text \<open>A \<open>double\<close> is its representation: a sign, an exponent of 11 bits and a mantissa of 52 bits.\<close>

definition dbl_negative :: "u64 \<Rightarrow> bool" where
  "dbl_negative v \<longleftrightarrow> 2 ^ 63 \<le> unat v"

definition dbl_exponent :: "u64 \<Rightarrow> nat" where
  "dbl_exponent v = unat v div 2 ^ 52 mod 2 ^ 11"

definition dbl_mantissa :: "u64 \<Rightarrow> nat" where
  "dbl_mantissa v = unat v mod 2 ^ 52"

definition isnormal :: "u64 \<Rightarrow> bool" where
  "isnormal v \<longleftrightarrow> dbl_exponent v \<noteq> 0 \<and> dbl_exponent v \<noteq> 2047"

text \<open>The absolute value in millionths, rounded to the nearest, ties to even, as \<open>%f\<close> rounds.\<close>

definition dbl_millionths :: "u64 \<Rightarrow> nat" where
  "dbl_millionths v =
     (let e = max 1 (dbl_exponent v);
          m = (if dbl_exponent v = 0 then dbl_mantissa v else 2 ^ 52 + dbl_mantissa v) * 10 ^ 6
      in if e \<ge> 1075 then m * 2 ^ (e - 1075)
         else let d = 2 ^ (1075 - e); q = m div d; r = m mod d
              in if 2 * r > d \<or> (2 * r = d \<and> odd q) then q + 1 else q)"

definition pad_zeros :: "nat \<Rightarrow> string \<Rightarrow> string" where
  "pad_zeros n s = replicate (n - length s) (CHR ''0'') @ s"

definition printf_f :: "u64 \<Rightarrow> string" where
  "printf_f v =
     (if dbl_negative v then ''-'' else []) @
     (if dbl_exponent v = 2047 then (if dbl_mantissa v = 0 then ''inf'' else ''nan'')
      else to_string (dbl_millionths v div 10 ^ 6) @ ''.'' @ pad_zeros 6 (to_string (dbl_millionths v mod 10 ^ 6)))"

fun strip_zeros :: "string \<Rightarrow> string" where
  "strip_zeros s =
     (if length s > 2 \<and> s ! (length s - 1) = CHR ''0'' \<and> s ! (length s - 2) \<noteq> CHR ''.''
      then strip_zeros (butlast s) else s)"

declare strip_zeros.simps [simp del]

text \<open>The buffer has 128 bytes: a longer text is cut off, and the loop then reads behind it.\<close>

definition toString_double :: "u64 \<Rightarrow> string result" where
  "toString_double v =
     (if length (printf_f v) \<ge> 128 then Inl UndefinedBehaviour else Inr (strip_zeros (printf_f v)))"

definition toString_bool :: "bool \<Rightarrow> string" where
  "toString_bool b = (if b then ''true'' else ''false'')"

lemma length_to_string: "10 ^ k \<le> n \<Longrightarrow> k < length (to_string n)"
proof (induction k arbitrary: n)
  case 0
  then show ?case by simp
next
  case (Suc k)
  then have "10 ^ k \<le> n div 10" "\<not> n < 10" by (simp_all add: less_eq_div_iff_mult_less_eq)
      (metis leD le_less_trans mult_le_mono2 nat_mult_1_right one_le_numeral one_le_power)
  then show ?case using Suc.IH [of "n div 10"] by (subst to_string.simps) simp
qed

text \<open>A number of 122 or more digits before the point does not fit the buffer.\<close>

lemma toString_double_overflow:
  assumes "dbl_exponent v \<noteq> 2047" "10 ^ 121 \<le> dbl_millionths v div 10 ^ 6"
  shows "toString_double v = Inl UndefinedBehaviour"
proof -
  have "121 < length (to_string (dbl_millionths v div 10 ^ 6))" by (rule length_to_string [OF assms(2)])
  moreover have "6 \<le> length (pad_zeros 6 (to_string (dbl_millionths v mod 10 ^ 6)))" by (simp add: pad_zeros_def)
  ultimately show ?thesis using assms(1) by (simp add: toString_double_def printf_f_def)
qed





section \<open>The direct interface of the writer\<close>

definition os_printf :: "'o byte_writer \<Rightarrow> string \<Rightarrow> 'o \<Rightarrow> 'o comp" where
  "os_printf put s out = (if length s < 8192 then os_write_string put s out else raise kBufferOverflowError)"

definition beginObject :: "'o byte_writer \<Rightarrow> 'o \<Rightarrow> 'o comp" where
  "beginObject put = os_printf put ''{''"

definition endObject :: "'o byte_writer \<Rightarrow> 'o \<Rightarrow> 'o comp" where
  "endObject put = os_printf put ''}''"

definition addObjectEntry :: "'o byte_writer \<Rightarrow> string \<Rightarrow> 'o \<Rightarrow> 'o comp" where
  "addObjectEntry put key = os_printf put ([CHR 0x22] @ escapeString key @ [CHR 0x22] @ '': '')"

definition addComma :: "'o byte_writer \<Rightarrow> 'o \<Rightarrow> 'o comp" where
  "addComma put = os_printf put '',''"

definition addColon :: "'o byte_writer \<Rightarrow> 'o \<Rightarrow> 'o comp" where
  "addColon put = os_printf put '':''"

text \<open>The argument is signed: a \<open>uint64_t\<close> above \<open>2 ^ 63\<close> is printed as a negative number.\<close>

definition addInteger :: "'o byte_writer \<Rightarrow> u64 \<Rightarrow> 'o \<Rightarrow> 'o comp" where
  "addInteger put v = os_write_string put (to_string_int (sint v))"

definition addNull :: "'o byte_writer \<Rightarrow> 'o \<Rightarrow> 'o comp" where
  "addNull put = os_write_string put ''null''"

definition addTrue :: "'o byte_writer \<Rightarrow> 'o \<Rightarrow> 'o comp" where
  "addTrue put = os_write_string put ''true''"

definition addFalse :: "'o byte_writer \<Rightarrow> 'o \<Rightarrow> 'o comp" where
  "addFalse put = os_write_string put ''false''"

definition addBool :: "'o byte_writer \<Rightarrow> bool \<Rightarrow> 'o \<Rightarrow> 'o comp" where
  "addBool put val = (if val then addTrue put else addFalse put)"

definition addFloat :: "'o byte_writer \<Rightarrow> u64 \<Rightarrow> 'o \<Rightarrow> 'o comp" where
  "addFloat put v out =
     (if isnormal v then bindC (Some (toString_double v)) (\<lambda>s. os_write_string put s out)
      else addNull put out)"

definition beginArray :: "'o byte_writer \<Rightarrow> 'o \<Rightarrow> 'o comp" where
  "beginArray put = os_printf put ''[''"

definition endArray :: "'o byte_writer \<Rightarrow> 'o \<Rightarrow> 'o comp" where
  "endArray put = os_printf put '']''"

text \<open>A sequence of statements on the same stream.\<close>

fun seqW :: "('o \<Rightarrow> 'o comp) list \<Rightarrow> 'o \<Rightarrow> 'o comp" where
  "seqW [] out = ret out"
| "seqW (w # ws) out = bindC (w out) (seqW ws)"

lemma seqW_append: "seqW (ws @ vs) out = bindC (seqW ws out) (seqW vs)"
proof (induction ws arbitrary: out)
  case (Cons w ws)
  then show ?case by (cases "w out"; cases "the (w out)") auto
qed simp

section \<open>What the direct interface writes\<close>

context byte_sink
begin

text \<open>A writer that returns and appends the text to the stream.\<close>

definition emits :: "('o \<Rightarrow> 'o comp) \<Rightarrow> string \<Rightarrow> bool" where
  "emits w s \<longleftrightarrow> (\<forall>out. invar out \<longrightarrow>
     (\<exists>out'. w out = ret out' \<and> invar out' \<and> written out' = written out @ bytes_of s))"

lemma emits_write [intro]: "emits (os_write_string put s) s"
  by (simp add: emits_def write_string_ok)

lemma emits_printf [intro]: "length s < 8192 \<Longrightarrow> emits (os_printf put s) s"
  by (simp add: emits_def os_printf_def write_string_ok)

lemma emits_seqW_Nil: "emits (seqW []) []"
  by (simp add: emits_def)

lemma emits_seqW_Cons: "emits w s \<Longrightarrow> emits (seqW ws) t \<Longrightarrow> emits (seqW (w # ws)) (s @ t)"
  by (fastforce simp: emits_def)

lemma emits_seqW: "list_all2 emits ws ss \<Longrightarrow> emits (seqW ws) (concat ss)"
proof (induction ws ss rule: list_all2_induct)
  case Nil
  then show ?case using emits_seqW_Nil by (simp only: concat.simps)
next
  case (Cons w ws s ss)
  then show ?case using emits_seqW_Cons by (simp only: concat.simps)
qed

lemma emits_direct:
  "emits (beginObject put) ''{''" "emits (endObject put) ''}''" "emits (beginArray put) ''[''"
  "emits (endArray put) '']''" "emits (addComma put) '',''" "emits (addNull put) ''null''"
  "emits (addTrue put) ''true''" "emits (addFalse put) ''false''"
  "emits (addInteger put v) (to_string_int (sint v))"
  by (simp_all add: beginObject_def endObject_def beginArray_def endArray_def addComma_def addNull_def
      addTrue_def addFalse_def addInteger_def emits_write emits_printf)

lemma emits_addString: "emits (addString put d) ([CHR 0x22] @ escapeString d @ [CHR 0x22])"
  using addString_ok by (fastforce simp: emits_def)

lemma emits_addObjectEntry:
  "length (escapeString key) < 8188 \<Longrightarrow>
   emits (addObjectEntry put key) ([CHR 0x22] @ escapeString key @ [CHR 0x22] @ '': '')"
  unfolding addObjectEntry_def by (rule emits_printf) simp

end

section \<open>Parsing directly written text\<close>

definition number_text :: "string \<Rightarrow> bool" where
  "number_text d \<longleftrightarrow> d \<noteq> [] \<and> (hd d = CHR ''-'' \<or> isdigit (hd d)) \<and> list_all number_chr d"

text \<open>A number extends over spaces: it has to be followed by a delimiter.\<close>

definition number_end :: "string \<Rightarrow> bool" where
  "number_end t \<longleftrightarrow> t = [] \<or> hd t \<in> {CHR '','', CHR '']'', CHR ''}''}"

inductive direct_stream :: "(kTokenType \<times> string) list \<Rightarrow> string \<Rightarrow> bool" where
  ds_Nil: "direct_stream [] []"
| ds_sep: "direct_stream ts txt0 \<Longrightarrow> c \<in> {CHR '','', CHR '':'', CHR '' ''} \<Longrightarrow> direct_stream ts (c # txt0)"
| ds_token: "direct_stream ts txt0 \<Longrightarrow> reread t d = (t, d) \<Longrightarrow> list_all json_safe_chr d \<Longrightarrow>
    direct_stream ((t, d) # ts) (token_text t d @ txt0)"
| ds_number: "direct_stream ts txt0 \<Longrightarrow> number_text d \<Longrightarrow> number_end txt0 \<Longrightarrow>
    direct_stream ((JSON_NUMBER, d) # ts) (d @ txt0)"

context byte_source
begin

lemma readNumber_ok:
  "jis_at s (d @ t) \<Longrightarrow> list_all number_chr d \<Longrightarrow> number_end t \<Longrightarrow>
   \<exists>s'. readNumber rb dst s = ret (dst @ d, s') \<and> jis_at s' t"
proof (induction d arbitrary: s dst)
  case Nil
  then have "\<not> number_chr (jis_cur s)" "jis_cur s \<noteq> CHR '' ''"
    by (cases t; auto simp: number_end_def number_chr_def isdigit_def dest!: jis_at_cur jis_at_Nil_cur)+
  with Nil show ?case by (subst readNumber.simps) simp
next
  case (Cons c d)
  then have "jis_cur s = c" "jis_at (advanceCursor rb s) (d @ t)"
    by (auto dest: jis_at_cur jis_at_advance)
  with Cons.IH [of "advanceCursor rb s" "dst @ [c]"] Cons.prems show ?case
    by (subst readNumber.simps) simp
qed

lemma readNextToken_number:
  assumes "jis_at s (d @ t)" "number_text d" "number_end t"
  shows "\<exists>s'. readNextToken rb s = ret (Some (JSON_NUMBER, d), s') \<and> jis_at s' t"
proof -
  obtain c d' where d: "d = c # d'" using assms(2) by (cases d) (auto simp: number_text_def)
  then have c: "jis_cur s = c" "c = CHR ''-'' \<or> isdigit c"
    using assms(1,2) by (auto simp: number_text_def dest: jis_at_cur)
  obtain s' where "readNumber rb [] s = ret (d, s')" "jis_at s' t"
    using readNumber_ok [OF assms(1) _ assms(3), of "[]"] assms(2) by (auto simp: number_text_def)
  then show ?thesis using c by (subst readNextToken.simps) (auto simp: isdigit_def)
qed

lemma parseJSON_loop_token:
  assumes "readNextToken rb s = ret (Some (t, d), s')" "\<And>st. parseJSON_loop rb st s' = Some (build ts st)"
  shows "parseJSON_loop rb st s = Some (build ((t, d) # ts) st)"
  by (subst parseJSON_loop.simps) (cases "parse_step t d st"; simp add: assms)

lemma parseJSON_loop_direct:
  "direct_stream ts txt0 \<Longrightarrow> jis_at s txt0 \<Longrightarrow> parseJSON_loop rb st s = Some (build ts st)"
proof (induction ts txt0 arbitrary: s st rule: direct_stream.induct)
  case ds_Nil
  then show ?case by (subst parseJSON_loop.simps) (simp add: readNextToken_end)
next
  case (ds_sep ts txt0 c)
  then have "[c] \<in> {[], '','', '':'', '' ''}" by auto
  then obtain s' where s': "readNextToken rb s = readNextToken rb s'" "jis_at s' txt0"
    using readNextToken_sep [of s "[c]" txt0] ds_sep.prems by auto
  have "parseJSON_loop rb st s = parseJSON_loop rb st s'"
    by (subst (1 2) parseJSON_loop.simps) (simp add: s'(1))
  with ds_sep.IH [OF s'(2)] show ?case by simp
next
  case (ds_token ts txt0 t d)
  then obtain s' where "readNextToken rb s = ret (Some (t, d), s')" "jis_at s' txt0"
    using readNextToken_token [OF ds_token.prems ds_token.hyps(3)] by auto
  then show ?case using ds_token.IH by (intro parseJSON_loop_token)
next
  case (ds_number ts txt0 d)
  then obtain s' where "readNextToken rb s = ret (Some (JSON_NUMBER, d), s')" "jis_at s' txt0"
    using readNextToken_number [OF ds_number.prems] by auto
  then show ?case using ds_number.IH by (intro parseJSON_loop_token)
qed

lemma parseJSON_stream_direct:
  assumes "direct_stream (raw (flatten v)) (rest i)" "invar i"
  shows "parseJSON_stream rb (jis_new i) = ret (flatten v)"
  using parseJSON_loop_direct [OF ds_sep [OF assms(1), of "CHR '' ''"] jis_at_new [OF assms(2)], of "([], [])"]
    build_flatten [of v "[]" "[]"]
  by (simp add: parseJSON_stream_def)

end

subsection \<open>The text of a document\<close>

fun direct_text :: "jvalue \<Rightarrow> string" where
  "direct_text (JObj kvs) =
     ''{'' @ str_join (map (\<lambda>kv. [CHR 0x22] @ escapeString (fst kv) @ [CHR 0x22] @ '': '' @ direct_text (snd kv)) kvs) '','' @ ''}''"
| "direct_text (JArr vs) = ''['' @ str_join (map direct_text vs) '','' @ '']''"
| "direct_text (JStr d) = [CHR 0x22] @ escapeString d @ [CHR 0x22]"
| "direct_text (JNum d) = d"
| "direct_text JTrue = ''true''"
| "direct_text JFalse = ''false''"
| "direct_text JNull = ''null''"

fun numbers_ok :: "jvalue \<Rightarrow> bool" where
  "numbers_ok (JObj kvs) \<longleftrightarrow> (\<forall>kv \<in> set kvs. numbers_ok (snd kv))"
| "numbers_ok (JArr vs) \<longleftrightarrow> (\<forall>v \<in> set vs. numbers_ok v)"
| "numbers_ok (JNum d) \<longleftrightarrow> number_text d"
| "numbers_ok _ \<longleftrightarrow> True"

definition prints :: "(kTokenType \<times> string) list \<Rightarrow> string \<Rightarrow> bool" where
  "prints ts s \<longleftrightarrow> (\<forall>us t. direct_stream us t \<longrightarrow> number_end t \<longrightarrow> direct_stream (ts @ us) (s @ t))"

lemma prints_join:
  "list_all2 (\<lambda>x s. prints (f x) s) xs ss \<Longrightarrow> prints (concat (map f xs)) (str_join ss '','')"
proof (induction xs ss rule: list_all2_induct)
  case Nil
  then show ?case by (simp add: prints_def)
next
  case (Cons x xs s ss)
  show ?case
  proof (cases ss)
    case Nil
    with Cons show ?thesis by simp
  next
    case (Cons s' ss')
    then show ?thesis
      using Cons.hyps Cons.IH ds_sep [of _ _ "CHR '',''"] by (auto simp: prints_def number_end_def)
  qed
qed

lemma prints_bracket:
  assumes "prints (raw body) s"
    and "(b, e) \<in> {(JSON_OBJECT_BEGIN, JSON_OBJECT_END), (JSON_ARRAY_BEGIN, JSON_ARRAY_END)}"
  shows "prints (raw (bracket b e body)) (token_text b [] @ s @ token_text e [])"
  unfolding prints_def
proof (intro allI impI)
  fix us t
  assume t: "direct_stream us t" "number_end t"
  have "direct_stream ((e, []) # us) (token_text e [] @ t)" using t assms(2) by (intro ds_token) auto
  moreover have "number_end (token_text e [] @ t)" using assms(2) by (auto simp: number_end_def)
  ultimately have "direct_stream (raw body @ (e, []) # us) (s @ token_text e [] @ t)"
    using assms(1) by (simp add: prints_def)
  then have "direct_stream ((b, []) # raw body @ (e, []) # us) (token_text b [] @ s @ token_text e [] @ t)"
    using assms(2) by (intro ds_token) auto
  then show "direct_stream (raw (bracket b e body) @ us) ((token_text b [] @ s @ token_text e []) @ t)" by simp
qed

lemma prints_entry:
  assumes "prints ts s" "list_all json_safe_chr k"
  shows "prints ((JSON_STRING, k) # ts) ([CHR 0x22] @ escapeString k @ [CHR 0x22] @ '': '' @ s)"
  unfolding prints_def
proof (intro allI impI)
  fix us t
  assume "direct_stream us t" "number_end t"
  with assms have "direct_stream (ts @ us) ('': '' @ s @ t)" by (auto simp: prints_def intro: ds_sep)
  from ds_token [OF this, of JSON_STRING k] assms(2)
  show "direct_stream (((JSON_STRING, k) # ts) @ us) (([CHR 0x22] @ escapeString k @ [CHR 0x22] @ '': '' @ s) @ t)"
    by simp
qed

lemma prints_token:
  "reread t d = (t, d) \<Longrightarrow> list_all json_safe_chr d \<Longrightarrow> prints [(t, d)] (token_text t d)"
  by (auto simp: prints_def intro: ds_token)

lemma prints_direct_text:
  "json_safe v \<Longrightarrow> numbers_ok v \<Longrightarrow> prints (raw (flatten v)) (direct_text v)"
proof (induction v rule: flatten.induct)
  case (1 kvs)
  let ?f = "\<lambda>kv. JSONToken JSON_STRING (fst kv) # flatten (snd kv)"
  have "prints (concat (map (\<lambda>kv. raw (?f kv)) kvs))
      (str_join (map (\<lambda>kv. [CHR 0x22] @ escapeString (fst kv) @ [CHR 0x22] @ '': '' @ direct_text (snd kv)) kvs) '','')"
  proof (rule prints_join, unfold list_all2_map2 list_all2_same, rule ballI)
    fix kv
    assume kv: "kv \<in> set kvs"
    with 1 have "prints (raw (flatten (snd kv))) (direct_text (snd kv))" "list_all json_safe_chr (fst kv)" by auto
    from prints_entry [OF this] show "prints (raw (?f kv))
        ([CHR 0x22] @ escapeString (fst kv) @ [CHR 0x22] @ '': '' @ direct_text (snd kv))"
      by (simp add: JSONToken_def)
  qed
  from prints_bracket [of "concat (map ?f kvs)", OF _ insertI1] this
  show ?case by (simp add: map_concat comp_def)
next
  case (2 vs)
  have "prints (concat (map (\<lambda>v. raw (flatten v)) vs)) (str_join (map direct_text vs) '','')"
    using 2 by (intro prints_join) (auto simp: list_all2_conv_all_nth)
  from prints_bracket [of "concat (map flatten vs)", OF _ insertI2 [OF insertI1]] this
  show ?case by (simp add: map_concat comp_def)
next
  case (4 d)
  then show ?case by (auto simp: prints_def JSONToken_def intro: ds_number)
next
  case (3 d)
  then show ?case using prints_token [of JSON_STRING d] by (simp add: JSONToken_def)
qed (use prints_token [of JSON_TRUE "[]"] prints_token [of JSON_FALSE "[]"] prints_token [of JSON_NULL "[]"]
     in \<open>simp_all add: JSONToken_def\<close>)

lemma parse_direct_text:
  assumes "json_safe v" "numbers_ok v"
  shows "parseJSON (direct_text v) = ret (flatten v)"
proof -
  have "direct_stream (raw (flatten v) @ []) (direct_text v @ [])"
    using prints_direct_text [OF assms] ds_Nil unfolding prints_def number_end_def by blast
  then show ?thesis
    using sis.parseJSON_stream_direct [of v "sis_new (direct_text v)"]
    by (simp add: parseJSON_def sis_new_def sis_rest_def sis_invar_def)
qed

lemma number_text_to_string_int [simp]: "number_text (to_string_int i)"
proof -
  have *: "list_all number_chr (to_string n)" "isdigit (hd (to_string n))" for n
    using to_string_digits [of _ n] hd_in_set [OF to_string_nonempty, of n] by (auto simp: list_all_iff number_chr_def)
  then show ?thesis by (simp add: number_text_def to_string_int_def number_chr_def)
qed

end
