(* ===== verification/Stx_SchemaJSON.thy ===== *)
theory Stx_SchemaJSON
  imports Stx_JSONText Stx_Protobuf
begin

text \<open>
  The textual forms of a schema (\<open>protobuf/MessageSchema.cc\<close>): \<open>toString\<close>, \<open>toJSON\<close>, \<open>fromJSON\<close>,
  and the operations that walk over nested schemas, \<open>maxFieldId\<close> and \<open>columns\<close>; the lookup part of
  \<open>MessageSchemaRepository\<close>.

  \<open>fromJSON\<close> runs on the token list of theory \<open>Stx_JSONUtil\<close>. Its recursion into nested schemas and its
  loop over the columns are one function with the loop index, as in \<open>decode_fields\<close>.
\<close>

section \<open>Printing a schema\<close>

definition type_prefix :: "bool \<Rightarrow> bool \<Rightarrow> string" where
  "type_prefix opt rep = (if opt then ''optional['' else []) @ (if rep then ''list['' else [])"

definition type_suffix :: "bool \<Rightarrow> bool \<Rightarrow> string" where
  "type_suffix opt rep = (if opt then '']'' else []) @ (if rep then '']'' else [])"

fun encoding_attrs :: "EncodingHint \<Rightarrow> string" where
  "encoding_attrs BITPACK = '' @encoding=BITPACK''"
| "encoding_attrs LEB128 = '' @encoding=LEB128''"
| "encoding_attrs _ = []"

definition indent :: "nat \<Rightarrow> string" where
  "indent level = replicate (level * 2) (CHR '' '')"

fun schemaNodeToString :: "nat \<Rightarrow> schema_field \<Rightarrow> string comp"
  and schemaNodesToString :: "nat \<Rightarrow> schema_field list \<Rightarrow> string comp" where
  "schemaNodeToString level (Field i n t ts rep opt enc sc) =
     (if t = OBJECT
      then
        bindC (map_option Inr (formatv (''$0$1object$2 $3 = $4 {'' @ [CHR 0x0A])
           [indent level, type_prefix opt rep, type_suffix opt rep, n, to_string (unat i)])) (\<lambda>head.
        bindC (case sc of
                 None \<Rightarrow> raise UndefinedBehaviour
               | Some (Schema n' fs ids types names) \<Rightarrow> schemaNodesToString (level + 1) fs) (\<lambda>body.
        ret (head @ body @ indent level @ ''}'' @ [CHR 0x0A])))
      else
        map_option Inr (formatv (''$0$1$2$3 $4 = $5$6;'' @ [CHR 0x0A])
          [indent level, type_prefix opt rep, typeName t, type_suffix opt rep, n, to_string (unat i),
           encoding_attrs enc]))"
| "schemaNodesToString level [] = ret []"
| "schemaNodesToString level (f # fs) =
     bindC (schemaNodeToString level f) (\<lambda>s. bindC (schemaNodesToString level fs) (\<lambda>t. ret (s @ t)))"

text \<open>\<open>toString\<close> takes the name with \<open>format\<close> and the nodes at level 1.\<close>

definition schema_toString :: "message_schema \<Rightarrow> string comp" where
  "schema_toString s =
     bindC (map_option Inr (formatv (''object $0 {'' @ [CHR 0x0A]) [sc_name s])) (\<lambda>head.
     bindC (schemaNodesToString 1 (sc_fields s)) (\<lambda>body. ret (head @ body @ ''}'')))"

section \<open>Walking over nested schemas\<close>

fun maxFieldId :: "message_schema \<Rightarrow> u32 result"
  and maxFieldId_loop :: "schema_field list \<Rightarrow> u32 \<Rightarrow> u32 result" where
  "maxFieldId (Schema n fs ids types names) = maxFieldId_loop fs 0"
| "maxFieldId_loop [] m = Inr m"
| "maxFieldId_loop (Field i n t ts rep opt enc sc # fs) m =
     (let m = (if i > m then i else m)
      in if t = OBJECT
         then (case sc of
                 None \<Rightarrow> Inl UndefinedBehaviour
               | Some s \<Rightarrow> bindE (maxFieldId s) (\<lambda>k. maxFieldId_loop fs (if k > m then k else m)))
         else maxFieldId_loop fs m)"

fun columns :: "message_schema \<Rightarrow> (string \<times> schema_field) list result"
  and columns_loop :: "schema_field list \<Rightarrow> (string \<times> schema_field) list result" where
  "columns (Schema n fs ids types names) = columns_loop fs"
| "columns_loop [] = Inr []"
| "columns_loop (Field i n t ts rep opt enc sc # fs) =
     bindE
       (if t = OBJECT
        then (case sc of
                None \<Rightarrow> Inl UndefinedBehaviour
              | Some s \<Rightarrow> bindE (columns s) (\<lambda>cs. Inr (map (\<lambda>c. (n @ ''.'' @ fst c, snd c)) cs)))
        else Inr [(n, Field i n t ts rep opt enc sc)])
       (\<lambda>cs. bindE (columns_loop fs) (\<lambda>ds. Inr (cs @ ds)))"

section \<open>JSON\<close>

text \<open>The encoding hint is always written as \<open>NONE\<close>.\<close>

fun schema_toJSON :: "'o byte_writer \<Rightarrow> message_schema \<Rightarrow> 'o \<Rightarrow> 'o comp"
  and field_toJSON :: "'o byte_writer \<Rightarrow> schema_field \<Rightarrow> 'o \<Rightarrow> 'o comp"
  and fields_toJSON :: "'o byte_writer \<Rightarrow> nat \<Rightarrow> schema_field list \<Rightarrow> 'o \<Rightarrow> 'o comp" where
  "schema_toJSON put (Schema n fs ids types names) =
     seqW [beginObject put,
           addObjectEntry put ''name'', addString put n, addComma put,
           addObjectEntry put ''columns'', beginArray put, fields_toJSON put 0 fs, endArray put,
           endObject put]"
| "field_toJSON put (Field i n t ts rep opt enc sc) =
     seqW [beginObject put,
           addObjectEntry put ''id'', addInteger put (ucast i), addComma put,
           addObjectEntry put ''name'', addString put n, addComma put,
           addObjectEntry put ''type'', addString put (fieldTypeToString t), addComma put,
           addObjectEntry put ''type_size'', addInteger put ts, addComma put,
           addObjectEntry put ''optional'', if opt then addTrue put else addFalse put, addComma put,
           addObjectEntry put ''repeated'', if rep then addTrue put else addFalse put, addComma put,
           addObjectEntry put ''encoding_hint'', addString put ''NONE'',
           if t = OBJECT
           then seqW [addComma put, addObjectEntry put ''schema'',
                      case sc of None \<Rightarrow> (\<lambda>out. raise UndefinedBehaviour) | Some s \<Rightarrow> schema_toJSON put s]
           else seqW [],
           endObject put]"
| "fields_toJSON put i [] = seqW []"
| "fields_toJSON put i (f # fs) =
     seqW [if i > 0 then addComma put else seqW [], field_toJSON put f, fields_toJSON put (i + 1) fs]"

text \<open>The name, the position of the columns and their number.\<close>

definition fromJSON_header ::
  "json_object \<Rightarrow> nat \<Rightarrow> nat \<Rightarrow> message_schema \<Rightarrow> (message_schema \<times> nat \<times> nat) comp" where
  "fromJSON_header obj b e s =
     bindC (objectGetString obj b e ''name'') (\<lambda>tname.
     bindC (objectLookup obj b e ''columns'') (\<lambda>cols.
       if cols = e then raise kRuntimeError
       else bindC (arrayLength obj cols e) (\<lambda>ncols.
         ret ((case tname of None \<Rightarrow> s | Some n \<Rightarrow> setName n s), cols, ncols))))"

text \<open>The scalar members of a column; ids and sizes are read as 64-bit numbers.\<close>

definition fromJSON_column ::
  "json_object \<Rightarrow> nat \<Rightarrow> nat \<Rightarrow> schema_field comp" where
  "fromJSON_column obj col e =
     bindC (objectGetUInt64 obj col e ''id'') (\<lambda>i.
       if i = None then raise kRuntimeError
       else bindC (objectGetString obj col e ''name'') (\<lambda>n.
         if n = None then raise kRuntimeError
         else bindC (objectGetString obj col e ''type'') (\<lambda>t.
           if t = None then raise kRuntimeError
           else bindC (objectGetUInt64 obj col e ''type_size'') (\<lambda>ts.
             bindC (objectGetBool obj col e ''optional'') (\<lambda>opt.
             bindC (objectGetBool obj col e ''repeated'') (\<lambda>rep.
             bindC (Some (fieldTypeFromString (the t))) (\<lambda>ft.
               ret (Field (ucast (the i)) (the n) ft (case ts of None \<Rightarrow> 0 | Some v \<Rightarrow> v)
                      (rep = Some True) (opt = Some True) NONE None))))))))"

partial_function (option) fromJSON_columns ::
  "json_object \<Rightarrow> nat \<Rightarrow> nat \<Rightarrow> nat \<Rightarrow> nat \<Rightarrow> message_schema \<Rightarrow> message_schema comp" where
  "fromJSON_columns obj e cols ncols i s =
     (if i < ncols
      then
        bindC (arrayLookup obj cols e i) (\<lambda>col.
        bindC (fromJSON_column obj col e) (\<lambda>f.
          if f_type f = OBJECT
          then bindC (objectLookup obj col e ''schema'') (\<lambda>c.
                 if c = e then raise kRuntimeError
                 else bindC (fromJSON_header obj c e schema_null) (\<lambda>(child, ccols, cn).
                      bindC (fromJSON_columns obj e ccols cn 0 child) (\<lambda>child.
                      fromJSON_columns obj e cols ncols (i + 1)
                        (addField (mkObjectField (f_id f) (f_name f) (f_repeated f) (f_optional f) child) s))))
          else fromJSON_columns obj e cols ncols (i + 1) (addField f s)))
      else ret s)"

declare fromJSON_columns.simps [code]

definition schema_fromJSON :: "json_object \<Rightarrow> nat \<Rightarrow> nat \<Rightarrow> message_schema \<Rightarrow> message_schema comp" where
  "schema_fromJSON obj b e s =
     bindC (fromJSON_header obj b e s) (\<lambda>(s, cols, ncols). fromJSON_columns obj e cols ncols 0 s)"

section \<open>MessageSchemaRepository\<close>

text \<open>The descriptors of the protobuf pool are an argument: the pool belongs to the protobuf library.\<close>

definition getSchema ::
  "(string \<Rightarrow> message_schema result option) \<Rightarrow> (string \<rightharpoonup> message_schema) \<Rightarrow> string \<Rightarrow> message_schema result" where
  "getSchema pool schemas name =
     (case schemas name of
        Some s \<Rightarrow> Inr s
      | None \<Rightarrow> (case pool name of Some r \<Rightarrow> r | None \<Rightarrow> Inl kRuntimeError))"

definition registerSchema :: "message_schema \<Rightarrow> (string \<rightharpoonup> message_schema) \<Rightarrow> (string \<rightharpoonup> message_schema)" where
  "registerSchema s schemas = emplace schemas (sc_name s) s"

section \<open>The document of a schema\<close>

definition jbool :: "bool \<Rightarrow> jvalue" where
  "jbool b = (if b then JTrue else JFalse)"

definition jint :: "u64 \<Rightarrow> jvalue" where
  "jint v = JNum (to_string_int (sint v))"

fun schema_json :: "message_schema \<Rightarrow> jvalue"
  and field_json :: "schema_field \<Rightarrow> jvalue" where
  "schema_json (Schema n fs ids types names) =
     JObj [(''name'', JStr n), (''columns'', JArr (map field_json fs))]"
| "field_json (Field i n t ts rep opt enc sc) =
     JObj ([(''id'', jint (ucast i)), (''name'', JStr n), (''type'', JStr (fieldTypeToString t)),
            (''type_size'', jint ts), (''optional'', jbool opt), (''repeated'', jbool rep),
            (''encoding_hint'', JStr ''NONE'')] @
           (if t = OBJECT
            then [(''schema'', case sc of None \<Rightarrow> JNull | Some s \<Rightarrow> schema_json s)] else []))"

text \<open>
  Schemas the JSON form can express: indexed, nested exactly at the object fields, names without
  control characters, no encoding hints and no size at object fields.
\<close>

fun schema_plain :: "message_schema \<Rightarrow> bool"
  and field_plain :: "schema_field \<Rightarrow> bool" where
  "schema_plain (Schema n fs ids types names) \<longleftrightarrow>
     schema_index (Schema n fs ids types names) \<and> list_all json_safe_chr n \<and> (\<forall>f \<in> set fs. field_plain f)"
| "field_plain (Field i n t ts rep opt enc sc) \<longleftrightarrow>
     list_all json_safe_chr n \<and> enc = NONE \<and> fieldTypeToString t \<noteq> [] \<and>
     (case sc of None \<Rightarrow> t \<noteq> OBJECT | Some s \<Rightarrow> t = OBJECT \<and> ts = 0 \<and> schema_plain s)"

lemmas schema_json_induct = schema_json_field_json.induct

lemma strto_prefix_minus:
  "strto_prefix (CHR ''-'' # to_string n) = Some (True, to_string n, Suc (length (to_string n)))"
proof -
  have tw: "takeWhile isdigit (to_string n) = to_string n"
    using takeWhile_isdigit_to_string [of "[]" n] by simp
  show ?thesis by (simp add: strto_prefix_def isspace_def Let_def tw)
qed

lemma stoul_jint [simp]: "stoul (to_string_int (sint (v :: u64))) = Inr v"
proof (cases "sint v < 0")
  case True
  let ?n = "nat (- sint v)"
  have n: "?n < 2 ^ 64" using sint_ge [of v] True by simp
  have "word_of_int (sint v) = v" by simp
  then have "- word_of_nat ?n = v" using True by (simp add: word_of_nat_eq_iff flip: of_int_minus)
  then show ?thesis using True n
    by (simp add: stoul_def stoull_def to_string_int_def strto_prefix_minus)
next
  case False
  have "nat (sint v) < 2 ^ 64" using sint_less [of v] by simp
  moreover have "word_of_nat (nat (sint v)) = v" using False by simp
  ultimately show ?thesis using False by (simp add: to_string_int_def)
qed

lemma json_safe_string_literals [simp]:
  "list_all json_safe_chr (fieldTypeToString t)"
  by (cases t) (simp_all add: json_safe_chr_def)

lemma json_safe_digits [simp]: "list_all json_safe_chr (to_string_int i)"
proof -
  have "list_all json_safe_chr (to_string n)" for n
    using to_string_digits [of _ n] by (force simp: list_all_iff json_safe_chr_def isdigit_def)
  then show ?thesis by (simp add: to_string_int_def json_safe_chr_def)
qed

lemma schema_json_safe:
  "schema_plain s \<Longrightarrow> json_safe (schema_json s) \<and> numbers_ok (schema_json s)"
  "field_plain f \<Longrightarrow> json_safe (field_json f) \<and> numbers_ok (field_json f)"
proof (induction s and f rule: schema_json_induct)
  case (2 i n t ts rep opt enc sc)
  then show ?case by (auto simp: jint_def jbool_def json_safe_chr_def split: option.splits)
qed (auto simp: json_safe_chr_def)

context byte_sink
begin

lemma emits_if: "emits (if b then addTrue put else addFalse put) (direct_text (jbool b))"
  by (cases b) (simp_all add: jbool_def emits_direct)

lemma emits_addInteger: "emits (addInteger put v) (direct_text (jint v))"
  by (simp add: jint_def emits_direct)

lemma emits_addString_text: "emits (addString put d) (direct_text (JStr d))"
  using emits_addString by simp

lemmas emits_rules = emits_direct emits_addString_text emits_addInteger emits_if emits_addObjectEntry

lemma emits_fields:
  "(\<And>f. f \<in> set fs \<Longrightarrow> emits (field_toJSON put f) (direct_text (field_json f))) \<Longrightarrow>
   emits (fields_toJSON put i fs)
     ((if i > 0 \<and> fs \<noteq> [] then '','' else []) @ str_join (map (\<lambda>f. direct_text (field_json f)) fs) '','')"
proof (induction fs arbitrary: i)
  case Nil
  show ?case using emits_seqW_Nil by (simp del: seqW.simps)
next
  case (Cons f fs)
  have sep: "emits (if i > 0 then addComma put else seqW []) (if i > 0 then '','' else [])"
    using emits_seqW_Nil by (simp add: emits_direct)
  have "emits (fields_toJSON put (i + 1) fs)
      ((if fs \<noteq> [] then '','' else []) @ str_join (map (\<lambda>f. direct_text (field_json f)) fs) '','')"
    using Cons.IH [of "i + 1"] Cons.prems by simp
  with emits_seqW [of "[if i > 0 then addComma put else seqW [], field_toJSON put f, fields_toJSON put (i + 1) fs]"
      "[if i > 0 then '','' else [], direct_text (field_json f), (if fs \<noteq> [] then '','' else []) @
        str_join (map (\<lambda>f. direct_text (field_json f)) fs) '','']"] sep Cons.prems
  show ?case by (cases fs) (simp_all del: seqW.simps)
qed

lemma emits_schema:
  "schema_plain s \<Longrightarrow> emits (schema_toJSON put s) (direct_text (schema_json s))"
  "field_plain f \<Longrightarrow> emits (field_toJSON put f) (direct_text (field_json f))"
proof (induction s and f rule: schema_json_induct)
  case (1 n fs ids types names)
  then have "emits (fields_toJSON put 0 fs) (str_join (map (\<lambda>f. direct_text (field_json f)) fs) '','')"
    using emits_fields [of fs 0] by simp
  have "emits (schema_toJSON put (Schema n fs ids types names)) (concat [''{'', 
      [CHR 0x22] @ escapeString ''name'' @ [CHR 0x22] @ '': '', direct_text (JStr n), '','',
      [CHR 0x22] @ escapeString ''columns'' @ [CHR 0x22] @ '': '', ''['',
      str_join (map (\<lambda>f. direct_text (field_json f)) fs) '','', '']'', ''}''])"
    unfolding schema_toJSON.simps
    by (rule emits_seqW, intro list_all2_Cons [THEN iffD2] conjI list.rel_inject(1) emits_rules)
       (fact | simp add: escapeString_def escape_chr_def)+
  then show ?case by (simp del: seqW.simps add: comp_def)
next
  case (2 i n t ts rep opt enc sc)
  let ?key = "\<lambda>k. [CHR 0x22] @ escapeString k @ [CHR 0x22] @ '': ''"
  let ?sub = "if t = OBJECT then concat ['','', ?key ''schema'',
    direct_text (case sc of None \<Rightarrow> JNull | Some s \<Rightarrow> schema_json s)] else []"
  have sub: "emits (if t = OBJECT
      then seqW [addComma put, addObjectEntry put ''schema'',
        case sc of None \<Rightarrow> (\<lambda>out. raise UndefinedBehaviour) | Some s \<Rightarrow> schema_toJSON put s]
      else seqW []) ?sub"
  proof (cases "t = OBJECT")
    case True
    then obtain s where s: "sc = Some s" "emits (schema_toJSON put s) (direct_text (schema_json s))"
      using 2 by (cases sc) auto
    show ?thesis
      unfolding if_P [OF True] s(1) option.case
      by (rule emits_seqW, intro list_all2_Cons [THEN iffD2] conjI list.rel_inject(1) emits_rules s(2))
         (simp add: escapeString_def escape_chr_def)+
  next
    case False
    then show ?thesis using emits_seqW_Nil by simp
  qed
  have "emits (field_toJSON put (Field i n t ts rep opt enc sc)) (concat [''{'',
      ?key ''id'', direct_text (jint (ucast i)), '','', ?key ''name'', direct_text (JStr n), '','',
      ?key ''type'', direct_text (JStr (fieldTypeToString t)), '','',
      ?key ''type_size'', direct_text (jint ts), '','', ?key ''optional'', direct_text (jbool opt), '','',
      ?key ''repeated'', direct_text (jbool rep), '','', ?key ''encoding_hint'', direct_text (JStr ''NONE''),
      ?sub, ''}''])"
    unfolding field_toJSON.simps
    by (rule emits_seqW, intro list_all2_Cons [THEN iffD2] conjI list.rel_inject(1) emits_rules sub)
       (simp add: escapeString_def escape_chr_def)+
  then show ?case by (cases "t = OBJECT") (simp_all del: seqW.simps)
qed

end

section \<open>Reading a schema document\<close>

lemma fieldTypeFromString_inv: "fieldTypeToString t \<noteq> [] \<Longrightarrow> fieldTypeFromString (fieldTypeToString t) = Inr t"
  by (rule fieldType_string_roundtrip) auto

lemma fromJSON_column_ok:
  assumes v: "value_at obj e col (field_json (Field i n t ts rep opt enc sc))" and t: "fieldTypeToString t \<noteq> []"
  shows "fromJSON_column obj col e = ret (Field i n t ts rep opt NONE None)"
proof -
  note at = v [unfolded field_json.simps]
  have "objectGetUInt64 obj col e ''id'' = ret (Some (ucast i))"
    "objectGetString obj col e ''name'' = ret (Some n)"
    "objectGetString obj col e ''type'' = ret (Some (fieldTypeToString t))"
    "objectGetUInt64 obj col e ''type_size'' = ret (Some ts)"
    "objectGetBool obj col e ''optional'' = ret (Some opt)"
    "objectGetBool obj col e ''repeated'' = ret (Some rep)"
    using objectGetUInt64_at [OF at, of "''id''"] objectGetString_at [OF at, of "''name''"]
      objectGetString_at [OF at, of "''type''"] objectGetUInt64_at [OF at, of "''type_size''"]
      objectGetBool_at [OF at, of "''optional''"] objectGetBool_at [OF at, of "''repeated''"]
    by (simp_all add: jint_def jbool_def)
  then show ?thesis using fieldTypeFromString_inv [OF t] by (simp add: fromJSON_column_def)
qed

lemma fromJSON_header_ok:
  assumes "value_at obj e b (schema_json (Schema n fs ids types names))"
  obtains cols where "fromJSON_header obj b e s = ret (setName n s, cols, length fs)"
    "value_at obj e cols (JArr (map field_json fs))"
proof -
  note at = assms [unfolded schema_json.simps]
  obtain cols where c: "objectLookup obj b e ''columns'' = ret cols" "cols \<noteq> e"
    "value_at obj e cols (JArr (map field_json fs))"
    using objectLookup_at [OF at, of "''columns''"] by auto
  moreover have "objectGetString obj b e ''name'' = ret (Some n)"
    by (rule objectGetString_at [OF at]) simp
  ultimately have "fromJSON_header obj b e s = ret (setName n s, cols, length fs)"
    using arrayLength_at [OF c(3)] by (simp add: fromJSON_header_def)
  with c(3) show ?thesis by (rule that [rotated])
qed

lemma fromJSON_columns_ok:
  assumes arr: "value_at obj e cols (JArr (map field_json fs))" and plain: "\<forall>f \<in> set fs. field_plain f"
    and sub: "\<And>f s b. f \<in> set fs \<Longrightarrow> f_schema f = Some s \<Longrightarrow> value_at obj e b (schema_json s) \<Longrightarrow>
      schema_fromJSON obj b e schema_null = ret s"
    and "i \<le> length fs"
  shows "fromJSON_columns obj e cols (length fs) i s0 = ret (fold addField (drop i fs) s0)"
  using assms(4)
proof (induction "length fs - i" arbitrary: i s0)
  case 0
  then show ?case by (subst fromJSON_columns.simps) simp
next
  case (Suc k)
  then have i: "i < length fs" by simp
  obtain fi n t ts rep opt enc sc where f: "fs ! i = Field fi n t ts rep opt enc sc" by (cases "fs ! i") auto
  have mem: "fs ! i \<in> set fs" using i by simp
  then have p: "enc = NONE" "fieldTypeToString t \<noteq> []" "case sc of None \<Rightarrow> t \<noteq> OBJECT | Some s \<Rightarrow> t = OBJECT \<and> ts = 0"
    using plain f by (auto split: option.splits)
  have IH: "fromJSON_columns obj e cols (length fs) (i + 1) s1 = ret (fold addField (drop (i + 1) fs) s1)" for s1
    using Suc.hyps i by auto
  have drop: "fold addField (drop i fs) s0 = fold addField (drop (i + 1) fs) (addField (fs ! i) s0)"
    using i by (simp flip: Cons_nth_drop_Suc)
  obtain col where col: "arrayLookup obj cols e i = ret col" "value_at obj e col (field_json (fs ! i))"
    using arrayLookup_at [OF arr, of i] i by auto
  note head = fromJSON_column_ok [OF col(2) [unfolded f] p(2)]
  show ?case
  proof (cases sc)
    case None
    then show ?thesis using i col(1) head p IH drop f by (subst fromJSON_columns.simps) simp
  next
    case (Some s)
    then have t: "t = OBJECT" "ts = 0" using p(3) by auto
    obtain c where c: "objectLookup obj col e ''schema'' = ret c" "c \<noteq> e" "value_at obj e c (schema_json s)"
      using objectLookup_at [OF col(2) [unfolded f field_json.simps], of "''schema''"] Some t by auto
    have "f_schema (fs ! i) = Some s" using f Some by simp
    from sub [OF mem this c(3)] obtain child ccols cn where h:
      "fromJSON_header obj c e schema_null = ret (child, ccols, cn)"
      "fromJSON_columns obj e ccols cn 0 child = ret s"
      by (auto simp: schema_fromJSON_def bindC_eq_ret)
    have "mkObjectField fi n rep opt s = fs ! i" using f Some t p(1) by (simp add: mkObjectField_def)
    with i col(1) head t c(1,2) h IH drop show ?thesis by (subst fromJSON_columns.simps) simp
  qed
qed

lemma schema_fromJSON_ok:
  "schema_plain s \<Longrightarrow> value_at obj e b (schema_json s) \<Longrightarrow> schema_fromJSON obj b e schema_null = ret s"
  "field_plain f \<Longrightarrow> f_schema f = Some s' \<Longrightarrow> value_at obj e b (schema_json s') \<Longrightarrow>
   schema_fromJSON obj b e schema_null = ret s'"
proof (induction s and f arbitrary: b and b s' rule: schema_json_induct)
  case (1 n fs ids types names)
  let ?s = "Schema n fs ids types names"
  obtain cols where c: "fromJSON_header obj b e schema_null = ret (setName n schema_null, cols, length fs)"
    "value_at obj e cols (JArr (map field_json fs))"
    using "1.prems"(2) by (rule fromJSON_header_ok)
  have "fromJSON_columns obj e cols (length fs) 0 (setName n schema_null) = ret (fold addField fs (setName n schema_null))"
    using fromJSON_columns_ok [OF c(2), of 0] "1.IH" "1.prems"(1) by auto
  moreover have "fold addField fs (setName n schema_null) = ?s"
    using MessageSchema_eq [of ?s] "1.prems"(1) by (simp add: MessageSchema_def)
  ultimately show ?case using c(1) by (simp add: schema_fromJSON_def)
next
  case (2 i n t ts rep opt enc sc)
  then show ?case by (cases sc) auto
qed

section \<open>Reference definitions\<close>

text \<open>A schema nests schemas exactly at its object fields.\<close>

fun schema_nested :: "message_schema \<Rightarrow> bool"
  and field_nested :: "schema_field \<Rightarrow> bool" where
  "schema_nested (Schema n fs ids types names) \<longleftrightarrow> (\<forall>f \<in> set fs. field_nested f)"
| "field_nested (Field i n t ts rep opt enc sc) \<longleftrightarrow>
     (case sc of None \<Rightarrow> t \<noteq> OBJECT | Some s \<Rightarrow> t = OBJECT \<and> schema_nested s)"

text \<open>All fields at any depth, and the scalar fields with the dotted path that leads to them.\<close>

inductive nested_field :: "message_schema \<Rightarrow> schema_field \<Rightarrow> bool" where
  nf_here: "f \<in> set (sc_fields s) \<Longrightarrow> nested_field s f"
| nf_deep: "g \<in> set (sc_fields s) \<Longrightarrow> f_schema g = Some t \<Longrightarrow> nested_field t f \<Longrightarrow> nested_field s f"

inductive leaf_path :: "message_schema \<Rightarrow> string \<Rightarrow> schema_field \<Rightarrow> bool" where
  lp_here: "f \<in> set (sc_fields s) \<Longrightarrow> f_type f \<noteq> OBJECT \<Longrightarrow> leaf_path s (f_name f) f"
| lp_deep: "g \<in> set (sc_fields s) \<Longrightarrow> f_schema g = Some t \<Longrightarrow> leaf_path t p f \<Longrightarrow>
    leaf_path s (f_name g @ ''.'' @ p) f"

inductive_simps nested_field_Schema: "nested_field (Schema n fs ids types names) f"
inductive_simps leaf_path_Schema: "leaf_path (Schema n fs ids types names) p f"

lemma nested_field_cases:
  "nested_field (Schema n fs ids types names) g \<longleftrightarrow>
     (\<exists>f \<in> set fs. g = f \<or> (\<exists>s. f_schema f = Some s \<and> nested_field s g))"
  by (auto simp: nested_field_Schema)

definition greatest_id :: "(schema_field \<Rightarrow> bool) \<Rightarrow> u32 \<Rightarrow> bool" where
  "greatest_id P k \<longleftrightarrow> (\<forall>g. P g \<longrightarrow> f_id g \<le> k) \<and> (k = 0 \<or> (\<exists>g. P g \<and> f_id g = k))"

lemma greatest_id_or:
  "greatest_id P m \<Longrightarrow> greatest_id Q k \<Longrightarrow> greatest_id (\<lambda>g. P g \<or> Q g) (if k > m then k else m)"
proof -
  assume PQ: "greatest_id P m" "greatest_id Q k"
  have "(if k > m then k else m) = max m k" by (auto simp: max_def)
  moreover have "f_id g \<le> max m k" if "P g \<or> Q g" for g
    using PQ that by (auto simp: greatest_id_def le_max_iff_disj)
  moreover have "max m k = 0 \<or> (\<exists>g. (P g \<or> Q g) \<and> f_id g = max m k)"
    using PQ by (cases m k rule: le_cases) (auto simp: greatest_id_def max.absorb1 max.absorb2)
  ultimately show ?thesis by (simp add: greatest_id_def)
qed

lemma greatest_id_single: "greatest_id (\<lambda>g. g = f) (f_id f)"
  by (simp add: greatest_id_def)

lemma maxFieldId_loop_ok:
  assumes "\<forall>f \<in> set fs. field_nested f" "greatest_id P m"
    and "\<forall>f \<in> set fs. \<forall>s. f_schema f = Some s \<longrightarrow> (\<exists>k. maxFieldId s = Inr k \<and> greatest_id (nested_field s) k)"
  shows "\<exists>k. maxFieldId_loop fs m = Inr k \<and>
    greatest_id (\<lambda>g. P g \<or> (\<exists>f \<in> set fs. g = f \<or> (\<exists>s. f_schema f = Some s \<and> nested_field s g))) k"
  using assms
proof (induction fs arbitrary: P m)
  case Nil
  then show ?case by simp
next
  case (Cons f fs)
  obtain i n t ts rep opt enc sc where f: "f = Field i n t ts rep opt enc sc" by (cases f) auto
  let ?m = "if i > m then i else m"
  have IH: "\<exists>k. maxFieldId_loop fs m' = Inr k \<and>
      greatest_id (\<lambda>g. P' g \<or> (\<exists>f \<in> set fs. g = f \<or> (\<exists>s. f_schema f = Some s \<and> nested_field s g))) k"
    if "greatest_id P' m'" for P' m'
    using Cons.IH [OF _ that] Cons.prems(1,3) by simp
  have m: "greatest_id (\<lambda>g. P g \<or> g = f) ?m"
    using greatest_id_or [OF Cons.prems(2) greatest_id_single [of f]] unfolding f by (simp split: if_splits)
  show ?case
  proof (cases sc)
    case None
    then show ?thesis using IH [OF m] f Cons.prems(1) by (simp add: Let_def disj_assoc)
  next
    case (Some s)
    then obtain j where j: "maxFieldId s = Inr j" "greatest_id (nested_field s) j" "t = OBJECT"
      using Cons.prems(1,3) f by fastforce
    from IH [OF greatest_id_or [OF m j(2)]] show ?thesis
      using f Some j(1,3) by (simp add: Let_def disj_assoc)
  qed
qed

lemma maxFieldId_ok:
  "schema_nested s \<Longrightarrow> \<exists>k. maxFieldId s = Inr k \<and> greatest_id (nested_field s) k"
  "field_nested f \<Longrightarrow> f_schema f = Some t \<Longrightarrow> \<exists>k. maxFieldId t = Inr k \<and> greatest_id (nested_field t) k"
proof (induction s and f arbitrary: and t rule: schema_nested_field_nested.induct)
  case (1 n fs ids types names)
  have "greatest_id (\<lambda>g. False) 0" by (simp add: greatest_id_def)
  from maxFieldId_loop_ok [OF _ this, of fs] 1 show ?case
    by (simp add: nested_field_cases [abs_def] fun_eq_iff)
qed auto

definition paths_of :: "schema_field list \<Rightarrow> string \<Rightarrow> schema_field \<Rightarrow> bool" where
  "paths_of fs p g \<longleftrightarrow> (\<exists>f \<in> set fs. (f_type f \<noteq> OBJECT \<and> p = f_name f \<and> g = f) \<or>
     (\<exists>s q. f_schema f = Some s \<and> leaf_path s q g \<and> p = f_name f @ ''.'' @ q))"

lemma leaf_path_cases: "leaf_path (Schema n fs ids types names) p g \<longleftrightarrow> paths_of fs p g"
  by (auto simp: leaf_path_Schema paths_of_def)

lemma columns_loop_ok:
  assumes "\<forall>f \<in> set fs. field_nested f"
    and "\<forall>f \<in> set fs. \<forall>s. f_schema f = Some s \<longrightarrow>
      (\<exists>cs. columns s = Inr cs \<and> (\<forall>p g. (p, g) \<in> set cs \<longleftrightarrow> leaf_path s p g))"
  shows "\<exists>cs. columns_loop fs = Inr cs \<and> (\<forall>p g. (p, g) \<in> set cs \<longleftrightarrow> paths_of fs p g)"
  using assms
proof (induction fs)
  case Nil
  then show ?case by (simp add: paths_of_def)
next
  case (Cons f fs)
  obtain i n t ts rep opt enc sc where f: "f = Field i n t ts rep opt enc sc" by (cases f) auto
  obtain cs where cs: "columns_loop fs = Inr cs" "\<forall>p g. (p, g) \<in> set cs \<longleftrightarrow> paths_of fs p g"
    using Cons.IH Cons.prems by auto
  have step: "paths_of (f # fs) p g \<longleftrightarrow> paths_of [f] p g \<or> paths_of fs p g" for p g
    by (auto simp: paths_of_def)
  show ?case
  proof (cases sc)
    case None
    with f Cons.prems(1) have "columns_loop (f # fs) = Inr ((n, f) # cs)" using cs(1) by simp
    moreover have "paths_of [f] p g \<longleftrightarrow> (p, g) = (n, f)" for p g
      using f None Cons.prems(1) by (auto simp: paths_of_def)
    ultimately show ?thesis using cs(2) step by simp
  next
    case (Some s)
    then obtain ds where ds: "columns s = Inr ds" "\<forall>p g. (p, g) \<in> set ds \<longleftrightarrow> leaf_path s p g" "t = OBJECT"
      using Cons.prems f by fastforce
    then have "columns_loop (f # fs) = Inr (map (\<lambda>c. (n @ ''.'' @ fst c, snd c)) ds @ cs)"
      using cs(1) f Some by simp
    moreover have "(p, g) \<in> set (map (\<lambda>c. (n @ ''.'' @ fst c, snd c)) ds) \<longleftrightarrow> paths_of [f] p g" for p g
      using ds(2,3) f Some by (force simp: paths_of_def)
    ultimately show ?thesis using cs(2) step by simp
  qed
qed

lemma columns_ok:
  "schema_nested s \<Longrightarrow> \<exists>cs. columns s = Inr cs \<and> (\<forall>p g. (p, g) \<in> set cs \<longleftrightarrow> leaf_path s p g)"
  "field_nested f \<Longrightarrow> f_schema f = Some t \<Longrightarrow> \<exists>cs. columns t = Inr cs \<and> (\<forall>p g. (p, g) \<in> set cs \<longleftrightarrow> leaf_path t p g)"
proof (induction s and f arbitrary: and t rule: schema_nested_field_nested.induct)
  case (1 n fs ids types names)
  then show ?case using columns_loop_ok [of fs] by (simp add: leaf_path_cases)
qed auto

section \<open>Properties\<close>

text \<open>C19. The JSON form of a schema, with its nested schemas, is read back to the same schema: \<open>toJSON\<close>
  writes a text that \<open>parseJSON\<close> accepts and from which \<open>fromJSON\<close> rebuilds the schema, lookup
  maps included. The fields have no encoding hint, which \<open>toJSON\<close> would lose, types that have a name and names without
  control characters, and only objects have schemas (\<open>schema_plain\<close>).\<close>

theorem schema_json_roundtrip:
  assumes "schema_plain s"
  shows "\<exists>str obj. schema_toJSON sos_write s [] = ret str \<and> parseJSON str = ret obj \<and>
    schema_fromJSON obj 0 (length obj) schema_null = ret s"
proof -
  obtain str where "schema_toJSON sos_write s [] = ret str" "bytes_of str = bytes_of [] @ bytes_of (direct_text (schema_json s))"
    using sos.emits_schema(1) [OF assms] unfolding sos.emits_def by blast
  moreover from this have "str = direct_text (schema_json s)" using bytes_of_inject by simp
  moreover have "value_at (flatten (schema_json s)) (length (flatten (schema_json s))) 0 (schema_json s)"
    by (simp add: value_at_def)
  ultimately show ?thesis
    using parse_direct_text [of "schema_json s"] schema_json_safe(1) [OF assms] schema_fromJSON_ok(1) [OF assms] by blast
qed

theorem schema_json_roundtrip_witness:
  "\<exists>s str obj. s = MessageSchema ''m'' [Field 1 ''a'' UINT32 4 False True NONE None,
       mkObjectField 2 ''sub'' True False (MessageSchema ''s'' [Field 7 ''x'' STRING 0 False False NONE None])] \<and>
     schema_toJSON sos_write s [] = ret str \<and> parseJSON str = ret obj \<and>
     schema_fromJSON obj 0 (length obj) schema_null = ret s"
proof -
  let ?t = "MessageSchema ''s'' [Field 7 ''x'' STRING 0 False False NONE None]"
  let ?s = "MessageSchema ''m'' [Field 1 ''a'' UINT32 4 False True NONE None, mkObjectField 2 ''sub'' True False ?t]"
  have "schema_index ?s" "schema_index ?t" by (rule schema_index_MessageSchema)+
  then have "schema_plain ?s"
    by (simp add: MessageSchema_def addField_def setName_def schema_null_def mkObjectField_def json_safe_chr_def)
  then show ?thesis using schema_json_roundtrip [of ?s] by blast
qed

text \<open>\<open>columns\<close> lists exactly the scalar fields at any depth under their dotted paths, and \<open>maxFieldId\<close>
  is the largest id of all fields at any depth, 0 when there is none.\<close>

theorem schema_columns_correct:
  assumes "schema_nested s"
  shows "(\<exists>cs. columns s = Inr cs \<and> (\<forall>p f. (p, f) \<in> set cs \<longleftrightarrow> leaf_path s p f)) \<and>
    (\<exists>k. maxFieldId s = Inr k \<and> (\<forall>f. nested_field s f \<longrightarrow> f_id f \<le> k) \<and>
      (k = 0 \<or> (\<exists>f. nested_field s f \<and> f_id f = k)))"
  using columns_ok(1) [OF assms] maxFieldId_ok(1) [OF assms] by (auto simp: greatest_id_def)

theorem schema_columns_correct_witness:
  "\<exists>k. maxFieldId (MessageSchema ''m'' [Field 1 ''a'' UINT32 4 False True NONE None]) = Inr k \<and>
     (\<forall>f. nested_field (MessageSchema ''m'' [Field 1 ''a'' UINT32 4 False True NONE None]) f \<longrightarrow> f_id f \<le> k)"
  using schema_columns_correct [of "MessageSchema ''m'' [Field 1 ''a'' UINT32 4 False True NONE None]"]
  by (auto simp: MessageSchema_def addField_def setName_def schema_null_def)

end
