(* ===== verification/Stx_DynamicMessage.thy ===== *)
theory Stx_DynamicMessage
  imports Stx_Human Stx_Message Stx_SchemaJSON
begin

text \<open>
  Messages with their schema: the JSON encoder (\<open>protobuf/JSONEncoder.cc\<close>), the printer
  (\<open>protobuf/MessagePrinter.cc\<close>) and \<open>DynamicMessage\<close> (\<open>protobuf/DynamicMessage.cc\<close>).

  The conversions of the C library that \<open>addField\<close> depends on, \<open>strptime\<close> and \<open>stod\<close>, and the current
  time are the environment \<open>dm_env\<close>. A \<open>double\<close> is its representation, as in theory \<open>Stx_Message\<close>.
  \<open>fromJSON\<close> recurses through \<open>addObject\<close> and a callback; its two loops and the recursion are one
  function over a \<open>json_job\<close>, the rest of the work in the current message.
\<close>

section \<open>JSONEncoder\<close>

text \<open>Statements with a comma before each but the first.\<close>

fun separated :: "'a \<Rightarrow> 'a list \<Rightarrow> 'a list" where
  "separated c [] = []"
| "separated c [w] = [w]"
| "separated c (w # v # ws) = w # c # separated c (v # ws)"

definition raiseW :: "'a result \<Rightarrow> ('a \<Rightarrow> 'o \<Rightarrow> 'o comp) \<Rightarrow> 'o \<Rightarrow> 'o comp" where
  "raiseW r f out = bindC (Some r) (\<lambda>x. f x out)"

fun JSONEncoder_encode :: "'o byte_writer \<Rightarrow> message_schema \<Rightarrow> message_object \<Rightarrow> 'o \<Rightarrow> 'o comp"
  and encodeField :: "'o byte_writer \<Rightarrow> schema_field \<Rightarrow> message_object \<Rightarrow> 'o \<Rightarrow> 'o comp" where
  "JSONEncoder_encode put (Schema n fs ids types names) msg =
     seqW [beginObject put,
           raiseW (asObject msg) (\<lambda>fields.
             seqW (separated (addComma put)
               (concat (map (\<lambda>f.
                  let indexes = filter (\<lambda>m. f_id f = mo_id m) fields
                  in if indexes = [] then []
                     else [seqW ([addObjectEntry put (f_name f)] @
                             (if f_repeated f then [beginArray put] else []) @
                             separated (addComma put) (map (encodeField put f) indexes) @
                             (if f_repeated f then [endArray put] else []))]) fs)))),
           endObject put]"
| "encodeField put (Field i n t ts rep opt enc sc) msg =
     (case t of
        OBJECT \<Rightarrow>
          (case sc of None \<Rightarrow> (\<lambda>out. raise UndefinedBehaviour) | Some s \<Rightarrow> JSONEncoder_encode put s msg)
      | FieldType.BOOLEAN \<Rightarrow> raiseW (asBool msg) (\<lambda>b. if b then addTrue put else addFalse put)
      | STRING \<Rightarrow> raiseW (asString msg) (addString put)
      | UINT32 \<Rightarrow> raiseW (asUInt32 msg) (\<lambda>v. addInteger put (ucast v))
      | UINT64 \<Rightarrow> raiseW (asUInt64 msg) (addInteger put)
      | FieldType.DATETIME \<Rightarrow> raiseW (asUnixTime msg) (addInteger put)
      | DOUBLE \<Rightarrow> raiseW (asDouble msg) (addFloat put)
      | OTHER_TYPE b \<Rightarrow> seqW [])"

section \<open>MessagePrinter\<close>

definition format_result :: "string \<Rightarrow> string list \<Rightarrow> string comp" where
  "format_result fmt values = map_option Inr (formatv fmt values)"

fun printObject :: "(u64 \<Rightarrow> string) \<Rightarrow> nat \<Rightarrow> message_object \<Rightarrow> message_schema \<Rightarrow> string comp"
  and printField :: "(u64 \<Rightarrow> string) \<Rightarrow> nat \<Rightarrow> message_object \<Rightarrow> message_schema \<Rightarrow> string comp"
  and printFields :: "(u64 \<Rightarrow> string) \<Rightarrow> nat \<Rightarrow> message_object list \<Rightarrow> message_schema \<Rightarrow> string comp" where
  "printObject time_text level (MessageObject i d) schema =
     bindC (format_result (''$0$1 {'' @ [CHR 0x0A]) [indent level, sc_name schema]) (\<lambda>head.
     bindC (case d of Obj cs \<Rightarrow> printFields time_text (level + 1) cs schema | _ \<Rightarrow> raise kTypeError) (\<lambda>body.
     ret (head @ body @ indent level @ ''}'' @ [CHR 0x0A])))"
| "printField time_text level (MessageObject i d) schema =
     bindC (Some (fieldType i schema)) (\<lambda>t.
       let line = (\<lambda>fmt v. bindC (Some (fieldName i schema)) (\<lambda>n.
                     bindC (Some v) (\<lambda>v. format_result (fmt @ [CHR 0x0A]) [indent level, n, v])));
           m = MessageObject i d
       in case t of
            OBJECT \<Rightarrow>
              bindC (Some (fieldSchema i schema)) (\<lambda>sub.
                case sub of None \<Rightarrow> raise UndefinedBehaviour | Some s \<Rightarrow>
                  (case d of Obj cs \<Rightarrow> printObject time_text level (MessageObject i (Obj cs)) s
                   | _ \<Rightarrow> raise kTypeError))
          | FieldType.BOOLEAN \<Rightarrow> line ''$0$1 = $2'' (bindE (asBool m) (\<lambda>b. Inr (toString_bool b)))
          | STRING \<Rightarrow> line (''$0$1 = '' @ [CHR 0x22] @ ''$2'' @ [CHR 0x22]) (asString m)
          | UINT32 \<Rightarrow> line ''$0$1 = $2'' (bindE (asUInt32 m) (\<lambda>v. Inr (to_string (unat v))))
          | UINT64 \<Rightarrow> line ''$0$1 = $2'' (bindE (asUInt64 m) (\<lambda>v. Inr (to_string (unat v))))
          | FieldType.DATETIME \<Rightarrow> line ''$0$1 = $2'' (bindE (asUnixTime m) (\<lambda>v. Inr (time_text v)))
          | DOUBLE \<Rightarrow> line ''$0$1 = $2'' (bindE (asDouble m) toString_double)
          | OTHER_TYPE b \<Rightarrow> raise UndefinedBehaviour)"
| "printFields time_text level [] schema = ret []"
| "printFields time_text level (m # ms) schema =
     bindC (printField time_text level m schema) (\<lambda>s.
     bindC (printFields time_text level ms schema) (\<lambda>t. ret (s @ t)))"

section \<open>DynamicMessage\<close>

record dm_env =
  env_strptime :: "string \<Rightarrow> civil_time option"
  env_stod :: "string \<Rightarrow> u64 result"
  env_now :: u64

record dynamic_message =
  dm_schema :: message_schema
  dm_data :: message_object

definition dm_new :: "message_schema \<Rightarrow> dynamic_message" where
  "dm_new sc = \<lparr>dm_schema = sc, dm_data = MessageObject 0 (Obj [])\<rparr>"

text \<open>\<open>data_.addChild\<close>, after which the operation returns true.\<close>

definition dm_add :: "u32 \<Rightarrow> message_data \<Rightarrow> dynamic_message \<Rightarrow> (bool \<times> dynamic_message) result" where
  "dm_add i v d = bindE (addChild (MessageObject i v) (dm_data d)) (\<lambda>m. Inr (True, d\<lparr>dm_data := m\<rparr>))"

text \<open>A \<open>try\<close> block that returns false for every exception.\<close>

definition try_add :: "dynamic_message \<Rightarrow> (bool \<times> dynamic_message) result \<Rightarrow> (bool \<times> dynamic_message) result" where
  "try_add d r = (case r of Inl e \<Rightarrow> Inr (False, d) | Inr x \<Rightarrow> Inr x)"

definition dm_addField :: "dm_env \<Rightarrow> u32 \<Rightarrow> string \<Rightarrow> dynamic_message \<Rightarrow> (bool \<times> dynamic_message) result" where
  "dm_addField env field_id value d =
     (if \<not> hasField field_id (dm_schema d) then Inr (False, d)
      else bindE (fieldType field_id (dm_schema d)) (\<lambda>t.
        case t of
          FieldType.BOOLEAN \<Rightarrow>
            (case parseBoolean value of None \<Rightarrow> Inr (False, d) | Some b \<Rightarrow> dm_add field_id (Bool b) d)
        | UINT32 \<Rightarrow> try_add d (bindE (stoull value) (\<lambda>(v, _). dm_add field_id (U32 (ucast v)) d))
        | UINT64 \<Rightarrow> try_add d (bindE (stoull value) (\<lambda>(v, _). dm_add field_id (U64 v) d))
        | DOUBLE \<Rightarrow> try_add d (bindE (env_stod env value) (\<lambda>v. dm_add field_id (Dbl v) d))
        | FieldType.DATETIME \<Rightarrow>
            bindE (parseTime (env_strptime env) value (env_now env)) (\<lambda>v.
              case v of None \<Rightarrow> Inr (False, d) | Some v \<Rightarrow> dm_add field_id (DateTime v) d)
        | STRING \<Rightarrow> dm_add field_id (Str value) d
        | OBJECT \<Rightarrow> Inr (False, d)
        | OTHER_TYPE b \<Rightarrow> Inl UndefinedBehaviour))"

definition dm_addField_name :: "dm_env \<Rightarrow> string \<Rightarrow> string \<Rightarrow> dynamic_message \<Rightarrow> (bool \<times> dynamic_message) result" where
  "dm_addField_name env name value d =
     (if \<not> hasField_name name (dm_schema d) then Inr (False, d)
      else bindE (fieldId name (dm_schema d)) (\<lambda>i. dm_addField env i value d))"

text \<open>The typed operations look the name up and compare the type of the field.\<close>

definition dm_add_typed :: "FieldType \<Rightarrow> message_data \<Rightarrow> string \<Rightarrow> dynamic_message \<Rightarrow> (bool \<times> dynamic_message) result" where
  "dm_add_typed ty v name d =
     (if \<not> hasField_name name (dm_schema d) then Inr (False, d)
      else bindE (fieldId name (dm_schema d)) (\<lambda>i.
           bindE (fieldType i (dm_schema d)) (\<lambda>t.
             if t \<noteq> ty then Inr (False, d) else dm_add i v d)))"

definition addUInt32Field :: "string \<Rightarrow> u32 \<Rightarrow> dynamic_message \<Rightarrow> (bool \<times> dynamic_message) result" where
  "addUInt32Field name val d = dm_add_typed UINT32 (U32 val) name d"

definition addUInt64Field :: "string \<Rightarrow> u64 \<Rightarrow> dynamic_message \<Rightarrow> (bool \<times> dynamic_message) result" where
  "addUInt64Field name val d = dm_add_typed UINT64 (U64 val) name d"

definition addDateTimeField :: "u32 \<Rightarrow> u64 \<Rightarrow> dynamic_message \<Rightarrow> (bool \<times> dynamic_message) result" where
  "addDateTimeField field_id val d =
     (if \<not> hasField field_id (dm_schema d) then Inr (False, d)
      else bindE (fieldType field_id (dm_schema d)) (\<lambda>t.
        if t \<noteq> FieldType.DATETIME then Inr (False, d) else dm_add field_id (DateTime val) d))"

definition addDateTimeField_name :: "string \<Rightarrow> u64 \<Rightarrow> dynamic_message \<Rightarrow> (bool \<times> dynamic_message) result" where
  "addDateTimeField_name name val d =
     (if \<not> hasField_name name (dm_schema d) then Inr (False, d)
      else bindE (fieldId name (dm_schema d)) (\<lambda>i. addDateTimeField i val d))"

definition addBoolField :: "string \<Rightarrow> bool \<Rightarrow> dynamic_message \<Rightarrow> (bool \<times> dynamic_message) result" where
  "addBoolField name val d = dm_add_typed FieldType.BOOLEAN (Bool val) name d"

definition addStringField :: "string \<Rightarrow> string \<Rightarrow> dynamic_message \<Rightarrow> (bool \<times> dynamic_message) result" where
  "addStringField name val d = dm_add_typed STRING (Str val) name d"

text \<open>
  \<open>addObject\<close> before and after the callback: the new message for the field, and the child that is
  added with the id of the field.
\<close>

definition addObject_open :: "string \<Rightarrow> dynamic_message \<Rightarrow> (u32 \<times> dynamic_message) option result" where
  "addObject_open name d =
     (if \<not> hasField_name name (dm_schema d) then Inr None
      else bindE (fieldId name (dm_schema d)) (\<lambda>i.
           bindE (fieldType i (dm_schema d)) (\<lambda>t.
             if t \<noteq> OBJECT then Inr None
             else bindE (fieldSchema i (dm_schema d)) (\<lambda>sub.
               case sub of None \<Rightarrow> Inl UndefinedBehaviour | Some s \<Rightarrow> Inr (Some (i, dm_new s))))))"

definition addObject_close :: "u32 \<Rightarrow> dynamic_message \<Rightarrow> dynamic_message \<Rightarrow> dynamic_message result" where
  "addObject_close i sub d =
     bindE (addChild (MessageObject i (mo_data (dm_data sub))) (dm_data d)) (\<lambda>m. Inr (d\<lparr>dm_data := m\<rparr>))"

definition addObject ::
  "string \<Rightarrow> (dynamic_message \<Rightarrow> dynamic_message comp) \<Rightarrow> dynamic_message \<Rightarrow> (bool \<times> dynamic_message) comp" where
  "addObject name fn d =
     bindC (Some (addObject_open name d)) (\<lambda>opened.
       case opened of
         None \<Rightarrow> ret (False, d)
       | Some (i, sub) \<Rightarrow>
           bindC (fn sub) (\<lambda>sub.
           bindC (Some (addObject_close i sub d)) (\<lambda>d. ret (True, d))))"

definition dm_getField :: "u32 \<Rightarrow> dynamic_message \<Rightarrow> string option result" where
  "dm_getField field_id d =
     (if \<not> hasField field_id (dm_schema d) then Inr None
      else bindE (fieldCount field_id (dm_data d)) (\<lambda>n.
        if n = 0 then Inr None
        else bindE (fieldType field_id (dm_schema d)) (\<lambda>t.
          case t of
            FieldType.BOOLEAN \<Rightarrow> bindE (getBool field_id (dm_data d)) (\<lambda>v. Inr (Some (toString_bool v)))
          | UINT32 \<Rightarrow> bindE (getUInt32 field_id (dm_data d)) (\<lambda>v. Inr (Some (to_string (unat v))))
          | UINT64 \<Rightarrow> bindE (getUInt64 field_id (dm_data d)) (\<lambda>v. Inr (Some (to_string (unat v))))
          | DOUBLE \<Rightarrow> bindE (getDouble field_id (dm_data d)) (\<lambda>v. bindE (toString_double v) (\<lambda>s. Inr (Some s)))
          | FieldType.DATETIME \<Rightarrow> bindE (getUnixTime field_id (dm_data d)) (\<lambda>v. Inr (Some (to_string (unat v))))
          | STRING \<Rightarrow> bindE (getString field_id (dm_data d)) (\<lambda>v. Inr (Some v))
          | OBJECT \<Rightarrow> Inr None
          | OTHER_TYPE b \<Rightarrow> Inl UndefinedBehaviour)))"

definition dm_getField_name :: "string \<Rightarrow> dynamic_message \<Rightarrow> string option result" where
  "dm_getField_name name d =
     (if \<not> hasField_name name (dm_schema d) then Inr None
      else bindE (fieldId name (dm_schema d)) (\<lambda>i. dm_getField i d))"

definition dm_toJSON :: "'o byte_writer \<Rightarrow> dynamic_message \<Rightarrow> 'o \<Rightarrow> 'o comp" where
  "dm_toJSON put d = JSONEncoder_encode put (dm_schema d) (dm_data d)"

definition setData :: "message_object \<Rightarrow> dynamic_message \<Rightarrow> dynamic_message" where
  "setData m d = d\<lparr>dm_data := m\<rparr>"

definition debugPrint :: "(u64 \<Rightarrow> string) \<Rightarrow> dynamic_message \<Rightarrow> string comp" where
  "debugPrint time_text d = printObject time_text 0 (dm_data d) (dm_schema d)"

subsection \<open>fromJSON\<close>

text \<open>
  \<open>Fields fs\<close>: the loop over the fields, with those left; \<open>Elems f p aend fs\<close>: the loop over the elements
  of the array of field \<open>f\<close>, at position \<open>p\<close>. The cases for objects have no \<open>break\<close>: they run into the
  case of a scalar, which adds the (empty) data of the opening token as a field.
\<close>

datatype json_job = Fields "schema_field list" | Elems schema_field nat nat "schema_field list"

definition addField_token :: "dm_env \<Rightarrow> schema_field \<Rightarrow> string \<Rightarrow> dynamic_message \<Rightarrow> dynamic_message comp" where
  "addField_token env f data d = bindC (Some (dm_addField_name env (f_name f) data d)) (\<lambda>(_, d). ret d)"

text \<open>The cases for a scalar member and for a scalar element of an array.\<close>

definition scalar_member :: "dm_env \<Rightarrow> schema_field \<Rightarrow> json_token \<Rightarrow> dynamic_message \<Rightarrow> dynamic_message comp" where
  "scalar_member env f t d =
     (case jt_type t of
        JSON_STRING \<Rightarrow> addField_token env f (jt_data t) d
      | JSON_NUMBER \<Rightarrow> addField_token env f (jt_data t) d
      | JSON_TRUE \<Rightarrow> addField_token env f ''true'' d
      | JSON_FALSE \<Rightarrow> addField_token env f ''false'' d
      | _ \<Rightarrow> ret d)"

definition scalar_element :: "dm_env \<Rightarrow> schema_field \<Rightarrow> json_token \<Rightarrow> dynamic_message \<Rightarrow> dynamic_message comp" where
  "scalar_element env f t d =
     (if jt_type t \<in> {JSON_STRING, JSON_NUMBER, JSON_TRUE, JSON_FALSE} then addField_token env f (jt_data t) d
      else ret d)"

partial_function (option) dm_fromJSON_loop ::
  "dm_env \<Rightarrow> json_object \<Rightarrow> nat \<Rightarrow> nat \<Rightarrow> dynamic_message \<Rightarrow> json_job \<Rightarrow> dynamic_message comp" where
  "dm_fromJSON_loop env obj b e d job =
     (case job of
        Fields [] \<Rightarrow> ret d
      | Fields (f # fs) \<Rightarrow>
          bindC (objectLookup obj b e (f_name f)) (\<lambda>p.
            if p = e then dm_fromJSON_loop env obj b e d (Fields fs)
            else if jt_type (obj ! p) = JSON_ARRAY_BEGIN
            then dm_fromJSON_loop env obj b e d (Elems f (p + 1) (min e (p + jt_size (obj ! p))) fs)
            else if jt_type (obj ! p) = JSON_OBJECT_BEGIN
            then
              bindC
                (bindC (Some (addObject_open (f_name f) d)) (\<lambda>opened.
                   case opened of
                     None \<Rightarrow> ret d
                   | Some (i, sub) \<Rightarrow>
                       bindC (dm_fromJSON_loop env obj p (min e (p + jt_size (obj ! p))) sub
                                (Fields (sc_fields (dm_schema sub)))) (\<lambda>sub.
                       Some (addObject_close i sub d)))) (\<lambda>d.
              bindC (addField_token env f (jt_data (obj ! p)) d) (\<lambda>d.
              dm_fromJSON_loop env obj b e d (Fields fs)))
            else
              bindC (scalar_member env f (obj ! p) d) (\<lambda>d.
              dm_fromJSON_loop env obj b e d (Fields fs)))
      | Elems f p aend fs \<Rightarrow>
          (if p < aend
           then
             bindC
               (if jt_type (obj ! p) = JSON_OBJECT_BEGIN
                then
                  bindC
                    (bindC (Some (addObject_open (f_name f) d)) (\<lambda>opened.
                       case opened of
                         None \<Rightarrow> ret d
                       | Some (i, sub) \<Rightarrow>
                           bindC (dm_fromJSON_loop env obj p (min e (p + jt_size (obj ! p))) sub
                                    (Fields (sc_fields (dm_schema sub)))) (\<lambda>sub.
                           Some (addObject_close i sub d)))) (\<lambda>d.
                  addField_token env f (jt_data (obj ! p)) d)
                else scalar_element env f (obj ! p) d) (\<lambda>d.
             dm_fromJSON_loop env obj b e d (Elems f (p + jt_size (obj ! p)) aend fs))
           else dm_fromJSON_loop env obj b e d (Fields fs)))"

declare dm_fromJSON_loop.simps [code]

definition dm_fromJSON :: "dm_env \<Rightarrow> json_object \<Rightarrow> nat \<Rightarrow> nat \<Rightarrow> dynamic_message \<Rightarrow> dynamic_message comp" where
  "dm_fromJSON env obj b e d = dm_fromJSON_loop env obj b e d (Fields (sc_fields (dm_schema d)))"

section \<open>Messages and their documents\<close>

definition values_of :: "schema_field \<Rightarrow> message_object \<Rightarrow> message_object list" where
  "values_of f m = filter (\<lambda>c. f_id f = mo_id c) (case mo_data m of Obj cs \<Rightarrow> cs | _ \<Rightarrow> [])"

fun scalar_json :: "message_data \<Rightarrow> jvalue" where
  "scalar_json (Bool b) = jbool b"
| "scalar_json (Str s) = JStr s"
| "scalar_json (U32 v) = jint (ucast v)"
| "scalar_json (U64 v) = jint v"
| "scalar_json (DateTime v) = jint v"
| "scalar_json _ = JNull"

fun message_json :: "message_schema \<Rightarrow> message_object \<Rightarrow> jvalue"
  and value_json :: "schema_field \<Rightarrow> message_object \<Rightarrow> jvalue" where
  "message_json (Schema n fs ids types names) m =
     JObj (concat (map (\<lambda>f.
       let vs = map (value_json f) (values_of f m)
       in if vs = [] then [] else [(f_name f, if f_repeated f then JArr vs else hd vs)]) fs))"
| "value_json (Field i n t ts rep opt enc sc) c =
     (case sc of Some s \<Rightarrow> message_json s c | None \<Rightarrow> scalar_json (mo_data c))"

text \<open>
  The scalar values that JSON carries unchanged: no doubles, no control characters in strings, and
  times that \<open>parseTime\<close> reads as microseconds.
\<close>

fun scalar_ok :: "FieldType \<Rightarrow> message_data \<Rightarrow> bool" where
  "scalar_ok FieldType.BOOLEAN (Bool b) \<longleftrightarrow> True"
| "scalar_ok STRING (Str s) \<longleftrightarrow> list_all json_safe_chr s"
| "scalar_ok UINT32 (U32 v) \<longleftrightarrow> True"
| "scalar_ok UINT64 (U64 v) \<longleftrightarrow> True"
| "scalar_ok FieldType.DATETIME (DateTime v) \<longleftrightarrow> 30000000000000 < unat v \<and> unat v < 2 ^ 63"
| "scalar_ok _ _ \<longleftrightarrow> False"

text \<open>Field names and ids identify the fields of a schema.\<close>

definition schema_unique :: "message_schema \<Rightarrow> bool" where
  "schema_unique s \<longleftrightarrow> schema_index s \<and> distinct (map f_name (sc_fields s)) \<and> distinct (map f_id (sc_fields s)) \<and>
     (\<forall>f \<in> set (sc_fields s). f_id f \<noteq> 0)"

text \<open>
  The messages that JSON expresses: a field that is not repeated has at most one value, and a
  repeated field is not boolean (\<open>fromJSON\<close> drops booleans in an array).
\<close>

fun msg_json_ok :: "message_schema \<Rightarrow> message_object \<Rightarrow> bool"
  and value_json_ok :: "schema_field \<Rightarrow> message_object \<Rightarrow> bool" where
  "msg_json_ok (Schema n fs ids types names) m \<longleftrightarrow>
     mo_type m = OBJECT \<and> schema_unique (Schema n fs ids types names) \<and>
     (\<forall>f \<in> set fs. list_all json_safe_chr (f_name f) \<and> length (escapeString (f_name f)) < 8188 \<and>
        (f_repeated f \<or> length (values_of f m) \<le> 1) \<and> (\<forall>c \<in> set (values_of f m). value_json_ok f c))"
| "value_json_ok (Field i n t ts rep opt enc sc) c \<longleftrightarrow>
     (case sc of
        Some s \<Rightarrow> t = OBJECT \<and> msg_json_ok s c
      | None \<Rightarrow> scalar_ok t (mo_data c) \<and> (t = FieldType.BOOLEAN \<longrightarrow> \<not> rep))"

text \<open>The message with its fields in the order of the schema and the fields unknown to it left out.\<close>

fun arrange :: "message_schema \<Rightarrow> message_object \<Rightarrow> message_object"
  and arrange_value :: "schema_field \<Rightarrow> message_object \<Rightarrow> message_object" where
  "arrange (Schema n fs ids types names) m =
     MessageObject (mo_id m) (Obj (concat (map (\<lambda>f. map (arrange_value f) (values_of f m)) fs)))"
| "arrange_value (Field i n t ts rep opt enc sc) c = (case sc of Some s \<Rightarrow> arrange s c | None \<Rightarrow> c)"

lemmas message_json_induct = message_json_value_json.induct

lemma mo_type_OBJECT: "mo_type m = OBJECT \<longleftrightarrow> (\<exists>cs. mo_data m = Obj cs)"
  by (cases m rule: mo_type.cases) auto

subsection \<open>Writing\<close>

lemma scalar_json_safe: "scalar_ok t d \<Longrightarrow> json_safe (scalar_json d) \<and> numbers_ok (scalar_json d)"
  by (cases "(t, d)" rule: scalar_ok.cases) (simp_all add: jbool_def jint_def)

lemma message_json_safe:
  "msg_json_ok s m \<Longrightarrow> json_safe (message_json s m) \<and> numbers_ok (message_json s m)"
  "value_json_ok f c \<Longrightarrow> json_safe (value_json f c) \<and> numbers_ok (value_json f c)"
proof (induction s m and f c rule: message_json_induct)
  case (1 n fs ids types names m)
  from 1 show ?case by (auto simp: Let_def hd_map split: if_splits)
next
  case (2 i n t ts rep opt enc sc c)
  then show ?case using scalar_json_safe by (auto split: option.splits)
qed

context byte_sink
begin

lemma emits_separated:
  "list_all2 emits ws ss \<Longrightarrow> emits (seqW (separated (addComma put) ws)) (str_join ss '','')"
proof (induction ws ss rule: list_all2_induct)
  case Nil
  then show ?case using emits_seqW_Nil by (simp only: separated.simps str_join.simps)
next
  case (Cons w ws s ss)
  show ?case
  proof (cases ws)
    case Nil
    then show ?thesis using Cons emits_seqW [of "[w]" "[s]"] by (simp del: seqW.simps)
  next
    case [simp]: (Cons v vs)
    obtain t ts where [simp]: "ss = t # ts" using Cons.hyps(2) by (cases ss) auto
    have "emits (seqW (separated (addComma put) ws)) (str_join ss '','')" using Cons.IH .
    from emits_seqW_Cons [OF Cons.hyps(1) emits_seqW_Cons [OF emits_direct(5) this]]
    show ?thesis by (simp del: seqW.simps)
  qed
qed

lemma emits_append:
  assumes "emits (seqW ws) s" "emits (seqW vs) t"
  shows "emits (seqW (ws @ vs)) (s @ t)"
  unfolding emits_def
proof (intro allI impI)
  fix out
  assume "invar out"
  then obtain o1 where "seqW ws out = ret o1" "invar o1" "written o1 = written out @ bytes_of s"
    using assms(1) unfolding emits_def by blast
  moreover from this obtain o2 where "seqW vs o1 = ret o2" "invar o2" "written o2 = written o1 @ bytes_of t"
    using assms(2) unfolding emits_def by blast
  ultimately show "\<exists>out'. seqW (ws @ vs) out = ret out' \<and> invar out' \<and> written out' = written out @ bytes_of (s @ t)"
    by (simp add: seqW_append)
qed

lemma emits_raiseW: "r = Inr x \<Longrightarrow> emits (w x) s \<Longrightarrow> emits (raiseW r w) s"
  by (simp add: emits_def raiseW_def)

lemma emits_bool: "emits (raiseW (Inr b) (\<lambda>b. if b then addTrue put else addFalse put)) (direct_text (jbool b))"
  by (rule emits_raiseW [OF refl]) (rule emits_if)

lemma emits_scalar:
  assumes "scalar_ok t (mo_data c)"
  shows "emits (encodeField put (Field i n t ts rep opt enc None) c) (direct_text (scalar_json (mo_data c)))"
  using assms
  by (cases "(t, mo_data c)" rule: scalar_ok.cases)
     (auto intro!: emits_bool emits_raiseW emits_addInteger emits_addString_text
        simp: asBool_def asString_def asUInt32_def asUInt64_def asUnixTime_def simp del: direct_text.simps
)

lemma emits_entry:
  assumes "\<And>c. c \<in> set vs \<Longrightarrow> emits (encodeField put f c) (direct_text (value_json f c))"
    and "length (escapeString (f_name f)) < 8188" "f_repeated f \<or> length vs \<le> 1" "vs \<noteq> []"
  shows "emits (seqW ([addObjectEntry put (f_name f)] @ (if f_repeated f then [beginArray put] else []) @
      separated (addComma put) (map (encodeField put f) vs) @ (if f_repeated f then [endArray put] else [])))
    (([CHR 0x22] @ escapeString (f_name f) @ [CHR 0x22] @ '': '') @
     direct_text (if f_repeated f then JArr (map (value_json f) vs) else hd (map (value_json f) vs)))"
    (is "emits ?w (?key @ direct_text ?val)")
proof -
  have vs: "emits (seqW (separated (addComma put) (map (encodeField put f) vs)))
      (str_join (map (\<lambda>c. direct_text (value_json f c)) vs) '','')"
    using assms(1) by (intro emits_separated) (auto simp: list_all2_map1 list_all2_map2 list_all2_same)
  have rep: "emits (seqW (if f_repeated f then [w] else [])) (if f_repeated f then s else [])" if "emits w s" for w s
    using emits_seqW [of "[w]" "[s]"] emits_seqW_Nil that by (simp del: seqW.simps)
  have key: "emits (seqW [addObjectEntry put (f_name f)]) ?key"
    using emits_seqW [of "[_]" "[_]"] emits_addObjectEntry [OF assms(2)] by (simp del: seqW.simps)
  have "emits ?w (?key @ (if f_repeated f then ''['' else []) @
      str_join (map (\<lambda>c. direct_text (value_json f c)) vs) '','' @ (if f_repeated f then '']'' else []))"
    by (intro emits_append key rep vs emits_direct)
  moreover have "direct_text ?val = (if f_repeated f then ''['' else []) @
      str_join (map (\<lambda>c. direct_text (value_json f c)) vs) '','' @ (if f_repeated f then '']'' else [])"
    using assms(3,4) by (cases vs) (auto simp: comp_def split: if_splits)
  ultimately show ?thesis by simp
qed

lemma emits_message:
  "msg_json_ok s m \<Longrightarrow> emits (JSONEncoder_encode put s m) (direct_text (message_json s m))"
  "value_json_ok f c \<Longrightarrow> emits (encodeField put f c) (direct_text (value_json f c))"
proof (induction s m and f c rule: message_json_induct)
  case (1 n fs ids types names m)
  obtain cs where cs: "mo_data m = Obj cs" using "1.prems" by (auto simp: mo_type_OBJECT)
  let ?key = "\<lambda>f. [CHR 0x22] @ escapeString (f_name f) @ [CHR 0x22] @ '': ''"
  let ?val = "\<lambda>f. if f_repeated f then JArr (map (value_json f) (values_of f m))
    else hd (map (value_json f) (values_of f m))"
  have vo: "filter (\<lambda>c. f_id f = mo_id c) cs = values_of f m" for f by (simp add: values_of_def cs)
  let ?w = "\<lambda>f. seqW ([addObjectEntry put (f_name f)] @ (if f_repeated f then [beginArray put] else []) @
    separated (addComma put) (map (encodeField put f) (values_of f m)) @
    (if f_repeated f then [endArray put] else []))"
  have entry: "emits (?w f) (?key f @ direct_text (?val f))" if "f \<in> set fs" "values_of f m \<noteq> []" for f
    using "1.IH" "1.prems" that by (intro emits_entry) auto
  have "emits (seqW (separated (addComma put) (concat (map (\<lambda>f. if values_of f m = [] then [] else [?w f]) fs))))
      (str_join (concat (map (\<lambda>f. if values_of f m = [] then [] else [?key f @ direct_text (?val f)]) fs)) '','')"
    using entry by (intro emits_separated, induction fs) auto
  then have body: "emits (raiseW (asObject m) (\<lambda>fields. seqW (separated (addComma put)
      (concat (map (\<lambda>f. let indexes = filter (\<lambda>m. f_id f = mo_id m) fields
                  in if indexes = [] then []
                     else [seqW ([addObjectEntry put (f_name f)] @ (if f_repeated f then [beginArray put] else []) @
                             separated (addComma put) (map (encodeField put f) indexes) @
                             (if f_repeated f then [endArray put] else []))]) fs)))))
      (str_join (concat (map (\<lambda>f. if values_of f m = [] then [] else [?key f @ direct_text (?val f)]) fs)) '','')"
    using vo by (intro emits_raiseW [of _ cs]) (simp_all only: asObject_def cs message_data.case Let_def)
  have "emits (JSONEncoder_encode put (Schema n fs ids types names) m) (concat [''{'',
      str_join (concat (map (\<lambda>f. if values_of f m = [] then [] else [?key f @ direct_text (?val f)]) fs)) '','', ''}''])"
    unfolding JSONEncoder_encode.simps
    by (rule emits_seqW, intro list_all2_Cons [THEN iffD2] conjI list.rel_inject(1) emits_direct body)
  moreover have "map (\<lambda>kv. [CHR 0x22] @ escapeString (fst kv) @ [CHR 0x22] @ '': '' @ direct_text (snd kv))
      (concat (map (\<lambda>f. let vs = map (value_json f) (values_of f m)
         in if vs = [] then [] else [(f_name f, if f_repeated f then JArr vs else hd vs)]) gs)) =
      concat (map (\<lambda>f. if values_of f m = [] then [] else [?key f @ direct_text (?val f)]) gs)" for gs
    by (induction gs) (simp_all add: Let_def)
  ultimately show ?case unfolding message_json.simps direct_text.simps by (simp del: JSONEncoder_encode.simps)
next
  case (2 i n t ts rep opt enc sc c)
  show ?case
  proof (cases sc)
    case None
    then show ?thesis using 2 emits_scalar by simp
  next
    case (Some s)
    then show ?thesis using 2 by simp
  qed
qed

end

subsection \<open>Reading\<close>

definition dm_obj :: "dynamic_message \<Rightarrow> bool" where
  "dm_obj d \<longleftrightarrow> mo_type (dm_data d) = OBJECT"

definition dm_extend :: "dynamic_message \<Rightarrow> message_object list \<Rightarrow> dynamic_message" where
  "dm_extend d cs =
     d\<lparr>dm_data := MessageObject (mo_id (dm_data d)) (Obj ((case mo_data (dm_data d) of Obj os \<Rightarrow> os | _ \<Rightarrow> []) @ cs))\<rparr>"

lemma dm_extend_simps [simp]:
  "dm_schema (dm_extend d cs) = dm_schema d" "dm_obj (dm_extend d cs)"
  "dm_extend (dm_extend d xs) ys = dm_extend d (xs @ ys)" "dm_obj d \<Longrightarrow> dm_extend d [] = d"
  by (cases "dm_data d"; auto simp: dm_extend_def dm_obj_def mo_type_OBJECT)+

lemma dm_obj_new [simp]: "dm_obj (dm_new s)" "dm_schema (dm_new s) = s"
  by (simp_all add: dm_obj_def dm_new_def)

lemma addChild_obj: "dm_obj d \<Longrightarrow> addChild c (dm_data d) = Inr (dm_data (dm_extend d [c]))"
  by (auto simp: dm_obj_def mo_type_OBJECT addChild_def asObject_def dm_extend_def)

lemma dm_add_obj: "dm_obj d \<Longrightarrow> dm_add i v d = Inr (True, dm_extend d [MessageObject i v])"
  by (simp add: dm_add_def addChild_obj dm_extend_def)

lemma find_unique: "distinct (map g xs) \<Longrightarrow> x \<in> set xs \<Longrightarrow> find (\<lambda>y. g y = g x) xs = Some x"
  by (induction xs) (auto simp: image_iff)

lemma schema_unique_lookup:
  assumes "schema_unique s" "f \<in> set (sc_fields s)"
  shows "sc_ids s (f_name f) = Some (f_id f)" "sc_types s (f_id f) = Some (f_type f)"
    "find (\<lambda>g. f_id g = f_id f) (sc_fields s) = Some f" "f_id f \<noteq> 0"
  using assms by (auto simp: schema_unique_def schema_index_def find_unique)

lemma addField_token_eq:
  assumes "schema_unique (dm_schema d)" "f \<in> set (sc_fields (dm_schema d))"
  shows "dm_addField_name env (f_name f) v d = dm_addField env (f_id f) v d"
    "fieldType (f_id f) (dm_schema d) = Inr (f_type f)" "hasField (f_id f) (dm_schema d)"
  using schema_unique_lookup [OF assms]
  by (simp_all add: dm_addField_name_def hasField_name_def hasField_def fieldId_def fieldType_def)

lemma addField_token_object:
  "schema_unique (dm_schema d) \<Longrightarrow> f \<in> set (sc_fields (dm_schema d)) \<Longrightarrow> f_type f = OBJECT \<Longrightarrow>
   addField_token env f v d = ret d"
  by (simp add: addField_token_def addField_token_eq dm_addField_def)

fun scalar_text :: "message_data \<Rightarrow> string" where
  "scalar_text (Bool b) = toString_bool b"
| "scalar_text (Str s) = s"
| "scalar_text (U32 v) = to_string_int (sint (ucast v :: u64))"
| "scalar_text (U64 v) = to_string_int (sint v)"
| "scalar_text (DateTime v) = to_string_int (sint v)"
| "scalar_text _ = []"

lemma stoull_jint: "\<exists>k. stoull (to_string_int (sint (v :: u64))) = Inr (v, k)"
  using stoul_jint [of v] by (auto simp: stoul_def bindE_eq_Inr)

lemma ucast_u32_back [simp]: "(ucast (ucast (v :: u32) :: u64) :: u32) = v"
  by (rule ucast_u32_u64)

lemma parseTime_jint:
  assumes "30000000000000 < unat v" "unat v < 2 ^ 63"
  shows "parseTime st (to_string_int (sint v)) now = Inr (Some (v :: u64))"
proof -
  have "sint v = int (unat v)"
  proof -
    have "int (unat v) < int (2 ^ 63)" using assms(2) by (simp only: of_nat_less_iff)
    then have "int (unat v) < 2 ^ 63" by (simp only: of_nat_power of_nat_numeral)
    then have "signed_take_bit 63 (int (unat v)) = int (unat v)"
      using order_trans [of "- (2 ^ 63)" 0 "int (unat v)"] by (intro signed_take_bit_int_eq_self) simp_all
    then show ?thesis by (simp add: sint_uint)
  qed
  then have "to_string_int (sint v) = to_string (unat v)" by (simp add: to_string_int_def)
  then show ?thesis using parseTime_digits [of "unat v" st now] assms by simp
qed

lemma addField_scalar:
  assumes "schema_unique (dm_schema d)" "f \<in> set (sc_fields (dm_schema d))" "dm_obj d"
    and "scalar_ok (f_type f) v"
  shows "addField_token env f (scalar_text v) d = ret (dm_extend d [MessageObject (f_id f) v])"
proof -
  have st: "parseTime (env_strptime env) (scalar_text v) (env_now env) = Inr (Some w)" if "v = DateTime w" for w
    using assms(4) that parseTime_jint by (cases "f_type f") auto
  obtain k where k: "\<And>v :: u64. stoull (to_string_int (sint v)) = Inr (v, k v)" using stoull_jint by metis
  show ?thesis
    using assms(4) st
    by (cases "(f_type f, v)" rule: scalar_ok.cases)
       (auto simp: addField_token_def addField_token_eq [OF assms(1,2)] dm_addField_def dm_add_obj [OF assms(3)]
          try_add_def toString_bool_def parseBoolean_def k)
qed

lemma scalar_token:
  assumes "scalar_ok t v" "value_at obj e p (scalar_json v)"
  shows "jt_type (obj ! p) \<noteq> JSON_ARRAY_BEGIN" "jt_type (obj ! p) \<noteq> JSON_OBJECT_BEGIN"
    "scalar_member env f (obj ! p) d = addField_token env f (scalar_text v) d"
    "t \<noteq> FieldType.BOOLEAN \<Longrightarrow> scalar_element env f (obj ! p) d = addField_token env f (scalar_text v) d"
  using assms
  by (cases "(t, v)" rule: scalar_ok.cases;
      auto simp: scalar_member_def scalar_element_def jbool_def jint_def JSONToken_def toString_bool_def
        dest!: value_at_scalar split: if_splits)+

text \<open>The member of a field in the document of a message.\<close>

lemma message_json_member:
  assumes "distinct (map f_name fs)" "f \<in> set fs"
  shows "map_of (concat (map (\<lambda>f. let vs = map (value_json f) (values_of f m)
      in if vs = [] then [] else [(f_name f, if f_repeated f then JArr vs else hd vs)]) fs)) (f_name f) =
    (if values_of f m = [] then None
     else Some (if f_repeated f then JArr (map (value_json f) (values_of f m))
                else hd (map (value_json f) (values_of f m))))"
  using assms
proof (induction fs)
  case (Cons g fs)
  let ?e = "\<lambda>f. let vs = map (value_json f) (values_of f m)
      in if vs = [] then [] else [(f_name f, if f_repeated f then JArr vs else hd vs)]"
  have none: "map_of (concat (map ?e fs)) k = None" if "k \<notin> f_name ` set fs" for k
    using that by (induction fs) (auto simp: Let_def)
  show ?case
  proof (cases "f = g")
    case True
    then show ?thesis using none [of "f_name g"] Cons.prems(1) by (simp add: Let_def)
  next
    case False
    then have "f_name f \<noteq> f_name g" "f \<in> set fs" using Cons.prems by (auto simp: image_iff)
    then show ?thesis using Cons by (simp add: Let_def)
  qed
qed simp

text \<open>A child with a nested message: the callback of \<open>addObject\<close> has filled the new message.\<close>

lemma addObject_ok:
  assumes "schema_unique (dm_schema d)" "f \<in> set (sc_fields (dm_schema d))" "dm_obj d" "f_type f = OBJECT"
    "f_schema f = Some s"
  shows "addObject_open (f_name f) d = Inr (Some (f_id f, dm_new s))"
    "addObject_close (f_id f) sub d = Inr (dm_extend d [MessageObject (f_id f) (mo_data (dm_data sub))])"
  using schema_unique_lookup [OF assms(1,2)] addField_token_eq(2) [OF assms(1,2)] assms(3-)
  by (simp_all add: addObject_open_def addObject_close_def hasField_name_def fieldId_def fieldSchema_def addChild_obj
      dm_extend_def)

text \<open>The value of a field at a position, read as a member and as an element of an array.\<close>

definition reads_message :: "dm_env \<Rightarrow> json_object \<Rightarrow> message_schema \<Rightarrow> message_object \<Rightarrow> bool" where
  "reads_message env obj s m \<longleftrightarrow> (\<forall>e b d. value_at obj e b (message_json s m) \<longrightarrow> dm_schema d = s \<longrightarrow> dm_obj d \<longrightarrow>
     dm_fromJSON_loop env obj b e d (Fields (sc_fields s)) =
       ret (dm_extend d (case mo_data (arrange s m) of Obj cs \<Rightarrow> cs | _ \<Rightarrow> [])))"

lemma arrange_Obj: "mo_data (arrange s m) = Obj (case mo_data (arrange s m) of Obj cs \<Rightarrow> cs | _ \<Rightarrow> [])"
  "mo_id (arrange s m) = mo_id m"
  by (cases s; simp)+

lemma nested_value_read:
  assumes "schema_unique (dm_schema d)" "f \<in> set (sc_fields (dm_schema d))" "dm_obj d" "f_type f = OBJECT"
    "f_schema f = Some s" "mo_id c = f_id f" "reads_message env obj s c" "value_at obj e p (message_json s c)"
  obtains sub where "addObject_open (f_name f) d = Inr (Some (f_id f, dm_new s))"
    "dm_fromJSON_loop env obj p (min e (p + jt_size (obj ! p))) (dm_new s) (Fields (sc_fields s)) = ret sub"
    "addObject_close (f_id f) sub d = Inr (dm_extend d [arrange s c])"
    "\<And>v. addField_token env f v (dm_extend d [arrange s c]) = ret (dm_extend d [arrange s c])"
    "jt_type (obj ! p) = JSON_OBJECT_BEGIN"
proof
  let ?sub = "dm_extend (dm_new s) (case mo_data (arrange s c) of Obj cs \<Rightarrow> cs | _ \<Rightarrow> [])"
  obtain n fs ids types names where s: "s = Schema n fs ids types names" by (cases s)
  have t: "obj ! p = hd (flatten (message_json s c))" using assms(8) by (rule value_at_hd)
  show "jt_type (obj ! p) = JSON_OBJECT_BEGIN" unfolding t s by (simp add: bracket_def sized_def)
  have "jt_size (obj ! p) = length (flatten (message_json s c))" using hd_flatten_size t by simp
  then have "value_at obj (min e (p + jt_size (obj ! p))) p (message_json s c)"
    using assms(8) by (auto simp: value_at_def)
  with assms(7) show "dm_fromJSON_loop env obj p (min e (p + jt_size (obj ! p))) (dm_new s) (Fields (sc_fields s)) = ret ?sub"
    by (simp add: reads_message_def)
  have "mo_data (dm_data ?sub) = mo_data (arrange s c)"
    using arrange_Obj(1) [of s c] by (simp add: dm_extend_def dm_new_def)
  moreover have "MessageObject (f_id f) (mo_data (arrange s c)) = arrange s c"
    using arrange_Obj(2) [of s c] assms(6) by (cases "arrange s c") simp
  ultimately show "addObject_close (f_id f) ?sub d = Inr (dm_extend d [arrange s c])"
    using addObject_ok(2) [OF assms(1-5)] by simp
  show "addObject_open (f_name f) d = Inr (Some (f_id f, dm_new s))" by (rule addObject_ok(1) [OF assms(1-5)])
  show "addField_token env f v (dm_extend d [arrange s c]) = ret (dm_extend d [arrange s c])" for v
    using addField_token_object [of "dm_extend d [arrange s c]" f env v] assms(1,2,4) by simp
qed

lemma scalar_value_read:
  assumes "schema_unique (dm_schema d)" "f \<in> set (sc_fields (dm_schema d))" "dm_obj d"
    and "value_json_ok f c" "mo_id c = f_id f" "value_at obj e p (value_json f c)" "f_schema f = None"
  shows "scalar_member env f (obj ! p) d = ret (dm_extend d [arrange_value f c])"
    "f_repeated f \<Longrightarrow> scalar_element env f (obj ! p) d = ret (dm_extend d [arrange_value f c])"
    "jt_type (obj ! p) \<noteq> JSON_ARRAY_BEGIN" "jt_type (obj ! p) \<noteq> JSON_OBJECT_BEGIN"
proof -
  obtain i n t ts rep opt enc sc where f: "f = Field i n t ts rep opt enc sc" by (cases f)
  have ok: "scalar_ok (f_type f) (mo_data c)" "f_type f = FieldType.BOOLEAN \<Longrightarrow> \<not> f_repeated f"
    "value_at obj e p (scalar_json (mo_data c))" "arrange_value f c = c"
    using assms(4,6,7) f by auto
  have c: "MessageObject (f_id f) (mo_data c) = c" using assms(5) by (cases c) simp
  note add = addField_scalar [OF assms(1-3) ok(1), of env, unfolded c]
  note tok = scalar_token [OF ok(1,3)]
  show "scalar_member env f (obj ! p) d = ret (dm_extend d [arrange_value f c])"
    "jt_type (obj ! p) \<noteq> JSON_ARRAY_BEGIN" "jt_type (obj ! p) \<noteq> JSON_OBJECT_BEGIN"
    using tok add ok(4) by simp_all
  show "scalar_element env f (obj ! p) d = ret (dm_extend d [arrange_value f c])" if "f_repeated f"
    using tok(4) [of env f d] add ok(2,4) that by force
qed

lemma nested_value:
  assumes "value_json_ok f c" "f_schema f = Some s"
  shows "f_type f = OBJECT" "value_json f c = message_json s c" "arrange_value f c = arrange s c" "msg_json_ok s c"
  using assms by (cases f; simp)+

lemma member_read:
  assumes d: "schema_unique (dm_schema d)" "f \<in> set (sc_fields (dm_schema d))" "dm_obj d"
    and c: "value_json_ok f c" "mo_id c = f_id f" "value_at obj e p (value_json f c)"
    and sub: "\<And>s. f_schema f = Some s \<Longrightarrow> reads_message env obj s c"
    and p: "objectLookup obj b e (f_name f) = ret p"
  shows "dm_fromJSON_loop env obj b e d (Fields (f # fs)) =
    dm_fromJSON_loop env obj b e (dm_extend d [arrange_value f c]) (Fields fs)"
proof (cases "f_schema f")
  case None
  then show ?thesis
    using scalar_value_read [OF d c None] value_at_less [OF c(3)] p
    by (subst dm_fromJSON_loop.simps) simp
next
  case (Some s)
  note n = nested_value [OF c(1) Some]
  show ?thesis
    by (rule nested_value_read [OF d n(1) Some c(2) sub [OF Some] c(3) [unfolded n(2)]],
        use value_at_less [OF c(3)] p n in \<open>subst dm_fromJSON_loop.simps, simp\<close>)
qed

lemma element_read:
  assumes d: "schema_unique (dm_schema d)" "f \<in> set (sc_fields (dm_schema d))" "dm_obj d" "f_repeated f"
    and c: "value_json_ok f c" "mo_id c = f_id f" "value_at obj e p (value_json f c)"
    and sub: "\<And>s. f_schema f = Some s \<Longrightarrow> reads_message env obj s c"
    and p: "p < aend"
  shows "dm_fromJSON_loop env obj b e d (Elems f p aend fs) =
    dm_fromJSON_loop env obj b e (dm_extend d [arrange_value f c]) (Elems f (p + length (flatten (value_json f c))) aend fs)"
proof -
  have size: "jt_size (obj ! p) = length (flatten (value_json f c))"
    using hd_flatten_size value_at_hd [OF c(3)] by simp
  show ?thesis
  proof (cases "f_schema f")
    case None
    then show ?thesis
      using scalar_value_read [OF d(1-3) c None] d(4) p size by (subst dm_fromJSON_loop.simps) simp
  next
    case (Some s)
    note n = nested_value [OF c(1) Some]
    show ?thesis
      by (rule nested_value_read [OF d(1-3) n(1) Some c(2) sub [OF Some] c(3) [unfolded n(2)]],
          use p n size in \<open>subst dm_fromJSON_loop.simps, simp\<close>)
  qed
qed

lemma elements_read:
  assumes "schema_unique (dm_schema d)" "f \<in> set (sc_fields (dm_schema d))" "dm_obj d" "f_repeated f"
    and "\<forall>c \<in> set ms. value_json_ok f c \<and> mo_id c = f_id f \<and> (\<forall>s. f_schema f = Some s \<longrightarrow> reads_message env obj s c)"
    and "drop p obj = concat (map (\<lambda>c. flatten (value_json f c)) ms) @ JSONToken JSON_ARRAY_END [] # r"
    and "aend = p + length (concat (map (\<lambda>c. flatten (value_json f c)) ms)) + 1" "aend \<le> e" "e \<le> length obj"
  shows "dm_fromJSON_loop env obj b e d (Elems f p aend fs) =
    dm_fromJSON_loop env obj b e (dm_extend d (map (arrange_value f) ms)) (Fields fs)"
  using assms
proof (induction ms arbitrary: d p)
  case Nil
  have "obj ! p = JSONToken JSON_ARRAY_END []" using Nil.prems(6) by (simp add: nth_via_drop)
  then have "dm_fromJSON_loop env obj b e d (Elems f p aend fs) = dm_fromJSON_loop env obj b e d (Elems f (p + 1) aend fs)"
    using Nil.prems(7) by (subst dm_fromJSON_loop.simps) (simp add: scalar_element_def JSONToken_def)
  also have "\<dots> = dm_fromJSON_loop env obj b e d (Fields fs)"
    using Nil.prems(7) by (subst dm_fromJSON_loop.simps) simp
  finally show ?case using Nil.prems(3) by simp
next
  case (Cons c ms)
  let ?n = "length (flatten (value_json f c))"
  have v: "value_at obj e p (value_json f c)"
    using Cons.prems(6-9) by (auto simp: value_at_def)
  have "dm_fromJSON_loop env obj b e d (Elems f p aend fs) =
      dm_fromJSON_loop env obj b e (dm_extend d [arrange_value f c]) (Elems f (p + ?n) aend fs)"
    using Cons.prems(5,7) by (intro element_read [OF Cons.prems(1-4) _ _ v]) auto
  moreover have "drop (p + ?n) obj = concat (map (\<lambda>c. flatten (value_json f c)) ms) @ JSONToken JSON_ARRAY_END [] # r"
    unfolding add.commute [of p] drop_drop [symmetric] using Cons.prems(6) by simp
  ultimately show ?case
    using Cons.IH [of "dm_extend d [arrange_value f c]" "p + ?n"] Cons.prems by simp
qed

lemma values_of_id: "c \<in> set (values_of f m) \<Longrightarrow> mo_id c = f_id f"
  by (simp add: values_of_def)

lemma field_read:
  assumes d: "schema_unique (dm_schema d)" "f \<in> set (sc_fields (dm_schema d))" "dm_obj d"
    and doc: "value_at obj e b (JObj kvs)" "map_of kvs (f_name f) = (if values_of f m = [] then None
      else Some (if f_repeated f then JArr (map (value_json f) (values_of f m)) else hd (map (value_json f) (values_of f m))))"
    and single: "f_repeated f \<or> length (values_of f m) \<le> 1"
    and ok: "\<forall>c \<in> set (values_of f m). value_json_ok f c \<and> (\<forall>s. f_schema f = Some s \<longrightarrow> reads_message env obj s c)"
  shows "dm_fromJSON_loop env obj b e d (Fields (f # fs)) =
    dm_fromJSON_loop env obj b e (dm_extend d (map (arrange_value f) (values_of f m))) (Fields fs)"
proof -
  let ?vs = "values_of f m"
  obtain p where p: "objectLookup obj b e (f_name f) = ret p"
    "case map_of kvs (f_name f) of None \<Rightarrow> p = e | Some v \<Rightarrow> p \<noteq> e \<and> value_at obj e p v"
    using objectLookup_at [OF doc(1)] by blast
  consider (none) "?vs = []" | (one) c where "?vs = [c]" "\<not> f_repeated f" | (many) "?vs \<noteq> []" "f_repeated f"
    using single by (cases ?vs; cases "tl ?vs") auto
  then show ?thesis
  proof cases
    case none
    then show ?thesis using p doc(2) d(3) by (subst dm_fromJSON_loop.simps) simp
  next
    case one
    then have "value_at obj e p (value_json f c)" using p(2) doc(2) by simp
    from member_read [OF d _ _ this _ p(1), of env fs] one ok values_of_id [of c f m] show ?thesis by simp
  next
    case many
    then have v: "value_at obj e p (JArr (map (value_json f) ?vs))" "p \<noteq> e" using p(2) doc(2) by simp_all
    then obtain pre post where o: "obj = pre @ flatten (JArr (map (value_json f) ?vs)) @ post" "p = length pre"
      "p + length (flatten (JArr (map (value_json f) ?vs))) \<le> e" "e \<le> length obj"
      by (auto elim: value_at_split)
    let ?body = "concat (map (\<lambda>c. flatten (value_json f c)) ?vs)"
    have tok: "obj ! p = sized JSON_ARRAY_BEGIN (length ?body + 2)"
      using value_at_hd [OF v(1)] by (simp add: bracket_def comp_def)
    have "drop (p + 1) obj = ?body @ JSONToken JSON_ARRAY_END [] # post"
      unfolding o(1,2) by (simp add: bracket_def comp_def)
    moreover have "min e (p + (length ?body + 2)) = p + 1 + length ?body + 1" "p + 1 + length ?body + 1 \<le> e"
      using o(3) by (simp_all add: comp_def)
    ultimately have "dm_fromJSON_loop env obj b e d (Elems f (p + 1) (min e (p + (length ?body + 2))) fs) =
        dm_fromJSON_loop env obj b e (dm_extend d (map (arrange_value f) ?vs)) (Fields fs)"
      using ok values_of_id o(4) by (intro elements_read [OF d many(2)]) auto
    then show ?thesis using p(1) v(2) tok by (subst dm_fromJSON_loop.simps) (simp add: sized_def)
  qed
qed

lemma fields_read:
  assumes "schema_unique (dm_schema d)" "set gs \<subseteq> set (sc_fields (dm_schema d))" "dm_obj d"
    and "value_at obj e b (JObj kvs)"
    and "\<forall>f \<in> set gs. map_of kvs (f_name f) = (if values_of f m = [] then None
      else Some (if f_repeated f then JArr (map (value_json f) (values_of f m)) else hd (map (value_json f) (values_of f m))))"
    and "\<forall>f \<in> set gs. f_repeated f \<or> length (values_of f m) \<le> 1"
    and "\<forall>f \<in> set gs. \<forall>c \<in> set (values_of f m). value_json_ok f c \<and> (\<forall>s. f_schema f = Some s \<longrightarrow> reads_message env obj s c)"
  shows "dm_fromJSON_loop env obj b e d (Fields gs) =
    ret (dm_extend d (concat (map (\<lambda>f. map (arrange_value f) (values_of f m)) gs)))"
  using assms
proof (induction gs arbitrary: d)
  case Nil
  then show ?case by (subst dm_fromJSON_loop.simps) simp
next
  case (Cons f gs)
  then have "dm_fromJSON_loop env obj b e d (Fields (f # gs)) =
      dm_fromJSON_loop env obj b e (dm_extend d (map (arrange_value f) (values_of f m))) (Fields gs)"
    by (intro field_read) auto
  with Cons.IH [of "dm_extend d (map (arrange_value f) (values_of f m))"] Cons.prems show ?case by simp
qed

lemma message_read:
  "msg_json_ok s m \<Longrightarrow> reads_message env obj s m"
  "value_json_ok f c \<Longrightarrow> f_schema f = Some s' \<Longrightarrow> reads_message env obj s' c"
proof (induction s m and f c arbitrary: and s' rule: message_json_induct)
  case (1 n fs ids types names m)
  let ?s = "Schema n fs ids types names"
  have u: "schema_unique ?s" "distinct (map f_name fs)" using "1.prems" by (simp_all add: schema_unique_def)
  show ?case
    unfolding reads_message_def
  proof (intro allI impI)
    fix e b d
    assume d: "value_at obj e b (message_json ?s m)" "dm_schema d = ?s" "dm_obj d"
    have "dm_fromJSON_loop env obj b e d (Fields fs) =
        ret (dm_extend d (concat (map (\<lambda>f. map (arrange_value f) (values_of f m)) fs)))"
      using "1.IH" "1.prems" u d message_json_member [OF u(2)]
      by (intro fields_read [OF _ _ d(3) d(1) [unfolded message_json.simps]]) auto
    then show "dm_fromJSON_loop env obj b e d (Fields (sc_fields ?s)) =
        ret (dm_extend d (case mo_data (arrange ?s m) of Obj cs \<Rightarrow> cs | _ \<Rightarrow> []))" by simp
  qed
next
  case (2 i n t ts rep opt enc sc c)
  then show ?case by (cases sc) auto
qed

lemma addField_getField_cases:
  assumes "schema_unique s" "f \<in> set (sc_fields s)"
  shows "f_type f = STRING \<Longrightarrow> \<exists>d. dm_addField_name env (f_name f) v (dm_new s) = Inr (True, d) \<and>
      dm_getField_name (f_name f) d = Inr (Some v)"
    and "f_type f = UINT64 \<Longrightarrow> n < 2 ^ 64 \<Longrightarrow>
      \<exists>d. dm_addField_name env (f_name f) (to_string n) (dm_new s) = Inr (True, d) \<and>
        dm_getField_name (f_name f) d = Inr (Some (to_string n))"
    and "f_type f = UINT64 \<Longrightarrow> stoull v = Inl err \<Longrightarrow> dm_addField_name env (f_name f) v (dm_new s) = Inr (False, dm_new s)"
    and "sc_ids s k = None \<Longrightarrow> dm_addField_name env k v (dm_new s) = Inr (False, dm_new s) \<and> dm_getField_name k (dm_new s) = Inr None"
proof -
  have eq: "schema_unique (dm_schema (dm_new s))" "f \<in> set (sc_fields (dm_schema (dm_new s)))" using assms by simp_all
  have get: "dm_getField_name (f_name f) d = dm_getField (f_id f) d" if "dm_schema d = s" for d
    using schema_unique_lookup(1) [OF assms] that by (simp add: dm_getField_name_def hasField_name_def fieldId_def)
  note look = addField_token_eq [OF eq] dm_add_obj dm_addField_def
  have val: "dm_getField (f_id f) (dm_extend (dm_new s) [MessageObject (f_id f) x]) =
      (case (f_type f, x) of (STRING, Str t) \<Rightarrow> Inr (Some t) | (UINT64, U64 w) \<Rightarrow> Inr (Some (to_string (unat w))) | _ \<Rightarrow> undefined)"
    if "(f_type f, x) \<in> {(STRING, Str t), (UINT64, U64 w)}" for x t w
    using that look(2,3) by (auto simp: dm_getField_def fieldCount_def asObject_def dm_extend_def dm_new_def
        getString_def getUInt64_def get_child_def asString_def asUInt64_def)
  show "\<exists>d. dm_addField_name env (f_name f) v (dm_new s) = Inr (True, d) \<and> dm_getField_name (f_name f) d = Inr (Some v)"
    if "f_type f = STRING"
    using look that val [of "Str v" v] get by simp
  show "\<exists>d. dm_addField_name env (f_name f) (to_string n) (dm_new s) = Inr (True, d) \<and>
        dm_getField_name (f_name f) d = Inr (Some (to_string n))" if "f_type f = UINT64" "n < 2 ^ 64"
    using look that val [of "U64 (word_of_nat n)"] get by (simp add: try_add_def unat_of_nat take_bit_nat_eq_self)
  show "dm_addField_name env (f_name f) v (dm_new s) = Inr (False, dm_new s)" if "f_type f = UINT64" "stoull v = Inl err"
    using look that by (simp add: try_add_def)
  show "dm_addField_name env k v (dm_new s) = Inr (False, dm_new s) \<and> dm_getField_name k (dm_new s) = Inr None"
    if "sc_ids s k = None"
    using that by (simp add: dm_addField_name_def dm_getField_name_def hasField_name_def)
qed

lemma elems_skipped:
  assumes "\<forall>j < k. \<exists>t. obj ! (p + j) = JSONToken t [] \<and> t \<noteq> JSON_OBJECT_BEGIN"
    and "\<And>t. scalar_element env f (JSONToken t []) d = ret d"
  shows "dm_fromJSON_loop env obj b e d (Elems f p (p + k) []) = ret d"
  using assms(1)
proof (induction k arbitrary: p)
  case 0
  show ?case by (subst dm_fromJSON_loop.simps) (simp add: dm_fromJSON_loop.simps)
next
  case (Suc k)
  obtain t where t: "obj ! p = JSONToken t []" "t \<noteq> JSON_OBJECT_BEGIN" using Suc.prems [rule_format, of 0] by auto
  have "\<forall>j < k. \<exists>t. obj ! (Suc p + j) = JSONToken t [] \<and> t \<noteq> JSON_OBJECT_BEGIN"
    using Suc.prems by (metis Suc_less_eq add_Suc_shift)
  from Suc.IH [OF this] show ?case
    using t assms(2) [of t] by (subst dm_fromJSON_loop.simps) (simp add: JSONToken_def)
qed

section \<open>Properties\<close>

text \<open>C11. A message survives JSON: what \<open>DynamicMessage::toJSON\<close> writes is parsed and read by \<open>fromJSON\<close> into the
  message with its fields in the order of the schema and the fields unknown to the schema left out (\<open>arrange\<close>), nested
  messages and repeated fields included. All of it returns without an error. The message is one JSON can express for the
  schema (\<open>msg_json_ok\<close>): no doubles, no repeated booleans, no control characters, times that are read as microseconds, at most
  one value of a field that is not repeated; field names and ids are unique.\<close>

theorem dynamic_message_json_roundtrip:
  assumes "msg_json_ok s m" "mo_id m = 0"
  shows "\<exists>str obj. dm_toJSON sos_write (setData m (dm_new s)) [] = ret str \<and> parseJSON str = ret obj \<and>
    dm_fromJSON env obj 0 (length obj) (dm_new s) = ret (setData (arrange s m) (dm_new s))"
proof -
  obtain str where "JSONEncoder_encode sos_write s m [] = ret str"
    "bytes_of str = bytes_of [] @ bytes_of (direct_text (message_json s m))"
    using sos.emits_message(1) [OF assms(1)] unfolding sos.emits_def by blast
  moreover from this have "str = direct_text (message_json s m)" using bytes_of_inject by simp
  moreover have "value_at (flatten (message_json s m)) (length (flatten (message_json s m))) 0 (message_json s m)"
    by (simp add: value_at_def)
  moreover have "dm_extend (dm_new s) (case mo_data (arrange s m) of Obj cs \<Rightarrow> cs | _ \<Rightarrow> []) = setData (arrange s m) (dm_new s)"
    using arrange_Obj [of s m] assms(2) by (cases "arrange s m") (simp add: dm_extend_def dm_new_def setData_def)
  moreover from calculation have "dm_fromJSON env (flatten (message_json s m)) 0 (length (flatten (message_json s m))) (dm_new s) =
      ret (setData (arrange s m) (dm_new s))"
    using message_read(1) [OF assms(1), of env "flatten (message_json s m)"]
    by (simp add: reads_message_def dm_fromJSON_def)
  moreover have "dm_toJSON sos_write (setData m (dm_new s)) = JSONEncoder_encode sos_write s m"
    by (simp add: dm_toJSON_def setData_def fun_eq_iff)
  ultimately show ?thesis
    using parse_direct_text [of "message_json s m"] message_json_safe(1) [OF assms(1)] by simp
qed

theorem dynamic_message_json_roundtrip_witness:
  "\<exists>str obj s m. s = MessageSchema ''m'' [Field 1 ''a'' UINT32 0 False False NONE None,
       Field 2 ''b'' STRING 0 True False NONE None] \<and>
     m = MessageObject 0 (Obj [MessageObject 2 (Str ''x''), MessageObject 1 (U32 7), MessageObject 2 (Str ''y'')]) \<and>
     dm_toJSON sos_write (setData m (dm_new s)) [] = ret str \<and> parseJSON str = ret obj \<and>
     dm_fromJSON \<lparr>env_strptime = \<lambda>_. None, env_stod = \<lambda>_. Inl StdException, env_now = 0\<rparr> obj 0 (length obj) (dm_new s) =
       ret (setData (MessageObject 0 (Obj [MessageObject 1 (U32 7), MessageObject 2 (Str ''x''), MessageObject 2 (Str ''y'')]))
         (dm_new s))"
proof -
  let ?fs = "[Field 1 ''a'' UINT32 0 False False NONE None, Field 2 ''b'' STRING 0 True False NONE None]"
  let ?s = "MessageSchema ''m'' ?fs"
  let ?m = "MessageObject 0 (Obj [MessageObject 2 (Str ''x''), MessageObject 1 (U32 7), MessageObject 2 (Str ''y'')])"
  have "schema_index ?s" by (rule schema_index_MessageSchema)
  then have "msg_json_ok ?s ?m"
    by (simp add: MessageSchema_def addField_def setName_def schema_null_def schema_unique_def values_of_def
        json_safe_chr_def escapeString_def escape_chr_def)
  moreover have "arrange ?s ?m =
      MessageObject 0 (Obj [MessageObject 1 (U32 7), MessageObject 2 (Str ''x''), MessageObject 2 (Str ''y'')])"
    by (simp add: MessageSchema_def addField_def setName_def schema_null_def values_of_def)
  ultimately show ?thesis
    using dynamic_message_json_roundtrip [of ?s ?m "\<lparr>env_strptime = \<lambda>_. None, env_stod = \<lambda>_. Inl StdException, env_now = 0\<rparr>"]
    by auto
qed

text \<open>\<open>addField\<close> and \<open>getField\<close> agree: a text added to an empty message under the name of a string
  or integer field is returned under that name, integers in their normal form; nothing is added
  under an unknown name, and an integer field rejects a text that starts with no number.\<close>

theorem addField_getField:
  assumes "schema_unique s" "f \<in> set (sc_fields s)"
  shows "(f_type f = STRING \<longrightarrow> (\<exists>d. dm_addField_name env (f_name f) v (dm_new s) = Inr (True, d) \<and>
      dm_getField_name (f_name f) d = Inr (Some v))) \<and>
    (f_type f = UINT64 \<and> n < 2 ^ 64 \<longrightarrow>
      (\<exists>d. dm_addField_name env (f_name f) (to_string n) (dm_new s) = Inr (True, d) \<and>
        dm_getField_name (f_name f) d = Inr (Some (to_string n)))) \<and>
    (f_type f = UINT64 \<and> stoull v = Inl err \<longrightarrow>
      dm_addField_name env (f_name f) v (dm_new s) = Inr (False, dm_new s)) \<and>
    (sc_ids s k = None \<longrightarrow>
      dm_addField_name env k v (dm_new s) = Inr (False, dm_new s) \<and> dm_getField_name k (dm_new s) = Inr None)"
  using addField_getField_cases [OF assms] by blast

theorem addField_getField_witness:
  "\<exists>d. dm_addField_name \<lparr>env_strptime = \<lambda>_. None, env_stod = \<lambda>_. Inl StdException, env_now = 0\<rparr> ''a'' ''xyz''
      (dm_new (MessageSchema ''m'' [Field 1 ''a'' STRING 0 False False NONE None])) = Inr (True, d) \<and>
     dm_getField_name ''a'' d = Inr (Some ''xyz'')"
proof -
  let ?s = "MessageSchema ''m'' [Field 1 ''a'' STRING 0 False False NONE None]"
  have "schema_unique ?s"
    using schema_index_MessageSchema [of "''m''" "[Field 1 ''a'' STRING 0 False False NONE None]"]
    by (simp add: schema_unique_def MessageSchema_def addField_def setName_def schema_null_def)
  moreover have "Field 1 ''a'' STRING 0 False False NONE None \<in> set (sc_fields ?s)" by (simp add: MessageSchema_def addField_def)
  ultimately show ?thesis
    using addField_getField [of ?s "Field 1 ''a'' STRING 0 False False NONE None"
      "\<lparr>env_strptime = \<lambda>_. None, env_stod = \<lambda>_. Inl StdException, env_now = 0\<rparr>" "''xyz''"] by simp
qed

text \<open>\<open>fromJSON\<close> loses the booleans of an array: the literals are added with the empty data of their
  token, which is not a boolean, so a repeated boolean field stays empty.\<close>

theorem fromJSON_loses_array_booleans:
  assumes "i \<noteq> 0"
  shows "dm_fromJSON env (flatten (JObj [(n, JArr (map jbool bs))])) 0 (length (flatten (JObj [(n, JArr (map jbool bs))])))
      (dm_new (MessageSchema sn [Field i n FieldType.BOOLEAN ts True opt enc None])) =
    ret (dm_new (MessageSchema sn [Field i n FieldType.BOOLEAN ts True opt enc None]))"
proof -
  let ?f = "Field i n FieldType.BOOLEAN ts True opt enc None"
  let ?s = "MessageSchema sn [?f]" and ?obj = "flatten (JObj [(n, JArr (map jbool bs))])"
  have fields: "sc_fields ?s = [?f]" by (simp add: MessageSchema_def setName_def schema_null_def addField_def)
  then have u: "schema_unique ?s" using schema_index_MessageSchema [of sn "[?f]"] assms by (simp add: schema_unique_def)
  have drop_b: "scalar_element env ?f (JSONToken t []) (dm_new ?s) = ret (dm_new ?s)" for t
    using addField_token_eq [of "dm_new ?s" ?f] u fields
    by (simp add: scalar_element_def addField_token_def dm_addField_def parseBoolean_def JSONToken_def)
  have flat: "flatten (jbool b) = [JSONToken (if b then JSON_TRUE else JSON_FALSE) []]" for b
    by (simp add: jbool_def)
  obtain p where p: "objectLookup ?obj 0 (length ?obj) n = ret p" "p \<noteq> length ?obj"
    "value_at ?obj (length ?obj) p (JArr (map jbool bs))"
    using objectLookup_at [of ?obj "length ?obj" 0 "[(n, JArr (map jbool bs))]" n] by (auto simp: value_at_def)
  have arr: "flatten (JArr (map jbool bs)) = sized JSON_ARRAY_BEGIN (length bs + 2) #
      map (\<lambda>t. JSONToken t []) (map (\<lambda>b. if b then JSON_TRUE else JSON_FALSE) bs @ [JSON_ARRAY_END])"
    by (simp add: bracket_def comp_def flat)
  have tok: "?obj ! p = sized JSON_ARRAY_BEGIN (length bs + 2)" using value_at_hd [OF p(3)] arr by simp
  have "\<exists>t. ?obj ! (p + 1 + j) = JSONToken t [] \<and> t \<noteq> JSON_OBJECT_BEGIN" if j: "j < length bs + 1" for j
  proof -
    let ?ts = "map (\<lambda>b. if b then JSON_TRUE else JSON_FALSE) bs @ [JSON_ARRAY_END]"
    obtain r where r: "drop p ?obj = flatten (JArr (map jbool bs)) @ r" using p(3) by (auto simp: value_at_def)
    have "?obj ! (p + 1 + j) = drop p ?obj ! (1 + j)" using value_at_less [OF p(3)] by (simp add: add.assoc)
    also have "\<dots> = JSONToken (?ts ! j) []" unfolding r arr using j by (simp add: nth_append)
    finally show ?thesis using j by (auto simp: nth_append)
  qed
  then have "dm_fromJSON_loop env ?obj 0 (length ?obj) (dm_new ?s) (Elems ?f (p + 1) (p + 1 + (length bs + 1)) []) =
      ret (dm_new ?s)"
    by (intro elems_skipped drop_b) auto
  moreover have "min (length ?obj) (p + (length bs + 2)) = p + 1 + (length bs + 1)"
    using p(3) unfolding value_at_def arr by (simp del: flatten.simps)
  ultimately show ?thesis
    using p(1,2) tok unfolding dm_fromJSON_def dm_obj_new fields
    by (subst dm_fromJSON_loop.simps) (simp add: sized_def)
qed

theorem fromJSON_loses_array_booleans_witness:
  "dm_fromJSON \<lparr>env_strptime = \<lambda>_. None, env_stod = \<lambda>_. Inl StdException, env_now = 0\<rparr>
      (flatten (JObj [(''a'', JArr [JTrue, JFalse])])) 0 (length (flatten (JObj [(''a'', JArr [JTrue, JFalse])])))
      (dm_new (MessageSchema ''m'' [Field 1 ''a'' FieldType.BOOLEAN 0 True False NONE None])) =
    ret (dm_new (MessageSchema ''m'' [Field 1 ''a'' FieldType.BOOLEAN 0 True False NONE None]))"
  using fromJSON_loses_array_booleans [of 1 "\<lparr>env_strptime = \<lambda>_. None, env_stod = \<lambda>_. Inl StdException, env_now = 0\<rparr>"
      "''a''" "[True, False]" "''m''" 0 False NONE]
  by (simp add: jbool_def del: flatten.simps)

text \<open>The case for a nested object in \<open>fromJSON\<close> runs into the case for a string: a JSON object given
  for a string field adds the empty string to the message.\<close>

theorem fromJSON_object_for_string:
  assumes "i \<noteq> 0"
  shows "dm_fromJSON env (flatten (JObj [(n, JObj kvs)])) 0 (length (flatten (JObj [(n, JObj kvs)])))
      (dm_new (MessageSchema sn [Field i n STRING ts rep opt enc None])) =
    ret (setData (MessageObject 0 (Obj [MessageObject i (Str [])]))
      (dm_new (MessageSchema sn [Field i n STRING ts rep opt enc None])))"
proof -
  let ?f = "Field i n STRING ts rep opt enc None"
  let ?s = "MessageSchema sn [?f]" and ?obj = "flatten (JObj [(n, JObj kvs)])"
  have fields: "sc_fields ?s = [?f]" by (simp add: MessageSchema_def setName_def schema_null_def addField_def)
  then have u: "schema_unique (dm_schema (dm_new ?s))" "?f \<in> set (sc_fields (dm_schema (dm_new ?s)))"
    using schema_index_MessageSchema [of sn "[?f]"] assms by (simp_all add: schema_unique_def)
  obtain p where p: "objectLookup ?obj 0 (length ?obj) n = ret p" "p \<noteq> length ?obj"
    "value_at ?obj (length ?obj) p (JObj kvs)"
    using objectLookup_at [of ?obj "length ?obj" 0 "[(n, JObj kvs)]" n] by (auto simp: value_at_def)
  have tok: "jt_type (?obj ! p) = JSON_OBJECT_BEGIN" "jt_data (?obj ! p) = []"
    using value_at_hd [OF p(3)] by (simp_all add: bracket_def sized_def)
  have "addObject_open n (dm_new ?s) = Inr None"
    using schema_unique_lookup(1) [OF u] addField_token_eq(2) [OF u]
    by (simp add: addObject_open_def hasField_name_def fieldId_def)
  moreover have "addField_token env ?f [] (dm_new ?s) = ret (dm_extend (dm_new ?s) [MessageObject i (Str [])])"
    using addField_scalar [OF u, of "Str []" env] by simp
  ultimately have "dm_fromJSON_loop env ?obj 0 (length ?obj) (dm_new ?s) (Fields [?f]) =
      ret (dm_extend (dm_new ?s) [MessageObject i (Str [])])"
    using p(1,2) tok by (subst dm_fromJSON_loop.simps) (simp add: dm_fromJSON_loop.simps del: flatten.simps)
  then show ?thesis unfolding dm_fromJSON_def dm_obj_new fields
    by (simp add: dm_extend_def dm_new_def setData_def)
qed

theorem fromJSON_object_for_string_witness:
  "dm_fromJSON \<lparr>env_strptime = \<lambda>_. None, env_stod = \<lambda>_. Inl StdException, env_now = 0\<rparr>
      (flatten (JObj [(''a'', JObj [])])) 0 (length (flatten (JObj [(''a'', JObj [])])))
      (dm_new (MessageSchema ''m'' [Field 1 ''a'' STRING 0 False False NONE None])) =
    ret (setData (MessageObject 0 (Obj [MessageObject 1 (Str [])]))
      (dm_new (MessageSchema ''m'' [Field 1 ''a'' STRING 0 False False NONE None])))"
  using fromJSON_object_for_string [of 1 "\<lparr>env_strptime = \<lambda>_. None, env_stod = \<lambda>_. Inl StdException, env_now = 0\<rparr>"
      "''a''" "[]" "''m''" 0 False False NONE]
  by (simp del: flatten.simps)

end
