(* ===== verification/Stx_SSE.thy ===== *)
theory Stx_SSE
  imports Stx_HTTP
begin

text \<open>
  Server-sent events: the text a server sends (\<open>http/HTTPSSEStream.cc\<close>) and the incremental parser of the
  client (\<open>http/HTTPSSEParser.cc\<close>). The parser keeps the unparsed rest of the stream in its buffer;
  its scan for the empty line that ends an event and its loop over the lines of an event follow the
  characters with an index in the code and are functions of the remaining text here. Events are
  collected in the order in which the callback gets them.
\<close>

section \<open>HTTPSSEParser\<close>

record sse_event =
  sse_data :: string
  sse_name :: "string option"

record sse_parser =
  sp_buf :: string
  sp_on_event :: bool
  sp_events :: "sse_event list"

definition sse_new :: "bool \<Rightarrow> sse_parser" where
  "sse_new handler = \<lparr>sp_buf = [], sp_on_event = handler, sp_events = []\<rparr>"

definition onEvent :: "sse_parser \<Rightarrow> sse_parser" where
  "onEvent p = p\<lparr>sp_on_event := True\<rparr>"

text \<open>A carriage return and a line feed right after it are one line break.\<close>

definition break_size :: "char \<Rightarrow> string \<Rightarrow> nat" where
  "break_size c cs = (if c = CHR 0x0D \<and> cs \<noteq> [] \<and> hd cs = CHR 0x0A then 2 else 1)"

text \<open>The number of characters up to the end of the second line break in a row.\<close>

function sse_scan :: "nat \<Rightarrow> string \<Rightarrow> nat option" where
  "sse_scan state [] = (if state < 2 then None else Some 0)"
| "sse_scan state (c # cs) =
     (if state \<ge> 2 then Some 0
      else if c = CHR 0x0A \<or> c = CHR 0x0D
      then map_option (\<lambda>n. break_size c cs + n) (sse_scan (state + 1) (drop (break_size c cs - 1) cs))
      else map_option Suc (sse_scan 0 cs))"
  by pat_completeness auto
termination
  by (relation "measure (\<lambda>(st, s). length s)") auto

definition sse_line :: "string \<Rightarrow> sse_event \<Rightarrow> sse_event" where
  "sse_line line ev =
     (if beginsWith line ''data: '' then ev\<lparr>sse_data := drop 6 line\<rparr>
      else if beginsWith line ''event: '' then ev\<lparr>sse_name := Some (drop 7 line)\<rparr>
      else ev)"

function sse_lines :: "string \<Rightarrow> string \<Rightarrow> sse_event \<Rightarrow> sse_event" where
  "sse_lines line [] ev = ev"
| "sse_lines line (c # cs) ev =
     (if c = CHR 0x0D \<or> c = CHR 0x0A
      then sse_lines [] (drop (break_size c cs - 1) cs) (if line \<noteq> [] then sse_line line ev else ev)
      else sse_lines (line @ [c]) cs ev)"
  by pat_completeness auto
termination
  by (relation "measure (\<lambda>(line, s, ev). length s)") auto

definition parseEvent :: "string \<Rightarrow> sse_event" where
  "parseEvent data = sse_lines [] data \<lparr>sse_data = [], sse_name = None\<rparr>"

definition deliver :: "bool \<Rightarrow> sse_event \<Rightarrow> sse_event list" where
  "deliver handler ev = (if sse_data ev \<noteq> [] \<and> handler then [ev] else [])"

lemma break_size_LF [simp]: "break_size (CHR 0x0A) cs = 1"
  by (simp add: break_size_def)

lemma sse_scan_found [simp]: "2 \<le> state \<Longrightarrow> sse_scan state s = Some 0"
  by (cases s) auto

lemma sse_scan_bound: "sse_scan st s = Some n \<Longrightarrow> n \<le> length s \<and> (st < 2 \<longrightarrow> 0 < n)"
proof (induction st s arbitrary: n rule: sse_scan.induct)
  case (2 state c cs)
  then show ?case by (fastforce simp: break_size_def neq_Nil_conv split: if_splits)
qed (simp split: if_splits)

function sse_loop :: "bool \<Rightarrow> string \<Rightarrow> sse_event list \<times> string" where
  "sse_loop handler buf =
     (case sse_scan 0 buf of
        None \<Rightarrow> ([], buf)
      | Some n \<Rightarrow>
          (let (evs, r) = sse_loop handler (drop n buf)
           in (deliver handler (parseEvent (take n buf)) @ evs, r)))"
  by pat_completeness auto
termination
  by (relation "measure (\<lambda>(h, buf). length buf)") (auto dest: sse_scan_bound)

declare sse_loop.simps [simp del]

definition sse_parse :: "string \<Rightarrow> sse_parser \<Rightarrow> sse_parser" where
  "sse_parse data p =
     (let (evs, r) = sse_loop (sp_on_event p) (sp_buf p @ data)
      in p\<lparr>sp_buf := r, sp_events := sp_events p @ evs\<rparr>)"

section \<open>HTTPSSEStream\<close>

definition sse_start :: "http_response \<Rightarrow> http_response" where
  "sse_start res =
     setHeader ''Access-Control-Allow-Origin'' ''*''
       (setHeader ''Cache-Control'' ''no-cache''
         (setHeader ''Content-Type'' ''text/event-stream''
           (setHeader ''Connection'' ''close'' (setStatus 200 ''OK'' res))))"

definition sendEvent :: "string \<Rightarrow> string option \<Rightarrow> string" where
  "sendEvent event_data event_type =
     (case event_type of None \<Rightarrow> [] | Some n \<Rightarrow> ''event: '' @ n @ [CHR 0x0A]) @
     ''data: '' @ event_data @ [CHR 0x0A, CHR 0x0A]"

section \<open>Lemmas\<close>

definition no_cr :: "string \<Rightarrow> bool" where
  "no_cr s \<longleftrightarrow> CHR 0x0D \<notin> set s"

lemma sse_scan_append:
  "sse_scan st s = Some n \<Longrightarrow> no_cr s \<Longrightarrow> sse_scan st (s @ t) = Some n"
proof (induction st s arbitrary: n rule: sse_scan.induct)
  case (1 state)
  then show ?case by (cases t) (auto split: if_splits)
next
  case (2 state c cs)
  then show ?case by (auto simp: no_cr_def split: if_splits)
qed

text \<open>Text without carriage returns can be cut anywhere: the parser goes on with the rest it kept.\<close>

lemma sse_loop_append:
  "sse_loop h a = (evs, r) \<Longrightarrow> no_cr a \<Longrightarrow>
   sse_loop h (a @ b) = (evs @ fst (sse_loop h (r @ b)), snd (sse_loop h (r @ b)))"
proof (induction h a arbitrary: evs r rule: sse_loop.induct)
  case (1 h a)
  show ?case
  proof (cases "sse_scan 0 a")
    case None
    then show ?thesis using "1.prems" by (simp add: sse_loop.simps [of h a])
  next
    case (Some n)
    obtain evs' r' where l: "sse_loop h (drop n a) = (evs', r')" by fastforce
    have e: "evs = deliver h (parseEvent (take n a)) @ evs'" "r = r'"
      using "1.prems"(1) Some l by (auto simp: sse_loop.simps [of h a])
    have n: "n \<le> length a" "sse_scan 0 (a @ b) = Some n"
      using Some sse_scan_bound "1.prems"(2) sse_scan_append by blast+
    have "no_cr (drop n a)" using "1.prems"(2) by (auto simp: no_cr_def dest: in_set_dropD)
    from "1.IH" [OF Some l this] show ?thesis
      using n e by (subst sse_loop.simps) (simp add: Let_def split: prod.splits)
  qed
qed

lemma sse_loop_rest: "sse_loop h a = (evs, r) \<Longrightarrow> no_cr a \<Longrightarrow> no_cr r"
proof (induction h a arbitrary: evs r rule: sse_loop.induct)
  case (1 h a)
  then show ?case
    by (cases "sse_scan 0 a")
       (auto simp: sse_loop.simps [of h a] no_cr_def split: prod.splits dest!: in_set_dropD)
qed

lemma sse_parse_append:
  assumes "no_cr (sp_buf p)" "no_cr a"
  shows "sse_parse b (sse_parse a p) = sse_parse (a @ b) p"
proof -
  obtain evs r where "sse_loop (sp_on_event p) (sp_buf p @ a) = (evs, r)" by fastforce
  moreover from this have "sse_loop (sp_on_event p) (sp_buf p @ a @ b) =
      (evs @ fst (sse_loop (sp_on_event p) (r @ b)), snd (sse_loop (sp_on_event p) (r @ b)))"
    using sse_loop_append [of "sp_on_event p" "sp_buf p @ a" evs r b] assms by (simp add: no_cr_def)
  ultimately show ?thesis by (simp add: sse_parse_def split: prod.splits)
qed

lemma no_cr_parse: "no_cr (sp_buf p) \<Longrightarrow> no_cr a \<Longrightarrow> no_cr (sp_buf (sse_parse a p))"
  using sse_loop_rest [of "sp_on_event p" "sp_buf p @ a"]
  by (auto simp: sse_parse_def no_cr_def split: prod.splits)

lemma sse_parse_concat:
  "list_all no_cr chunks \<Longrightarrow> no_cr (sp_buf p) \<Longrightarrow> fold sse_parse chunks (sse_parse [] p) = sse_parse (concat chunks) p"
proof (induction chunks arbitrary: p)
  case (Cons c chunks)
  have "fold sse_parse (c # chunks) (sse_parse [] p) = fold sse_parse chunks (sse_parse c p)"
    using sse_parse_append [of p "[]" c] Cons.prems by (simp add: no_cr_def)
  also have "\<dots> = fold sse_parse chunks (sse_parse [] (sse_parse c p))"
    using sse_parse_append [of p c "[]"] Cons.prems by simp
  also have "\<dots> = sse_parse (concat chunks) (sse_parse c p)"
    using Cons.IH [of "sse_parse c p"] Cons.prems no_cr_parse by simp
  also have "\<dots> = sse_parse (concat (c # chunks)) p"
    using sse_parse_append [of p c "concat chunks"] Cons.prems by simp
  finally show ?case .
qed simp

lemma sse_parse_Nil_new [simp]: "sse_parse [] (sse_new h) = sse_new h"
  by (simp add: sse_parse_def sse_new_def sse_loop.simps)

subsection \<open>The text of an event\<close>

definition no_break :: "string \<Rightarrow> bool" where
  "no_break s \<longleftrightarrow> CHR 0x0A \<notin> set s \<and> CHR 0x0D \<notin> set s"

definition sse_event_ok :: "sse_event \<Rightarrow> bool" where
  "sse_event_ok ev \<longleftrightarrow> sse_data ev \<noteq> [] \<and> no_break (sse_data ev) \<and>
     (case sse_name ev of None \<Rightarrow> True | Some n \<Rightarrow> no_break n)"

definition event_text :: "sse_event \<Rightarrow> string" where
  "event_text ev = sendEvent (sse_data ev) (sse_name ev)"

lemma sse_scan_line: "no_break s \<Longrightarrow> s \<noteq> [] \<Longrightarrow> st < 2 \<Longrightarrow>
    sse_scan st (s @ CHR 0x0A # t) = map_option (\<lambda>n. length s + 1 + n) (sse_scan 1 t)"
proof (induction s arbitrary: st)
  case (Cons c s)
  then have c: "c \<noteq> CHR 0x0A" "c \<noteq> CHR 0x0D" "no_break s" by (auto simp: no_break_def)
  show ?case
  proof (cases "s = []")
    case True
    with c Cons.prems show ?thesis by (simp add: break_size_def option.map_comp comp_def)
  next
    case False
    with c Cons.IH [of 0] Cons.prems show ?thesis by (simp add: option.map_comp comp_def)
  qed
qed simp

lemma sse_lines_line: "no_break s \<Longrightarrow> line @ s \<noteq> [] \<Longrightarrow>
    sse_lines line (s @ CHR 0x0A # t) ev = sse_lines [] t (sse_line (line @ s) ev)"
proof (induction s arbitrary: line)
  case Nil
  then show ?case by (simp add: break_size_def)
next
  case (Cons c s)
  then have "c \<noteq> CHR 0x0A" "c \<noteq> CHR 0x0D" "no_break s" by (auto simp: no_break_def)
  with Cons.IH [of "line @ [c]"] show ?case by simp
qed

lemma sse_scan_event:
  assumes "sse_event_ok ev"
  shows "sse_scan 0 (event_text ev @ t) = Some (length (event_text ev))"
proof -
  have data: "sse_scan st ((''data: '' @ sse_data ev) @ CHR 0x0A # CHR 0x0A # t) = Some (length (''data: '' @ sse_data ev) + 2)"
    if "st < 2" for st
    using assms that by (subst sse_scan_line) (auto simp: sse_event_ok_def no_break_def break_size_def sse_scan.simps)
  show ?thesis
  proof (cases "sse_name ev")
    case None
    then show ?thesis using data [of 0] by (simp add: event_text_def sendEvent_def)
  next
    case (Some n)
    have "sse_scan 0 ((''event: '' @ n) @ CHR 0x0A # (''data: '' @ sse_data ev) @ CHR 0x0A # CHR 0x0A # t) =
        map_option (\<lambda>k. length (''event: '' @ n) + 1 + k) (Some (length (''data: '' @ sse_data ev) + 2))"
      using assms Some data [of 1] by (subst sse_scan_line) (auto simp: sse_event_ok_def no_break_def)
    then show ?thesis using Some by (simp add: event_text_def sendEvent_def)
  qed
qed

lemma parseEvent_text:
  assumes "sse_event_ok ev"
  shows "parseEvent (event_text ev) = ev"
proof -
  have data: "sse_lines [] ((''data: '' @ sse_data ev) @ CHR 0x0A # [CHR 0x0A]) e = e\<lparr>sse_data := sse_data ev\<rparr>" for e
    using assms by (subst sse_lines_line)
      (auto simp: sse_event_ok_def no_break_def sse_line_def beginsWith_def sse_lines.simps break_size_def)
  show ?thesis
  proof (cases "sse_name ev")
    case None
    then show ?thesis using data by (simp add: event_text_def sendEvent_def parseEvent_def)
  next
    case (Some n)
    have "sse_lines [] ((''event: '' @ n) @ CHR 0x0A # (''data: '' @ sse_data ev) @ CHR 0x0A # [CHR 0x0A]) e =
        e\<lparr>sse_name := Some n, sse_data := sse_data ev\<rparr>" for e
      using assms Some data by (subst sse_lines_line)
        (auto simp: sse_event_ok_def no_break_def sse_line_def beginsWith_def)
    then show ?thesis using Some by (simp add: event_text_def sendEvent_def parseEvent_def)
  qed
qed

lemma no_cr_event: "sse_event_ok ev \<Longrightarrow> no_cr (event_text ev)"
  by (auto simp: no_cr_def event_text_def sendEvent_def sse_event_ok_def no_break_def split: option.splits)

lemma sse_loop_events:
  "list_all sse_event_ok evs \<Longrightarrow> sse_loop True (concat (map event_text evs)) = (evs, [])"
proof (induction evs)
  case Nil
  then show ?case by (simp add: sse_loop.simps)
next
  case (Cons ev evs)
  then show ?case
    using sse_scan_event [of ev "concat (map event_text evs)"] parseEvent_text [of ev]
    by (subst sse_loop.simps) (simp add: deliver_def sse_event_ok_def)
qed

section \<open>Properties\<close>

text \<open>C29. Server-sent events arrive: the events a server sends with \<open>HTTPSSEStream::sendEvent\<close>, with non-empty data and
  without line breaks in their data and names, are delivered by \<open>HTTPSSEParser\<close> in order, with their names, whatever
  chunks the text is received in, and nothing stays in the buffer.\<close>

theorem sse_events_arrive:
  assumes "list_all sse_event_ok evs"
    and "concat chunks = concat (map (\<lambda>ev. sendEvent (sse_data ev) (sse_name ev)) evs)"
  shows "fold sse_parse chunks (onEvent (sse_new False)) = \<lparr>sp_buf = [], sp_on_event = True, sp_events = evs\<rparr>"
proof -
  let ?p = "onEvent (sse_new False)"
  have teq: "concat chunks = concat (map event_text evs)" using assms(2) by (simp add: event_text_def [abs_def])
  have "no_cr (concat chunks)"
    using assms(1) no_cr_event unfolding teq by (auto simp: no_cr_def list_all_iff)
  then have "list_all no_cr chunks" by (auto simp: no_cr_def list_all_iff)
  then have "fold sse_parse chunks ?p = sse_parse (concat chunks) ?p"
    using sse_parse_concat [of chunks ?p] by (simp add: onEvent_def sse_new_def sse_parse_def sse_loop.simps no_cr_def)
  then show ?thesis
    using sse_loop_events [OF assms(1)] unfolding teq by (simp add: sse_parse_def onEvent_def sse_new_def)
qed

theorem sse_events_arrive_witness:
  "fold sse_parse [''event: a'' @ [CHR 0x0A] @ ''da'', ''ta: x'', [CHR 0x0A], [CHR 0x0A] @ ''data: yz'' @ [CHR 0x0A, CHR 0x0A]]
      (onEvent (sse_new False)) =
    \<lparr>sp_buf = [], sp_on_event = True,
     sp_events = [\<lparr>sse_data = ''x'', sse_name = Some ''a''\<rparr>, \<lparr>sse_data = ''yz'', sse_name = None\<rparr>]\<rparr>"
  using sse_events_arrive [of "[\<lparr>sse_data = ''x'', sse_name = Some ''a''\<rparr>, \<lparr>sse_data = ''yz'', sse_name = None\<rparr>]"
      "[''event: a'' @ [CHR 0x0A] @ ''da'', ''ta: x'', [CHR 0x0A], [CHR 0x0A] @ ''data: yz'' @ [CHR 0x0A, CHR 0x0A]]"]
  by (simp add: sse_event_ok_def no_break_def sendEvent_def)

text \<open>\<open>sendEvent\<close> does not protect line breaks in the data: of data of two lines the receiver gets the
  first line only, unless the second looks like a field itself.\<close>

theorem sse_multiline_data_truncated:
  assumes "no_break a" "a \<noteq> []" "no_break b" "b \<noteq> []" "\<not> beginsWith b ''data: ''" "\<not> beginsWith b ''event: ''"
  shows "sp_events (sse_parse (sendEvent (a @ [CHR 0x0A] @ b) None) (onEvent (sse_new False))) =
    [\<lparr>sse_data = a, sse_name = None\<rparr>]"
proof -
  let ?t = "(''data: '' @ a) @ CHR 0x0A # b @ CHR 0x0A # [CHR 0x0A]"
  have teq: "sendEvent (a @ [CHR 0x0A] @ b) None = ?t" by (simp add: sendEvent_def)
  have "sse_scan 0 ?t = Some (length ?t)"
    using assms by (subst sse_scan_line; (subst sse_scan_line)?)
      (auto simp: no_break_def break_size_def sse_scan.simps)
  moreover have "parseEvent ?t = \<lparr>sse_data = a, sse_name = None\<rparr>"
    unfolding parseEvent_def using assms
    by (subst sse_lines_line; (subst sse_lines_line)?)
       (auto simp: no_break_def sse_line_def beginsWith_def sse_lines.simps break_size_def)
  ultimately have "sse_loop True ?t = ([\<lparr>sse_data = a, sse_name = None\<rparr>], [])"
    using assms(2) by (subst sse_loop.simps) (simp add: deliver_def sse_loop.simps)
  then show ?thesis unfolding teq by (simp add: sse_parse_def onEvent_def sse_new_def)
qed

theorem sse_multiline_data_truncated_witness:
  "sp_events (sse_parse (sendEvent (''ab'' @ [CHR 0x0A] @ ''cd'') None) (onEvent (sse_new False))) =
    [\<lparr>sse_data = ''ab'', sse_name = None\<rparr>]"
  using sse_multiline_data_truncated [of "''ab''" "''cd''"] by (simp add: no_break_def beginsWith_def)

end
