(* ===== verification/Stx_HTTPServer.thy ===== *)
theory Stx_HTTPServer
  imports Stx_HTTP
begin

text \<open>
  The server side of an HTTP connection: \<open>http/httpserverconnection.cc\<close>, the response stream
  (\<open>http/HTTPResponseStream.cc\<close>), the handler of a service (\<open>http/httpservice.cc\<close>) and the router
  (\<open>http/httprouter.cc\<close>), on the parser and the generator of theory \<open>Stx_HTTP\<close>.

  A connection is one record; an operation maps it to the exception it raises, if any, and the
  connection it leaves. The socket and the task scheduler are the environment: \<open>runOnReadable\<close> and
  \<open>runOnWritable\<close> set the flags \<open>sc_reading\<close> and \<open>sc_writing\<close>, the tasks given to \<open>runAsync\<close> wait in
  \<open>sc_tasks\<close>, and the environment delivers the results of \<open>read\<close> and \<open>write\<close> as events. A callback is
  the name of the function bound to it. A service is an argument, a function from the request and
  the prepared response. Statistics other than the current requests, logging and the
  \<open>onBodyWritten\<close> callback are left out; one operation runs at a time, as the mutex of the connection
  enforces.
\<close>

section \<open>State\<close>

type_synonym http_service = "http_request \<Rightarrow> http_response \<Rightarrow> http_response result"

datatype http_handler = ServiceHandler http_service | NoSuchRouteHandler http_response

datatype conn_cb = CbStream | CbFinish | CbNothing

record response_stream =
  rs_buf :: string
  rs_callback_running :: bool
  rs_headers_written :: bool
  rs_response_finished :: bool
  rs_error :: bool

definition rs_new :: response_stream where
  "rs_new = \<lparr>rs_buf = [], rs_callback_running = False, rs_headers_written = False,
             rs_response_finished = False, rs_error = False\<rparr>"

record server_conn =
  sc_parser :: http_parser
  sc_request :: http_request
  sc_handler :: "http_handler option"
  sc_body_buf :: string
  sc_body_reader :: bool
  sc_write_buf :: string
  sc_mark :: nat
  sc_on_write :: "conn_cb option"
  sc_on_error :: "conn_cb option"
  sc_closed :: bool
  sc_reading :: bool
  sc_writing :: bool
  sc_tasks :: "(string \<times> bool) list"
  sc_stream :: response_stream
  sc_sent :: string
  sc_current_requests :: int

type_synonym conn_op = "server_conn \<Rightarrow> stx_error option \<times> server_conn"

definition thenO :: "conn_op \<Rightarrow> conn_op \<Rightarrow> conn_op" where
  "thenO a b s = (case a s of (None, s') \<Rightarrow> b s' | (Some e, s') \<Rightarrow> (Some e, s'))"

lemma thenO_simps [simp]:
  "a s = (None, s') \<Longrightarrow> thenO a b s = b s'"
  "a s = (Some e, s') \<Longrightarrow> thenO a b s = (Some e, s')"
  by (simp_all add: thenO_def)

section \<open>HTTPServerConnection\<close>

definition sc_new :: server_conn where
  "sc_new =
     \<lparr>sc_parser = (hp_new PARSE_HTTP_REQUEST)\<lparr>hp_method_cb := True\<rparr>, sc_request = req_empty, sc_handler = None,
      sc_body_buf = [], sc_body_reader = False, sc_write_buf = [], sc_mark = 0, sc_on_write = None,
      sc_on_error = None, sc_closed = False, sc_reading = False, sc_writing = False, sc_tasks = [],
      sc_stream = rs_new, sc_sent = [], sc_current_requests = 0\<rparr>"

definition awaitRead :: conn_op where
  "awaitRead s = (if sc_closed s then (Some kIllegalStateError, s) else (None, s\<lparr>sc_reading := True\<rparr>))"

definition awaitWrite :: conn_op where
  "awaitWrite s = (if sc_closed s then (Some kIllegalStateError, s) else (None, s\<lparr>sc_writing := True\<rparr>))"

definition nextRequest :: conn_op where
  "nextRequest s =
     awaitRead (s\<lparr>sc_parser := hp_reset (sc_parser s), sc_request := req_empty, sc_handler := None,
                 sc_on_write := None, sc_on_error := None, sc_body_buf := [], sc_body_reader := False\<rparr>)"

definition conn_start :: "stx_error option \<times> server_conn" where
  "conn_start = nextRequest sc_new"

definition sc_close :: conn_op where
  "sc_close s =
     (if sc_closed s then (Some kIllegalStateError, s)
      else (None, s\<lparr>sc_closed := True, sc_reading := False, sc_writing := False\<rparr>))"

text \<open>Keep-alive is switched off in the code: every connection is closed after its response.\<close>

definition sc_finishResponse :: conn_op where
  "sc_finishResponse s = sc_close (s\<lparr>sc_current_requests := sc_current_requests s - 1\<rparr>)"

definition read_body_chunk :: "string \<Rightarrow> conn_op" where
  "read_body_chunk data s =
     (let buf = sc_body_buf s @ data; last_chunk = (hp_state (sc_parser s) = S_DONE)
      in if last_chunk \<or> length buf > 0
         then (None, s\<lparr>sc_tasks := sc_tasks s @ [(buf, last_chunk)], sc_body_buf := []\<rparr>)
         else (None, s\<lparr>sc_body_buf := buf\<rparr>))"

definition readRequestBody :: conn_op where
  "readRequestBody s =
     (if hp_state (sc_parser s) \<in> {S_BODY, S_DONE}
      then read_body_chunk [] (s\<lparr>sc_body_reader := True, sc_on_error := Some CbNothing\<rparr>)
      else (Some kIllegalStateError, s))"

definition sc_writeResponse :: "http_response \<Rightarrow> conn_cb \<Rightarrow> conn_cb \<Rightarrow> conn_op" where
  "sc_writeResponse res ready_callback on_error s =
     (if hp_state (sc_parser s) \<noteq> S_DONE then (Some kIllegalStateError, s)
      else case generate_response sos_write res (sc_write_buf s) of
        Some (Inr out) \<Rightarrow>
          awaitWrite (s\<lparr>sc_write_buf := out, sc_on_write := Some ready_callback, sc_on_error := Some on_error\<rparr>)
      | Some (Inl e) \<Rightarrow> (Some e, s)
      | None \<Rightarrow> (Some UndefinedBehaviour, s))"

definition sc_writeResponseBody :: "string \<Rightarrow> conn_cb \<Rightarrow> conn_cb \<Rightarrow> conn_op" where
  "sc_writeResponseBody data ready_callback on_error s =
     (if hp_state (sc_parser s) \<noteq> S_DONE then (Some kIllegalStateError, s)
      else awaitWrite (s\<lparr>sc_write_buf := sc_write_buf s @ data, sc_on_write := Some ready_callback,
                         sc_on_error := Some on_error\<rparr>))"

section \<open>HTTPResponseStream\<close>

definition kMaxWriteBufferSize :: nat where
  "kMaxWriteBufferSize = 4 * 1024 * 1024"

definition onStateChanged :: conn_op where
  "onStateChanged s =
     (let st = sc_stream s
      in if rs_callback_running st then (None, s)
         else if \<not> rs_headers_written st then (None, s)
         else if length (rs_buf st) > 0
         then sc_writeResponseBody (take kMaxWriteBufferSize (rs_buf st)) CbStream CbStream
                (s\<lparr>sc_stream := st\<lparr>rs_buf := drop kMaxWriteBufferSize (rs_buf st), rs_callback_running := True\<rparr>\<rparr>)
         else if rs_response_finished st then sc_finishResponse s
         else (None, s))"

definition startResponse :: "http_response \<Rightarrow> conn_op" where
  "startResponse resp s =
     (let st = sc_stream s
      in if rs_headers_written st then (Some kRuntimeError, s)
         else if rs_error st then (Some kIOError, s)
         else sc_writeResponse resp CbStream CbStream
                (s\<lparr>sc_stream := st\<lparr>rs_headers_written := True, rs_callback_running := True\<rparr>\<rparr>))"

definition writeBodyChunk :: "string \<Rightarrow> conn_op" where
  "writeBodyChunk data s =
     (let st = sc_stream s
      in if rs_error st then (Some kIOError, s)
         else onStateChanged (s\<lparr>sc_stream := st\<lparr>rs_buf := rs_buf st @ data\<rparr>\<rparr>))"

definition rs_finishResponse :: conn_op where
  "rs_finishResponse s =
     (let st = sc_stream s
      in if rs_response_finished st then (None, s)
         else if rs_error st then (Some kIOError, s)
         else onStateChanged (s\<lparr>sc_stream := st\<lparr>rs_response_finished := True\<rparr>\<rparr>))"

definition with_content_length :: "http_response \<Rightarrow> http_response" where
  "with_content_length res =
     (if length (hm_body res) > 0 then setHeader ''Content-Length'' (to_string (length (hm_body res))) res else res)"

definition rs_writeResponse :: "http_response \<Rightarrow> conn_op" where
  "rs_writeResponse res = thenO (startResponse (with_content_length res)) rs_finishResponse"

definition onCallbackCompleted :: conn_op where
  "onCallbackCompleted s = onStateChanged (s\<lparr>sc_stream := (sc_stream s)\<lparr>rs_callback_running := False\<rparr>\<rparr>)"

definition onCallbackError :: conn_op where
  "onCallbackError s = (None, s\<lparr>sc_stream := (sc_stream s)\<lparr>rs_callback_running := False, rs_error := True\<rparr>\<rparr>)"

definition run_ready_cb :: "conn_cb option \<Rightarrow> conn_op" where
  "run_ready_cb cb s =
     (case cb of
        Some CbStream \<Rightarrow> onCallbackCompleted s
      | Some CbFinish \<Rightarrow> sc_finishResponse s
      | _ \<Rightarrow> (None, s))"

definition run_error_cb :: conn_op where
  "run_error_cb s = (case sc_on_error s of Some CbStream \<Rightarrow> onCallbackError s | _ \<Rightarrow> (None, s))"

section \<open>HTTPService and HTTPRouter\<close>

type_synonym routes = "((http_request \<Rightarrow> bool) \<times> http_service) list"

definition addRoute :: "(http_request \<Rightarrow> bool) \<Rightarrow> http_service \<Rightarrow> routes \<Rightarrow> routes" where
  "addRoute predicate service rs = rs @ [(predicate, service)]"

definition getHandler :: "routes \<Rightarrow> http_request \<Rightarrow> http_handler" where
  "getHandler rs req =
     (case find (\<lambda>route. fst route req) rs of
        Some route \<Rightarrow> ServiceHandler (snd route)
      | None \<Rightarrow> NoSuchRouteHandler (populateFromRequest req res_new))"

definition not_found :: "http_response \<Rightarrow> http_response" where
  "not_found res = addBody ''Not Found'' (setStatus 404 ''Not found'' res)"

definition server_error :: "http_request \<Rightarrow> http_response" where
  "server_error req =
     addBody ''server error'' (setStatus 500 ''Internal Server Error'' (populateFromRequest req res_new))"

text \<open>
  \<open>HTTPService::handleHTTPRequest\<close> under the exception handler of \<open>HTTPServiceHandler::dispatchRequest\<close>: an
  exception before the headers are written is answered with an error response. The service is called at once, as for a
  route without a scheduler of its own, and leaves the request as it is.
\<close>

definition service_call :: "http_service \<Rightarrow> conn_op" where
  "service_call svc s =
     (case svc (sc_request s) (populateFromRequest (sc_request s) res_new) of
        Inl e \<Rightarrow> (Some e, s)
      | Inr res \<Rightarrow> rs_writeResponse (with_content_length res) s)"

definition service_dispatch :: "http_service \<Rightarrow> conn_op" where
  "service_dispatch svc s =
     (case service_call svc (s\<lparr>sc_stream := rs_new\<rparr>) of
        (None, s') \<Rightarrow> (None, s')
      | (Some e, s') \<Rightarrow>
          (None, snd (if rs_headers_written (sc_stream s') then rs_finishResponse s'
                      else rs_writeResponse (server_error (sc_request s')) s')))"

definition run_task :: "string \<times> bool \<Rightarrow> conn_op" where
  "run_task t s =
     (case sc_handler s of
        None \<Rightarrow> (None, s)
      | Some (ServiceHandler svc) \<Rightarrow>
          (let s = s\<lparr>sc_request := appendBody (fst t) (sc_request s)\<rparr>
           in if snd t then service_dispatch svc s else (None, s))
      | Some (NoSuchRouteHandler res) \<Rightarrow>
          (if snd t then sc_writeResponse (not_found res) CbFinish CbNothing s else (None, s)))"

section \<open>Events\<close>

definition dispatchRequest :: "routes \<Rightarrow> conn_op" where
  "dispatchRequest rs s =
     readRequestBody (s\<lparr>sc_current_requests := sc_current_requests s + 1,
                        sc_handler := Some (getHandler rs (sc_request s))\<rparr>)"

fun on_event :: "routes \<Rightarrow> http_event \<Rightarrow> conn_op" where
  "on_event rs OnHeadersComplete s = dispatchRequest rs s"
| "on_event rs (OnBodyChunk data) s =
     (if sc_body_reader s then read_body_chunk data s
      else (None, s\<lparr>sc_body_buf := sc_body_buf s @ data\<rparr>))"
| "on_event rs e s = (None, s\<lparr>sc_request := req_event e (sc_request s)\<rparr>)"

fun on_events :: "routes \<Rightarrow> http_event list \<Rightarrow> conn_op" where
  "on_events rs [] s = (None, s)"
| "on_events rs (e # es) s = thenO (on_event rs e) (on_events rs es) s"

text \<open>\<open>parser_.parse\<close> with the callbacks of the connection, which run as the parser emits its events.\<close>

function feed :: "routes \<Rightarrow> string \<Rightarrow> conn_op" where
  "feed rs data s =
     (if data = [] then (None, s)
      else case hp_step data (sc_parser s) of
        Inl e \<Rightarrow> (Some e, s)
      | Inr (r, p) \<Rightarrow>
          (case on_events rs (drop (length (hp_events (sc_parser s))) (hp_events p)) (s\<lparr>sc_parser := p\<rparr>) of
             (Some e, s') \<Rightarrow> (Some e, s')
           | (None, s') \<Rightarrow> feed rs r s'))"
  by pat_completeness auto
termination
  by (relation "measure (\<lambda>(rs, data, s). length data)") (auto intro: hp_step_shrinks)

declare feed.simps [simp del]

datatype read_result = RData string | RWouldBlock | RFailed

datatype write_result = WBytes nat | WWouldBlock | WFailed

definition fail_close :: conn_op where
  "fail_close = thenO run_error_cb sc_close"

definition sc_read :: "routes \<Rightarrow> read_result \<Rightarrow> conn_op" where
  "sc_read rs r s =
     (let s = s\<lparr>sc_reading := False\<rparr>
      in case r of
           RWouldBlock \<Rightarrow> awaitRead s
         | RFailed \<Rightarrow> fail_close s
         | RData data \<Rightarrow>
             (if data = []
              then (case hp_eof (sc_parser s) of
                      Inl e \<Rightarrow> fail_close s
                    | Inr p \<Rightarrow> fail_close (s\<lparr>sc_parser := p\<rparr>))
              else case feed rs data s of
                     (Some e, s') \<Rightarrow> fail_close s'
                   | (None, s') \<Rightarrow>
                       (if hp_state (sc_parser s') \<noteq> S_DONE then awaitRead s' else (None, s'))))"

definition sc_write :: "write_result \<Rightarrow> conn_op" where
  "sc_write r s =
     (let s = s\<lparr>sc_writing := False\<rparr>
      in case r of
           WWouldBlock \<Rightarrow> awaitWrite s
         | WFailed \<Rightarrow> fail_close s
         | WBytes n \<Rightarrow>
             (let s = s\<lparr>sc_sent := sc_sent s @ take n (drop (sc_mark s) (sc_write_buf s)), sc_mark := sc_mark s + n\<rparr>
              in if sc_mark s < length (sc_write_buf s) then awaitWrite s
                 else run_ready_cb (sc_on_write s) (s\<lparr>sc_write_buf := [], sc_mark := 0\<rparr>)))"

datatype server_event = EvRead read_result | EvWrite write_result | EvTask

text \<open>
  What the scheduler may run next: a read or a write the connection waits for, or the oldest of its tasks. Tasks run in
  the order they were queued, as on a scheduler with one thread; with several threads they may overtake each other.
\<close>

fun server_exec :: "routes \<Rightarrow> server_event \<Rightarrow> server_conn \<Rightarrow> server_conn option" where
  "server_exec rs (EvRead r) s = (if sc_reading s then Some (snd (sc_read rs r s)) else None)"
| "server_exec rs (EvWrite r) s =
     (if sc_writing s \<and> (case r of WBytes n \<Rightarrow> n \<le> length (sc_write_buf s) - sc_mark s | _ \<Rightarrow> True)
      then Some (snd (sc_write r s)) else None)"
| "server_exec rs EvTask s =
     (case sc_tasks s of [] \<Rightarrow> None | t # ts \<Rightarrow> Some (snd (run_task t (s\<lparr>sc_tasks := ts\<rparr>))))"

fun server_run :: "routes \<Rightarrow> server_event list \<Rightarrow> server_conn \<Rightarrow> server_conn option" where
  "server_run rs [] s = Some s"
| "server_run rs (ev # evs) s = Option.bind (server_exec rs ev s) (server_run rs evs)"

section \<open>What the server answers\<close>

text \<open>The reference: the whole request decides the response; the route is chosen before its body is read.\<close>

definition answer :: "routes \<Rightarrow> http_request \<Rightarrow> http_response" where
  "answer rs req =
     (case getHandler rs (clearBody req) of
        NoSuchRouteHandler res \<Rightarrow> not_found res
      | ServiceHandler svc \<Rightarrow>
          (case svc req (populateFromRequest req res_new) of
             Inr res \<Rightarrow> with_content_length (with_content_length res)
           | Inl e \<Rightarrow> with_content_length (server_error req)))"

definition request_of :: "http_parser \<Rightarrow> http_request" where
  "request_of p = fold req_event (hp_events p) req_empty"

definition server_parser :: http_parser where
  "server_parser = (hp_new PARSE_HTTP_REQUEST)\<lparr>hp_method_cb := True\<rparr>"

fun meta_event :: "http_event \<Rightarrow> bool" where
  "meta_event OnHeadersComplete = False"
| "meta_event (OnBodyChunk b) = False"
| "meta_event e = True"

abbreviation head_states :: "kParserState set" where
  "head_states \<equiv> {S_REQ_METHOD, S_REQ_URI, S_REQ_VERSION, S_HEADER}"

subsection \<open>One step of the parser\<close>

lemma hp_step_head:
  assumes "hp_step a p = Inr (r, p')" "hp_mode p = PARSE_HTTP_REQUEST" "hp_state p \<in> head_states"
  shows "(hp_state p' \<in> head_states \<and> (\<exists>es. hp_events p' = hp_events p @ es \<and> list_all meta_event es)) \<or>
    (hp_state p' \<in> {S_BODY, S_DONE} \<and> hp_events p' = hp_events p @ [OnHeadersComplete])"
  using assms
  by (auto simp: hp_step_def hp_handler_defs Let_def bindE_eq_Inr check_size_def emit_def
      readUntil_def processHeader_def split: if_splits option.splits sum.splits)

lemma hp_step_in_body:
  assumes "hp_step a p = Inr (r, p')" "hp_mode p = PARSE_HTTP_REQUEST" "hp_state p = S_BODY"
  shows "r = [] \<and> hp_state p' \<in> {S_BODY, S_DONE} \<and> hp_events p' = hp_events p @ [OnBodyChunk a]"
  using assms by (auto simp: hp_step_def readBody_def Let_def emit_def split: if_splits)

lemma req_event_meta_body: "meta_event e \<Longrightarrow> hm_body (req_event e r) = hm_body r"
  by (cases e) (auto simp: addHeader_def)

lemma fold_meta_body: "list_all meta_event es \<Longrightarrow> hm_body (fold req_event es r) = hm_body r"
  by (induction es arbitrary: r) (auto simp: req_event_meta_body)

lemma on_events_meta:
  "list_all meta_event es \<Longrightarrow>
   on_events rs es s = (None, s\<lparr>sc_request := fold req_event es (sc_request s)\<rparr>)"
proof (induction es arbitrary: s)
  case (Cons e es)
  then have "on_event rs e s = (None, s\<lparr>sc_request := req_event e (sc_request s)\<rparr>)"
    by (cases e) auto
  with Cons show ?case by simp
qed simp

subsection \<open>The phases of a connection\<close>

fun body_held :: "http_handler \<Rightarrow> http_request \<Rightarrow> http_request \<Rightarrow> (string \<times> bool) list \<Rightarrow> bool" where
  "body_held (NoSuchRouteHandler res) whole req ts = True"
| "body_held (ServiceHandler svc) whole req ts \<longleftrightarrow>
     (\<exists>b. req = whole\<lparr>hm_body := b\<rparr> \<and> b @ concat (map fst ts) = hm_body whole)"

definition tasks_ok :: "bool \<Rightarrow> (string \<times> bool) list \<Rightarrow> bool" where
  "tasks_ok complete ts =
     (if complete then \<exists>ts' b. ts = ts' @ [(b, True)] \<and> list_all (\<lambda>t. \<not> snd t) ts'
      else list_all (\<lambda>t. \<not> snd t) ts)"

definition reply :: "routes \<Rightarrow> http_parser \<Rightarrow> string comp" where
  "reply rs p = generate_response sos_write (answer rs (request_of p)) []"

definition final_cb :: "http_handler \<Rightarrow> conn_cb \<times> conn_cb" where
  "final_cb h = (case h of ServiceHandler svc \<Rightarrow> (CbStream, CbStream) | _ \<Rightarrow> (CbFinish, CbNothing))"

definition finished_stream :: "http_handler \<Rightarrow> response_stream \<Rightarrow> bool" where
  "finished_stream h st =
     (case h of
        ServiceHandler svc \<Rightarrow>
          st = rs_new\<lparr>rs_headers_written := True, rs_callback_running := True, rs_response_finished := True\<rparr>
      | _ \<Rightarrow> True)"

inductive server_phase :: "routes \<Rightarrow> server_conn \<Rightarrow> bool" for rs where
  Head: "server_phase rs (sc_new\<lparr>sc_parser := p, sc_request := request_of p, sc_reading := rd\<rparr>)"
    if "hp_mode p = PARSE_HTTP_REQUEST" "hp_state p \<in> head_states" "hm_body (request_of p) = []"
| Body: "server_phase rs (sc_new\<lparr>sc_parser := p, sc_request := req, sc_handler := Some h,
      sc_body_reader := True, sc_on_error := Some CbNothing, sc_tasks := ts, sc_current_requests := 1,
      sc_reading := rd\<rparr>)"
    if "hp_mode p = PARSE_HTTP_REQUEST" "hp_state p \<in> {S_BODY, S_DONE}"
      "h = getHandler rs (clearBody (request_of p))" "body_held h (request_of p) req ts"
      "tasks_ok (hp_state p = S_DONE) ts"
| Writing: "server_phase rs (sc_new\<lparr>sc_parser := p, sc_request := req, sc_handler := Some h,
      sc_body_reader := True, sc_write_buf := out, sc_mark := m, sc_on_write := Some (fst (final_cb h)),
      sc_on_error := Some (snd (final_cb h)), sc_writing := True, sc_stream := st, sc_sent := take m out,
      sc_current_requests := 1, sc_reading := rd\<rparr>)"
    if "hp_mode p = PARSE_HTTP_REQUEST" "hp_state p = S_DONE" "reply rs p = ret out" "m < length out"
      "finished_stream h st"
| Closed: "server_phase rs (sc_new\<lparr>sc_parser := p, sc_request := req, sc_handler := Some h,
      sc_body_reader := True, sc_on_write := Some (fst (final_cb h)), sc_on_error := Some (snd (final_cb h)),
      sc_stream := st, sc_sent := out, sc_closed := True\<rparr>)"
    if "hp_mode p = PARSE_HTTP_REQUEST" "hp_state p = S_DONE" "reply rs p = ret out"
| Stuck: "server_phase rs (sc_new\<lparr>sc_parser := p, sc_request := req, sc_handler := Some h,
      sc_body_reader := True, sc_on_error := Some CbNothing, sc_stream := st,
      sc_current_requests := 1, sc_reading := rd\<rparr>)"
    if "hp_mode p = PARSE_HTTP_REQUEST" "hp_state p = S_DONE" "\<nexists>out. reply rs p = ret out"

definition server_inv :: "routes \<Rightarrow> server_conn \<Rightarrow> bool" where
  "server_inv rs s \<longleftrightarrow> server_phase rs s \<and> sc_reading s = (hp_state (sc_parser s) \<noteq> S_DONE)"


subsection \<open>The phases are kept\<close>

lemma hm_body_upd_idem [simp]: "hm_body r = b \<Longrightarrow> r\<lparr>hm_body := b\<rparr> = r"
  by auto

lemma clearBody_id: "hm_body r = [] \<Longrightarrow> clearBody r = r"
  by (simp add: clearBody_def)

lemma request_of_emit [simp]:
  "hp_events p' = hp_events p @ es \<Longrightarrow> request_of p' = fold req_event es (request_of p)"
  by (simp add: request_of_def)

lemma phase_dispatch:
  assumes "hp_step a p = Inr (r, p')" "hp_mode p = PARSE_HTTP_REQUEST" "hp_state p' \<in> {S_BODY, S_DONE}"
    "hp_events p' = hp_events p @ [OnHeadersComplete]" "hm_body (request_of p) = []"
  shows "\<exists>s'. on_events rs [OnHeadersComplete] (sc_new\<lparr>sc_parser := p', sc_request := request_of p, sc_reading := rd\<rparr>)
      = (None, s') \<and> server_phase rs s' \<and> sc_parser s' = p' \<and> sc_reading s' = rd"
proof -
  define ts where "ts = (if hp_state p' = S_DONE then [([] :: string, True)] else [])"
  let ?s = "sc_new\<lparr>sc_parser := p', sc_request := request_of p', sc_handler := Some (getHandler rs (clearBody (request_of p'))),
      sc_body_reader := True, sc_on_error := Some CbNothing, sc_tasks := ts, sc_current_requests := 1, sc_reading := rd\<rparr>"
  have r: "request_of p' = request_of p" using assms(4) by simp
  have "on_events rs [OnHeadersComplete] (sc_new\<lparr>sc_parser := p', sc_request := request_of p, sc_reading := rd\<rparr>) = (None, ?s)"
    using assms(3,5) r
    by (auto simp: thenO_def dispatchRequest_def readRequestBody_def read_body_chunk_def Let_def ts_def sc_new_def clearBody_id)
  moreover have "body_held (getHandler rs (clearBody (request_of p'))) (request_of p') (request_of p') ts"
    using assms(5) r by (cases "getHandler rs (clearBody (request_of p'))") (auto simp: ts_def)
  then have "server_phase rs ?s"
    using assms(3) hp_step_mode [OF assms(1)] assms(2) by (intro Body) (auto simp: ts_def tasks_ok_def)
  ultimately show ?thesis by auto
qed

lemma body_held_chunk:
  assumes "body_held h whole req ts"
  shows "body_held h (appendBody c whole) req (ts @ [(c, b)])"
  using assms by (cases h) (auto simp: appendBody_def)

lemma tasks_ok_chunk: "tasks_ok False ts \<Longrightarrow> tasks_ok b (ts @ [(c, b)])"
  by (auto simp: tasks_ok_def)

lemma phase_step:
  assumes "server_phase rs s" "hp_step data (sc_parser s) = Inr (r, p')" "data \<noteq> []"
  shows "\<exists>s'. on_events rs (drop (length (hp_events (sc_parser s))) (hp_events p')) (s\<lparr>sc_parser := p'\<rparr>) = (None, s') \<and>
    server_phase rs s' \<and> sc_parser s' = p' \<and> sc_reading s' = sc_reading s"
  using assms(1)
proof cases
  case (Head p rd)
  then have st: "hp_step data p = Inr (r, p')" using assms(2) by simp
  from hp_step_head [OF st Head(2,3)] show ?thesis
  proof
    assume "hp_state p' \<in> head_states \<and> (\<exists>es. hp_events p' = hp_events p @ es \<and> list_all meta_event es)"
    then obtain es where es: "hp_state p' \<in> head_states" "hp_events p' = hp_events p @ es" "list_all meta_event es"
      by blast
    have "server_phase rs (sc_new\<lparr>sc_parser := p', sc_request := request_of p', sc_reading := rd\<rparr>)"
      using Head es hp_step_mode [OF st] by (intro server_phase.Head) (auto simp: fold_meta_body)
    then show ?thesis using Head(1) es by (simp add: on_events_meta sc_new_def)
  next
    assume "hp_state p' \<in> {S_BODY, S_DONE} \<and> hp_events p' = hp_events p @ [OnHeadersComplete]"
    with phase_dispatch [OF st Head(2) _ _ Head(4), of rs rd] show ?thesis using Head(1)
      by (simp add: sc_new_def del: on_events.simps)
  qed
next
  case (Body p h req ts rd)
  then have st: "hp_step data p = Inr (r, p')" using assms(2) by simp
  then have b: "hp_state p = S_BODY" using Body(2,3) by (auto simp: hp_step_done)
  note e = hp_step_in_body [OF st Body(2) b]
  let ?ts = "ts @ [(data, hp_state p' = S_DONE)]"
  have r': "request_of p' = appendBody data (request_of p)" using e by simp
  have h: "h = getHandler rs (clearBody (request_of p'))" using Body(4) r' by (simp add: clearBody_def appendBody_def)
  have "server_phase rs (s\<lparr>sc_parser := p', sc_tasks := ?ts\<rparr>)"
    using server_phase.Body [of p' h rs req ?ts rd] hp_step_mode [OF st] Body(1,2,6) e h b
      body_held_chunk [OF Body(5), of data "hp_state p' = S_DONE"] r' tasks_ok_chunk
    by (simp add: sc_new_def)
  moreover have "on_events rs [OnBodyChunk data] (s\<lparr>sc_parser := p'\<rparr>) = (None, s\<lparr>sc_parser := p', sc_tasks := ?ts\<rparr>)"
    using assms(3) Body(1) by (simp add: thenO_def read_body_chunk_def Let_def sc_new_def)
  ultimately show ?thesis using Body(1) e by simp
qed (use assms(2) in \<open>simp_all add: hp_step_done\<close>)


lemma phase_feed:
  assumes "server_phase rs s" "hp_parse data (sc_parser s) = Inr p'"
  shows "\<exists>s'. feed rs data s = (None, s') \<and> server_phase rs s' \<and> sc_parser s' = p' \<and> sc_reading s' = sc_reading s"
  using assms
proof (induction rs data s rule: feed.induct)
  case (1 rs data s)
  show ?case
  proof (cases "data = []")
    case True
    then show ?thesis using "1.prems" by (simp add: feed.simps)
  next
    case False
    obtain r p1 where st: "hp_step data (sc_parser s) = Inr (r, p1)" and rest: "hp_parse r p1 = Inr p'"
      using "1.prems"(2) False by (subst (asm) hp_parse.simps) (auto split: sum.splits)
    from phase_step [OF "1.prems"(1) st False] obtain s1 where
      s1: "on_events rs (drop (length (hp_events (sc_parser s))) (hp_events p1)) (s\<lparr>sc_parser := p1\<rparr>) = (None, s1)"
      "server_phase rs s1" "sc_parser s1 = p1" "sc_reading s1 = sc_reading s" by blast
    have "feed rs data s = feed rs r s1" using False st s1(1) by (simp add: feed.simps [of rs data s])
    with "1.IH" [OF False st refl s1(1) [symmetric] refl] s1 rest show ?thesis by simp
  qed
qed

lemma phase_open: "server_phase rs s \<Longrightarrow> hp_state (sc_parser s) \<noteq> S_DONE \<Longrightarrow> \<not> sc_closed s"
  by (erule server_phase.cases) (simp_all add: sc_new_def)

lemma phase_reading: "server_phase rs s \<Longrightarrow> \<not> sc_closed s \<Longrightarrow> server_phase rs (s\<lparr>sc_reading := rd\<rparr>)"
  by (erule server_phase.cases) (auto simp: sc_new_def intro: server_phase.intros [unfolded sc_new_def, simplified])

lemma inv_read:
  assumes "server_inv rs s" "hp_parse data (sc_parser s) = Inr p'" "data \<noteq> []" "sc_reading s"
  shows "server_inv rs (snd (sc_read rs (RData data) s)) \<and> sc_parser (snd (sc_read rs (RData data) s)) = p'"
proof -
  have st: "hp_state (sc_parser s) \<noteq> S_DONE" "server_phase rs s" using assms(1,4) by (auto simp: server_inv_def)
  then have "server_phase rs (s\<lparr>sc_reading := False\<rparr>)" by (intro phase_reading phase_open)
  from phase_feed [OF this, of data p'] obtain s' where
    s': "feed rs data (s\<lparr>sc_reading := False\<rparr>) = (None, s')" "server_phase rs s'" "sc_parser s' = p'" "\<not> sc_reading s'"
    using assms(2) by auto
  show ?thesis
  proof (cases "hp_state p' = S_DONE")
    case True
    then show ?thesis using s' assms(3) by (simp add: sc_read_def server_inv_def)
  next
    case False
    then have "\<not> sc_closed s'" using phase_open s' by simp
    then show ?thesis using False s' assms(3) phase_reading [OF s'(2)] 
      by (simp add: sc_read_def server_inv_def awaitRead_def)
  qed
qed

subsection \<open>Tasks\<close>

lemma reply_fresh:
  assumes "reply rs p = ret out"
  shows "out \<noteq> []"
  using assms by (auto simp: reply_def generate_response_def os_write_string_def sos_write_def bindC_eq_ret split: if_splits)

lemma tasks_ok_Cons: "tasks_ok d ((b, False) # ts) = tasks_ok d ts"
  by (auto simp: tasks_ok_def Cons_eq_append_conv)

lemma tasks_ok_last: "tasks_ok d ((b, True) # ts) \<longleftrightarrow> d \<and> ts = []"
  by (auto simp: tasks_ok_def Cons_eq_append_conv)


lemma rs_writeResponse_ok:
  assumes "hp_state (sc_parser s) = S_DONE" "\<not> sc_closed s" "sc_stream s = rs_new"
    "generate_response sos_write (with_content_length res) (sc_write_buf s) = ret out"
  shows "rs_writeResponse res s = (None, s\<lparr>sc_stream := rs_new\<lparr>rs_headers_written := True,
      rs_callback_running := True, rs_response_finished := True\<rparr>, sc_write_buf := out,
      sc_on_write := Some CbStream, sc_on_error := Some CbStream, sc_writing := True\<rparr>)"
  using assms
  by (simp add: rs_writeResponse_def thenO_def startResponse_def rs_new_def sc_writeResponse_def awaitWrite_def
      rs_finishResponse_def onStateChanged_def)

lemma rs_writeResponse_fails:
  assumes "hp_state (sc_parser s) = S_DONE" "sc_stream s = rs_new"
    "\<nexists>out. generate_response sos_write (with_content_length res) (sc_write_buf s) = ret out"
  shows "\<exists>e. rs_writeResponse res s = (Some e, s\<lparr>sc_stream := rs_new\<lparr>rs_headers_written := True,
      rs_callback_running := True\<rparr>\<rparr>)"
  using assms
  by (auto simp: rs_writeResponse_def thenO_def startResponse_def rs_new_def sc_writeResponse_def
      split: option.splits sum.splits)

definition service_answer :: "http_service \<Rightarrow> http_request \<Rightarrow> http_response" where
  "service_answer svc req =
     (case svc req (populateFromRequest req res_new) of
        Inr res \<Rightarrow> with_content_length res | Inl e \<Rightarrow> server_error req)"

lemma service_dispatch_ok:
  assumes "hp_state (sc_parser s) = S_DONE" "\<not> sc_closed s"
    "generate_response sos_write (with_content_length (service_answer svc (sc_request s))) (sc_write_buf s) = ret out"
  shows "service_dispatch svc s = (None, s\<lparr>sc_stream := rs_new\<lparr>rs_headers_written := True,
      rs_callback_running := True, rs_response_finished := True\<rparr>, sc_write_buf := out,
      sc_on_write := Some CbStream, sc_on_error := Some CbStream, sc_writing := True\<rparr>)"
  using assms rs_writeResponse_ok [of "s\<lparr>sc_stream := rs_new\<rparr>" "service_answer svc (sc_request s)" out]
  by (cases "svc (sc_request s) (populateFromRequest (sc_request s) res_new)")
     (auto simp: service_dispatch_def service_call_def service_answer_def rs_new_def)

lemma service_dispatch_stuck:
  assumes "hp_state (sc_parser s) = S_DONE"
    "\<nexists>out. generate_response sos_write (with_content_length (service_answer svc (sc_request s))) (sc_write_buf s) = ret out"
  shows "\<exists>st. service_dispatch svc s = (None, s\<lparr>sc_stream := st\<rparr>)"
proof -
  obtain e where "rs_writeResponse (service_answer svc (sc_request s)) (s\<lparr>sc_stream := rs_new\<rparr>) =
      (Some e, s\<lparr>sc_stream := rs_new\<lparr>rs_headers_written := True, rs_callback_running := True\<rparr>\<rparr>)"
    using rs_writeResponse_fails [of "s\<lparr>sc_stream := rs_new\<rparr>" "service_answer svc (sc_request s)"] assms by auto
  then show ?thesis
    by (cases "svc (sc_request s) (populateFromRequest (sc_request s) res_new)")
       (auto simp: service_dispatch_def service_call_def service_answer_def rs_new_def rs_finishResponse_def
         onStateChanged_def)
qed

lemma not_found_stuck:
  assumes "hp_state (sc_parser s) = S_DONE" "\<nexists>out. generate_response sos_write res (sc_write_buf s) = ret out"
  shows "\<exists>e. sc_writeResponse res cb ecb s = (Some e, s)"
  using assms by (auto simp: sc_writeResponse_def split: option.splits sum.splits)

lemma answer_service:
  "getHandler rs (clearBody req) = ServiceHandler svc \<Longrightarrow> answer rs req = with_content_length (service_answer svc req)"
  by (simp add: answer_def service_answer_def split: sum.splits)

lemma answer_not_found:
  "getHandler rs (clearBody req) = NoSuchRouteHandler res \<Longrightarrow> answer rs req = not_found res"
  by (simp add: answer_def)

text \<open>The last task of a request starts the response, or, when it cannot be generated, ends in silence.\<close>

lemma phase_last_service:
  assumes "hp_mode p = PARSE_HTTP_REQUEST" "hp_state p = S_DONE" "h = getHandler rs (clearBody (request_of p))"
    "appendBody b req = request_of p" "h = ServiceHandler svc"
    "s = sc_new\<lparr>sc_parser := p, sc_request := req, sc_handler := Some h, sc_body_reader := True,
      sc_on_error := Some CbNothing, sc_current_requests := 1, sc_reading := rd\<rparr>"
  shows "server_phase rs (snd (run_task (b, True) s)) \<and> sc_parser (snd (run_task (b, True) s)) = p \<and>
    sc_reading (snd (run_task (b, True) s)) = rd"
proof -
  let ?t = "s\<lparr>sc_request := request_of p\<rparr>"
  have t: "run_task (b, True) s = service_dispatch svc ?t"
    using assms(4-6) by (simp add: run_task_def sc_new_def)
  have a: "answer rs (request_of p) = with_content_length (service_answer svc (request_of p))"
    using answer_service assms(3,5) by metis
  show ?thesis
  proof (cases "\<exists>out. reply rs p = ret out")
    case True
    then obtain out where out: "reply rs p = ret out" by blast
    then have "service_dispatch svc ?t = (None, ?t\<lparr>sc_stream := rs_new\<lparr>rs_headers_written := True,
      rs_callback_running := True, rs_response_finished := True\<rparr>, sc_write_buf := out,
      sc_on_write := Some CbStream, sc_on_error := Some CbStream, sc_writing := True\<rparr>)"
      using assms(2,6) a by (intro service_dispatch_ok) (simp_all add: reply_def sc_new_def)
    then show ?thesis
      using t server_phase.Writing [OF assms(1,2) out, where m = 0 and h = h and req = "request_of p" and rd = rd]
        reply_fresh [OF out] assms(5,6)
      by (simp add: sc_new_def finished_stream_def final_cb_def)
  next
    case False
    then obtain st where "service_dispatch svc ?t = (None, ?t\<lparr>sc_stream := st\<rparr>)"
      using service_dispatch_stuck [of ?t svc] assms(2,6) a by (auto simp: reply_def sc_new_def)
    then show ?thesis
      using t server_phase.Stuck [OF assms(1,2) False, where h = h and req = "request_of p" and rd = rd and st = st] assms(6)
      by (simp add: sc_new_def)
  qed
qed

lemma phase_last_not_found:
  assumes "hp_mode p = PARSE_HTTP_REQUEST" "hp_state p = S_DONE" "h = getHandler rs (clearBody (request_of p))"
    "h = NoSuchRouteHandler res"
    "s = sc_new\<lparr>sc_parser := p, sc_request := req, sc_handler := Some h, sc_body_reader := True,
      sc_on_error := Some CbNothing, sc_current_requests := 1, sc_reading := rd\<rparr>"
  shows "server_phase rs (snd (run_task (b, True) s)) \<and> sc_parser (snd (run_task (b, True) s)) = p \<and>
    sc_reading (snd (run_task (b, True) s)) = rd"
proof -
  have a: "answer rs (request_of p) = not_found res"
    using answer_not_found assms(3,4) by metis
  have t: "run_task (b, True) s = sc_writeResponse (not_found res) CbFinish CbNothing s"
    using assms(4,5) by (simp add: run_task_def sc_new_def)
  show ?thesis
  proof (cases "\<exists>out. reply rs p = ret out")
    case True
    then obtain out where out: "reply rs p = ret out" by blast
    then show ?thesis
      using t server_phase.Writing [OF assms(1,2) out, where m = 0 and h = h and st = rs_new and req = req and rd = rd]
        reply_fresh [OF out] assms(2,4,5) a
      by (simp add: sc_writeResponse_def awaitWrite_def sc_new_def finished_stream_def final_cb_def reply_def)
  next
    case False
    then obtain e where "sc_writeResponse (not_found res) CbFinish CbNothing s = (Some e, s)"
      using not_found_stuck [of s "not_found res" CbFinish CbNothing] assms(2,5) a by (auto simp: reply_def sc_new_def)
    then show ?thesis
      using t server_phase.Stuck [OF assms(1,2) False, where h = h and st = rs_new and req = req and rd = rd] assms(5)
      by (simp add: sc_new_def)
  qed
qed

text \<open>A step of the environment that is not a failure, and the bytes it delivers.\<close>

fun smooth :: "server_event \<Rightarrow> bool" where
  "smooth (EvRead r) \<longleftrightarrow> (case r of RData d \<Rightarrow> d \<noteq> [] | RWouldBlock \<Rightarrow> True | RFailed \<Rightarrow> False)"
| "smooth (EvWrite r) \<longleftrightarrow> r \<noteq> WFailed"
| "smooth EvTask = True"

fun delivered :: "server_event \<Rightarrow> string list" where
  "delivered (EvRead (RData d)) = [d]"
| "delivered ev = []"

definition received :: "server_event list \<Rightarrow> string list" where
  "received evs = concat (map delivered evs)"

lemma phase_task:
  assumes "hp_mode p = PARSE_HTTP_REQUEST" "hp_state p \<in> {S_BODY, S_DONE}"
    "h = getHandler rs (clearBody (request_of p))" "body_held h (request_of p) req ((b, l) # ts)"
    "tasks_ok (hp_state p = S_DONE) ((b, l) # ts)"
    "s = sc_new\<lparr>sc_parser := p, sc_request := req, sc_handler := Some h, sc_body_reader := True,
      sc_on_error := Some CbNothing, sc_tasks := ts, sc_current_requests := 1, sc_reading := rd\<rparr>"
  shows "server_phase rs (snd (run_task (b, l) s)) \<and> sc_parser (snd (run_task (b, l) s)) = p \<and>
    sc_reading (snd (run_task (b, l) s)) = rd"
proof (cases l)
  case True
  then have d: "hp_state p = S_DONE" "ts = []" using assms(5) tasks_ok_last by simp_all
  show ?thesis
  proof (cases h)
    case (ServiceHandler svc)
    then have "appendBody b req = request_of p" using assms(4) d(2) by (auto simp: appendBody_def)
    then show ?thesis
      using phase_last_service [OF assms(1) d(1) assms(3) _ ServiceHandler, where b = b and req = req and s = s and rd = rd]
        assms(6) d(2) True
      by (simp add: sc_new_def)
  next
    case (NoSuchRouteHandler res)
    then show ?thesis
      using phase_last_not_found [OF assms(1) d(1) assms(3), where res = res and s = s and req = req and rd = rd and b = b]
        assms(6) d(2) True
      by (simp add: sc_new_def)
  qed
next
  case False
  define req' where "req' = (case h of ServiceHandler svc \<Rightarrow> appendBody b req | _ \<Rightarrow> req)"
  have "run_task (b, l) s = (None, s\<lparr>sc_request := req'\<rparr>)"
    using False assms(6) by (simp add: run_task_def req'_def sc_new_def split: http_handler.splits)
  moreover have "body_held h (request_of p) req' ts"
    using assms(4) by (cases h) (auto simp: req'_def appendBody_def)
  then have "server_phase rs (s\<lparr>sc_request := req'\<rparr>)"
    using server_phase.Body [OF assms(1-3), of req' ts rd] assms(5,6) False tasks_ok_Cons by (simp add: sc_new_def)
  ultimately show ?thesis using assms(6) by (simp add: sc_new_def)
qed

lemma inv_task:
  assumes "server_inv rs s" "server_exec rs EvTask s = Some s'"
  shows "server_inv rs s' \<and> sc_parser s' = sc_parser s"
proof -
  obtain b l ts where ts: "sc_tasks s = (b, l) # ts" "s' = snd (run_task (b, l) (s\<lparr>sc_tasks := ts\<rparr>))"
    using assms(2) by (auto split: list.splits)
  have inv: "server_phase rs s" "sc_reading s = (hp_state (sc_parser s) \<noteq> S_DONE)"
    using assms(1) by (simp_all add: server_inv_def)
  from inv(1) show ?thesis
  proof cases
    case (Body p h req ts' rd)
    then have ts': "ts' = (b, l) # ts" using ts(1) by (simp add: sc_new_def)
    have s: "s\<lparr>sc_tasks := ts\<rparr> = sc_new\<lparr>sc_parser := p, sc_request := req, sc_handler := Some h,
        sc_body_reader := True, sc_on_error := Some CbNothing, sc_tasks := ts, sc_current_requests := 1,
        sc_reading := rd\<rparr>" using Body(1) by (simp add: sc_new_def)
    have "server_phase rs s' \<and> sc_parser s' = p \<and> sc_reading s' = rd"
      using phase_task [OF Body(2-4), of req b l ts] Body(5,6) ts' ts(2) s by simp
    then show ?thesis using inv(2) Body(1) by (simp add: server_inv_def sc_new_def)
  qed (use ts in \<open>simp_all add: sc_new_def\<close>)
qed

subsection \<open>Writes\<close>

lemma final_cb_closes:
  assumes "finished_stream h st" "\<not> sc_closed s" "sc_stream s = st" "sc_current_requests s = 1"
  shows "\<exists>st'. run_ready_cb (Some (fst (final_cb h))) s =
    (None, s\<lparr>sc_stream := st', sc_current_requests := 0, sc_closed := True, sc_reading := False, sc_writing := False\<rparr>)"
proof (cases h)
  case (ServiceHandler svc)
  then show ?thesis using assms
    by (auto simp: finished_stream_def final_cb_def run_ready_cb_def onCallbackCompleted_def onStateChanged_def
      rs_new_def sc_finishResponse_def sc_close_def)
next
  case (NoSuchRouteHandler res)
  then show ?thesis using assms
    by (intro exI [of _ "sc_stream s"]) (simp add: final_cb_def run_ready_cb_def sc_finishResponse_def sc_close_def)
qed

lemma phase_write:
  assumes "hp_mode p = PARSE_HTTP_REQUEST" "hp_state p = S_DONE" "reply rs p = ret out" "m + k \<le> length out"
    "finished_stream h st"
    "s = sc_new\<lparr>sc_parser := p, sc_request := req, sc_handler := Some h,
      sc_body_reader := True, sc_write_buf := out, sc_mark := m, sc_on_write := Some (fst (final_cb h)),
      sc_on_error := Some (snd (final_cb h)), sc_writing := True, sc_stream := st, sc_sent := take m out,
      sc_current_requests := 1, sc_reading := False\<rparr>"
    "s' = snd (sc_write (WBytes k) s)"
  shows "server_inv rs s' \<and> sc_parser s' = p \<and> sc_tasks s' = [] \<and>
    (if m + k < length out then \<not> sc_closed s' \<and> sc_mark s' = m + k else sc_closed s')"
proof (cases "m + k < length out")
  case True
  then have "s' = s\<lparr>sc_mark := m + k, sc_sent := take (m + k) out\<rparr>"
    using assms(6,7) by (simp add: sc_write_def awaitWrite_def sc_new_def take_add)
  then show ?thesis
    using server_phase.Writing [OF assms(1-3) True assms(5), where req = req and rd = False] assms(2,6) True
    by (simp add: server_inv_def sc_new_def)
next
  case False
  let ?s1 = "s\<lparr>sc_writing := False, sc_sent := out, sc_mark := 0, sc_write_buf := []\<rparr>"
  have s': "s' = snd (run_ready_cb (Some (fst (final_cb h))) ?s1)"
    using assms(4,6,7) False by (simp add: sc_write_def sc_new_def take_add [symmetric] Let_def)
  obtain st' where st': "run_ready_cb (Some (fst (final_cb h))) ?s1 =
      (None, ?s1\<lparr>sc_stream := st', sc_current_requests := 0, sc_closed := True, sc_reading := False, sc_writing := False\<rparr>)"
    using final_cb_closes [OF assms(5), of ?s1] assms(6) by (auto simp: sc_new_def)
  show ?thesis
    using server_phase.Closed [OF assms(1-3), where req = req and h = h and st = st'] assms(2,6) False
    unfolding s' st' by (simp add: server_inv_def sc_new_def)
qed

lemma inv_write_bytes:
  assumes "server_inv rs s" "server_exec rs (EvWrite (WBytes n)) s = Some s'"
  shows "server_inv rs s' \<and> sc_parser s' = sc_parser s \<and> sc_tasks s' = [] \<and>
    (if sc_mark s + n < length (sc_write_buf s) then \<not> sc_closed s' \<and> sc_mark s' = sc_mark s + n else sc_closed s')"
proof -
  have w: "sc_writing s" "s' = snd (sc_write (WBytes n) s)" "n \<le> length (sc_write_buf s) - sc_mark s"
    using assms(2) by (auto split: if_splits)
  have inv: "server_phase rs s" "sc_reading s = (hp_state (sc_parser s) \<noteq> S_DONE)"
    using assms(1) by (simp_all add: server_inv_def)
  from inv(1) show ?thesis
  proof cases
    case (Writing p out m h st rd req)
    then have "\<not> rd" "m + n \<le> length out" using inv(2) w(3) by (simp_all add: sc_new_def)
    then show ?thesis
      using phase_write [OF Writing(2-4) _ Writing(6) _ w(2), where req = req] Writing(1) by (simp add: sc_new_def)
  qed (use w in \<open>simp_all add: sc_new_def\<close>)
qed

lemma writing_open: "server_phase rs s \<Longrightarrow> sc_writing s \<Longrightarrow> \<not> sc_closed s"
  by (erule server_phase.cases) (simp_all add: sc_new_def)

lemma inv_write:
  assumes "server_inv rs s" "server_exec rs (EvWrite r) s = Some s'" "r \<noteq> WFailed"
  shows "server_inv rs s' \<and> sc_parser s' = sc_parser s"
proof (cases r)
  case (WBytes n)
  then show ?thesis using inv_write_bytes [OF assms(1), of n s'] assms(2) by (simp del: server_exec.simps)
next
  case WWouldBlock
  then have w: "sc_writing s" "s' = snd (sc_write WWouldBlock s)" using assms(2) by (auto split: if_splits)
  then have "\<not> sc_closed s" using writing_open [of rs s] assms(1) by (simp add: server_inv_def)
  then have "s' = s\<lparr>sc_writing := True\<rparr>" using w(2) by (simp add: sc_write_def awaitWrite_def)
  then have "s' = s" using w(1) by simp
  then show ?thesis using assms(1) by simp
qed (use assms(3) in simp)

lemma inv_exec:
  assumes "server_inv rs s" "server_exec rs ev s = Some s'" "smooth ev" "hp_parse_chunks (delivered ev) (sc_parser s) = Inr p'"
  shows "server_inv rs s' \<and> sc_parser s' = p'"
proof (cases ev)
  case (EvRead r)
  then have r: "sc_reading s" "s' = snd (sc_read rs r s)" using assms(2) by (auto split: if_splits)
  then have st: "hp_state (sc_parser s) \<noteq> S_DONE" using assms(1) by (simp add: server_inv_def)
  show ?thesis
  proof (cases r)
    case (RData d)
    then have "hp_parse d (sc_parser s) = Inr p'" using assms(4) EvRead by (auto simp: bindE_eq_Inr)
    then show ?thesis using inv_read [OF assms(1) _ _ r(1)] r(2) RData EvRead assms(3) by simp
  next
    case RWouldBlock
    have "\<not> sc_closed s" using phase_open [of rs s] st assms(1) by (simp add: server_inv_def)
    then have "s' = s\<lparr>sc_reading := True\<rparr>" using r(2) RWouldBlock by (simp add: sc_read_def awaitRead_def)
    then have "s' = s" using r(1) by simp
    then show ?thesis using assms(1,4) EvRead RWouldBlock by simp
  qed (use EvRead assms(3) in simp)
next
  case (EvWrite r)
  then show ?thesis using inv_write [OF assms(1), of r s'] assms(2-4) by (simp del: server_exec.simps)
next
  case EvTask
  then show ?thesis using inv_task [OF assms(1), of s'] assms(2,4) by (simp del: server_exec.simps)
qed

lemma hp_parse_chunks_append:
  "hp_parse_chunks (as @ bs) p = bindE (hp_parse_chunks as p) (hp_parse_chunks bs)"
  by (induction as arbitrary: p) (auto simp: bindE_def split: sum.splits)

lemma inv_run:
  assumes "server_inv rs s" "server_run rs evs s = Some s'" "list_all smooth evs"
    "hp_parse_chunks (received evs) (sc_parser s) = Inr p'"
  shows "server_inv rs s' \<and> sc_parser s' = p'"
  using assms
proof (induction evs arbitrary: s)
  case (Cons ev evs)
  obtain s1 where s1: "server_exec rs ev s = Some s1" "server_run rs evs s1 = Some s'"
    using Cons.prems(2) by (auto simp: Option.bind_eq_Some_conv)
  obtain p1 where p1: "hp_parse_chunks (delivered ev) (sc_parser s) = Inr p1" "hp_parse_chunks (received evs) p1 = Inr p'"
    using Cons.prems(4) by (auto simp: received_def hp_parse_chunks_append bindE_eq_Inr)
  from inv_exec [OF Cons.prems(1) s1(1) _ p1(1)] Cons.prems(3) have "server_inv rs s1" "sc_parser s1 = p1" by simp_all
  with Cons.IH [OF _ s1(2)] p1(2) Cons.prems(3) show ?case by simp
qed (simp add: received_def)

lemma req_event_body: "\<not> is_body e \<Longrightarrow> appendBody b (req_event e r) = req_event e (appendBody b r)"
  by (cases e) (simp_all add: is_body_def appendBody_def addHeader_def)

lemma fold_req_event_observe:
  "fold req_event es r = appendBody (snd (observe es)) (fold req_event (fst (observe es)) r)"
  by (rule fold_event_observe) (simp_all add: req_event_body)

lemma request_of_chunks:
  assumes "hp_parse_chunks cs server_parser = Inr p" "hp_state p = S_DONE" "HTTPRequest_parse (concat cs) = Inr req"
  shows "request_of p = req"
proof -
  obtain q where q: "hp_parse (concat cs) server_parser = Inr q" "hp_equiv q p"
    using hp_parse_chunks_concat [OF _ assms(1)] by (auto simp: server_parser_def hp_new_def)
  then have st: "hp_state q = S_DONE" "observe (hp_events q) = observe (hp_events p)"
    using assms(2) by (auto simp: hp_equiv_def dest: arg_cong [of _ _ hp_state])
  then have "req = request_of q"
    using assms(3) q(1) by (simp add: HTTPRequest_parse_def server_parser_def hp_eof_def request_of_def)
  then show ?thesis
    using st(2) fold_req_event_observe [of "hp_events q"] fold_req_event_observe [of "hp_events p"]
    by (simp add: request_of_def)
qed

lemma conn_start_inv: "fst conn_start = None \<and> server_inv rs (snd conn_start) \<and> sc_parser (snd conn_start) = server_parser"
proof -
  have s: "conn_start = (None, sc_new\<lparr>sc_parser := server_parser, sc_request := request_of server_parser, sc_reading := True\<rparr>)"
    by (simp add: conn_start_def nextRequest_def awaitRead_def sc_new_def server_parser_def request_of_def hp_new_def
        hp_reset_def)
  show ?thesis unfolding s
    using server_phase.Head [of server_parser rs True]
    by (simp add: server_inv_def server_parser_def request_of_def hp_new_def hp_start_def req_empty_def)
qed


subsection \<open>Progress\<close>

text \<open>A step that advances a connection whose request is complete, and what is left to do.\<close>

fun advancing :: "server_event \<Rightarrow> bool" where
  "advancing EvTask = True"
| "advancing (EvWrite (WBytes n)) \<longleftrightarrow> 0 < n"
| "advancing ev = False"

definition left_to_do :: "string \<Rightarrow> server_conn \<Rightarrow> nat" where
  "left_to_do out s =
     (if sc_closed s then 0
      else if sc_tasks s \<noteq> [] then length (sc_tasks s) + length out
      else length out - sc_mark s)"

lemma advancing_smooth: "advancing ev \<Longrightarrow> smooth ev \<and> delivered ev = []"
  by (cases ev rule: advancing.cases) auto

lemma inv_advance:
  assumes "server_inv rs s" "advancing ev" "server_exec rs ev s = Some s'"
  shows "server_inv rs s' \<and> sc_parser s' = sc_parser s"
  using inv_exec [OF assms(1,3), of "sc_parser s"] advancing_smooth [OF assms(2)] by simp

lemma inv_done_cases:
  assumes "server_inv rs s" "hp_state (sc_parser s) = S_DONE" "reply rs (sc_parser s) = ret out"
  obtains (task) "sc_tasks s \<noteq> []" "\<not> sc_closed s" "\<not> sc_writing s" "sc_sent s = []"
    | (writing) m where "sc_tasks s = []" "\<not> sc_closed s" "sc_writing s" "sc_write_buf s = out" "sc_mark s = m"
        "m < length out" "sc_sent s = take m out"
    | (closed) "sc_tasks s = []" "sc_closed s" "\<not> sc_writing s" "sc_sent s = out"
proof -
  have "server_phase rs s" using assms(1) by (simp add: server_inv_def)
  then show ?thesis
  proof cases
    case (Body p h req ts rd)
    moreover have "ts \<noteq> []" using Body assms(2) by (auto simp: tasks_ok_def sc_new_def)
    ultimately show ?thesis using task by (simp add: sc_new_def)
  next
    case (Writing p out' m h st rd req)
    then show ?thesis using assms(3) writing by (simp add: sc_new_def)
  next
    case (Closed p out' st h req)
    then show ?thesis using assms(3) closed by (simp add: sc_new_def)
  qed (use assms(2,3) in \<open>auto simp: sc_new_def\<close>)
qed

lemma conn_op_tasks [simp]:
  "sc_tasks (snd (awaitWrite s)) = sc_tasks s" "sc_tasks (snd (sc_close s)) = sc_tasks s"
  by (simp_all add: awaitWrite_def sc_close_def)

lemma write_op_tasks [simp]:
  "sc_tasks (snd (sc_finishResponse s)) = sc_tasks s"
  "sc_tasks (snd (sc_writeResponse res cb ecb s)) = sc_tasks s"
  "sc_tasks (snd (sc_writeResponseBody data cb ecb s)) = sc_tasks s"
  by (simp_all add: sc_finishResponse_def sc_writeResponse_def sc_writeResponseBody_def split: option.splits sum.splits)

lemma stream_op_tasks [simp]:
  "sc_tasks (snd (onStateChanged s)) = sc_tasks s"
  "sc_tasks (snd (startResponse res s)) = sc_tasks s"
  by (simp_all add: onStateChanged_def startResponse_def Let_def)

lemma rs_finish_tasks [simp]: "sc_tasks (snd (rs_finishResponse s)) = sc_tasks s"
  by (simp add: rs_finishResponse_def Let_def)

lemma thenO_tasks:
  "(\<And>s. sc_tasks (snd (a s)) = sc_tasks s) \<Longrightarrow> (\<And>s. sc_tasks (snd (b s)) = sc_tasks s) \<Longrightarrow>
   sc_tasks (snd (thenO a b s)) = sc_tasks s"
  unfolding thenO_def by (smt (verit) case_prod_beta' option.case_eq_if snd_conv)

lemma rs_write_tasks [simp]: "sc_tasks (snd (rs_writeResponse res s)) = sc_tasks s"
  by (simp add: rs_writeResponse_def thenO_tasks)

lemma run_task_tasks: "sc_tasks (snd (run_task t s)) = sc_tasks s"
proof -
  have call: "sc_tasks (snd (service_call svc s)) = sc_tasks s" for svc s
    by (simp add: service_call_def split: sum.splits)
  have "sc_tasks (snd (service_dispatch svc s)) = sc_tasks s" for svc s
    using call [of svc "s\<lparr>sc_stream := rs_new\<rparr>"]
    by (cases "service_call svc (s\<lparr>sc_stream := rs_new\<rparr>)") (simp add: service_dispatch_def split: option.splits)
  then show ?thesis by (simp add: run_task_def Let_def split: option.splits http_handler.splits)
qed

lemma advance_decreases:
  assumes "server_inv rs s" "hp_state (sc_parser s) = S_DONE" "reply rs (sc_parser s) = ret out"
    "advancing ev" "server_exec rs ev s = Some s'"
  shows "left_to_do out s' < left_to_do out s"
  using assms(1-3)
proof (cases rule: inv_done_cases)
  case task
  then have ev: "ev = EvTask" using assms(4,5) by (cases ev rule: advancing.cases) auto
  then have len: "length (sc_tasks s) = Suc (length (sc_tasks s'))"
    using assms(5) task(1) by (auto simp: neq_Nil_conv run_task_tasks)
  then show ?thesis using task(1,2) by (auto simp: left_to_do_def)
next
  case (writing m)
  then obtain n where n: "ev = EvWrite (WBytes n)" "0 < n" using assms(4,5) by (cases ev rule: advancing.cases) auto
  show ?thesis
    using inv_write_bytes [OF assms(1), of n s'] assms(5) n writing by (auto simp: left_to_do_def split: if_splits)
next
  case closed
  then show ?thesis using assms(4,5) by (cases ev rule: advancing.cases) auto
qed

lemma advance_possible:
  assumes "server_inv rs s" "hp_state (sc_parser s) = S_DONE" "reply rs (sc_parser s) = ret out" "\<not> sc_closed s"
  shows "\<exists>ev s'. advancing ev \<and> server_exec rs ev s = Some s'"
  using assms(1-3)
proof (cases rule: inv_done_cases)
  case task
  then show ?thesis by (intro exI [of _ EvTask]) (auto simp: neq_Nil_conv)
next
  case (writing m)
  then show ?thesis by (intro exI [of _ "EvWrite (WBytes 1)"]) auto
qed (use assms(4) in simp)

lemma advance_ends:
  assumes "server_inv rs s" "hp_state (sc_parser s) = S_DONE" "reply rs (sc_parser s) = ret out"
  shows "\<exists>evs s'. list_all advancing evs \<and> server_run rs evs s = Some s' \<and> sc_closed s' \<and> sc_sent s' = out"
  using assms
proof (induction "left_to_do out s" arbitrary: s rule: less_induct)
  case less
  show ?case
  proof (cases "sc_closed s")
    case True
    from less.prems have "sc_sent s = out" by (cases rule: inv_done_cases) (use True in simp_all)
    with True show ?thesis by (intro exI [of _ "[]"]) simp
  next
    case False
    with less.prems obtain ev s1 where ev: "advancing ev" "server_exec rs ev s = Some s1"
      using advance_possible by blast
    note adv = inv_advance [OF less.prems(1) ev] advance_decreases [OF less.prems ev]
    then obtain evs s' where "list_all advancing evs" "server_run rs evs s1 = Some s'" "sc_closed s'" "sc_sent s' = out"
      using less.hyps [of s1] less.prems by metis
    with ev show ?thesis by (intro exI [of _ "ev # evs"]) simp
  qed
qed

lemma would_block_same:
  assumes "server_inv rs s" "server_exec rs (EvWrite WWouldBlock) s = Some s'"
  shows "s' = s"
proof -
  have w: "sc_writing s" "s' = snd (sc_write WWouldBlock s)" using assms(2) by (auto split: if_splits)
  then have "\<not> sc_closed s" using writing_open [of rs s] assms(1) by (simp add: server_inv_def)
  then show ?thesis using w by (simp add: sc_write_def awaitWrite_def)
qed

lemma idle_step:
  assumes "server_inv rs s" "hp_state (sc_parser s) = S_DONE" "reply rs (sc_parser s) = ret out"
    "smooth ev" "\<not> advancing ev" "server_exec rs ev s = Some s'"
  shows "server_inv rs s' \<and> sc_parser s' = sc_parser s \<and> left_to_do out s' = left_to_do out s"
proof (cases ev)
  case (EvRead r)
  then show ?thesis using assms(1,2,6) by (simp add: server_inv_def)
next
  case (EvWrite w)
  show ?thesis
  proof (cases w)
    case (WBytes n)
    then have ev: "ev = EvWrite (WBytes 0)" using EvWrite assms(5) by simp
    then have "sc_writing s" using assms(6) by (simp split: if_splits)
    with assms(1-3) have "sc_mark s < length out" "sc_write_buf s = out" "sc_tasks s = []" "\<not> sc_closed s"
      by (auto elim: inv_done_cases)
    then show ?thesis using inv_write_bytes [OF assms(1), of 0 s'] assms(6) ev by (simp add: left_to_do_def del: server_exec.simps)
  qed (use EvWrite assms(1,4,6) would_block_same [of rs s s'] in \<open>simp_all del: server_exec.simps\<close>)
qed (use assms(5) in simp)

lemma advance_bounded:
  assumes "server_inv rs s" "hp_state (sc_parser s) = S_DONE" "reply rs (sc_parser s) = ret out"
    "list_all smooth evs" "server_run rs evs s = Some s'"
  shows "length (filter advancing evs) + left_to_do out s' \<le> left_to_do out s"
  using assms
proof (induction evs arbitrary: s)
  case (Cons ev evs)
  obtain s1 where s1: "server_exec rs ev s = Some s1" "server_run rs evs s1 = Some s'"
    using Cons.prems(5) by (auto simp: Option.bind_eq_Some_conv)
  have sm: "smooth ev" "list_all smooth evs" using Cons.prems(4) by simp_all
  show ?case
  proof (cases "advancing ev")
    case True
    note adv = inv_advance [OF Cons.prems(1) True s1(1)] advance_decreases [OF Cons.prems(1-3) True s1(1)]
    with Cons.IH [OF _ _ _ sm(2) s1(2)] Cons.prems(2,3) True show ?thesis by fastforce
  next
    case False
    with Cons.IH [OF _ _ _ sm(2) s1(2)] Cons.prems(2,3) idle_step [OF Cons.prems(1-3) sm(1) False s1(1)]
    show ?thesis by simp
  qed
qed simp

lemma server_reached:
  assumes "server_run rs evs (snd conn_start) = Some s" "list_all smooth evs"
    "hp_parse_chunks (received evs) server_parser = Inr p" "hp_state p = S_DONE"
    "HTTPRequest_parse (concat (received evs)) = Inr req"
  shows "server_inv rs s \<and> hp_state (sc_parser s) = S_DONE \<and>
    reply rs (sc_parser s) = generate_response sos_write (answer rs req) []"
  using inv_run [of rs "snd conn_start" evs s p] conn_start_inv [of rs] request_of_chunks [OF assms(3-5)] assms
  by (simp add: reply_def)

text \<open>A sample request in two pieces, for a server without routes.\<close>

abbreviation sample_events :: "server_event list" where
  "sample_events \<equiv>
     [EvRead (RData ''GET / HT''), EvRead RWouldBlock, EvRead (RData (''TP/1.1'' @ crlf @ crlf)),
      EvTask, EvWrite (WBytes 5)]"

abbreviation sample_request :: http_request where
  "sample_request \<equiv>
     \<lparr>hm_version = ''HTTP/1.1'', hm_headers = [], hm_body = [], req_method = M_GET, req_url = ''/''\<rparr>"

abbreviation sample_response :: string where
  "sample_response \<equiv> ''HTTP/1.1 404 Not found'' @ crlf @ crlf @ ''Not Found''"

lemma is_none_run: "\<not> Option.is_none r \<Longrightarrow> \<exists>s. r = Some s"
  by (cases r) simp_all

lemma sample_run: "\<exists>s. server_run [] sample_events (snd conn_start) = Some s"
  by (rule is_none_run) code_simp

lemma sample_parsed: "\<exists>p. hp_parse_chunks (received sample_events) server_parser = Inr p \<and> hp_state p = S_DONE"
proof -
  have "case hp_parse_chunks (received sample_events) server_parser of
      Inr p \<Rightarrow> hp_state p = S_DONE | Inl e \<Rightarrow> False" by code_simp
  then show ?thesis by (auto split: sum.splits)
qed

lemma sample_is_request: "HTTPRequest_parse (concat (received sample_events)) = Inr sample_request"
  by code_simp

lemma sample_answer: "generate_response sos_write (answer [] sample_request) [] = ret sample_response"
  by code_simp

lemma sample_smooth: "list_all smooth sample_events"
  by simp

section \<open>Properties\<close>

text \<open>C3. A server connection answers the request it receives. The tasks run in the order they were queued, as on a
  scheduler with one thread; no read or write fails; the parser accepts the pieces the request arrives in, and the
  response of the routes can be generated. Then, whatever these pieces, the pieces the response is sent in, and the
  interleaving of reads, writes and tasks: once the request is complete the bytes sent are a prefix of the generated
  response to the whole request, and the connection is closed exactly when all of it has been sent.\<close>

theorem server_answers:
  assumes "server_run rs evs (snd conn_start) = Some s" "list_all smooth evs"
    "hp_parse_chunks (received evs) server_parser = Inr p" "hp_state p = S_DONE"
    "HTTPRequest_parse (concat (received evs)) = Inr req"
    "generate_response sos_write (answer rs req) [] = ret out"
  shows "\<exists>k. sc_sent s = take k out \<and> sc_closed s = (k \<ge> length out)"
proof -
  note r = server_reached [OF assms(1-5)]
  then have "server_inv rs s" "hp_state (sc_parser s) = S_DONE" "reply rs (sc_parser s) = ret out"
    using assms(6) by simp_all
  then show ?thesis
  proof (cases rule: inv_done_cases)
    case task
    moreover have "out \<noteq> []" using reply_fresh r assms(6) by metis
    ultimately show ?thesis by (intro exI [of _ 0]) auto
  next
    case (writing m)
    then show ?thesis by (intro exI [of _ m]) auto
  next
    case closed
    then show ?thesis by (intro exI [of _ "length out"]) auto
  qed
qed

theorem server_answers_witness:
  "\<exists>s. server_run [] sample_events (snd conn_start) = Some s \<and>
     (\<exists>k. sc_sent s = take k sample_response \<and> sc_closed s = (k \<ge> length sample_response))"
proof -
  obtain s p where "server_run [] sample_events (snd conn_start) = Some s"
    "hp_parse_chunks (received sample_events) server_parser = Inr p" "hp_state p = S_DONE"
    using sample_run sample_parsed by blast
  with server_answers [OF this(1) sample_smooth this(2,3) sample_is_request sample_answer] show ?thesis by blast
qed

text \<open>C13. Once a request is complete its connection terminates: in every further schedule without a failed write, the
  steps that advance the connection (tasks run, writes that send at least one byte) are no more than there are tasks
  waiting and bytes in the response, however many writes that would block or send nothing lie between them. The pieces of
  the request were accepted and its response can be generated.\<close>

theorem server_terminates:
  assumes "server_run rs evs (snd conn_start) = Some s" "list_all smooth evs"
    "hp_parse_chunks (received evs) server_parser = Inr p" "hp_state p = S_DONE"
    "HTTPRequest_parse (concat (received evs)) = Inr req"
    "generate_response sos_write (answer rs req) [] = ret out"
    "server_run rs evs' s = Some s'" "list_all smooth evs'"
  shows "length (filter advancing evs') \<le> length (sc_tasks s) + length out"
proof -
  have "length (filter advancing evs') \<le> left_to_do out s"
    using advance_bounded [OF _ _ _ assms(8,7), of out] server_reached [OF assms(1-5)] assms(6) by simp
  then show ?thesis by (simp add: left_to_do_def split: if_splits)
qed

theorem server_terminates_witness:
  "\<exists>s s'. server_run [] sample_events (snd conn_start) = Some s \<and>
     server_run [] [EvWrite (WBytes 3), EvWrite WWouldBlock, EvWrite (WBytes 1)] s = Some s' \<and>
     length (filter advancing [EvWrite (WBytes 3), EvWrite WWouldBlock, EvWrite (WBytes 1)])
       \<le> length (sc_tasks s) + length sample_response"
proof -
  let ?more = "[EvWrite (WBytes 3), EvWrite WWouldBlock, EvWrite (WBytes 1)]"
  have "\<not> Option.is_none (Option.bind (server_run [] sample_events (snd conn_start)) (server_run [] ?more))"
    by code_simp
  then obtain s s' where s: "server_run [] sample_events (snd conn_start) = Some s" "server_run [] ?more s = Some s'"
    by (auto simp: Option.is_none_def Option.bind_eq_Some_conv simp del: server_run.simps)
  moreover obtain p where p: "hp_parse_chunks (received sample_events) server_parser = Inr p" "hp_state p = S_DONE"
    using sample_parsed by blast
  have "list_all smooth ?more" by simp
  from server_terminates [OF s(1) sample_smooth p sample_is_request sample_answer s(2) this] s show ?thesis by blast
qed

text \<open>C12. And it never waits for anything but the client: from every state it reaches after a complete
  request whose pieces were accepted, without a failed read or write, and whose response can be generated, running the
  waiting tasks and letting the socket accept bytes sends the whole response and closes the connection. (A response that
  cannot be generated leaves the connection open for ever, see \<open>server_hangs\<close>.)\<close>

theorem server_completes:
  assumes "server_run rs evs (snd conn_start) = Some s" "list_all smooth evs"
    "hp_parse_chunks (received evs) server_parser = Inr p" "hp_state p = S_DONE"
    "HTTPRequest_parse (concat (received evs)) = Inr req"
    "generate_response sos_write (answer rs req) [] = ret out"
  shows "\<exists>evs' s'. list_all advancing evs' \<and> server_run rs evs' s = Some s' \<and> sc_closed s' \<and> sc_sent s' = out"
  using advance_ends [of rs s out] server_reached [OF assms(1-5)] assms(6) by simp

theorem server_completes_witness:
  "\<exists>s evs' s'. server_run [] sample_events (snd conn_start) = Some s \<and> list_all advancing evs' \<and>
     server_run [] evs' s = Some s' \<and> sc_closed s' \<and> sc_sent s' = sample_response"
proof -
  obtain s p where "server_run [] sample_events (snd conn_start) = Some s"
    "hp_parse_chunks (received sample_events) server_parser = Inr p" "hp_state p = S_DONE"
    using sample_run sample_parsed by blast
  with server_completes [OF this(1) sample_smooth this(2,3) sample_is_request sample_answer] show ?thesis by blast
qed

text \<open>The exception is a response that cannot be generated, as when the request line carries a
  version of fewer than four characters that the service copies: after its last task nothing has been
  sent, the connection is open, and no event can happen on it any more.\<close>

theorem server_hangs:
  assumes "server_run rs evs (snd conn_start) = Some s" "list_all smooth evs"
    "hp_parse_chunks (received evs) server_parser = Inr p" "hp_state p = S_DONE"
    "HTTPRequest_parse (concat (received evs)) = Inr req"
    "length (hm_version (answer rs req)) < 4" "sc_tasks s = []"
  shows "sc_sent s = [] \<and> \<not> sc_closed s \<and> server_exec rs ev s = None"
proof -
  have r: "server_inv rs s" "hp_state (sc_parser s) = S_DONE" "\<And>out. reply rs (sc_parser s) \<noteq> ret out"
    using server_reached [OF assms(1-5)] assms(6) by (auto simp: generate_response_def)
  have "server_phase rs s" using r(1) by (simp add: server_inv_def)
  then have "sc_sent s = [] \<and> \<not> sc_closed s \<and> \<not> sc_writing s"
    by cases (use r(2,3) assms(7) in \<open>auto simp: sc_new_def tasks_ok_def\<close>)
  moreover have "\<not> sc_reading s" using r(1,2) by (simp add: server_inv_def)
  ultimately show ?thesis using assms(7) by (cases ev) simp_all
qed

theorem server_hangs_witness:
  "\<exists>s. server_run [] [EvRead (RData (''GET / H'' @ crlf @ crlf)), EvTask] (snd conn_start) = Some s \<and>
     sc_sent s = [] \<and> \<not> sc_closed s \<and> server_exec [] EvTask s = None"
proof -
  let ?evs = "[EvRead (RData (''GET / H'' @ crlf @ crlf)), EvTask]"
  have "case server_run [] ?evs (snd conn_start) of Some s \<Rightarrow> sc_tasks s = [] | None \<Rightarrow> False" by code_simp
  then obtain s where s: "server_run [] ?evs (snd conn_start) = Some s" "sc_tasks s = []" by (auto split: option.splits)
  have "case hp_parse_chunks (received ?evs) server_parser of Inr p \<Rightarrow> hp_state p = S_DONE | Inl e \<Rightarrow> False" by code_simp
  then obtain p where p: "hp_parse_chunks (received ?evs) server_parser = Inr p" "hp_state p = S_DONE" by (auto split: sum.splits)
  have req: "HTTPRequest_parse (concat (received ?evs)) = Inr (sample_request\<lparr>hm_version := ''H''\<rparr>)" by code_simp
  have "length (hm_version (answer [] (sample_request\<lparr>hm_version := ''H''\<rparr>))) < 4" by code_simp
  from server_hangs [OF s(1) _ p req this s(2), of EvTask] s(1) show ?thesis by simp
qed

section \<open>Streaming a response\<close>

text \<open>A service may write the body in pieces, while the socket accepts bytes.\<close>

datatype stream_event = SChunk string | SFinish | SWrote nat

fun stream_exec :: "stream_event \<Rightarrow> server_conn \<Rightarrow> server_conn option" where
  "stream_exec (SChunk d) s = (if rs_response_finished (sc_stream s) then None else Some (snd (writeBodyChunk d s)))"
| "stream_exec SFinish s = Some (snd (rs_finishResponse s))"
| "stream_exec (SWrote n) s =
     (if sc_writing s \<and> n \<le> length (sc_write_buf s) - sc_mark s then Some (snd (sc_write (WBytes n) s)) else None)"

fun stream_run :: "stream_event list \<Rightarrow> server_conn \<Rightarrow> server_conn option" where
  "stream_run [] s = Some s"
| "stream_run (ev # evs) s = Option.bind (stream_exec ev s) (stream_run evs)"

fun streamed :: "stream_event \<Rightarrow> string" where
  "streamed (SChunk d) = d"
| "streamed ev = []"

definition unsent :: "server_conn \<Rightarrow> string" where
  "unsent s = drop (sc_mark s) (sc_write_buf s) @ rs_buf (sc_stream s)"

definition stream_inv :: "nat \<Rightarrow> string \<Rightarrow> server_conn \<Rightarrow> bool" where
  "stream_inv lim whole s \<longleftrightarrow>
     (let st = sc_stream s
      in hp_state (sc_parser s) = S_DONE \<and> rs_headers_written st \<and> \<not> rs_error st \<and>
         sc_on_write s = Some CbStream \<and> sc_sent s @ unsent s = whole \<and> sc_mark s \<le> length (sc_write_buf s) \<and>
         length (sc_write_buf s) \<le> lim \<and> rs_callback_running st = sc_writing s \<and>
         (sc_writing s \<longrightarrow> \<not> sc_closed s) \<and>
         (\<not> sc_writing s \<longrightarrow> unsent s = [] \<and> sc_write_buf s = [] \<and> sc_mark s = 0 \<and> sc_closed s = rs_response_finished st))"

lemma onStateChanged_inv:
  assumes "hp_state (sc_parser s) = S_DONE" "rs_headers_written (sc_stream s)" "\<not> rs_error (sc_stream s)"
    "sc_on_write s = Some CbStream" "sc_sent s @ unsent s = whole" "\<not> sc_closed s" "kMaxWriteBufferSize \<le> lim"
    "rs_callback_running (sc_stream s) = sc_writing s" "sc_mark s \<le> length (sc_write_buf s)" "length (sc_write_buf s) \<le> lim"
    "\<not> sc_writing s \<Longrightarrow> sc_write_buf s = [] \<and> sc_mark s = 0"
  shows "stream_inv lim whole (snd (onStateChanged s)) \<and> fst (onStateChanged s) = None"
  using assms
  by (auto simp: onStateChanged_def stream_inv_def Let_def unsent_def sc_writeResponseBody_def awaitWrite_def
      sc_finishResponse_def sc_close_def)

lemma stream_write_inv:
  assumes "stream_inv lim whole s" "kMaxWriteBufferSize \<le> lim" "sc_writing s"
    "n \<le> length (sc_write_buf s) - sc_mark s" "s' = snd (sc_write (WBytes n) s)"
  shows "stream_inv lim whole s'"
proof -
  note w = assms(3-5)
  have cat: "sc_sent s @ drop (sc_mark s) (sc_write_buf s) @ rs_buf (sc_stream s) = whole"
    using assms(1) by (simp add: stream_inv_def unsent_def Let_def)
  define sent where "sent = sc_sent s @ take n (drop (sc_mark s) (sc_write_buf s))"
  show ?thesis
  proof (cases "sc_mark s + n < length (sc_write_buf s)")
    case True
    then have "s' = s\<lparr>sc_writing := True, sc_sent := sent, sc_mark := sc_mark s + n\<rparr>"
      using w assms(1) by (simp add: sc_write_def awaitWrite_def stream_inv_def Let_def sent_def)
    moreover have "sent @ drop (sc_mark s + n) (sc_write_buf s) @ rs_buf (sc_stream s) = whole"
      using cat unfolding sent_def by (simp add: add.commute flip: drop_drop) (metis append.assoc append_take_drop_id)
    ultimately show ?thesis using True w(1) assms(1) by (simp add: stream_inv_def unsent_def Let_def)
  next
    case False
    let ?s = "s\<lparr>sc_writing := False, sc_sent := sent, sc_write_buf := [], sc_mark := 0,
        sc_stream := (sc_stream s)\<lparr>rs_callback_running := False\<rparr>\<rparr>"
    have "s' = snd (onStateChanged ?s)"
      using w False assms(1)
      by (simp add: sc_write_def stream_inv_def Let_def run_ready_cb_def onCallbackCompleted_def sent_def)
    moreover have "sent @ rs_buf (sc_stream s) = whole" using cat False by (simp add: sent_def)
    then have "stream_inv lim whole (snd (onStateChanged ?s)) \<and> fst (onStateChanged ?s) = None"
      using assms(1,2) w(1) by (intro onStateChanged_inv) (auto simp: stream_inv_def unsent_def Let_def)
    ultimately show ?thesis by simp
  qed
qed

lemma stream_exec_inv:
  assumes "stream_inv lim whole s" "kMaxWriteBufferSize \<le> lim" "stream_exec ev s = Some s'"
  shows "stream_inv lim (whole @ streamed ev) s'"
proof (cases ev)
  case (SChunk d)
  then have f: "\<not> rs_response_finished (sc_stream s)" "s' = snd (writeBodyChunk d s)" using assms(3) by (auto split: if_splits)
  let ?s = "s\<lparr>sc_stream := (sc_stream s)\<lparr>rs_buf := rs_buf (sc_stream s) @ d\<rparr>\<rparr>"
  have "s' = snd (onStateChanged ?s)" using f(2) assms(1) by (simp add: writeBodyChunk_def stream_inv_def Let_def)
  moreover have "stream_inv lim (whole @ d) (snd (onStateChanged ?s)) \<and> fst (onStateChanged ?s) = None"
    using assms(1,2) f(1) by (intro onStateChanged_inv) (auto simp: stream_inv_def unsent_def Let_def)
  ultimately show ?thesis using SChunk by simp
next
  case SFinish
  let ?s = "s\<lparr>sc_stream := (sc_stream s)\<lparr>rs_response_finished := True\<rparr>\<rparr>"
  show ?thesis
  proof (cases "rs_response_finished (sc_stream s)")
    case True
    then show ?thesis using assms SFinish by (simp add: rs_finishResponse_def)
  next
    case False
    then have "s' = snd (onStateChanged ?s)"
      using assms(1,3) SFinish by (simp add: rs_finishResponse_def stream_inv_def Let_def)
    moreover have "stream_inv lim whole (snd (onStateChanged ?s)) \<and> fst (onStateChanged ?s) = None"
      using assms(1,2) False by (intro onStateChanged_inv) (auto simp: stream_inv_def unsent_def Let_def)
    ultimately show ?thesis using SFinish by simp
  qed
next
  case (SWrote n)
  then show ?thesis using stream_write_inv [OF assms(1,2), of n s'] assms(3) by (simp split: if_splits)
qed

lemma stream_run_inv:
  assumes "stream_inv lim whole s" "kMaxWriteBufferSize \<le> lim" "stream_run evs s = Some s'"
  shows "stream_inv lim (whole @ concat (map streamed evs)) s'"
  using assms
proof (induction evs arbitrary: whole s)
  case (Cons ev evs)
  then obtain s1 where "stream_exec ev s = Some s1" "stream_run evs s1 = Some s'"
    by (auto simp: Option.bind_eq_Some_conv)
  with Cons.IH [OF stream_exec_inv [OF Cons.prems(1,2)] Cons.prems(2)] show ?case by simp
qed simp

text \<open>C17. A response stream loses, repeats and reorders nothing: after \<open>startResponse\<close>, whatever the
  interleaving of body chunks with completed writes of any size, the bytes sent followed by the bytes
  still buffered are the generated response followed by all chunks; no write is larger than the
  limit unless the head of the response is; and the connection is closed exactly when the response
  was finished and nothing is buffered.\<close>

theorem response_stream_lossless:
  assumes "hp_state (sc_parser s0) = S_DONE" "\<not> sc_closed s0" "sc_write_buf s0 = []" "sc_mark s0 = 0" "sc_sent s0 = []"
    "sc_stream s0 = rs_new" "generate_response sos_write res [] = ret hdr"
    "stream_run evs (snd (startResponse res s0)) = Some s"
  shows "sc_sent s @ unsent s = hdr @ concat (map streamed evs) \<and>
    length (sc_write_buf s) \<le> max (length hdr) kMaxWriteBufferSize \<and>
    sc_closed s = (rs_response_finished (sc_stream s) \<and> unsent s = [] \<and> \<not> sc_writing s)"
proof -
  let ?lim = "max (length hdr) kMaxWriteBufferSize"
  have "stream_inv ?lim hdr (snd (startResponse res s0))"
    using assms(1-7) by (simp add: startResponse_def rs_new_def sc_writeResponse_def awaitWrite_def stream_inv_def unsent_def)
  from stream_run_inv [OF this _ assms(8)] show ?thesis by (auto simp: stream_inv_def Let_def)
qed

theorem response_stream_lossless_witness:
  "\<exists>s. stream_run [SChunk ''ab'', SWrote 3, SChunk ''c'', SFinish]
      (snd (startResponse (answer [] sample_request) (sc_new\<lparr>sc_parser := server_parser\<lparr>hp_state := S_DONE\<rparr>\<rparr>))) = Some s \<and>
    sc_sent s @ unsent s = sample_response @ ''abc''"
proof -
  let ?s = "sc_new\<lparr>sc_parser := server_parser\<lparr>hp_state := S_DONE\<rparr>\<rparr>"
  let ?evs = "[SChunk ''ab'', SWrote 3, SChunk ''c'', SFinish]"
  have "\<exists>s. stream_run ?evs (snd (startResponse (answer [] sample_request) ?s)) = Some s"
    by (rule is_none_run) code_simp
  then obtain s where s: "stream_run ?evs (snd (startResponse (answer [] sample_request) ?s)) = Some s" by blast
  from response_stream_lossless [OF _ _ _ _ _ _ sample_answer s] s show ?thesis by (simp add: sc_new_def)
qed

end
