(* ===== verification/Stx_HTTPResponse.thy ===== *)
theory Stx_HTTPResponse
  imports Stx_HTTP
begin

text \<open>
  Responses through the generator and the parser of theory \<open>Stx_HTTP\<close>: the text of a response with a
  body of known size, what the parser reports for it, and that no piece of it short of the whole makes
  the parser believe that the response is complete.
\<close>

section \<open>Well-formed responses\<close>

definition reply_header :: "string \<times> string \<Rightarrow> bool" where
  "reply_header h \<longleftrightarrow> header_wf h \<and> \<not> (fst h = ''connection'' \<and> toLower (snd h) = ''close'')"

definition sized_headers :: "string \<Rightarrow> header_list" where
  "sized_headers b = (if b = [] then [] else [(''content-length'', to_string (length b))])"

definition own_headers :: "http_response \<Rightarrow> header_list" where
  "own_headers r = (if hm_body r = [] then hm_headers r else butlast (hm_headers r))"

definition response_wf :: "http_response \<Rightarrow> bool" where
  "response_wf r \<longleftrightarrow>
     4 \<le> length (hm_version r) \<and> list_all (\<lambda>c. c \<noteq> CHR ''$'' \<and> c \<noteq> CHR '' '') (hm_version r) \<and>
     \<not> strncase_eq (hm_version r) ''HTTP/1.0'' \<and>
     0 \<le> res_code r \<and> res_code r < 2 ^ 31 \<and>
     list_all (\<lambda>c. c \<noteq> CHR ''$'' \<and> c \<noteq> CHR 0x0A) (res_status r) \<and>
     (res_status r \<noteq> [] \<longrightarrow> last (res_status r) \<noteq> CHR 0x0D) \<and>
     list_all reply_header (own_headers r) \<and> hm_headers r = own_headers r @ sized_headers (hm_body r) \<and>
     length (hm_body r) < 2 ^ 64"

definition response_text :: "http_response \<Rightarrow> string" where
  "response_text r =
     hm_version r @ '' '' @ int_to_string (res_code r) @ '' '' @ res_status r @ crlf @
     headers_text (hm_headers r) @ crlf @ hm_body r"

lemma int_to_string_nat: "0 \<le> i \<Longrightarrow> int_to_string i = to_string (nat i)"
  by (simp add: int_to_string_def)

lemma to_string_no_dollar: "CHR ''$'' \<notin> set (to_string n)"
  using to_string_digits [of "CHR ''$''" n] by (auto simp: isdigit_def)

lemma header_no_dollar: "reply_header h \<Longrightarrow> CHR ''$'' \<notin> set (fst h) \<and> CHR ''$'' \<notin> set (snd h)"
  by (cases h) (auto simp: reply_header_def header_wf_def list_all_iff)

section \<open>Generating\<close>

context byte_sink
begin

lemma write_headers_text:
  "invar out \<Longrightarrow> list_all (\<lambda>(k, v). CHR ''$'' \<notin> set k \<and> CHR ''$'' \<notin> set v) hs \<Longrightarrow>
   \<exists>out'. write_headers put hs out = ret out' \<and> invar out' \<and> written out' = written out @ bytes_of (headers_text hs)"
proof (induction hs arbitrary: out)
  case (Cons h hs)
  obtain k v where h: "h = (k, v)" by fastforce
  then have "CHR ''$'' \<notin> set k" "CHR ''$'' \<notin> set v" using Cons.prems(2) by auto
  from write_fmt_ok [OF Cons.prems(1) format_header [OF this]]
  obtain o1 where o1: "write_fmt put (''$0: $1'' @ crlf) [k, v] out = ret o1" "invar o1"
    "written o1 = written out @ bytes_of (k @ '': '' @ v @ crlf)" by blast
  with Cons.IH [OF o1(2)] Cons.prems(2) h show ?case by auto
qed simp

lemma generate_response_ok:
  assumes "invar out" "response_wf r"
  shows "\<exists>out'. generate_response put r out = ret out' \<and> invar out' \<and>
    written out' = written out @ bytes_of (response_text r)"
proof -
  note wf = assms(2) [unfolded response_wf_def]
  have nd: "CHR ''$'' \<notin> set (hm_version r)" "CHR ''$'' \<notin> set (int_to_string (res_code r))"
    "CHR ''$'' \<notin> set (res_status r)"
    using wf to_string_no_dollar by (auto simp: list_all_iff int_to_string_nat)
  obtain o1 where o1: "write_fmt put (''$0 $1 $2'' @ crlf)
      [hm_version r, int_to_string (res_code r), res_status r] out = ret o1" "invar o1"
    "written o1 = written out @
      bytes_of (hm_version r @ '' '' @ int_to_string (res_code r) @ '' '' @ res_status r @ crlf)"
    using write_fmt_ok [OF assms(1) format_line [OF nd]] by blast
  have "list_all (\<lambda>(k, v). CHR ''$'' \<notin> set k \<and> CHR ''$'' \<notin> set v) (own_headers r @ sized_headers (hm_body r))"
    using wf header_no_dollar to_string_no_dollar by (auto simp: sized_headers_def list_all_iff)
  then obtain o2 where o2: "write_headers put (hm_headers r) o1 = ret o2" "invar o2"
    "written o2 = written o1 @ bytes_of (headers_text (hm_headers r))"
    using write_headers_text [OF o1(2), of "hm_headers r"] wf by auto
  obtain o3 where o3: "put (bytes_of crlf) o2 = ret o3" "invar o3" "written o3 = written o2 @ bytes_of crlf"
    using put_ok [OF o2(2)] by blast
  obtain o4 where o4: "put (bytes_of (hm_body r)) o3 = ret o4" "invar o4"
    "written o4 = written o3 @ bytes_of (hm_body r)" using put_ok [OF o3(2)] by blast
  have "\<not> length (hm_version r) < 4" using wf by simp
  then show ?thesis
    using o1 o2 o3 o4
    by (cases "hm_body r = []") (auto simp: generate_response_def response_text_def os_write_string_def)
qed

end

section \<open>Parsing\<close>

lemma hp_step_res_version:
  assumes "hp_state p = S_RES_VERSION" "hp_buf p = []" "list_all (\<lambda>c. c \<noteq> CHR '' '') v" "\<not> strncase_eq v ''HTTP/1.0''"
  shows "hp_step (v @ CHR '' '' # r) p =
      Inr (r, p\<lparr>hp_state := S_RES_STATUS_CODE, hp_events := hp_events p @ [OnVersion v]\<rparr>)"
proof -
  show ?thesis
    using assms by (simp add: hp_step_def parseResponseVersion_def readUntil_append emit_def)
qed

lemma hp_parse_res_version:
  assumes "hp_state p = S_RES_VERSION" "hp_buf p = []" "list_all (\<lambda>c. c \<noteq> CHR '' '') v" "\<not> strncase_eq v ''HTTP/1.0''"
  shows "hp_parse (v @ CHR '' '' # r) p =
    hp_parse r (p\<lparr>hp_state := S_RES_STATUS_CODE, hp_events := hp_events p @ [OnVersion v]\<rparr>)"
  by (rule hp_parse_step [OF _ hp_step_res_version [OF assms]]) simp

lemma hp_step_res_code:
  assumes "hp_state p = S_RES_STATUS_CODE" "hp_buf p = []" "n < 2 ^ 31"
  shows "hp_step (to_string n @ CHR '' '' # r) p =
      Inr (r, p\<lparr>hp_state := S_RES_STATUS_NAME, hp_events := hp_events p @ [OnStatusCode (int n)]\<rparr>)"
proof -
  have "list_all (\<lambda>c. c \<noteq> CHR '' '') (to_string n)" using to_string_chr_ne(2) by (auto simp: list_all_iff)
  then show ?thesis
    using assms by (simp add: hp_step_def parseResponseStatusCode_def readUntil_append emit_def)
qed

lemma hp_parse_res_code:
  assumes "hp_state p = S_RES_STATUS_CODE" "hp_buf p = []" "n < 2 ^ 31"
  shows "hp_parse (to_string n @ CHR '' '' # r) p =
    hp_parse r (p\<lparr>hp_state := S_RES_STATUS_NAME, hp_events := hp_events p @ [OnStatusCode (int n)]\<rparr>)"
  by (rule hp_parse_step [OF _ hp_step_res_code [OF assms]]) simp

lemma hp_step_res_name:
  assumes "hp_state p = S_RES_STATUS_NAME" "hp_buf p = []" "list_all (\<lambda>c. c \<noteq> CHR 0x0A) v"
    "v = [] \<or> last v \<noteq> CHR 0x0D"
  shows "hp_step (v @ crlf @ r) p =
      Inr (r, p\<lparr>hp_state := S_HEADER, hp_events := hp_events p @ [OnStatusName v]\<rparr>)"
proof -
  have "list_all (\<lambda>c. c \<noteq> CHR 0x0A) (v @ [CHR 0x0D])" using assms(3) by simp
  note ru = readUntil_append [OF this, of r p]
  show ?thesis
    using assms ru
    by (simp add: hp_step_def parseResponseStatusName_def emit_def strip_cr_snoc strip_cr_id)
qed

lemma hp_parse_res_name:
  assumes "hp_state p = S_RES_STATUS_NAME" "hp_buf p = []" "list_all (\<lambda>c. c \<noteq> CHR 0x0A) v"
    "v = [] \<or> last v \<noteq> CHR 0x0D"
  shows "hp_parse (v @ crlf @ r) p =
    hp_parse r (p\<lparr>hp_state := S_HEADER, hp_events := hp_events p @ [OnStatusName v]\<rparr>)"
  by (rule hp_parse_step [OF _ hp_step_res_name [OF assms]]) simp

lemma toLower_literals [simp]:
  "toLower ''Content-Length'' = ''content-length''" "toLower ''Connection'' = ''connection''"
  "toLower ''Close'' = ''close''"
  by (simp_all add: toLower_def tolower_def flip: code_inject)

lemma reply_header_plain: "reply_header h \<Longrightarrow> plain_header PARSE_HTTP_RESPONSE h"
proof -
  assume r: "reply_header h"
  obtain k v where h: "h = (k, v)" by fastforce
  have wf: "header_wf (k, v)" "k = toLower k" and nc: "\<not> (k = ''connection'' \<and> toLower v = ''close'')"
    using r h by (auto simp: reply_header_def header_wf_def Let_def)
  have 1: "\<not> (hp_expect_body p \<and> length k = 14 \<and> strncase_eq k ''Content-Length'')" for p :: http_parser
    using wf strncase_eq_iff [of k "''Content-Length''"] by (auto simp: header_wf_def)
  have 2: "\<not> (length k = 10 \<and> strncase_eq k ''Connection'' \<and> length v = 5 \<and> strncase_eq v ''Close'')"
    using wf(2) nc strncase_eq_iff [of k "''Connection''"] strncase_eq_iff [of v "''Close''"] by auto
  have "processHeader k v p = Inr (emit (OnHeader k v) p)" for p
    unfolding processHeader_def using 1 [of p] 2 by (simp only: if_not_P bindE_simps Let_def) auto
  then show ?thesis using wf h by (auto simp: plain_header_def header_wf_def list_all_iff)
qed

lemma content_length_key: "strncase_eq ''content-length'' ''Content-Length''"
  by code_simp

definition client_parser :: http_parser where
  "client_parser = hp_new PARSE_HTTP_RESPONSE"

definition response_events :: "http_response \<Rightarrow> http_event list" where
  "response_events r =
     [OnVersion (hm_version r), OnStatusCode (res_code r), OnStatusName (res_status r)] @
     map (\<lambda>(k, v). OnHeader k v) (hm_headers r) @ [OnHeadersComplete] @
     (if hm_body r = [] then [] else [OnBodyChunk (hm_body r)])"

lemma hp_parse_response_text:
  assumes "response_wf r"
  shows "\<exists>p. hp_parse (response_text r) client_parser = Inr p \<and> hp_state p = S_DONE \<and>
    hp_events p = response_events r \<and> hp_expected p = word_of_nat (length (hm_body r)) \<and> hp_read p = hp_expected p"
proof -
  note wf = assms [unfolded response_wf_def]
  have ws: "list_all (\<lambda>c. c \<noteq> CHR '' '') (hm_version r)" "list_all (\<lambda>c. c \<noteq> CHR 0x0A) (res_status r)"
    "res_status r = [] \<or> last (res_status r) \<noteq> CHR 0x0D" "nat (res_code r) < 2 ^ 31"
    using wf by (auto simp: list_all_iff nat_less_iff)
  have hs: "list_all (plain_header PARSE_HTTP_RESPONSE) (own_headers r)"
    using wf reply_header_plain by (auto simp: list_all_iff)
  let ?es = "[OnVersion (hm_version r), OnStatusCode (res_code r), OnStatusName (res_status r)] @
      map (\<lambda>(k, v). OnHeader k v) (own_headers r)"
  let ?t = "headers_text (sized_headers (hm_body r)) @ crlf @ hm_body r"
  let ?p1 = "client_parser\<lparr>hp_state := S_HEADER, hp_events := ?es\<rparr>"
  have app: "headers_text (xs @ ys) = headers_text xs @ headers_text ys" for xs ys
    by (induction xs rule: headers_text.induct) auto
  let ?q = "client_parser\<lparr>hp_state := S_RES_STATUS_NAME, hp_events := [OnVersion (hm_version r), OnStatusCode (res_code r)]\<rparr>"
  have "hp_parse (response_text r) client_parser =
      hp_parse (res_status r @ crlf @ headers_text (own_headers r) @ ?t) ?q"
    using wf ws
    by (simp add: response_text_def hp_parse_res_version hp_parse_res_code int_to_string_nat
        client_parser_def hp_new_def hp_start_def app)
  also have "\<dots> = hp_parse (headers_text (own_headers r) @ ?t) (?q\<lparr>hp_state := S_HEADER,
      hp_events := hp_events ?q @ [OnStatusName (res_status r)]\<rparr>)"
    by (rule hp_parse_res_name [OF _ _ ws(2,3)]) (simp_all add: client_parser_def hp_new_def)
  also have "\<dots> = hp_parse ?t ?p1"
    using hs by (simp add: hp_parse_plain_headers client_parser_def hp_new_def)
  finally have 1: "hp_parse (response_text r) client_parser = hp_parse ?t ?p1" .
  show ?thesis
  proof (cases "hm_body r = []")
    case True
    then have "hp_parse (response_text r) client_parser = Inr (?p1\<lparr>hp_state := S_DONE, hp_events := ?es @ [OnHeadersComplete]\<rparr>)"
      using 1 hp_parse_blank_line [of ?p1 "[]"] by (simp add: sized_headers_def client_parser_def hp_new_def)
    moreover have "own_headers r = hm_headers r" using True by (simp add: own_headers_def)
    ultimately show ?thesis using True by (simp add: response_events_def client_parser_def hp_new_def)
  next
    case False
    let ?n = "length (hm_body r)"
    have "hp_parse ?t ?p1 = Inr (?p1\<lparr>hp_state := S_DONE, hp_expected := word_of_nat ?n, hp_read := word_of_nat ?n,
        hp_events := ?es @ [OnHeader ''content-length'' (to_string ?n), OnHeadersComplete, OnBodyChunk (hm_body r)]\<rparr>)"
      using hp_parse_sized_body [of ?p1 "hm_body r" "''content-length''"] wf False
      by (simp add: sized_headers_def client_parser_def hp_new_def content_length_key del: strncase_eq.simps)
    moreover have "hm_headers r = own_headers r @ [(''content-length'', to_string ?n)]"
      using wf False by (simp add: sized_headers_def)
    ultimately show ?thesis using 1 False by (simp add: response_events_def)
  qed
qed

text \<open>A response whose lines are within the limits of the parser is accepted in whatever pieces it arrives.\<close>

definition response_fits :: "http_response \<Rightarrow> bool" where
  "response_fits r \<longleftrightarrow>
     length (hm_version r) \<le> kMaxVersionSize \<and> length (res_status r) + 1 \<le> kMaxVersionSize \<and>
     list_all header_fits (own_headers r) \<and> length (response_text r) < 2 ^ 64"

lemma response_tokens_fit:
  assumes "response_wf r" "response_fits r"
  shows "tokens_fit (response_text r) client_parser"
proof -
  note wf = assms(1) [unfolded response_wf_def] and fits = assms(2) [unfolded response_fits_def]
  let ?n = "nat (res_code r)"
  have c: "list_all (\<lambda>c. c \<noteq> CHR '' '') (hm_version r)" "list_all (\<lambda>c. c \<noteq> CHR 0x0A) (res_status r)"
    "res_status r = [] \<or> last (res_status r) \<noteq> CHR 0x0D" "list_all (\<lambda>c. c \<noteq> CHR 0x0A) (res_status r @ [CHR 0x0D])"
    using wf by (auto simp: list_all_iff)
  have code: "?n < 2 ^ 31" "int ?n = res_code r" "list_all (\<lambda>c. c \<noteq> CHR '' '') (to_string ?n)"
    using wf to_string_chr_ne(2) by (auto simp: nat_less_iff list_all_iff)
  have "?n < 10 ^ Suc 9" using code(1) by simp
  from length_to_string_le [OF this] have len: "length (to_string ?n) \<le> kMaxURISize" by (simp add: kMaxURISize_def)
  let ?t = "headers_text (sized_headers (hm_body r)) @ crlf @ hm_body r"
  let ?h = "headers_text (own_headers r) @ ?t"
  let ?e = "[OnVersion (hm_version r), OnStatusCode (res_code r), OnStatusName (res_status r)]"
  let ?p1 = "client_parser\<lparr>hp_state := S_RES_STATUS_CODE, hp_events := take 1 ?e\<rparr>"
  let ?p2 = "client_parser\<lparr>hp_state := S_RES_STATUS_NAME, hp_events := take 2 ?e\<rparr>"
  let ?p3 = "client_parser\<lparr>hp_state := S_HEADER, hp_events := ?e\<rparr>"
  let ?p4 = "client_parser\<lparr>hp_state := S_HEADER, hp_events := ?e @ map (\<lambda>(k, v). OnHeader k v) (own_headers r)\<rparr>"
  note p0 = client_parser_def hp_new_def hp_start_def
  have app: "headers_text (xs @ ys) = headers_text xs @ headers_text ys" for xs ys
    by (induction xs rule: headers_text.induct) auto
  have wire: "response_text r = hm_version r @ '' '' @ to_string ?n @ '' '' @ res_status r @ crlf @ ?h"
    using wf app by (simp add: response_text_def int_to_string_nat)
  have "tokens_fit ?t ?p4"
  proof (cases "hm_body r = []")
    case True
    then show ?thesis using tokens_fit_blank_line [of ?p4 "[]"] by (simp add: p0 sized_headers_def)
  next
    case False
    then show ?thesis
      using tokens_fit_sized_body [of ?p4 "hm_body r" "''content-length''"] wf
      by (simp add: p0 sized_headers_def content_length_key del: strncase_eq.simps)
  qed
  then have "tokens_fit ?h ?p3"
    using tokens_fit_plain_headers [of ?p3 "own_headers r" ?t] wf fits reply_header_plain by (auto simp: p0 list_all_iff)
  then have "tokens_fit (res_status r @ crlf @ ?h) ?p2"
    using tokens_fit_line [OF _ _ _ c(4), of _ ?p2 ?p3] hp_step_res_name [OF _ _ c(2,3), of ?p2] fits by (simp add: p0)
  then have "tokens_fit (to_string ?n @ '' '' @ res_status r @ crlf @ ?h) ?p1"
    using tokens_fit_line [OF _ _ _ code(3), of _ ?p1 ?p2] hp_step_res_code [OF _ _ code(1), of ?p1] len code(2)
    by (simp add: p0)
  then show ?thesis
    unfolding wire using tokens_fit_line [OF _ _ _ c(1), of _ client_parser ?p1] hp_step_res_version [OF _ _ c(1)] wf fits
    by (simp add: p0)
qed

lemma response_chunks_accepted:
  assumes "response_wf r" "response_fits r" "concat cs = response_text r"
  shows "\<exists>p. hp_parse_chunks cs client_parser = Inr p"
proof -
  obtain q where "hp_parse (response_text r) client_parser = Inr q" "hp_read q = hp_expected q"
    using hp_parse_response_text [OF assms(1)] by blast
  with hp_parse_chunks_split [of cs client_parser q] response_tokens_fit [OF assms(1,2)] assms(2,3)
  show ?thesis by (auto simp: response_fits_def client_parser_def hp_new_def)
qed

section \<open>No piece of a response is complete\<close>

definition body_read :: "http_parser \<Rightarrow> string" where
  "body_read p = snd (observe (hp_events p))"

lemma body_read_emit [simp]:
  "body_read (emit e p) = body_read p @ body_of e" "body_read (p\<lparr>hp_state := st\<rparr>) = body_read p"
  "body_read (p\<lparr>hp_buf := b\<rparr>) = body_read p" "body_read (p\<lparr>hp_expected := w\<rparr>) = body_read p"
  "body_read (p\<lparr>hp_read := w\<rparr>) = body_read p"
  by (simp_all add: body_read_def observe_def emit_def)

lemma readBody_body:
  "readBody a p = Inr (r, p') \<Longrightarrow> body_read p' = body_read p @ a \<and> hp_expected p' = hp_expected p \<and>
     hp_read p' = hp_read p + word_of_nat (length a) \<and>
     hp_state p' = (if hp_read p' = hp_expected p then S_DONE else hp_state p)"
  by (auto simp: readBody_def Let_def emit_def body_read_def observe_def split: if_splits)

text \<open>What follows the end of a message is taken for body.\<close>

lemma hp_parse_suffix:
  "hp_parse a p = Inr p1 \<Longrightarrow> hp_state p1 = S_DONE \<Longrightarrow> hp_parse (a @ b) p = Inr q \<Longrightarrow>
   hp_expected q = hp_expected p1 \<and> body_read q = body_read p1 @ b"
proof (induction a p rule: hp_parse.induct)
  case (1 a p)
  show ?case
  proof (cases "a = []")
    case True
    then have p: "p1 = p" "hp_parse b p = Inr q" using "1.prems" by auto
    show ?thesis
    proof (cases "b = []")
      case False
      then obtain r q1 where st: "hp_step b p = Inr (r, q1)" "hp_parse r q1 = Inr q"
        using p(2) by (subst (asm) hp_parse.simps) (auto split: sum.splits)
      with hp_step_body [of p b r q1] readBody_body [of b p "[]" q1] p(1) "1.prems"(2) show ?thesis by simp
    qed (use p in simp)
  next
    case False
    then obtain r p' where st: "hp_step a p = Inr (r, p')" and rest: "hp_parse r p' = Inr p1"
      using "1.prems"(1) by (subst (asm) hp_parse.simps) (auto split: sum.splits)
    show ?thesis
    proof (cases "hp_delim (hp_state p)")
      case None
      note e = hp_step_body [OF None st]
      then have p1: "p1 = p'" using rest by simp
      obtain r' q1 where st': "hp_step (a @ b) p = Inr (r', q1)" and rest': "hp_parse r' q1 = Inr q"
        using "1.prems"(3) False by (subst (asm) hp_parse.simps) (auto split: sum.splits)
      with hp_step_body [OF None st'] readBody_body [of a p "[]" p'] readBody_body [of "a @ b" p "[]" q1] e p1
      show ?thesis by simp
    next
      case (Some d)
      show ?thesis
      proof (cases "d \<in> set a")
        case True
        from hp_step_found [OF Some this st] have "hp_step (a @ b) p = Inr (r @ b, p')" by blast
        then have "hp_parse (a @ b) p = hp_parse (r @ b) p'" using False by (intro hp_parse_step) auto
        with "1.IH" [OF False st refl rest "1.prems"(2)] "1.prems"(3) show ?thesis by simp
      next
        case nf: False
        from hp_step_not_found [OF Some nf st] rest have "hp_state p1 = hp_state p" by auto
        then show ?thesis using Some "1.prems"(2) by simp
      qed
    qed
  qed
qed

text \<open>The byte count and the state agree, until data is read after the end.\<close>

definition counted :: "http_parser \<Rightarrow> bool" where
  "counted p \<longleftrightarrow> hp_read p = word_of_nat (length (body_read p)) \<and>
     (hp_delim (hp_state p) \<noteq> None \<longrightarrow> body_read p = []) \<and>
     (hp_state p = S_DONE \<longrightarrow> hp_read p = hp_expected p \<or> hp_expected p = 0)"

lemma hp_step_head_counted:
  assumes "hp_step a p = Inr (r, p')" "hp_delim (hp_state p) \<noteq> None"
  shows "body_read p' = body_read p \<and> hp_read p' = hp_read p \<and> (hp_state p' = S_DONE \<longrightarrow> hp_expected p' = 0)"
  using assms
  by (cases "hp_state p")
     (auto simp: hp_step_def hp_handler_defs Let_def bindE_eq_Inr check_size_def emit_def body_read_def observe_def
       readUntil_def processHeader_def split: if_splits option.splits sum.splits)

lemma hp_step_counted:
  assumes "hp_step a p = Inr (r, p')" "counted p" "hp_state p = S_DONE \<longrightarrow> hp_expected p = 0"
  shows "counted p' \<and> (r \<noteq> [] \<longrightarrow> hp_state p' = S_DONE \<longrightarrow> hp_expected p' = 0)"
proof (cases "hp_delim (hp_state p)")
  case None
  note e = hp_step_body [OF None assms(1)]
  then have b: "body_read p' = body_read p @ a" "hp_expected p' = hp_expected p"
    "hp_read p' = hp_read p + word_of_nat (length a)"
    "hp_state p' = (if hp_read p' = hp_expected p then S_DONE else hp_state p)"
    using readBody_body [of a p "[]" p'] by auto
  then show ?thesis
    using e assms(2,3) None by (auto simp: counted_def)
next
  case (Some d)
  then show ?thesis
    using hp_step_head_counted [OF assms(1)] assms(2) by (auto simp: counted_def)
qed

lemma hp_parse_counted:
  "hp_parse a p = Inr p' \<Longrightarrow> counted p \<Longrightarrow> hp_state p = S_DONE \<longrightarrow> hp_expected p = 0 \<Longrightarrow> counted p'"
proof (induction a p rule: hp_parse.induct)
  case (1 a p)
  show ?case
  proof (cases "a = []")
    case False
    then obtain r p1 where st: "hp_step a p = Inr (r, p1)" and rest: "hp_parse r p1 = Inr p'"
      using "1.prems"(1) by (subst (asm) hp_parse.simps) (auto split: sum.splits)
    note c = hp_step_counted [OF st "1.prems"(2,3)]
    show ?thesis
    proof (cases "r = []")
      case True
      then show ?thesis using c rest by simp
    next
      case r: False
      then show ?thesis using c "1.IH" [OF False st refl rest] by blast
    qed
  qed (use "1.prems" in simp)
qed

lemma word_of_nat_u64_inj:
  assumes "a < 2 ^ 64" "b < 2 ^ 64" "(word_of_nat a :: u64) = word_of_nat b"
  shows "a = b"
proof -
  have "unat (word_of_nat a :: u64) = a" "unat (word_of_nat b :: u64) = b"
    using assms(1,2) by (simp_all add: unat_of_nat)
  then show ?thesis using assms(3) by metis
qed

lemma response_prefix_open:
  assumes "response_wf r" "response_text r = a @ b" "b \<noteq> []" "hp_parse a client_parser = Inr p1"
  shows "hp_state p1 \<noteq> S_DONE"
proof
  assume d: "hp_state p1 = S_DONE"
  let ?n = "length (hm_body r)"
  obtain q where q: "hp_parse (a @ b) client_parser = Inr q" "hp_events q = response_events r"
    "hp_expected q = word_of_nat ?n"
    using hp_parse_response_text [OF assms(1)] assms(2) by auto
  have n: "?n < 2 ^ 64" using assms(1) by (simp add: response_wf_def)
  have "body_read q = hm_body r"
    using q(2) by (auto simp: body_read_def response_events_def observe_def comp_def case_prod_beta)
  then have s: "hm_body r = body_read p1 @ b" "hp_expected p1 = word_of_nat ?n"
    using hp_parse_suffix [OF assms(4) d q(1)] q(3) by simp_all
  have "counted client_parser"
    by (simp add: counted_def client_parser_def hp_new_def hp_start_def body_read_def observe_def)
  then have "counted p1"
    using hp_parse_counted [OF assms(4)] by (simp add: client_parser_def hp_new_def hp_start_def)
  then have "(word_of_nat (length (body_read p1)) :: u64) = word_of_nat ?n \<or> (word_of_nat ?n :: u64) = 0"
    using d s(2) by (auto simp: counted_def)
  moreover have "length (body_read p1) < ?n" using s(1) assms(3) by simp
  ultimately show False
    using n word_of_nat_u64_inj [of "length (body_read p1)" ?n] word_of_nat_u64_inj [of ?n 0] by auto
qed

section \<open>Responses in pieces\<close>

text \<open>No piece but the last completes the message.\<close>

fun chunks_open :: "string list \<Rightarrow> http_parser \<Rightarrow> bool" where
  "chunks_open [] p = True"
| "chunks_open (c # cs) p =
     (case hp_parse c p of
        Inr p1 \<Rightarrow> cs = [] \<or> hp_state p1 \<noteq> S_DONE \<and> chunks_open cs p1
      | Inl e \<Rightarrow> True)"

lemma hp_parse_chunks_open:
  "chunks_open cs p \<Longrightarrow> hp_parse_chunks cs p = Inr q \<Longrightarrow> \<exists>q'. hp_parse (concat cs) p = Inr q' \<and> hp_equiv q' q"
proof (induction cs arbitrary: p)
  case (Cons c cs)
  then obtain p1 where p1: "hp_parse c p = Inr p1" "hp_parse_chunks cs p1 = Inr q"
    by (auto simp: bindE_eq_Inr)
  show ?case
  proof (cases "cs = []")
    case True
    then show ?thesis using p1 by simp
  next
    case False
    then have op: "hp_state p1 \<noteq> S_DONE" "chunks_open cs p1" using Cons.prems(1) p1(1) by auto
    obtain q1 where "hp_parse (concat cs) p1 = Inr q1" "hp_equiv q1 q" using Cons.IH [OF op(2) p1(2)] by blast
    then show ?thesis using hp_parse_append_open [OF p1(1)] op(1) hp_equiv_trans by fastforce
  qed
qed simp

lemma chunks_open_snoc:
  assumes "chunks_open cs p" "\<And>p'. hp_parse_chunks cs p = Inr p' \<Longrightarrow> cs \<noteq> [] \<Longrightarrow> hp_state p' \<noteq> S_DONE"
  shows "chunks_open (cs @ [c]) p"
  using assms
proof (induction cs arbitrary: p)
  case Nil
  then show ?case by (simp split: sum.split)
next
  case (Cons d cs)
  show ?case
  proof (cases "hp_parse d p")
    case (Inr p1)
    show ?thesis
    proof (cases "cs = []")
      case True
      then show ?thesis using Cons.prems(2) Inr by (simp split: sum.split)
    next
      case False
      then show ?thesis using Cons.IH [of p1] Cons.prems Inr by simp
    qed
  qed simp
qed

lemma response_chunks_open:
  assumes "response_wf r" "response_text r = concat cs @ rest" "[] \<notin> set cs"
  shows "chunks_open cs client_parser"
  using assms(2,3)
proof (induction cs arbitrary: rest rule: rev_induct)
  case (snoc c cs)
  have op: "chunks_open cs client_parser" using snoc.IH [of "c @ rest"] snoc.prems by simp
  show ?case
  proof (rule chunks_open_snoc [OF op])
    fix p' assume p': "hp_parse_chunks cs client_parser = Inr p'"
    obtain q where q: "hp_parse (concat cs) client_parser = Inr q" "hp_equiv q p'"
      using hp_parse_chunks_open [OF op p'] by blast
    have "hp_state q \<noteq> S_DONE"
      using response_prefix_open [OF assms(1) _ _ q(1), of "c @ rest"] snoc.prems by auto
    then show "hp_state p' \<noteq> S_DONE" using q(2) by (auto simp: hp_equiv_def dest: arg_cong [of _ _ hp_state])
  qed
qed simp

definition response_of :: "http_parser \<Rightarrow> http_response" where
  "response_of p = fold res_event (hp_events p) res_new"


lemma res_event_body: "\<not> is_body e \<Longrightarrow> appendBody b (res_event e r) = res_event e (appendBody b r)"
  by (cases e) (simp_all add: is_body_def appendBody_def addHeader_def)

lemma response_of_equiv:
  assumes "hp_equiv p q"
  shows "response_of p = response_of q"
proof -
  have obs: "fold res_event es res_new = appendBody (snd (observe es)) (fold res_event (fst (observe es)) res_new)" for es
    by (rule fold_event_observe) (simp_all add: res_event_body)
  show ?thesis
    using assms obs [of "hp_events p"] obs [of "hp_events q"] by (simp add: response_of_def hp_equiv_def)
qed

lemma fold_res_headers:
  "fold res_event (map (\<lambda>(k, v). OnHeader k v) hs) r =
     r\<lparr>hm_headers := hm_headers r @ map (\<lambda>(k, v). (toLower k, v)) hs\<rparr>"
  by (induction hs arbitrary: r) (auto simp: addHeader_def)

lemma content_length_lower: "toLower ''content-length'' = ''content-length''"
  by code_simp

lemma response_headers_lower:
  assumes "response_wf r"
  shows "map (\<lambda>(k, v). (toLower k, v)) (hm_headers r) = hm_headers r"
proof -
  have "list_all header_wf (own_headers r)" and hs: "hm_headers r = own_headers r @ sized_headers (hm_body r)"
    using assms by (auto simp: response_wf_def list_all_iff reply_header_def)
  then have "map (\<lambda>(k, v). (toLower k, v)) (own_headers r) = own_headers r" using header_wf_lower by blast
  moreover have "map (\<lambda>(k, v). (toLower k, v)) (sized_headers b) = sized_headers b" for b
    using content_length_lower by (simp add: sized_headers_def)
  ultimately show ?thesis by (subst (1 2) hs) (simp only: map_append)
qed

lemma response_of_events:
  assumes "response_wf r" "hp_events p = response_events r"
  shows "response_of p = r"
proof -
  have "fold res_event (response_events r) res_new = r"
    using response_headers_lower [OF assms(1)]
    by (cases r) (simp add: response_events_def fold_res_headers res_new_def appendBody_def)
  then show ?thesis using assms(2) by (simp add: response_of_def)
qed

lemma response_in_chunks:
  assumes "response_wf r" "concat cs = response_text r" "[] \<notin> set cs" "hp_parse_chunks cs client_parser = Inr p"
  shows "hp_state p = S_DONE \<and> response_of p = r \<and> chunks_open cs client_parser"
proof -
  have op: "chunks_open cs client_parser"
    using response_chunks_open [OF assms(1) _ assms(3), of "[]"] assms(2) by simp
  obtain q where q: "hp_parse (response_text r) client_parser = Inr q" "hp_equiv q p"
    using hp_parse_chunks_open [OF op assms(4)] assms(2) by auto
  obtain q' where q': "hp_parse (response_text r) client_parser = Inr q'" "hp_state q' = S_DONE"
    "hp_events q' = response_events r" using hp_parse_response_text [OF assms(1)] by blast
  then have "hp_state p = S_DONE" "response_of p = r"
    using q response_of_equiv [OF q(2)] response_of_events [OF assms(1) q'(3)]
    by (auto simp: hp_equiv_def dest: arg_cong [of _ _ hp_state])
  then show ?thesis using op by simp
qed

section \<open>Properties\<close>

text \<open>C8. A well-formed response with a body of known size survives the network: when the text the generator writes
  arrives in any non-empty pieces, and the version, the status name and the header lines are within the limits the parser
  sets for unfinished lines (\<open>response_fits\<close>: 16 characters for the version, 15 for the status name, 65532 for a header),
  every piece is accepted, the parser completes exactly with the last piece, and the callbacks rebuild the response. A
  response beyond the limits is rebuilt all the same whenever its pieces are accepted. Well-formed (\<open>response_wf\<close>): a
  version of at least four characters that is not HTTP/1.0, without spaces; a status code of 31 bits; no line breaks, and no
  dollar signs, which the generator takes for placeholders; lower-case header names without colons, no \<open>connection: close\<close>;
  the content length as the last header exactly when there is a body.\<close>

theorem http_response_roundtrip:
  assumes "response_wf r" "concat cs = out" "[] \<notin> set cs" "generate_response sos_write r [] = ret out"
  shows "(response_fits r \<longrightarrow> (\<exists>p. hp_parse_chunks cs client_parser = Inr p)) \<and>
    (\<forall>p. hp_parse_chunks cs client_parser = Inr p \<longrightarrow>
       hp_state p = S_DONE \<and> response_of p = r \<and> chunks_open cs client_parser)"
proof -
  obtain out' where "generate_response sos_write r [] = ret out'" "bytes_of out' = bytes_of (response_text r)"
    using sos.generate_response_ok [where out = "[]" and r = r] assms(1) by auto
  then have cs: "concat cs = response_text r" using assms(2,4) bytes_of_inject by auto
  from response_chunks_accepted [OF assms(1) _ cs] response_in_chunks [OF assms(1) cs assms(3)] show ?thesis by blast
qed

theorem http_response_roundtrip_witness:
  "\<exists>p. hp_parse_chunks [''HTTP/1.'', ''1 200 OK'' @ crlf @ ''content-length: 3'' @ crlf @ crlf @ ''a'', ''bc''] client_parser = Inr p \<and>
     hp_state p = S_DONE \<and>
     response_of p = \<lparr>hm_version = ''HTTP/1.1'', hm_headers = [(''content-length'', ''3'')], hm_body = ''abc'',
       res_code = 200, res_status = ''OK''\<rparr>"
proof -
  let ?r = "\<lparr>hm_version = ''HTTP/1.1'', hm_headers = [(''content-length'', ''3'')], hm_body = ''abc'',
       res_code = 200, res_status = ''OK''\<rparr> :: http_response"
  let ?cs = "[''HTTP/1.'', ''1 200 OK'' @ crlf @ ''content-length: 3'' @ crlf @ crlf @ ''a'', ''bc'']"
  have "to_string (Suc (Suc (Suc 0))) = ''3''" by code_simp
  then have wf: "response_wf ?r"
    by (simp add: response_wf_def own_headers_def sized_headers_def tolower_def)
  have "response_text ?r = concat ?cs" by code_simp
  then have fits: "response_fits ?r"
    by (simp add: response_fits_def own_headers_def kMaxVersionSize_def)
  have gen: "generate_response sos_write ?r [] = ret (concat ?cs)" by code_simp
  from http_response_roundtrip [OF wf refl _ gen] fits show ?thesis by auto
qed

text \<open>The limit of sixteen characters that the parser sets for a status name, when a piece ends inside it, is too
  small for the names the library itself sends, such as that of status 500: whether such a response is accepted depends
  on how the network cuts it.\<close>

theorem status_name_limit:
  assumes "list_all (\<lambda>c. c \<noteq> CHR '' '') v" "\<not> strncase_eq v ''HTTP/1.0''" "n < 2 ^ 31" "16 < length s"
    "list_all (\<lambda>c. c \<noteq> CHR 0x0A) s"
  shows "hp_parse (v @ '' '' @ to_string n @ '' '' @ s) client_parser = Inl kParseError"
proof -
  let ?q = "client_parser\<lparr>hp_state := S_RES_STATUS_NAME, hp_events := [OnVersion v, OnStatusCode (int n)]\<rparr>"
  have "hp_parse (v @ '' '' @ to_string n @ '' '' @ s) client_parser = hp_parse s ?q"
    using assms(1-3) by (simp add: hp_parse_res_version hp_parse_res_code client_parser_def hp_new_def hp_start_def)
  also have "readUntil (CHR 0x0A) s ?q = (False, [], ?q\<lparr>hp_buf := s\<rparr>)"
    using readUntil_not_found(1) [of "CHR 0x0A" s ?q] assms(5) by (auto simp: list_all_iff client_parser_def hp_new_def)
  then have "hp_step s ?q = Inl kParseError"
    using assms(4) by (simp add: hp_step_def parseResponseStatusName_def check_size_def kMaxVersionSize_def)
  then have "hp_parse s ?q = Inl kParseError" using assms(4) by (subst hp_parse.simps) auto
  finally show ?thesis .
qed

theorem status_name_limit_witness:
  "hp_parse (''HTTP/1.1 500 Internal Server E'') client_parser = Inl kParseError"
proof -
  have "to_string 500 = ''500''" by code_simp
  then show ?thesis
    using status_name_limit [of "''HTTP/1.1''" 500 "''Internal Server E''"] by (simp add: tolower_def)
qed

end
