(* ===== verification/Stx_HTTPClient.thy ===== *)
theory Stx_HTTPClient
  imports Stx_HTTPResponse Stx_HTTPServer Stx_Future
begin

text \<open>
  The client side of an HTTP connection: \<open>http/httpclientconnection.cc\<close>, the handler that collects the response
  and fulfils a promise (\<open>http/httpresponsefuture.cc\<close>) and the pool of connections
  (\<open>http/httpconnectionpool.cc\<close>). As in theory \<open>Stx_HTTPServer\<close> the socket and the scheduler are the
  environment: \<open>cc_reading\<close> and \<open>cc_writing\<close> are the registered interests, \<open>cc_on_ready\<close> the tasks that
  wait for the next wakeup of the connection, \<open>cc_tasks\<close> the tasks the scheduler may run. The response
  handler is part of the record of the connection it is bound to. Statistics are left out.
\<close>

section \<open>HTTPClientConnection\<close>

datatype client_state = S_CONN_IDLE | S_CONN_BUSY | S_CONN_CLOSED

datatype client_task = ParkConnection | ResponseComplete

record client_conn =
  cc_state :: client_state
  cc_parser :: http_parser
  cc_buf :: string
  cc_mark :: nat
  cc_keepalive :: bool
  cc_reading :: bool
  cc_writing :: bool
  cc_on_ready :: "client_task list"
  cc_tasks :: "client_task list"
  cc_response :: http_response
  cc_promise :: "(http_response, nat) promise"
  cc_sent :: string

definition client_new :: client_conn where
  "client_new =
     \<lparr>cc_state = S_CONN_IDLE, cc_parser = hp_new PARSE_HTTP_RESPONSE, cc_buf = [], cc_mark = 0, cc_keepalive = False,
      cc_reading = False, cc_writing = False, cc_on_ready = [], cc_tasks = [], cc_response = res_new,
      cc_promise = promise_new, cc_sent = []\<rparr>"

definition isIdle :: "client_conn \<Rightarrow> bool" where
  "isIdle c \<longleftrightarrow> cc_state c = S_CONN_IDLE"

definition cc_awaitRead :: "client_conn \<Rightarrow> client_conn" where
  "cc_awaitRead c = c\<lparr>cc_reading := True\<rparr>"

definition cc_awaitWrite :: "client_conn \<Rightarrow> client_conn" where
  "cc_awaitWrite c = c\<lparr>cc_writing := True\<rparr>"

definition cc_close :: "client_conn \<Rightarrow> client_conn result" where
  "cc_close c =
     (if cc_state c = S_CONN_CLOSED then Inl kIllegalStateError
      else Inr (c\<lparr>cc_state := S_CONN_CLOSED, cc_reading := False, cc_writing := False\<rparr>))"

definition cc_keepalive_op :: "client_conn \<Rightarrow> client_conn" where
  "cc_keepalive_op c =
     c\<lparr>cc_state := S_CONN_IDLE, cc_parser := hp_reset (cc_parser c), cc_buf := [], cc_mark := 0, cc_keepalive := False\<rparr>"

text \<open>\<open>Wakeup::wakeup\<close>: the tasks registered for the next wakeup become runnable.\<close>

definition cc_wakeup :: "client_conn \<Rightarrow> client_conn" where
  "cc_wakeup c = c\<lparr>cc_tasks := cc_tasks c @ cc_on_ready c, cc_on_ready := []\<rparr>"

definition runOnNextWakeup :: "client_task \<Rightarrow> client_conn \<Rightarrow> client_conn" where
  "runOnNextWakeup t c = c\<lparr>cc_on_ready := cc_on_ready c @ [t]\<rparr>"

text \<open>\<open>HTTPResponseFuture::onError\<close> and \<open>onResponseComplete\<close>.\<close>

definition onError :: "stx_error \<Rightarrow> client_conn \<Rightarrow> client_conn result" where
  "onError e c = map_sum id (\<lambda>(pr, calls). c\<lparr>cc_promise := pr\<rparr>) (promise_failure (Some e) (cc_promise c))"

definition onResponseComplete :: "client_conn \<Rightarrow> client_conn result" where
  "onResponseComplete c = map_sum id (\<lambda>(pr, calls). c\<lparr>cc_promise := pr\<rparr>) (promise_success (cc_response c) (cc_promise c))"

definition cc_error :: "stx_error \<Rightarrow> client_conn \<Rightarrow> client_conn result" where
  "cc_error e c = onError e (cc_wakeup c)"

definition executeRequest :: "http_request \<Rightarrow> client_conn \<Rightarrow> client_conn result" where
  "executeRequest request c =
     (if cc_state c \<noteq> S_CONN_IDLE then Inl kIllegalStateError
      else
        (let c = (if req_method request = M_HEAD then c\<lparr>cc_parser := hp_ignoreBody (cc_parser c)\<rparr> else c)
         in case generate_request sos_write request [] of
              Some (Inr out) \<Rightarrow> Inr (cc_awaitWrite (c\<lparr>cc_buf := out, cc_mark := 0, cc_state := S_CONN_BUSY\<rparr>))
            | Some (Inl e) \<Rightarrow> Inl e
            | None \<Rightarrow> Inl UndefinedBehaviour))"

text \<open>The callbacks of the parser hand its events to the response handler.\<close>

definition cc_parsed :: "http_parser \<Rightarrow> client_conn \<Rightarrow> client_conn" where
  "cc_parsed p c =
     c\<lparr>cc_parser := p,
       cc_response := fold res_event (drop (length (hp_events (cc_parser c))) (hp_events p)) (cc_response c)\<rparr>"

definition cc_fail :: "stx_error \<Rightarrow> client_conn \<Rightarrow> client_conn result" where
  "cc_fail e c = bindE (cc_close c) (cc_error e)"

definition cc_complete :: "client_conn \<Rightarrow> client_conn result" where
  "cc_complete c =
     bindE (if cc_keepalive c then Inr (cc_keepalive_op c) else cc_close c) (\<lambda>c.
       Inr (cc_wakeup (runOnNextWakeup ResponseComplete c)))"

definition cc_read :: "read_result \<Rightarrow> client_conn \<Rightarrow> client_conn result" where
  "cc_read r c =
     (let c = c\<lparr>cc_reading := False\<rparr>
      in case r of
           RWouldBlock \<Rightarrow> Inr (cc_awaitRead c)
         | RFailed \<Rightarrow> cc_fail kIOError c
         | RData data \<Rightarrow>
             (case (if data = [] then hp_eof (cc_parser c) else hp_parse data (cc_parser c)) of
                Inl e \<Rightarrow> cc_fail e c
              | Inr p \<Rightarrow>
                  (let c = cc_parsed p c
                   in if hp_state p = S_DONE then cc_complete c else Inr (cc_awaitRead c))))"

definition cc_write :: "write_result \<Rightarrow> client_conn \<Rightarrow> client_conn result" where
  "cc_write r c =
     (let c = c\<lparr>cc_writing := False\<rparr>
      in case r of
           WWouldBlock \<Rightarrow> Inr (cc_awaitWrite c)
         | WFailed \<Rightarrow> cc_fail kIOError c
         | WBytes n \<Rightarrow>
             (let c = c\<lparr>cc_sent := cc_sent c @ take n (drop (cc_mark c) (cc_buf c)), cc_mark := cc_mark c + n\<rparr>
              in Inr (if cc_mark c < length (cc_buf c) then cc_awaitWrite c
                      else cc_awaitRead (c\<lparr>cc_buf := [], cc_mark := 0\<rparr>))))"

section \<open>HTTPConnectionPool\<close>

record conn_pool =
  cp_cache :: "(string \<times> client_conn) list"
  cp_deleted :: nat

definition cache_find :: "string \<Rightarrow> (string \<times> client_conn) list \<Rightarrow> (client_conn \<times> (string \<times> client_conn) list) option" where
  "cache_find addr cache =
     (case find (\<lambda>(a, c). a = addr) cache of
        None \<Rightarrow> None
      | Some (a, c) \<Rightarrow> Some (c, takeWhile (\<lambda>(a, c). a \<noteq> addr) cache @ tl (dropWhile (\<lambda>(a, c). a \<noteq> addr) cache)))"

definition parkConnection :: "string \<Rightarrow> client_conn \<Rightarrow> conn_pool \<Rightarrow> conn_pool" where
  "parkConnection addr c pool =
     (if isIdle c then pool\<lparr>cp_cache := cp_cache pool @ [(addr, c)]\<rparr> else pool\<lparr>cp_deleted := cp_deleted pool + 1\<rparr>)"

text \<open>
  \<open>leaseConnection\<close>, once the socket is connected: a cached connection or a new one, which is parked again at
  its next wakeup.
\<close>

definition leaseConnection :: "string \<Rightarrow> conn_pool \<Rightarrow> client_conn \<times> conn_pool" where
  "leaseConnection addr pool =
     (case cache_find addr (cp_cache pool) of
        Some (c, rest) \<Rightarrow> (runOnNextWakeup ParkConnection c, pool\<lparr>cp_cache := rest\<rparr>)
      | None \<Rightarrow> (runOnNextWakeup ParkConnection client_new, pool))"

definition pool_executeRequest :: "http_request \<Rightarrow> string \<Rightarrow> conn_pool \<Rightarrow> client_conn result \<times> conn_pool" where
  "pool_executeRequest req addr pool =
     (let (c, pool) = leaseConnection addr pool; c = c\<lparr>cc_response := res_new, cc_promise := promise_new\<rparr>
      in (case executeRequest req c of Inr c' \<Rightarrow> Inr c' | Inl e \<Rightarrow> onError e c, pool))"

definition pool_execute_host :: "http_request \<Rightarrow> conn_pool \<Rightarrow> (string \<Rightarrow> string) \<Rightarrow> (client_conn result \<times> conn_pool) result" where
  "pool_execute_host req pool resolve =
     (if \<not> hasHeader ''Host'' req then Inl kRuntimeError
      else Inr (pool_executeRequest req (resolve (getHeader ''Host'' req)) pool))"

section \<open>Events\<close>

datatype client_event = CRead read_result | CWrite write_result | CTask

definition cc_run_task :: "client_task \<Rightarrow> client_conn \<Rightarrow> client_conn result" where
  "cc_run_task t c = (case t of ParkConnection \<Rightarrow> Inr c | ResponseComplete \<Rightarrow> onResponseComplete c)"

fun client_exec :: "client_event \<Rightarrow> client_conn \<Rightarrow> client_conn result option" where
  "client_exec (CRead r) c = (if cc_reading c then Some (cc_read r c) else None)"
| "client_exec (CWrite r) c =
     (if cc_writing c \<and> (case r of WBytes n \<Rightarrow> n \<le> length (cc_buf c) - cc_mark c | _ \<Rightarrow> True)
      then Some (cc_write r c) else None)"
| "client_exec CTask c =
     (case cc_tasks c of [] \<Rightarrow> None | t # ts \<Rightarrow> Some (cc_run_task t (c\<lparr>cc_tasks := ts\<rparr>)))"

fun client_run :: "client_event list \<Rightarrow> client_conn \<Rightarrow> client_conn comp" where
  "client_run [] c = ret c"
| "client_run (ev # evs) c = bindC (client_exec ev c) (client_run evs)"

fun cc_run_tasks :: "client_task list \<Rightarrow> client_conn \<Rightarrow> client_conn result" where
  "cc_run_tasks [] c = Inr c"
| "cc_run_tasks (t # ts) c = bindE (cc_run_task t c) (cc_run_tasks ts)"

section \<open>The phases of a request\<close>

lemma hp_step_events: "hp_step a p = Inr (r, p') \<Longrightarrow> \<exists>es. hp_events p' = hp_events p @ es"
  by (cases "hp_state p")
     (auto simp: hp_step_def hp_handler_defs readBody_def Let_def bindE_eq_Inr check_size_def emit_def
       readUntil_def processHeader_def split: if_splits option.splits sum.splits)

lemma hp_parse_events: "hp_parse a p = Inr p' \<Longrightarrow> \<exists>es. hp_events p' = hp_events p @ es"
proof (induction a p rule: hp_parse.induct)
  case (1 a p)
  show ?case
  proof (cases "a = []")
    case False
    then obtain r p1 where st: "hp_step a p = Inr (r, p1)" "hp_parse r p1 = Inr p'"
      using "1.prems" by (subst (asm) hp_parse.simps) (auto split: sum.splits)
    with "1.IH" [OF False st(1) refl st(2)] hp_step_events [OF st(1)] show ?thesis by auto
  qed (use "1.prems" in simp)
qed

fun client_smooth :: "client_event \<Rightarrow> bool" where
  "client_smooth (CRead r) \<longleftrightarrow> (case r of RData d \<Rightarrow> d \<noteq> [] | RWouldBlock \<Rightarrow> True | RFailed \<Rightarrow> False)"
| "client_smooth (CWrite r) \<longleftrightarrow> r \<noteq> WFailed"
| "client_smooth CTask = True"

fun client_delivered :: "client_event \<Rightarrow> string list" where
  "client_delivered (CRead (RData d)) = [d]"
| "client_delivered ev = []"

definition client_received :: "client_event list \<Rightarrow> string list" where
  "client_received evs = concat (map client_delivered evs)"

text \<open>A promise with a value.\<close>

definition fulfilled :: "'a \<Rightarrow> ('a, 'c) promise" where
  "fulfilled v = promise_new\<lparr>pr_value := Some v, pr_ready := True\<rparr>"

inductive client_phase :: "string \<Rightarrow> client_conn \<Rightarrow> bool" for out where
  Sending: "client_phase out (client_new\<lparr>cc_state := S_CONN_BUSY, cc_buf := out, cc_mark := m, cc_writing := True,
      cc_on_ready := ts, cc_sent := take m out\<rparr>)"
    if "m \<le> length out" "ResponseComplete \<notin> set ts"
| Receiving: "client_phase out (client_new\<lparr>cc_state := S_CONN_BUSY, cc_parser := p, cc_reading := True,
      cc_on_ready := ts, cc_response := response_of p, cc_sent := out\<rparr>)"
    if "hp_state p \<noteq> S_DONE" "ResponseComplete \<notin> set ts"
| Answered: "client_phase out (client_new\<lparr>cc_state := S_CONN_CLOSED, cc_parser := p,
      cc_tasks := ts @ [ResponseComplete], cc_response := response_of p, cc_sent := out\<rparr>)"
    if "hp_state p = S_DONE" "ResponseComplete \<notin> set ts"
| Delivered: "client_phase out (client_new\<lparr>cc_state := S_CONN_CLOSED, cc_parser := p,
      cc_promise := fulfilled (response_of p), cc_response := response_of p, cc_sent := out\<rparr>)"
    if "hp_state p = S_DONE"

lemma phase_client_read:
  assumes "client_phase out c" "cc_reading c" "hp_parse d (cc_parser c) = Inr p" "d \<noteq> []"
  shows "\<exists>c'. cc_read (RData d) c = Inr c' \<and> client_phase out c' \<and> cc_parser c' = p"
  using assms(1)
proof cases
  case (Receiving q ts)
  obtain es where es: "hp_events p = hp_events q @ es" using hp_parse_events [OF assms(3)] Receiving(1) by (auto simp: client_new_def)
  then have r: "fold res_event (drop (length (hp_events q)) (hp_events p)) (response_of q) = response_of p"
    by (simp add: response_of_def)
  show ?thesis
  proof (cases "hp_state p = S_DONE")
    case True
    then show ?thesis
      using client_phase.Answered [OF True Receiving(3), of out] assms(3,4) Receiving(1) r
      by (simp add: cc_read_def cc_parsed_def cc_complete_def cc_close_def cc_wakeup_def runOnNextWakeup_def client_new_def)
  next
    case False
    then show ?thesis
      using client_phase.Receiving [OF False Receiving(3), of out] assms(3,4) Receiving(1) r
      by (simp add: cc_read_def cc_parsed_def cc_awaitRead_def client_new_def)
  qed
qed (use assms(2) in \<open>simp_all add: client_new_def\<close>)

lemma phase_client_write:
  assumes "client_phase out c" "cc_writing c" "n \<le> length (cc_buf c) - cc_mark c"
  shows "\<exists>c'. cc_write (WBytes n) c = Inr c' \<and> client_phase out c' \<and> cc_parser c' = cc_parser c"
  using assms(1)
proof cases
  case (Sending m ts)
  then have mn: "m + n \<le> length out" using assms(3) by (simp add: client_new_def)
  show ?thesis
  proof (cases "m + n < length out")
    case True
    then show ?thesis
      using client_phase.Sending [OF mn Sending(3)] Sending(1)
      by (simp add: cc_write_def cc_awaitWrite_def client_new_def take_add)
  next
    case False
    have "hp_state (hp_new PARSE_HTTP_RESPONSE) \<noteq> S_DONE" by (simp add: hp_new_def hp_start_def)
    from client_phase.Receiving [OF this Sending(3), of out] show ?thesis
      using Sending(1) False mn
      by (simp add: cc_write_def cc_awaitRead_def client_new_def response_of_def hp_new_def take_add [symmetric] Let_def)
  qed
qed (use assms(2) in \<open>simp_all add: client_new_def\<close>)

lemma phase_client_task:
  assumes "client_phase out c" "cc_tasks c = t # ts"
  shows "\<exists>c'. cc_run_task t (c\<lparr>cc_tasks := ts\<rparr>) = Inr c' \<and> client_phase out c' \<and> cc_parser c' = cc_parser c"
  using assms(1)
proof cases
  case (Answered p us)
  then have tu: "us @ [ResponseComplete] = t # ts" using assms(2) by (simp add: client_new_def)
  show ?thesis
  proof (cases us)
    case Nil
    then show ?thesis
      using tu client_phase.Delivered [OF Answered(2), of out] Answered(1)
      by (simp add: cc_run_task_def onResponseComplete_def promise_success_def promise_new_def client_new_def fulfilled_def)
  next
    case (Cons u vs)
    then have "t = ParkConnection" "ts = vs @ [ResponseComplete]" using tu Answered(3) by (cases u; auto)+
    then show ?thesis
      using client_phase.Answered [OF Answered(2), of vs out] Answered Cons
      by (simp add: cc_run_task_def client_new_def)
  qed
qed (use assms(2) in \<open>simp_all add: client_new_def\<close>)

lemma smooth_nonempty: "client_smooth ev \<Longrightarrow> [] \<notin> set (client_delivered ev)"
  by (cases ev rule: client_delivered.cases) auto

lemma phase_client_exec:
  assumes "client_phase out c" "client_exec ev c = Some r" "client_smooth ev"
    "hp_parse_chunks (client_delivered ev) (cc_parser c) = Inr p"
  shows "\<exists>c'. r = Inr c' \<and> client_phase out c' \<and> cc_parser c' = p"
proof (cases ev)
  case (CRead rd)
  then have rd: "cc_reading c" "r = cc_read rd c" using assms(2) by (auto split: if_splits)
  show ?thesis
  proof (cases rd)
    case (RData d)
    then show ?thesis
      using phase_client_read [OF assms(1) rd(1), of d p] rd(2) CRead assms(3,4) by (auto simp: bindE_eq_Inr)
  next
    case RWouldBlock
    then have "r = Inr (c\<lparr>cc_reading := True\<rparr>)" using rd(2) by (simp add: cc_read_def cc_awaitRead_def)
    moreover have "c\<lparr>cc_reading := True\<rparr> = c" using rd(1) by simp
    ultimately show ?thesis using assms(1,4) CRead RWouldBlock by simp
  qed (use CRead assms(3) in simp)
next
  case (CWrite w)
  then have w: "cc_writing c" "r = cc_write w c" using assms(2) by (auto split: if_splits)
  show ?thesis
  proof (cases w)
    case (WBytes n)
    then show ?thesis
      using phase_client_write [OF assms(1) w(1), of n] w(2) CWrite assms(2,4) by (auto split: if_splits)
  next
    case WWouldBlock
    then have "r = Inr (c\<lparr>cc_writing := True\<rparr>)" using w(2) by (simp add: cc_write_def cc_awaitWrite_def)
    moreover have "c\<lparr>cc_writing := True\<rparr> = c" using w(1) by simp
    ultimately show ?thesis using assms(1,4) CWrite by simp
  qed (use CWrite assms(3) in simp)
next
  case CTask
  then obtain t ts where "cc_tasks c = t # ts" "r = cc_run_task t (c\<lparr>cc_tasks := ts\<rparr>)"
    using assms(2) by (auto split: list.splits)
  then show ?thesis using phase_client_task [OF assms(1)] CTask assms(4) by auto
qed

lemma phase_client_run:
  assumes "client_phase out c" "client_run evs c = Some r" "list_all client_smooth evs"
    "hp_parse_chunks (client_received evs) (cc_parser c) = Inr p"
  shows "\<exists>c'. r = Inr c' \<and> client_phase out c' \<and> cc_parser c' = p"
  using assms
proof (induction evs arbitrary: c)
  case (Cons ev evs)
  obtain r1 where r1: "client_exec ev c = Some r1" using Cons.prems(2) by (auto simp: bindC_def Option.bind_eq_Some_conv)
  obtain p1 where p1: "hp_parse_chunks (client_delivered ev) (cc_parser c) = Inr p1"
    "hp_parse_chunks (client_received evs) p1 = Inr p"
    using Cons.prems(4) by (auto simp: client_received_def hp_parse_chunks_append bindE_eq_Inr)
  obtain c1 where c1: "r1 = Inr c1" "client_phase out c1" "cc_parser c1 = p1"
    using phase_client_exec [OF Cons.prems(1) r1 _ p1(1)] Cons.prems(3) by auto
  then have "client_run evs c1 = Some r" using Cons.prems(2) r1 by simp
  with Cons.IH [OF c1(2)] Cons.prems(3) p1(2) c1(3) show ?case by simp
qed (auto simp: client_received_def)

lemma executeRequest_phase:
  assumes "generate_request sos_write req [] = ret out" "req_method req \<noteq> M_HEAD" "ResponseComplete \<notin> set ts"
  shows "\<exists>c. executeRequest req (client_new\<lparr>cc_on_ready := ts\<rparr>) = Inr c \<and> client_phase out c \<and> cc_parser c = client_parser"
  using client_phase.Sending [of 0 out ts] assms
  by (simp add: executeRequest_def client_new_def cc_awaitWrite_def client_parser_def)

lemma phase_client_done:
  assumes "client_phase out c" "hp_state (cc_parser c) = S_DONE"
  shows "cc_sent c = out \<and> cc_state c = S_CONN_CLOSED \<and>
    (\<exists>c'. cc_run_tasks (cc_tasks c) c = Inr c' \<and> future_get (cc_promise c') = Inr (response_of (cc_parser c)))"
  using assms(1)
proof cases
  case (Answered p ts)
  have "cc_run_tasks (us @ [ResponseComplete]) c = onResponseComplete c" if "ResponseComplete \<notin> set us" for us c
    using that
  proof (induction us)
    case (Cons u us)
    then have "u = ParkConnection" by (cases u) auto
    with Cons show ?case by (simp add: cc_run_task_def)
  qed (simp add: cc_run_task_def bindE_def split: sum.split)
  then show ?thesis
    using Answered by (simp add: client_new_def onResponseComplete_def promise_success_def promise_new_def future_get_def)
next
  case (Delivered p)
  then show ?thesis by (simp add: client_new_def fulfilled_def future_get_def promise_new_def)
qed (use assms(2) in \<open>simp_all add: client_new_def hp_new_def hp_start_def\<close>)

lemma client_delivers:
  assumes "client_phase out c0" "cc_parser c0 = client_parser" "client_run evs c0 = Some r"
    "list_all client_smooth evs" "response_wf res" "response_fits res" "concat (client_received evs) = response_text res"
  shows "\<exists>c c'. r = Inr c \<and> cc_sent c = out \<and> cc_state c = S_CONN_CLOSED \<and>
    cc_run_tasks (cc_tasks c) c = Inr c' \<and> future_get (cc_promise c') = Inr res"
proof -
  obtain p where p: "hp_parse_chunks (client_received evs) client_parser = Inr p"
    using response_chunks_accepted [OF assms(5-7)] by blast
  obtain c where c: "r = Inr c" "client_phase out c" "cc_parser c = p"
    using phase_client_run [OF assms(1,3,4), of p] assms(2) p by auto
  have "[] \<notin> set (client_received evs)"
    using assms(4) smooth_nonempty by (auto simp: client_received_def list_all_iff)
  then have "hp_state p = S_DONE" "response_of p = res"
    using response_in_chunks [OF assms(5,7) _ p] by simp_all
  with phase_client_done [OF c(2)] c show ?thesis by auto
qed








lemma generate_request_text: "request_wf r \<Longrightarrow> generate_request sos_write r [] = ret (request_text r)"
  using sos.generate_request_ok [where out = "[]" and r = r] bytes_of_inject by auto


text \<open>
  The connection of a request is never idle again: \<open>keepalive_\<close> starts as false and is only ever cleared.
\<close>

definition one_shot :: "client_conn \<Rightarrow> bool" where
  "one_shot c \<longleftrightarrow>
     \<not> cc_keepalive c \<and> (cc_state c = S_CONN_BUSY \<and> cc_tasks c = [] \<or> cc_state c = S_CONN_CLOSED)"

lemma cc_fail_one_shot: "one_shot c \<Longrightarrow> cc_fail e c = Inr c' \<Longrightarrow> one_shot c'"
  by (auto simp: one_shot_def cc_fail_def cc_close_def cc_error_def onError_def cc_wakeup_def bindE_eq_Inr
      promise_failure_def split: if_splits)

lemma cc_complete_one_shot: "one_shot c \<Longrightarrow> cc_complete c = Inr c' \<Longrightarrow> one_shot c'"
  by (auto simp: one_shot_def cc_complete_def cc_close_def cc_wakeup_def runOnNextWakeup_def bindE_eq_Inr split: if_splits)

lemma cc_parsed_one_shot [simp]: "one_shot (cc_parsed p c) = one_shot c"
  by (simp add: one_shot_def cc_parsed_def)

lemma one_shot_interest [simp]:
  "one_shot (c\<lparr>cc_reading := b\<rparr>) = one_shot c" "one_shot (c\<lparr>cc_writing := b\<rparr>) = one_shot c"
  "one_shot (cc_awaitRead c) = one_shot c" "one_shot (cc_awaitWrite c) = one_shot c"
  by (simp_all add: one_shot_def cc_awaitRead_def cc_awaitWrite_def)

lemma cc_read_one_shot: "one_shot c \<Longrightarrow> cc_read r c = Inr c' \<Longrightarrow> one_shot c'"
  by (auto simp: cc_read_def Let_def split: read_result.splits sum.splits if_splits
      elim!: cc_fail_one_shot [rotated] cc_complete_one_shot [rotated])

lemma cc_write_one_shot: "one_shot c \<Longrightarrow> cc_write r c = Inr c' \<Longrightarrow> one_shot c'"
  by (auto simp: cc_write_def Let_def split: write_result.splits if_splits elim!: cc_fail_one_shot [rotated])
     (simp_all add: one_shot_def)

lemma cc_task_one_shot: "one_shot (c\<lparr>cc_tasks := ts\<rparr>) \<Longrightarrow> cc_run_task t (c\<lparr>cc_tasks := ts\<rparr>) = Inr c' \<Longrightarrow> one_shot c'"
  by (auto simp: one_shot_def cc_run_task_def onResponseComplete_def promise_success_def
      split: client_task.splits if_splits)

lemma client_exec_one_shot: "one_shot c \<Longrightarrow> client_exec ev c = ret c' \<Longrightarrow> one_shot c'"
proof (cases ev)
  case CTask
  assume "one_shot c" "client_exec ev c = ret c'"
  with CTask show ?thesis
    by (auto simp: one_shot_def split: list.splits elim!: cc_task_one_shot [unfolded one_shot_def, rotated])
qed (auto split: if_splits elim: cc_read_one_shot [rotated] cc_write_one_shot [rotated])

lemma client_run_one_shot: "client_run evs c = ret c' \<Longrightarrow> one_shot c \<Longrightarrow> one_shot c'"
proof (induction evs arbitrary: c)
  case (Cons ev evs)
  then obtain c1 where "client_exec ev c = ret c1" "client_run evs c1 = ret c'" by (auto simp: bindC_eq_ret)
  with Cons.IH client_exec_one_shot Cons.prems(2) show ?case by blast
qed simp

section \<open>A concrete exchange\<close>


abbreviation sample_reply :: http_response where
  "sample_reply \<equiv> \<lparr>hm_version = ''HTTP/1.1'', hm_headers = [(''content-length'', ''3'')], hm_body = ''abc'',
     res_code = 200, res_status = ''OK''\<rparr>"

abbreviation sample_client :: client_conn where
  "sample_client \<equiv> client_new\<lparr>cc_on_ready := [ParkConnection]\<rparr>"

abbreviation client_schedule :: "client_event list" where
  "client_schedule \<equiv>
     [CWrite (WBytes 8), CWrite WWouldBlock, CWrite (WBytes 10), CRead (RData ''HTTP/1.''), CRead RWouldBlock,
      CRead (RData (''1 200 OK'' @ crlf @ ''content-length: 3'' @ crlf @ crlf @ ''a'')), CRead (RData ''bc''), CTask]"


lemma sample_request_wf: "request_wf sample_request"
  by (simp add: request_wf_def)

lemma sample_reply_wf: "response_wf sample_reply"
proof -
  have "to_string (Suc (Suc (Suc 0))) = ''3''" by code_simp
  then show ?thesis by (simp add: response_wf_def own_headers_def sized_headers_def tolower_def)
qed


lemma sample_reply_fits: "response_fits sample_reply"
proof -
  have "response_text sample_reply = ''HTTP/1.1 200 OK'' @ crlf @ ''content-length: 3'' @ crlf @ crlf @ ''abc''"
    by code_simp
  then show ?thesis by (simp add: response_fits_def own_headers_def kMaxVersionSize_def)
qed


lemma sample_client_start: "\<exists>c0. executeRequest sample_request sample_client = Inr c0"
  using executeRequest_phase [OF generate_request_text [OF sample_request_wf], of "[ParkConnection]"] by auto

lemma sample_reply_wire: "concat (client_received client_schedule) = response_text sample_reply"
  by code_simp

lemma sample_client_parsed: "\<exists>p. hp_parse_chunks (client_received client_schedule) client_parser = Inr p"
proof -
  have "\<not> isl (hp_parse_chunks (client_received client_schedule) client_parser)" by code_simp
  then show ?thesis by (cases "hp_parse_chunks (client_received client_schedule) client_parser") auto
qed

lemma sample_client_run:
  assumes "executeRequest sample_request sample_client = Inr c0"
  shows "\<exists>c. client_run client_schedule c0 = ret c \<and> \<not> cc_writing c \<and> cc_sent c = request_text sample_request"
proof -
  have ph: "client_phase (request_text sample_request) c0" "cc_parser c0 = client_parser"
    using executeRequest_phase [OF generate_request_text [OF sample_request_wf], of "[ParkConnection]"] assms by auto
  have "\<not> Option.is_none (bindC (Some (executeRequest sample_request sample_client)) (client_run client_schedule))"
    by code_simp
  then obtain r where r: "client_run client_schedule c0 = Some r" using assms by (auto simp: Option.is_none_def)
  obtain p where p: "hp_parse_chunks (client_received client_schedule) client_parser = Inr p"
    using sample_client_parsed by blast
  obtain c where c: "r = Inr c" "client_phase (request_text sample_request) c" "cc_parser c = p"
    using phase_client_run [OF ph(1) r] ph(2) p by auto
  have "hp_state p = S_DONE"
    using response_in_chunks [OF sample_reply_wf sample_reply_wire _ p] by (simp add: client_received_def)
  with c(2,3) have "\<not> cc_writing c \<and> cc_sent c = request_text sample_request"
    by cases (auto simp: client_new_def hp_new_def hp_start_def)
  with r c(1) show ?thesis by simp
qed




section \<open>Properties\<close>

text \<open>C14. A client connection delivers the response. For a request that is not a HEAD request and a well-formed
  response with a body of known size (\<open>response_wf\<close>) whose lines are within the limits of the parser
  (\<open>response_fits\<close>), whatever the pieces the request is sent in and the response is received in, and the order of reads,
  writes and tasks, as long as no read or write fails: once the whole response has arrived the request has been sent as it
  was generated, the connection is closed and the future gets exactly that response.\<close>

theorem client_receives:
  assumes "generate_request sos_write req [] = ret out" "req_method req \<noteq> M_HEAD"
    "executeRequest req (client_new\<lparr>cc_on_ready := [ParkConnection]\<rparr>) = Inr c0" "client_run evs c0 = Some r"
    "list_all client_smooth evs" "response_wf res" "response_fits res" "concat (client_received evs) = response_text res"
  shows "\<exists>c c'. r = Inr c \<and> cc_sent c = out \<and> cc_state c = S_CONN_CLOSED \<and>
    cc_run_tasks (cc_tasks c) c = Inr c' \<and> future_get (cc_promise c') = Inr res"
proof -
  have "client_phase out c0" "cc_parser c0 = client_parser"
    using executeRequest_phase [OF assms(1,2), of "[ParkConnection]"] assms(3) by auto
  from client_delivers [OF this assms(4-8)] show ?thesis .
qed

theorem client_receives_witness:
  "\<exists>c0 c c'. executeRequest sample_request sample_client = Inr c0 \<and> client_run client_schedule c0 = ret c \<and>
     cc_sent c = request_text sample_request \<and> cc_run_tasks (cc_tasks c) c = Inr c' \<and>
     future_get (cc_promise c') = Inr sample_reply"
proof -
  obtain c0 where c0: "executeRequest sample_request sample_client = Inr c0" using sample_client_start by blast
  obtain c where c: "client_run client_schedule c0 = ret c" using sample_client_run [OF c0] by blast
  from client_receives [OF generate_request_text [OF sample_request_wf] _ c0 c _ sample_reply_wf sample_reply_fits
      sample_reply_wire]
  obtain c' where "cc_sent c = request_text sample_request" "cc_run_tasks (cc_tasks c) c = Inr c'"
    "future_get (cc_promise c') = Inr sample_reply" by auto
  with c0 c show ?thesis by blast
qed



text \<open>A connection is never reused, although the pool has a cache for idle ones: whenever a task of a connection that
  executes a request runs, under every schedule and also when reading, writing or parsing fails, the connection is
  closed, and parking it deletes it.\<close>

theorem connection_never_cached:
  assumes "executeRequest req (fst (leaseConnection addr pool)) = Inr c0" "cp_cache pool = []"
    "client_run evs c0 = ret c" "cc_tasks c = t # ts"
  shows "cc_state c = S_CONN_CLOSED \<and> parkConnection addr c pool = pool\<lparr>cp_deleted := cp_deleted pool + 1\<rparr>"
proof -
  have "one_shot c0"
    using assms(1,2)
    by (auto simp: executeRequest_def leaseConnection_def cache_find_def client_new_def runOnNextWakeup_def one_shot_def
        cc_awaitWrite_def Let_def split: if_splits option.splits sum.splits)
  from client_run_one_shot [OF assms(3) this] assms(4) show ?thesis
    by (auto simp: one_shot_def parkConnection_def isIdle_def)
qed

theorem connection_never_cached_witness:
  "\<exists>c0 c. executeRequest sample_request sample_client = Inr c0 \<and> client_run [CWrite WFailed] c0 = ret c \<and>
     cc_state c = S_CONN_CLOSED"
proof -
  let ?pool = "\<lparr>cp_cache = [], cp_deleted = 0\<rparr>"
  have l: "fst (leaseConnection ''x'' ?pool) = sample_client"
    by (simp add: leaseConnection_def cache_find_def runOnNextWakeup_def client_new_def)
  obtain c0 where c0: "executeRequest sample_request sample_client = Inr c0" using sample_client_start by blast
  have "(case bindC (Some (executeRequest sample_request sample_client)) (client_run [CWrite WFailed]) of
      Some (Inr c) \<Rightarrow> cc_tasks c = [ParkConnection] | _ \<Rightarrow> False)" by code_simp
  then obtain c where c: "client_run [CWrite WFailed] c0 = ret c" "cc_tasks c = [ParkConnection]"
    unfolding c0 by (auto simp: bindC_def split: option.splits sum.splits)
  have "executeRequest sample_request (fst (leaseConnection ''x'' ?pool)) = Inr c0" using c0 l by simp
  from connection_never_cached [OF this _ c] have "cc_state c = S_CONN_CLOSED" by simp
  with c0 c show ?thesis by blast
qed

end
