(* ===== verification/Stx_Scheduler.thy ===== *)
theory Stx_Scheduler
  imports Stx_Prelude "HOL-Library.Multiset"
begin

text \<open>
  The event loop of \<open>executor/PosixScheduler.cc\<close> with the handles of \<open>executor/Scheduler-inl.h\<close>: tasks to
  run at once, timers, and watchers of file descriptors.

  A \<open>Watcher*\<close> is an index into the vector \<open>watchers_\<close>; the watchers form a doubly linked list through
  their fields \<open>prev\<close> and \<open>next\<close>, which the operations change one pointer at a time as the code does. A
  \<open>Task\<close> is an optional callback (\<open>None\<close> is a null function); what a callback does to the scheduler is
  an argument of the loop. Timers have an identity, since a handle refers to them. Times are
  nanoseconds in 64 bits; the clock is read once per critical section. \<open>select\<close> is an argument: the two
  sets of descriptors it returns. The loops over the linked list may run forever on a broken list
  and are partial functions.
\<close>

section \<open>State\<close>

datatype io_mode = READABLE | WRITABLE

record 'k watcher =
  w_fd :: int
  w_mode :: io_mode
  w_onIO :: "'k option"
  w_timeout :: u64
  w_onTimeout :: "'k option"
  w_prev :: "nat option"
  w_next :: "nat option"
  w_cancelled :: bool

record 'k timer =
  t_id :: nat
  t_when :: u64
  t_action :: "'k option"

text \<open>What the lists of tasks hold: a task, or a closure that fires a watcher or a timer.\<close>

datatype 'k job = Call "'k option" | FireWatcher nat | FireTimer "'k timer"

record 'k scheduler =
  ps_tasks :: "'k job list"
  ps_timers :: "'k timer list"
  ps_watchers :: "'k watcher list"
  ps_first :: "nat option"
  ps_last :: "nat option"
  ps_readers :: u64
  ps_writers :: u64
  ps_cancelled :: "nat list"
  ps_next_id :: nat
  ps_pipe :: int

definition watcher_new :: "'k watcher" where
  "watcher_new = \<lparr>w_fd = -1, w_mode = READABLE, w_onIO = None, w_timeout = 0, w_onTimeout = None,
     w_prev = None, w_next = None, w_cancelled = False\<rparr>"

text \<open>The counters of readers and writers are not initialised by the constructor.\<close>

definition ps_new :: "int \<Rightarrow> u64 \<Rightarrow> u64 \<Rightarrow> 'k scheduler" where
  "ps_new pipe_fd readers writers = \<lparr>ps_tasks = [], ps_timers = [], ps_watchers = replicate 32768 watcher_new,
     ps_first = None, ps_last = None, ps_readers = readers, ps_writers = writers, ps_cancelled = [], ps_next_id = 0,
     ps_pipe = pipe_fd\<rparr>"

definition watcher_reset ::
  "int \<Rightarrow> io_mode \<Rightarrow> 'k option \<Rightarrow> u64 \<Rightarrow> 'k option \<Rightarrow> 'k watcher \<Rightarrow> 'k watcher" where
  "watcher_reset fd mode task tmo tcb w =
     w\<lparr>w_fd := fd, w_mode := mode, w_onIO := task, w_timeout := tmo, w_onTimeout := tcb,
       w_prev := None, w_next := None, w_cancelled := False\<rparr>"

definition watcher_clear :: "'k watcher \<Rightarrow> 'k watcher" where
  "watcher_clear w = w\<lparr>w_fd := -1, w_timeout := 0, w_prev := None, w_next := None\<rparr>"

definition the_watcher :: "'k scheduler \<Rightarrow> nat \<Rightarrow> 'k watcher" where
  "the_watcher s i = ps_watchers s ! i"

definition upd_watcher :: "nat \<Rightarrow> ('k watcher \<Rightarrow> 'k watcher) \<Rightarrow> 'k scheduler \<Rightarrow> 'k scheduler" where
  "upd_watcher i f s = s\<lparr>ps_watchers := (ps_watchers s)[i := f (ps_watchers s ! i)]\<rparr>"

section \<open>Tasks and timers\<close>

definition ps_execute :: "'k option \<Rightarrow> 'k scheduler \<Rightarrow> 'k scheduler" where
  "ps_execute task s = s\<lparr>ps_tasks := ps_tasks s @ [Call task]\<rparr>"

text \<open>The scan from the end of the list for a timer that is not earlier: \<open>before\<close> is what is left to scan,
  from its end, \<open>after\<close> what was passed.\<close>

fun timer_scan :: "'k timer list \<Rightarrow> 'k timer list \<Rightarrow> 'k timer \<Rightarrow> 'k timer list" where
  "timer_scan [] after t = t # after"
| "timer_scan (c # before) after t =
     (if t_when c \<ge> t_when t then rev before @ t # c # after else timer_scan before (c # after) t)"

definition insertIntoTimersList :: "u64 \<Rightarrow> 'k option \<Rightarrow> 'k scheduler \<Rightarrow> nat \<times> 'k scheduler" where
  "insertIntoTimersList dt task s =
     (let t = \<lparr>t_id = ps_next_id s, t_when = dt, t_action = task\<rparr>
      in (ps_next_id s, s\<lparr>ps_timers := timer_scan (rev (ps_timers s)) [] t, ps_next_id := ps_next_id s + 1\<rparr>))"

text \<open>\<open>MonotonicTime + Duration\<close> and \<open>MonotonicTime - MonotonicTime\<close>, in nanoseconds and microseconds.\<close>

definition mtime_plus :: "u64 \<Rightarrow> u64 \<Rightarrow> u64" where
  "mtime_plus t micros = t + micros * 1000"

definition mtime_minus :: "u64 \<Rightarrow> u64 \<Rightarrow> u64" where
  "mtime_minus a b = a div 1000 - b div 1000"

definition executeAfter :: "u64 \<Rightarrow> u64 \<Rightarrow> 'k option \<Rightarrow> 'k scheduler \<Rightarrow> nat \<times> 'k scheduler" where
  "executeAfter now delay task = insertIntoTimersList (mtime_plus now delay) task"

text \<open>\<open>UnixTime - UnixTime\<close> is the distance, whatever the order.\<close>

definition unix_distance :: "u64 \<Rightarrow> u64 \<Rightarrow> u64" where
  "unix_distance a b = (if a > b then a - b else b - a)"

definition executeAt :: "u64 \<Rightarrow> u64 \<Rightarrow> u64 \<Rightarrow> 'k option \<Rightarrow> 'k scheduler \<Rightarrow> nat \<times> 'k scheduler" where
  "executeAt now wall_now when_to_run task = executeAfter now (unix_distance when_to_run wall_now) task"

definition timerCount :: "'k scheduler \<Rightarrow> nat" where
  "timerCount s = length (ps_timers s)"

definition taskCount :: "'k scheduler \<Rightarrow> nat" where
  "taskCount s = length (ps_tasks s)"

text \<open>\<open>Handle::cancel\<close> of a timer: the cancel handler takes the timer off the list, the first time.\<close>

fun erase_last :: "nat \<Rightarrow> 'k timer list \<Rightarrow> 'k timer list" where
  "erase_last i [] = []"
| "erase_last i (t # ts) = (if t_id t = i \<and> i \<notin> t_id ` set ts then ts else t # erase_last i ts)"

definition cancel_timer :: "nat \<Rightarrow> 'k scheduler \<Rightarrow> 'k scheduler" where
  "cancel_timer i s =
     (if i \<in> set (ps_cancelled s) then s
      else s\<lparr>ps_cancelled := i # ps_cancelled s, ps_timers := erase_last i (ps_timers s)\<rparr>)"

section \<open>Watchers\<close>

definition linkWatcher :: "nat \<Rightarrow> nat option \<Rightarrow> 'k scheduler \<Rightarrow> 'k scheduler result" where
  "linkWatcher w pred s =
     (case pred of
        None \<Rightarrow> Inl UndefinedBehaviour
      | Some p \<Rightarrow>
          (let succ = w_next (the_watcher s p);
               s = upd_watcher w (\<lambda>x. x\<lparr>w_prev := Some p, w_next := succ\<rparr>) s;
               s = upd_watcher p (\<lambda>x. x\<lparr>w_next := Some w\<rparr>) s
           in Inr (case succ of
                Some q \<Rightarrow> upd_watcher q (\<lambda>x. x\<lparr>w_prev := Some w\<rparr>) s
              | None \<Rightarrow> s\<lparr>ps_last := Some w\<rparr>)))"

definition unlinkWatcher :: "nat \<Rightarrow> 'k scheduler \<Rightarrow> nat option \<times> 'k scheduler" where
  "unlinkWatcher w s =
     (let pred = w_prev (the_watcher s w); succ = w_next (the_watcher s w);
          s = (case pred of Some p \<Rightarrow> upd_watcher p (\<lambda>x. x\<lparr>w_next := succ\<rparr>) s | None \<Rightarrow> s\<lparr>ps_first := succ\<rparr>);
          s = (case succ of Some q \<Rightarrow> upd_watcher q (\<lambda>x. x\<lparr>w_prev := pred\<rparr>) s | None \<Rightarrow> s\<lparr>ps_last := pred\<rparr>)
      in (succ, upd_watcher w watcher_clear s))"

text \<open>The search for the place of a new watcher: its loop tests the same two watchers again and again.\<close>

partial_function (option) setup_search :: "nat \<Rightarrow> nat \<Rightarrow> 'k scheduler \<Rightarrow> 'k scheduler comp" where
  "setup_search interest succ s =
     (case w_prev (the_watcher s succ) of
        None \<Rightarrow>
          (case ps_first s of
             None \<Rightarrow> raise UndefinedBehaviour
           | Some f \<Rightarrow>
               ret ((upd_watcher f (\<lambda>x. x\<lparr>w_prev := Some interest\<rparr>)
                      (upd_watcher interest (\<lambda>x. x\<lparr>w_next := Some f\<rparr>) s))\<lparr>ps_first := Some interest\<rparr>))
      | Some p \<Rightarrow>
          (if w_timeout (the_watcher s interest) \<le> w_timeout (the_watcher s p)
           then Some (linkWatcher interest (Some p) s)
           else setup_search interest succ s))"

declare setup_search.simps [code]

definition setupWatcher ::
  "u64 \<Rightarrow> int \<Rightarrow> io_mode \<Rightarrow> 'k option \<Rightarrow> u64 \<Rightarrow> 'k option \<Rightarrow> 'k scheduler \<Rightarrow> 'k scheduler comp" where
  "setupWatcher now fd mode task tmo tcb s =
     (if fd < 0 \<or> nat fd \<ge> length (ps_watchers s) then raise kIOError
      else if w_fd (the_watcher s (nat fd)) \<ge> 0 then raise OtherError
      else
        (let s = upd_watcher (nat fd) (watcher_reset fd mode task (mtime_plus now tmo) tcb) s
         in case ps_last s of
              Some l \<Rightarrow> setup_search (nat fd) l s
            | None \<Rightarrow> ret (s\<lparr>ps_first := Some (nat fd), ps_last := Some (nat fd)\<rparr>)))"

definition executeOnReadable ::
  "u64 \<Rightarrow> int \<Rightarrow> 'k option \<Rightarrow> u64 \<Rightarrow> 'k option \<Rightarrow> 'k scheduler \<Rightarrow> 'k scheduler comp" where
  "executeOnReadable now fd task tmo tcb s =
     setupWatcher now fd READABLE task tmo tcb (s\<lparr>ps_readers := ps_readers s + 1\<rparr>)"

definition executeOnWritable ::
  "u64 \<Rightarrow> int \<Rightarrow> 'k option \<Rightarrow> u64 \<Rightarrow> 'k option \<Rightarrow> 'k scheduler \<Rightarrow> 'k scheduler comp" where
  "executeOnWritable now fd task tmo tcb s =
     setupWatcher now fd WRITABLE task tmo tcb (s\<lparr>ps_writers := ps_writers s + 1\<rparr>)"

text \<open>\<open>Handle::cancel\<close> of a watcher, whose handle has no cancel handler.\<close>

definition cancelFD :: "int \<Rightarrow> 'k scheduler \<Rightarrow> 'k scheduler" where
  "cancelFD fd s =
     (if 0 \<le> fd \<and> nat fd < length (ps_watchers s) then upd_watcher (nat fd) (\<lambda>w. w\<lparr>w_cancelled := True\<rparr>) s else s)"

section \<open>The loop\<close>

definition count_down :: "io_mode \<Rightarrow> 'k scheduler \<Rightarrow> 'k scheduler" where
  "count_down mode s =
     (case mode of READABLE \<Rightarrow> s\<lparr>ps_readers := ps_readers s - 1\<rparr> | WRITABLE \<Rightarrow> s\<lparr>ps_writers := ps_writers s - 1\<rparr>)"

partial_function (option) collectActiveHandles ::
  "int set \<Rightarrow> int set \<Rightarrow> nat option \<Rightarrow> 'k job list \<Rightarrow> 'k scheduler \<Rightarrow> ('k job list \<times> 'k scheduler) option" where
  "collectActiveHandles input output w result s =
     (case w of
        None \<Rightarrow> Some (result, s)
      | Some i \<Rightarrow>
          (if w_fd (the_watcher s i) \<in> input
           then collectActiveHandles input output (fst (unlinkWatcher i s))
                  (result @ [Call (w_onIO (the_watcher s i))]) (snd (unlinkWatcher i (count_down READABLE s)))
           else if w_fd (the_watcher s i) \<in> output
           then collectActiveHandles input output (fst (unlinkWatcher i s))
                  (result @ [Call (w_onIO (the_watcher s i))]) (snd (unlinkWatcher i (count_down WRITABLE s)))
           else collectActiveHandles input output (w_next (the_watcher s i)) result s))"

partial_function (option) watcher_timeouts ::
  "u64 \<Rightarrow> nat option \<Rightarrow> 'k job list \<Rightarrow> 'k scheduler \<Rightarrow> ('k job list \<times> 'k scheduler) option" where
  "watcher_timeouts now w result s =
     (case w of
        None \<Rightarrow> Some (result, s)
      | Some i \<Rightarrow>
          (if w_timeout (the_watcher s i) \<le> now
           then watcher_timeouts now (fst (unlinkWatcher i s)) (result @ [FireWatcher i])
                  (snd (unlinkWatcher i (count_down (w_mode (the_watcher s i)) s)))
           else Some (result, s)))"

fun timer_timeouts :: "u64 \<Rightarrow> 'k timer list \<Rightarrow> 'k job list \<times> 'k timer list" where
  "timer_timeouts now [] = ([], [])"
| "timer_timeouts now (t # ts) =
     (if t_when t > now then ([], t # ts)
      else (let (js, rest) = timer_timeouts now ts in (FireTimer t # js, rest)))"

definition collectTimeouts :: "u64 \<Rightarrow> 'k job list \<Rightarrow> 'k scheduler \<Rightarrow> ('k job list \<times> 'k scheduler) option" where
  "collectTimeouts now result s =
     Option.bind (watcher_timeouts now (ps_first s) result s) (\<lambda>(result, s).
       let (js, rest) = timer_timeouts now (ps_timers s)
       in Some (result @ js, s\<lparr>ps_timers := rest\<rparr>))"

definition nextTimeout :: "u64 \<Rightarrow> 'k scheduler \<Rightarrow> u64" where
  "nextTimeout now s =
     (if ps_tasks s \<noteq> [] then 0
      else
        (let a = (case ps_timers s of t # _ \<Rightarrow> mtime_minus (t_when t) now | [] \<Rightarrow> 5 * 1000000);
             b = (case ps_first s of Some i \<Rightarrow> mtime_minus (w_timeout (the_watcher s i)) now | None \<Rightarrow> 6 * 1000000)
         in min a b))"

text \<open>The callback a job invokes: \<open>fire\<close> does nothing when the handle was cancelled.\<close>

fun job_task :: "'k scheduler \<Rightarrow> 'k job \<Rightarrow> 'k option" where
  "job_task s (Call task) = task"
| "job_task s (FireWatcher i) = (if w_cancelled (the_watcher s i) then None else w_onTimeout (the_watcher s i))"
| "job_task s (FireTimer t) = (if t_id t \<in> set (ps_cancelled s) then None else t_action t)"

fun safeCallEach :: "('k \<Rightarrow> 'k scheduler \<Rightarrow> 'k scheduler) \<Rightarrow> 'k job list \<Rightarrow> 'k scheduler \<Rightarrow> 'k scheduler" where
  "safeCallEach run [] s = s"
| "safeCallEach run (j # js) s =
     safeCallEach run js (case job_task s j of Some k \<Rightarrow> run k s | None \<Rightarrow> s)"

text \<open>The second critical section of \<open>runLoopOnce\<close>, after \<open>select\<close> has returned, and the whole turn.\<close>

definition collect_jobs ::
  "int set \<Rightarrow> int set \<Rightarrow> u64 \<Rightarrow> 'k scheduler \<Rightarrow> ('k job list \<times> 'k scheduler) option" where
  "collect_jobs input output now s =
     Option.bind (collectActiveHandles input output (ps_first s) (ps_tasks s) (s\<lparr>ps_tasks := []\<rparr>)) (\<lambda>(js, s).
       collectTimeouts now js s)"

text \<open>The descriptors to wait for; \<open>FD_SET\<close> of a descriptor beyond the size of \<open>fd_set\<close> writes outside of it.\<close>

partial_function (option) watch_sets ::
  "nat option \<Rightarrow> int set \<Rightarrow> int set \<Rightarrow> int \<Rightarrow> 'k scheduler \<Rightarrow> (int set \<times> int set \<times> int) comp" where
  "watch_sets w input output wmark s =
     (case w of
        None \<Rightarrow> ret (input, output, wmark)
      | Some i \<Rightarrow>
          (if w_fd (the_watcher s i) < 0 then watch_sets (w_next (the_watcher s i)) input output wmark s
           else if w_fd (the_watcher s i) \<ge> 1024 then raise UndefinedBehaviour
           else watch_sets (w_next (the_watcher s i))
                  (if w_mode (the_watcher s i) = READABLE then insert (w_fd (the_watcher s i)) input else input)
                  (if w_mode (the_watcher s i) = WRITABLE then insert (w_fd (the_watcher s i)) output else output)
                  (max wmark (w_fd (the_watcher s i))) s))"

declare collectActiveHandles.simps [code] watcher_timeouts.simps [code] watch_sets.simps [code]

type_synonym select_call = "int \<Rightarrow> int set \<Rightarrow> int set \<Rightarrow> u64 \<Rightarrow> int set \<times> int set"

definition runLoopOnce ::
  "('k \<Rightarrow> 'k scheduler \<Rightarrow> 'k scheduler) \<Rightarrow> select_call \<Rightarrow> u64 \<Rightarrow> u64 \<Rightarrow> 'k scheduler \<Rightarrow> 'k scheduler comp" where
  "runLoopOnce run select before now s =
     bindC (watch_sets (ps_first s) {} {} 0 s) (\<lambda>(input, output, wmark).
       let (input, output) = select (wmark + 1) (insert (ps_pipe s) input) output (nextTimeout before s)
       in map_option (\<lambda>(js, s). Inr (safeCallEach run js s)) (collect_jobs input output now s))"

text \<open>\<open>waitForReadable\<close> and \<open>waitForWritable\<close>: what they make of the result of \<open>select\<close>.\<close>

definition waited :: "int \<Rightarrow> unit result" where
  "waited res = (if res = 0 then Inl kIOError else if res = -1 then Inl OtherError else Inr ())"

definition loop_continues :: "'k scheduler \<Rightarrow> bool" where
  "loop_continues s \<longleftrightarrow> ps_tasks s \<noteq> [] \<or> ps_timers s \<noteq> [] \<or> ps_first s \<noteq> None"

section \<open>The linked list\<close>

abbreviation hd_opt :: "nat list \<Rightarrow> nat option \<Rightarrow> nat option" where
  "hd_opt is n \<equiv> (if is = [] then n else Some (hd is))"

abbreviation last_opt :: "nat option \<Rightarrow> nat list \<Rightarrow> nat option" where
  "last_opt p is \<equiv> (if is = [] then p else Some (last is))"

text \<open>The watchers \<open>is\<close> are linked in this order, between the neighbours \<open>p\<close> and \<open>n\<close>.\<close>

fun chain :: "'k watcher list \<Rightarrow> nat option \<Rightarrow> nat list \<Rightarrow> nat option \<Rightarrow> bool" where
  "chain ws p [] n = True"
| "chain ws p (i # is) n \<longleftrightarrow>
     w_prev (ws ! i) = p \<and> w_next (ws ! i) = hd_opt is n \<and> chain ws (Some i) is n"

definition linked :: "'k scheduler \<Rightarrow> nat list \<Rightarrow> bool" where
  "linked s is \<longleftrightarrow>
     distinct is \<and> (\<forall>i \<in> set is. i < length (ps_watchers s)) \<and>
     ps_first s = hd_opt is None \<and> ps_last s = last_opt None is \<and> chain (ps_watchers s) None is None \<and>
     (\<forall>i < length (ps_watchers s). w_fd (ps_watchers s ! i) = (if i \<in> set is then int i else -1))"

lemma chain_append:
  "chain ws p (xs @ ys) n \<longleftrightarrow> chain ws p xs (hd_opt ys n) \<and> chain ws (last_opt p xs) ys n"
  by (induction xs arbitrary: p) (auto simp: hd_append)

lemma chain_upd [simp]: "i \<notin> set is \<Longrightarrow> chain (ws[i := x]) p is n = chain ws p is n"
  by (induction "is" arbitrary: p) auto

lemma linked_first: "linked s is \<Longrightarrow> ps_first s = hd_opt is None"
  by (simp add: linked_def)

lemma linked_Cons:
  "linked s (i # is) \<Longrightarrow> ps_first s = Some i \<and> w_next (the_watcher s i) = hd_opt is None \<and> w_fd (the_watcher s i) = int i"
  by (auto simp: linked_def the_watcher_def)

text \<open>The neighbours of a watcher in the middle.\<close>

lemma linked_middle:
  assumes "linked s (xs @ i # ys)"
  shows "w_prev (the_watcher s i) = last_opt None xs" "w_next (the_watcher s i) = hd_opt ys None"
    "i < length (ps_watchers s)" "w_fd (the_watcher s i) = int i"
  using assms by (auto simp: linked_def the_watcher_def chain_append)

lemma unlinkWatcher_linked:
  assumes "linked s (xs @ i # ys)"
  shows "fst (unlinkWatcher i s) = hd_opt ys None \<and> linked (snd (unlinkWatcher i s)) (xs @ ys)"
proof -
  note nb = linked_middle [OF assms]
  have "fst (unlinkWatcher i s) = hd_opt ys None" using nb by (simp add: unlinkWatcher_def Let_def)
  moreover have "linked (snd (unlinkWatcher i s)) (xs @ ys)"
    using assms nb
    by (cases xs rule: rev_cases; cases ys)
       (auto simp: unlinkWatcher_def Let_def upd_watcher_def linked_def the_watcher_def chain_append
         watcher_clear_def nth_list_update hd_append)
  ultimately show ?thesis by simp
qed

lemma nth_upd: "xs[i := x] ! j = (if i = j \<and> j < length xs then x else xs ! j)"
  by (cases "i < length xs") (auto simp: nth_list_update list_update_beyond)

lemma linked_count_down: "linked (count_down m s) is = linked s is"
  by (cases m) (simp_all add: count_down_def linked_def)

lemma count_down_watcher [simp]: "the_watcher (count_down m s) i = the_watcher s i"
  by (cases m) (simp_all add: count_down_def the_watcher_def)

text \<open>Removing a watcher leaves the data of the others.\<close>

definition same_data :: "'k watcher \<Rightarrow> 'k watcher \<Rightarrow> bool" where
  "same_data v w \<longleftrightarrow> w_mode v = w_mode w \<and> w_onIO v = w_onIO w \<and> w_timeout v = w_timeout w \<and>
     w_onTimeout v = w_onTimeout w \<and> w_cancelled v = w_cancelled w"

lemma same_data_refl [simp]: "same_data w w"
  by (simp add: same_data_def)

lemma unlink_frame:
  assumes "j \<noteq> i"
  shows "same_data (the_watcher (snd (unlinkWatcher i s)) j) (the_watcher s j)"
  using assms
  by (auto simp: unlinkWatcher_def Let_def upd_watcher_def the_watcher_def same_data_def nth_upd
      split: option.splits)

lemma unlink_fields [simp]:
  "ps_tasks (snd (unlinkWatcher i s)) = ps_tasks s" "ps_timers (snd (unlinkWatcher i s)) = ps_timers s"
  "ps_cancelled (snd (unlinkWatcher i s)) = ps_cancelled s"
  by (simp_all add: unlinkWatcher_def Let_def upd_watcher_def split: option.splits)

lemma count_down_fields [simp]:
  "ps_tasks (count_down m s) = ps_tasks s" "ps_timers (count_down m s) = ps_timers s"
  "ps_cancelled (count_down m s) = ps_cancelled s"
  by (cases m; simp add: count_down_def)+

lemma unlink_fst_count_down [simp]: "fst (unlinkWatcher i (count_down m s)) = fst (unlinkWatcher i s)"
  by (simp add: unlinkWatcher_def Let_def the_watcher_def split: option.splits) (cases m; simp add: count_down_def)

section \<open>Registering a watcher\<close>

lemma setup_search_stuck:
  assumes "w_prev (the_watcher s l) = Some p" "w_timeout (the_watcher s p) < w_timeout (the_watcher s i)"
  shows "setup_search i l s = None"
proof (rule ccontr)
  assume "setup_search i l s \<noteq> None"
  then obtain y where "setup_search i l s = Some y" by blast
  then have "\<not> (\<exists>p. w_prev (the_watcher s l) = Some p \<and> w_timeout (the_watcher s p) < w_timeout (the_watcher s i))"
    by (rule setup_search.raw_induct [rotated]) (auto split: option.splits if_splits)
  then show False using assms by blast
qed

text \<open>Where a new watcher goes: in front of the last one when that has a predecessor, else in front of all.\<close>

definition insert_watcher :: "nat \<Rightarrow> nat list \<Rightarrow> nat list" where
  "insert_watcher i is = (if length is < 2 then i # is else butlast is @ [i, last is])"

lemma linked_pair:
  assumes "\<not> length is < 2"
  obtains xs p l where "is = xs @ [p, l]"
proof -
  obtain ys l where "is = ys @ [l]" using assms by (cases "is" rule: rev_cases) auto
  moreover obtain xs p where "ys = xs @ [p]" using assms calculation by (cases ys rule: rev_cases) auto
  ultimately show thesis using that by simp
qed

lemma setup_front:
  assumes "linked s is" "fd < length (ps_watchers s)" "fd \<notin> set is" "length is < 2"
    "w = watcher_reset (int fd) mode task tmo tcb (the_watcher s fd)"
    "s0 = upd_watcher fd (watcher_reset (int fd) mode task tmo tcb) s"
  shows "\<exists>s'. (case ps_last s0 of Some l \<Rightarrow> setup_search fd l s0
      | None \<Rightarrow> ret (s0\<lparr>ps_first := Some fd, ps_last := Some fd\<rparr>)) = ret s' \<and> linked s' (fd # is) \<and>
      same_data (the_watcher s' fd) w"
proof (cases "is")
  case Nil
  then show ?thesis using assms
    by (auto simp: linked_def upd_watcher_def watcher_reset_def the_watcher_def nth_upd same_data_def)
next
  case (Cons f js)
  then have is': "is = [f]" using assms(4) by (cases js) auto
  then have "setup_search fd f s0 = ret ((upd_watcher f (\<lambda>x. x\<lparr>w_prev := Some fd\<rparr>)
      (upd_watcher fd (\<lambda>x. x\<lparr>w_next := Some f\<rparr>) s0))\<lparr>ps_first := Some fd\<rparr>)"
    using assms(1,3,6) by (subst setup_search.simps) (auto simp: linked_def the_watcher_def upd_watcher_def nth_upd)
  moreover have "ps_last s0 = Some f" using assms(1,6) is' by (simp add: linked_def upd_watcher_def)
  ultimately show ?thesis using assms is'
    by (auto simp: linked_def upd_watcher_def watcher_reset_def the_watcher_def nth_upd same_data_def)
qed

lemma setup_middle:
  assumes "linked s (xs @ [p, l])" "fd < length (ps_watchers s)" "fd \<notin> set (xs @ [p, l])"
    "w = watcher_reset (int fd) mode task tmo tcb (the_watcher s fd)"
    "s0 = upd_watcher fd (watcher_reset (int fd) mode task tmo tcb) s" "tmo \<le> w_timeout (the_watcher s p)"
  shows "\<exists>s'. setup_search fd l s0 = ret s' \<and> ps_last s0 = Some l \<and> linked s' (xs @ [p, fd, l]) \<and>
      same_data (the_watcher s' fd) w"
proof -
  have p: "w_prev (the_watcher s0 l) = Some p" "w_next (the_watcher s0 p) = Some l"
    "w_timeout (the_watcher s0 fd) = tmo" "w_timeout (the_watcher s0 p) = w_timeout (the_watcher s p)"
    "ps_last s0 = Some l"
    using assms(1-3,5)
    by (auto simp: linked_def the_watcher_def upd_watcher_def nth_upd chain_append watcher_reset_def)
  then have "setup_search fd l s0 = Some (linkWatcher fd (Some p) s0)"
    using assms(6) by (subst setup_search.simps) simp
  then show ?thesis using assms(1-5) p
    by (auto simp: linkWatcher_def linked_def upd_watcher_def watcher_reset_def the_watcher_def nth_upd same_data_def
        chain_append Let_def hd_append)
qed

lemma setupWatcher_eq:
  assumes "linked s is" "fd < length (ps_watchers s)" "fd \<notin> set is"
  shows "setupWatcher now (int fd) mode task tmo tcb s =
    (let s0 = upd_watcher fd (watcher_reset (int fd) mode task (mtime_plus now tmo) tcb) s
     in case ps_last s0 of Some l \<Rightarrow> setup_search fd l s0
        | None \<Rightarrow> ret (s0\<lparr>ps_first := Some fd, ps_last := Some fd\<rparr>))"
  using assms by (simp add: setupWatcher_def linked_def the_watcher_def Let_def split: option.split)

section \<open>Collecting what is due\<close>

definition active :: "int set \<Rightarrow> int set \<Rightarrow> nat \<Rightarrow> bool" where
  "active input output i \<longleftrightarrow> int i \<in> input \<or> int i \<in> output"

definition expired :: "'k scheduler \<Rightarrow> u64 \<Rightarrow> nat \<Rightarrow> bool" where
  "expired s now i \<longleftrightarrow> w_timeout (the_watcher s i) \<le> now"

text \<open>\<open>s'\<close> is \<open>s\<close> with some watchers taken off the list.\<close>

definition unlinked :: "'k scheduler \<Rightarrow> nat list \<Rightarrow> 'k scheduler \<Rightarrow> bool" where
  "unlinked s keep s' \<longleftrightarrow>
     linked s' keep \<and> ps_tasks s' = ps_tasks s \<and> ps_timers s' = ps_timers s \<and> ps_cancelled s' = ps_cancelled s \<and>
     (\<forall>i \<in> set keep. same_data (the_watcher s' i) (the_watcher s i))"

lemma unlinked_step:
  assumes "linked s (xs @ i # ys)"
  shows "unlinked s (xs @ ys) (snd (unlinkWatcher i (count_down m s)))"
proof -
  have l: "linked (count_down m s) (xs @ i # ys)" using assms by (simp add: linked_count_down)
  moreover have "i \<notin> set (xs @ ys)" using assms by (auto simp: linked_def)
  ultimately show ?thesis
    using unlinkWatcher_linked [OF l] unlink_frame [of _ i "count_down m s"]
    by (fastforce simp: unlinked_def)
qed

lemma same_data_trans: "same_data u v \<Longrightarrow> same_data v w \<Longrightarrow> same_data u w"
  by (simp add: same_data_def)

lemma unlinked_trans:
  "unlinked s keep s1 \<Longrightarrow> unlinked s1 keep' s2 \<Longrightarrow> set keep' \<subseteq> set keep \<Longrightarrow> unlinked s keep' s2"
  unfolding unlinked_def using same_data_trans by (metis subsetD)

lemma collectActiveHandles_ok:
  assumes "linked s (xs @ is)" "list_all (\<lambda>i. \<not> active input output i) xs"
  shows "\<exists>s'. collectActiveHandles input output (hd_opt is None) result s =
      Some (result @ map (\<lambda>i. Call (w_onIO (the_watcher s i))) (filter (active input output) is), s') \<and>
    unlinked s (xs @ filter (\<lambda>i. \<not> active input output i) is) s'"
  using assms
proof (induction "is" arbitrary: xs result s)
  case Nil
  then show ?case by (subst collectActiveHandles.simps) (simp add: unlinked_def)
next
  case (Cons i "is")
  note nb = linked_middle [OF Cons.prems(1)]
  have i: "i \<notin> set (xs @ is)" using Cons.prems(1) by (auto simp: linked_def)
  show ?case
  proof (cases "active input output i")
    case True
    define m where "m = (if int i \<in> input then READABLE else WRITABLE)"
    let ?s = "snd (unlinkWatcher i (count_down m s))"
    have u: "unlinked s (xs @ is) ?s" by (rule unlinked_step [OF Cons.prems(1)])
    have "collectActiveHandles input output (Some i) result s =
        collectActiveHandles input output (hd_opt is None) (result @ [Call (w_onIO (the_watcher s i))]) ?s"
      using True nb unlinkWatcher_linked [OF Cons.prems(1)]
      by (subst collectActiveHandles.simps) (auto simp: m_def active_def)
    moreover have "linked ?s (xs @ is)" using u by (simp add: unlinked_def)
    note Cons.IH [OF this Cons.prems(2), of "result @ [Call (w_onIO (the_watcher s i))]"]
    moreover have "map (\<lambda>j. Call (w_onIO (the_watcher ?s j))) (filter (active input output) is) =
        map (\<lambda>j. Call (w_onIO (the_watcher s j))) (filter (active input output) is)"
      using u by (auto simp: unlinked_def same_data_def)
    moreover have "set (xs @ filter (\<lambda>i. \<not> active input output i) is) \<subseteq> set (xs @ is)" by auto
    ultimately show ?thesis using True unlinked_trans [OF u] by fastforce
  next
    case False
    then have "collectActiveHandles input output (Some i) result s =
        collectActiveHandles input output (hd_opt is None) result s"
      using nb by (subst collectActiveHandles.simps) (simp add: active_def)
    with Cons.IH [of s "xs @ [i]" result] Cons.prems False show ?thesis by simp
  qed
qed

lemma watcher_timeouts_ok:
  assumes "linked s is"
  shows "\<exists>s'. watcher_timeouts now (hd_opt is None) result s =
      Some (result @ map FireWatcher (takeWhile (\<lambda>i. w_timeout (the_watcher s i) \<le> now) is), s') \<and>
    unlinked s (dropWhile (\<lambda>i. w_timeout (the_watcher s i) \<le> now) is) s'"
  using assms
proof (induction "is" arbitrary: result s)
  case Nil
  then show ?case by (subst watcher_timeouts.simps) (simp add: unlinked_def)
next
  case (Cons i "is")
  have l: "linked s ([] @ i # is)" using Cons.prems by simp
  note nb = linked_middle [OF l]
  show ?case
  proof (cases "w_timeout (the_watcher s i) \<le> now")
    case True
    let ?s = "snd (unlinkWatcher i (count_down (w_mode (the_watcher s i)) s))"
    have u: "unlinked s is ?s" using unlinked_step [OF l] by simp
    have "watcher_timeouts now (Some i) result s = watcher_timeouts now (hd_opt is None) (result @ [FireWatcher i]) ?s"
      using True nb unlinkWatcher_linked [OF l] by (subst watcher_timeouts.simps) simp
    moreover have "linked ?s is" using u by (simp add: unlinked_def)
    note Cons.IH [OF this, of "result @ [FireWatcher i]"]
    moreover have "takeWhile (\<lambda>i. w_timeout (the_watcher ?s i) \<le> now) is = takeWhile (\<lambda>i. w_timeout (the_watcher s i) \<le> now) is"
      "dropWhile (\<lambda>i. w_timeout (the_watcher ?s i) \<le> now) is = dropWhile (\<lambda>i. w_timeout (the_watcher s i) \<le> now) is"
      using u by (auto simp: unlinked_def same_data_def intro!: takeWhile_cong dropWhile_cong)
    moreover have "set (dropWhile (\<lambda>i. w_timeout (the_watcher s i) \<le> now) is) \<subseteq> set is" by (rule set_dropWhileD [THEN subsetI])
    ultimately show ?thesis using True unlinked_trans [OF u] by fastforce
  next
    case False
    then show ?thesis using Cons.prems by (subst watcher_timeouts.simps) (simp add: unlinked_def)
  qed
qed

lemma timer_timeouts_eq:
  "timer_timeouts now ts =
     (map FireTimer (takeWhile (\<lambda>t. t_when t \<le> now) ts), dropWhile (\<lambda>t. t_when t \<le> now) ts)"
  by (induction ts) (auto simp: not_less)

lemma collectTimeouts_ok:
  assumes "linked s is"
  shows "\<exists>s'. collectTimeouts now result s =
      Some (result @ map FireWatcher (takeWhile (\<lambda>i. w_timeout (the_watcher s i) \<le> now) is) @
        map FireTimer (takeWhile (\<lambda>t. t_when t \<le> now) (ps_timers s)),
      s'\<lparr>ps_timers := dropWhile (\<lambda>t. t_when t \<le> now) (ps_timers s)\<rparr>) \<and>
    unlinked s (dropWhile (\<lambda>i. w_timeout (the_watcher s i) \<le> now) is) s'"
proof -
  obtain s' where s': "watcher_timeouts now (ps_first s) result s =
      Some (result @ map FireWatcher (takeWhile (\<lambda>i. w_timeout (the_watcher s i) \<le> now) is), s')"
    "unlinked s (dropWhile (\<lambda>i. w_timeout (the_watcher s i) \<le> now) is) s'"
    using watcher_timeouts_ok [OF assms, of now result] linked_first [OF assms] by auto
  then show ?thesis
    by (auto simp: collectTimeouts_def timer_timeouts_eq unlinked_def)
qed

lemma linked_timers [simp]: "linked (s\<lparr>ps_timers := ts\<rparr>) is = linked s is" "linked (s\<lparr>ps_tasks := js\<rparr>) is = linked s is"
  by (simp_all add: linked_def)

lemma watcher_timers [simp]: "the_watcher (s\<lparr>ps_timers := ts\<rparr>) i = the_watcher s i"
  "the_watcher (s\<lparr>ps_tasks := js\<rparr>) i = the_watcher s i"
  by (simp_all add: the_watcher_def)

lemma collect_jobs_ok:
  assumes "linked s is" "rest = filter (\<lambda>i. \<not> active inp outp i) is"
  shows "\<exists>s'. collect_jobs inp outp now s =
      Some (ps_tasks s @ map (\<lambda>i. Call (w_onIO (the_watcher s i))) (filter (active inp outp) is) @
        map FireWatcher (takeWhile (expired s now) rest) @
        map FireTimer (takeWhile (\<lambda>t. t_when t \<le> now) (ps_timers s)), s') \<and>
    linked s' (dropWhile (expired s now) rest) \<and> ps_tasks s' = [] \<and>
    ps_timers s' = dropWhile (\<lambda>t. t_when t \<le> now) (ps_timers s)"
proof -
  let ?s0 = "s\<lparr>ps_tasks := []\<rparr>"
  let ?js = "ps_tasks s @ map (\<lambda>i. Call (w_onIO (the_watcher s i))) (filter (active inp outp) is)"
  have l0: "linked ?s0 ([] @ is)" using assms(1) by simp
  from collectActiveHandles_ok [OF l0, of inp outp "ps_tasks s"]
  obtain s1 where s1: "collectActiveHandles inp outp (ps_first s) (ps_tasks s) ?s0 = Some (?js, s1)"
    "unlinked ?s0 rest s1"
    using linked_first [OF assms(1)] by (auto simp: assms(2))
  then have l1: "linked s1 rest" and d: "\<forall>i\<in>set rest. same_data (the_watcher s1 i) (the_watcher s i)"
    by (auto simp: unlinked_def)
  have tw: "takeWhile (\<lambda>i. w_timeout (the_watcher s1 i) \<le> now) rest = takeWhile (expired s now) rest"
    "dropWhile (\<lambda>i. w_timeout (the_watcher s1 i) \<le> now) rest = dropWhile (expired s now) rest"
    using d by (auto simp: same_data_def expired_def intro!: takeWhile_cong dropWhile_cong)
  from collectTimeouts_ok [OF l1, of now ?js] obtain s2 where
    "collectTimeouts now ?js s1 = Some (?js @ map FireWatcher (takeWhile (expired s now) rest) @
        map FireTimer (takeWhile (\<lambda>t. t_when t \<le> now) (ps_timers s1)),
      s2\<lparr>ps_timers := dropWhile (\<lambda>t. t_when t \<le> now) (ps_timers s1)\<rparr>)"
    "unlinked s1 (dropWhile (expired s now) rest) s2" unfolding tw by blast
  then show ?thesis using s1 by (simp add: collect_jobs_def unlinked_def)
qed

text \<open>The first part of a turn: the descriptors that are watched.\<close>

lemma watch_sets_ok:
  assumes "linked s (xs @ is)" "list_all (\<lambda>i. i < 1024) is" "list_all (\<lambda>i. int i < b) is" "m < b"
  shows "\<exists>i o' m'. watch_sets (hd_opt is None) a ob m s = ret (i, o', m') \<and> m' < b"
  using assms
proof (induction "is" arbitrary: xs a ob m)
  case Nil
  then show ?case by (subst watch_sets.simps) simp
next
  case (Cons i "is")
  note nb = linked_middle [OF Cons.prems(1)]
  have "max m (int i) < b" using Cons.prems by simp
  with Cons.IH [where xs = "xs @ [i]" and a = "if w_mode (the_watcher s i) = READABLE then insert (int i) a else a"
      and ob = "if w_mode (the_watcher s i) = WRITABLE then insert (int i) ob else ob" and m = "max m (int i)"]
    Cons.prems nb
  show ?case by (subst watch_sets.simps) auto
qed

lemma cancelFD_linked: "linked (cancelFD fd s) is = linked s is"
proof -
  let ?c = "\<lambda>j. (ps_watchers s)[j := (ps_watchers s ! j)\<lparr>w_cancelled := True\<rparr>]"
  have "chain (?c j) p is n = chain (ps_watchers s) p is n" for j p n
    by (induction "is" arbitrary: p) (simp_all add: nth_upd)
  moreover have "w_fd (?c j ! i) = w_fd (ps_watchers s ! i)" for i j by (simp add: nth_upd)
  ultimately show ?thesis by (simp add: linked_def cancelFD_def upd_watcher_def)
qed

lemma cancelFD_onIO: "w_onIO (the_watcher (cancelFD fd s) i) = w_onIO (the_watcher s i)"
  by (simp add: cancelFD_def the_watcher_def upd_watcher_def nth_upd)

section \<open>Timers\<close>

lemma timer_scan_mset: "mset (timer_scan before after t) = mset before + mset after + {#t#}"
  by (induction before arbitrary: after) auto

lemma timer_scan_front:
  "list_all (\<lambda>c. t_when c < t_when t) before \<Longrightarrow> timer_scan before after t = t # rev before @ after"
  by (induction before arbitrary: after) auto

lemma setup_returns_iff:
  assumes "linked s is" "fd < length (ps_watchers s)" "fd \<notin> set is"
  shows "setupWatcher now (int fd) mode task tmo tcb s \<noteq> None \<longleftrightarrow>
    length is < 2 \<or> mtime_plus now tmo \<le> w_timeout (the_watcher s (last (butlast is)))"
proof (cases "length is < 2")
  case True
  then show ?thesis
    using setup_front [OF assms True refl refl, of mode task "mtime_plus now tmo" tcb] setupWatcher_eq [OF assms]
    by (auto simp: Let_def)
next
  case False
  then obtain xs p l where is': "is = xs @ [p, l]" by (rule linked_pair)
  let ?s = "upd_watcher fd (watcher_reset (int fd) mode task (mtime_plus now tmo) tcb) s"
  have eq: "setupWatcher now (int fd) mode task tmo tcb s = setup_search fd l ?s"
    using setupWatcher_eq [OF assms] assms(1) is' by (simp add: linked_def upd_watcher_def)
  have p: "last (butlast is) = p" using is' by (simp add: butlast_append)
  show ?thesis
  proof (cases "mtime_plus now tmo \<le> w_timeout (the_watcher s p)")
    case True
    then show ?thesis
      using setup_middle [OF _ assms(2) _ refl refl True, of xs l mode task tcb] assms(1,3) is' eq p by auto
  next
    case late: False
    have "setup_search fd l ?s = None"
      using assms is' late
      by (intro setup_search_stuck [of _ _ p])
         (auto simp: linked_def the_watcher_def upd_watcher_def nth_upd chain_append watcher_reset_def)
    then show ?thesis using eq p late False by simp
  qed
qed

subsection \<open>A scheduler with few watchers\<close>

text \<open>For examples: three slots, of which the first two are watched, the second with the given timeout.\<close>

definition two_watched :: "u64 \<Rightarrow> nat scheduler" where
  "two_watched tmo =
     \<lparr>ps_tasks = [], ps_timers = [], ps_watchers =
        [\<lparr>w_fd = 0, w_mode = READABLE, w_onIO = Some 10, w_timeout = tmo, w_onTimeout = None,
           w_prev = None, w_next = Some 1, w_cancelled = False\<rparr>,
         \<lparr>w_fd = 1, w_mode = READABLE, w_onIO = Some 11, w_timeout = tmo, w_onTimeout = None,
           w_prev = Some 0, w_next = None, w_cancelled = False\<rparr>,
         watcher_new],
      ps_first = Some 0, ps_last = Some 1, ps_readers = 2, ps_writers = 0, ps_cancelled = [], ps_next_id = 0,
      ps_pipe = 7\<rparr>"

lemma two_watched_linked: "linked (two_watched tmo) [0, 1]"
  by (simp add: linked_def two_watched_def watcher_new_def All_less_Suc)

lemma linked_new: "linked (ps_new pfd r w) []"
  by (simp add: linked_def ps_new_def watcher_new_def)

lemma setup_ret:
  assumes "linked s is" "fd < length (ps_watchers s)" "fd \<notin> set is"
    "setupWatcher now (int fd) mode task tmo tcb s \<noteq> None"
  shows "\<exists>s'. setupWatcher now (int fd) mode task tmo tcb s = ret s'"
proof (cases "length is < 2")
  case True
  then show ?thesis
    using setup_front [OF assms(1-3) True refl refl, of mode task "mtime_plus now tmo" tcb] setupWatcher_eq [OF assms(1-3)]
    by (auto simp: Let_def)
next
  case False
  then obtain xs p l where is': "is = xs @ [p, l]" by (rule linked_pair)
  have tm: "mtime_plus now tmo \<le> w_timeout (the_watcher s p)"
    using setup_returns_iff [OF assms(1-3), of now mode task tmo tcb] assms(4) False is' by (simp add: butlast_append)
  show ?thesis
    using setup_middle [OF _ assms(2) _ refl refl tm, of xs l mode task tcb] assms(1,3) is' setupWatcher_eq [OF assms(1-3)]
    by (auto simp: Let_def)
qed

section \<open>Properties\<close>

text \<open>C16. Registering a watcher of a free descriptor returns exactly when fewer than two descriptors are
  watched or the new timeout is not later than that of the last but one watcher; otherwise the search for
  its place, which tests the same pair of watchers again and again, never ends, with the mutex of the
  scheduler held.\<close>

theorem setup_watcher_returns:
  assumes "linked s is" "fd < length (ps_watchers s)" "fd \<notin> set is"
  shows "setupWatcher now (int fd) mode task tmo tcb s \<noteq> None \<longleftrightarrow>
    length is < 2 \<or> mtime_plus now tmo \<le> w_timeout (the_watcher s (last (butlast is)))"
  by (rule setup_returns_iff [OF assms])

theorem setup_watcher_returns_witness:
  "setupWatcher 0 2 READABLE (Some 12) 5 None (two_watched 5000) \<noteq> None \<and>
   setupWatcher 0 2 READABLE (Some 12) 5 None (two_watched 4999) = None"
  using setup_watcher_returns [OF two_watched_linked, of 2 5000 0 READABLE "Some 12" 5 None]
    setup_watcher_returns [OF two_watched_linked, of 2 4999 0 READABLE "Some 12" 5 None]
  by (simp add: two_watched_def the_watcher_def mtime_plus_def)

text \<open>When it returns, the descriptor is watched with the given callbacks and timeout, and all other
  watchers are still linked in their order.\<close>

theorem setup_watcher_registers:
  assumes "linked s is" "fd < length (ps_watchers s)" "fd \<notin> set is"
    "setupWatcher now (int fd) mode task tmo tcb s = ret s'"
  shows "linked s' (insert_watcher fd is) \<and>
    same_data (the_watcher s' fd) (watcher_reset (int fd) mode task (mtime_plus now tmo) tcb watcher_new)"
proof (cases "length is < 2")
  case True
  then show ?thesis
    using setup_front [OF assms(1-3) True refl refl, of mode task "mtime_plus now tmo" tcb] setupWatcher_eq [OF assms(1-3)] assms(4)
    by (auto simp: Let_def insert_watcher_def same_data_def watcher_reset_def)
next
  case False
  then obtain xs p l where is': "is = xs @ [p, l]" by (rule linked_pair)
  have tm: "mtime_plus now tmo \<le> w_timeout (the_watcher s p)"
    using setup_returns_iff [OF assms(1-3), of now mode task tmo tcb] assms(4) False is' by (simp add: butlast_append)
  show ?thesis
    using setup_middle [OF _ assms(2) _ refl refl tm, of xs l mode task tcb] assms is' setupWatcher_eq [OF assms(1-3)] False
    by (auto simp: Let_def insert_watcher_def same_data_def watcher_reset_def butlast_append)
qed

theorem setup_watcher_registers_witness:
  "\<exists>s'. setupWatcher 0 2 READABLE (Some 12) 5 None (two_watched 5000) = ret s' \<and> linked s' [0, 2, 1]"
proof -
  have "setupWatcher 0 (int 2) READABLE (Some 12) 5 None (two_watched 5000) \<noteq> None"
    using setup_returns_iff [OF two_watched_linked, of 2 5000 0 READABLE "Some 12" 5 None]
    by (simp add: two_watched_def the_watcher_def mtime_plus_def)
  then obtain s' where "setupWatcher 0 (int 2) READABLE (Some 12) 5 None (two_watched 5000) = ret s'"
    using setup_ret [OF two_watched_linked, of 2 5000 0 READABLE "Some 12" 5 None] by (auto simp: two_watched_def)
  with setup_watcher_registers [OF two_watched_linked _ _ this] show ?thesis
    by (auto simp: two_watched_def insert_watcher_def)
qed

text \<open>C15. One turn of the loop collects, in this order, the tasks that were queued, the callbacks of the
  watchers that \<open>select\<close> reports, the timeout callbacks of the expired watchers at the front and the due timers at
  the front, each once; all other watchers and timers stay registered in their order.\<close>

theorem collect_jobs_correct:
  assumes "linked s is" "rest = filter (\<lambda>i. \<not> active inp outp i) is"
  shows "\<exists>s'. collect_jobs inp outp now s =
      Some (ps_tasks s @ map (\<lambda>i. Call (w_onIO (the_watcher s i))) (filter (active inp outp) is) @
        map FireWatcher (takeWhile (expired s now) rest) @
        map FireTimer (takeWhile (\<lambda>t. t_when t \<le> now) (ps_timers s)), s') \<and>
    linked s' (dropWhile (expired s now) rest) \<and> ps_tasks s' = [] \<and>
    ps_timers s' = dropWhile (\<lambda>t. t_when t \<le> now) (ps_timers s)"
  by (rule collect_jobs_ok [OF assms])

theorem collect_jobs_correct_witness:
  "\<exists>s'. collect_jobs {1} {} 0 (two_watched 5000) = Some ([Call (Some 11)], s') \<and> linked s' [0]"
  using collect_jobs_correct [OF two_watched_linked [of 5000] refl, where inp = "{1}" and outp = "{}" and now = 0]
  by (auto simp: active_def expired_def two_watched_def the_watcher_def)

text \<open>No timer is lost or doubled when another one is scheduled, but their list, which is meant to be
  sorted, is not: a timer later than all others is put in front of them, and until its own time none of the
  others fires, however long they are due.\<close>

theorem late_timer_blocks:
  assumes "linked s is" "list_all (\<lambda>t. t_when t < mtime_plus start delay) (ps_timers s)"
    "now < mtime_plus start delay" "executeAfter start delay task s = (i, s1)"
  shows "\<exists>js s2. collectTimeouts now [] s1 = Some (map FireWatcher js, s2) \<and> ps_timers s2 = ps_timers s1 \<and>
    mset (ps_timers s1) = add_mset \<lparr>t_id = i, t_when = mtime_plus start delay, t_action = task\<rparr> (mset (ps_timers s))"
proof -
  let ?t = "\<lparr>t_id = i, t_when = mtime_plus start delay, t_action = task\<rparr>"
  have s1: "s1 = s\<lparr>ps_timers := ?t # ps_timers s, ps_next_id := ps_next_id s + 1\<rparr>"
    using assms(2,4) by (auto simp: executeAfter_def insertIntoTimersList_def Let_def timer_scan_front)
  then have "linked s1 is" using assms(1) by (simp add: linked_def)
  from collectTimeouts_ok [OF this, of now "[]"] show ?thesis
    using assms(3) s1 by auto
qed

theorem late_timer_blocks_witness:
  "\<exists>js s2. collectTimeouts 5000 []
       (snd (executeAfter 0 9 (Some 2) (snd (executeAfter 0 1 (Some 1) (ps_new 7 0 0))))) = Some (map FireWatcher js, s2) \<and>
     ps_timers s2 = [\<lparr>t_id = 1, t_when = 9000, t_action = Some 2\<rparr>, \<lparr>t_id = 0, t_when = 1000, t_action = Some (1 :: nat)\<rparr>]"
proof -
  let ?s = "snd (executeAfter 0 1 (Some (1 :: nat)) (ps_new 7 0 0))"
  have "linked ?s []"
    using linked_new by (simp add: executeAfter_def insertIntoTimersList_def linked_def)
  from late_timer_blocks [OF this, of 0 9 5000 "Some 2" 1 "snd (executeAfter 0 9 (Some 2) ?s)"] show ?thesis
    by (auto simp: executeAfter_def insertIntoTimersList_def mtime_plus_def ps_new_def)
qed

text \<open>An overdue timer at the front does not make the loop hurry: the difference to the current time wraps
  around, and without watchers the loop waits for the whole six seconds it allows itself.\<close>

theorem overdue_timer_waits:
  assumes "ps_tasks s = []" "ps_first s = None" "ps_timers s = t # ts"
    "t_when t div 1000 < now div 1000" "now < 2 ^ 62"
  shows "nextTimeout now s = 6 * 1000000"
proof -
  let ?a = "t_when t div 1000" and ?b = "now div 1000"
  have "unat ?b < 2 ^ 62" using assms(5) by (simp add: unat_div word_less_nat_alt)
  moreover have "unat ?a < unat ?b" using assms(4) by (simp add: word_less_nat_alt)
  ultimately have "unat (?a - ?b) = unat ?a + 2 ^ 64 - unat ?b" by (subst unat_sub_if') simp
  then have "(6 * 1000000 :: u64) \<le> ?a - ?b"
    using \<open>unat ?b < 2 ^ 62\<close> by (simp add: word_le_nat_alt)
  then show ?thesis using assms(1-3) by (auto simp: nextTimeout_def mtime_minus_def min_def Let_def)
qed

theorem overdue_timer_waits_witness:
  "nextTimeout 9000 ((two_watched 5000)\<lparr>ps_first := None, ps_timers := [\<lparr>t_id = 0, t_when = 1000, t_action = None\<rparr>]\<rparr>) =
     6 * 1000000"
  using overdue_timer_waits [of "(two_watched 5000)\<lparr>ps_first := None,
      ps_timers := [\<lparr>t_id = 0, t_when = 1000, t_action = None\<rparr>]\<rparr>" "\<lparr>t_id = 0, t_when = 1000, t_action = None\<rparr>" "[]" 9000]
  by (simp add: two_watched_def)

text \<open>Cancelling the watcher of a descriptor does not stop it: when the descriptor becomes ready, its
  callback is invoked all the same.\<close>

theorem cancelled_watcher_fires:
  assumes "linked s is" "fd \<in> set is" "int fd \<in> inp"
  shows "\<exists>js s'. collect_jobs inp outp now (cancelFD (int fd) s) = Some (js, s') \<and>
    Call (w_onIO (the_watcher s fd)) \<in> set js"
proof -
  have "linked (cancelFD (int fd) s) is" using assms(1) by (simp add: cancelFD_linked)
  from collect_jobs_ok [OF this refl, of inp outp now] show ?thesis
    using assms(2,3) by (auto simp: cancelFD_onIO active_def)
qed

theorem cancelled_watcher_fires_witness:
  "\<exists>js s'. collect_jobs {1} {} 0 (cancelFD 1 (two_watched 5000)) = Some (js, s') \<and> Call (Some 11) \<in> set js"
  using cancelled_watcher_fires [OF two_watched_linked [of 5000], of 1 "{1}" "{}" 0]
  by (simp add: two_watched_def the_watcher_def)

text \<open>One turn of the loop returns for every list of watchers of descriptors that fit an \<open>fd_set\<close>,
  whatever \<open>select\<close> answers and the callbacks do.\<close>

theorem loop_turn_returns:
  assumes "linked s is" "list_all (\<lambda>i. i < 1024) is"
  shows "\<exists>s'. runLoopOnce run select before now s = ret s'"
proof -
  obtain inp outp m where w: "watch_sets (ps_first s) {} {} 0 s = ret (inp, outp, m)"
    using watch_sets_ok [of s "[]" "is" 1024 0 "{}" "{}"] assms linked_first [OF assms(1)] by (auto simp: list_all_iff)
  obtain inp' outp' where sel: "select (m + 1) (insert (ps_pipe s) inp) outp (nextTimeout before s) = (inp', outp')" by fastforce
  show ?thesis
    using collect_jobs_ok [OF assms(1) refl, of inp' outp' now] w sel by (auto simp: runLoopOnce_def)
qed

theorem loop_turn_returns_witness:
  "\<exists>s'. runLoopOnce (\<lambda>k s. s) (\<lambda>n a b t. ({}, {})) 0 0 (two_watched 5000) = ret s'"
  using loop_turn_returns [OF two_watched_linked [of 5000]] by simp

text \<open>The first argument of \<open>select\<close> does not count the wakeup pipe: when the pipe has a higher number than
  every watched descriptor, it is beyond the descriptors that \<open>select\<close> looks at, and \<open>breakLoop\<close> does not
  end the wait.\<close>

theorem wakeup_pipe_not_selected:
  assumes "linked s is" "list_all (\<lambda>i. i < 1024) is" "list_all (\<lambda>i. int i < ps_pipe s) is" "0 < ps_pipe s"
  shows "\<exists>inp outp m. watch_sets (ps_first s) {} {} 0 s = ret (inp, outp, m) \<and> m + 1 \<le> ps_pipe s"
  using watch_sets_ok [of s "[]" "is" "ps_pipe s" 0 "{}" "{}"] assms linked_first [OF assms(1)] by fastforce

theorem wakeup_pipe_not_selected_witness:
  "\<exists>inp outp m. watch_sets (Some 0) {} {} 0 (two_watched 5000) = ret (inp, outp, m) \<and> m + 1 \<le> 7"
  using wakeup_pipe_not_selected [OF two_watched_linked [of 5000]] by (simp add: two_watched_def)

end
