(* ===== verification/Stx_JSONDocument.thy ===== *)
theory Stx_JSONDocument
  imports Stx_JSONUtil "HOL-Library.Char_ord" "HOL-Library.List_Lexorder"
begin

text \<open>
  JSON documents as flat lists of pointers and values: \<open>json/flatjsonreader.cc\<close> and
  \<open>json/jsondocument.cc\<close>. The callback of the reader appends to the list \<open>data_\<close>, so the reader
  returns that list. \<open>walk\<close> is what the reader does to a value tree, \<open>leaves\<close> what a document means.
\<close>

section \<open>FlatJSONReader\<close>

text \<open>
  \<open>readObject\<close> and \<open>readArray\<close> call each other: they are one recursive function with the kind of the
  bracket that is open, and the index of the next element of an array. It returns the path as it leaves
  it, the data and the stream.
\<close>

datatype flat_mode = InObject | InArray nat

definition flat_key :: "kTokenType \<Rightarrow> string \<Rightarrow> string result" where
  "flat_key token str =
     (case token of
        JSON_STRING \<Rightarrow> Inr str | JSON_NUMBER \<Rightarrow> Inr str
      | JSON_TRUE \<Rightarrow> Inr ''true'' | JSON_FALSE \<Rightarrow> Inr ''false'' | JSON_NULL \<Rightarrow> Inr ''null''
      | _ \<Rightarrow> Inl kRuntimeError)"

definition flat_member :: "kTokenType \<Rightarrow> string \<Rightarrow> string result" where
  "flat_member token str =
     (if token \<in> {JSON_STRING, JSON_NUMBER, JSON_TRUE, JSON_FALSE, JSON_NULL} then Inr str else Inl kRuntimeError)"

definition flat_element :: "kTokenType \<Rightarrow> string \<Rightarrow> string result" where
  "flat_element token str =
     (case token of
        JSON_STRING \<Rightarrow> Inr str | JSON_NUMBER \<Rightarrow> Inr str
      | JSON_TRUE \<Rightarrow> Inr ''true'' | JSON_FALSE \<Rightarrow> Inr ''false'' | JSON_NULL \<Rightarrow> Inr ''null''
      | _ \<Rightarrow> Inl kRuntimeError)"

type_synonym json_data = "(string \<times> string) list"

definition next_token :: "'s byte_reader \<Rightarrow> 's json_is \<Rightarrow> (kTokenType \<times> string \<times> 's json_is) comp" where
  "next_token rb s =
     bindC (readNextToken rb s) (\<lambda>(t, s).
       case t of None \<Rightarrow> raise kRuntimeError | Some (token, str) \<Rightarrow> ret (token, str, s))"

definition path_push :: "string \<Rightarrow> string \<Rightarrow> string comp" where
  "path_push path str = map_option Inr (ptr_push path str)"

partial_function (option) flat_loop ::
  "'s byte_reader \<Rightarrow> flat_mode \<Rightarrow> string \<Rightarrow> json_data \<Rightarrow> 's json_is \<Rightarrow> (string \<times> json_data \<times> 's json_is) comp" where
  "flat_loop rb mode path data s =
     bindC (next_token rb s) (\<lambda>(token, str, s).
       case mode of
         InObject \<Rightarrow>
           if token = JSON_OBJECT_END then ret (path, data, s)
           else
             bindC (Some (flat_key token str)) (\<lambda>key.
             bindC (path_push path key) (\<lambda>path.
             bindC (next_token rb s) (\<lambda>(token, str, s).
             bindC (if token = JSON_OBJECT_BEGIN then flat_loop rb InObject path data s
                    else if token = JSON_ARRAY_BEGIN then flat_loop rb (InArray 0) path data s
                    else bindC (Some (flat_member token str)) (\<lambda>v. ret (path, data @ [(path, v)], s))) (\<lambda>(path, data, s).
             bindC (Some (ptr_pop path)) (\<lambda>path. flat_loop rb InObject path data s)))))
       | InArray i \<Rightarrow>
           bindC (path_push path (to_string i)) (\<lambda>path.
             if token = JSON_ARRAY_END then ret (path, data, s)
             else
               bindC (if token = JSON_OBJECT_BEGIN then flat_loop rb InObject path data s
                      else if token = JSON_ARRAY_BEGIN then flat_loop rb (InArray 0) path data s
                      else bindC (Some (flat_element token str)) (\<lambda>v. ret (path, data @ [(path, v)], s))) (\<lambda>(path, data, s).
               bindC (Some (ptr_pop path)) (\<lambda>path. flat_loop rb (InArray (i + 1)) path data s))))"

declare flat_loop.simps [code]

definition flat_read :: "'s byte_reader \<Rightarrow> 's json_is \<Rightarrow> json_data comp" where
  "flat_read rb s =
     bindC (next_token rb s) (\<lambda>(token, str, s).
       bindC (if token = JSON_OBJECT_BEGIN then flat_loop rb InObject [] [] s
              else if token = JSON_ARRAY_BEGIN then flat_loop rb (InArray 0) [] [] s
              else raise kRuntimeError) (\<lambda>(path, data, s). ret data))"

section \<open>JSONDocument\<close>

definition JSONDocument :: "string \<Rightarrow> json_data comp" where
  "JSONDocument json = flat_read sis_readNextByte (jis_new (sis_new json))"

definition doc_getMaybe :: "string \<Rightarrow> json_data \<Rightarrow> string option" where
  "doc_getMaybe path data = map_option snd (find (\<lambda>pair. fst pair = path) data)"

definition doc_getMaybeAs :: "(string \<Rightarrow> 'a result) \<Rightarrow> string \<Rightarrow> json_data \<Rightarrow> 'a option result" where
  "doc_getMaybeAs conv path data =
     (case doc_getMaybe path data of
        None \<Rightarrow> Inr None
      | Some v \<Rightarrow> (case conv v of Inr x \<Rightarrow> Inr (Some x) | Inl e \<Rightarrow> Inl kIllegalArgumentError))"

definition doc_getMaybeAs_uint64 :: "string \<Rightarrow> json_data \<Rightarrow> u64 option result" where
  "doc_getMaybeAs_uint64 = doc_getMaybeAs stoul"

definition doc_get :: "string \<Rightarrow> json_data \<Rightarrow> string result" where
  "doc_get path data = (case doc_getMaybe path data of None \<Rightarrow> Inl kIndexError | Some v \<Rightarrow> Inr v)"

definition doc_get_or :: "string \<Rightarrow> string \<Rightarrow> json_data \<Rightarrow> string" where
  "doc_get_or path fallback data = (case doc_getMaybe path data of None \<Rightarrow> fallback | Some v \<Rightarrow> v)"

definition doc_getAs :: "(string \<Rightarrow> 'a result) \<Rightarrow> string \<Rightarrow> json_data \<Rightarrow> 'a result" where
  "doc_getAs conv path data =
     bindE (doc_getMaybeAs conv path data) (\<lambda>r. case r of None \<Rightarrow> Inl kIndexError | Some v \<Rightarrow> Inr v)"

definition doc_getAs_or :: "(string \<Rightarrow> 'a result) \<Rightarrow> string \<Rightarrow> 'a \<Rightarrow> json_data \<Rightarrow> 'a result" where
  "doc_getAs_or conv path fallback data =
     bindE (doc_getMaybeAs conv path data) (\<lambda>r. case r of None \<Rightarrow> Inr fallback | Some v \<Rightarrow> Inr v)"

text \<open>
  \<open>forEach\<close>: the pointers its callback is called with. They are collected in a \<open>std::set\<close>, which is
  ordered by the bytes of the strings.
\<close>

definition doc_child :: "string \<Rightarrow> string \<Rightarrow> string" where
  "doc_child pre elem_path = pre @ takeWhile (\<lambda>c. c \<noteq> CHR ''/'') (drop (length pre) elem_path)"

definition doc_forEach :: "string \<Rightarrow> json_data \<Rightarrow> string list result" where
  "doc_forEach path data =
     bindE (stripTrailingSlashes path) (\<lambda>pre.
       let pre = pre @ ''/''
       in Inr (sort (remdups (map (doc_child pre) (filter (\<lambda>p. beginsWith p pre) (map fst data))))))"

section \<open>What the reader does to a document\<close>

text \<open>The text of a path.\<close>

definition ptr_text :: "string list \<Rightarrow> string" where
  "ptr_text ps = concat (map (\<lambda>c. CHR ''/'' # concat (map esc c)) ps)"

lemma ptr_text_simps [simp]:
  "ptr_text [] = []" "ptr_text (c # ps) = CHR ''/'' # concat (map esc c) @ ptr_text ps"
  "ptr_text (ps @ qs) = ptr_text ps @ ptr_text qs"
  by (simp_all add: ptr_text_def)

lemma path_push_text [simp]: "path_push (ptr_text ps) c = ret (ptr_text (ps @ [c]))"
  by (simp add: path_push_def ptr_push_def ptr_escape_eq)

lemma ptr_pop_text: "ps \<noteq> [] \<Longrightarrow> ptr_pop (ptr_text ps) = Inr (ptr_text (butlast ps))"
proof (induction ps rule: rev_induct)
  case (snoc c ps)
  obtain p' where "ptr_push (ptr_text ps) c = Some p'" "ptr_pop p' = Inr (ptr_text ps)" by (rule ptr_push_pop)
  then show ?case by (auto simp: ptr_push_def ptr_escape_eq)
qed simp

lemma esc_concat_split:
  "concat (map esc c) @ ptr_text ps = concat (map esc d) @ ptr_text qs \<longleftrightarrow> c = d \<and> ptr_text ps = ptr_text qs"
proof -
  have tw: "takeWhile (\<lambda>x. x \<noteq> CHR ''/'') (concat (map esc c) @ ptr_text ps) = concat (map esc c)" for c ps
  proof -
    have "takeWhile (\<lambda>x. x \<noteq> CHR ''/'') (concat (map esc c)) = concat (map esc c)"
      using esc_no_slash [of c] by (subst takeWhile_eq_all_conv) blast
    then show ?thesis by (cases ps) (simp_all add: takeWhile_append)
  qed
  show ?thesis
    using tw [of c ps] tw [of d qs] concat_esc_inject by (metis same_append_eq)
qed

lemma ptr_text_inject [simp]: "ptr_text ps = ptr_text qs \<longleftrightarrow> ps = qs"
proof (induction ps arbitrary: qs)
  case (Cons c ps)
  then show ?case by (cases qs) (auto simp: esc_concat_split)
next
  case Nil
  then show ?case by (cases qs) simp_all
qed

text \<open>
  The walk: the path that is left behind and the entries found. At the end of an array the index of the
  element that is not there stays on the path.
\<close>

fun member_text :: "jvalue \<Rightarrow> string" where
  "member_text (JStr d) = d"
| "member_text (JNum d) = d"
| "member_text v = []"

fun element_text :: "jvalue \<Rightarrow> string" where
  "element_text (JStr d) = d"
| "element_text (JNum d) = d"
| "element_text JTrue = ''true''"
| "element_text JFalse = ''false''"
| "element_text v = ''null''"

fun composite :: "jvalue \<Rightarrow> bool" where
  "composite (JObj kvs) = True"
| "composite (JArr vs) = True"
| "composite v = False"

type_synonym entries = "(string list \<times> string) list"

fun walk :: "jvalue \<Rightarrow> string list \<Rightarrow> string list \<times> entries"
  and walk_members :: "(string \<times> jvalue) list \<Rightarrow> string list \<Rightarrow> string list \<times> entries"
  and walk_elements :: "nat \<Rightarrow> jvalue list \<Rightarrow> string list \<Rightarrow> string list \<times> entries" where
  "walk (JObj kvs) p = walk_members kvs p"
| "walk (JArr vs) p = walk_elements 0 vs p"
| "walk v p = (p, [])"
| "walk_members [] p = (p, [])"
| "walk_members ((k, v) # kvs) p =
     (let w = (if composite v then walk v (p @ [k]) else (p @ [k], [(p @ [k], member_text v)]));
          m = walk_members kvs (butlast (fst w))
      in (fst m, snd w @ snd m))"
| "walk_elements i [] p = (p @ [to_string i], [])"
| "walk_elements i (v # vs) p =
     (let q = p @ [to_string i];
          w = (if composite v then walk v q else (q, [(q, element_text v)]));
          m = walk_elements (i + 1) vs (butlast (fst w))
      in (fst m, snd w @ snd m))"

lemma walk_path_grows:
  "length p \<le> length (fst (walk v p))" "length p \<le> length (fst (walk_members kvs p))"
  "length p \<le> length (fst (walk_elements i vs p))"
proof (induction v p and kvs p and i vs p rule: walk_walk_members_walk_elements.induct)
  case (5 k v kvs p)
  then show ?case by (cases "composite v") (fastforce simp: Let_def)+
next
  case (7 i v vs p)
  then show ?case by (cases "composite v") (fastforce simp: Let_def)+
qed (simp_all add: Let_def)

section \<open>The reader walks\<close>

text \<open>The tokens the stream delivers next.\<close>

fun delivers :: "'s byte_reader \<Rightarrow> 's json_is \<Rightarrow> (kTokenType \<times> string) list \<Rightarrow> bool" where
  "delivers rb s [] \<longleftrightarrow> True"
| "delivers rb s (t # ts) \<longleftrightarrow> (\<exists>s'. readNextToken rb s = ret (Some t, s') \<and> delivers rb s' ts)"

lemma delivers_next: "delivers rb s ((tok, d) # ts) \<Longrightarrow> \<exists>s'. next_token rb s = ret (tok, d, s') \<and> delivers rb s' ts"
  by (auto simp: next_token_def)

definition flat_of :: "entries \<Rightarrow> json_data" where
  "flat_of es = map (\<lambda>(p, d). (ptr_text p, d)) es"

lemma flat_of_simps [simp]:
  "flat_of [] = []" "flat_of ((p, d) # es) = (ptr_text p, d) # flat_of es" "flat_of (es @ fs) = flat_of es @ flat_of fs"
  by (simp_all add: flat_of_def)

abbreviation member_tokens :: "(string \<times> jvalue) list \<Rightarrow> (kTokenType \<times> string) list" where
  "member_tokens kvs \<equiv> raw (concat (map (\<lambda>kv. JSONToken JSON_STRING (fst kv) # flatten (snd kv)) kvs))"

fun mode_of :: "jvalue \<Rightarrow> flat_mode" where
  "mode_of (JArr vs) = InArray 0"
| "mode_of v = InObject"

fun begin_of :: "jvalue \<Rightarrow> kTokenType" where
  "begin_of (JArr vs) = JSON_ARRAY_BEGIN"
| "begin_of v = JSON_OBJECT_BEGIN"

lemma begin_mode:
  "composite v \<Longrightarrow>
   begin_of v = JSON_OBJECT_BEGIN \<and> mode_of v = InObject \<or> begin_of v = JSON_ARRAY_BEGIN \<and> mode_of v = InArray 0"
  by (cases v) simp_all

lemma delivers_composite:
  assumes "composite v" "delivers rb s (raw (flatten v) @ ts)"
  obtains s' where "next_token rb s = ret (begin_of v, [], s')" "delivers rb s' (tl (raw (flatten v)) @ ts)"
  using assms delivers_next [of rb s "begin_of v" "[]" "tl (raw (flatten v)) @ ts"] by (cases v) auto

lemma delivers_scalar:
  assumes "\<not> composite v" "delivers rb s (raw (flatten v) @ ts)"
  obtains tok d s' where "next_token rb s = ret (tok, d, s')" "delivers rb s' ts"
    "flat_member tok d = Inr (member_text v)" "flat_element tok d = Inr (element_text v)"
    "tok \<noteq> JSON_OBJECT_BEGIN" "tok \<noteq> JSON_ARRAY_BEGIN" "tok \<noteq> JSON_OBJECT_END" "tok \<noteq> JSON_ARRAY_END"
  using assms delivers_next [of rb s _ _ ts]
  by (cases v) (auto simp: JSONToken_def flat_member_def flat_element_def next_token_def)

text \<open>The value after its first token has been read.\<close>

definition flat_at ::
  "'s byte_reader \<Rightarrow> (kTokenType \<Rightarrow> string \<Rightarrow> string result) \<Rightarrow> string \<Rightarrow> json_data \<Rightarrow> kTokenType \<Rightarrow> string \<Rightarrow> 's json_is \<Rightarrow>
    (string \<times> json_data \<times> 's json_is) comp" where
  "flat_at rb conv path data token str s =
     (if token = JSON_OBJECT_BEGIN then flat_loop rb InObject path data s
      else if token = JSON_ARRAY_BEGIN then flat_loop rb (InArray 0) path data s
      else bindC (Some (conv token str)) (\<lambda>v. ret (path, data @ [(path, v)], s)))"

lemma flat_loop_member:
  assumes "next_token rb s = ret (JSON_STRING, k, s1)" "next_token rb s1 = ret (tok, d, s2)"
    "flat_at rb flat_member (ptr_text (p @ [k])) data tok d s2 = ret (ptr_text q, data', s3)" "q \<noteq> []"
  shows "flat_loop rb InObject (ptr_text p) data s = flat_loop rb InObject (ptr_text (butlast q)) data' s3"
  using assms
  by (subst flat_loop.simps) (simp add: flat_key_def flat_at_def ptr_pop_text del: ptr_text_simps)

lemma flat_loop_element:
  assumes "next_token rb s = ret (tok, d, s2)" "tok \<noteq> JSON_ARRAY_END"
    "flat_at rb flat_element (ptr_text (p @ [to_string i])) data tok d s2 = ret (ptr_text q, data', s3)" "q \<noteq> []"
  shows "flat_loop rb (InArray i) (ptr_text p) data s = flat_loop rb (InArray (i + 1)) (ptr_text (butlast q)) data' s3"
  using assms by (subst flat_loop.simps) (simp add: flat_at_def ptr_pop_text del: ptr_text_simps)

lemma flat_at_walks:
  assumes "delivers rb s (raw (flatten v) @ ts)" "q \<noteq> []"
    and conv: "conv = flat_member \<and> txt0 = member_text v \<or> conv = flat_element \<and> txt0 = element_text v"
    and walks: "\<And>s. composite v \<Longrightarrow> delivers rb s (tl (raw (flatten v)) @ ts) \<Longrightarrow>
      \<exists>s'. flat_loop rb (mode_of v) (ptr_text q) data s =
        ret (ptr_text (fst (walk v q)), data @ flat_of (snd (walk v q)), s') \<and> delivers rb s' ts"
  shows "\<exists>tok d s1 s2. let w = (if composite v then walk v q else (q, [(q, txt0)])) in
    next_token rb s = ret (tok, d, s1) \<and> tok \<noteq> JSON_ARRAY_END \<and> fst w \<noteq> [] \<and> delivers rb s2 ts \<and>
    flat_at rb conv (ptr_text q) data tok d s1 = ret (ptr_text (fst w), data @ flat_of (snd w), s2)"
proof (cases "composite v")
  case True
  obtain s1 where s1: "next_token rb s = ret (begin_of v, [], s1)" "delivers rb s1 (tl (raw (flatten v)) @ ts)"
    by (rule delivers_composite [OF True assms(1)])
  moreover have "fst (walk v q) \<noteq> []" using walk_path_grows(1) [of q v] assms(2) by auto
  moreover obtain s2 where "flat_loop rb (mode_of v) (ptr_text q) data s1 =
      ret (ptr_text (fst (walk v q)), data @ flat_of (snd (walk v q)), s2)" "delivers rb s2 ts"
    using walks [OF True s1(2)] by blast
  ultimately show ?thesis
    using begin_mode [OF True] True
    by (intro exI [of _ "begin_of v"] exI [of _ "[]"] exI [of _ s1] exI [of _ s2]) (auto simp: flat_at_def Let_def)
next
  case False
  obtain tok d s1 where "next_token rb s = ret (tok, d, s1)" "delivers rb s1 ts"
    "flat_member tok d = Inr (member_text v)" "flat_element tok d = Inr (element_text v)"
    "tok \<noteq> JSON_OBJECT_BEGIN" "tok \<noteq> JSON_ARRAY_BEGIN" "tok \<noteq> JSON_ARRAY_END"
    by (rule delivers_scalar [OF False assms(1)])
  then show ?thesis
    using False assms(2) conv
    by (intro exI [of _ tok] exI [of _ d] exI [of _ s1]) (auto simp: flat_at_def Let_def)
qed

lemma flat_loop_walks:
  "composite v \<Longrightarrow> delivers rb s (tl (raw (flatten v)) @ ts) \<Longrightarrow>
     \<exists>s'. flat_loop rb (mode_of v) (ptr_text p) data s = ret (ptr_text (fst (walk v p)), data @ flat_of (snd (walk v p)), s') \<and>
       delivers rb s' ts"
  "delivers rb s (member_tokens kvs @ (JSON_OBJECT_END, []) # ts) \<Longrightarrow>
     \<exists>s'. flat_loop rb InObject (ptr_text p) data s =
         ret (ptr_text (fst (walk_members kvs p)), data @ flat_of (snd (walk_members kvs p)), s') \<and> delivers rb s' ts"
  "delivers rb s (raw (concat (map flatten vs)) @ (JSON_ARRAY_END, []) # ts) \<Longrightarrow>
     \<exists>s'. flat_loop rb (InArray i) (ptr_text p) data s =
         ret (ptr_text (fst (walk_elements i vs p)), data @ flat_of (snd (walk_elements i vs p)), s') \<and> delivers rb s' ts"
proof (induction v p and kvs p and i vs p arbitrary: s ts data and s ts data and s ts data
    rule: walk_walk_members_walk_elements.induct)
  case (4 p)
  then obtain s' where "next_token rb s = ret (JSON_OBJECT_END, [], s')" "delivers rb s' ts"
    using delivers_next by fastforce
  then show ?case by (subst flat_loop.simps) simp
next
  case (6 i p)
  then obtain s' where "next_token rb s = ret (JSON_ARRAY_END, [], s')" "delivers rb s' ts"
    using delivers_next by fastforce
  then show ?case by (subst flat_loop.simps) (simp del: ptr_text_simps)
next
  case (5 k v kvs p)
  let ?rest = "member_tokens kvs @ (JSON_OBJECT_END, []) # ts" and ?q = "p @ [k]"
  let ?w = "if composite v then walk v ?q else (?q, [(?q, member_text v)])"
  obtain s1 where s1: "next_token rb s = ret (JSON_STRING, k, s1)" "delivers rb s1 (raw (flatten v) @ ?rest)"
    using 5(3) delivers_next [of rb s JSON_STRING k] by (auto simp: JSONToken_def)
  obtain tok d s2 s3 where s3: "next_token rb s1 = ret (tok, d, s2)" "fst ?w \<noteq> []" "delivers rb s3 ?rest"
    "flat_at rb flat_member (ptr_text ?q) data tok d s2 = ret (ptr_text (fst ?w), data @ flat_of (snd ?w), s3)"
    using flat_at_walks [OF s1(2), of ?q flat_member "member_text v" data] 5(1) by (auto simp: Let_def)
  show ?case
    unfolding flat_loop_member [OF s1(1) s3(1,4,2)]
    using 5(2) [OF refl s3(3), of "data @ flat_of (snd ?w)"] by (simp add: Let_def del: ptr_text_simps)
next
  case (7 i v vs p)
  let ?rest = "raw (concat (map flatten vs)) @ (JSON_ARRAY_END, []) # ts" and ?q = "p @ [to_string i]"
  let ?w = "if composite v then walk v ?q else (?q, [(?q, element_text v)])"
  have d: "delivers rb s (raw (flatten v) @ ?rest)" using 7(3) by simp
  obtain tok d s2 s3 where s3: "next_token rb s = ret (tok, d, s2)" "tok \<noteq> JSON_ARRAY_END" "fst ?w \<noteq> []" "delivers rb s3 ?rest"
    "flat_at rb flat_element (ptr_text ?q) data tok d s2 = ret (ptr_text (fst ?w), data @ flat_of (snd ?w), s3)"
    using flat_at_walks [OF d, of ?q flat_element "element_text v" data] 7(1) [OF refl] by (auto simp: Let_def)
  show ?case
    unfolding flat_loop_element [OF s3(1,2,5,3)]
    using 7(2) [OF refl refl s3(4), of "data @ flat_of (snd ?w)"] by (simp add: Let_def del: ptr_text_simps)
qed simp_all

context byte_source
begin

lemma delivers_stream:
  "token_stream ts txt0 \<Longrightarrow> list_all (\<lambda>(t, d). list_all json_safe_chr d) ts \<Longrightarrow> jis_at s txt0 \<Longrightarrow>
   delivers rb s (map (\<lambda>(t, d). reread t d) ts)"
proof (induction ts txt0 arbitrary: s rule: token_stream.induct)
  case (ts_Cons sep ts txt0 t d)
  obtain s1 where s1: "readNextToken rb s = readNextToken rb s1" "jis_at s1 (token_text t d @ txt0)"
    using readNextToken_sep [OF ts_Cons.prems(2) ts_Cons.hyps(1)] by blast
  then obtain s2 where s2: "readNextToken rb s = ret (Some (reread t d), s2)" "jis_at s2 txt0"
    using readNextToken_token [OF s1(2)] ts_Cons.prems(1) by auto
  with ts_Cons.IH [OF _ s2(2)] ts_Cons.prems(1) show ?case by auto
qed simp

lemma delivers_document:
  assumes "token_stream (raw (flatten v)) (rest i)" "json_safe v" "invar i"
  shows "delivers rb (jis_new i) (raw (flatten (quote_numbers v)))"
proof -
  have safe: "list_all (\<lambda>(t, d). list_all json_safe_chr d) (raw (flatten v))"
    using json_safe_flatten [OF assms(2)] by (auto simp: list_all_iff)
  have "jis_at (jis_new i) ('' '' @ rest i)" using jis_at_new [OF assms(3)] by simp
  then obtain s1 where s1: "readNextToken rb (jis_new i) = readNextToken rb s1" "jis_at s1 (rest i)"
    using readNextToken_sep [of "jis_new i" "'' ''"] by auto
  have "delivers rb s1 (raw (flatten (quote_numbers v)))"
    using delivers_stream [OF assms(1) safe s1(2)] by (simp only: reread_flatten)
  with s1(1) show ?thesis by (cases "raw (flatten (quote_numbers v))") simp_all
qed

end

text \<open>Quoting numbers changes nothing for the reader.\<close>

lemma quote_numbers_texts [simp]:
  "composite (quote_numbers v) = composite v" "member_text (quote_numbers v) = member_text v"
  "element_text (quote_numbers v) = element_text v"
  by (cases v; simp)+

lemma walk_quote_numbers:
  "walk (quote_numbers v) p = walk v p"
  "walk_members (map (\<lambda>kv. (fst kv, quote_numbers (snd kv))) kvs) p = walk_members kvs p"
  "walk_elements i (map quote_numbers vs) p = walk_elements i vs p"
proof (induction v p and kvs p and i vs p rule: walk_walk_members_walk_elements.induct)
  case (5 k v kvs p)
  then show ?case by (cases "composite v") (simp_all add: Let_def)
next
  case (7 i v vs p)
  then show ?case by (cases "composite v") (simp_all add: Let_def)
qed simp_all

lemma JSONDocument_walks:
  assumes "json_safe v" "composite v"
  shows "\<exists>stack str. jos_write sos_write (flatten v) ([], []) = ret (stack, str) \<and>
    JSONDocument str = ret (flat_of (snd (walk v [])))"
proof -
  obtain stack str txt0 where w: "jos_write sos_write (flatten v) ([], []) = ret (stack, str)"
    "token_stream (raw (flatten v)) txt0" "bytes_of str = bytes_of txt0"
    using sos.jos_write_ok [where ts = "flatten v" and stack = "[]" and out = "[]"] by auto
  let ?w = "quote_numbers v" and ?s = "jis_new (sis_new str)"
  have "token_stream (raw (flatten v)) (sis_rest (sis_new str))"
    using w(2,3) bytes_of_inject by (simp add: sis_rest_def sis_new_def)
  then have d: "delivers sis_readNextByte ?s (raw (flatten ?w) @ [])"
    using sis.delivers_document [OF _ assms(1)] by (simp add: sis_invar_def sis_new_def)
  have c: "composite ?w" using assms(2) by simp
  obtain s1 where s1: "next_token sis_readNextByte ?s = ret (begin_of ?w, [], s1)"
    "delivers sis_readNextByte s1 (tl (raw (flatten ?w)) @ [])" by (rule delivers_composite [OF c d])
  obtain s2 where "flat_loop sis_readNextByte (mode_of ?w) (ptr_text []) [] s1 =
      ret (ptr_text (fst (walk ?w [])), [] @ flat_of (snd (walk ?w [])), s2)"
    using flat_loop_walks(1) [OF c s1(2), where p = "[]" and data = "[]"] by blast
  then show ?thesis
    using w(1) s1(1) begin_mode [of ?w] assms(2)
    by (auto simp: JSONDocument_def flat_read_def walk_quote_numbers)
qed

section \<open>What a document means\<close>

fun leaves :: "jvalue \<Rightarrow> string list \<Rightarrow> entries"
  and leaves_members :: "(string \<times> jvalue) list \<Rightarrow> string list \<Rightarrow> entries"
  and leaves_elements :: "nat \<Rightarrow> jvalue list \<Rightarrow> string list \<Rightarrow> entries" where
  "leaves (JObj kvs) p = leaves_members kvs p"
| "leaves (JArr vs) p = leaves_elements 0 vs p"
| "leaves v p = []"
| "leaves_members [] p = []"
| "leaves_members ((k, v) # kvs) p =
     (if composite v then leaves v (p @ [k]) else [(p @ [k], member_text v)]) @ leaves_members kvs p"
| "leaves_elements i [] p = []"
| "leaves_elements i (v # vs) p =
     (if composite v then leaves v (p @ [to_string i]) else [(p @ [to_string i], element_text v)]) @
     leaves_elements (i + 1) vs p"

fun no_array :: "jvalue \<Rightarrow> bool" where
  "no_array (JObj kvs) \<longleftrightarrow> (\<forall>kv \<in> set kvs. no_array (snd kv))"
| "no_array (JArr vs) \<longleftrightarrow> False"
| "no_array v \<longleftrightarrow> True"

text \<open>Documents in which nothing follows an array that is part of another value.\<close>

fun arrays_last :: "jvalue \<Rightarrow> bool"
  and arrays_last_members :: "(string \<times> jvalue) list \<Rightarrow> bool"
  and arrays_last_elements :: "jvalue list \<Rightarrow> bool" where
  "arrays_last (JObj kvs) \<longleftrightarrow> arrays_last_members kvs"
| "arrays_last (JArr vs) \<longleftrightarrow> arrays_last_elements vs"
| "arrays_last v \<longleftrightarrow> True"
| "arrays_last_members [] \<longleftrightarrow> True"
| "arrays_last_members ((k, v) # kvs) \<longleftrightarrow> (if kvs = [] then arrays_last v else no_array v \<and> arrays_last_members kvs)"
| "arrays_last_elements [] \<longleftrightarrow> True"
| "arrays_last_elements (v # vs) \<longleftrightarrow> (if vs = [] then arrays_last v else no_array v \<and> arrays_last_elements vs)"

lemma walk_no_array:
  "no_array v \<Longrightarrow> walk v p = (p, leaves v p)"
  "(\<forall>kv \<in> set kvs. no_array (snd kv)) \<Longrightarrow> walk_members kvs p = (p, leaves_members kvs p)"
  "(\<forall>v \<in> set vs. no_array v) \<Longrightarrow> snd (walk_elements i vs p) = leaves_elements i vs p"
proof (induction v p and kvs p and i vs p rule: walk_walk_members_walk_elements.induct)
  case (5 k v kvs p)
  then show ?case by (cases "composite v") (simp_all add: Let_def)
next
  case (7 i v vs p)
  then show ?case by (cases "composite v") (simp_all add: Let_def)
qed simp_all

lemma walk_arrays_last:
  "arrays_last v \<Longrightarrow> snd (walk v p) = leaves v p"
  "arrays_last_members kvs \<Longrightarrow> snd (walk_members kvs p) = leaves_members kvs p"
  "arrays_last_elements vs \<Longrightarrow> snd (walk_elements i vs p) = leaves_elements i vs p"
proof (induction v p and kvs p and i vs p rule: walk_walk_members_walk_elements.induct)
  case (5 k v kvs p)
  then show ?case by (cases "kvs = []"; cases "composite v") (simp_all add: Let_def walk_no_array)
next
  case (7 i v vs p)
  then show ?case by (cases "vs = []"; cases "composite v") (simp_all add: Let_def walk_no_array)
qed simp_all

section \<open>Children\<close>

lemma slash_split:
  assumes "CHR ''/'' \<notin> set a" "CHR ''/'' \<notin> set b" "a @ CHR ''/'' # u = b @ w" "w = [] \<or> hd w = CHR ''/''"
  shows "a = b \<and> w = CHR ''/'' # u"
proof -
  have tw: "takeWhile (\<lambda>x. x \<noteq> CHR ''/'') (c @ t) = c" if "CHR ''/'' \<notin> set c" "t = [] \<or> hd t = CHR ''/''" for c t
    using that by (induction c) (cases t; auto)+
  have "a = b" using tw [OF assms(1), of "CHR ''/'' # u"] tw [OF assms(2,4)] assms(3) by simp
  with assms(3) show ?thesis by simp
qed

lemma ptr_text_start: "ptr_text r = [] \<or> hd (ptr_text r) = CHR ''/''"
  by (cases r) simp_all

lemma ptr_text_below:
  "ptr_text p @ CHR ''/'' # z = ptr_text q \<longleftrightarrow> (\<exists>c r. q = p @ c # r \<and> z = concat (map esc c) @ ptr_text r)"
proof (induction p arbitrary: q)
  case Nil
  then show ?case by (cases q) auto
next
  case (Cons a p)
  show ?case
  proof (cases q)
    case (Cons b q')
    have "ptr_text (a # p) @ CHR ''/'' # z = ptr_text q \<longleftrightarrow> a = b \<and> ptr_text p @ CHR ''/'' # z = ptr_text q'"
    proof
      assume "ptr_text (a # p) @ CHR ''/'' # z = ptr_text q"
      then have eq: "concat (map esc a) @ ptr_text p @ CHR ''/'' # z = concat (map esc b) @ ptr_text q'" using Cons by simp
      obtain u where u: "ptr_text p @ CHR ''/'' # z = CHR ''/'' # u" by (cases p) simp_all
      from slash_split [OF esc_no_slash esc_no_slash eq [unfolded u] ptr_text_start]
      show "a = b \<and> ptr_text p @ CHR ''/'' # z = ptr_text q'" using u concat_esc_inject by auto
    qed (simp add: Cons)
    with Cons.IH Cons show ?thesis by auto
  qed simp
qed

lemma beginsWith_text:
  "beginsWith (ptr_text q) (ptr_text p @ ''/'') \<longleftrightarrow> (\<exists>c r. q = p @ c # r)"
proof -
  have "beginsWith s pre \<longleftrightarrow> (\<exists>z. pre @ z = s)" for s pre
    by (auto simp: beginsWith_def not_less) (metis append_take_drop_id)
  then show ?thesis using ptr_text_below [of p _ q] by auto
qed

lemma doc_child_text: "doc_child (ptr_text p @ ''/'') (ptr_text (p @ c # r)) = ptr_text (p @ [c])"
proof -
  have "takeWhile (\<lambda>x. x \<noteq> CHR ''/'') (concat (map esc c)) = concat (map esc c)"
    using esc_no_slash [of c] by (subst takeWhile_eq_all_conv) blast
  then have "takeWhile (\<lambda>x. x \<noteq> CHR ''/'') (concat (map esc c) @ ptr_text r) = concat (map esc c)"
    by (cases r) (simp_all add: takeWhile_append)
  then show ?thesis by (simp add: doc_child_def)
qed

lemma stripTrailingSlashes_text:
  assumes "p \<noteq> []" "last p \<noteq> []"
  shows "stripTrailingSlashes (ptr_text p) = Inr (ptr_text p)"
proof -
  obtain ps cs c where p: "p = ps @ [cs @ [c]]" using assms by (metis append_butlast_last_id)
  have "last (esc c) \<noteq> CHR ''/''" "esc c \<noteq> []" by (simp_all add: esc_def)
  then show ?thesis using p by (subst stripTrailingSlashes.simps) simp
qed

lemma doc_forEach_text:
  assumes "p \<noteq> []" "last p \<noteq> []"
  shows "\<exists>cs. doc_forEach (ptr_text p) (flat_of es) = Inr cs \<and> sorted cs \<and> distinct cs \<and>
    set cs = (\<lambda>c. ptr_text (p @ [c])) ` {c. \<exists>r d. (p @ c # r, d) \<in> set es}"
proof -
  let ?pre = "ptr_text p @ ''/''"
  have "(q, d) \<in> set es \<Longrightarrow> beginsWith (ptr_text q) ?pre \<Longrightarrow>
      \<exists>c r. doc_child ?pre (ptr_text q) = ptr_text (p @ [c]) \<and> (p @ c # r, d) \<in> set es" for q d
    using beginsWith_text [of q p] doc_child_text by metis
  moreover have "(p @ c # r, d) \<in> set es \<Longrightarrow>
      beginsWith (ptr_text (p @ c # r)) ?pre \<and> doc_child ?pre (ptr_text (p @ c # r)) = ptr_text (p @ [c])" for c r d
    using beginsWith_text [of "p @ c # r" p] doc_child_text [of p c r] by blast
  ultimately have "doc_child ?pre ` {q \<in> fst ` set (flat_of es). beginsWith q ?pre} =
      (\<lambda>c. ptr_text (p @ [c])) ` {c. \<exists>r d. (p @ c # r, d) \<in> set es}"
    by (force simp: flat_of_def image_iff simp del: ptr_text_simps)
  then show ?thesis
    by (simp add: doc_forEach_def stripTrailingSlashes_text [OF assms] Let_def del: ptr_text_simps)
qed

lemma doc_getMaybe_text: "doc_getMaybe (ptr_text p) (flat_of es) = map_of es p"
  by (induction es) (auto simp: doc_getMaybe_def)

lemma walk_scalar_elements:
  "list_all (\<lambda>v. \<not> composite v) vs \<Longrightarrow>
   fst (walk_elements i vs p) = p @ [to_string (i + length vs)] \<and>
   (\<forall>e \<in> set (snd (walk_elements i vs p)). length (fst e) = length p + 1)"
  by (induction vs arbitrary: i) (simp_all add: Let_def)

section \<open>Properties\<close>

text \<open>C26. A document read from the text of a JSON object or array has exactly one entry per scalar value, under its
  pointer, in order, and \<open>getMaybe\<close> answers with the first entry of a path, as long as no array inside of the value
  is followed by anything (\<open>arrays_last\<close>) and the texts contain no control characters that the reader drops. A string or a
  number is entered as its text; true, false and null are entered by name in arrays and as the empty text as members.\<close>

theorem json_document_entries:
  assumes "json_safe v" "composite v" "arrays_last v"
  shows "\<exists>stack str data. jos_write sos_write (flatten v) ([], []) = ret (stack, str) \<and> JSONDocument str = ret data \<and>
    data = map (\<lambda>(p, d). (ptr_text p, d)) (leaves v []) \<and> (\<forall>p. doc_getMaybe (ptr_text p) data = map_of (leaves v []) p)"
  using JSONDocument_walks [OF assms(1,2)] doc_getMaybe_text
  by (auto simp: walk_arrays_last(1) [OF assms(3)] flat_of_def)

theorem json_document_entries_witness:
  "\<exists>stack str data. jos_write sos_write (flatten (JObj [(''a'', JTrue), (''b'', JArr [JStr ''x'', JNull])])) ([], []) = ret (stack, str) \<and>
     JSONDocument str = ret data \<and> data = [(''/a'', []), (''/b/0'', ''x''), (''/b/1'', ''null'')]"
proof -
  have "ptr_text [''a''] = ''/a''" "ptr_text [''b'', to_string 0] = ''/b/0''" "ptr_text [''b'', to_string (Suc 0)] = ''/b/1''"
    by code_simp+
  then show ?thesis
    using json_document_entries [of "JObj [(''a'', JTrue), (''b'', JArr [JStr ''x'', JNull])]"]
    by (auto simp: json_safe_chr_def simp del: ptr_text_simps)
qed

text \<open>After an array the index of its end stays on the path: the member that follows an array is stored below the
  member that holds the array, and is not found under its own name.\<close>

theorem json_document_path_leak:
  assumes "json_safe (JObj [(k, JArr vs), (l, JStr x)])" "list_all (\<lambda>v. \<not> composite v) vs"
  shows "\<exists>stack str data. jos_write sos_write (flatten (JObj [(k, JArr vs), (l, JStr x)])) ([], []) = ret (stack, str) \<and>
    JSONDocument str = ret data \<and> doc_get (ptr_text [l]) data = Inl kIndexError \<and> (ptr_text [k, l], x) \<in> set data"
proof -
  let ?v = "JObj [(k, JArr vs), (l, JStr x)]"
  note ws = walk_scalar_elements [OF assms(2), of 0 "[k]"]
  then have w: "snd (walk ?v []) = snd (walk_elements 0 vs [k]) @ [([k, l], x)]" by (simp add: Let_def)
  then have "map_of (snd (walk ?v [])) [l] = None" using ws by (fastforce simp: map_of_eq_None_iff)
  then have "doc_get (ptr_text [l]) (flat_of (snd (walk ?v []))) = Inl kIndexError"
    by (simp add: doc_get_def doc_getMaybe_text del: ptr_text_simps)
  moreover have "(ptr_text [k, l], x) \<in> set (flat_of (snd (walk ?v [])))" unfolding w by (simp del: ptr_text_simps)
  ultimately show ?thesis using JSONDocument_walks [OF assms(1)] by (metis composite.simps(1))
qed

theorem json_document_path_leak_witness:
  "\<exists>stack str data. jos_write sos_write (flatten (JObj [(''a'', JArr [JTrue]), (''b'', JStr ''x'')])) ([], []) = ret (stack, str) \<and>
     JSONDocument str = ret data \<and> doc_get ''/b'' data = Inl kIndexError \<and> (''/a/b'', ''x'') \<in> set data"
proof -
  have "ptr_text [''b''] = ''/b''" "ptr_text [''a'', ''b''] = ''/a/b''" by code_simp+
  then show ?thesis
    using json_document_path_leak [of "''a''" "[JTrue]" "''b''" "''x''"] by (simp add: json_safe_chr_def del: ptr_text_simps)
qed

text \<open>\<open>forEach\<close> calls back with the children of a path, each once and in the order of their texts.\<close>

theorem json_document_children:
  assumes "json_safe v" "composite v" "arrays_last v" "p \<noteq> []" "last p \<noteq> []"
  shows "\<exists>stack str data cs. jos_write sos_write (flatten v) ([], []) = ret (stack, str) \<and> JSONDocument str = ret data \<and>
    doc_forEach (ptr_text p) data = Inr cs \<and> sorted cs \<and> distinct cs \<and>
    set cs = (\<lambda>c. ptr_text (p @ [c])) ` {c. \<exists>r d. (p @ c # r, d) \<in> set (leaves v [])}"
  using JSONDocument_walks [OF assms(1,2)] doc_forEach_text [OF assms(4,5), of "leaves v []"]
  by (auto simp: walk_arrays_last(1) [OF assms(3)] simp del: ptr_text_simps)

theorem json_document_children_witness:
  "\<exists>stack str data cs. jos_write sos_write (flatten (JObj [(''a'', JObj [(''y'', JTrue), (''x'', JNull)])])) ([], []) = ret (stack, str) \<and>
     JSONDocument str = ret data \<and> doc_forEach ''/a'' data = Inr cs \<and> set cs = {''/a/x'', ''/a/y''}"
proof -
  have t: "ptr_text [''a''] = ''/a''" "ptr_text [''a'', ''x''] = ''/a/x''" "ptr_text [''a'', ''y''] = ''/a/y''" by code_simp+
  have "{c. \<exists>r d. (''a'' # c # r, d) \<in> set (leaves (JObj [(''a'', JObj [(''y'', JTrue), (''x'', JNull)])]) [])} = {''x'', ''y''}"
    by auto
  then show ?thesis
    using json_document_children [of "JObj [(''a'', JObj [(''y'', JTrue), (''x'', JNull)])]" "[''a'']"] t
    by (auto simp: json_safe_chr_def simp del: ptr_text_simps leaves.simps)
qed

end
