(* ===== verification/Stx_JSONImpl.thy ===== *)
theory Stx_JSONImpl
  imports Stx_JSONUtil
begin

text \<open>
  The templates of \<open>json/json_impl.h\<close> that turn values into tokens and back. A target of tokens is an output stream or a
  token list, so an encoder is the list of tokens it emits. A decoder reads the value at the begin of a range of tokens.
  Encoders and decoders of containers take those of their elements as arguments; the locale \<open>json_codec\<close> is the contract
  of such a pair: the tokens are those of a JSON value, and the decoder gives the value back from the parsed text,
  whatever follows it. Containers preserve it.
\<close>

section \<open>toJSON\<close>

type_synonym tokens = "(kTokenType \<times> string) list"

definition toJSON_string :: "string \<Rightarrow> tokens" where
  "toJSON_string str = [(JSON_STRING, str)]"

definition toJSON_ulong :: "u64 \<Rightarrow> tokens" where
  "toJSON_ulong v = [(JSON_NUMBER, to_string (unat v))]"

definition toJSON_int :: "int \<Rightarrow> tokens" where
  "toJSON_int v = [(JSON_NUMBER, (if v < 0 then ''-'' else []) @ to_string (nat \<bar>v\<bar>))]"

definition toJSON_bool :: "bool \<Rightarrow> tokens" where
  "toJSON_bool b = [(if b then JSON_TRUE else JSON_FALSE, [])]"

definition toJSON_vector :: "('a \<Rightarrow> tokens) \<Rightarrow> 'a list \<Rightarrow> tokens" where
  "toJSON_vector enc xs = (JSON_ARRAY_BEGIN, []) # concat (map enc xs) @ [(JSON_ARRAY_END, [])]"

definition toJSON_pair :: "('a \<Rightarrow> tokens) \<Rightarrow> ('b \<Rightarrow> tokens) \<Rightarrow> 'a \<times> 'b \<Rightarrow> tokens" where
  "toJSON_pair enc1 enc2 p = (JSON_ARRAY_BEGIN, []) # enc1 (fst p) @ enc2 (snd p) @ [(JSON_ARRAY_END, [])]"

text \<open>A tuple: its elements, each already encoded.\<close>

fun toJSONVariadicImpl :: "tokens list \<Rightarrow> tokens" where
  "toJSONVariadicImpl [] = []"
| "toJSONVariadicImpl (e # es) = e @ toJSONVariadicImpl es"

definition toJSON_tuple :: "tokens list \<Rightarrow> tokens" where
  "toJSON_tuple es = (JSON_ARRAY_BEGIN, []) # toJSONVariadicImpl es @ [(JSON_ARRAY_END, [])]"

text \<open>A \<open>HashMap\<close>, in the order in which it is iterated.\<close>

definition toJSON_hashmap :: "('a \<Rightarrow> tokens) \<Rightarrow> ('b \<Rightarrow> tokens) \<Rightarrow> ('a \<times> 'b) list \<Rightarrow> tokens" where
  "toJSON_hashmap enc1 enc2 kvs =
     (JSON_OBJECT_BEGIN, []) # concat (map (\<lambda>(k, v). enc1 k @ enc2 v) kvs) @ [(JSON_OBJECT_END, [])]"

text \<open>
  \<open>JSONOutputProxy\<close>: the properties of a reflected class, each already encoded, in the order of its declaration.
\<close>

definition putProperty :: "string \<Rightarrow> tokens \<Rightarrow> tokens" where
  "putProperty name v = (JSON_STRING, name) # v"

definition toJSON_reflected :: "(string \<times> tokens) list \<Rightarrow> tokens" where
  "toJSON_reflected props =
     (JSON_OBJECT_BEGIN, []) # concat (map (\<lambda>(n, v). putProperty n v) props) @ [(JSON_OBJECT_END, [])]"

text \<open>The two targets: a token list, whose tokens have size one, and the text of an output stream.\<close>

definition toJSON_tokens :: "tokens \<Rightarrow> json_object" where
  "toJSON_tokens ts = map (\<lambda>(t, d). JSONToken t d) ts"

fun emplace_all :: "'o byte_writer \<Rightarrow> tokens \<Rightarrow> 'o json_os \<Rightarrow> 'o json_os comp" where
  "emplace_all put [] st = ret st"
| "emplace_all put ((t, d) # ts) st = bindC (jos_emplace_back put t d st) (emplace_all put ts)"

definition toJSONString :: "tokens \<Rightarrow> string comp" where
  "toJSONString ts = bindC (emplace_all sos_write ts ([], [])) (\<lambda>(stack, str). ret str)"

section \<open>fromJSON\<close>

text \<open>The loop over the elements of an array; a step past the end of the range is undefined.\<close>

partial_function (option) fromJSON_elements :: "(json_object \<Rightarrow> 'a comp) \<Rightarrow> 'a list \<Rightarrow> json_object \<Rightarrow> 'a list comp" where
  "fromJSON_elements dec vec ts =
     (case ts of
        [] \<Rightarrow> ret vec
      | t # _ \<Rightarrow>
          if jt_type t = JSON_ARRAY_END then ret vec
          else
            bindC (dec ts) (\<lambda>x.
              if jt_size t > length ts then raise UndefinedBehaviour
              else fromJSON_elements dec (vec @ [x]) (drop (jt_size t) ts)))"

declare fromJSON_elements.simps [code]

definition fromJSON_vector :: "(json_object \<Rightarrow> 'a comp) \<Rightarrow> json_object \<Rightarrow> 'a list comp" where
  "fromJSON_vector dec ts =
     (case ts of
        [] \<Rightarrow> raise kIndexError
      | t # r \<Rightarrow> if jt_type t \<noteq> JSON_ARRAY_BEGIN then raise kIllegalArgumentError else fromJSON_elements dec [] r)"

definition getProperty :: "(json_object \<Rightarrow> 'a comp) \<Rightarrow> string \<Rightarrow> json_object \<Rightarrow> 'a comp" where
  "getProperty dec name ts =
     bindC (objectLookup ts 0 (length ts) name) (\<lambda>i. if i = length ts then raise kIndexError else dec (drop i ts))"

definition getOptionalProperty :: "(json_object \<Rightarrow> 'a comp) \<Rightarrow> string \<Rightarrow> json_object \<Rightarrow> 'a option comp" where
  "getOptionalProperty dec name ts =
     bindC (objectLookup ts 0 (length ts) name) (\<lambda>i.
       if i = length ts then ret None else bindC (dec (drop i ts)) (\<lambda>x. ret (Some x)))"

definition fromJSON_text :: "(json_object \<Rightarrow> 'a comp) \<Rightarrow> string \<Rightarrow> 'a comp" where
  "fromJSON_text dec str = bindC (parseJSON str) dec"

definition lift_dec :: "(json_object \<Rightarrow> 'a result) \<Rightarrow> json_object \<Rightarrow> 'a comp" where
  "lift_dec dec ts = Some (dec ts)"

section \<open>Codecs\<close>

lemma emplace_all_raw: "emplace_all put (raw obj) = jos_write put obj"
proof (induction obj)
  case Nil
  show ?case by (rule ext) simp
next
  case (Cons t obj)
  show ?case by (rule ext) (simp add: Cons.IH)
qed

lemma to_string_safe: "list_all json_safe_chr (to_string n)"
  using to_string_digits [of _ n] by (fastforce simp: list_all_iff json_safe_chr_def isdigit_def)

lemma written_tokens_parse:
  assumes "json_safe v"
  shows "\<exists>str. toJSONString (raw (flatten v)) = ret str \<and> parseJSON str = ret (flatten (quote_numbers v))"
proof -
  obtain stack str txt0 where w: "jos_write sos_write (flatten v) ([], []) = ret (stack, str)"
    "token_stream (raw (flatten v)) txt0" "bytes_of str = bytes_of txt0"
    using sos.jos_write_ok [where ts = "flatten v" and stack = "[]" and out = "[]"] by auto
  have "token_stream (raw (flatten v)) (sis_rest (sis_new str))"
    using w(2,3) bytes_of_inject by (simp add: sis_rest_def sis_new_def)
  then have "parseJSON str = ret (flatten (quote_numbers v))"
    using sis.parse_document [OF _ assms] by (simp add: parseJSON_def sis_invar_def sis_new_def)
  then show ?thesis using w(1) by (simp add: toJSONString_def emplace_all_raw)
qed

lemma toJSON_reflected_raw: "toJSON_reflected (map (\<lambda>(n, v). (n, raw (flatten v))) kvs) = raw (flatten (JObj kvs))"
  by (induction kvs) (auto simp: toJSON_reflected_def putProperty_def JSONToken_def)

lemma missing_property:
  assumes "map_of kvs name = None"
  shows "getProperty dec name (flatten (JObj kvs)) = raise kIndexError"
    "getOptionalProperty dec name (flatten (JObj kvs)) = ret None"
proof -
  let ?o = "flatten (JObj kvs)"
  have "value_at ?o (length ?o) 0 (JObj kvs)" by (simp add: value_at_def)
  from objectLookup_at [OF this, of name] assms have "objectLookup ?o 0 (length ?o) name = ret (length ?o)" by auto
  then show "getProperty dec name ?o = raise kIndexError" "getOptionalProperty dec name ?o = ret None"
    by (simp_all add: getProperty_def getOptionalProperty_def)
qed

lemma toJSON_tuple_raw: "toJSON_tuple (map (\<lambda>v. raw (flatten v)) vs) = raw (flatten (JArr vs))"
proof -
  have "toJSONVariadicImpl (map (\<lambda>v. raw (flatten v)) vs) = concat (map (\<lambda>v. raw (flatten v)) vs)" by (induction vs) auto
  then show ?thesis by (simp add: toJSON_tuple_def map_concat comp_def)
qed

lemma map_of_quote: "map_of (map (\<lambda>kv. (fst kv, quote_numbers (snd kv))) kvs) n = map_option quote_numbers (map_of kvs n)"
  by (induction kvs) auto

locale json_codec =
  fixes enc :: "'a \<Rightarrow> tokens"
    and dec :: "json_object \<Rightarrow> 'a comp"
    and tree :: "'a \<Rightarrow> jvalue"
    and ok :: "'a \<Rightarrow> bool"
  assumes enc_tree: "enc x = raw (flatten (tree x))"
    and safe_tree: "ok x \<Longrightarrow> json_safe (tree x)"
    and dec_tree: "ok x \<Longrightarrow> dec (flatten (quote_numbers (tree x)) @ ts) = ret x"
begin

text \<open>A value that is encoded, written, parsed and decoded is the same value.\<close>

lemma text_roundtrip:
  assumes "ok x"
  shows "\<exists>str. toJSONString (enc x) = ret str \<and> fromJSON_text dec str = ret x"
  using written_tokens_parse [OF safe_tree [OF assms]] dec_tree [OF assms, of "[]"] by (auto simp: enc_tree fromJSON_text_def)

lemma elements_ok:
  "list_all ok xs \<Longrightarrow>
   fromJSON_elements dec vec (concat (map (\<lambda>x. flatten (quote_numbers (tree x))) xs) @ JSONToken JSON_ARRAY_END [] # ts) = ret (vec @ xs)"
proof (induction xs arbitrary: vec)
  case Nil
  then show ?case by (subst fromJSON_elements.simps) (simp add: JSONToken_def)
next
  case (Cons x xs)
  let ?f = "flatten (quote_numbers (tree x))"
  let ?rest = "concat (map (\<lambda>x. flatten (quote_numbers (tree x))) xs) @ JSONToken JSON_ARRAY_END [] # ts"
  obtain t r where f: "?f = t # r" using flatten_nonempty by (cases ?f) auto
  have sz: "jt_size t = length ?f" using hd_flatten_size(1) [of "quote_numbers (tree x)"] f by simp
  have ty: "jt_type t \<noteq> JSON_ARRAY_END"
    using f by (cases "quote_numbers (tree x)") (auto simp: bracket_def sized_def JSONToken_def)
  have "dec (?f @ ?rest) = ret x" using dec_tree Cons.prems by simp
  then have "fromJSON_elements dec vec (?f @ ?rest) = fromJSON_elements dec (vec @ [x]) ?rest"
    using f sz ty by (subst fromJSON_elements.simps) simp
  with Cons show ?case by simp
qed

lemma vector_codec:
  "json_codec (toJSON_vector enc) (fromJSON_vector dec) (\<lambda>xs. JArr (map tree xs)) (list_all ok)"
proof
  fix xs :: "'a list" and ts
  show "toJSON_vector enc xs = raw (flatten (JArr (map tree xs)))"
    by (simp add: toJSON_vector_def enc_tree [abs_def] map_concat comp_def)
  assume ok: "list_all ok xs"
  then show "json_safe (JArr (map tree xs))" using safe_tree by (auto simp: list_all_iff)
  show "fromJSON_vector dec (flatten (quote_numbers (JArr (map tree xs))) @ ts) = ret xs"
    using elements_ok [OF ok, of "[]" ts] by (simp add: fromJSON_vector_def bracket_def sized_def comp_def)
qed

lemma property_ok:
  assumes "ok x" "map_of kvs name = Some (quote_numbers (tree x))"
  shows "getProperty dec name (flatten (JObj kvs)) = ret x"
    "getOptionalProperty dec name (flatten (JObj kvs)) = ret (Some x)"
proof -
  let ?o = "flatten (JObj kvs)"
  have "value_at ?o (length ?o) 0 (JObj kvs)" by (simp add: value_at_def)
  from objectLookup_at [OF this, of name] assms(2) obtain i where i: "objectLookup ?o 0 (length ?o) name = ret i" "i \<noteq> length ?o"
    "value_at ?o (length ?o) i (quote_numbers (tree x))" by auto
  then obtain r where "drop i ?o = flatten (quote_numbers (tree x)) @ r" by (auto simp: value_at_def)
  then show "getProperty dec name ?o = ret x" "getOptionalProperty dec name ?o = ret (Some x)"
    using i(1,2) dec_tree [OF assms(1)] by (simp_all add: getProperty_def getOptionalProperty_def)
qed

lemma reflected_property:
  assumes "ok x" "map_of kvs name = Some (tree x)" "json_safe (JObj kvs)"
  shows "\<exists>str. toJSONString (toJSON_reflected (map (\<lambda>(n, v). (n, raw (flatten v))) kvs)) = ret str \<and>
    fromJSON_text (getProperty dec name) str = ret x \<and> fromJSON_text (getOptionalProperty dec name) str = ret (Some x)"
  using written_tokens_parse [OF assms(3)] assms(1,2)
    property_ok [of x "map (\<lambda>kv. (fst kv, quote_numbers (snd kv))) kvs" name]
  by (auto simp: toJSON_reflected_raw fromJSON_text_def map_of_quote)

end

interpretation json_text: json_codec toJSON_string "lift_dec fromJSON_string" JStr "list_all json_safe_chr"
  by unfold_locales (auto simp: toJSON_string_def lift_dec_def fromJSON_string_def JSONToken_def)

interpretation json_number: json_codec toJSON_ulong "lift_dec fromJSON_ulong" "\<lambda>v. JNum (to_string (unat v))" "\<lambda>_. True"
proof
  fix v :: u64 and ts
  have "unat v < 2 ^ 64" using unsigned_less [of v, where ?'a = nat] by simp
  then have "stoull (to_string (unat v)) = Inr (v, length (to_string (unat v)))" by simp
  then show "lift_dec fromJSON_ulong (flatten (quote_numbers (JNum (to_string (unat v)))) @ ts) = ret v"
    by (simp add: lift_dec_def fromJSON_ulong_def number_from_def stoul_def JSONToken_def)
qed (auto simp: toJSON_ulong_def JSONToken_def to_string_safe)

interpretation json_truth: json_codec toJSON_bool "lift_dec fromJSON_bool" "\<lambda>b. if b then JTrue else JFalse" "\<lambda>_. True"
  by unfold_locales (auto simp: toJSON_bool_def lift_dec_def fromJSON_bool_def JSONToken_def)

interpretation json_texts: json_codec "toJSON_vector toJSON_string" "fromJSON_vector (lift_dec fromJSON_string)"
  "\<lambda>xs. JArr (map JStr xs)" "list_all (list_all json_safe_chr)"
  by (rule json_text.vector_codec)

interpretation json_tables: json_codec "toJSON_vector (toJSON_vector toJSON_string)"
  "fromJSON_vector (fromJSON_vector (lift_dec fromJSON_string))" "\<lambda>xs. JArr (map (\<lambda>xs. JArr (map JStr xs)) xs)"
  "list_all (list_all (list_all json_safe_chr))"
  by (rule json_texts.vector_codec)

interpretation json_numbers: json_codec "toJSON_vector toJSON_ulong" "fromJSON_vector (lift_dec fromJSON_ulong)"
  "\<lambda>xs. JArr (map (\<lambda>v. JNum (to_string (unat v))) xs)" "list_all (\<lambda>_. True)"
  by (rule json_number.vector_codec)

section \<open>Properties\<close>

text \<open>A vector of vectors of strings (of characters that the reader leaves as they are) that is encoded to JSON text
  decodes from that text to the same vector of vectors: the nested containers are found again by the token sizes the
  parser computes, whatever the number and length of the rows, empty ones included.\<close>

theorem json_table_roundtrip:
  assumes "list_all (list_all (list_all json_safe_chr)) rows"
  shows "\<exists>str. toJSONString (toJSON_vector (toJSON_vector toJSON_string) rows) = ret str \<and>
    fromJSON_text (fromJSON_vector (fromJSON_vector (lift_dec fromJSON_string))) str = ret rows"
  using assms by (rule json_tables.text_roundtrip)

theorem json_table_roundtrip_witness:
  "\<exists>str. toJSONString (toJSON_vector (toJSON_vector toJSON_string) [[''a'', ''b''], [], [''c'']]) = ret str \<and>
    fromJSON_text (fromJSON_vector (fromJSON_vector (lift_dec fromJSON_string))) str = ret [[''a'', ''b''], [], [''c'']]"
  by (rule json_table_roundtrip) (simp add: json_safe_chr_def)

text \<open>A property of an object that is encoded to text, here a vector of unsigned numbers among other properties, is
  read back by its name from the parsed text as it was, over the full range of 64 bits, and as present by the optional
  getter; a name that is no property of the object is an index error for the first getter and absent for the second.\<close>

theorem reflected_numbers_roundtrip:
  assumes "map_of kvs name = Some (JArr (map (\<lambda>v. JNum (to_string (unat v))) xs))"
    and "json_safe (JObj kvs)" and "map_of kvs other = None"
  shows "\<exists>str. toJSONString (toJSON_reflected (map (\<lambda>(n, v). (n, raw (flatten v))) kvs)) = ret str \<and>
    fromJSON_text (getProperty (fromJSON_vector (lift_dec fromJSON_ulong)) name) str = ret xs \<and>
    fromJSON_text (getOptionalProperty (fromJSON_vector (lift_dec fromJSON_ulong)) name) str = ret (Some xs) \<and>
    fromJSON_text (getProperty (fromJSON_vector (lift_dec fromJSON_ulong)) other) str = raise kIndexError \<and>
    fromJSON_text (getOptionalProperty (fromJSON_vector (lift_dec fromJSON_ulong)) other) str = ret None"
proof -
  have "list_all (\<lambda>_. True) xs" by (simp add: list_all_iff)
  with assms(1,2) obtain str where str: "toJSONString (toJSON_reflected (map (\<lambda>(n, v). (n, raw (flatten v))) kvs)) = ret str"
    "fromJSON_text (getProperty (fromJSON_vector (lift_dec fromJSON_ulong)) name) str = ret xs"
    "fromJSON_text (getOptionalProperty (fromJSON_vector (lift_dec fromJSON_ulong)) name) str = ret (Some xs)"
    using json_numbers.reflected_property [of xs kvs name] by blast
  have "parseJSON str = ret (flatten (quote_numbers (JObj kvs)))"
    using written_tokens_parse [OF assms(2)] str(1) by (auto simp: toJSON_reflected_raw)
  then show ?thesis using str assms(3)
      missing_property [of "map (\<lambda>kv. (fst kv, quote_numbers (snd kv))) kvs" other "fromJSON_vector (lift_dec fromJSON_ulong)"]
    by (simp add: fromJSON_text_def map_of_quote)
qed

theorem reflected_numbers_roundtrip_witness:
  "\<exists>str. toJSONString (toJSON_reflected [(''name'', toJSON_string ''x''), (''ids'', toJSON_vector toJSON_ulong [7, 0])]) = ret str \<and>
    fromJSON_text (getProperty (fromJSON_vector (lift_dec fromJSON_ulong)) ''ids'') str = ret [7, 0] \<and>
    fromJSON_text (getProperty (fromJSON_vector (lift_dec fromJSON_ulong)) ''id'') str = raise kIndexError"
  using reflected_numbers_roundtrip [of "[(''name'', JStr ''x''), (''ids'', JArr (map (\<lambda>v. JNum (to_string (unat v))) [7, 0 :: u64]))]"
    "''ids''" "[7, 0]" "''id''"]
  by (auto simp: json_text.enc_tree json_numbers.enc_tree to_string_safe json_safe_chr_def)

text \<open>The tokens that \<open>toJSON\<close> puts into a token list, instead of a text, all have size one, so they do not decode
  when containers are nested: a vector of vectors whose first row has an element raises an illegal argument error.\<close>

theorem direct_tokens_fail:
  "fromJSON_vector (fromJSON_vector (lift_dec fromJSON_string))
     (toJSON_tokens (toJSON_vector (toJSON_vector toJSON_string) ((x # xs) # rows))) = raise kIllegalArgumentError"
proof -
  have dec: "fromJSON_elements (lift_dec fromJSON_string) vec (toJSON_tokens (concat (map toJSON_string xs)) @ JSONToken JSON_ARRAY_END [] # ts)
      = ret (vec @ xs)" for vec xs ts
    by (induction xs arbitrary: vec; subst fromJSON_elements.simps)
      (simp_all add: toJSON_tokens_def toJSON_string_def JSONToken_def lift_dec_def fromJSON_string_def)
  show ?thesis
    using dec [of "[]" "x # xs"]
    apply (simp add: fromJSON_vector_def toJSON_vector_def toJSON_tokens_def toJSON_string_def)
    apply (subst fromJSON_elements.simps)
    apply (simp add: JSONToken_def fromJSON_vector_def)
    apply (subst fromJSON_elements.simps)
    apply (simp add: JSONToken_def fromJSON_vector_def)
    done
qed

end
