(* ===== verification/Stx_CSV.thy ===== *)
theory Stx_CSV
  imports Stx_Streams
begin

text \<open>
  Rows of text columns: the CSV streams of \<open>csv/CSVInputStream.cc\<close> and \<open>csv/CSVOutputStream.cc\<close> and their
  binary variants \<open>csv/BinaryCSVInputStream.cc\<close> and \<open>csv/BinaryCSVOutputStream.cc\<close>, over any stream of bytes.
  The reader of rows takes the bytes of an input stream one by one; on an endless stream it may not return,
  which is \<open>None\<close>.
\<close>

section \<open>CSVInputStream\<close>

record csv_format =
  column_separator :: char
  row_separator :: char
  quote_char :: char

definition csv_default :: csv_format where
  "csv_default = \<lparr>column_separator = CHR '';'', row_separator = CHR 0x0A, quote_char = CHR 0x22\<rparr>"

text \<open>The inner loop: a column and the separator after it, or none at the end of the stream.\<close>

partial_function (option) csv_column ::
  "'s byte_reader \<Rightarrow> csv_format \<Rightarrow> bool \<Rightarrow> string \<Rightarrow> 's \<Rightarrow> (string \<times> char option \<times> 's) option" where
  "csv_column rb f quoted column s =
     (case rb s of
        (None, s) \<Rightarrow> Some (column, None, s)
      | (Some b, s) \<Rightarrow>
          if \<not> quoted \<and> b = column_separator f then Some (column, Some b, s)
          else if \<not> quoted \<and> b = row_separator f then Some (column, Some b, s)
          else if b = quote_char f then csv_column rb f (\<not> quoted) column s
          else csv_column rb f quoted (column @ [b]) s)"

declare csv_column.simps [code]

partial_function (option) csv_row ::
  "'s byte_reader \<Rightarrow> csv_format \<Rightarrow> string list \<Rightarrow> 's \<Rightarrow> (bool \<times> string list \<times> 's) option" where
  "csv_row rb f target s =
     Option.bind (csv_column rb f False [] s) (\<lambda>(column, b, s).
       if b = None then Some (False, target @ [column], s)
       else if b = Some (row_separator f) then Some (True, target @ [column], s)
       else csv_row rb f (target @ [column]) s)"

declare csv_row.simps [code]

definition csv_readNextRow :: "'s byte_reader \<Rightarrow> csv_format \<Rightarrow> 's \<Rightarrow> (bool \<times> string list \<times> 's) option" where
  "csv_readNextRow rb f s = csv_row rb f [] s"

definition csv_skipNextRow :: "'s byte_reader \<Rightarrow> csv_format \<Rightarrow> 's \<Rightarrow> (bool \<times> 's) option" where
  "csv_skipNextRow rb f s = map_option (\<lambda>(more, row, s). (more, s)) (csv_readNextRow rb f s)"

text \<open>Reading rows until the reader reports the end, as a caller does.\<close>

partial_function (option) csv_all ::
  "'s byte_reader \<Rightarrow> csv_format \<Rightarrow> string list list \<Rightarrow> 's \<Rightarrow> (string list list \<times> string list \<times> 's) option" where
  "csv_all rb f rows s =
     Option.bind (csv_readNextRow rb f s) (\<lambda>(more, row, s).
       if more then csv_all rb f (rows @ [row]) s else Some (rows, row, s))"

declare csv_all.simps [code]

section \<open>CSVOutputStream\<close>

fun csv_append_columns :: "string \<Rightarrow> bool \<Rightarrow> string list \<Rightarrow> buffer \<Rightarrow> buffer" where
  "csv_append_columns sep first [] b = b"
| "csv_append_columns sep first (c # cs) b =
     csv_append_columns sep False cs (append_bytes (bytes_of c) (if first then b else append_bytes (bytes_of sep) b))"

definition csv_appendRow :: "'o byte_writer \<Rightarrow> string \<Rightarrow> string \<Rightarrow> string list \<Rightarrow> 'o \<Rightarrow> 'o comp" where
  "csv_appendRow put col_sep row_sep row out =
     os_write_buffer put (append_bytes (bytes_of row_sep) (csv_append_columns col_sep True row buffer_new)) out"

fun csv_appendRows :: "'o byte_writer \<Rightarrow> string \<Rightarrow> string \<Rightarrow> string list list \<Rightarrow> 'o \<Rightarrow> 'o comp" where
  "csv_appendRows put col_sep row_sep [] out = ret out"
| "csv_appendRows put col_sep row_sep (r # rs) out =
     bindC (csv_appendRow put col_sep row_sep r out) (csv_appendRows put col_sep row_sep rs)"

section \<open>BinaryCSVInputStream and BinaryCSVOutputStream\<close>

fun binary_columns :: "'s byte_reader \<Rightarrow> nat \<Rightarrow> 's \<Rightarrow> (string list \<times> 's) result" where
  "binary_columns rb 0 s = Inr ([], s)"
| "binary_columns rb (Suc n) s =
     bindE (readLenencString rb s) (\<lambda>(c, s). bindE (binary_columns rb n s) (\<lambda>(cs, s). Inr (c # cs, s)))"

definition binary_readNextRow :: "'s byte_reader \<Rightarrow> ('s \<Rightarrow> bool) \<Rightarrow> 's \<Rightarrow> (string list option \<times> 's) result" where
  "binary_readNextRow rb eof s =
     (if eof s then Inr (None, s)
      else bindE (readVarUInt rb s) (\<lambda>(n, s). bindE (binary_columns rb (unat n) s) (\<lambda>(row, s). Inr (Some row, s))))"

definition binary_skipNextRow :: "'s byte_reader \<Rightarrow> ('s \<Rightarrow> bool) \<Rightarrow> 's \<Rightarrow> (bool \<times> 's) result" where
  "binary_skipNextRow rb eof s = map_sum id (\<lambda>(row, s). (row \<noteq> None, s)) (binary_readNextRow rb eof s)"

fun binary_appendColumns :: "'o byte_writer \<Rightarrow> string list \<Rightarrow> 'o \<Rightarrow> 'o comp" where
  "binary_appendColumns put [] out = ret out"
| "binary_appendColumns put (c # cs) out = bindC (os_appendLenencString put c out) (binary_appendColumns put cs)"

definition binary_appendRow :: "'o byte_writer \<Rightarrow> string list \<Rightarrow> 'o \<Rightarrow> 'o comp" where
  "binary_appendRow put row out = bindC (os_appendVarUInt put (word_of_nat (length row)) out) (binary_appendColumns put row)"

fun binary_appendRows :: "'o byte_writer \<Rightarrow> string list list \<Rightarrow> 'o \<Rightarrow> 'o comp" where
  "binary_appendRows put [] out = ret out"
| "binary_appendRows put (r # rs) out = bindC (binary_appendRow put r out) (binary_appendRows put rs)"

section \<open>The text of a row\<close>

definition column_ok :: "csv_format \<Rightarrow> string \<Rightarrow> bool" where
  "column_ok f c \<longleftrightarrow> list_all (\<lambda>x. x \<noteq> column_separator f \<and> x \<noteq> row_separator f \<and> x \<noteq> quote_char f) c"

fun row_text :: "csv_format \<Rightarrow> string list \<Rightarrow> string" where
  "row_text f [] = []"
| "row_text f [c] = c"
| "row_text f (c # cs) = c @ column_separator f # row_text f cs"

lemma contents_append_columns:
  "buffer_init b \<Longrightarrow> buffer_init (csv_append_columns [column_separator f] first cs b) \<and>
   contents (csv_append_columns [column_separator f] first cs b) =
     contents b @ bytes_of ((if first \<or> cs = [] then [] else [column_separator f]) @ row_text f cs)"
proof (induction cs arbitrary: b first)
  case (Cons c cs)
  let ?b = "append_bytes (bytes_of c) (if first then b else append_bytes (bytes_of [column_separator f]) b)"
  have "buffer_init ?b" "contents ?b = contents b @ bytes_of ((if first then [] else [column_separator f]) @ c)"
    using Cons.prems by (simp_all add: buffer_init_wf)
  with Cons.IH [of ?b False] show ?case by (cases cs) auto
qed simp


context byte_source
begin

text \<open>A column inside or outside of quotes up to what ends it.\<close>

lemma csv_column_step:
  assumes "invar s" "rest s = c @ r"
    "list_all (\<lambda>x. x \<noteq> quote_char f \<and> (quoted \<or> x \<noteq> column_separator f \<and> x \<noteq> row_separator f)) c"
  shows "\<exists>s'. csv_column rb f quoted acc s = csv_column rb f quoted (acc @ c) s' \<and> invar s' \<and> rest s' = r"
  using assms
proof (induction c arbitrary: s acc)
  case (Cons x c)
  obtain s1 where s1: "rb s = (Some x, s1)" "invar s1" "rest s1 = c @ r"
    using rb_next [OF Cons.prems(1)] Cons.prems(2) by auto
  then have "csv_column rb f quoted acc s = csv_column rb f quoted (acc @ [x]) s1"
    using Cons.prems(3) by (subst csv_column.simps) auto
  with Cons.IH [OF s1(2,3), of "acc @ [x]"] Cons.prems(3) show ?case by auto
qed auto

lemma csv_column_quote:
  assumes "invar s" "rest s = quote_char f # r" "quoted \<or> quote_char f \<noteq> column_separator f \<and> quote_char f \<noteq> row_separator f"
  shows "\<exists>s'. csv_column rb f quoted acc s = csv_column rb f (\<not> quoted) acc s' \<and> invar s' \<and> rest s' = r"
proof -
  obtain s1 where "rb s = (Some (quote_char f), s1)" "invar s1" "rest s1 = r" using rb_next [OF assms(1,2)] by auto
  then show ?thesis using assms(3) by (subst csv_column.simps) auto
qed

lemma csv_column_sep:
  assumes "invar s" "rest s = b # r" "b = column_separator f \<or> b = row_separator f"
  shows "\<exists>s'. csv_column rb f False acc s = Some (acc, Some b, s') \<and> invar s' \<and> rest s' = r"
proof -
  obtain s1 where "rb s = (Some b, s1)" "invar s1" "rest s1 = r" using rb_next [OF assms(1,2)] by auto
  then show ?thesis using assms(3) by (subst csv_column.simps) auto
qed

lemma csv_column_eof:
  assumes "invar s" "rest s = []"
  shows "\<exists>s'. csv_column rb f quoted acc s = Some (acc, None, s') \<and> invar s' \<and> rest s' = []"
proof -
  obtain s1 where "rb s = (None, s1)" "invar s1" "rest s1 = []" using rb_eof [OF assms] by auto
  then show ?thesis by (subst csv_column.simps) auto
qed

lemma csv_column_ok:
  assumes "invar s" "rest s = c @ r" "column_ok f c" "r = [] \<or> hd r \<in> {column_separator f, row_separator f}"
  shows "\<exists>s'. csv_column rb f False [] s = Some (c, if r = [] then None else Some (hd r), s') \<and> invar s' \<and> rest s' = tl r"
proof -
  have "list_all (\<lambda>x. x \<noteq> quote_char f \<and> (False \<or> x \<noteq> column_separator f \<and> x \<noteq> row_separator f)) c"
    using assms(3) by (auto simp: column_ok_def list_all_iff)
  from csv_column_step [OF assms(1,2) this, of "[]"]
  obtain s1 where s1: "csv_column rb f False [] s = csv_column rb f False c s1" "invar s1" "rest s1 = r" by auto
  show ?thesis
  proof (cases r)
    case Nil
    then show ?thesis using csv_column_eof [OF s1(2)] s1 by auto
  next
    case (Cons b r')
    then show ?thesis using csv_column_sep [OF s1(2), of b r' f c] s1 assms(4) by auto
  qed
qed

lemma csv_row_ok:
  assumes "invar s" "rest s = row_text f row @ r" "row \<noteq> []" "list_all (column_ok f) row"
    "column_separator f \<noteq> row_separator f" "r = [] \<or> hd r = row_separator f"
  shows "\<exists>s'. csv_row rb f acc s = Some (r \<noteq> [], acc @ row, s') \<and> invar s' \<and> rest s' = tl r"
  using assms(1-4)
proof (induction row arbitrary: s acc rule: induct_list012)
  case (2 c)
  with csv_column_ok [of s c r f] assms(6) obtain s1
    where "csv_column rb f False [] s = Some (c, if r = [] then None else Some (hd r), s1)" "invar s1" "rest s1 = tl r"
    by auto
  then show ?case using assms(6) by (subst csv_row.simps) auto
next
  case (3 c d cs)
  with csv_column_ok [of s c "column_separator f # row_text f (d # cs) @ r" f] obtain s1
    where s1: "csv_column rb f False [] s = Some (c, Some (column_separator f), s1)" "invar s1"
      "rest s1 = row_text f (d # cs) @ r" by auto
  then have "csv_row rb f acc s = csv_row rb f (acc @ [c]) s1"
    using assms(5) by (subst csv_row.simps) simp
  with "3.IH"(2) [OF s1(2,3), of "acc @ [c]"] "3.prems"(4) show ?case by auto
qed simp

lemma csv_all_ok:
  assumes "invar s" "rest s = concat (map (\<lambda>row. row_text f row @ [row_separator f]) rows) @ row_text f row0"
    "row0 \<noteq> []" "list_all (column_ok f) row0" "list_all (\<lambda>row. row \<noteq> [] \<and> list_all (column_ok f) row) rows"
    "column_separator f \<noteq> row_separator f"
  shows "\<exists>s'. csv_all rb f acc s = Some (acc @ rows, row0, s') \<and> invar s' \<and> rest s' = []"
  using assms
proof (induction rows arbitrary: s acc)
  case Nil
  with csv_row_ok [of s f row0 "[]" "[]"] obtain s1 where "csv_row rb f [] s = Some (False, row0, s1)" "invar s1" "rest s1 = []"
    by auto
  then show ?case by (subst csv_all.simps) (simp add: csv_readNextRow_def)
next
  case (Cons row rows)
  with csv_row_ok [of s f row "row_separator f # concat (map (\<lambda>row. row_text f row @ [row_separator f]) rows) @ row_text f row0" "[]"]
  obtain s1 where s1: "csv_row rb f [] s = Some (True, row, s1)" "invar s1"
    "rest s1 = concat (map (\<lambda>row. row_text f row @ [row_separator f]) rows) @ row_text f row0" by auto
  then have "csv_all rb f acc s = csv_all rb f (acc @ [row]) s1"
    by (subst csv_all.simps) (simp add: csv_readNextRow_def)
  with Cons.IH [OF s1(2,3), of "acc @ [row]"] Cons.prems(3-6) show ?case by auto
qed

end

context byte_sink
begin

lemma csv_appendRow_ok:
  assumes "invar out"
  shows "\<exists>out'. csv_appendRow put [column_separator f] [row_separator f] row out = ret out' \<and> invar out' \<and>
    written out' = written out @ bytes_of (row_text f row @ [row_separator f])"
proof -
  let ?b = "csv_append_columns [column_separator f] True row buffer_new"
  have "contents (append_bytes (bytes_of [row_separator f]) ?b) = bytes_of (row_text f row @ [row_separator f])"
    using contents_append_columns [of buffer_new f True row] by (simp add: buffer_init_wf)
  then show ?thesis using put_ok [OF assms] by (simp add: csv_appendRow_def os_write_buffer_def)
qed

lemma csv_appendRows_ok:
  "invar out \<Longrightarrow> \<exists>out'. csv_appendRows put [column_separator f] [row_separator f] rows out = ret out' \<and> invar out' \<and>
    written out' = written out @ bytes_of (concat (map (\<lambda>row. row_text f row @ [row_separator f]) rows))"
proof (induction rows arbitrary: out)
  case (Cons row rows)
  obtain o1 where o1: "csv_appendRow put [column_separator f] [row_separator f] row out = ret o1" "invar o1"
    "written o1 = written out @ bytes_of (row_text f row @ [row_separator f])"
    using csv_appendRow_ok [OF Cons.prems] by blast
  with Cons.IH [OF o1(2)] show ?case by auto
qed simp

end

section \<open>Binary rows\<close>

definition column_bytes :: "string \<Rightarrow> byte list" where
  "column_bytes c = varuint_bytes (word_of_nat (length c)) @ bytes_of c"

definition binary_row_bytes :: "string list \<Rightarrow> byte list" where
  "binary_row_bytes row = varuint_bytes (word_of_nat (length row)) @ concat (map column_bytes row)"

definition binary_row_ok :: "string list \<Rightarrow> bool" where
  "binary_row_ok row \<longleftrightarrow> length row < 2 ^ 64 \<and> list_all (\<lambda>c. length c < 2 ^ 64) row"

context byte_sink
begin

lemma binary_appendColumns_ok:
  "invar out \<Longrightarrow> \<exists>out'. binary_appendColumns put cs out = ret out' \<and> invar out' \<and>
     written out' = written out @ concat (map column_bytes cs)"
proof (induction cs arbitrary: out)
  case (Cons c cs)
  obtain o1 where o1: "os_appendLenencString put c out = ret o1" "invar o1" "written o1 = written out @ column_bytes c"
    using appendLenencString_ok [OF Cons.prems, of c] by (auto simp: column_bytes_def)
  with Cons.IH [OF o1(2)] show ?case by auto
qed simp

lemma binary_appendRows_ok:
  "invar out \<Longrightarrow> \<exists>out'. binary_appendRows put rows out = ret out' \<and> invar out' \<and>
     written out' = written out @ concat (map binary_row_bytes rows)"
proof (induction rows arbitrary: out)
  case (Cons row rows)
  obtain o1 where o1: "os_appendVarUInt put (word_of_nat (length row)) out = ret o1" "invar o1"
    "written o1 = written out @ varuint_bytes (word_of_nat (length row))"
    using put_ok [OF Cons.prems] by (auto simp: os_appendVarUInt_def)
  obtain o2 where o2: "binary_appendColumns put row o1 = ret o2" "invar o2" "written o2 = written o1 @ concat (map column_bytes row)"
    using binary_appendColumns_ok [OF o1(2)] by blast
  have r: "binary_appendRow put row out = ret o2" using o1(1) o2(1) by (simp add: binary_appendRow_def)
  have "written o2 = written out @ binary_row_bytes row" using o1(3) o2(3) by (simp add: binary_row_bytes_def)
  with r Cons.IH [OF o2(2)] show ?case by auto
qed simp

end

context byte_source
begin

lemma binary_columns_ok:
  "invar s \<Longrightarrow> rest s = string_of (concat (map column_bytes cs)) @ r \<Longrightarrow> list_all (\<lambda>c. length c < 2 ^ 64) cs \<Longrightarrow>
   \<exists>s'. binary_columns rb (length cs) s = Inr (cs, s') \<and> invar s' \<and> rest s' = r"
proof (induction cs arbitrary: s)
  case (Cons c cs)
  then have "rest s = string_of (varuint_bytes (word_of_nat (length c))) @ c @ string_of (concat (map column_bytes cs)) @ r"
    by (simp add: column_bytes_def [of c])
  then obtain s1 where s1: "readLenencString rb s = Inr (c, s1)" "invar s1" "rest s1 = string_of (concat (map column_bytes cs)) @ r"
    using readLenencString_ok [OF Cons.prems(1)] Cons.prems(3) by auto
  with Cons.IH [OF s1(2,3)] Cons.prems(3) show ?case by auto
qed simp

lemma binary_readNextRow_ok:
  assumes "invar s" "rest s = string_of (binary_row_bytes row) @ r" "binary_row_ok row" "\<not> eof s"
  shows "\<exists>s'. binary_readNextRow rb eof s = Inr (Some row, s') \<and> invar s' \<and> rest s' = r"
proof -
  obtain s1 where s1: "readVarUInt rb s = Inr (word_of_nat (length row), s1)" "invar s1"
    "rest s1 = string_of (concat (map column_bytes row)) @ r"
    using readVarUInt_ok [OF assms(1)] assms(2) by (auto simp: binary_row_bytes_def)
  moreover have "unat (word_of_nat (length row) :: u64) = length row"
    using assms(3) by (simp add: binary_row_ok_def unat_of_nat)
  ultimately show ?thesis
    using binary_columns_ok [OF s1(2,3)] assms(3,4) by (auto simp: binary_readNextRow_def binary_row_ok_def)
qed

end

text \<open>All rows of a stream; every row takes at least one byte.\<close>

fun binary_rows :: "nat \<Rightarrow> 's byte_reader \<Rightarrow> ('s \<Rightarrow> bool) \<Rightarrow> 's \<Rightarrow> (string list list \<times> 's) result" where
  "binary_rows 0 rb eof s = Inr ([], s)"
| "binary_rows (Suc n) rb eof s =
     bindE (binary_readNextRow rb eof s) (\<lambda>(row, s).
       case row of None \<Rightarrow> Inr ([], s) | Some row \<Rightarrow> bindE (binary_rows n rb eof s) (\<lambda>(rows, s). Inr (row # rows, s)))"

context skippable_source
begin

lemma binary_rows_ok:
  "invar s \<Longrightarrow> rest s = string_of (concat (map binary_row_bytes rows)) \<Longrightarrow> list_all binary_row_ok rows \<Longrightarrow> length rows < n \<Longrightarrow>
   \<exists>s'. binary_rows n rb is_eof s = Inr (rows, s') \<and> rest s' = []"
proof (induction rows arbitrary: s n)
  case Nil
  then show ?case by (cases n) (auto simp: binary_readNextRow_def eof_iff)
next
  case (Cons row rows)
  then obtain m where n: "n = Suc m" by (cases n) auto
  have "varuint_bytes v \<noteq> []" for v by (subst varuint_bytes.simps) (simp add: Let_def)
  then have "\<not> is_eof s" using Cons.prems(1,2) by (simp add: eof_iff binary_row_bytes_def)
  then obtain s1 where s1: "binary_readNextRow rb is_eof s = Inr (Some row, s1)" "invar s1"
    "rest s1 = string_of (concat (map binary_row_bytes rows))"
    using binary_readNextRow_ok [of s row "string_of (concat (map binary_row_bytes rows))" is_eof] Cons.prems by auto
  with Cons.IH [OF s1(2,3), of m] Cons.prems n show ?case by auto
qed

end

section \<open>Properties\<close>

text \<open>C32. Rows written as CSV are read back, in order: the reader returns each of them and then reports the end with a
  row of one empty column, as long as the rows are not empty and their columns contain no separator and no quote.\<close>

theorem csv_roundtrip:
  assumes "list_all (\<lambda>row. row \<noteq> [] \<and> list_all (column_ok f) row) rows" "column_separator f \<noteq> row_separator f"
  shows "\<exists>out s. csv_appendRows sos_write [column_separator f] [row_separator f] rows [] = ret out \<and>
    csv_all sis_readNextByte f [] (sis_new out) = Some (rows, [[]], s) \<and> sis_eof s"
proof -
  let ?t = "concat (map (\<lambda>row. row_text f row @ [row_separator f]) rows)"
  obtain out where out: "csv_appendRows sos_write [column_separator f] [row_separator f] rows [] = ret out" "out = ?t"
    using sos.csv_appendRows_ok [where out = "[]" and f = f and rows = rows] bytes_of_inject by auto
  have i: "sis_invar (sis_new out)" "sis_rest (sis_new out) = ?t @ row_text f [[]]"
    using out(2) by (simp_all add: sis_invar_def sis_new_def sis_rest_def)
  obtain s where "csv_all sis_readNextByte f [] (sis_new out) = Some (rows, [[]], s)" "sis_invar s" "sis_rest s = []"
    using sis.csv_all_ok [OF i, of "[]"] assms by (auto simp: column_ok_def)
  with out(1) sis.eof_iff show ?thesis by blast
qed

theorem csv_roundtrip_witness:
  "\<exists>out s. csv_appendRows sos_write '';'' [CHR 0x0A] [[''a'', ''b''], [''c'']] [] = ret out \<and>
     csv_all sis_readNextByte csv_default [] (sis_new out) = Some ([[''a'', ''b''], [''c'']], [[]], s)"
  using csv_roundtrip [of csv_default "[[''a'', ''b''], [''c'']]"] by (auto simp: csv_default_def column_ok_def)

text \<open>A quoted column may contain separators: the reader returns the text between the quotes.\<close>

theorem csv_quoted_column:
  assumes "list_all (\<lambda>x. x \<noteq> quote_char f) c" "quote_char f \<noteq> column_separator f" "quote_char f \<noteq> row_separator f"
  shows "\<exists>s. csv_readNextRow sis_readNextByte f (sis_new (quote_char f # c @ [quote_char f, row_separator f] @ r)) =
      Some (True, [c], s) \<and> sis_rest s = r"
proof -
  let ?q = "quote_char f" and ?s = "sis_new (quote_char f # c @ [quote_char f, row_separator f] @ r)"
  have i: "sis_invar ?s" "sis_rest ?s = ?q # c @ [?q, row_separator f] @ r"
    by (simp_all add: sis_invar_def sis_new_def sis_rest_def)
  obtain s1 where s1: "csv_column sis_readNextByte f False [] ?s = csv_column sis_readNextByte f True [] s1" "sis_invar s1"
    "sis_rest s1 = c @ [?q, row_separator f] @ r"
    using sis.csv_column_quote [OF i, of False "[]"] assms(2,3) by auto
  obtain s2 where s2: "csv_column sis_readNextByte f True [] s1 = csv_column sis_readNextByte f True c s2" "sis_invar s2"
    "sis_rest s2 = ?q # row_separator f # r"
    using sis.csv_column_step [OF s1(2,3), of f True "[]"] assms(1) by auto
  obtain s3 where s3: "csv_column sis_readNextByte f True c s2 = csv_column sis_readNextByte f False c s3" "sis_invar s3"
    "sis_rest s3 = row_separator f # r"
    using sis.csv_column_quote [OF s2(2,3), of True c] by auto
  obtain s4 where "csv_column sis_readNextByte f False c s3 = Some (c, Some (row_separator f), s4)" "sis_rest s4 = r"
    using sis.csv_column_sep [OF s3(2,3), of f c] by auto
  with s1(1) s2(1) s3(1) show ?thesis unfolding csv_readNextRow_def by (subst csv_row.simps) simp
qed

theorem csv_quoted_column_witness:
  "\<exists>s. csv_readNextRow sis_readNextByte csv_default (sis_new ([CHR 0x22] @ ''a;b'' @ [CHR 0x22, CHR 0x0A])) =
      Some (True, [''a;b''], s) \<and> sis_rest s = []"
  using csv_quoted_column [of csv_default "''a;b''" "[]"] by (simp add: csv_default_def)

text \<open>A last row that does not end in a row separator is returned together with the report of the end: a caller that
  reads rows until the reader reports the end misses it.\<close>

theorem csv_last_row_at_end:
  assumes "row \<noteq> []" "list_all (column_ok f) row" "column_separator f \<noteq> row_separator f"
  shows "\<exists>s. csv_readNextRow sis_readNextByte f (sis_new (row_text f row)) = Some (False, row, s)"
proof -
  have "sis_invar (sis_new (row_text f row))" "sis_rest (sis_new (row_text f row)) = row_text f row @ []"
    by (simp_all add: sis_invar_def sis_new_def sis_rest_def)
  from sis.csv_row_ok [OF this assms, of "[]"] show ?thesis by (auto simp: csv_readNextRow_def)
qed

theorem csv_last_row_at_end_witness:
  "\<exists>s. csv_readNextRow sis_readNextByte csv_default (sis_new ''a;b'') = Some (False, [''a'', ''b''], s)"
  using csv_last_row_at_end [of "[''a'', ''b'']" csv_default] by (simp add: csv_default_def column_ok_def)

text \<open>Rows of any columns written in the binary format are read back, and nothing is left.\<close>

theorem binary_csv_roundtrip:
  assumes "list_all binary_row_ok rows"
  shows "\<exists>out s. binary_appendRows sos_write rows [] = ret out \<and>
    binary_rows (length rows + 1) sis_readNextByte sis_eof (sis_new out) = Inr (rows, s) \<and> sis_rest s = []"
proof -
  obtain out where out: "binary_appendRows sos_write rows [] = ret out" "bytes_of out = concat (map binary_row_bytes rows)"
    using sos.binary_appendRows_ok [where out = "[]" and rows = rows] by auto
  have "sis_invar (sis_new out)" "sis_rest (sis_new out) = string_of (concat (map binary_row_bytes rows))"
    unfolding out(2) [symmetric] by (simp_all add: sis_invar_def sis_new_def sis_rest_def)
  from sis.binary_rows_ok [OF this assms, of "length rows + 1"] out(1) show ?thesis by auto
qed

theorem binary_csv_roundtrip_witness:
  "\<exists>out s. binary_appendRows sos_write [[''a;'', []], []] [] = ret out \<and>
     binary_rows 3 sis_readNextByte sis_eof (sis_new out) = Inr ([[''a;'', []], []], s) \<and> sis_rest s = []"
  using binary_csv_roundtrip [of "[[''a;'', []], []]"] by (simp add: binary_row_ok_def numeral_3_eq_3)

end
