(* ===== verification/Stx_Flags.thy ===== *)
theory Stx_Flags
  imports Stx_Prelude
begin

text \<open>
  The command line: \<open>cli/flagparser.cc\<close>, \<open>cli/CLI.cc\<close> and \<open>cli/CLICommand.cc\<close>. The names of flags are
  \<open>const char*\<close> and \<open>isSet\<close> and the getters compare these pointers, while parsing compares texts: a C string
  is therefore an address with its text. Operations that raise return the parser in the state they leave it.
\<close>

section \<open>FlagParser\<close>

record c_string =
  cs_addr :: nat
  cs_text :: string

datatype kFlagType = T_SWITCH | T_STRING | T_FLOAT | T_INTEGER

record flag_state =
  fl_type :: kFlagType
  fl_required :: bool
  fl_longopt :: c_string
  fl_shortopt :: "string option"
  fl_default :: "string option"
  fl_description :: "string option"
  fl_placeholder :: "string option"
  fl_values :: "string list"

record flag_parser =
  fp_flags :: "flag_state list"
  fp_argv :: "string list"
  fp_ignore_unknown :: bool

definition fp_new :: flag_parser where
  "fp_new = \<lparr>fp_flags = [], fp_argv = [], fp_ignore_unknown = False\<rparr>"

definition defineFlag ::
  "c_string \<Rightarrow> kFlagType \<Rightarrow> bool \<Rightarrow> string option \<Rightarrow> string option \<Rightarrow> string option \<Rightarrow> string option \<Rightarrow>
    flag_parser \<Rightarrow> flag_parser" where
  "defineFlag longopt type required shortopt default_value description placeholder fp =
     fp\<lparr>fp_flags := fp_flags fp @
       [\<lparr>fl_type = type, fl_required = required, fl_longopt = longopt, fl_shortopt = shortopt, fl_default = default_value,
         fl_description = description, fl_placeholder = placeholder, fl_values = []\<rparr>]\<rparr>"

definition find_flag :: "c_string \<Rightarrow> flag_parser \<Rightarrow> flag_state option" where
  "find_flag longopt fp = find (\<lambda>f. cs_addr (fl_longopt f) = cs_addr longopt) (fp_flags fp)"

definition isSet :: "c_string \<Rightarrow> flag_parser \<Rightarrow> bool" where
  "isSet longopt fp =
     (case find_flag longopt fp of None \<Rightarrow> False | Some f \<Rightarrow> fl_default f \<noteq> None \<or> length (fl_values f) > 0)"

definition flags_getString :: "c_string \<Rightarrow> flag_parser \<Rightarrow> string result" where
  "flags_getString longopt fp =
     (case find_flag longopt fp of
        None \<Rightarrow> Inl kFlagError
      | Some f \<Rightarrow>
          if fl_type f \<noteq> T_STRING then Inl kFlagError
          else if fl_values f = [] then (case fl_default f of None \<Rightarrow> Inl kFlagError | Some d \<Rightarrow> Inr d)
          else Inr (last (fl_values f)))"

definition flags_getStrings :: "c_string \<Rightarrow> flag_parser \<Rightarrow> string list result" where
  "flags_getStrings longopt fp =
     (case find_flag longopt fp of
        None \<Rightarrow> Inr []
      | Some f \<Rightarrow>
          if fl_type f \<noteq> T_STRING then Inl kFlagError
          else if fl_values f = [] then Inr (case fl_default f of None \<Rightarrow> [] | Some d \<Rightarrow> [d])
          else Inr (fl_values f))"

text \<open>The message of the error takes the last of the values, also when there are none.\<close>

definition getInt :: "c_string \<Rightarrow> flag_parser \<Rightarrow> int result" where
  "getInt longopt fp =
     (case find_flag longopt fp of
        None \<Rightarrow> Inl kFlagError
      | Some f \<Rightarrow>
          if fl_type f \<noteq> T_INTEGER then Inl kFlagError
          else
            bindE (if fl_values f = [] then (case fl_default f of None \<Rightarrow> Inl kFlagError | Some d \<Rightarrow> Inr d)
                   else Inr (last (fl_values f))) (\<lambda>str.
              case stoi str of
                Inr i \<Rightarrow> Inr i
              | Inl e \<Rightarrow> Inl (if fl_values f = [] then UndefinedBehaviour else kFlagError)))"

text \<open>
  How an argument matches a flag: not at all, or with the length of the part up to the equal sign, \<open>0\<close> standing for
  the \<open>-1\<close> of the source.
\<close>

definition starts_with :: "string \<Rightarrow> string \<Rightarrow> bool" where
  "starts_with arg s \<longleftrightarrow> take (length s) arg = s"

definition match_flag :: "string \<Rightarrow> flag_state \<Rightarrow> nat option" where
  "match_flag arg f =
     (let longopt = ''--'' @ cs_text (fl_longopt f); longopt_eq = longopt @ ''=''
      in if length arg = length longopt \<and> starts_with arg longopt then Some 0
         else if length arg = length longopt_eq \<and> starts_with arg longopt_eq then Some (length longopt_eq)
         else
           (case fl_shortopt f of
              None \<Rightarrow> None
            | Some s \<Rightarrow>
                (let shortopt = ''-'' @ s; shortopt_eq = shortopt @ ''=''
                 in if starts_with arg shortopt then Some 0
                    else if starts_with arg shortopt_eq then Some (length shortopt_eq)
                    else None)))"

text \<open>The first flag that matches: the flags before it, the flag, the flags after it and the length.\<close>

fun match_flags :: "string \<Rightarrow> flag_state list \<Rightarrow> (flag_state list \<times> flag_state \<times> flag_state list \<times> nat) option" where
  "match_flags arg [] = None"
| "match_flags arg (f # fs) =
     (case match_flag arg f of
        Some n \<Rightarrow> Some ([], f, fs, n)
      | None \<Rightarrow> map_option (\<lambda>(pre, g, post, n). (f # pre, g, post, n)) (match_flags arg fs))"

definition add_value :: "string \<Rightarrow> flag_state \<Rightarrow> flag_state" where
  "add_value v f = f\<lparr>fl_values := fl_values f @ [v]\<rparr>"

fun parse_args :: "string list \<Rightarrow> flag_parser \<Rightarrow> stx_error option \<times> flag_parser" where
  "parse_args [] fp = (None, fp)"
| "parse_args (arg # args) fp =
     (if arg = [] then parse_args args fp
      else
        (case match_flags arg (fp_flags fp) of
           None \<Rightarrow> parse_args args (fp\<lparr>fp_argv := fp_argv fp @ [arg]\<rparr>)
         | Some (pre, f, post, eq_len) \<Rightarrow>
             if fl_type f = T_SWITCH then parse_args args (fp\<lparr>fp_flags := pre @ add_value ''true'' f # post\<rparr>)
             else if eq_len > 0 then
               if length arg = eq_len then (Some kFlagError, fp)
               else parse_args args (fp\<lparr>fp_flags := pre @ add_value (drop eq_len arg) f # post\<rparr>)
             else
               (case args of
                  [] \<Rightarrow> (Some kFlagError, fp)
                | v # args' \<Rightarrow> parse_args args' (fp\<lparr>fp_flags := pre @ add_value v f # post\<rparr>))))"

definition parseArgv :: "string list \<Rightarrow> flag_parser \<Rightarrow> stx_error option \<times> flag_parser" where
  "parseArgv argv fp =
     (case parse_args argv fp of
        (Some e, fp) \<Rightarrow> (Some e, fp)
      | (None, fp) \<Rightarrow>
          if list_ex (\<lambda>f. fl_required f \<and> fl_values f = []) (fp_flags fp) then (Some kFlagError, fp) else (None, fp))"

text \<open>\<open>parseArgv(argc, argv)\<close> skips the name of the program.\<close>

definition parseArgv_main :: "string list \<Rightarrow> flag_parser \<Rightarrow> stx_error option \<times> flag_parser" where
  "parseArgv_main argv fp = parseArgv (drop 1 argv) fp"

definition getArgv :: "flag_parser \<Rightarrow> string list" where
  "getArgv fp = fp_argv fp"

definition ignoreUnknownFlags :: "flag_parser \<Rightarrow> flag_parser" where
  "ignoreUnknownFlags fp = fp\<lparr>fp_ignore_unknown := True\<rparr>"

section \<open>CLICommand and CLI\<close>

text \<open>An empty \<open>std::function\<close> throws when it is called.\<close>

record 'r cli_command =
  cmd_flags :: flag_parser
  cmd_on_call :: "(flag_parser \<Rightarrow> 'r result) option"

definition cmd_new :: "'r cli_command" where
  "cmd_new = \<lparr>cmd_flags = fp_new, cmd_on_call = None\<rparr>"

definition cmd_call :: "string list \<Rightarrow> 'r cli_command \<Rightarrow> 'r result \<times> 'r cli_command" where
  "cmd_call argv cmd =
     (case parseArgv argv (cmd_flags cmd) of
        (Some e, fp) \<Rightarrow> (Inl e, cmd\<lparr>cmd_flags := fp\<rparr>)
      | (None, fp) \<Rightarrow>
          ((case cmd_on_call cmd of None \<Rightarrow> Inl StdException | Some fn \<Rightarrow> fn fp), cmd\<lparr>cmd_flags := fp\<rparr>))"

type_synonym 'r cli = "string \<rightharpoonup> 'r cli_command"

text \<open>\<open>emplace\<close> keeps a command that is already there; the caller gets the new one.\<close>

definition defineCommand :: "string \<Rightarrow> 'r cli \<Rightarrow> 'r cli_command \<times> 'r cli" where
  "defineCommand name cli = (cmd_new, if cli name = None then cli(name \<mapsto> cmd_new) else cli)"

definition cli_call :: "string list \<Rightarrow> 'r cli \<Rightarrow> 'r result \<times> 'r cli" where
  "cli_call argv cli =
     (case argv of
        [] \<Rightarrow> (Inl kUsageError, cli)
      | name # args \<Rightarrow>
          (case cli name of
             None \<Rightarrow> (Inl kUsageError, cli)
           | Some cmd \<Rightarrow> (let (r, cmd') = cmd_call args cmd in (r, cli(name \<mapsto> cmd')))))"

section \<open>Command lines and what they mean\<close>

datatype cli_item = Positional string | Setting nat string | SwitchOn nat | ShortSetting nat string | ShortSwitch nat

abbreviation flag_name :: "flag_state \<Rightarrow> string" where
  "flag_name f \<equiv> cs_text (fl_longopt f)"

fun render_item :: "flag_state list \<Rightarrow> cli_item \<Rightarrow> string list" where
  "render_item fs (Positional a) = [a]"
| "render_item fs (Setting i v) = [''--'' @ flag_name (fs ! i), v]"
| "render_item fs (SwitchOn i) = [''--'' @ flag_name (fs ! i)]"
| "render_item fs (ShortSetting i v) = [''-'' @ the (fl_shortopt (fs ! i)), v]"
| "render_item fs (ShortSwitch i) = [''-'' @ the (fl_shortopt (fs ! i))]"

text \<open>A short name is matched as a prefix, so that no flag before its own may have a short name that begins it.\<close>

definition short_first :: "flag_state list \<Rightarrow> nat \<Rightarrow> bool" where
  "short_first fs i \<longleftrightarrow>
     (case fl_shortopt (fs ! i) of
        None \<Rightarrow> False
      | Some s \<Rightarrow> list_all (\<lambda>f. case fl_shortopt f of None \<Rightarrow> True | Some s' \<Rightarrow> \<not> starts_with s s') (take i fs))"

fun item_ok :: "flag_state list \<Rightarrow> cli_item \<Rightarrow> bool" where
  "item_ok fs (Positional a) \<longleftrightarrow> a \<noteq> [] \<and> list_all (\<lambda>f. match_flag a f = None) fs"
| "item_ok fs (Setting i v) \<longleftrightarrow> i < length fs \<and> fl_type (fs ! i) \<noteq> T_SWITCH"
| "item_ok fs (SwitchOn i) \<longleftrightarrow> i < length fs \<and> fl_type (fs ! i) = T_SWITCH"
| "item_ok fs (ShortSetting i v) \<longleftrightarrow> i < length fs \<and> fl_type (fs ! i) \<noteq> T_SWITCH \<and> short_first fs i"
| "item_ok fs (ShortSwitch i) \<longleftrightarrow> i < length fs \<and> fl_type (fs ! i) = T_SWITCH \<and> short_first fs i"

fun item_value :: "nat \<Rightarrow> cli_item \<Rightarrow> string list" where
  "item_value i (Setting j v) = (if i = j then [v] else [])"
| "item_value i (SwitchOn j) = (if i = j then [''true''] else [])"
| "item_value i (ShortSetting j v) = (if i = j then [v] else [])"
| "item_value i (ShortSwitch j) = (if i = j then [''true''] else [])"
| "item_value i (Positional a) = []"

fun item_argument :: "cli_item \<Rightarrow> string list" where
  "item_argument (Positional a) = [a]"
| "item_argument it = []"

definition settings :: "nat \<Rightarrow> cli_item list \<Rightarrow> string list" where
  "settings i items = concat (map (item_value i) items)"

text \<open>Names without equal signs, no two alike, and no short name that begins with a dash.\<close>

definition short_ok :: "flag_state \<Rightarrow> bool" where
  "short_ok f \<longleftrightarrow> (case fl_shortopt f of None \<Rightarrow> True | Some s \<Rightarrow> s \<noteq> [] \<and> hd s \<noteq> CHR ''-'')"

definition flags_ok :: "flag_state list \<Rightarrow> bool" where
  "flags_ok fs \<longleftrightarrow> distinct (map flag_name fs) \<and> list_all (\<lambda>f. CHR ''='' \<notin> set (flag_name f) \<and> short_ok f) fs"

lemma match_flags_None: "match_flags arg fs = None \<longleftrightarrow> list_all (\<lambda>f. match_flag arg f = None) fs"
  by (induction fs) (auto split: option.splits)

lemma starts_with_length [simp]: "length arg = length s \<and> starts_with arg s \<longleftrightarrow> arg = s"
  by (auto simp: starts_with_def)

lemma starts_with_Cons [simp]: "starts_with (c # arg) (d # s) \<longleftrightarrow> c = d \<and> starts_with arg s"
  by (auto simp: starts_with_def)

lemma match_flag_simps:
  "match_flag arg f =
     (if arg = ''--'' @ flag_name f then Some 0
      else if arg = ''--'' @ flag_name f @ ''='' then Some (length (flag_name f) + 3)
      else (case fl_shortopt f of
              None \<Rightarrow> None
            | Some s \<Rightarrow> if starts_with arg (CHR ''-'' # s) then Some 0
                else if starts_with arg (CHR ''-'' # s @ ''='') then Some (length s + 2) else None))"
  unfolding match_flag_def Let_def starts_with_length by (simp split: option.split)

lemma match_short:
  "short_ok f \<Longrightarrow> match_flag (''--'' @ t) f =
     (if t = flag_name f then Some 0 else if t = flag_name f @ ''='' then Some (length (flag_name f) + 3) else None)"
  by (cases "fl_shortopt f") (auto simp: match_flag_simps short_ok_def neq_Nil_conv)

lemma match_flags_skip:
  "list_all (\<lambda>f. match_flag arg f = None) pre \<Longrightarrow> match_flag arg f = Some n \<Longrightarrow>
   match_flags arg (pre @ f # post) = Some (pre, f, post, n)"
  by (induction pre) auto

lemma match_own:
  assumes "flags_ok fs" "i < length fs"
  shows "match_flags (''--'' @ flag_name (fs ! i)) fs = Some (take i fs, fs ! i, drop (Suc i) fs, 0)"
  using assms
proof (induction fs arbitrary: i)
  case (Cons f fs)
  then have f: "short_ok f" by (simp add: flags_ok_def)
  show ?case
  proof (cases i)
    case (Suc j)
    with Cons.prems have j: "j < length fs" "flags_ok fs" by (auto simp: flags_ok_def)
    have "fs ! j \<in> set fs" using j(1) by simp
    then have "flag_name (fs ! j) \<in> flag_name ` set fs" "CHR ''='' \<notin> set (flag_name (fs ! j))"
      using Cons.prems(1) by (auto simp: flags_ok_def list_all_iff)
    then have "flag_name (fs ! j) \<noteq> flag_name f" "flag_name (fs ! j) \<noteq> flag_name f @ ''=''"
      using Cons.prems(1) by (fastforce simp: flags_ok_def) (use \<open>CHR ''='' \<notin> set (flag_name (fs ! j))\<close> in auto)
    then show ?thesis using Cons.IH [OF j(2,1)] match_short [OF f] Suc by simp
  qed (use match_short [OF f, of "flag_name f"] in simp)
qed simp

lemma starts_with_append: "starts_with a (b @ c) \<Longrightarrow> starts_with a b"
proof -
  assume "starts_with a (b @ c)"
  then have "take (length b) (take (length (b @ c)) a) = take (length b) (b @ c)" by (simp add: starts_with_def)
  then show ?thesis by (simp add: starts_with_def)
qed

lemma match_short_None:
  assumes "s \<noteq> []" "hd s \<noteq> CHR ''-''" "case fl_shortopt f of None \<Rightarrow> True | Some s' \<Rightarrow> \<not> starts_with s s'"
  shows "match_flag (CHR ''-'' # s) f = None"
  using assms starts_with_append [of s] by (auto simp: match_flag_simps split: option.splits)

lemma match_own_short:
  assumes "flags_ok fs" "i < length fs" "short_first fs i"
  shows "match_flags (''-'' @ the (fl_shortopt (fs ! i))) fs = Some (take i fs, fs ! i, drop (Suc i) fs, 0)"
proof -
  obtain s where s: "fl_shortopt (fs ! i) = Some s" using assms(3) by (auto simp: short_first_def split: option.splits)
  have "short_ok (fs ! i)" using assms(1,2) by (auto simp: flags_ok_def list_all_length)
  then have d: "s \<noteq> []" "hd s \<noteq> CHR ''-''" using s by (auto simp: short_ok_def)
  have own: "match_flag (CHR ''-'' # s) (fs ! i) = Some 0" using s d by (auto simp: match_flag_simps starts_with_def)
  have "list_all (\<lambda>f. match_flag (CHR ''-'' # s) f = None) (take i fs)"
    using assms(3) s match_short_None [OF d] by (simp add: short_first_def list_all_iff)
  then have "match_flags (CHR ''-'' # s) (take i fs @ fs ! i # drop (Suc i) fs) = Some (take i fs, fs ! i, drop (Suc i) fs, 0)"
    by (rule match_flags_skip) (rule own)
  then show ?thesis using s id_take_nth_drop [OF assms(2)] by simp
qed

text \<open>What a flag is matched by does not change.\<close>

lemma add_value_fields [simp]:
  "fl_longopt (add_value v f) = fl_longopt f" "fl_type (add_value v f) = fl_type f" "fl_shortopt (add_value v f) = fl_shortopt f"
  "fl_required (add_value v f) = fl_required f" "fl_values (add_value v f) = fl_values f @ [v]"
  by (simp_all add: add_value_def)

lemma match_add_value [simp]: "match_flag arg (add_value v f) = match_flag arg f" "short_ok (add_value v f) = short_ok f"
  by (simp_all add: match_flag_simps short_ok_def)

lemma update_flag:
  assumes "i < length fs" "gs = fs[i := add_value v (fs ! i)]"
  shows "map fl_longopt gs = map fl_longopt fs" "flags_ok gs = flags_ok fs" "item_ok gs it = item_ok fs it"
    "item_ok fs it \<Longrightarrow> render_item gs it = render_item fs it"
proof -
  have g: "length gs = length fs" "\<And>k. k < length fs \<Longrightarrow> gs ! k = (if k = i then add_value v (fs ! i) else fs ! k)"
    using assms by (simp_all add: nth_list_update)
  then show "map fl_longopt gs = map fl_longopt fs" by (auto intro: nth_equalityI)
  have "map flag_name gs = map flag_name fs" using g by (auto intro: nth_equalityI)
  then show "flags_ok gs = flags_ok fs" using g by (auto simp: flags_ok_def list_all_length)
  have "map fl_shortopt gs = map fl_shortopt fs" using g by (auto intro: nth_equalityI)
  then have "\<And>k. k < length fs \<Longrightarrow> fl_shortopt (gs ! k) = fl_shortopt (fs ! k)" by (metis g(1) nth_map)
  then have sf: "k < length fs \<Longrightarrow> short_first gs k = short_first fs k" for k
    using g(1) by (simp add: short_first_def list_all_length split: option.split)
  show "item_ok gs it = item_ok fs it" using g sf by (cases it) (auto simp: list_all_length split: if_splits)
  show "render_item gs it = render_item fs it" if "item_ok fs it" using that g by (cases it) auto
qed

text \<open>Parsing an option with its value.\<close>

lemma parse_setting:
  assumes "flags_ok (fp_flags fp)" "item_ok (fp_flags fp) (Setting i v)"
  shows "parse_args (render_item (fp_flags fp) (Setting i v) @ args) fp =
    parse_args args (fp\<lparr>fp_flags := (fp_flags fp)[i := add_value v (fp_flags fp ! i)]\<rparr>)"
  using match_own [OF assms(1), of i] assms(2) by (simp add: upd_conv_take_nth_drop)

lemma parse_switch:
  assumes "flags_ok (fp_flags fp)" "item_ok (fp_flags fp) (SwitchOn i)"
  shows "parse_args (render_item (fp_flags fp) (SwitchOn i) @ args) fp =
    parse_args args (fp\<lparr>fp_flags := (fp_flags fp)[i := add_value ''true'' (fp_flags fp ! i)]\<rparr>)"
  using match_own [OF assms(1), of i] assms(2) by (simp add: upd_conv_take_nth_drop)

lemma parse_short:
  assumes "flags_ok (fp_flags fp)"
  shows "item_ok (fp_flags fp) (ShortSetting i v) \<Longrightarrow>
      parse_args (render_item (fp_flags fp) (ShortSetting i v) @ args) fp =
      parse_args args (fp\<lparr>fp_flags := (fp_flags fp)[i := add_value v (fp_flags fp ! i)]\<rparr>)"
    "item_ok (fp_flags fp) (ShortSwitch i) \<Longrightarrow>
      parse_args (render_item (fp_flags fp) (ShortSwitch i) @ args) fp =
      parse_args args (fp\<lparr>fp_flags := (fp_flags fp)[i := add_value ''true'' (fp_flags fp ! i)]\<rparr>)"
  using match_own_short [OF assms, of i] by (simp_all add: upd_conv_take_nth_drop)

lemma parse_positional:
  assumes "item_ok (fp_flags fp) (Positional a)"
  shows "parse_args (render_item (fp_flags fp) (Positional a) @ args) fp = parse_args args (fp\<lparr>fp_argv := fp_argv fp @ [a]\<rparr>)"
  using assms match_flags_None [of a "fp_flags fp"] by simp

text \<open>Two parsers with the same flags, the second with the values of the items added.\<close>

definition extends :: "cli_item list \<Rightarrow> flag_parser \<Rightarrow> flag_parser \<Rightarrow> bool" where
  "extends items fp fp' \<longleftrightarrow>
     map fl_longopt (fp_flags fp') = map fl_longopt (fp_flags fp) \<and> fp_argv fp' = fp_argv fp @ concat (map item_argument items) \<and>
     (\<forall>i < length (fp_flags fp). fl_type (fp_flags fp' ! i) = fl_type (fp_flags fp ! i) \<and>
        fl_required (fp_flags fp' ! i) = fl_required (fp_flags fp ! i) \<and>
        fl_values (fp_flags fp' ! i) = fl_values (fp_flags fp ! i) @ settings i items)"

lemma extends_trans: "extends is1 a b \<Longrightarrow> extends is2 b c \<Longrightarrow> extends (is1 @ is2) a c"
proof -
  assume e: "extends is1 a b" "extends is2 b c"
  then have "length (fp_flags b) = length (fp_flags a)" by (auto simp: extends_def dest: map_eq_imp_length_eq)
  with e show ?thesis by (auto simp: extends_def settings_def)
qed

lemma extends_value:
  assumes "i < length (fp_flags fp)" "\<And>k. item_value k it = (if k = i then [v] else [])" "item_argument it = []"
  shows "extends [it] fp (fp\<lparr>fp_flags := (fp_flags fp)[i := add_value v (fp_flags fp ! i)]\<rparr>)"
  using update_flag(1) [OF assms(1) refl, where v = v] assms
  by (auto simp: extends_def settings_def nth_list_update)

lemma parse_items:
  "flags_ok (fp_flags fp) \<Longrightarrow> list_all (item_ok (fp_flags fp)) items \<Longrightarrow>
   \<exists>fp'. parse_args (concat (map (render_item (fp_flags fp)) items)) fp = (None, fp') \<and> extends items fp fp'"
proof (induction items arbitrary: fp)
  case Nil
  then show ?case by (simp add: extends_def settings_def)
next
  case (Cons it items)
  let ?fs = "fp_flags fp"
  obtain fp1 where fp1: "\<And>args. parse_args (render_item ?fs it @ args) fp = parse_args args fp1" "extends [it] fp fp1"
    "flags_ok (fp_flags fp1)" "\<And>it. item_ok (fp_flags fp1) it = item_ok ?fs it"
    "\<And>it. item_ok ?fs it \<Longrightarrow> render_item (fp_flags fp1) it = render_item ?fs it"
  proof (cases it)
    case (Positional a)
    then show thesis
      using that [of "fp\<lparr>fp_argv := fp_argv fp @ [a]\<rparr>"] parse_positional [of fp a] Cons.prems
      by (auto simp: extends_def settings_def simp del: render_item.simps item_ok.simps)
  next
    case (Setting i v)
    then have i: "i < length ?fs" "\<And>k. item_value k it = (if k = i then [v] else [])" "item_argument it = []"
      using Cons.prems(2) by auto
    then show thesis
      using that [of "fp\<lparr>fp_flags := ?fs[i := add_value v (?fs ! i)]\<rparr>"] parse_setting [of fp i v] Cons.prems Setting
        update_flag [OF i(1) refl, where v = v] extends_value [OF i]
      by (auto simp del: render_item.simps item_ok.simps)
  next
    case (SwitchOn i)
    then have i: "i < length ?fs" "\<And>k. item_value k it = (if k = i then [''true''] else [])" "item_argument it = []"
      using Cons.prems(2) by auto
    then show thesis
      using that [of "fp\<lparr>fp_flags := ?fs[i := add_value ''true'' (?fs ! i)]\<rparr>"] parse_switch [of fp i] Cons.prems SwitchOn
        update_flag [OF i(1) refl, where v = "''true''"] extends_value [OF i]
      by (auto simp del: render_item.simps item_ok.simps)
  next
    case (ShortSetting i v)
    then have i: "i < length ?fs" "\<And>k. item_value k it = (if k = i then [v] else [])" "item_argument it = []"
      using Cons.prems(2) by auto
    then show thesis
      using that [of "fp\<lparr>fp_flags := ?fs[i := add_value v (?fs ! i)]\<rparr>"] parse_short(1) [of fp i v] Cons.prems ShortSetting
        update_flag [OF i(1) refl, where v = v] extends_value [OF i]
      by (auto simp del: render_item.simps item_ok.simps)
  next
    case (ShortSwitch i)
    then have i: "i < length ?fs" "\<And>k. item_value k it = (if k = i then [''true''] else [])" "item_argument it = []"
      using Cons.prems(2) by auto
    then show thesis
      using that [of "fp\<lparr>fp_flags := ?fs[i := add_value ''true'' (?fs ! i)]\<rparr>"] parse_short(2) [of fp i] Cons.prems ShortSwitch
        update_flag [OF i(1) refl, where v = "''true''"] extends_value [OF i]
      by (auto simp del: render_item.simps item_ok.simps)
  qed
  have "map (render_item (fp_flags fp1)) items = map (render_item ?fs) items"
    using Cons.prems(2) fp1(5) by (auto simp: list_all_iff)
  moreover have "list_all (item_ok (fp_flags fp1)) items" using Cons.prems(2) fp1(4) by (simp add: list_all_iff)
  ultimately obtain fp' where "parse_args (concat (map (render_item ?fs) items)) fp1 = (None, fp')" "extends items fp1 fp'"
    using Cons.IH [OF fp1(3)] by metis
  then show ?case using fp1(1) extends_trans [OF fp1(2)] by auto
qed

lemma cut_at_first: "xs @ a # ys = us @ a # vs \<Longrightarrow> a \<notin> set xs \<Longrightarrow> a \<notin> set us \<Longrightarrow> ys = vs"
proof (induction xs arbitrary: us)
  case Nil
  then show ?case by (cases us) auto
next
  case (Cons x xs)
  then show ?case by (cases us) auto
qed

lemma match_equals_form:
  assumes "flags_ok fs" "CHR ''='' \<notin> set n" "v \<noteq> []"
  shows "match_flags (''--'' @ n @ ''='' @ v) fs = None"
proof -
  have "match_flag (''--'' @ n @ ''='' @ v) f = None" if "f \<in> set fs" for f
  proof -
    have f: "short_ok f" "CHR ''='' \<notin> set (flag_name f)" using assms(1) that by (auto simp: flags_ok_def list_all_iff)
    then have "n @ ''='' @ v \<noteq> flag_name f" by (metis append_Cons in_set_conv_decomp)
    moreover have "n @ ''='' @ v \<noteq> flag_name f @ ''=''"
    proof
      assume "n @ ''='' @ v = flag_name f @ ''=''"
      then have "n @ CHR ''='' # v = flag_name f @ CHR ''='' # []" by simp
      from cut_at_first [OF this assms(2) f(2)] assms(3) show False by simp
    qed
    ultimately show ?thesis using match_short [OF f(1)] by simp
  qed
  then show ?thesis by (simp add: match_flags_None list_all_iff)
qed

lemma find_flag_own:
  assumes "distinct (map (\<lambda>f. cs_addr (fl_longopt f)) fs)" "i < length fs"
  shows "find (\<lambda>f. cs_addr (fl_longopt f) = cs_addr (fl_longopt (fs ! i))) fs = Some (fs ! i)"
  using assms
proof (induction fs arbitrary: i)
  case (Cons f fs)
  then show ?case by (cases i) (force simp: in_set_conv_nth)+
qed simp

section \<open>Properties\<close>

text \<open>C25. A command line of options with their values (\<open>--name value\<close> or \<open>-n value\<close>), switches (\<open>--name\<close> or \<open>-n\<close>) and
  other arguments, in any order, gives every flag exactly its values in order after the ones it had, and the other
  arguments in order; it is rejected exactly when a required flag is left without a value. The long names are distinct
  and without equal signs and the short names do not begin with a dash (\<open>flags_ok\<close>); an option that is not a switch has a
  value, a short name used does not begin with the short name of an earlier flag, and the other arguments are not empty and
  match no flag (\<open>item_ok\<close>). The form \<open>--name=value\<close> is not covered: it sets no flag.\<close>

theorem parse_command_line:
  assumes "flags_ok (fp_flags fp)" "list_all (item_ok (fp_flags fp)) items"
  shows "\<exists>fp'. parseArgv (concat (map (render_item (fp_flags fp)) items)) fp =
      (if \<exists>i < length (fp_flags fp). fl_required (fp_flags fp ! i) \<and> fl_values (fp_flags fp ! i) @ settings i items = []
       then Some kFlagError else None, fp') \<and>
    getArgv fp' = getArgv fp @ concat (map item_argument items) \<and>
    (\<forall>i < length (fp_flags fp). fl_values (fp_flags fp' ! i) = fl_values (fp_flags fp ! i) @ settings i items)"
proof -
  obtain fp' where p: "parse_args (concat (map (render_item (fp_flags fp)) items)) fp = (None, fp')" "extends items fp fp'"
    using parse_items [OF assms] by blast
  have l: "length (fp_flags fp') = length (fp_flags fp)" using p(2) by (auto simp: extends_def dest: map_eq_imp_length_eq)
  then have "list_ex (\<lambda>f. fl_required f \<and> fl_values f = []) (fp_flags fp') \<longleftrightarrow>
      (\<exists>i < length (fp_flags fp). fl_required (fp_flags fp ! i) \<and> fl_values (fp_flags fp ! i) @ settings i items = [])"
    using p(2) by (auto simp: extends_def list_ex_length)
  with p show ?thesis by (auto simp: parseArgv_def extends_def getArgv_def)
qed

abbreviation sample_flags :: flag_parser where
  "sample_flags \<equiv> defineFlag \<lparr>cs_addr = 1, cs_text = ''name''\<rparr> T_STRING True (Some ''n'') None None None
     (defineFlag \<lparr>cs_addr = 2, cs_text = ''quiet''\<rparr> T_SWITCH False None None None None fp_new)"

theorem parse_command_line_witness:
  "\<exists>fp. parseArgv [''x'', ''--name'', ''a'', ''--quiet'', ''y'', ''-n'', ''b''] sample_flags = (None, fp) \<and>
     getArgv fp = [''x'', ''y''] \<and> fl_values (fp_flags fp ! 1) = [''a'', ''b'']"
proof -
  let ?items = "[Positional ''x'', Setting 1 ''a'', SwitchOn 0, Positional ''y'', ShortSetting 1 ''b'']"
  have "flags_ok (fp_flags sample_flags)" "list_all (item_ok (fp_flags sample_flags)) ?items" by code_simp+
  from parse_command_line [OF this] show ?thesis
    by (auto simp: defineFlag_def fp_new_def settings_def getArgv_def less_Suc_eq)
qed

text \<open>After parsing, \<open>flags_getString\<close> answers with the last value when it is asked with the pointer the flag was
  defined with; asked with another string of the same text it does not find the flag.\<close>

theorem flag_found_by_pointer:
  assumes "flags_ok (fp_flags fp)" "list_all (item_ok (fp_flags fp)) items"
    "parseArgv (concat (map (render_item (fp_flags fp)) items)) fp = (None, fp')"
    "distinct (map (\<lambda>f. cs_addr (fl_longopt f)) (fp_flags fp))" "i < length (fp_flags fp)"
    "fl_type (fp_flags fp ! i) = T_STRING" "settings i items \<noteq> []"
    "addr \<notin> (\<lambda>f. cs_addr (fl_longopt f)) ` set (fp_flags fp)"
  shows "flags_getString (fl_longopt (fp_flags fp ! i)) fp' = Inr (last (settings i items)) \<and>
    flags_getString \<lparr>cs_addr = addr, cs_text = flag_name (fp_flags fp ! i)\<rparr> fp' = Inl kFlagError"
proof -
  have e: "extends items fp fp'"
    using parse_items [OF assms(1,2)] assms(3) by (auto simp: parseArgv_def split: if_splits)
  then have lo: "map fl_longopt (fp_flags fp') = map fl_longopt (fp_flags fp)" by (simp add: extends_def)
  then have l: "length (fp_flags fp') = length (fp_flags fp)" by (rule map_eq_imp_length_eq)
  have ad: "map (\<lambda>f. cs_addr (fl_longopt f)) (fp_flags fp') = map (\<lambda>f. cs_addr (fl_longopt f)) (fp_flags fp)"
    using arg_cong [OF lo, of "map cs_addr"] by (simp add: comp_def)
  have "fl_longopt (fp_flags fp' ! i) = fl_longopt (fp_flags fp ! i)"
    using arg_cong [OF lo, of "\<lambda>xs. xs ! i"] assms(5) l by simp
  then have "find_flag (fl_longopt (fp_flags fp ! i)) fp' = Some (fp_flags fp' ! i)"
    using find_flag_own [of "fp_flags fp'" i] ad assms(4,5) l by (simp add: find_flag_def)
  moreover have "find_flag \<lparr>cs_addr = addr, cs_text = t\<rparr> fp' = None" for t
    using assms(8) arg_cong [OF ad, of set] by (auto simp: find_flag_def find_None_iff)
  ultimately show ?thesis
    using e assms(5,6,7) by (simp add: flags_getString_def extends_def)
qed

theorem flag_found_by_pointer_witness:
  "\<exists>fp. parseArgv [''--name'', ''a''] sample_flags = (None, fp) \<and>
     flags_getString \<lparr>cs_addr = 1, cs_text = ''name''\<rparr> fp = Inr ''a'' \<and> flags_getString \<lparr>cs_addr = 3, cs_text = ''name''\<rparr> fp = Inl kFlagError"
proof -
  let ?items = "[Setting 1 ''a'']"
  have ok: "flags_ok (fp_flags sample_flags)" "list_all (item_ok (fp_flags sample_flags)) ?items" by code_simp+
  obtain fp where fp: "parseArgv (concat (map (render_item (fp_flags sample_flags)) ?items)) sample_flags = (None, fp)"
    by (auto simp: parseArgv_def defineFlag_def fp_new_def match_flag_def starts_with_def Let_def add_value_def)
  from flag_found_by_pointer [OF ok fp, of 1 3] fp show ?thesis
    by (simp add: defineFlag_def fp_new_def settings_def)
qed

text \<open>The form with an equal sign does not work: an argument \<open>--name=value\<close> sets no flag and is kept among the
  other arguments.\<close>

theorem equals_form_ignored:
  assumes "flags_ok (fp_flags fp)" "CHR ''='' \<notin> set n" "v \<noteq> []"
  shows "parse_args [''--'' @ n @ ''='' @ v] fp = (None, fp\<lparr>fp_argv := fp_argv fp @ [''--'' @ n @ ''='' @ v]\<rparr>)"
  using match_equals_form [OF assms] by simp

theorem equals_form_ignored_witness:
  "parse_args [''--name=a''] sample_flags = (None, sample_flags\<lparr>fp_argv := [''--name=a'']\<rparr>)"
proof -
  have "flags_ok (fp_flags sample_flags)" by code_simp
  from equals_form_ignored [OF this, of "''name''" "''a''"] show ?thesis by (simp add: defineFlag_def fp_new_def)
qed

text \<open>A command is called with its own flags parsed from the arguments after its name, and the values stay in the
  command: a second call finds the values of the first before its own.\<close>

theorem command_called_with_flags:
  assumes "cli name = Some cmd" "cmd_on_call cmd = Some fn" "flags_ok (fp_flags (cmd_flags cmd))"
    "list_all (item_ok (fp_flags (cmd_flags cmd))) items"
    "\<forall>f \<in> set (fp_flags (cmd_flags cmd)). fl_required f \<longrightarrow> fl_values f \<noteq> []"
  shows "\<exists>fp cli'. cli_call (name # concat (map (render_item (fp_flags (cmd_flags cmd))) items)) cli = (fn fp, cli') \<and>
    cli' name = Some (cmd\<lparr>cmd_flags := fp\<rparr>) \<and>
    getArgv fp = getArgv (cmd_flags cmd) @ concat (map item_argument items) \<and>
    (\<forall>i < length (fp_flags (cmd_flags cmd)). fl_values (fp_flags fp ! i) = fl_values (fp_flags (cmd_flags cmd) ! i) @ settings i items)"
proof -
  obtain fp where p: "parse_args (concat (map (render_item (fp_flags (cmd_flags cmd))) items)) (cmd_flags cmd) = (None, fp)"
    "extends items (cmd_flags cmd) fp"
    using parse_items [OF assms(3,4)] by blast
  have l: "length (fp_flags fp) = length (fp_flags (cmd_flags cmd))" using p(2) by (auto simp: extends_def dest: map_eq_imp_length_eq)
  then have "\<not> list_ex (\<lambda>f. fl_required f \<and> fl_values f = []) (fp_flags fp)"
    using p(2) assms(5) by (auto simp: extends_def list_ex_length)
  with p assms(1,2) show ?thesis
    by (auto simp: cli_call_def cmd_call_def parseArgv_def getArgv_def extends_def Let_def)
qed

theorem command_called_with_flags_witness:
  "\<exists>cli'. cli_call [''run'', ''--quiet''] [''run'' \<mapsto> cmd_new\<lparr>cmd_flags :=
      defineFlag \<lparr>cs_addr = 2, cs_text = ''quiet''\<rparr> T_SWITCH False None None None None fp_new,
      cmd_on_call := Some (\<lambda>fp. Inr (fl_values (fp_flags fp ! 0)))\<rparr>] = (Inr [''true''], cli')"
proof -
  let ?fp = "defineFlag \<lparr>cs_addr = 2, cs_text = ''quiet''\<rparr> T_SWITCH False None None None None fp_new"
  let ?cmd = "cmd_new\<lparr>cmd_flags := ?fp, cmd_on_call := Some (\<lambda>fp. Inr (fl_values (fp_flags fp ! 0)))\<rparr>"
  have ok: "flags_ok (fp_flags (cmd_flags ?cmd))" "list_all (item_ok (fp_flags (cmd_flags ?cmd))) [SwitchOn 0]"
    by (simp_all add: flags_ok_def short_ok_def defineFlag_def fp_new_def)
  show ?thesis
    using command_called_with_flags [of "[''run'' \<mapsto> ?cmd]" "''run''", OF _ _ ok, of "\<lambda>fp. Inr (fl_values (fp_flags fp ! 0))"]
    by (auto simp: defineFlag_def fp_new_def settings_def)
qed

end
