(* ===== verification/Stx_Statsd.thy ===== *)
theory Stx_Statsd
  imports Stx_JSONText
begin

text \<open>
  The statsd protocol: the parser of samples and the loop over a message of \<open>stats/statsd.cc\<close>, and the agent that
  sends the exported statistics (\<open>stats/statsdagent.cc\<close>, with \<open>stats/statssink.cc\<close>, \<open>stats/statsrepository.cc\<close> and
  the counters of \<open>stats/counter_impl.h\<close>). A \<open>double\<close> is its representation, as in theory \<open>Stx_JSONText\<close>, whose
  \<open>toString_double\<close> prints it; reading and subtracting doubles belong to the C library and the machine, and the
  functions \<open>stod\<close> and \<open>sub\<close> are arguments. A packet is a string, the socket is the list of packets sent.
\<close>

section \<open>Integers as doubles\<close>

text \<open>The conversion of a \<open>uint64_t\<close> to a \<open>double\<close>: 53 bits of it are kept, rounded to the nearest, ties to even.\<close>

fun floor_log2 :: "nat \<Rightarrow> nat" where
  "floor_log2 n = (if n < 2 then 0 else Suc (floor_log2 (n div 2)))"

declare floor_log2.simps [simp del]

definition double_of_u64 :: "u64 \<Rightarrow> u64" where
  "double_of_u64 v =
     (let n = unat v; k = floor_log2 n
      in if n = 0 then 0
         else if k \<le> 52 then word_of_nat ((1023 + k) * 2 ^ 52 + (n * 2 ^ (52 - k) - 2 ^ 52))
         else let d = 2 ^ (k - 52); q = n div d; r = n mod d
              in word_of_nat ((1023 + k) * 2 ^ 52 + ((if 2 * r > d \<or> (2 * r = d \<and> odd q) then q + 1 else q) - 2 ^ 52)))"

lemma floor_log2_bounds: "0 < n \<Longrightarrow> 2 ^ floor_log2 n \<le> n \<and> n < 2 ^ Suc (floor_log2 n)"
proof (induction n rule: floor_log2.induct)
  case (1 n)
  show ?case
  proof (cases "n < 2")
    case True
    then show ?thesis using "1.prems" by (simp add: floor_log2.simps)
  next
    case False
    with "1.IH" have "2 ^ floor_log2 (n div 2) \<le> n div 2" "n div 2 < 2 ^ Suc (floor_log2 (n div 2))" by auto
    moreover have "n = 2 * (n div 2) + n mod 2" "n mod 2 < 2" by simp_all
    ultimately have "2 * 2 ^ floor_log2 (n div 2) \<le> n" "n < 2 * 2 ^ Suc (floor_log2 (n div 2))" by linarith+
    with False show ?thesis by (simp add: floor_log2.simps [of n])
  qed
qed

lemma scaled_bounds:
  fixes n :: nat
  assumes "2 ^ k \<le> n" "n < 2 ^ Suc k" "k \<le> 52"
  shows "2 ^ 52 \<le> n * 2 ^ (52 - k) \<and> n * 2 ^ (52 - k) < 2 ^ 53"
proof -
  have p: "2 ^ 52 = 2 ^ k * (2 :: nat) ^ (52 - k)" "2 ^ 53 = 2 ^ Suc k * (2 :: nat) ^ (52 - k)"
    using assms(3) by (simp_all flip: power_add)
  have "2 ^ k * 2 ^ (52 - k) \<le> n * (2 :: nat) ^ (52 - k)" using assms(1) by (rule mult_right_mono) simp
  moreover have "n * 2 ^ (52 - k) < 2 ^ Suc k * (2 :: nat) ^ (52 - k)" using assms(2) by (rule mult_strict_right_mono) simp
  ultimately show ?thesis unfolding p by blast
qed

lemma dbl_fields:
  assumes "e < 2 ^ 11" "m < 2 ^ 52" "v = word_of_nat (e * 2 ^ 52 + m)"
  shows "dbl_exponent v = e" "dbl_mantissa v = m" "\<not> dbl_negative v"
proof -
  have n: "e * 2 ^ 52 + m < 2 ^ 63" using assms(1,2) by simp
  have u: "unat v = e * 2 ^ 52 + m" unfolding assms(3) unat_of_nat using n by simp
  show "dbl_exponent v = e" "dbl_mantissa v = m" "\<not> dbl_negative v"
    using assms(1,2) n by (simp_all add: dbl_exponent_def dbl_mantissa_def dbl_negative_def u)
qed

lemma double_of_u64_fields:
  assumes "0 < unat v" "unat v < 2 ^ 53"
  defines "k \<equiv> floor_log2 (unat v)"
  shows "k \<le> 52" "dbl_exponent (double_of_u64 v) = 1023 + k" "\<not> dbl_negative (double_of_u64 v)"
    "2 ^ 52 + dbl_mantissa (double_of_u64 v) = unat v * 2 ^ (52 - k)"
proof -
  have b: "2 ^ k \<le> unat v" "unat v < 2 ^ Suc k" using floor_log2_bounds [OF assms(1)] by (simp_all add: k_def)
  then have "(2 :: nat) ^ k < 2 ^ 53" using assms(2) by linarith
  then have "k < 53" by (rule power_less_imp_less_exp [rotated]) simp
  then show k: "k \<le> 52" by simp
  note s = scaled_bounds [OF b k]
  have d: "double_of_u64 v = word_of_nat ((1023 + k) * 2 ^ 52 + (unat v * 2 ^ (52 - k) - 2 ^ 52))"
    using assms(1) k by (simp add: double_of_u64_def Let_def k_def)
  have m: "unat v * 2 ^ (52 - k) - 2 ^ 52 < 2 ^ 52" using s by (simp add: less_diff_conv2)
  have e: "1023 + k < 2 ^ 11" using k by simp
  note f = dbl_fields [OF e m d]
  show "dbl_exponent (double_of_u64 v) = 1023 + k" by (rule f(1))
  show "2 ^ 52 + dbl_mantissa (double_of_u64 v) = unat v * 2 ^ (52 - k)" using f(2) s by linarith
  show "\<not> dbl_negative (double_of_u64 v)" by (rule f(3))
qed

lemma double_of_u64_millionths:
  assumes "unat v < 2 ^ 53"
  shows "dbl_millionths (double_of_u64 v) = unat v * 10 ^ 6"
proof (cases "unat v = 0")
  case True
  then show ?thesis by (simp add: double_of_u64_def dbl_millionths_def dbl_exponent_def dbl_mantissa_def)
next
  case False
  then have "0 < unat v" by simp
  note f = double_of_u64_fields [OF this assms]
  let ?k = "floor_log2 (unat v)"
  let ?d = "(2 :: nat) ^ (52 - ?k)"
  have "1075 - (1023 + ?k) = 52 - ?k" by simp
  moreover have "unat v * ?d * 10 ^ 6 = (unat v * 10 ^ 6) * ?d" by simp
  then have "unat v * ?d * 10 ^ 6 div ?d = unat v * 10 ^ 6" "unat v * ?d * 10 ^ 6 mod ?d = 0" by (simp_all only: nonzero_mult_div_cancel_right power_not_zero zero_neq_numeral mod_mult_self2_is_0 not_False_eq_True)
  ultimately show ?thesis
    using f(1,2,4) by (cases "?k = 52") (simp_all add: dbl_millionths_def Let_def max_def)
qed

lemma strip_zeros_six: "strip_zeros (x @ ''.000000'') = x @ ''.0''"
proof -
  have "strip_zeros (x @ ''.0'' @ replicate n CHR ''0'') = x @ ''.0''" for n
  proof (induction n)
    case 0
    have "length (x @ ''.0'') - 2 = length x" by simp
    then have "(x @ ''.0'') ! (length (x @ ''.0'') - 2) = CHR ''.''" by (simp only: nth_append_length)
    then show ?case by (subst strip_zeros.simps) simp
  next
    case (Suc n)
    let ?s = "x @ ''.0'' @ replicate (Suc n) CHR ''0''"
    have r: "?s = (x @ ''.0'' @ replicate n CHR ''0'') @ [CHR ''0'']" by (simp add: replicate_append_same)
    have "last ?s = CHR ''0''" "butlast ?s = x @ ''.0'' @ replicate n CHR ''0''" unfolding r by (simp_all add: butlast_append)
    moreover have "?s ! (length ?s - 2) = CHR ''0''"
      by (cases n) (simp_all add: nth_append del: replicate_Suc)
    ultimately show ?case using Suc by (subst strip_zeros.simps) (simp add: last_conv_nth)
  qed
  from this [of 5] show ?thesis by (simp add: numeral_eq_Suc)
qed

text \<open>Below \<open>2 ^ 53\<close> an integer is printed with all its digits.\<close>

lemma toString_double_of_u64:
  assumes "unat v < 2 ^ 53"
  shows "toString_double (double_of_u64 v) = Inr (to_string (unat v) @ ''.0'')"
proof -
  have ex: "dbl_exponent (double_of_u64 v) \<noteq> 2047" "\<not> dbl_negative (double_of_u64 v)"
    using double_of_u64_fields [OF _ assms]
    by (cases "unat v = 0"; force simp: double_of_u64_def dbl_exponent_def dbl_negative_def)+
  have "pad_zeros 6 (to_string 0) = ''000000''" by code_simp
  then have "printf_f (double_of_u64 v) = to_string (unat v) @ ''.000000''"
    using ex by (simp add: printf_f_def double_of_u64_millionths [OF assms])
  moreover have "length (to_string (unat v)) \<le> Suc 15" using assms by (intro length_to_string_le) simp
  ultimately show ?thesis by (simp add: toString_double_def strip_zeros_six)
qed

section \<open>StatsdServer\<close>

datatype statsd_state = S_KEY | S_LABEL_OR_VALUE | S_LABEL | S_VALUE

type_synonym labels = "(string \<times> string) list"

record statsd_sample =
  ss_key :: string
  ss_value :: string
  ss_labels :: labels

definition add_label :: "string \<Rightarrow> statsd_sample \<Rightarrow> statsd_sample result" where
  "add_label tok smp =
     (let k = takeWhile (\<lambda>c. c \<noteq> CHR ''='') tok
      in if length k + 1 \<ge> length tok then Inl kParseError
         else Inr (smp\<lparr>ss_labels := ss_labels smp @ [(k, drop (length k + 1) tok)]\<rparr>))"

definition line_end :: "char \<Rightarrow> bool" where
  "line_end c \<longleftrightarrow> c = CHR 0x0A \<or> c = CHR 0x0D"

text \<open>
  The loop of \<open>parseStatsdSample\<close>: the text between \<open>mark\<close> and \<open>cur\<close>, and the text from \<open>cur\<close> on, behind which the
  loop reads the terminating zero of the string. It returns what is left of the text.
\<close>

fun parse_sample :: "statsd_state \<Rightarrow> string \<Rightarrow> string \<Rightarrow> statsd_sample \<Rightarrow> (string \<times> statsd_sample) result" where
  "parse_sample st tok [] smp =
     (case st of
        S_KEY \<Rightarrow> Inr ([], smp\<lparr>ss_key := tok\<rparr>)
      | S_LABEL_OR_VALUE \<Rightarrow> Inl kParseError
      | S_LABEL \<Rightarrow> bindE (add_label tok smp) (\<lambda>smp. Inr ([], smp))
      | S_VALUE \<Rightarrow> Inr ([], smp\<lparr>ss_value := []\<rparr>))"
| "parse_sample st tok (c # cs) smp =
     (case st of
        S_KEY \<Rightarrow>
          if c = CHR ''['' \<or> c = CHR '':'' \<or> c = CHR 0x00
          then parse_sample (if c = CHR ''['' then S_LABEL else S_VALUE) [] cs (smp\<lparr>ss_key := tok\<rparr>)
          else if c = CHR ''='' then Inl kParseError
          else parse_sample S_KEY (tok @ [c]) cs smp
      | S_LABEL_OR_VALUE \<Rightarrow>
          if c = CHR ''['' then parse_sample S_LABEL [] cs smp
          else if c = CHR '':'' then parse_sample S_VALUE [] cs smp
          else Inl kParseError
      | S_LABEL \<Rightarrow>
          if c = CHR '']'' \<or> c = CHR '':'' \<or> c = CHR 0x00
          then bindE (add_label tok smp) (parse_sample S_LABEL_OR_VALUE [] cs)
          else parse_sample S_LABEL (tok @ [c]) cs smp
      | S_VALUE \<Rightarrow>
          Inr (dropWhile line_end (dropWhile (\<lambda>c. \<not> line_end c) (c # cs)),
               smp\<lparr>ss_value := takeWhile (\<lambda>c. \<not> line_end c) (c # cs)\<rparr>))"

definition parseStatsdSample :: "string \<Rightarrow> statsd_sample \<Rightarrow> (string \<times> statsd_sample) result" where
  "parseStatsdSample txt0 smp = parse_sample S_KEY [] txt0 smp"

lemma parse_sample_shrinks: "parse_sample st tok cs smp = Inr (r, smp') \<Longrightarrow> length r \<le> length cs"
proof (induction st tok cs smp rule: parse_sample.induct)
  case (2 st tok c cs smp)
  have "length (dropWhile line_end (dropWhile (\<lambda>c. \<not> line_end c) (c # cs))) \<le> length (c # cs)"
    by (meson length_dropWhile_le order_trans)
  with 2 show ?case by (cases st) (auto simp: bindE_eq_Inr split: if_splits simp del: dropWhile.simps)
qed (auto split: statsd_state.splits simp: bindE_eq_Inr)

lemma parseStatsdSample_shrinks: "parseStatsdSample txt0 smp = Inr (r, smp') \<Longrightarrow> txt0 \<noteq> [] \<Longrightarrow> length r < length txt0"
  by (cases txt0) (auto simp: parseStatsdSample_def less_Suc_eq_le dest: parse_sample_shrinks split: if_splits)

text \<open>
  \<open>messageReceived\<close>: the samples the callback is called with, and the error that ends the loop, if one does. The key, the
  value and the labels are variables outside of the loop.
\<close>

type_synonym 'd sample_call = "string \<times> 'd \<times> labels"

function message_loop ::
  "(string \<Rightarrow> 'd option) \<Rightarrow> string \<Rightarrow> statsd_sample \<Rightarrow> 'd sample_call list \<Rightarrow> stx_error option \<times> 'd sample_call list" where
  "message_loop stod txt0 smp calls =
     (if txt0 = [] then (None, calls)
      else
        (case parseStatsdSample txt0 smp of
           Inl e \<Rightarrow> (Some e, calls)
         | Inr (r, smp) \<Rightarrow>
             (case stod (ss_value smp) of
                None \<Rightarrow> (None, calls)
              | Some d \<Rightarrow> message_loop stod r (smp\<lparr>ss_labels := []\<rparr>) (calls @ [(ss_key smp, d, ss_labels smp)]))))"
  by pat_completeness auto
termination
  by (relation "measure (\<lambda>(_, t, _, _). length t)") (auto dest: parseStatsdSample_shrinks)

declare message_loop.simps [simp del]

definition messageReceived :: "(string \<Rightarrow> 'd option) \<Rightarrow> string \<Rightarrow> stx_error option \<times> 'd sample_call list" where
  "messageReceived stod msg = message_loop stod msg \<lparr>ss_key = [], ss_value = [], ss_labels = []\<rparr> []"

section \<open>Counters, sinks and the repository\<close>

text \<open>\<open>CounterStat<uint64_t>\<close>.\<close>

type_synonym counter = u64

definition counter_incr :: "u64 \<Rightarrow> counter \<Rightarrow> counter" where
  "counter_incr v c = c + v"

definition counter_decr :: "u64 \<Rightarrow> counter \<Rightarrow> counter" where
  "counter_decr v c = c - v"

definition counter_set :: "u64 \<Rightarrow> counter \<Rightarrow> counter" where
  "counter_set v c = v"

text \<open>
  A sink collects values; values with labels are dropped by both sinks. A statistic is what it exports: its values,
  with labels or without.
\<close>

type_synonym exported = "(labels option \<times> u64) list"

definition counter_exportAll :: "counter \<Rightarrow> exported" where
  "counter_exportAll c = [(None, c)]"

definition buffer_sink_values :: "string \<Rightarrow> exported \<Rightarrow> (string \<times> u64) list" where
  "buffer_sink_values path es =
     concat (map (\<lambda>(ls, v). case ls of None \<Rightarrow> [(path, double_of_u64 v)] | Some _ \<Rightarrow> []) es)"

fun text_sink_lines :: "string \<Rightarrow> exported \<Rightarrow> string list comp" where
  "text_sink_lines path [] = ret []"
| "text_sink_lines path ((ls, v) # es) =
     (case ls of
        None \<Rightarrow>
          bindC (map_option Inr (formatv ''$0:$1'' [path, to_string (unat v)])) (\<lambda>l.
            bindC (text_sink_lines path es) (\<lambda>r. ret (l # r)))
      | Some _ \<Rightarrow> text_sink_lines path es)"

datatype export_mode = EXPORT_VALUE | EXPORT_DELTA | EXPORT_NONE

type_synonym repository = "(string \<times> exported \<times> export_mode) list"

definition exportStat :: "string \<Rightarrow> exported \<Rightarrow> export_mode \<Rightarrow> repository \<Rightarrow> repository" where
  "exportStat path stat mode repo = repo @ [(path, stat, mode)]"

section \<open>StatsdAgent\<close>

definition kMaxPacketSize :: nat where
  "kMaxPacketSize = 1024 * 48"

definition stat_line :: "string \<Rightarrow> u64 \<Rightarrow> string comp" where
  "stat_line path d = bindC (Some (toString_double d)) (\<lambda>s. map_option Inr (formatv ''$0:$1'' [path, s]))"

fun value_lines :: "(string \<times> u64) list \<Rightarrow> string list comp" where
  "value_lines [] = ret []"
| "value_lines ((p, v) # vs) = bindC (stat_line p v) (\<lambda>l. bindC (value_lines vs) (\<lambda>ls. ret (l # ls)))"

definition reportValue :: "string \<Rightarrow> exported \<Rightarrow> string list comp" where
  "reportValue path stat = value_lines (buffer_sink_values path stat)"

text \<open>\<open>last_values_\<close> is a map whose missing entries are zero.\<close>

fun delta_lines ::
  "(u64 \<Rightarrow> u64 \<Rightarrow> u64) \<Rightarrow> (string \<times> u64) list \<Rightarrow> (string \<Rightarrow> u64) \<Rightarrow> (string list \<times> (string \<Rightarrow> u64)) comp" where
  "delta_lines sub [] old = ret ([], old)"
| "delta_lines sub ((p, v) # vs) old =
     bindC (stat_line p (sub v (old p))) (\<lambda>l.
       bindC (delta_lines sub vs (old(p := v))) (\<lambda>(ls, old'). ret (l # ls, old')))"

definition reportDelta ::
  "(u64 \<Rightarrow> u64 \<Rightarrow> u64) \<Rightarrow> string \<Rightarrow> exported \<Rightarrow> (string \<Rightarrow> u64) \<Rightarrow> (string list \<times> (string \<Rightarrow> u64)) comp" where
  "reportDelta sub path stat old = delta_lines sub (buffer_sink_values path stat) old"

fun report_lines ::
  "(u64 \<Rightarrow> u64 \<Rightarrow> u64) \<Rightarrow> repository \<Rightarrow> (string \<Rightarrow> u64) \<Rightarrow> (string list \<times> (string \<Rightarrow> u64)) comp" where
  "report_lines sub [] old = ret ([], old)"
| "report_lines sub ((path, stat, mode) # repo) old =
     bindC (case mode of
              EXPORT_VALUE \<Rightarrow> bindC (reportValue path stat) (\<lambda>ls. ret (ls, old))
            | EXPORT_DELTA \<Rightarrow> reportDelta sub path stat old
            | EXPORT_NONE \<Rightarrow> ret ([], old)) (\<lambda>(ls, old1).
       bindC (report_lines sub repo old1) (\<lambda>(ls', old2). ret (ls @ ls', old2)))"

fun pack_lines :: "string list \<Rightarrow> string list \<Rightarrow> string list" where
  "pack_lines [] pkts = pkts"
| "pack_lines (l # ls) pkts =
     (let pkts = (if pkts = [] \<or> length (last pkts) + length l + 2 \<ge> kMaxPacketSize then pkts @ [[]] else pkts)
      in pack_lines ls (butlast pkts @ [last pkts @ l @ [CHR 0x0A]]))"

definition sendToStatsd :: "string list \<Rightarrow> string list" where
  "sendToStatsd ls = pack_lines ls []"

definition agent_report ::
  "(u64 \<Rightarrow> u64 \<Rightarrow> u64) \<Rightarrow> repository \<Rightarrow> (string \<Rightarrow> u64) \<Rightarrow> (string list \<times> (string \<Rightarrow> u64)) comp" where
  "agent_report sub repo old =
     bindC (report_lines sub repo old) (\<lambda>(ls, old'). ret (sendToStatsd ls, old'))"

section \<open>The text of samples\<close>

definition key_ok :: "string \<Rightarrow> bool" where
  "key_ok k \<longleftrightarrow> list_all (\<lambda>c. c \<notin> {CHR ''['', CHR '':'', CHR ''='', CHR 0x00}) k \<and> (k \<noteq> [] \<longrightarrow> \<not> line_end (hd k))"

definition label_ok :: "string \<times> string \<Rightarrow> bool" where
  "label_ok l \<longleftrightarrow> list_all (\<lambda>c. c \<notin> {CHR '']'', CHR '':'', CHR ''='', CHR 0x00}) (fst l) \<and> snd l \<noteq> [] \<and>
     list_all (\<lambda>c. c \<notin> {CHR '']'', CHR '':'', CHR 0x00}) (snd l)"

fun labels_text :: "labels \<Rightarrow> string" where
  "labels_text [] = []"
| "labels_text ((k, v) # ls) = ''['' @ k @ ''='' @ v @ '']'' @ labels_text ls"

type_synonym sample = "string \<times> labels \<times> string"

fun sample_text :: "sample \<Rightarrow> string" where
  "sample_text (k, ls, v) = k @ labels_text ls @ '':'' @ v @ [CHR 0x0A]"

fun sample_ok :: "sample \<Rightarrow> bool" where
  "sample_ok (k, ls, v) \<longleftrightarrow> key_ok k \<and> list_all label_ok ls \<and> list_all (\<lambda>c. \<not> line_end c) v"

lemma parse_key:
  "list_all (\<lambda>c. c \<notin> {CHR ''['', CHR '':'', CHR ''='', CHR 0x00}) k \<Longrightarrow>
   parse_sample S_KEY tok (k @ r) smp = parse_sample S_KEY (tok @ k) r smp"
  by (induction k arbitrary: tok) simp_all

lemma parse_key_end:
  "c = CHR ''['' \<or> c = CHR '':'' \<Longrightarrow>
   parse_sample S_KEY tok (c # cs) smp = parse_sample S_LABEL_OR_VALUE [] (c # cs) (smp\<lparr>ss_key := tok\<rparr>)"
  by auto

lemma parse_label_text:
  "list_all (\<lambda>c. c \<notin> {CHR '']'', CHR '':'', CHR 0x00}) t \<Longrightarrow>
   parse_sample S_LABEL tok (t @ r) smp = parse_sample S_LABEL (tok @ t) r smp"
  by (induction t arbitrary: tok) simp_all

lemma add_label_text:
  assumes "label_ok (k, v)"
  shows "add_label (k @ ''='' @ v) smp = Inr (smp\<lparr>ss_labels := ss_labels smp @ [(k, v)]\<rparr>)"
proof -
  have "takeWhile (\<lambda>c. c \<noteq> CHR ''='') k = k" using assms by (subst takeWhile_eq_all_conv) (auto simp: label_ok_def list_all_iff)
  then have "takeWhile (\<lambda>c. c \<noteq> CHR ''='') (k @ CHR ''='' # v) = k" by (simp add: takeWhile_append)
  then show ?thesis using assms by (simp add: add_label_def label_ok_def Let_def)
qed

lemma parse_labels:
  "list_all label_ok ls \<Longrightarrow>
   parse_sample S_LABEL_OR_VALUE [] (labels_text ls @ CHR '':'' # r) smp =
     parse_sample S_VALUE [] r (smp\<lparr>ss_labels := ss_labels smp @ ls\<rparr>)"
proof (induction ls arbitrary: smp rule: labels_text.induct)
  case (2 k v ls)
  then have l: "label_ok (k, v)" by simp
  then have t: "list_all (\<lambda>c. c \<notin> {CHR '']'', CHR '':'', CHR 0x00}) (k @ ''='' @ v)"
    by (auto simp: label_ok_def list_all_iff)
  let ?rest = "labels_text ls @ CHR '':'' # r"
  have "parse_sample S_LABEL_OR_VALUE [] (labels_text ((k, v) # ls) @ CHR '':'' # r) smp =
      parse_sample S_LABEL [] ((k @ ''='' @ v) @ CHR '']'' # ?rest) smp" by simp
  also have "\<dots> = parse_sample S_LABEL (k @ ''='' @ v) (CHR '']'' # ?rest) smp"
    unfolding parse_label_text [OF t] by simp
  also have "\<dots> = parse_sample S_LABEL_OR_VALUE [] ?rest (smp\<lparr>ss_labels := ss_labels smp @ [(k, v)]\<rparr>)"
    using add_label_text [OF l] by simp
  finally show ?case using 2 by simp
qed simp

lemma parse_value:
  assumes "list_all (\<lambda>c. \<not> line_end c) v" "r = [] \<or> \<not> line_end (hd r)"
  shows "parse_sample S_VALUE [] (v @ CHR 0x0A # r) smp = Inr (r, smp\<lparr>ss_value := v\<rparr>)"
proof -
  have v: "dropWhile (\<lambda>c. \<not> line_end c) (v @ CHR 0x0A # r) = CHR 0x0A # r"
    "takeWhile (\<lambda>c. \<not> line_end c) (v @ CHR 0x0A # r) = v"
    using assms(1) by (induction v) (auto simp: line_end_def)
  have "dropWhile line_end (CHR 0x0A # r) = r" using assms(2) by (cases r) (auto simp: line_end_def)
  with v show ?thesis by (cases "v @ CHR 0x0A # r") simp_all
qed

lemma parse_sample_text:
  assumes "sample_ok (k, ls, v)" "r = [] \<or> \<not> line_end (hd r)"
  shows "parseStatsdSample (sample_text (k, ls, v) @ r) smp =
    Inr (r, smp\<lparr>ss_key := k, ss_labels := ss_labels smp @ ls, ss_value := v\<rparr>)"
proof -
  let ?rest = "labels_text ls @ CHR '':'' # v @ CHR 0x0A # r"
  have "parseStatsdSample (sample_text (k, ls, v) @ r) smp = parse_sample S_KEY k ?rest smp"
    using parse_key [of k "[]" ?rest smp] assms(1) by (simp add: parseStatsdSample_def key_ok_def)
  also have "\<dots> = parse_sample S_LABEL_OR_VALUE [] ?rest (smp\<lparr>ss_key := k\<rparr>)"
  proof -
    obtain c cs where c: "?rest = c # cs" "c = CHR ''['' \<or> c = CHR '':''" by (cases ls rule: labels_text.cases) auto
    show ?thesis unfolding c(1) by (rule parse_key_end [OF c(2)])
  qed
  also have "\<dots> = Inr (r, smp\<lparr>ss_key := k, ss_labels := ss_labels smp @ ls, ss_value := v\<rparr>)"
    using parse_labels [of ls "v @ CHR 0x0A # r" "smp\<lparr>ss_key := k\<rparr>"] assms parse_value [OF _ assms(2)] by simp
  finally show ?thesis .
qed

definition sample_call :: "(string \<Rightarrow> 'd option) \<Rightarrow> sample \<Rightarrow> 'd sample_call" where
  "sample_call stod smp = (fst smp, the (stod (snd (snd smp))), fst (snd smp))"

abbreviation start_ok :: "string \<Rightarrow> bool" where
  "start_ok r \<equiv> r = [] \<or> \<not> line_end (hd r)"

lemma sample_text_start: "sample_ok smp \<Longrightarrow> start_ok (sample_text smp @ r)"
proof (cases smp rule: sample_text.cases)
  case (1 k ls v)
  assume "sample_ok smp"
  with 1 show ?thesis by (cases k; cases ls rule: labels_text.cases) (auto simp: key_ok_def line_end_def)
qed

lemma message_samples:
  assumes "list_all sample_ok smps" "\<forall>smp \<in> set smps. stod (snd (snd smp)) \<noteq> None" "start_ok r" "ss_labels st = []"
  shows "\<exists>st'. message_loop stod (concat (map sample_text smps) @ r) st calls =
      message_loop stod r st' (calls @ map (sample_call stod) smps) \<and> ss_labels st' = [] \<and>
      ss_value st' = (if smps = [] then ss_value st else snd (snd (last smps)))"
  using assms
proof (induction smps arbitrary: st calls)
  case (Cons smp smps)
  obtain k ls v where smp: "smp = (k, ls, v)" by (cases smp) auto
  let ?rest = "concat (map sample_text smps) @ r"
  have ok: "start_ok ?rest"
    using Cons.prems(1,3) sample_text_start by (cases smps) auto
  have ne: "sample_text smp @ ?rest \<noteq> []" using smp by simp
  obtain d where d: "stod v = Some d" using Cons.prems(2) smp by auto
  let ?st = "st\<lparr>ss_key := k, ss_value := v, ss_labels := []\<rparr>"
  have "message_loop stod (sample_text smp @ ?rest) st calls = message_loop stod ?rest ?st (calls @ [(k, d, ls)])"
    using parse_sample_text [OF _ ok, of k ls v st] Cons.prems(1,4) smp d ne
    by (subst message_loop.simps) simp
  moreover have "sample_call stod smp = (k, d, ls)" using smp d by (simp add: sample_call_def)
  ultimately show ?case
    using Cons.IH [of ?st "calls @ [(k, d, ls)]"] Cons.prems smp by auto
qed auto

lemma messageReceived_samples:
  assumes "list_all sample_ok smps" "\<forall>smp \<in> set smps. stod (snd (snd smp)) \<noteq> None"
  shows "messageReceived stod (concat (map sample_text smps)) = (None, map (sample_call stod) smps)"
  using message_samples [OF assms, of "[]" "\<lparr>ss_key = [], ss_value = [], ss_labels = []\<rparr>" "[]"]
  by (auto simp: messageReceived_def message_loop.simps)

section \<open>Packets\<close>

definition line_text :: "string \<Rightarrow> string" where
  "line_text l = l @ [CHR 0x0A]"

text \<open>Packets of whole lines: each is a group of lines, and exceeds the limit only when it is a single line.\<close>

definition packet_of :: "string list \<Rightarrow> string \<Rightarrow> bool" where
  "packet_of g p \<longleftrightarrow> g \<noteq> [] \<and> p = concat (map line_text g) \<and> (length g = 1 \<or> length p < kMaxPacketSize)"

lemma pack_lines_groups:
  assumes "list_all2 packet_of gs pkts"
  shows "\<exists>gs'. list_all2 packet_of gs' (pack_lines ls pkts) \<and> concat gs' = concat gs @ ls"
  using assms
proof (induction ls arbitrary: gs pkts)
  case (Cons l ls)
  show ?case
  proof (cases "pkts = [] \<or> length (last pkts) + length l + 2 \<ge> kMaxPacketSize")
    case True
    have "packet_of [l] (line_text l)" by (simp add: packet_of_def)
    then have "list_all2 packet_of (gs @ [[l]]) (pkts @ [line_text l])"
      using Cons.prems by (auto intro: list_all2_appendI)
    from Cons.IH [OF this] True show ?thesis by (simp add: line_text_def)
  next
    case False
    then obtain ps p where ps: "pkts = ps @ [p]" by (metis rev_exhaust)
    then obtain hs g where gs: "gs = hs @ [g]" "list_all2 packet_of hs ps" "packet_of g p"
      using Cons.prems by (auto simp: list_all2_append2 list_all2_Cons2)
    have "packet_of (g @ [l]) (p @ line_text l)" using gs(3) False ps by (auto simp: packet_of_def line_text_def)
    then have "list_all2 packet_of (hs @ [g @ [l]]) (ps @ [p @ line_text l])"
      using gs(2) by (auto intro: list_all2_appendI)
    from Cons.IH [OF this] show ?thesis using False ps gs(1) by (simp add: line_text_def)
  qed
qed auto

lemma sendToStatsd_groups: "\<exists>gs. list_all2 packet_of gs (sendToStatsd ls) \<and> concat gs = ls"
  using pack_lines_groups [of "[]" "[]" ls] by (simp add: sendToStatsd_def)

section \<open>Properties\<close>

text \<open>A message of samples, with any number of labels each, is delivered sample by sample, in order.\<close>

theorem statsd_samples_delivered:
  assumes "list_all sample_ok smps" "\<forall>smp \<in> set smps. stod (snd (snd smp)) \<noteq> None"
  shows "messageReceived stod (concat (map sample_text smps)) =
    (None, map (\<lambda>(k, ls, v). (k, the (stod v), ls)) smps)"
  using messageReceived_samples [OF assms] by (simp add: sample_call_def [abs_def] split_def)

theorem statsd_samples_delivered_witness:
  "messageReceived (\<lambda>v. Some (length v)) (''a[x=1][y=2]:10'' @ [CHR 0x0A] @ ''b:7'' @ [CHR 0x0A]) =
    (None, [(''a'', 2, [(''x'', ''1''), (''y'', ''2'')]), (''b'', 1, [])])"
  using statsd_samples_delivered [of "[(''a'', [(''x'', ''1''), (''y'', ''2'')], ''10''), (''b'', [], ''7'')]" "\<lambda>v. Some (length v)"]
  by (simp add: key_ok_def label_ok_def line_end_def)

text \<open>A key at the end of a message that has no value is delivered with the value of the sample before it.\<close>

theorem statsd_value_repeated:
  assumes "sample_ok smp" "stod (snd (snd smp)) = Some d" "key_ok k" "k \<noteq> []"
  shows "messageReceived stod (sample_text smp @ k) = (None, [(fst smp, d, fst (snd smp)), (k, d, [])])"
proof -
  obtain st where st: "messageReceived stod (sample_text smp @ k) = message_loop stod k st [sample_call stod smp]"
    "ss_labels st = []" "ss_value st = snd (snd smp)"
    using message_samples [of "[smp]" stod k "\<lparr>ss_key = [], ss_value = [], ss_labels = []\<rparr>" "[]"] assms
    by (auto simp: messageReceived_def key_ok_def)
  have "parseStatsdSample k st = Inr ([], st\<lparr>ss_key := k\<rparr>)"
    using parse_key [of k "[]" "[]" st] assms(3) by (simp add: parseStatsdSample_def key_ok_def)
  then have "message_loop stod k st [sample_call stod smp] = (None, [sample_call stod smp, (k, d, [])])"
    using assms(2,4) st(2,3) by (subst message_loop.simps) (simp add: message_loop.simps)
  then show ?thesis using st(1) assms(2) by (simp add: sample_call_def)
qed

theorem statsd_value_repeated_witness:
  "messageReceived (\<lambda>v. Some (length v)) (''a:10'' @ [CHR 0x0A] @ ''b'') = (None, [(''a'', 2, []), (''b'', 2, [])])"
  using statsd_value_repeated [of "(''a'', [], ''10'')" "\<lambda>v. Some (length v)" 2 "''b''"]
  by (simp add: key_ok_def line_end_def)

text \<open>What a report of values means: the counters it exports, each under its path, and their lines.\<close>

definition exported_values :: "string \<Rightarrow> exported \<Rightarrow> (string \<times> u64) list" where
  "exported_values path es = concat (map (\<lambda>(ls, v). case ls of None \<Rightarrow> [(path, v)] | Some _ \<Rightarrow> []) es)"

definition reported :: "repository \<Rightarrow> (string \<times> u64) list" where
  "reported repo =
     concat (map (\<lambda>(path, stat, mode). if mode = EXPORT_NONE then [] else exported_values path stat) repo)"

abbreviation value_text :: "u64 \<Rightarrow> string" where
  "value_text v \<equiv> to_string (unat v) @ ''.0''"

abbreviation value_line :: "string \<times> u64 \<Rightarrow> string" where
  "value_line e \<equiv> fst e @ '':'' @ value_text (snd e)"

abbreviation small :: "u64 \<Rightarrow> bool" where
  "small v \<equiv> unat v < 2 ^ 53"

lemma value_text_chars: "c \<in> set (value_text v) \<Longrightarrow> isdigit c \<or> c = CHR ''.''"
  using to_string_digits [of c "unat v"] by (auto simp: isdigit_def)

lemma stat_line_text:
  assumes "CHR ''$'' \<notin> set p" "small v"
  shows "stat_line p (double_of_u64 v) = ret (value_line (p, v))"
proof -
  have "CHR ''$'' \<notin> set (value_text v)" using value_text_chars [of "CHR ''$''" v] by (auto simp: isdigit_def)
  from format_pair [OF assms(1) this, of "'':''"] show ?thesis
    by (simp add: stat_line_def toString_double_of_u64 [OF assms(2)] isdigit_def)
qed

lemma value_lines_text:
  "CHR ''$'' \<notin> set path \<Longrightarrow> list_all (\<lambda>(ls, v). small v) es \<Longrightarrow>
   value_lines (buffer_sink_values path es) = ret (map value_line (exported_values path es))"
  by (induction es) (auto simp: buffer_sink_values_def exported_values_def stat_line_text split: option.split)

definition entry_ok :: "string \<times> exported \<times> export_mode \<Rightarrow> bool" where
  "entry_ok e \<longleftrightarrow> snd (snd e) \<noteq> EXPORT_DELTA \<and> CHR ''$'' \<notin> set (fst e) \<and> key_ok (fst e) \<and>
     list_all (\<lambda>(ls, v). small v) (fst (snd e))"

lemma report_lines_values:
  "list_all entry_ok repo \<Longrightarrow> report_lines sub repo old = ret (map value_line (reported repo), old)"
proof (induction repo)
  case (Cons e repo)
  obtain path stat mode where "e = (path, stat, mode)" by (cases e) auto
  with Cons value_lines_text [of path stat] show ?case
    by (cases mode) (auto simp: entry_ok_def reported_def reportValue_def)
qed (simp add: reported_def)

lemma reported_ok: "list_all entry_ok repo \<Longrightarrow> e \<in> set (reported repo) \<Longrightarrow> key_ok (fst e) \<and> small (snd e)"
  by (fastforce simp: reported_def exported_values_def entry_ok_def list_all_iff split: if_splits option.splits)

lemma packets_received:
  assumes "list_all2 packet_of gs pkts" "concat gs = map value_line es"
    "\<And>e. e \<in> set es \<Longrightarrow> key_ok (fst e) \<and> stod (value_text (snd e)) = Some (double_of_u64 (snd e))"
  shows "list_all (\<lambda>pkt. fst (messageReceived stod pkt) = None) pkts \<and>
    concat (map (\<lambda>pkt. snd (messageReceived stod pkt)) pkts) = map (\<lambda>(p, v). (p, double_of_u64 v, [])) es"
  using assms
proof (induction gs pkts arbitrary: es rule: list_all2_induct)
  case (Cons g gs pkt pkts)
  obtain es1 es2 where es: "es = es1 @ es2" "g = map value_line es1" "concat gs = map value_line es2"
    using Cons.prems(1) by (auto simp: append_eq_map_conv)
  let ?smps = "map (\<lambda>e. (fst e, [], value_text (snd e))) es1"
  have "pkt = concat (map sample_text ?smps)"
    using Cons.hyps(1) es(2) by (simp add: packet_of_def line_text_def comp_def)
  moreover have ne: "\<not> line_end c" if "c \<in> set (value_text v)" for c v
    using value_text_chars [OF that] by (auto simp: line_end_def isdigit_def)
  have e1: "key_ok (fst e) \<and> stod (value_text (snd e)) = Some (double_of_u64 (snd e))" if "e \<in> set es1" for e
    using Cons.prems(2) [of e] es(1) that by simp
  have "list_all sample_ok ?smps" "\<forall>smp \<in> set ?smps. stod (snd (snd smp)) \<noteq> None"
    using e1 ne by (auto simp: list_all_iff)
  ultimately have "messageReceived stod pkt = (None, map (sample_call stod) ?smps)"
    using messageReceived_samples by blast
  moreover have "map (sample_call stod) ?smps = map (\<lambda>(p, v). (p, double_of_u64 v, [])) es1"
    using e1 by (auto simp: sample_call_def)
  ultimately show ?case using Cons.IH [OF es(3)] Cons.prems(2) es(1) by simp
qed simp

text \<open>C27. What the agent reports arrives. For statistics exported by value or not at all (\<open>EXPORT_DELTA\<close> is not covered),
  under paths without dollar signs, brackets, colons, equals signs and zero characters that do not begin with a line break,
  and counters below \<open>2 ^ 53\<close>, which doubles hold exactly: the report succeeds and leaves the last values as they are; every
  packet it sends consists of whole lines and is smaller than the limit unless it is a single line; and a server that
  receives the packets reports no error and delivers every exported counter under its path, in order, as a double. The C
  library's \<open>stod\<close> is assumed to read the decimal text of such an integer as that integer.\<close>

theorem statsd_agent_to_server:
  assumes "list_all entry_ok repo"
    "\<And>v. unat v < 2 ^ 53 \<Longrightarrow> stod (to_string (unat v) @ ''.0'') = Some (double_of_u64 v)"
  shows "\<exists>pkts. agent_report sub repo old = ret (pkts, old) \<and>
    list_all (\<lambda>pkt. \<exists>g. g \<noteq> [] \<and> pkt = concat (map (\<lambda>l. l @ [CHR 0x0A]) g) \<and>
      (length g = 1 \<or> length pkt < kMaxPacketSize)) pkts \<and>
    list_all (\<lambda>pkt. fst (messageReceived stod pkt) = None) pkts \<and>
    concat (map (\<lambda>pkt. snd (messageReceived stod pkt)) pkts) = map (\<lambda>(p, v). (p, double_of_u64 v, [])) (reported repo)"
proof -
  let ?ls = "map value_line (reported repo)"
  let ?pkts = "sendToStatsd ?ls"
  obtain gs where gs: "list_all2 packet_of gs ?pkts" "concat gs = ?ls" using sendToStatsd_groups by blast
  have "agent_report sub repo old = ret (?pkts, old)"
    using report_lines_values [OF assms(1)] by (simp add: agent_report_def)
  moreover have "\<exists>g. packet_of g pkt" if "pkt \<in> set ?pkts" for pkt
    using gs(1) that by (auto simp: list_all2_conv_all_nth in_set_conv_nth)
  then have "list_all (\<lambda>pkt. \<exists>g. packet_of g pkt) ?pkts" by (simp add: list_all_iff)
  moreover note packets_received [OF gs, of stod] reported_ok [OF assms(1)] assms(2)
  ultimately show ?thesis by (intro exI [of _ ?pkts]) (simp add: packet_of_def line_text_def [abs_def])
qed

theorem statsd_agent_to_server_witness:
  "\<exists>pkts. agent_report (-) [(''a'', [(None, 3)], EXPORT_VALUE), (''b'', [(None, 4)], EXPORT_NONE)] (\<lambda>_. 0) = ret (pkts, \<lambda>_. 0) \<and>
     concat (map (\<lambda>pkt. snd (messageReceived (\<lambda>s. Some (double_of_u64 (word_of_nat (digits_value (takeWhile isdigit s))))) pkt)) pkts) =
       [(''a'', double_of_u64 3, [])]"
proof -
  let ?stod = "\<lambda>s. Some (double_of_u64 (word_of_nat (digits_value (takeWhile isdigit s))))"
  let ?repo = "[(''a'', [(None, 3)], EXPORT_VALUE), (''b'', [(None, 4)], EXPORT_NONE)]"
  have "?stod (to_string (unat v) @ ''.0'') = Some (double_of_u64 v)" for v :: u64
    using takeWhile_isdigit_to_string [of "''.0''" "unat v"] by (simp add: isdigit_def)
  moreover have "list_all entry_ok ?repo" by (simp add: entry_ok_def key_ok_def line_end_def)
  moreover have "reported ?repo = [(''a'', 3)]" by (simp add: reported_def exported_values_def)
  ultimately show ?thesis using statsd_agent_to_server [of ?repo ?stod "(-)" "\<lambda>_. 0"] by auto
qed

end
