(* ===== verification/Stx_EventLoop.thy ===== *)
theory Stx_EventLoop
  imports Stx_Prelude
begin

text \<open>
  The event loop of \<open>thread/eventloop.cc\<close>, which runs the connections of the HTTP client and server. An \<open>fd_set\<close> is a
  set of descriptors, the vector of callbacks a function; a callback is a value of type \<open>'k\<close>, and what it does to
  the loop is the argument \<open>call\<close>. The closures that other threads put into the run queue are constructors. \<open>select\<close> is
  the environment: its answers are arguments. \<open>num_fds_\<close> is a \<open>size_t\<close>.
\<close>

section \<open>State and operations\<close>

datatype 'k queued = Task 'k | OnReadable 'k nat | OnWritable 'k nat | CancelFD nat

record 'k event_loop =
  el_read :: "nat set"
  el_write :: "nat set"
  el_error :: "nat set"
  el_max_fd :: nat
  el_running :: bool
  el_pipe :: nat
  el_runq :: "'k queued list"
  el_callbacks :: "nat \<Rightarrow> 'k option"
  el_num_fds :: u64

definition FD_SETSIZE :: nat where
  "FD_SETSIZE = 1024"

text \<open>The constructor with the read end of its pipe.\<close>

definition el_new :: "nat \<Rightarrow> 'k event_loop" where
  "el_new pipe_fd = \<lparr>el_read = {pipe_fd}, el_write = {}, el_error = {}, el_max_fd = max 1 pipe_fd, el_running = True,
     el_pipe = pipe_fd, el_runq = [], el_callbacks = (\<lambda>_. None), el_num_fds = 0\<rparr>"

definition appendToRunQ :: "'k queued \<Rightarrow> 'k event_loop \<Rightarrow> 'k event_loop" where
  "appendToRunQ t s = s\<lparr>el_runq := el_runq s @ [t]\<rparr>"

text \<open>
  \<open>own\<close> tells whether the caller is the thread of the loop. A descriptor equal to \<open>FD_SETSIZE\<close> passes the test, and
  \<open>FD_SET\<close> of it is undefined.
\<close>

definition runOnReadable :: "bool \<Rightarrow> 'k \<Rightarrow> nat \<Rightarrow> 'k event_loop \<Rightarrow> 'k event_loop result" where
  "runOnReadable own task fd s =
     (if \<not> own then Inr (appendToRunQ (OnReadable task fd) s)
      else if fd > FD_SETSIZE then Inl kIOError
      else if fd = FD_SETSIZE then Inl UndefinedBehaviour
      else Inr (s\<lparr>el_max_fd := max (el_max_fd s) fd, el_read := insert fd (el_read s), el_error := insert fd (el_error s),
             el_num_fds := el_num_fds s + 1, el_callbacks := (el_callbacks s)(fd := Some task)\<rparr>))"

definition runOnWritable :: "bool \<Rightarrow> 'k \<Rightarrow> nat \<Rightarrow> 'k event_loop \<Rightarrow> 'k event_loop result" where
  "runOnWritable own task fd s =
     (if \<not> own then Inr (appendToRunQ (OnWritable task fd) s)
      else if fd > FD_SETSIZE then Inl kIOError
      else if fd = FD_SETSIZE then Inl UndefinedBehaviour
      else Inr (s\<lparr>el_max_fd := max (el_max_fd s) fd, el_write := insert fd (el_write s), el_error := insert fd (el_error s),
             el_num_fds := el_num_fds s + 1, el_callbacks := (el_callbacks s)(fd := Some task)\<rparr>))"

text \<open>From another thread \<open>cancelFD\<close> queues itself and waits until that closure has run.\<close>

definition cancelFD_loop :: "bool \<Rightarrow> nat \<Rightarrow> 'k event_loop \<Rightarrow> 'k event_loop result" where
  "cancelFD_loop own fd s =
     (if \<not> own then Inr (appendToRunQ (CancelFD fd) s)
      else if fd \<ge> FD_SETSIZE then Inl UndefinedBehaviour
      else Inr (s\<lparr>el_num_fds := (if fd \<in> el_read s \<or> fd \<in> el_write s then el_num_fds s - 1 else el_num_fds s),
             el_read := el_read s - {fd}, el_write := el_write s - {fd}, el_error := el_error s - {fd},
             el_callbacks := (el_callbacks s)(fd := None)\<rparr>))"

definition loop_runAsync :: "'k \<Rightarrow> 'k event_loop \<Rightarrow> 'k event_loop" where
  "loop_runAsync task s = appendToRunQ (Task task) s"

type_synonym 'k caller = "'k \<Rightarrow> 'k event_loop \<Rightarrow> 'k event_loop result"

definition loop_run :: "'k caller \<Rightarrow> bool \<Rightarrow> 'k \<Rightarrow> 'k event_loop \<Rightarrow> 'k event_loop result" where
  "loop_run call own task s = (if own then call task s else Inr (appendToRunQ (Task task) s))"

fun run_queued :: "'k caller \<Rightarrow> 'k queued \<Rightarrow> 'k event_loop \<Rightarrow> 'k event_loop result" where
  "run_queued call (Task k) s = call k s"
| "run_queued call (OnReadable k fd) s = runOnReadable True k fd s"
| "run_queued call (OnWritable k fd) s = runOnWritable True k fd s"
| "run_queued call (CancelFD fd) s = cancelFD_loop True fd s"

fun run_all_queued :: "'k caller \<Rightarrow> 'k queued list \<Rightarrow> 'k event_loop \<Rightarrow> 'k event_loop result" where
  "run_all_queued call [] s = Inr s"
| "run_all_queued call (t # ts) s = bindE (run_queued call t s) (run_all_queued call ts)"

definition onRunQWakeup :: "'k caller \<Rightarrow> 'k event_loop \<Rightarrow> 'k event_loop result" where
  "onRunQWakeup call s = run_all_queued call (el_runq s) (s\<lparr>el_runq := []\<rparr>)"

section \<open>poll\<close>

definition call_fd :: "'k caller \<Rightarrow> nat \<Rightarrow> 'k event_loop \<Rightarrow> 'k event_loop result" where
  "call_fd call fd s = (case el_callbacks s fd of None \<Rightarrow> Inr s | Some k \<Rightarrow> call k s)"

definition poll_fd :: "'k caller \<Rightarrow> nat set \<Rightarrow> nat set \<Rightarrow> nat \<Rightarrow> 'k event_loop \<Rightarrow> 'k event_loop result" where
  "poll_fd call rd wr fd s =
     (if fd = el_pipe s then Inr s
      else if fd \<in> rd
      then call_fd call fd (s\<lparr>el_read := el_read s - {fd}, el_error := el_error s - {fd}, el_num_fds := el_num_fds s - 1\<rparr>)
      else if fd \<in> wr
      then call_fd call fd (s\<lparr>el_write := el_write s - {fd}, el_error := el_error s - {fd}, el_num_fds := el_num_fds s - 1\<rparr>)
      else Inr s)"

text \<open>
  The loop runs up to \<open>max_fd_\<close>, which only grows; the descriptors that \<open>select\<close> has set lie below its value before.
\<close>

fun poll_fds :: "'k caller \<Rightarrow> nat set \<Rightarrow> nat set \<Rightarrow> nat list \<Rightarrow> 'k event_loop \<Rightarrow> 'k event_loop result" where
  "poll_fds call rd wr [] s = Inr s"
| "poll_fds call rd wr (fd # fds) s = bindE (poll_fd call rd wr fd s) (poll_fds call rd wr fds)"

datatype select_answer = SelectNone | SelectInterrupted | SelectFailed | SelectReady "nat set" "nat set"

definition poll :: "'k caller \<Rightarrow> select_answer \<Rightarrow> 'k event_loop \<Rightarrow> 'k event_loop result" where
  "poll call sel s =
     (case sel of
        SelectNone \<Rightarrow> Inr s
      | SelectInterrupted \<Rightarrow> Inr s
      | SelectFailed \<Rightarrow> Inl kIOError
      | SelectReady rd wr \<Rightarrow>
          bindE (if el_pipe s \<in> rd then onRunQWakeup call s else Inr s) (\<lambda>s.
            poll_fds call rd wr [0 ..< Suc (el_max_fd s)] s))"



fun loop_forever :: "'k caller \<Rightarrow> select_answer list \<Rightarrow> 'k event_loop \<Rightarrow> (bool \<times> 'k event_loop) result" where
  "loop_forever call sels s =
     (if \<not> el_running s then Inr (True, s)
      else (case sels of [] \<Rightarrow> Inr (False, s) | sel # sels \<Rightarrow> bindE (poll call sel s) (loop_forever call sels)))"

declare loop_forever.simps [simp del]

definition loop_shutdown :: "'k event_loop \<Rightarrow> 'k event_loop" where
  "loop_shutdown s = s\<lparr>el_running := False\<rparr>"

section \<open>The counter of descriptors\<close>

definition watched :: "'k event_loop \<Rightarrow> nat set" where
  "watched s = (el_read s - {el_pipe s}) \<union> el_write s"

text \<open>
  Each descriptor is watched in one direction at most and counted once, and has a callback.
\<close>

definition loop_ok :: "'k event_loop \<Rightarrow> bool" where
  "loop_ok s \<longleftrightarrow> el_pipe s \<in> el_read s \<and> el_pipe s \<notin> el_write s \<and> el_read s \<inter> el_write s = {} \<and>
     watched s \<subseteq> {0 ..< FD_SETSIZE} \<and> el_num_fds s = word_of_nat (card (watched s)) \<and>
     (\<forall>fd \<in> watched s. el_callbacks s fd \<noteq> None)"

lemma loop_ok_new: "loop_ok (el_new p)"
  by (simp add: loop_ok_def el_new_def watched_def)

lemma watched_finite: "loop_ok s \<Longrightarrow> finite (watched s)"
  using finite_subset by (auto simp: loop_ok_def)


lemma loop_okI:
  assumes "el_pipe s \<in> el_read s" "el_pipe s \<notin> el_write s" "el_read s \<inter> el_write s = {}" "watched s \<subseteq> {0 ..< FD_SETSIZE}"
    "el_num_fds s = word_of_nat (card (watched s))" "\<And>fd. fd \<in> watched s \<Longrightarrow> el_callbacks s fd \<noteq> None"
  shows "loop_ok s"
  using assms by (simp add: loop_ok_def)

lemma loop_okD:
  assumes "loop_ok s"
  shows "el_pipe s \<in> el_read s" "el_pipe s \<notin> el_write s" "el_read s \<inter> el_write s = {}" "watched s \<subseteq> {0 ..< FD_SETSIZE}"
    "el_num_fds s = word_of_nat (card (watched s))" "\<And>fd. fd \<in> watched s \<Longrightarrow> el_callbacks s fd \<noteq> None"
  using assms by (simp_all add: loop_ok_def)

lemma card_insert_word: "finite A \<Longrightarrow> x \<notin> A \<Longrightarrow> word_of_nat (card (insert x A)) = (word_of_nat (card A) + 1 :: u64)"
  by simp

lemma card_remove_word:
  assumes "finite A" "x \<in> A"
  shows "word_of_nat (card (A - {x})) = (word_of_nat (card A) - 1 :: u64)"
  using card_insert_word [of "A - {x}" x] assms by (simp add: insert_absorb)

lemma register_ok:
  assumes "loop_ok s" "fd \<notin> watched s" "fd \<noteq> el_pipe s"
    "runOnReadable True k fd s = Inr s' \<or> runOnWritable True k fd s = Inr s'"
  shows "loop_ok s'" "watched s' = insert fd (watched s)" "el_pipe s' = el_pipe s"
proof -
  note ok = loop_okD [OF assms(1)]
  have fd: "fd < FD_SETSIZE" using assms(4) by (auto simp: runOnReadable_def runOnWritable_def split: if_splits)
  have nw: "fd \<notin> el_read s" "fd \<notin> el_write s" using assms(2,3) by (simp_all add: watched_def)
  have e: "(el_read s' = insert fd (el_read s) \<and> el_write s' = el_write s \<or> el_read s' = el_read s \<and> el_write s' = insert fd (el_write s))"
    "el_num_fds s' = el_num_fds s + 1" "el_callbacks s' = (el_callbacks s)(fd := Some k)"
    using assms(4) by (auto simp: runOnReadable_def runOnWritable_def split: if_splits)
  show p: "el_pipe s' = el_pipe s" using assms(4) by (auto simp: runOnReadable_def runOnWritable_def split: if_splits)
  show w: "watched s' = insert fd (watched s)" using e(1) p assms(3) by (auto simp: watched_def)
  show "loop_ok s'"
  proof (rule loop_okI)
    show "el_num_fds s' = word_of_nat (card (watched s'))"
      unfolding w e(2) ok(5) by (rule card_insert_word [OF watched_finite [OF assms(1)] assms(2), symmetric])
    show "watched s' \<subseteq> {0 ..< FD_SETSIZE}" using w ok(4) fd by simp
    show "el_callbacks s' x \<noteq> None" if "x \<in> watched s'" for x using that w ok(6) e(3) by auto
  qed (use e(1) ok(1-3) p nw assms(3) in auto)
qed

lemma remove_ok:
  assumes "loop_ok s" "fd \<in> watched s" "el_pipe s' = el_pipe s" "el_read s' = el_read s - {fd}" "el_write s' = el_write s - {fd}"
    "el_num_fds s' = el_num_fds s - 1" "\<And>x. x \<noteq> fd \<Longrightarrow> el_callbacks s' x = el_callbacks s x"
  shows "loop_ok s'" "watched s' = watched s - {fd}"
proof -
  note ok = loop_okD [OF assms(1)]
  have np: "fd \<noteq> el_pipe s" using assms(2) ok(2) by (auto simp: watched_def)
  show w: "watched s' = watched s - {fd}" using assms(3-5) by (auto simp: watched_def)
  show "loop_ok s'"
  proof (rule loop_okI)
    show "el_num_fds s' = word_of_nat (card (watched s'))"
      unfolding w assms(6) ok(5) by (rule card_remove_word [OF watched_finite [OF assms(1)] assms(2), symmetric])
    show "el_callbacks s' x \<noteq> None" if "x \<in> watched s'" for x using that w ok(6) assms(7) by auto
  qed (use ok(1-4) assms(3-5) w np in auto)
qed

text \<open>\<open>cancelFD\<close> from the thread of the loop, of any descriptor but the pipe.\<close>

lemma cancel_ok:
  assumes "loop_ok s" "fd \<noteq> el_pipe s" "cancelFD_loop True fd s = Inr s'"
  shows "loop_ok s'" "watched s' = watched s - {fd}" "el_pipe s' = el_pipe s"
proof -
  show "el_pipe s' = el_pipe s" using assms(3) by (auto simp: cancelFD_loop_def split: if_splits)
  have s': "el_pipe s' = el_pipe s" "el_read s' = el_read s - {fd}" "el_write s' = el_write s - {fd}"
    "el_num_fds s' = (if fd \<in> watched s then el_num_fds s - 1 else el_num_fds s)"
    "\<And>x. x \<noteq> fd \<Longrightarrow> el_callbacks s' x = el_callbacks s x"
    using assms(2,3) by (auto simp: cancelFD_loop_def watched_def split: if_splits)
  have "loop_ok s' \<and> watched s' = watched s - {fd}"
  proof (cases "fd \<in> watched s")
    case True
    then show ?thesis using remove_ok [OF assms(1) True s'(1-3) _ s'(5)] s'(4) by simp
  next
    case False
    then have nw: "fd \<notin> el_read s" "fd \<notin> el_write s" using assms(2) by (auto simp: watched_def)
    then have w: "watched s' = watched s" using s'(1-3) by (simp add: watched_def)
    have "loop_ok s'"
    proof (rule loop_okI)
      show "el_callbacks s' x \<noteq> None" if "x \<in> watched s'" for x
        using that w False s'(5) loop_okD(6) [OF assms(1)] by (metis (no_types))
    qed (use loop_okD(1-5) [OF assms(1)] s'(1-4) nw w False in auto)
    with w False show ?thesis by simp
  qed
  then show "loop_ok s'" "watched s' = watched s - {fd}" by simp_all
qed








text \<open>Descriptors that are not ready are skipped.\<close>

lemma poll_fds_skip: "\<forall>fd \<in> set fds. fd \<notin> rd \<and> fd \<notin> wr \<Longrightarrow> poll_fds call rd wr fds s = Inr s"
  by (induction fds) (simp_all add: poll_fd_def)

lemma fd_range_split: "a < b \<Longrightarrow> [0 ..< b] = [0 ..< a] @ a # [Suc a ..< b]"
  using upt_add_eq_append [of 0 a "b - a"] upt_conv_Cons [of a b] by simp

lemma poll_fds_append: "poll_fds call rd wr (as @ bs) s = bindE (poll_fds call rd wr as s) (poll_fds call rd wr bs)"
  by (induction as arbitrary: s) (simp_all add: bindE_assoc bindE_def split: sum.split)

lemma poll_one:
  assumes "fd < n" "fd \<in> rd \<union> wr" "(rd \<union> wr) \<inter> {0 ..< fd} = {}"
  shows "poll_fds call rd wr [0 ..< n] s = bindE (poll_fd call rd wr fd s) (poll_fds call rd wr [Suc fd ..< n])"
proof -
  have "poll_fds call rd wr [0 ..< fd] s = Inr s" using assms(3) by (intro poll_fds_skip) auto
  then show ?thesis by (simp add: fd_range_split [OF assms(1)] poll_fds_append)
qed

section \<open>Properties\<close>





text \<open>There is one callback per descriptor: when a descriptor is registered for reading and then for writing, the task
  that was to wait for the write runs when the descriptor becomes readable, and the one for reading is lost.\<close>

theorem second_callback_wins:
  assumes "loop_ok s" "fd \<noteq> el_pipe s" "runOnReadable True r fd s = Inr s1" "runOnWritable True w fd s1 = Inr s2"
  shows "poll call (SelectReady {fd} {}) s2 =
    call w (s2\<lparr>el_read := el_read s2 - {fd}, el_error := el_error s2 - {fd}, el_num_fds := el_num_fds s2 - 1\<rparr>)"
proof -
  have s2: "el_pipe s2 = el_pipe s" "el_callbacks s2 fd = Some w" "fd < Suc (el_max_fd s2)"
    using assms(3,4) by (auto simp: runOnReadable_def runOnWritable_def split: if_splits)
  have skip: "poll_fds call {fd} {} [Suc fd ..< n] s = Inr s" for n s by (rule poll_fds_skip) auto
  have "poll call (SelectReady {fd} {}) s2 = poll_fds call {fd} {} [0 ..< Suc (el_max_fd s2)] s2"
    using s2(1) assms(2) by (simp add: poll_def del: upt_Suc)
  also have "\<dots> = bindE (poll_fd call {fd} {} fd s2) Inr"
    using poll_one [OF s2(3), of "{fd}" "{}" call s2] skip by (simp add: bindE_def del: upt_Suc split: sum.split)
  finally show ?thesis using s2(1,2) assms(2) by (simp add: poll_fd_def call_fd_def bindE_def split: sum.split)
qed

theorem second_callback_wins_witness:
  "\<exists>s1 s2 s3. runOnReadable True 1 5 (el_new 3) = Inr s1 \<and> runOnWritable True 2 5 s1 = Inr s2 \<and>
     poll (\<lambda>k s. Inr (loop_runAsync k s)) (SelectReady {5} {}) s2 = Inr s3 \<and> el_runq s3 = [Task (2 :: nat)]"
proof -
  obtain s1 where s1: "runOnReadable True (1 :: nat) 5 (el_new 3) = Inr s1" by (simp add: runOnReadable_def FD_SETSIZE_def)
  obtain s2 where s2: "runOnWritable True 2 5 s1 = Inr s2" by (simp add: runOnWritable_def FD_SETSIZE_def)
  have "el_runq s2 = []"
    using s1 s2 by (auto simp: runOnReadable_def runOnWritable_def FD_SETSIZE_def el_new_def)
  then show ?thesis
    using second_callback_wins [OF loop_ok_new _ s1 s2, of "\<lambda>k s. Inr (loop_runAsync k s)"] s1 s2
    by (auto simp: el_new_def loop_runAsync_def appendToRunQ_def)
qed

text \<open>A callback that cancels a descriptor which is ready in the same turn makes the count wrong: the descriptor is
  counted down twice, the count wraps around, and \<open>runOnce\<close> goes on although nothing is watched.\<close>

theorem cancel_in_turn_miscounts:
  assumes "loop_ok s" "watched s = {a, b}" "a < b" "{a, b} \<subseteq> el_read s" "b \<le> el_max_fd s"
    "el_callbacks s a = Some k" "\<And>s. call k s = cancelFD_loop True b s"
  shows "\<exists>s'. poll call (SelectReady {a, b} {}) s = Inr s' \<and> watched s' = {} \<and> el_num_fds s' = - 1"
proof -
  note ok = loop_okD [OF assms(1)]
  have np: "a \<noteq> el_pipe s" "b \<noteq> el_pipe s" using assms(2) ok(2) by (auto simp: watched_def)
  have ab: "a < Suc (el_max_fd s)" "b < Suc (el_max_fd s)" "b < FD_SETSIZE" using assms(2,3,5) ok(4) by auto
  have num: "el_num_fds s = 2" using ok(5) assms(2,3) by simp
  let ?s1 = "s\<lparr>el_read := el_read s - {a} - {b}, el_write := el_write s - {b}, el_error := el_error s - {a} - {b}, el_num_fds := 0,
    el_callbacks := (el_callbacks s)(b := None)\<rparr>"
  let ?s2 = "?s1\<lparr>el_num_fds := - 1\<rparr>"
  have a: "poll_fd call {a, b} {} a s = Inr ?s1"
    using np(1) assms(3,4,6,7) ab(3) num by (simp add: poll_fd_def call_fd_def cancelFD_loop_def)
  have "poll_fd call {a, b} {} b ?s1 = Inr ?s2" using np(2) by (simp add: poll_fd_def call_fd_def)
  moreover have "poll_fds call {a, b} {} [Suc a ..< Suc (el_max_fd s)] ?s1 =
      bindE (poll_fd call {a, b} {} b ?s1) (poll_fds call {a, b} {} [Suc b ..< Suc (el_max_fd s)])"
  proof -
    have "[Suc a ..< Suc (el_max_fd s)] = [Suc a ..< b] @ b # [Suc b ..< Suc (el_max_fd s)]"
      using assms(3) ab(2) upt_add_eq_append [of "Suc a" b "Suc (el_max_fd s) - b"] upt_conv_Cons [of b "Suc (el_max_fd s)"] by simp
    moreover have "poll_fds call {a, b} {} [Suc a ..< b] ?s1 = Inr ?s1" by (rule poll_fds_skip) auto
    ultimately show ?thesis by (simp add: poll_fds_append del: upt_Suc)
  qed
  moreover have "poll_fds call {a, b} {} [Suc b ..< Suc (el_max_fd s)] ?s2 = Inr ?s2" using assms(3) by (intro poll_fds_skip) auto
  ultimately have "poll call (SelectReady {a, b} {}) s = Inr ?s2"
    using poll_one [OF ab(1), of "{a, b}" "{}" call s] a assms(3) np by (simp add: poll_def del: upt_Suc)
  moreover have "a \<notin> el_write s" using ok(3) assms(4) by auto
  then have "watched ?s2 = watched s - {a} - {b}" by (auto simp: watched_def)
  then have "watched ?s2 = {}" using assms(2) by auto
  ultimately show ?thesis by (intro exI [of _ ?s2]) simp
qed

theorem cancel_in_turn_miscounts_witness:
  "\<exists>s'. poll (\<lambda>k s. cancelFD_loop True k s) (SelectReady {4, 5} {})
      ((el_new 3)\<lparr>el_max_fd := 5, el_read := {3, 4, 5}, el_error := {4, 5}, el_num_fds := 2, el_callbacks := (\<lambda>_. Some 5)\<rparr>) = Inr s' \<and>
     watched s' = {} \<and> el_num_fds s' = - 1"
proof -
  let ?s = "(el_new 3)\<lparr>el_max_fd := 5, el_read := {3, 4, 5}, el_error := {4, 5}, el_num_fds := 2, el_callbacks := (\<lambda>_. Some 5)\<rparr>"
  have "{3 :: nat, 4, 5} - {3} = {4, 5}" by auto
  then have "loop_ok ?s" "watched ?s = {4, 5}" by (simp_all add: loop_ok_def watched_def el_new_def FD_SETSIZE_def)
  from cancel_in_turn_miscounts [OF this, where call = "\<lambda>k s. cancelFD_loop True k s" and k = 5]
  show ?thesis by (simp add: el_new_def)
qed

end
