(* ===== verification/Stx_Executor.thy ===== *)
theory Stx_Executor
  imports Stx_Prelude "HOL-Library.Multiset"
begin

text \<open>
  The thread pool of \<open>executor/ThreadPool.cc\<close>. A worker is a program counter between the accesses to what the threads
  share: the mutex with the queue behind it, the atomic counter \<open>activeTasks_\<close>, the flag \<open>active_\<close> and the condition
  variable. The counter and the flag are changed without the mutex, so that testing a condition and going to sleep are two
  steps of a thread that holds the mutex. One thread calls \<open>wait\<close>. An event is the step of one thread, a call of
  \<open>execute\<close> or \<open>stop\<close>, or a spurious wakeup; \<open>xp_submitted\<close>, \<open>xp_started\<close> and \<open>xp_finished\<close> record what has happened.
\<close>

section \<open>State\<close>

datatype worker_pc = WTop | WEnter | WSleep | WWait | WPopped nat | WRunning nat | WFinished | WNotify | WLeft

datatype caller_pc = CEnter | CSleep | CWait | CReturned

record exec_pool =
  xp_active :: bool
  xp_pending :: "nat list"
  xp_active_tasks :: nat
  xp_locked :: bool
  xp_workers :: "worker_pc list"
  xp_caller :: caller_pc
  xp_submitted :: "nat list"
  xp_started :: "nat list"
  xp_finished :: "nat list"

definition xp_new :: "nat \<Rightarrow> exec_pool result" where
  "xp_new n =
     (if n < 1 then Inl StdException
      else Inr \<lparr>xp_active = True, xp_pending = [], xp_active_tasks = 0, xp_locked = False, xp_workers = replicate n WTop,
             xp_caller = CEnter, xp_submitted = [], xp_started = [], xp_finished = []\<rparr>)"

text \<open>\<open>notify_all\<close>: all sleepers compete for the mutex again.\<close>

definition notify_all :: "exec_pool \<Rightarrow> exec_pool" where
  "notify_all s = s\<lparr>xp_workers := map (\<lambda>w. if w = WWait then WEnter else w) (xp_workers s),
     xp_caller := (if xp_caller s = CWait then CEnter else xp_caller s)\<rparr>"

text \<open>
  \<open>execute\<close> and \<open>stop\<close> notify after they have changed the state; the change and its notification are one step here. A
  thread that takes the task between the two would be woken once more for nothing.
\<close>

definition xp_execute :: "nat \<Rightarrow> exec_pool \<Rightarrow> exec_pool option" where
  "xp_execute t s =
     (if xp_locked s then None
      else Some (notify_all (s\<lparr>xp_pending := xp_pending s @ [t], xp_submitted := xp_submitted s @ [t]\<rparr>)))"

definition xp_stop :: "exec_pool \<Rightarrow> exec_pool" where
  "xp_stop s = notify_all (s\<lparr>xp_active := False\<rparr>)"

section \<open>The steps of the threads\<close>

definition set_pc :: "nat \<Rightarrow> worker_pc \<Rightarrow> exec_pool \<Rightarrow> exec_pool" where
  "set_pc i pc s = s\<lparr>xp_workers := (xp_workers s)[i := pc]\<rparr>"

text \<open>\<open>work\<close>: one step of the worker \<open>i\<close>; none when it is not there, asleep, has left, or the mutex is taken.\<close>

definition xp_work :: "nat \<Rightarrow> exec_pool \<Rightarrow> exec_pool option" where
  "xp_work i s =
     (if i \<ge> length (xp_workers s) then None
      else
        (case xp_workers s ! i of
           WTop \<Rightarrow> Some (set_pc i (if xp_active s then WEnter else WLeft) s)
         | WEnter \<Rightarrow>
             if xp_locked s then None
             else if xp_pending s = [] \<and> xp_active s then Some (set_pc i WSleep (s\<lparr>xp_locked := True\<rparr>))
             else if \<not> xp_active s then Some (set_pc i WLeft s)
             else Some (set_pc i (WPopped (hd (xp_pending s)))
                    (s\<lparr>xp_pending := tl (xp_pending s), xp_started := xp_started s @ [hd (xp_pending s)]\<rparr>))
         | WSleep \<Rightarrow> Some (set_pc i WWait (s\<lparr>xp_locked := False\<rparr>))
         | WWait \<Rightarrow> None
         | WPopped t \<Rightarrow> Some (set_pc i (WRunning t) (s\<lparr>xp_active_tasks := xp_active_tasks s + 1\<rparr>))
         | WRunning t \<Rightarrow> Some (set_pc i WFinished (s\<lparr>xp_finished := xp_finished s @ [t]\<rparr>))
         | WFinished \<Rightarrow> Some (set_pc i WNotify (s\<lparr>xp_active_tasks := xp_active_tasks s - 1\<rparr>))
         | WNotify \<Rightarrow> Some (set_pc i WTop (notify_all s))
         | WLeft \<Rightarrow> None))"

text \<open>\<open>wait\<close>.\<close>

definition xp_wait :: "exec_pool \<Rightarrow> exec_pool option" where
  "xp_wait s =
     (case xp_caller s of
        CEnter \<Rightarrow>
          if xp_locked s then None
          else if xp_pending s = [] \<and> xp_active_tasks s = 0 then Some (s\<lparr>xp_caller := CReturned\<rparr>)
          else Some (s\<lparr>xp_caller := CSleep, xp_locked := True\<rparr>)
      | CSleep \<Rightarrow> Some (s\<lparr>xp_caller := CWait, xp_locked := False\<rparr>)
      | CWait \<Rightarrow> None
      | CReturned \<Rightarrow> None)"

text \<open>\<open>runLoop\<close> goes on while one of the four counters is zero.\<close>

definition xp_loop_continues :: "nat \<Rightarrow> nat \<Rightarrow> nat \<Rightarrow> nat \<Rightarrow> bool" where
  "xp_loop_continues tasks timers readers writers \<longleftrightarrow> tasks = 0 \<or> timers = 0 \<or> readers = 0 \<or> writers = 0"

datatype pool_event = Work nat | CallerStep | Execute nat | Stop | SpuriousWorker nat | SpuriousCaller

fun xp_event :: "pool_event \<Rightarrow> exec_pool \<Rightarrow> exec_pool option" where
  "xp_event (Work i) s = xp_work i s"
| "xp_event CallerStep s = xp_wait s"
| "xp_event (Execute t) s = xp_execute t s"
| "xp_event Stop s = Some (xp_stop s)"
| "xp_event (SpuriousWorker i) s =
     (if i < length (xp_workers s) \<and> xp_workers s ! i = WWait then Some (set_pc i WEnter s) else None)"
| "xp_event SpuriousCaller s = (if xp_caller s = CWait then Some (s\<lparr>xp_caller := CEnter\<rparr>) else None)"

fun xp_events :: "pool_event list \<Rightarrow> exec_pool \<Rightarrow> exec_pool option" where
  "xp_events [] s = Some s"
| "xp_events (e # es) s = Option.bind (xp_event e s) (xp_events es)"

definition xp_reachable :: "nat \<Rightarrow> exec_pool \<Rightarrow> bool" where
  "xp_reachable n s \<longleftrightarrow> (\<exists>s0 es. xp_new n = Inr s0 \<and> xp_events es s0 = Some s)"

section \<open>The invariant\<close>

fun busy :: "worker_pc \<Rightarrow> bool" where
  "busy (WRunning t) = True"
| "busy WFinished = True"
| "busy w = False"

fun held :: "worker_pc \<Rightarrow> nat list" where
  "held (WPopped t) = [t]"
| "held (WRunning t) = [t]"
| "held w = []"

text \<open>
  Tasks are taken in the order of their submission, the counter counts the workers between its increment and its
  decrement, and every task taken is finished or in the hands of exactly one worker.
\<close>

definition pool_inv :: "exec_pool \<Rightarrow> bool" where
  "pool_inv s \<longleftrightarrow> xp_started s @ xp_pending s = xp_submitted s \<and>
     xp_active_tasks s = length (filter busy (xp_workers s)) \<and>
     mset (xp_started s) = mset (xp_finished s) + mset (concat (map held (xp_workers s)))"

lemma filter_update:
  "i < length ws \<Longrightarrow> length (filter P (ws[i := w])) + (if P (ws ! i) then 1 else 0) =
     length (filter P ws) + (if P w then 1 else 0)"
proof (induction ws arbitrary: i)
  case (Cons x ws)
  then show ?case by (cases i) auto
qed simp

lemma mset_concat_update:
  "i < length ws \<Longrightarrow> mset (concat (map f (ws[i := w]))) + mset (f (ws ! i)) = mset (concat (map f ws)) + mset (f w)"
proof (induction ws arbitrary: i)
  case (Cons x ws)
  then show ?case by (cases i) auto
qed simp

lemma pool_inv_set_pc:
  assumes "pool_inv s" "i < length (xp_workers s)" "xp_workers s' = xp_workers s"
    "xp_started s' @ xp_pending s' = xp_submitted s'"
    "xp_active_tasks s' + (if busy (xp_workers s ! i) then 1 else 0) = xp_active_tasks s + (if busy pc then 1 else 0)"
    "mset (xp_started s') + mset (xp_finished s) + mset (held (xp_workers s ! i)) =
      mset (xp_started s) + mset (xp_finished s') + mset (held pc)"
  shows "pool_inv (set_pc i pc s')"
proof -
  note u = filter_update [OF assms(2), of busy pc] mset_concat_update [OF assms(2), of held pc]
  have "xp_active_tasks s' = length (filter busy ((xp_workers s)[i := pc]))"
    using u(1) assms(1,5) by (simp add: pool_inv_def split: if_splits)
  moreover have "mset (xp_started s') = mset (xp_finished s') + mset (concat (map held ((xp_workers s)[i := pc])))"
  proof -
    have "mset (xp_started s') + mset (held (xp_workers s ! i)) =
        mset (xp_finished s') + (mset (concat (map held (xp_workers s))) + mset (held pc))"
      using assms(1,6) by (simp add: pool_inv_def ac_simps)
    then show ?thesis unfolding u(2) [symmetric] by (simp add: ac_simps)
  qed
  ultimately show ?thesis using assms(3,4) by (simp add: pool_inv_def set_pc_def)
qed

lemma pool_inv_notify: "pool_inv s \<Longrightarrow> pool_inv (notify_all s)"
proof -
  have "filter busy (map (\<lambda>w. if w = WWait then WEnter else w) ws) = filter busy ws" for ws by (induction ws) auto
  moreover have "map held (map (\<lambda>w. if w = WWait then WEnter else w) ws) = map held ws" for ws by (induction ws) auto
  ultimately show "pool_inv s \<Longrightarrow> pool_inv (notify_all s)" by (simp add: pool_inv_def notify_all_def del: map_map)
qed

lemma busy_counted: "i < length ws \<Longrightarrow> busy (ws ! i) \<Longrightarrow> 0 < length (filter busy ws)"
  using nth_mem by (fastforce simp: filter_empty_conv)

lemma pool_inv_work:
  assumes "pool_inv s" "xp_work i s = Some s'"
  shows "pool_inv s'"
proof -
  have i: "i < length (xp_workers s)" using assms(2) by (auto simp: xp_work_def split: if_splits)
  note inv = assms(1) [unfolded pool_inv_def]
  show ?thesis
  proof (cases "xp_workers s ! i")
    case WNotify
    have "set_pc i WTop (notify_all s) = notify_all (set_pc i WTop s)"
      using i by (simp add: set_pc_def notify_all_def map_update)
    then show ?thesis
      using assms(2) i WNotify pool_inv_notify [OF pool_inv_set_pc [OF assms(1) i refl, of WTop]] inv
      by (simp add: xp_work_def)
  next
    case WEnter
    then show ?thesis
      using assms(2) i inv
      by (auto simp: xp_work_def split: if_splits intro!: pool_inv_set_pc [OF assms(1) i])
  qed (use assms(2) i inv busy_counted [OF i] in \<open>auto simp: xp_work_def intro!: pool_inv_set_pc [OF assms(1) i]\<close>)
qed

lemma pool_inv_event:
  assumes "pool_inv s" "xp_event e s = Some s'"
  shows "pool_inv s'"
proof (cases e)
  case (Work i)
  then show ?thesis using pool_inv_work [OF assms(1)] assms(2) by simp
next
  case (Execute t)
  let ?s = "s\<lparr>xp_pending := xp_pending s @ [t], xp_submitted := xp_submitted s @ [t]\<rparr>"
  have "pool_inv ?s" using assms(1) by (simp add: pool_inv_def flip: append_assoc)
  from pool_inv_notify [OF this] show ?thesis using assms(2) Execute by (simp add: xp_execute_def split: if_splits)
next
  case Stop
  have "pool_inv (s\<lparr>xp_active := False\<rparr>)" using assms(1) by (simp add: pool_inv_def)
  from pool_inv_notify [OF this] show ?thesis using assms(2) Stop by (simp add: xp_stop_def)
next
  case (SpuriousWorker i)
  then have i: "i < length (xp_workers s)" "xp_workers s ! i = WWait" "s' = set_pc i WEnter s"
    using assms(2) by (auto split: if_splits)
  show ?thesis unfolding i(3)
    by (rule pool_inv_set_pc [OF assms(1) i(1)]) (use assms(1) i(2) in \<open>simp_all add: pool_inv_def\<close>)
next
  case CallerStep
  then show ?thesis using assms by (auto simp: xp_wait_def pool_inv_def split: caller_pc.splits if_splits)
next
  case SpuriousCaller
  then show ?thesis using assms by (auto simp: pool_inv_def split: if_splits)
qed

lemma pool_inv_events: "xp_events es s = Some s' \<Longrightarrow> pool_inv s \<Longrightarrow> pool_inv s'"
  by (induction es arbitrary: s) (auto simp: Option.bind_eq_Some_conv dest: pool_inv_event)

lemma pool_inv_new: "xp_new n = Inr s \<Longrightarrow> pool_inv s"
proof -
  have "filter busy (replicate n WTop) = []" "concat (map held (replicate n WTop)) = []" for n by (induction n) simp_all
  then show "xp_new n = Inr s \<Longrightarrow> pool_inv s" by (auto simp: xp_new_def pool_inv_def split: if_splits)
qed

lemma xp_work_asleep: "list_all (\<lambda>w. w = WWait) (xp_workers s) \<Longrightarrow> xp_work i s = None"
  by (simp add: xp_work_def list_all_length)

section \<open>Properties\<close>

text \<open>C28. Whatever the threads do and in whatever order: tasks are started in the order in which they were submitted, each
  task that was started is finished or held by one worker, and \<open>activeTasks_\<close> is the number of workers that have counted
  themselves in and not yet out.\<close>

theorem executor_runs_tasks_once:
  assumes "xp_reachable n s"
  shows "xp_started s @ xp_pending s = xp_submitted s \<and>
    mset (xp_started s) = mset (xp_finished s) + mset (concat (map held (xp_workers s))) \<and>
    xp_active_tasks s = length (filter busy (xp_workers s))"
proof -
  obtain s0 es where "xp_new n = Inr s0" "xp_events es s0 = Some s" using assms by (auto simp: xp_reachable_def)
  then have "pool_inv s" using pool_inv_events pool_inv_new by blast
  then show ?thesis by (simp add: pool_inv_def)
qed

theorem executor_runs_tasks_once_witness:
  "\<exists>s. xp_events [Execute 7, Execute 8, Work 0, Work 0] (projr (xp_new 1)) = Some s \<and> xp_started s @ xp_pending s = [7, 8]"
proof -
  let ?es = "[Execute 7, Execute 8, Work 0, Work 0]"
  have "case xp_events ?es (projr (xp_new 1)) of None \<Rightarrow> False | Some s \<Rightarrow> xp_submitted s = [7, 8]" by code_simp
  then obtain s where s: "xp_events ?es (projr (xp_new 1)) = Some s" "xp_submitted s = [7, 8]" by (auto split: option.splits)
  then have "xp_reachable 1 s" by (auto simp: xp_reachable_def xp_new_def intro!: exI [of _ ?es])
  from executor_runs_tasks_once [OF this] s show ?thesis by auto
qed

text \<open>\<open>wait\<close> may return too early: a worker takes a task out of the queue before it counts it, and in between \<open>wait\<close>
  sees an empty queue and no active task, although the submitted task has not run.\<close>

theorem wait_returns_early:
  "\<exists>s. xp_reachable 1 s \<and> xp_caller s = CReturned \<and> xp_submitted s = [t] \<and> xp_finished s = [] \<and> xp_workers s = [WPopped t]"
  unfolding xp_reachable_def
  by (intro exI [of _ "the (xp_events [Execute t, Work 0, Work 0, CallerStep] (projr (xp_new 1)))"] conjI
      exI [of _ "projr (xp_new 1)"] exI [of _ "[Execute t, Work 0, Work 0, CallerStep]"])
     (simp_all add: xp_new_def xp_execute_def notify_all_def xp_work_def set_pc_def xp_wait_def)

text \<open>C30. \<open>wait\<close> may also never return: the counter is decremented without the mutex, so that the notification can fall
  between the test of the condition and the sleep. All tasks are finished, the caller and the worker sleep, and nothing
  but a spurious wakeup, a new task or \<open>stop\<close> will ever happen.\<close>

theorem wait_hangs:
  "\<exists>s. xp_reachable 1 s \<and> xp_caller s = CWait \<and> xp_submitted s = [t] \<and> xp_finished s = [t] \<and> xp_active_tasks s = 0 \<and>
     xp_wait s = None \<and> (\<forall>i. xp_work i s = None)"
proof -
  let ?es = "[Execute t, Work 0, Work 0, Work 0, CallerStep, Work 0, Work 0, Work 0, CallerStep, Work 0, Work 0, Work 0]"
  let ?s = "\<lparr>xp_active = True, xp_pending = [], xp_active_tasks = 0, xp_locked = False, xp_workers = [WWait],
    xp_caller = CWait, xp_submitted = [t], xp_started = [t], xp_finished = [t]\<rparr>"
  have "xp_events ?es (projr (xp_new 1)) = Some ?s"
    by (simp add: xp_new_def xp_execute_def notify_all_def xp_work_def set_pc_def xp_wait_def)
  then have "xp_reachable 1 ?s" by (auto simp: xp_reachable_def xp_new_def intro!: exI [of _ ?es])
  then show ?thesis by (intro exI [of _ ?s]) (simp add: xp_wait_def xp_work_asleep)
qed

text \<open>Stopping may hang in the same way: \<open>stop\<close> clears the flag without the mutex, a worker that has just tested it goes
  to sleep, and the destructor joins a thread that never ends.\<close>

theorem executor_stop_hangs:
  "\<exists>s. xp_reachable 1 s \<and> \<not> xp_active s \<and> xp_workers s = [WWait] \<and> (\<forall>i. xp_work i s = None)"
proof -
  let ?es = "[Work 0, Work 0, Stop, Work 0]"
  let ?s = "\<lparr>xp_active = False, xp_pending = [], xp_active_tasks = 0, xp_locked = False, xp_workers = [WWait],
    xp_caller = CEnter, xp_submitted = [], xp_started = [], xp_finished = []\<rparr>"
  have "xp_events ?es (projr (xp_new 1)) = Some ?s"
    by (simp add: xp_new_def xp_stop_def notify_all_def xp_work_def set_pc_def)
  then have "xp_reachable 1 ?s" by (auto simp: xp_reachable_def xp_new_def intro!: exI [of _ ?es])
  then show ?thesis by (intro exI [of _ ?s]) (simp add: xp_work_asleep)
qed

end
