(* ===== verification/Stx_JSONRPC.thy ===== *)
theory Stx_JSONRPC
  imports Stx_JSONImpl Stx_JSONText Stx_HTTP
begin

text \<open>
  JSON RPC 2.0: the request and response of \<open>json/jsonrpcrequest.cc\<close>, \<open>json/jsonrpcrequest_impl.h\<close> and
  \<open>json/jsonrpcresponse.cc\<close>, the table of methods of \<open>json/jsonrpc.cc\<close> and \<open>json/jsonrpc_impl.h\<close>, the HTTP service of
  \<open>json/jsonrpchttpadapter.cc\<close> and the codec of the client, \<open>json/JSONRPCCodec_impl.h\<close>. The last part shows that a call
  through the codec, the service and the codec again gives the result of the method.
\<close>

section \<open>Requests\<close>

record jsonrpc_request =
  jr_body :: json_object
  jr_params :: nat
  jr_id :: string
  jr_method :: string

definition JSONRPCRequest :: "json_object \<Rightarrow> jsonrpc_request comp" where
  "JSONRPCRequest body =
     (let e = length body; text_at = (\<lambda>i. Some (fromJSON_string (drop i body)))
      in bindC (objectLookup body 0 e ''jsonrpc'') (\<lambda>v_iter.
         if v_iter = e then raise kRuntimeError
         else bindC (text_at v_iter) (\<lambda>v.
           if v \<noteq> ''2.0'' then raise kRuntimeError
           else bindC (objectLookup body 0 e ''id'') (\<lambda>id_iter.
             bindC (if id_iter \<noteq> e then text_at id_iter else ret []) (\<lambda>i.
               bindC (objectLookup body 0 e ''method'') (\<lambda>m_iter.
                 if m_iter = e then raise kRuntimeError
                 else bindC (text_at m_iter) (\<lambda>m.
                   bindC (objectLookup body 0 e ''params'') (\<lambda>params.
                     if params = e then raise kRuntimeError
                     else ret \<lparr>jr_body = body, jr_params = params, jr_id = i, jr_method = m\<rparr>))))))))"

text \<open>In an array every exception of the lookup becomes an index error.\<close>

definition getArg :: "(json_object \<Rightarrow> 'a comp) \<Rightarrow> nat \<Rightarrow> string \<Rightarrow> jsonrpc_request \<Rightarrow> 'a comp" where
  "getArg dec index name req =
     (let b = jr_params req; body = jr_body req; e = length body
      in case jt_type (body ! b) of
           JSON_OBJECT_BEGIN \<Rightarrow>
             bindC (objectLookup body b e name) (\<lambda>iter. if iter = e then raise kIndexError else dec (drop iter body))
         | JSON_ARRAY_BEGIN \<Rightarrow>
             (case arrayLookup body b e index of
                None \<Rightarrow> None
              | Some (Inl err) \<Rightarrow> raise (if err = UndefinedBehaviour then err else kIndexError)
              | Some (Inr iter) \<Rightarrow> dec (drop iter body))
         | _ \<Rightarrow> raise kParseError)"

text \<open>
  \<open>MethodCall::call\<close> with the arguments of a request, for a method whose arguments have a common type: they are fetched
  one after the other, each by its index and name.
\<close>

fun call_args :: "(json_object \<Rightarrow> 'a comp) \<Rightarrow> nat \<Rightarrow> string list \<Rightarrow> jsonrpc_request \<Rightarrow> 'a list comp" where
  "call_args dec i [] req = ret []"
| "call_args dec i (n # ns) req =
     bindC (getArg dec i n req) (\<lambda>x. bindC (call_args dec (i + 1) ns req) (\<lambda>xs. ret (x # xs)))"

definition method_call :: "(json_object \<Rightarrow> 'a comp) \<Rightarrow> string list \<Rightarrow> ('a list \<Rightarrow> 'b result) \<Rightarrow> jsonrpc_request \<Rightarrow> 'b comp" where
  "method_call dec names fn req = bindC (call_args dec 0 names req) (\<lambda>args. Some (fn args))"

section \<open>Responses\<close>

record jsonrpc_response =
  jp_id :: string
  jp_output :: "string json_os"

definition kJSONRPCPInvalidRequestError :: int where
  "kJSONRPCPInvalidRequestError = - 32600"

definition kJSONRPCPMethodNotFoundError :: int where
  "kJSONRPCPMethodNotFoundError = - 32601"

definition kJSONRPCPInternalError :: int where
  "kJSONRPCPInternalError = - 32603"

definition jp_new :: "string \<Rightarrow> jsonrpc_response" where
  "jp_new out = \<lparr>jp_id = [], jp_output = ([], out)\<rparr>"

definition setID :: "string \<Rightarrow> jsonrpc_response \<Rightarrow> jsonrpc_response" where
  "setID i r = r\<lparr>jp_id := i\<rparr>"

text \<open>The direct methods of the writer do not look at its stack.\<close>

definition jp_direct :: "(string \<Rightarrow> string comp) \<Rightarrow> jsonrpc_response \<Rightarrow> jsonrpc_response comp" where
  "jp_direct w r = bindC (w (snd (jp_output r))) (\<lambda>out. ret (r\<lparr>jp_output := (fst (jp_output r), out)\<rparr>))"

definition add_id :: "string \<Rightarrow> string \<Rightarrow> string comp" where
  "add_id i = (if length i > 0 then addString sos_write i else addNull sos_write)"

definition jp_error :: "int \<Rightarrow> string \<Rightarrow> jsonrpc_response \<Rightarrow> jsonrpc_response comp" where
  "jp_error c message r =
     jp_direct (seqW
       [beginObject sos_write,
        addObjectEntry sos_write ''jsonrpc'', addString sos_write ''2.0'', addComma sos_write,
        addObjectEntry sos_write ''error'', beginObject sos_write,
        addObjectEntry sos_write ''code'', addInteger sos_write (word_of_int c), addComma sos_write,
        addObjectEntry sos_write ''message'', addString sos_write message, endObject sos_write, addComma sos_write,
        addObjectEntry sos_write ''id'', add_id (jp_id r), endObject sos_write]) r"

definition success :: "(string json_os \<Rightarrow> string json_os comp) \<Rightarrow> jsonrpc_response \<Rightarrow> jsonrpc_response comp" where
  "success func r =
     bindC (jp_direct (seqW
       [beginObject sos_write,
        addObjectEntry sos_write ''jsonrpc'', addString sos_write ''2.0'', addComma sos_write,
        addObjectEntry sos_write ''id'', add_id (jp_id r), addComma sos_write,
        addObjectEntry sos_write ''result'']) r) (\<lambda>r.
       bindC (func (jp_output r)) (\<lambda>out. jp_direct (endObject sos_write) (r\<lparr>jp_output := out\<rparr>)))"

definition successAndReturn :: "tokens \<Rightarrow> jsonrpc_response \<Rightarrow> jsonrpc_response comp" where
  "successAndReturn ret_val = success (emplace_all sos_write ret_val)"

section \<open>Methods and the service\<close>

text \<open>
  A handler returns, or raises and leaves a response behind. Writing into the body of an HTTP response raises nothing, so
  an exception leaves the response as it was before the handler began to write.
\<close>

type_synonym rpc_handler = "jsonrpc_request \<Rightarrow> jsonrpc_response \<Rightarrow> (stx_error option \<times> jsonrpc_response) option"

definition attempt :: "jsonrpc_response comp \<Rightarrow> jsonrpc_response \<Rightarrow> (stx_error option \<times> jsonrpc_response) option" where
  "attempt c r =
     (case c of None \<Rightarrow> None | Some (Inl e) \<Rightarrow> Some (Some e, r) | Some (Inr r') \<Rightarrow> Some (None, r'))"

definition dispatch :: "(string \<rightharpoonup> rpc_handler) \<Rightarrow> rpc_handler" where
  "dispatch handlers req res =
     (case handlers (jr_method req) of
        None \<Rightarrow> attempt (jp_error kJSONRPCPMethodNotFoundError (''method not found: '' @ jr_method req) res) res
      | Some h \<Rightarrow> h req res)"

definition registerMethod :: "string \<Rightarrow> rpc_handler \<Rightarrow> (string \<rightharpoonup> rpc_handler) \<Rightarrow> (string \<rightharpoonup> rpc_handler)" where
  "registerMethod name h handlers = handlers(name \<mapsto> h)"

definition method_handler ::
  "(json_object \<Rightarrow> 'a comp) \<Rightarrow> ('b \<Rightarrow> tokens) \<Rightarrow> string list \<Rightarrow> ('a list \<Rightarrow> 'b result) \<Rightarrow> rpc_handler" where
  "method_handler dec enc names fn req res =
     attempt (bindC (method_call dec names fn req) (\<lambda>v. successAndReturn (enc v) res)) res"

definition adapter_new :: "string \<Rightarrow> string result" where
  "adapter_new p = stripTrailingSlashes p"

text \<open>The exceptions of libstx are caught and answered with their message, an argument here; others pass.\<close>

definition stx_exception :: "stx_error \<Rightarrow> bool" where
  "stx_exception e \<longleftrightarrow> e \<noteq> StdException \<and> e \<noteq> UndefinedBehaviour"

definition rpc_run :: "(string \<rightharpoonup> rpc_handler) \<Rightarrow> string \<Rightarrow> jsonrpc_response \<Rightarrow> (stx_error option \<times> jsonrpc_response) option" where
  "rpc_run handlers body res =
     (case bindC (parseJSON body) JSONRPCRequest of
        None \<Rightarrow> None
      | Some (Inl e) \<Rightarrow> Some (Some e, res)
      | Some (Inr req) \<Rightarrow> dispatch handlers req (setID (jr_id req) res))"

definition handleHTTPRequest ::
  "(stx_error \<Rightarrow> string) \<Rightarrow> (string \<rightharpoonup> rpc_handler) \<Rightarrow> string \<Rightarrow> http_request \<Rightarrow> http_response \<Rightarrow> http_response comp" where
  "handleHTTPRequest getMessage handlers p request response =
     (if \<not> beginsWith (req_url request) p then ret (addBody ''not found'' (setStatus 404 ''Not found'' response))
      else
        (let response = setStatus 200 ''OK'' response;
             res = jp_new (hm_body response);
             finish = (\<lambda>res. ret (response\<lparr>hm_body := snd (jp_output res)\<rparr>))
         in if req_method request \<noteq> M_POST
            then bindC (jp_error kJSONRPCPInvalidRequestError ''HTTP method must be POST'' res) finish
            else
              (case rpc_run handlers (hm_body request) res of
                 None \<Rightarrow> None
               | Some (None, res) \<Rightarrow> finish res
               | Some (Some e, res) \<Rightarrow>
                   if stx_exception e then bindC (jp_error kJSONRPCPInternalError (getMessage e) res) finish else raise e)))"

section \<open>The codec of the client\<close>

definition encodeRPCRequest :: "'o byte_writer \<Rightarrow> string \<Rightarrow> tokens list \<Rightarrow> 'o \<Rightarrow> 'o comp" where
  "encodeRPCRequest put method args buffer =
     bindC (emplace_all put
       ([(JSON_OBJECT_BEGIN, []),
         (JSON_STRING, ''jsonrpc''), (JSON_STRING, ''2.0''),
         (JSON_STRING, ''method''), (JSON_STRING, method),
         (JSON_STRING, ''id''), (JSON_STRING, ''0''),
         (JSON_STRING, ''params'')] @ toJSON_tuple args @ [(JSON_OBJECT_END, [])]) ([], buffer)) (\<lambda>(stack, buffer). ret buffer)"

text \<open>The exception \<open>kRPCError\<close> with its message is the first alternative of what the client receives.\<close>

datatype 'a rpc_result = RPCError string | RPCSuccess 'a

definition decodeRPCResponse :: "(json_object \<Rightarrow> 'a comp) \<Rightarrow> string \<Rightarrow> 'a rpc_result comp" where
  "decodeRPCResponse dec buffer =
     bindC (parseJSON buffer) (\<lambda>res.
       bindC (objectLookup res 0 (length res) ''error'') (\<lambda>err_iter.
         if err_iter \<noteq> length res
         then bindC (objectLookup res err_iter (length res) ''message'') (\<lambda>err_str_i.
           ret (RPCError (if err_str_i = length res then ''invalid JSONRPC response'' else jt_data (res ! err_str_i))))
         else bindC (objectLookup res 0 (length res) ''result'') (\<lambda>res_iter.
           bindC (dec (drop res_iter res)) (\<lambda>x. ret (RPCSuccess x)))))"

section \<open>The text of a response\<close>

lemma sos_emits: "sos.emits w s \<Longrightarrow> w out = ret (out @ s)"
proof -
  assume "sos.emits w s"
  then obtain out' where "w out = ret out'" "bytes_of out' = bytes_of (out @ s)" by (auto simp: sos.emits_def)
  then show ?thesis by (simp only: bytes_of_inject)
qed

lemma token_stream_direct:
  "token_stream ts txt0 \<Longrightarrow> list_all (\<lambda>(t, d). list_all json_safe_chr d) ts \<Longrightarrow> direct_stream us t \<Longrightarrow>
   direct_stream (map (\<lambda>(t, d). reread t d) ts @ us) (txt0 @ t)"
proof (induction rule: token_stream.induct)
  case (ts_Cons sep ts txt0 tok d)
  obtain tok' d' where r: "reread tok d = (tok', d')" by fastforce
  then have "reread tok' d' = (tok', d')" "token_text tok d = token_text tok' d'" "list_all json_safe_chr d'"
    using ts_Cons.prems(1) by (cases tok; auto)+
  with ts_Cons r have "direct_stream (map (\<lambda>(t, d). reread t d) ((tok, d) # ts) @ us) (token_text tok d @ txt0 @ t)"
    by (auto intro: ds_token)
  with ts_Cons.hyps(1) show ?case by (auto intro: ds_sep)
qed simp

lemma safe_raw: "json_safe v \<Longrightarrow> list_all (\<lambda>(t, d). list_all json_safe_chr d) (raw (flatten v))"
  by (induction v rule: flatten.induct) (auto simp: list_all_iff JSONToken_def)

text \<open>The text of the tokens of a value reads as the value with its numbers as strings, inside of any text.\<close>

lemma emplace_prints:
  assumes "json_safe v"
  shows "\<exists>stack' txt0. emplace_all sos_write (raw (flatten v)) (stack, out) = ret (stack', out @ txt0) \<and>
    prints (raw (flatten (quote_numbers v))) txt0"
proof -
  obtain stack' out' txt0 where w: "jos_write sos_write (flatten v) (stack, out) = ret (stack', out')"
    "token_stream (raw (flatten v)) txt0" "bytes_of out' = bytes_of (out @ txt0)"
    using sos.jos_write_ok [where ts = "flatten v" and stack = stack and out = out] by auto
  moreover have "prints (raw (flatten (quote_numbers v))) txt0"
    unfolding prints_def using token_stream_direct [OF w(2) safe_raw [OF assms]] by (simp add: reread_flatten del: map_map)
  moreover have "out' = out @ txt0" using w(3) by (simp only: bytes_of_inject)
  ultimately show ?thesis by (auto simp: emplace_all_raw)
qed

lemma parse_prints:
  assumes "prints (raw (flatten v)) s"
  shows "parseJSON s = ret (flatten v)"
proof -
  have "direct_stream (raw (flatten v) @ []) (s @ [])" using assms ds_Nil unfolding prints_def number_end_def by blast
  then show ?thesis
    using sis.parseJSON_stream_direct [of v "sis_new s"] by (simp add: parseJSON_def sis_new_def sis_rest_def sis_invar_def)
qed

definition entry_text :: "string \<Rightarrow> string \<Rightarrow> string" where
  "entry_text k s = [CHR 0x22] @ escapeString k @ [CHR 0x22] @ '': '' @ s"

lemma prints_object:
  assumes "list_all2 (\<lambda>kv s. list_all json_safe_chr (fst kv) \<and> prints (raw (flatten (snd kv))) s) kvs ss"
  shows "prints (raw (flatten (JObj kvs))) (''{'' @ str_join (map2 (\<lambda>kv s. entry_text (fst kv) s) kvs ss) '','' @ ''}'')"
proof -
  let ?f = "\<lambda>kv. JSONToken JSON_STRING (fst kv) # flatten (snd kv)"
  have "list_all2 (\<lambda>kv s. prints (raw (?f kv)) s) kvs (map2 (\<lambda>kv s. entry_text (fst kv) s) kvs ss)"
    using assms prints_entry by (auto simp: list_all2_conv_all_nth entry_text_def JSONToken_def)
  from prints_bracket [of "concat (map ?f kvs)", OF _ insertI1] prints_join [OF this]
  show ?thesis by (simp add: map_concat comp_def)
qed

definition id_json :: "string \<Rightarrow> jvalue" where
  "id_json i = (if i = [] then JNull else JStr i)"

definition error_json :: "int \<Rightarrow> string \<Rightarrow> string \<Rightarrow> jvalue" where
  "error_json c message i =
     JObj [(''jsonrpc'', JStr ''2.0''), (''error'', JObj [(''code'', JNum (to_string_int c)), (''message'', JStr message)]), (''id'', id_json i)]"

definition result_json :: "string \<Rightarrow> jvalue \<Rightarrow> jvalue" where
  "result_json i v = JObj [(''jsonrpc'', JStr ''2.0''), (''id'', id_json i), (''result'', v)]"

lemma id_json_ok: "list_all json_safe_chr i \<Longrightarrow> json_safe (id_json i) \<and> numbers_ok (id_json i)"
  by (simp add: id_json_def)

lemma emits_add_id: "sos.emits (add_id i) (direct_text (id_json i))"
  using sos.emits_addString by (auto simp: add_id_def id_json_def sos.emits_direct)

lemma emits_key: "k \<in> {''jsonrpc'', ''error'', ''code'', ''message'', ''id'', ''result''} \<Longrightarrow>
    sos.emits (addObjectEntry sos_write k) (entry_text k [])"
proof -
  assume "k \<in> {''jsonrpc'', ''error'', ''code'', ''message'', ''id'', ''result''}"
  then have "length (escapeString k) < 8188" by (elim insertE emptyE; simp; code_simp)
  then show ?thesis using sos.emits_addObjectEntry by (simp add: entry_text_def)
qed

lemmas emits_response = emits_add_id emits_key sos.emits_direct sos.emits_addString

lemma jp_error_text:
  assumes "- (2 ^ 63) \<le> c" "c < 2 ^ 63"
  shows "jp_error c message r = ret (r\<lparr>jp_output := (fst (jp_output r), snd (jp_output r) @ direct_text (error_json c message (jp_id r)))\<rparr>)"
proof -
  have c: "sint (word_of_int c :: u64) = c" using assms by (simp add: sint_sbintrunc' signed_take_bit_int_eq_self)
  have "sos.emits (seqW
       [beginObject sos_write,
        addObjectEntry sos_write ''jsonrpc'', addString sos_write ''2.0'', addComma sos_write,
        addObjectEntry sos_write ''error'', beginObject sos_write,
        addObjectEntry sos_write ''code'', addInteger sos_write (word_of_int c), addComma sos_write,
        addObjectEntry sos_write ''message'', addString sos_write message, endObject sos_write, addComma sos_write,
        addObjectEntry sos_write ''id'', add_id (jp_id r), endObject sos_write])
      (concat [''{'', entry_text ''jsonrpc'' [], [CHR 0x22] @ escapeString ''2.0'' @ [CHR 0x22], '','',
        entry_text ''error'' [], ''{'', entry_text ''code'' [], to_string_int (sint (word_of_int c :: u64)), '','',
        entry_text ''message'' [], [CHR 0x22] @ escapeString message @ [CHR 0x22], ''}'', '','',
        entry_text ''id'' [], direct_text (id_json (jp_id r)), ''}''])"
    by (intro sos.emits_seqW list_all2_Cons [THEN iffD2] conjI list.rel_intros emits_response) simp_all
  from sos_emits [OF this, of "snd (jp_output r)"] show ?thesis
    by (simp add: jp_error_def jp_direct_def error_json_def entry_text_def c del: seqW.simps)
qed

lemma success_text:
  assumes "json_safe v" "list_all json_safe_chr (jp_id r)"
  shows "\<exists>stack s. successAndReturn (raw (flatten v)) r = ret (r\<lparr>jp_output := (stack, snd (jp_output r) @ s)\<rparr>) \<and>
    prints (raw (flatten (result_json (jp_id r) (quote_numbers v)))) s"
proof -
  let ?out = "snd (jp_output r)" and ?i = "direct_text (id_json (jp_id r))" and ?v = "direct_text (JStr ''2.0'')"
  let ?head = "concat [''{'', entry_text ''jsonrpc'' [], [CHR 0x22] @ escapeString ''2.0'' @ [CHR 0x22], '','',
        entry_text ''id'' [], ?i, '','', entry_text ''result'' []]"
  have "sos.emits (seqW
       [beginObject sos_write,
        addObjectEntry sos_write ''jsonrpc'', addString sos_write ''2.0'', addComma sos_write,
        addObjectEntry sos_write ''id'', add_id (jp_id r), addComma sos_write,
        addObjectEntry sos_write ''result'']) ?head"
    by (intro sos.emits_seqW list_all2_Cons [THEN iffD2] conjI list.rel_intros emits_response) simp_all
  note head = sos_emits [OF this, of ?out]
  obtain stack txt0 where t: "emplace_all sos_write (raw (flatten v)) (fst (jp_output r), ?out @ ?head) = ret (stack, (?out @ ?head) @ txt0)"
    "prints (raw (flatten (quote_numbers v))) txt0" using emplace_prints [OF assms(1)] by blast
  have e: "endObject sos_write out = ret (out @ ''}'')" for out using sos_emits [OF sos.emits_direct(2)] .
  let ?s = "''{'' @ str_join (map2 (\<lambda>kv s. entry_text (fst kv) s) [(''jsonrpc'', JStr ''2.0''), (''id'', id_json (jp_id r)),
    (''result'', quote_numbers v)] [?v, ?i, txt0]) '','' @ ''}''"
  have "prints (raw (flatten (result_json (jp_id r) (quote_numbers v)))) ?s"
    unfolding result_json_def using t(2) id_json_ok [OF assms(2)]
    by (intro prints_object) (simp add: prints_direct_text [of "JStr ''2.0''"] prints_direct_text [of "id_json (jp_id r)"] json_safe_chr_def
      del: flatten.simps direct_text.simps)
  moreover have s: "?s = ?head @ txt0 @ ''}''" by (simp add: entry_text_def)
  have "successAndReturn (raw (flatten v)) r = ret (r\<lparr>jp_output := (stack, ?out @ ?s)\<rparr>)"
    unfolding successAndReturn_def success_def jp_direct_def head s
    using t(1) by (simp add: e del: seqW.simps)
  ultimately show ?thesis by blast
qed

section \<open>The request\<close>

definition call_json :: "string \<Rightarrow> jvalue list \<Rightarrow> jvalue" where
  "call_json m vs = JObj [(''jsonrpc'', JStr ''2.0''), (''method'', JStr m), (''id'', JStr ''0''), (''params'', JArr vs)]"

lemma encode_call:
  assumes "list_all json_safe_chr m" "list_all json_safe vs"
  shows "\<exists>str. encodeRPCRequest sos_write m (map (\<lambda>v. raw (flatten v)) vs) [] = ret str \<and>
    parseJSON str = ret (flatten (call_json m (map quote_numbers vs)))"
proof -
  have "json_safe (call_json m vs)" using assms by (auto simp: call_json_def json_safe_chr_def list_all_iff)
  moreover have "encodeRPCRequest sos_write m (map (\<lambda>v. raw (flatten v)) vs) [] = toJSONString (raw (flatten (call_json m vs)))"
    unfolding encodeRPCRequest_def toJSONString_def toJSON_tuple_raw by (simp add: call_json_def JSONToken_def)
  ultimately show ?thesis using written_tokens_parse [of "call_json m vs"] by (simp add: call_json_def)
qed

lemma lookup_member:
  assumes "map_of kvs k = Some v"
  shows "\<exists>i r. objectLookup (flatten (JObj kvs)) 0 (length (flatten (JObj kvs))) k = ret i \<and> i \<noteq> length (flatten (JObj kvs)) \<and>
    value_at (flatten (JObj kvs)) (length (flatten (JObj kvs))) i v \<and> drop i (flatten (JObj kvs)) = flatten v @ r"
proof -
  let ?o = "flatten (JObj kvs)"
  have "value_at ?o (length ?o) 0 (JObj kvs)" by (simp add: value_at_def)
  from objectLookup_at [OF this, of k] assms show ?thesis by (auto simp: value_at_def simp del: flatten.simps)
qed

lemma lookup_none:
  assumes "map_of kvs k = None"
  shows "objectLookup (flatten (JObj kvs)) 0 (length (flatten (JObj kvs))) k = ret (length (flatten (JObj kvs)))"
proof -
  let ?o = "flatten (JObj kvs)"
  have "value_at ?o (length ?o) 0 (JObj kvs)" by (simp add: value_at_def)
  from objectLookup_at [OF this, of k] assms show ?thesis by (auto simp del: flatten.simps)
qed

lemma fromJSON_string_flatten: "fromJSON_string (flatten (JStr d) @ r) = Inr d"
  by (simp add: fromJSON_string_def JSONToken_def)

lemma request_ok:
  assumes "map_of kvs ''jsonrpc'' = Some (JStr ''2.0'')" "map_of kvs ''id'' = Some (JStr i)"
    "map_of kvs ''method'' = Some (JStr m)" "map_of kvs ''params'' = Some p"
  shows "\<exists>b. JSONRPCRequest (flatten (JObj kvs)) = ret \<lparr>jr_body = flatten (JObj kvs), jr_params = b, jr_id = i, jr_method = m\<rparr> \<and>
    value_at (flatten (JObj kvs)) (length (flatten (JObj kvs))) b p"
  using assms [THEN lookup_member]
  by (auto simp: JSONRPCRequest_def fromJSON_string_flatten simp del: flatten.simps)

section \<open>Calls\<close>

lemma decode_result:
  assumes "parseJSON str = ret (flatten (result_json i v))" "\<And>r. dec (flatten v @ r) = ret x"
  shows "decodeRPCResponse dec str = ret (RPCSuccess x)"
proof -
  let ?kvs = "[(''jsonrpc'', JStr ''2.0''), (''id'', id_json i), (''result'', v)]"
  have "map_of ?kvs ''error'' = None" "map_of ?kvs ''result'' = Some v" by simp_all
  from lookup_none [OF this(1)] lookup_member [OF this(2)] show ?thesis
    using assms by (auto simp: decodeRPCResponse_def result_json_def simp del: flatten.simps)
qed

lemma decode_error:
  assumes "parseJSON str = ret (flatten (error_json c message i))"
  shows "decodeRPCResponse dec str = ret (RPCError message)"
proof -
  let ?err = "[(''code'', JNum (to_string_int c)), (''message'', JStr message)]"
  let ?kvs = "[(''jsonrpc'', JStr ''2.0''), (''error'', JObj ?err), (''id'', id_json i)]"
  let ?o = "flatten (JObj ?kvs)"
  have "map_of ?kvs ''error'' = Some (JObj ?err)" by simp
  then obtain b where b: "objectLookup ?o 0 (length ?o) ''error'' = ret b" "b \<noteq> length ?o" "value_at ?o (length ?o) b (JObj ?err)"
    using lookup_member by blast
  have "map_of ?err ''message'' = Some (JStr message)" by simp
  with objectLookup_at [OF b(3), of "''message''"] obtain j where j: "objectLookup ?o b (length ?o) ''message'' = ret j" "j \<noteq> length ?o"
    "value_at ?o (length ?o) j (JStr message)" by auto
  then have "?o ! j = JSONToken JSON_STRING message" using value_at_scalar(1) by blast
  with b(1,2) j(1,2) assms show ?thesis
    by (simp add: decodeRPCResponse_def error_json_def JSONToken_def del: flatten.simps)
qed

lemma parse_error:
  assumes "list_all json_safe_chr message" "list_all json_safe_chr i"
  shows "parseJSON (direct_text (error_json c message i)) = ret (flatten (error_json c message i))"
proof (rule parse_direct_text)
  have "list_all json_safe_chr (to_string_int c)" using to_string_safe by (simp add: to_string_int_def json_safe_chr_def)
  then show "json_safe (error_json c message i)"
    using assms id_json_ok by (simp add: error_json_def json_safe_chr_def)
  show "numbers_ok (error_json c message i)" using assms(2) id_json_ok by (simp add: error_json_def)
qed

lemma codes_in_range:
  "- (2 ^ 63) \<le> kJSONRPCPInternalError" "kJSONRPCPInternalError < 2 ^ 63"
  "- (2 ^ 63) \<le> kJSONRPCPMethodNotFoundError" "kJSONRPCPMethodNotFoundError < 2 ^ 63"
  "- (2 ^ 63) \<le> kJSONRPCPInvalidRequestError" "kJSONRPCPInvalidRequestError < 2 ^ 63"
  by (simp_all add: kJSONRPCPInternalError_def kJSONRPCPMethodNotFoundError_def kJSONRPCPInvalidRequestError_def)

lemmas jp_error_texts = jp_error_text [OF codes_in_range(1,2)] jp_error_text [OF codes_in_range(3,4)] jp_error_text [OF codes_in_range(5,6)]

context json_codec
begin

lemma getArg_ok:
  assumes "value_at (jr_body req) (length (jr_body req)) (jr_params req) (JArr (map (\<lambda>x. quote_numbers (tree x)) xs))"
    "n < length xs" "ok (xs ! n)"
  shows "getArg dec n name req = ret (xs ! n)"
proof -
  let ?o = "jr_body req" and ?vs = "map (\<lambda>x. quote_numbers (tree x)) xs"
  have ty: "jt_type (?o ! jr_params req) = JSON_ARRAY_BEGIN"
    using value_at_hd [OF assms(1)] by (simp add: bracket_def sized_def)
  obtain i where "arrayLookup ?o (jr_params req) (length ?o) n = ret i" "value_at ?o (length ?o) i (?vs ! n)"
    using arrayLookup_at [OF assms(1), of n] assms(2) by auto
  then show ?thesis using ty dec_tree [OF assms(3)] assms(2) by (auto simp: getArg_def value_at_def)
qed

lemma call_args_ok:
  assumes "value_at (jr_body req) (length (jr_body req)) (jr_params req) (JArr (map (\<lambda>x. quote_numbers (tree x)) xs))"
    "list_all ok xs" "i + length names = length xs"
  shows "call_args dec i names req = ret (drop i xs)"
  using assms(3)
proof (induction names arbitrary: i)
  case (Cons n names)
  then have "i < length xs" by simp
  moreover have "getArg dec i n req = ret (xs ! i)" using getArg_ok [OF assms(1)] assms(2) calculation by (simp add: list_all_length)
  ultimately show ?case using Cons.IH [of "i + 1"] Cons.prems by (simp add: Cons_nth_drop_Suc)
qed simp

end

text \<open>A method whose arguments and result have codecs.\<close>

locale rpc_method = arg: json_codec enc dec tree ok + res: json_codec enc' dec' tree' ok'
  for enc :: "'a \<Rightarrow> tokens" and dec tree ok and enc' :: "'b \<Rightarrow> tokens" and dec' tree' ok'
begin

lemma run_call:
  assumes "list_all ok xs" "handlers m = Some (method_handler dec enc' names fn)" "length names = length xs"
    "parseJSON str = ret (flatten (call_json m (map (\<lambda>x. quote_numbers (tree x)) xs)))" "jp_id res = []"
    "\<And>y. fn xs = Inr y \<Longrightarrow> ok' y"
  shows "case fn xs of
      Inl e \<Rightarrow> rpc_run handlers str res = Some (Some e, setID ''0'' res)
    | Inr y \<Rightarrow> \<exists>stack s. rpc_run handlers str res = Some (None, (setID ''0'' res)\<lparr>jp_output := (stack, snd (jp_output res) @ s)\<rparr>) \<and>
        parseJSON s = ret (flatten (result_json ''0'' (quote_numbers (tree' y))))"
proof -
  let ?vs = "map (\<lambda>x. quote_numbers (tree x)) xs"
  let ?kvs = "[(''jsonrpc'', JStr ''2.0''), (''method'', JStr m), (''id'', JStr ''0''), (''params'', JArr ?vs)]"
  have "map_of ?kvs ''jsonrpc'' = Some (JStr ''2.0'')" "map_of ?kvs ''id'' = Some (JStr ''0'')"
    "map_of ?kvs ''method'' = Some (JStr m)" "map_of ?kvs ''params'' = Some (JArr ?vs)" by simp_all
  from request_ok [OF this] obtain b where b: "JSONRPCRequest (flatten (call_json m ?vs)) =
      ret \<lparr>jr_body = flatten (JObj ?kvs), jr_params = b, jr_id = ''0'', jr_method = m\<rparr>"
    "value_at (flatten (JObj ?kvs)) (length (flatten (JObj ?kvs))) b (JArr ?vs)"
    by (auto simp: call_json_def simp del: flatten.simps)
  let ?req = "\<lparr>jr_body = flatten (JObj ?kvs), jr_params = b, jr_id = ''0'', jr_method = m\<rparr>"
  have "call_args dec 0 names ?req = ret (drop 0 xs)"
    by (rule arg.call_args_ok) (use assms(1,3) b(2) in \<open>simp_all del: flatten.simps\<close>)
  then have run: "rpc_run handlers str res =
      attempt (bindC (Some (fn xs)) (\<lambda>v. successAndReturn (enc' v) (setID ''0'' res))) (setID ''0'' res)"
    using assms(2,4) b(1)
    by (simp add: rpc_run_def dispatch_def method_handler_def method_call_def del: flatten.simps)
  show ?thesis
  proof (cases "fn xs")
    case (Inl e)
    then show ?thesis by (simp add: run attempt_def)
  next
    case (Inr y)
    have "list_all json_safe_chr (jp_id (setID ''0'' res))" by (simp add: setID_def json_safe_chr_def)
    from success_text [OF res.safe_tree [OF assms(6) [OF Inr]] this] obtain stack s where
      "successAndReturn (enc' y) (setID ''0'' res) = ret ((setID ''0'' res)\<lparr>jp_output := (stack, snd (jp_output res) @ s)\<rparr>)"
      "prints (raw (flatten (result_json ''0'' (quote_numbers (tree' y))))) s"
      by (auto simp: res.enc_tree setID_def)
    then show ?thesis using Inr parse_prints by (auto simp: run attempt_def)
  qed
qed

lemma call_answered:
  assumes "list_all ok xs" "list_all json_safe_chr m" "handlers m = Some (method_handler dec enc' names fn)" "length names = length xs"
    "beginsWith (req_url req) p" "req_method req = M_POST" "hm_body rsp = []"
    "case fn xs of Inl e \<Rightarrow> stx_exception e \<and> list_all json_safe_chr (getMessage e) | Inr y \<Rightarrow> ok' y"
  shows "\<exists>str rsp'. encodeRPCRequest sos_write m (map enc xs) [] = ret str \<and>
    handleHTTPRequest getMessage handlers p (addBody str req) rsp = ret rsp' \<and> res_code rsp' = 200 \<and>
    decodeRPCResponse dec' (hm_body rsp') = ret (case fn xs of Inl e \<Rightarrow> RPCError (getMessage e) | Inr y \<Rightarrow> RPCSuccess y)"
proof -
  have "list_all json_safe (map tree xs)" using assms(1) arg.safe_tree by (auto simp: list_all_iff)
  from encode_call [OF assms(2) this] obtain str where str: "encodeRPCRequest sos_write m (map enc xs) [] = ret str"
    "parseJSON str = ret (flatten (call_json m (map (\<lambda>x. quote_numbers (tree x)) xs)))"
    by (auto simp: arg.enc_tree [abs_def] comp_def)
  note run = run_call [of xs handlers m names fn str "jp_new []", OF assms(1,3,4) str(2)]
  show ?thesis
  proof (cases "fn xs")
    case (Inl e)
    let ?text = "direct_text (error_json kJSONRPCPInternalError (getMessage e) ''0'')"
    have "rpc_run handlers str (jp_new []) = Some (Some e, setID ''0'' (jp_new []))" using run Inl by (simp add: jp_new_def)
    then have "handleHTTPRequest getMessage handlers p (addBody str req) rsp = ret ((setStatus 200 ''OK'' rsp)\<lparr>hm_body := ?text\<rparr>)"
      using assms(5-8) Inl
      by (simp add: handleHTTPRequest_def addBody_def setStatus_def jp_error_texts setID_def jp_new_def del: direct_text.simps)
    moreover have "parseJSON ?text = ret (flatten (error_json kJSONRPCPInternalError (getMessage e) ''0''))"
      using assms(8) Inl by (intro parse_error) (auto simp: json_safe_chr_def)
    ultimately show ?thesis using str(1) decode_error Inl by (auto simp: setStatus_def simp del: direct_text.simps)
  next
    case (Inr y)
    with assms(8) run obtain stack s where s:
      "rpc_run handlers str (jp_new []) = Some (None, (setID ''0'' (jp_new []))\<lparr>jp_output := (stack, s)\<rparr>)"
      "parseJSON s = ret (flatten (result_json ''0'' (quote_numbers (tree' y))))" by (auto simp: jp_new_def)
    from s(1) have "handleHTTPRequest getMessage handlers p (addBody str req) rsp = ret ((setStatus 200 ''OK'' rsp)\<lparr>hm_body := s\<rparr>)"
      using assms(5-7) by (simp add: handleHTTPRequest_def addBody_def setStatus_def)
    moreover have "decodeRPCResponse dec' s = ret (RPCSuccess y)"
      by (rule decode_result [OF s(2)], rule res.dec_tree) (use assms(8) Inr in simp)
    ultimately show ?thesis using str(1) Inr by (auto simp: setStatus_def)
  qed
qed

end

interpretation string_method: rpc_method toJSON_string "lift_dec fromJSON_string" JStr "list_all json_safe_chr"
  "toJSON_vector toJSON_string" "fromJSON_vector (lift_dec fromJSON_string)" "\<lambda>xs. JArr (map JStr xs)" "list_all (list_all json_safe_chr)"
  by unfold_locales

section \<open>Properties\<close>

text \<open>C5. A remote call gives what the method gives. The client encodes the name of a method and its arguments, the HTTP
  service finds the method by its name, fetches the arguments and writes the result, and the client decodes the response
  to exactly the result of the method on the arguments; when the method raises an exception of libstx the client receives
  its message as an RPC error. The call is a POST to the path of the service; arguments are strings and results vectors of
  strings, of characters that the JSON reader does not drop (\<open>json_safe_chr\<close>), as are the name of the method and the message.\<close>

theorem jsonrpc_call_correct:
  assumes "list_all (list_all json_safe_chr) xs" "list_all json_safe_chr m" "length names = length xs"
    and "beginsWith (req_url req) p" "req_method req = M_POST" "hm_body rsp = []"
    and "case fn xs of Inl e \<Rightarrow> stx_exception e \<and> list_all json_safe_chr (getMessage e) | Inr y \<Rightarrow> list_all (list_all json_safe_chr) y"
  shows "\<exists>str rsp'. encodeRPCRequest sos_write m (map toJSON_string xs) [] = ret str \<and>
    handleHTTPRequest getMessage
      (registerMethod m (method_handler (lift_dec fromJSON_string) (toJSON_vector toJSON_string) names fn) handlers)
      p (addBody str req) rsp = ret rsp' \<and> res_code rsp' = 200 \<and>
    decodeRPCResponse (fromJSON_vector (lift_dec fromJSON_string)) (hm_body rsp') =
      ret (case fn xs of Inl e \<Rightarrow> RPCError (getMessage e) | Inr y \<Rightarrow> RPCSuccess y)"
  by (rule string_method.call_answered [where names = names and xs = xs and m = m and fn = fn]) (use assms in \<open>simp_all add: registerMethod_def\<close>)

theorem jsonrpc_call_correct_witness:
  "\<exists>str rsp'. encodeRPCRequest sos_write ''swap'' (map toJSON_string [''a'', ''b'']) [] = ret str \<and>
    handleHTTPRequest (\<lambda>_. [])
      (registerMethod ''swap'' (method_handler (lift_dec fromJSON_string) (toJSON_vector toJSON_string) [''x'', ''y''] (\<lambda>xs. Inr (rev xs))) (\<lambda>_. None))
      ''/rpc'' (addBody str (req_new M_POST ''/rpc'')) res_new = ret rsp' \<and> res_code rsp' = 200 \<and>
    decodeRPCResponse (fromJSON_vector (lift_dec fromJSON_string)) (hm_body rsp') = ret (RPCSuccess [''b'', ''a''])"
  using jsonrpc_call_correct [where xs = "[''a'', ''b'']" and m = "''swap''" and names = "[''x'', ''y'']" and p = "''/rpc''"
      and req = "req_new M_POST ''/rpc''" and rsp = res_new and fn = "\<lambda>xs. Inr (rev xs)" and getMessage = "\<lambda>_. []" and handlers = "\<lambda>_. None"]
  by (simp add: json_safe_chr_def req_new_def res_new_def beginsWith_def)

text \<open>A POST request that is no JSON RPC request (its body does not parse, or has no version, method or parameters)
  is answered with status 200 and one error object with the code of an internal error, whatever is wrong with it, the
  message of the exception and no id; so is a request with another method than POST, with the code of an invalid request.\<close>

theorem jsonrpc_bad_request:
  assumes "bindC (parseJSON (hm_body req)) JSONRPCRequest = raise e" "stx_exception e" "list_all json_safe_chr (getMessage e)"
    and "beginsWith (req_url req) p" "hm_body rsp = []"
  shows "\<exists>rsp'. handleHTTPRequest getMessage handlers p req rsp = ret rsp' \<and> res_code rsp' = 200 \<and>
    parseJSON (hm_body rsp') = ret (flatten (if req_method req = M_POST then error_json (- 32603) (getMessage e) []
      else error_json (- 32600) ''HTTP method must be POST'' []))"
proof (cases "req_method req = M_POST")
  case True
  let ?text = "direct_text (error_json kJSONRPCPInternalError (getMessage e) [])"
  have "rpc_run handlers (hm_body req) (jp_new []) = Some (Some e, jp_new [])" using assms(1) by (simp add: rpc_run_def)
  then have "handleHTTPRequest getMessage handlers p req rsp = ret ((setStatus 200 ''OK'' rsp)\<lparr>hm_body := ?text\<rparr>)"
    using assms(2,4,5) True by (simp add: handleHTTPRequest_def setStatus_def jp_error_texts jp_new_def del: direct_text.simps)
  then show ?thesis using parse_error [OF assms(3), of "[]" kJSONRPCPInternalError] True
    by (simp add: setStatus_def kJSONRPCPInternalError_def del: direct_text.simps)
next
  case False
  let ?text = "direct_text (error_json kJSONRPCPInvalidRequestError ''HTTP method must be POST'' [])"
  have "list_all json_safe_chr ''HTTP method must be POST''" by (simp add: json_safe_chr_def)
  from parse_error [OF this, of "[]" kJSONRPCPInvalidRequestError]
  have "parseJSON ?text = ret (flatten (error_json kJSONRPCPInvalidRequestError ''HTTP method must be POST'' []))" by simp
  moreover have "handleHTTPRequest getMessage handlers p req rsp = ret ((setStatus 200 ''OK'' rsp)\<lparr>hm_body := ?text\<rparr>)"
    using assms(4,5) False by (simp add: handleHTTPRequest_def setStatus_def jp_error_texts jp_new_def del: direct_text.simps)
  ultimately show ?thesis using False by (simp add: setStatus_def kJSONRPCPInvalidRequestError_def del: direct_text.simps)
qed

theorem jsonrpc_bad_request_witness:
  "\<exists>rsp'. handleHTTPRequest (\<lambda>_. ''bad'') (\<lambda>_. None) ''/rpc'' (addBody ''[]'' (req_new M_POST ''/rpc'')) res_new = ret rsp' \<and> res_code rsp' = 200 \<and>
    parseJSON (hm_body rsp') = ret (flatten (error_json (- 32603) ''bad'' []))"
proof -
  have "parseJSON ''[]'' = ret (flatten (JArr []))" using parse_direct_text [of "JArr []"] by simp
  then have "bindC (parseJSON (hm_body (addBody ''[]'' (req_new M_POST ''/rpc'')))) JSONRPCRequest = raise kParseError"
    by (simp add: addBody_def JSONRPCRequest_def objectLookup_def bracket_def sized_def)
  from jsonrpc_bad_request [OF this, of "\<lambda>_. ''bad''" "''/rpc''" res_new "\<lambda>_. None"] show ?thesis
    by (simp add: stx_exception_def json_safe_chr_def addBody_def req_new_def res_new_def beginsWith_def)
qed

text \<open>A call of a method that is not registered is answered with the code for an unknown method and the id of the
  call, and the client that decodes the answer receives an RPC error that names the method.\<close>

theorem jsonrpc_unknown_method:
  assumes "list_all json_safe_chr m" "list_all json_safe vs" "handlers m = None"
    and "beginsWith (req_url req) p" "req_method req = M_POST" "hm_body rsp = []"
  shows "\<exists>str rsp'. encodeRPCRequest sos_write m (map (\<lambda>v. raw (flatten v)) vs) [] = ret str \<and>
    handleHTTPRequest getMessage handlers p (addBody str req) rsp = ret rsp' \<and>
    parseJSON (hm_body rsp') = ret (flatten (error_json (- 32601) (''method not found: '' @ m) ''0'')) \<and>
    decodeRPCResponse dec (hm_body rsp') = ret (RPCError (''method not found: '' @ m))"
proof -
  obtain str where str: "encodeRPCRequest sos_write m (map (\<lambda>v. raw (flatten v)) vs) [] = ret str"
    "parseJSON str = ret (flatten (call_json m (map quote_numbers vs)))" using encode_call [OF assms(1,2)] by blast
  let ?kvs = "[(''jsonrpc'', JStr ''2.0''), (''method'', JStr m), (''id'', JStr ''0''), (''params'', JArr (map quote_numbers vs))]"
  have "map_of ?kvs ''jsonrpc'' = Some (JStr ''2.0'')" "map_of ?kvs ''id'' = Some (JStr ''0'')"
    "map_of ?kvs ''method'' = Some (JStr m)" "map_of ?kvs ''params'' = Some (JArr (map quote_numbers vs))" by simp_all
  from request_ok [OF this] obtain b where b: "JSONRPCRequest (flatten (call_json m (map quote_numbers vs))) =
      ret \<lparr>jr_body = flatten (JObj ?kvs), jr_params = b, jr_id = ''0'', jr_method = m\<rparr>"
    by (auto simp: call_json_def simp del: flatten.simps)
  let ?text = "direct_text (error_json kJSONRPCPMethodNotFoundError (''method not found: '' @ m) ''0'')"
  have "rpc_run handlers str (jp_new []) = Some (None, (setID ''0'' (jp_new []))\<lparr>jp_output := ([], ?text)\<rparr>)"
    using str(2) b assms(3)
    by (simp add: rpc_run_def dispatch_def attempt_def jp_error_texts setID_def jp_new_def del: flatten.simps direct_text.simps)
  then have h: "handleHTTPRequest getMessage handlers p (addBody str req) rsp = ret ((setStatus 200 ''OK'' rsp)\<lparr>hm_body := ?text\<rparr>)"
    using assms(4-6) by (simp add: handleHTTPRequest_def addBody_def setStatus_def del: direct_text.simps)
  have p: "parseJSON ?text = ret (flatten (error_json kJSONRPCPMethodNotFoundError (''method not found: '' @ m) ''0''))"
    by (rule parse_error) (use assms(1) in \<open>simp_all add: json_safe_chr_def\<close>)
  show ?thesis using str(1) h p decode_error [OF p, of dec]
    by (auto simp: kJSONRPCPMethodNotFoundError_def simp del: direct_text.simps)
qed

theorem jsonrpc_unknown_method_witness:
  "\<exists>str rsp'. encodeRPCRequest sos_write ''f'' [toJSON_bool True] [] = ret str \<and>
    handleHTTPRequest (\<lambda>_. []) (\<lambda>_. None) ''/rpc'' (addBody str (req_new M_POST ''/rpc'')) res_new = ret rsp' \<and>
    decodeRPCResponse (lift_dec fromJSON_string) (hm_body rsp') = ret (RPCError ''method not found: f'')"
  using jsonrpc_unknown_method [of "''f''" "[JTrue]" "\<lambda>_. None" "req_new M_POST ''/rpc''" "''/rpc''" res_new "\<lambda>_. []" "lift_dec fromJSON_string"]
  by (auto simp: toJSON_bool_def JSONToken_def json_safe_chr_def req_new_def res_new_def beginsWith_def)

end
