(* ===== verification/Stx_DirectExecutor.thy ===== *)
theory Stx_DirectExecutor
  imports Stx_Prelude "HOL-Library.Multiset"
begin

text \<open>
  The executor that runs tasks on the caller's stack, \<open>executor/DirectExecutor.cc\<close>. A task is a label and the tasks it
  passes to \<open>execute\<close> while it runs; an exception it throws is caught by \<open>safeCall\<close> (\<open>executor/SafeCall.cc\<close>) and only means
  that it passes fewer of them. The calls in progress are a list of frames, so that a nested call of \<open>execute\<close> is a frame in
  front of the others. The result is compared with the two orders in which a tree of tasks can be run.
\<close>

section \<open>The executor\<close>

datatype task = Task (task_label: nat) (subtasks: "task list")

record direct_executor =
  dx_recursive :: bool
  dx_running :: int
  dx_deferred :: "task list"
  dx_log :: "nat list"

definition dx_new :: "bool \<Rightarrow> direct_executor" where
  "dx_new recursive = \<lparr>dx_recursive = recursive, dx_running = 0, dx_deferred = [], dx_log = []\<rparr>"

definition isRunning :: "direct_executor \<Rightarrow> bool" where
  "isRunning s \<longleftrightarrow> dx_running s > 0"

datatype frame = Execute task | SafeCall task | DeferredLoop | PopFront

partial_function (option) run_frames :: "frame list \<Rightarrow> direct_executor \<Rightarrow> direct_executor option" where
  "run_frames fs s =
     (case fs of
        [] \<Rightarrow> Some s
      | Execute t # fs \<Rightarrow>
          if isRunning s \<and> \<not> dx_recursive s then run_frames fs (s\<lparr>dx_deferred := dx_deferred s @ [t]\<rparr>)
          else run_frames (SafeCall t # DeferredLoop # fs) (s\<lparr>dx_running := dx_running s + 1\<rparr>)
      | SafeCall t # fs \<Rightarrow> run_frames (map Execute (subtasks t) @ fs) (s\<lparr>dx_log := dx_log s @ [task_label t]\<rparr>)
      | DeferredLoop # fs \<Rightarrow>
          if dx_deferred s = [] then run_frames fs (s\<lparr>dx_running := dx_running s - 1\<rparr>)
          else run_frames (SafeCall (hd (dx_deferred s)) # PopFront # DeferredLoop # fs) s
      | PopFront # fs \<Rightarrow> run_frames fs (s\<lparr>dx_deferred := tl (dx_deferred s)\<rparr>))"

declare run_frames.simps [code]

definition dx_execute :: "task \<Rightarrow> direct_executor \<Rightarrow> direct_executor option" where
  "dx_execute t s = run_frames [Execute t] s"

section \<open>The orders\<close>

fun depth_first :: "task \<Rightarrow> nat list" where
  "depth_first (Task n ts) = n # concat (map depth_first ts)"

lemma size_subtasks: "size_list size (concat (map subtasks ts)) + length ts \<le> size_list size ts" for ts :: "task list"
proof (induction ts)
  case (Cons t ts)
  then show ?case by (cases t) simp
qed simp

function breadth_first :: "task list \<Rightarrow> nat list" where
  "breadth_first [] = []"
| "breadth_first (t # ts) = map task_label (t # ts) @ breadth_first (concat (map subtasks (t # ts)))"
  by pat_completeness auto
termination
proof (relation "measure (size_list size)")
  fix t :: task and ts
  show "(concat (map subtasks (t # ts)), t # ts) \<in> measure (size_list size)"
    using size_subtasks [of "t # ts"] by simp
qed simp

text \<open>The order of a queue to which a task appends its subtasks.\<close>

function queue_order :: "task list \<Rightarrow> nat list" where
  "queue_order [] = []"
| "queue_order (t # q) = task_label t # queue_order (q @ subtasks t)"
  by pat_completeness auto
termination
proof (relation "measure (size_list size)")
  fix t :: task and q
  show "(q @ subtasks t, t # q) \<in> measure (size_list size)" using size_subtasks [of "[t]"] by simp
qed simp

lemma queue_order_append: "queue_order (xs @ ys) = map task_label xs @ queue_order (ys @ concat (map subtasks xs))"
  by (induction xs arbitrary: ys) simp_all

lemma queue_order_eq: "queue_order ts = breadth_first ts"
proof (induction ts rule: breadth_first.induct)
  case (2 t ts)
  then show ?case using queue_order_append [of "t # ts" "[]"] by (simp only: append_Nil2 append_Nil breadth_first.simps)
qed simp

lemma breadth_first_mset: "mset (breadth_first ts) = mset (concat (map depth_first ts))"
proof (induction ts rule: breadth_first.induct)
  case (2 t ts)
  have "mset (concat (map depth_first ts)) = mset (map task_label ts) + mset (concat (map depth_first (concat (map subtasks ts))))"
    for ts
  proof (induction ts)
    case (Cons t ts)
    then show ?case by (cases t) simp
  qed simp
  from this [of "t # ts"] 2 show ?case by (simp only: breadth_first.simps mset_append)
qed simp

section \<open>What execute does\<close>

lemma run_deferred:
  assumes "dx_running s = 1" "\<not> dx_recursive s"
  shows "run_frames (map Execute ts @ fs) s = run_frames fs (s\<lparr>dx_deferred := dx_deferred s @ ts\<rparr>)"
  using assms
proof (induction ts arbitrary: s)
  case (Cons t ts)
  then show ?case by (subst run_frames.simps) (simp add: isRunning_def)
qed simp

lemma run_loop:
  "dx_running s = 1 \<Longrightarrow> \<not> dx_recursive s \<Longrightarrow> dx_deferred s = q \<Longrightarrow>
   run_frames (DeferredLoop # fs) s = run_frames fs (s\<lparr>dx_running := 0, dx_deferred := [], dx_log := dx_log s @ queue_order q\<rparr>)"
proof (induction q arbitrary: s rule: queue_order.induct)
  case 1
  then show ?case by (subst run_frames.simps) (cases s, simp)
next
  case (2 t q)
  let ?s = "s\<lparr>dx_deferred := q @ subtasks t, dx_log := dx_log s @ [task_label t]\<rparr>"
  have "run_frames (DeferredLoop # fs) s = run_frames (map Execute (subtasks t) @ PopFront # DeferredLoop # fs) (s\<lparr>dx_log := dx_log s @ [task_label t]\<rparr>)"
    using 2 by (subst run_frames.simps, simp, subst run_frames.simps, simp)
  also have "\<dots> = run_frames (PopFront # DeferredLoop # fs) (s\<lparr>dx_log := dx_log s @ [task_label t], dx_deferred := dx_deferred s @ subtasks t\<rparr>)"
    using 2 by (subst run_deferred) simp_all
  also have "\<dots> = run_frames (DeferredLoop # fs) ?s" using 2 by (subst run_frames.simps) simp
  finally show ?case using 2 by simp
qed

lemma run_recursive:
  "dx_recursive s \<Longrightarrow> dx_deferred s = [] \<Longrightarrow>
   run_frames (Execute t # fs) s = run_frames fs (s\<lparr>dx_log := dx_log s @ depth_first t\<rparr>)"
proof (induction t arbitrary: s fs)
  case (Task n ts)
  have sub: "run_frames (map Execute us @ fs) s = run_frames fs (s\<lparr>dx_log := dx_log s @ concat (map depth_first us)\<rparr>)"
    if "set us \<subseteq> set ts" "dx_recursive s" "dx_deferred s = []" for us fs s
    using that
  proof (induction us arbitrary: s)
    case (Cons u us)
    then show ?case using Task.IH [of u s "map Execute us @ fs"] by simp
  qed simp
  let ?s = "s\<lparr>dx_running := dx_running s + 1, dx_log := dx_log s @ [n]\<rparr>"
  have "run_frames (Execute (Task n ts) # fs) s = run_frames (map Execute ts @ DeferredLoop # fs) ?s"
    using Task.prems by (subst run_frames.simps, simp, subst run_frames.simps, simp)
  also have "\<dots> = run_frames (DeferredLoop # fs) (?s\<lparr>dx_log := dx_log ?s @ concat (map depth_first ts)\<rparr>)"
    by (rule sub) (use Task.prems in simp_all)
  also have "\<dots> = run_frames fs (s\<lparr>dx_log := dx_log s @ depth_first (Task n ts)\<rparr>)"
    using Task.prems by (subst run_frames.simps) simp
  finally show ?case .
qed

text \<open>\<open>execute\<close> on an idle executor returns, leaves it idle with nothing deferred, and has run the task and everything
  that was submitted on the way, each once: level by level when recursion is off, each task before the next one of its
  submitter when it is on.\<close>

theorem direct_executor_order:
  assumes "dx_running s = 0" "dx_deferred s = []"
  shows "dx_execute t s = Some (s\<lparr>dx_log := dx_log s @ (if dx_recursive s then depth_first t else breadth_first [t])\<rparr>) \<and>
    mset (breadth_first [t]) = mset (depth_first t)"
proof -
  have "dx_execute t s = Some (s\<lparr>dx_log := dx_log s @ breadth_first [t]\<rparr>)" if r: "\<not> dx_recursive s"
  proof -
    let ?s = "s\<lparr>dx_running := 1, dx_log := dx_log s @ [task_label t]\<rparr>"
    have "dx_execute t s = run_frames (map Execute (subtasks t) @ [DeferredLoop]) ?s"
      unfolding dx_execute_def using assms r by (subst run_frames.simps, simp add: isRunning_def, subst run_frames.simps, simp)
    also have "\<dots> = run_frames [DeferredLoop] (?s\<lparr>dx_deferred := subtasks t\<rparr>)" using assms r by (simp add: run_deferred)
    also have "\<dots> = run_frames [] (s\<lparr>dx_log := dx_log s @ queue_order [t]\<rparr>)"
      using assms r by (subst run_loop [OF _ _ refl]) (simp_all, cases s, simp)
    finally show ?thesis by (subst (asm) run_frames.simps) (simp add: queue_order_eq del: queue_order.simps breadth_first.simps)
  qed
  moreover have "dx_execute t s = Some (s\<lparr>dx_log := dx_log s @ depth_first t\<rparr>)" if "dx_recursive s"
    unfolding dx_execute_def run_recursive [OF that assms(2)] by (subst run_frames.simps) simp
  ultimately show ?thesis using breadth_first_mset [of "[t]"] by simp
qed

theorem direct_executor_order_witness:
  "dx_execute (Task 1 [Task 2 [Task 3 []], Task 4 []]) (dx_new False) = Some ((dx_new False)\<lparr>dx_log := [1, 2, 4, 3]\<rparr>) \<and>
   dx_execute (Task 1 [Task 2 [Task 3 []], Task 4 []]) (dx_new True) = Some ((dx_new True)\<lparr>dx_log := [1, 2, 3, 4]\<rparr>)"
  using direct_executor_order [of "dx_new False" "Task 1 [Task 2 [Task 3 []], Task 4 []]"]
    direct_executor_order [of "dx_new True" "Task 1 [Task 2 [Task 3 []], Task 4 []]"]
  by (simp add: dx_new_def)

end
