(* ===== verification/Stx_RPCRequest.thy ===== *)
theory Stx_RPCRequest
  imports Stx_Prelude
begin

text \<open>
  The state machine of a remote call, \<open>rpc/RPCRequest.cc\<close>. One thread calls \<open>run\<close>, one \<open>cancel\<close> and any number of threads
  call \<open>onReady\<close>, each with a callback of its own. A thread is a program counter between its accesses to shared state: the
  sections under the mutex are one step, the test of a callback, its call and its reset are steps of their own, because
  they are outside of the mutex. \<open>rq_called\<close> records the callbacks in the order of their calls.
\<close>

section \<open>State\<close>

datatype run_pc = RunEnter | RunCall | SuccessEnter | ErrorEnter stx_error string
  | ReadyTest | ReadyCall | Reset | RunDone | RunRaised stx_error

datatype cancel_pc = CancelEnter | CancelTest | CancelCall | CancelReadyTest | CancelReadyCall | CancelReset
  | CancelDone | CancelRaised stx_error

datatype rpc_callback = OnReady nat | OnCancel

record rpc_request =
  rq_ready :: bool
  rq_running :: bool
  rq_error :: "(stx_error option \<times> string) option"
  rq_on_ready :: "nat option"
  rq_on_cancel :: bool
  rq_run :: run_pc
  rq_cancel :: cancel_pc
  rq_called :: "rpc_callback list"

text \<open>A new request, with or without a callback for its cancellation.\<close>

definition rq_new :: "bool \<Rightarrow> rpc_request" where
  "rq_new oc = \<lparr>rq_ready = False, rq_running = False, rq_error = None, rq_on_ready = None, rq_on_cancel = oc,
     rq_run = RunEnter, rq_cancel = CancelEnter, rq_called = []\<rparr>"

section \<open>Steps\<close>

text \<open>
  \<open>run\<close> with \<open>returnSuccess\<close> and \<open>returnError\<close>; the answer of \<open>call_fn_\<close> is an argument, an
  exception by the kind and message that \<open>returnError\<close> takes from it. Calling an empty function raises.
\<close>

definition run_step :: "(stx_error \<times> string) option \<Rightarrow> rpc_request \<Rightarrow> rpc_request option" where
  "run_step answer s =
     (case rq_run s of
        RunEnter \<Rightarrow>
          if rq_ready s \<or> rq_running s then Some (s\<lparr>rq_run := RunRaised kRuntimeError\<rparr>)
          else Some (s\<lparr>rq_running := True, rq_run := RunCall\<rparr>)
      | RunCall \<Rightarrow> Some (s\<lparr>rq_run := (case answer of None \<Rightarrow> SuccessEnter | Some (e, m) \<Rightarrow> ErrorEnter e m)\<rparr>)
      | SuccessEnter \<Rightarrow> Some (s\<lparr>rq_ready := True, rq_run := ReadyTest\<rparr>)
      | ErrorEnter e m \<Rightarrow>
          if rq_ready s then Some (s\<lparr>rq_run := RunRaised kRuntimeError\<rparr>)
          else Some (s\<lparr>rq_error := Some (Some e, m), rq_ready := True, rq_run := ReadyTest\<rparr>)
      | ReadyTest \<Rightarrow> Some (s\<lparr>rq_run := (if rq_on_ready s = None then Reset else ReadyCall)\<rparr>)
      | ReadyCall \<Rightarrow>
          (case rq_on_ready s of
             None \<Rightarrow> Some (s\<lparr>rq_run := RunRaised StdException\<rparr>)
           | Some k \<Rightarrow> Some (s\<lparr>rq_called := rq_called s @ [OnReady k], rq_run := Reset\<rparr>))
      | Reset \<Rightarrow> Some (s\<lparr>rq_on_ready := None, rq_on_cancel := False, rq_run := RunDone\<rparr>)
      | _ \<Rightarrow> None)"

definition cancel_step :: "rpc_request \<Rightarrow> rpc_request option" where
  "cancel_step s =
     (case rq_cancel s of
        CancelEnter \<Rightarrow>
          if rq_ready s then Some (s\<lparr>rq_cancel := CancelDone\<rparr>)
          else Some (s\<lparr>rq_error := Some (None, ''RPCRequest cancelled''), rq_ready := True, rq_cancel := CancelTest\<rparr>)
      | CancelTest \<Rightarrow> Some (s\<lparr>rq_cancel := (if rq_on_cancel s then CancelCall else CancelReadyTest)\<rparr>)
      | CancelCall \<Rightarrow>
          if rq_on_cancel s then Some (s\<lparr>rq_called := rq_called s @ [OnCancel], rq_cancel := CancelReadyTest\<rparr>)
          else Some (s\<lparr>rq_cancel := CancelRaised StdException\<rparr>)
      | CancelReadyTest \<Rightarrow> Some (s\<lparr>rq_cancel := (if rq_on_ready s = None then CancelReset else CancelReadyCall)\<rparr>)
      | CancelReadyCall \<Rightarrow>
          (case rq_on_ready s of
             None \<Rightarrow> Some (s\<lparr>rq_cancel := CancelRaised StdException\<rparr>)
           | Some k \<Rightarrow> Some (s\<lparr>rq_called := rq_called s @ [OnReady k], rq_cancel := CancelReset\<rparr>))
      | CancelReset \<Rightarrow> Some (s\<lparr>rq_on_ready := None, rq_on_cancel := False, rq_cancel := CancelDone\<rparr>)
      | _ \<Rightarrow> None)"

definition rq_onReady :: "nat \<Rightarrow> rpc_request \<Rightarrow> rpc_request" where
  "rq_onReady k s = (if rq_ready s then s\<lparr>rq_called := rq_called s @ [OnReady k]\<rparr> else s\<lparr>rq_on_ready := Some k\<rparr>)"

text \<open>\<open>wait\<close> and the answer of \<open>waitFor\<close>.\<close>

definition rq_wait :: "rpc_request \<Rightarrow> bool" where
  "rq_wait s \<longleftrightarrow> rq_ready s"

datatype rpc_event = Run "(stx_error \<times> string) option" | Cancel | Register nat

fun rpc_action :: "rpc_event \<Rightarrow> rpc_request \<Rightarrow> rpc_request option" where
  "rpc_action (Run answer) s = run_step answer s"
| "rpc_action Cancel s = cancel_step s"
| "rpc_action (Register k) s = Some (rq_onReady k s)"

fun rpc_actions :: "rpc_event list \<Rightarrow> rpc_request \<Rightarrow> rpc_request option" where
  "rpc_actions [] s = Some s"
| "rpc_actions (a # as) s = Option.bind (rpc_action a s) (rpc_actions as)"

text \<open>Without \<open>cancel\<close>, and each callback registered once.\<close>

inductive uncancelled :: "nat set \<Rightarrow> rpc_request \<Rightarrow> bool" where
  start: "uncancelled {} (rq_new oc)"
| run: "uncancelled K s \<Longrightarrow> run_step answer s = Some s' \<Longrightarrow> uncancelled K s'"
| on_ready: "uncancelled K s \<Longrightarrow> k \<notin> K \<Longrightarrow> uncancelled (insert k K) (rq_onReady k s)"

section \<open>Without cancellation\<close>

text \<open>
  Before the request is ready nothing is called; the callback registered last is called by the thread that makes the
  request ready; callbacks that come later are called at once.
\<close>

definition before_ready :: "run_pc \<Rightarrow> bool" where
  "before_ready pc \<longleftrightarrow> (case pc of RunEnter \<Rightarrow> True | RunCall \<Rightarrow> True | SuccessEnter \<Rightarrow> True | ErrorEnter e m \<Rightarrow> True | _ \<Rightarrow> False)"

definition rpc_inv :: "nat set \<Rightarrow> rpc_request \<Rightarrow> bool" where
  "rpc_inv K s \<longleftrightarrow>
     (rq_ready s \<longleftrightarrow> \<not> before_ready (rq_run s)) \<and>
     (rq_running s \<longleftrightarrow> rq_run s \<noteq> RunEnter) \<and>
     (\<forall>e. rq_run s \<noteq> RunRaised e) \<and>
     (rq_run s = ReadyCall \<longrightarrow> rq_on_ready s \<noteq> None) \<and>
     (rq_run s = RunDone \<longrightarrow> rq_on_ready s = None) \<and>
     (\<not> rq_ready s \<longrightarrow> rq_called s = []) \<and>
     distinct (rq_called s) \<and> set (rq_called s) \<subseteq> OnReady ` K \<and>
     (\<forall>k. rq_on_ready s = Some k \<longrightarrow> k \<in> K \<and> (OnReady k \<in> set (rq_called s) \<longleftrightarrow> rq_run s = Reset))"

lemma uncancelled_inv: "uncancelled K s \<Longrightarrow> rpc_inv K s"
proof (induction rule: uncancelled.induct)
  case (start oc)
  show ?case by (simp add: rpc_inv_def rq_new_def before_ready_def)
next
  case (run K s answer s')
  then show ?case
    by (cases "rq_run s") (auto simp: rpc_inv_def run_step_def before_ready_def split: if_splits option.splits)
next
  case (on_ready K s k)
  then show ?case by (cases "rq_run s") (auto simp: rpc_inv_def rq_onReady_def before_ready_def)
qed

fun registered :: "rpc_event list \<Rightarrow> nat list" where
  "registered [] = []"
| "registered (Register k # as) = k # registered as"
| "registered (a # as) = registered as"

lemma uncancelled_actions:
  "uncancelled K s \<Longrightarrow> rpc_actions as s = Some s' \<Longrightarrow> Cancel \<notin> set as \<Longrightarrow> distinct (registered as) \<Longrightarrow>
   K \<inter> set (registered as) = {} \<Longrightarrow> uncancelled (K \<union> set (registered as)) s'"
proof (induction as arbitrary: K s)
  case (Cons a as)
  show ?case
  proof (cases a)
    case (Run answer)
    then show ?thesis using Cons by (auto simp: bind_eq_Some_conv intro: uncancelled.run)
  next
    case (Register k)
    then have "uncancelled (insert k K) (rq_onReady k s)" using Cons.prems by (auto intro: uncancelled.on_ready)
    from Cons.IH [OF this] Cons.prems Register show ?thesis by simp
  qed (use Cons.prems in simp)
qed simp

text \<open>A request that is not cancelled is run to its end without an exception whatever callbacks are registered
  meanwhile: no callback is called before the request is ready, none is called twice, and once \<open>run\<close> has returned the
  one that was registered last before the request was ready has been called.\<close>

theorem rpc_callbacks_once:
  assumes "uncancelled K s"
  shows "distinct (rq_called s) \<and> set (rq_called s) \<subseteq> OnReady ` K \<and> (rq_called s \<noteq> [] \<longrightarrow> rq_ready s) \<and>
    (\<forall>e. rq_run s \<noteq> RunRaised e) \<and> (rq_run s = RunDone \<longrightarrow> rq_wait s \<and> rq_on_ready s = None) \<and>
    (\<forall>k. rq_run s = ReadyTest \<and> rq_on_ready s = Some k \<longrightarrow>
       (\<exists>s'. Option.bind (run_step None s) (\<lambda>s. Option.bind (run_step None s) (run_step None)) = Some s' \<and>
         rq_run s' = RunDone \<and> rq_called s' = rq_called s @ [OnReady k]))"
  using uncancelled_inv [OF assms]
  by (auto simp: rpc_inv_def rq_wait_def run_step_def before_ready_def)

theorem rpc_callbacks_once_witness:
  "\<exists>s. rpc_actions [Run None, Register 1, Register 2, Run None, Run None, Register 3, Run None, Run None, Run None] (rq_new False) = Some s \<and>
     rq_called s = [OnReady 3, OnReady 2] \<and> distinct (rq_called s)"
proof -
  let ?as = "[Run None, Register 1, Register 2, Run None, Run None, Register 3, Run None, Run None, Run None]"
  let ?s = "\<lparr>rq_ready = True, rq_running = True, rq_error = None, rq_on_ready = None, rq_on_cancel = False,
     rq_run = RunDone, rq_cancel = CancelEnter, rq_called = [OnReady 3, OnReady 2]\<rparr>"
  have e: "rpc_actions ?as (rq_new False) = Some ?s"
    by (simp add: rq_new_def run_step_def rq_onReady_def)
  have "uncancelled ({} \<union> set (registered ?as)) ?s" by (rule uncancelled_actions [OF uncancelled.start e]) simp_all
  from rpc_callbacks_once [OF this] e show ?thesis by simp
qed

text \<open>A cancellation while the request runs makes two threads finish it: \<open>returnSuccess\<close> does not test whether the
  request is ready already. The callback can then be called twice, and the request is ready with the error of the
  cancellation although its call succeeded; and one thread can reset the callback between the test and the call of
  the other, which then calls an empty function.\<close>

theorem rpc_cancel_race:
  "(\<exists>as s. rpc_actions as (rq_new False) = Some s \<and> rq_called s = [OnReady k, OnReady k] \<and> rq_run s = RunDone \<and>
      rq_error s = Some (None, ''RPCRequest cancelled'')) \<and>
   (\<exists>as s. rpc_actions as (rq_new False) = Some s \<and> rq_run s = RunRaised StdException)"
proof (intro conjI)
  let ?as = "[Register k, Run None, Run None, Cancel, Run None, Cancel, Cancel, Run None, Cancel, Run None, Run None]"
  have "\<exists>s. rpc_actions ?as (rq_new False) = Some s \<and> rq_called s = [OnReady k, OnReady k] \<and> rq_run s = RunDone \<and>
      rq_error s = Some (None, ''RPCRequest cancelled'')"
    by (simp add: rq_new_def run_step_def cancel_step_def rq_onReady_def)
  then show "\<exists>as s. rpc_actions as (rq_new False) = Some s \<and> rq_called s = [OnReady k, OnReady k] \<and> rq_run s = RunDone \<and>
      rq_error s = Some (None, ''RPCRequest cancelled'')" by blast
  let ?bs = "[Register k, Run None, Run None, Cancel, Run None, Cancel, Cancel, Run None, Cancel, Cancel, Run None]"
  have "\<exists>s. rpc_actions ?bs (rq_new False) = Some s \<and> rq_run s = RunRaised StdException"
    by (simp add: rq_new_def run_step_def cancel_step_def rq_onReady_def)
  then show "\<exists>as s. rpc_actions as (rq_new False) = Some s \<and> rq_run s = RunRaised StdException" by blast
qed

end
