(* ===== verification/Spec2Isabelle.thy ===== *)
theory Spec2Isabelle
  imports Stx_Prelude Stx_Buffer Stx_Streams Stx_BinaryMessage Stx_StringUtil Stx_UTF8 Stx_URI
    Stx_JSON Stx_JSONUtil Stx_HTTP Stx_Protobuf Stx_Message Stx_Monitor Stx_Queue Stx_ThreadPool Stx_Future Stx_PageManager
    Stx_HashSet Stx_SHA1 Stx_SecureCookie Stx_Time Stx_Human Stx_JSONText Stx_SchemaJSON
    Stx_DynamicMessage Stx_SSE Stx_HTTPServer Stx_HTTPResponse Stx_HTTPClient Stx_Scheduler
    Stx_JSONDocument Stx_JSONImpl Stx_CSV Stx_Flags Stx_Statsd Stx_EventLoop Stx_Executor
    Stx_JSONRPC Stx_DirectExecutor Stx_RPCRequest
begin

text \<open>
  A verification of libstx, the C++ standard library extensions under \<open>src/src/stx\<close>: buffers and
  byte streams, text (strings, UTF-8, URIs, time stamps), JSON, schema-described messages, HTTP,
  signed cookies, CSV, command lines, statistics, on-disk structures, schedulers and the thread library. File names below are relative to
  \<open>src/src/stx\<close>.

  \<^bold>\<open>How the program is put together.\<close> Everything that produces bytes writes to an \<open>OutputStream\<close> and
  everything that consumes them reads from an \<open>InputStream\<close>; both are abstract classes with one
  virtual method (\<open>write\<close>, \<open>readNextByte\<close>), and the encoders above them (varints, JSON, HTTP,
  messages, schemas) only use that method. A \<open>BufferedOutputStream\<close> may sit in between. Messages
  are trees described by a \<open>MessageSchema\<close>; they are stored in the binary format of
  \<open>MessageEncoder\<close>, shown as JSON by \<open>JSONEncoder\<close> and read from JSON by \<open>DynamicMessage\<close>. An HTTP
  server connection feeds what the socket delivers to the HTTP parser, whose callbacks build the
  request; the router picks a service, the service's response goes through the response stream back
  to the socket. An HTTP client connection generates a request, sends it, feeds what it receives to the
  same parser and fulfils the promise of a response. The schedulers (\<open>PosixScheduler\<close>, \<open>EventLoop\<close>) call the
  connections back when \<open>select\<close> reports their sockets, timers expire or tasks are queued; the thread library
  (queues, pools, futures) runs tasks on threads.

  \<^bold>\<open>Conventions.\<close> A C++ class is a record, a method a function from the object to a result and the
  object it leaves. Exceptions are values: \<open>Inl\<close> of \<open>stx_error\<close>, whose constructors are the error
  kinds of the source plus \<open>StdException\<close> for exceptions of the standard library and
  \<open>UndefinedBehaviour\<close> where C++ gives no meaning (a read outside of an object). The type \<open>'a comp\<close>
  is \<open>(stx_error + 'a) option\<close>: its \<open>None\<close> is a loop that never returns. Such loops are
  \<open>partial_function (option)\<close>; no fuel is used anywhere, and every theorem about them states that
  they return. \<open>size_t\<close> and the other fixed-width integers are words where a claim depends on the
  width; indices into objects in memory are natural numbers. Strings are character lists and bytes
  are \<open>8 word\<close>. Functions that libstx takes from the C library and that are not code of the
  repository (\<open>read\<close>, \<open>lseek\<close>, \<open>strptime\<close>, \<open>stod\<close>, the clock) are arguments; a double is its 64-bit pattern.

  \<^bold>\<open>The theories.\<close>

  \<^item> \<open>Stx_Prelude\<close>: errors, \<open>comp\<close> and its sequencing, bytes of a word, shared list and word lemmas.
  \<^item> \<open>Stx_Buffer\<close>: \<open>buffer.cc\<close>, \<open>bufferutil.cc\<close>, \<open>io/BufferedOutputStream.cc\<close>. The locale \<open>byte_sink\<close>
    is the contract of an output stream (a write succeeds and appends exactly its bytes);
    \<open>buffered_sink\<close> shows that the buffered stream over a sink is a sink again.
  \<^item> \<open>Stx_Streams\<close>: \<open>io/inputstream.cc\<close>, \<open>io/outputstream.cc\<close>. The locale \<open>byte_source\<close> is the contract
    of an input stream, interpreted for the string, buffer, memory and file streams;
    \<open>regular_file\<close> is the contract of the system call behind the file stream; \<open>channel\<close> pairs a sink
    and a source and carries the round trips of the binary encodings.
  \<^item> \<open>Stx_BinaryMessage\<close>: \<open>util/binarymessagewriter.cc\<close>, \<open>util/binarymessagereader_impl.h\<close>; both are
    interpretations of the stream contracts, and the 64-bit bounds check is analysed.
  \<^item> \<open>Stx_StringUtil\<close>, \<open>Stx_UTF8\<close>, \<open>Stx_URI\<close>: \<open>stringutil.cc\<close>, \<open>UTF8.cc\<close>, \<open>uri.cc\<close>, \<open>http/cookies.cc\<close>.
    Replacement, splitting and formatting against reference functions; round trips of encodings,
    URIs, query strings and cookies.
  \<^item> \<open>Stx_JSON\<close>, \<open>Stx_JSONUtil\<close>, \<open>Stx_JSONText\<close>: \<open>json/\<close>. Tokens, the tokenizer, the parser that computes
    the sizes of composite values, the writer with its automatic commas, the lookups in flat token
    lists, JSON pointers, the direct writing methods and the printing of doubles. \<open>flatten\<close> of a tree
    of values is the abstract view of a token list.
  \<^item> \<open>Stx_JSONDocument\<close>, \<open>Stx_JSONImpl\<close>: \<open>json/flatjsonreader.cc\<close> and \<open>json/jsondocument.cc\<close>, against the list of
    scalar values of a tree with their pointers; the encoders and decoders of \<open>json/json_impl.h\<close>, with the
    locale \<open>json_codec\<close> as the contract of a pair of them, which containers preserve.
  \<^item> \<open>Stx_JSONRPC\<close>, \<open>Stx_RPCRequest\<close>: JSON RPC over HTTP (\<open>json/jsonrpc*\<close>, \<open>json/JSONRPCCodec_impl.h\<close>), where the locale
    \<open>rpc_method\<close> is a method whose arguments and result have codecs; the threads around one call (\<open>rpc/RPCRequest.cc\<close>).
  \<^item> \<open>Stx_HTTP\<close>: messages, parser and generator of \<open>http/\<close>. The callbacks of the parser are the list of
    events it emits. \<open>tokens_fit\<close> says when a message is accepted however it is cut: its tokens are within the
    limits the parser has for unfinished ones.
  \<^item> \<open>Stx_HTTPServer\<close>: \<open>http/httpserverconnection.cc\<close>, \<open>http/HTTPResponseStream.cc\<close>,
    \<open>http/httpservice.cc\<close>, \<open>http/httprouter.cc\<close>. The connection is driven by events: what the socket
    returns to \<open>read\<close> and \<open>write\<close> and the tasks of the scheduler, in any order the flags allow. The
    inductive predicate \<open>server_phase\<close> describes its reachable states (reading the head, reading the
    body, writing, closed, stuck).
  \<^item> \<open>Stx_HTTPResponse\<close>, \<open>Stx_HTTPClient\<close>: responses through generator and parser;
    \<open>http/httpclientconnection.cc\<close>, \<open>http/httpresponsefuture.cc\<close>, \<open>http/httpconnectionpool.cc\<close>. The client is
    driven by events as the server is, and the two are put together over the bytes they exchange.
  \<^item> \<open>Stx_SSE\<close>: \<open>http/HTTPSSEParser.cc\<close>, \<open>http/HTTPSSEStream.cc\<close>.
  \<^item> \<open>Stx_Protobuf\<close>, \<open>Stx_Message\<close>, \<open>Stx_SchemaJSON\<close>, \<open>Stx_DynamicMessage\<close>: \<open>protobuf/\<close>. Schemas with
    their lookup maps and their binary and JSON forms, message trees, the binary codec, the JSON
    encoder, the printer and messages built by name.
  \<^item> \<open>Stx_HashSet\<close>: \<open>util/PersistentHashSet.cc\<close>, \<open>fnv.cc\<close>, with the locale \<open>id_set\<close> as the abstract set.
  \<^item> \<open>Stx_PageManager\<close>: \<open>io/pagemanager.cc\<close>.
  \<^item> \<open>Stx_SHA1\<close>, \<open>Stx_SecureCookie\<close>: \<open>SHA1.cc\<close>, \<open>HMAC.cc\<close>, \<open>util/Base64.cc\<close>, \<open>web/SecureCookie.cc\<close>; SHA-1
    against the definition of the standard.
  \<^item> \<open>Stx_Time\<close>, \<open>Stx_Human\<close>: \<open>CivilTime.cc\<close>, \<open>ISO8601.cc\<close>, \<open>UnixTime.cc\<close>, \<open>duration.cc\<close>, \<open>human.cc\<close>;
    Unix time against a calendar of its own, detected types against what a value of a type is.
  \<^item> \<open>Stx_Monitor\<close>, \<open>Stx_Queue\<close>, \<open>Stx_ThreadPool\<close>, \<open>Stx_Future\<close>: \<open>thread/\<close>. A critical section is a function
    that completes or waits; \<open>Stx_Monitor\<close> interleaves any number of threads over one mutex with
    spurious and shared wakeups, and the locales \<open>monitor_ok\<close> and \<open>monitor_live\<close> carry the invariant
    and the progress proofs of the queues and futures.
  \<^item> \<open>Stx_Scheduler\<close>, \<open>Stx_EventLoop\<close>, \<open>Stx_Executor\<close>, \<open>Stx_DirectExecutor\<close>: \<open>executor/PosixScheduler.cc\<close> with its watchers as a linked list
    in an explicit store, \<open>thread/eventloop.cc\<close> (the answers of \<open>select\<close> and the effects of callbacks are
    arguments), \<open>executor/ThreadPool.cc\<close> as steps of threads between their accesses to shared state,
    \<open>executor/DirectExecutor.cc\<close> with the calls in progress as a list of frames.
  \<^item> \<open>Stx_CSV\<close>, \<open>Stx_Flags\<close>, \<open>Stx_Statsd\<close>: \<open>csv/\<close> over any byte source and sink, \<open>cli/flagparser.cc\<close> with
    \<open>cli/CLI.cc\<close> (flag names are C strings with an address), \<open>stats/\<close>, where counters are
    converted to doubles and printed as the code does and reading them back is an argument.

  \<^bold>\<open>What is shown.\<close> Round trips of every format the library writes and reads (varints, length-prefixed
  strings, JSON, URIs, cookies, HTTP requests and responses, messages and schemas in binary and JSON form,
  events, CSV);
  that parsing does not depend on how the network cuts the data, within the limits of the parser; that buffering, block reads and
  batched probes refine their plain counterparts; that the hash set is a set and the page allocator
  never hands out overlapping pages; that an HTTP server connection answers what it was asked, under
  every schedule that runs its tasks in order, and terminates, and that a client connected to it gets that answer; that a remote call over
  JSON RPC gives the result of the method; that a turn of a
  scheduler runs what is due and keeps the rest; that command lines and the samples of a statistics agent
  arrive as they were meant; safety and progress of the thread library; and, as theorems too,
  the places where the code does not do this: bounds checks that wrap around, responses that hang
  a connection, values that are dropped on the way through JSON.

  \<^bold>\<open>Bounds.\<close> Where a theorem has a size hypothesis it is the width of the length field in the code
  (\<open>2 ^ 64\<close> bytes for HTTP bodies and messages, \<open>2 ^ 29\<close> bytes for SHA-1, \<open>2 ^ 62\<close> for the weight of the
  hash set) or the size of a fixed buffer (8187 characters for keys printed by \<open>printf\<close>), or a limit of the
  HTTP parser (16 characters for method, version and status name, 8192 for a URI, 65535 for a header line).

  \<^bold>\<open>Not modelled.\<close> System calls and what only wraps them (files and file locks, sockets and name resolution,
  terminal, logging, processes); the templates of \<open>reflect/\<close> and the RPC clients that only pass calls on; the SIMD bit packing (vendored code); the import of protobuf descriptors
  (calls the protobuf library); streaming HTTP services and the blocking HTTP client, which wait on the
  connections modelled here; the conversions to UTF-16; the printing of usage texts; \<open>ini_parser.cc\<close>, which is
  a stub; reference counting and memory allocation; the counters of the HTTP server.
\<close>

section \<open>Properties that span components\<close>

text \<open>C10. A JSON document without control characters that the reader drops (\<open>json_safe\<close>), written through a
  \<open>BufferedOutputStream\<close> of any non-zero capacity into a buffer and flushed, is parsed from that buffer as it is without
  the buffering: to the tokens of the document in which every number has become a string (\<open>quote_numbers\<close>).\<close>

theorem json_through_buffered_stream:
  assumes "json_safe v" "0 < cap"
  shows "\<exists>stack s s'. jos_write (bos_write buffer_put) (flatten v) ([], bos_new buffer_new cap) = ret (stack, s) \<and>
    bos_flush buffer_put s = ret s' \<and> parseJSON_buffer (bos_os s') = ret (flatten (quote_numbers v))"
proof -
  have new: "bos_invar buffer_init cap (bos_new buffer_new cap)"
    "bos_written contents (bos_new buffer_new cap) = []"
    using assms(2) by (simp_all add: bos_invar_def bos_new_def bos_written_def buffer_init_def
        buffer_wf_def buffer_new_def reserve_def contents_def)
  obtain stack s txt0 where s: "jos_write (bos_write buffer_put) (flatten v) ([], bos_new buffer_new cap) =
      ret (stack, s)" "bos_invar buffer_init cap s" "token_stream (raw (flatten v)) txt0"
    "bos_written contents s = bytes_of txt0"
    using byte_sink.jos_write_ok [OF buffered_buffer_sink new(1)] new(2) by fastforce
  obtain s' where s': "bos_flush buffer_put s = ret s'" "bos_invar buffer_init cap s'"
    "bos_written contents s' = bytes_of txt0" "bsize (bos_buf s') = 0"
    using buf_sink.bos_flush_ok [OF s(2)] s(4) by auto
  then have b: "contents (bos_os s') = bytes_of txt0" "buffer_init (bos_os s')"
    by (simp_all add: bos_written_def contents_def bos_invar_def)
  then have "bis_rest (bis_new (bos_os s')) = txt0" by (simp add: buffer_channel.rest_open)
  with bis.parse_document [OF _ assms(1)] s(3) buffer_channel.open_ok [OF b(2)]
  have "parseJSON_buffer (bos_os s') = ret (flatten (quote_numbers v))"
    by (simp add: parseJSON_buffer_def)
  with s(1) s'(1) show ?thesis by blast
qed

theorem json_through_buffered_stream_witness:
  "\<exists>stack s s'. jos_write (bos_write buffer_put) (flatten (JArr [JStr ''abc'', JTrue])) ([], bos_new buffer_new 3) =
      ret (stack, s) \<and> bos_flush buffer_put s = ret s' \<and>
    parseJSON_buffer (bos_os s') = ret (flatten (JArr [JStr ''abc'', JTrue]))"
  using json_through_buffered_stream [of "JArr [JStr ''abc'', JTrue]" 3] by (simp add: json_safe_chr_def)

text \<open>C2. A message sent over HTTP arrives: the body of a POST request that carries an encoded message
  is, after generating and parsing the request, decoded to that message.\<close>

theorem message_over_http:
  assumes "conforms_all cs sc" "length (objects_bytes cs) + 1 < 2 ^ 64"
    and "hm_body r = []" "request_wf r"
  shows "\<exists>b out req. MessageEncoder_encode (MessageObject i (Obj cs)) sc buffer_new = ret b \<and>
    generate_request sos_write (addBody (buffer_toString b) r) [] = ret out \<and>
    HTTPRequest_parse out = Inr req \<and>
    MessageDecoder_decode (bytes_of (hm_body req)) sc (MessageObject i (Obj [])) =
      ret (MessageObject i (Obj cs))"
proof -
  obtain b where b: "MessageEncoder_encode (MessageObject i (Obj cs)) sc buffer_new = ret b"
    "contents b = objects_bytes cs"
    "MessageDecoder_decode (contents b) sc (MessageObject i (Obj [])) = ret (MessageObject i (Obj cs))"
    using encode_decode_objects [OF assms(1,2)] by blast
  let ?r = "addBody (buffer_toString b) r"
  have wf: "request_wf ?r"
    using assms(2,4) b(2) by (simp add: request_wf_def addBody_def buffer_toString_def)
  obtain out where out: "generate_request sos_write ?r [] = ret out" "out = request_text ?r"
    using sos.generate_request_ok [where out = "[]" and r = ?r] wf bytes_of_inject by auto
  have "hm_body ?r = string_of (contents b)" by (simp add: addBody_def buffer_toString_def)
  with HTTPRequest_parse_text [OF wf] out b(1,3) show ?thesis by fastforce
qed

theorem message_over_http_witness:
  "\<exists>b out req. MessageEncoder_encode (MessageObject 0 (Obj [MessageObject 1 (Str ''hi'')]))
      (MessageSchema ''m'' [Field 1 ''a'' STRING 0 False False NONE None]) buffer_new = ret b \<and>
    generate_request sos_write (addBody (buffer_toString b) (req_new M_POST ''/'')) [] = ret out \<and>
    HTTPRequest_parse out = Inr req \<and>
    MessageDecoder_decode (bytes_of (hm_body req))
      (MessageSchema ''m'' [Field 1 ''a'' STRING 0 False False NONE None]) (MessageObject 0 (Obj [])) =
      ret (MessageObject 0 (Obj [MessageObject 1 (Str ''hi'')]))"
proof -
  let ?sc = "MessageSchema ''m'' [Field 1 ''a'' STRING 0 False False NONE None]"
  let ?cs = "[MessageObject 1 (Str ''hi'')]"
  have "conforms_all ?cs ?sc"
    by (simp add: MessageSchema_def addField_def setName_def schema_null_def emplace_def)
  moreover have "length (objects_bytes ?cs) + 1 < 2 ^ 64"
    by (simp add: key_bytes_def block_def varuint_bytes.simps)
  moreover have "hm_body (req_new M_POST ''/'') = []" "request_wf (req_new M_POST ''/'')"
    by (simp_all add: req_new_def request_wf_def)
  ultimately show ?thesis using message_over_http by blast
qed

text \<open>Parameters put into the query of a URI come out of it: building the query string, printing the
  URI, parsing the text and asking for the parameters gives the same list.\<close>

theorem uri_query_params_roundtrip:
  assumes "uri_wf u" "\<forall>p \<in> set ps. fst p \<noteq> []"
  shows "\<exists>q u'. buildQueryString ps = Some q \<and> parseURI (uri_toString (u\<lparr>query := q\<rparr>)) uri_new = Inr u' \<and>
    queryParams u' = Inr ps"
proof -
  have "CHR ''#'' \<notin> set (query_text ps)" by (rule query_text_no_hash)
  then have "uri_wf (u\<lparr>query := query_text ps\<rparr>)"
    using assms(1) by (auto simp: uri_wf_def list_all_iff)
  then have "parseURI (uri_toString (u\<lparr>query := query_text ps\<rparr>)) uri_new = Inr (u\<lparr>query := query_text ps\<rparr>)"
    by (rule parseURI_toString)
  then show ?thesis
    using parseQueryString_query_text [OF assms(2)] buildQueryString_eq [of ps]
    by (auto simp: queryParams_def parseQueryString.simps)
qed

theorem uri_query_params_roundtrip_witness:
  "\<exists>q u'. buildQueryString [(''k'', ''a b#c'')] = Some q \<and>
    parseURI (uri_toString (\<lparr>scheme = ''http'', userinfo = [], host = ''h'', port = 80, path = ''/'',
      query = [], fragment = []\<rparr>\<lparr>query := q\<rparr>)) uri_new = Inr u' \<and> queryParams u' = Inr [(''k'', ''a b#c'')]"
  using uri_query_params_roundtrip [of "\<lparr>scheme = ''http'', userinfo = [], host = ''h'', port = 80,
      path = ''/'', query = [], fragment = []\<rparr>" "[(''k'', ''a b#c'')]"]
  by (simp add: uri_wf_def uri_delim_def)

end
